(* ===== verification/Prelude.thy ===== *)
theory Prelude
  imports Main "HOL-Library.Word" "HOL-Library.Monad_Syntax"
begin

text \<open>
  Shared notions of the development: the machine types of the C code, the reading of
  \<^typ>\<open>'a option\<close> as "the run goes on with this value / the run has stopped", and the
  generic lemmas on lists and words the components use.

  Conventions, kept by every theory:
  \<^item> \<open>unsigned int\<close> is \<^typ>\<open>32 word\<close> and \<open>unsigned long\<close> is \<^typ>\<open>64 word\<close>, so additions wrap as in
    the code; an \<open>int\<close> result is an \<^typ>\<open>int\<close> (the code only returns small values and \<open>-1\<close>);
  \<^item> a C function that may stop the program (\<open>panic\<close>, \<open>assert\<close>, \<open>exit\<close>, an access outside
    an array, a division by zero, a loop that never ends) has result type \<open>('a \<times> 's) option\<close>:
    \<open>None\<close> is the stopped run, \<open>Some (a, s)\<close> is the returned value with the new state;
  \<^item> an ordinary failure (\<open>return -1\<close>) is a returned value, never \<open>None\<close>.
\<close>

unbundle bit_operations_syntax

type_synonym u8 = "8 word"
type_synonym u32 = "32 word"
type_synonym u64 = "64 word"

named_theorems sim_intros \<open>rules that build a simulation between two runs\<close>
named_theorems img_simps \<open>the operations of the reference disk\<close>

section \<open>Words\<close>

lemma unat32_less: "unat (w :: u32) < 4294967296"
  using unsigned_less [of w] by simp

lemma unat32_le: "unat (w :: u32) \<le> 4294967295"
  using unat32_less [of w] by simp

lemma unat32_add: "unat a + unat (b :: u32) < 4294967296 \<Longrightarrow> unat (a + b) = unat a + unat b"
  by (simp add: unat_word_ariths)

lemma unat32_Suc: "unat (a :: u32) < 4294967295 \<Longrightarrow> unat (a + 1) = Suc (unat a)"
  by (simp add: unat_word_ariths)

lemma unat32_minus_one: "unat (- 1 :: u32) = 4294967295"
  by (simp add: unsigned_minus_1_eq_mask mask_eq_exp_minus_1)

lemma unat32_inject: "(unat (a :: u32) = unat b) = (a = b)"
  by (simp add: word_unat_eq_iff)

lemma unat32_Suc_neq: "(a :: u32) \<noteq> - 1 \<Longrightarrow> unat (a + 1) = Suc (unat a)"
proof -
  assume "a \<noteq> - 1"
  then have "unat a \<noteq> 4294967295" using unat32_minus_one unat32_inject by metis
  then show ?thesis using unat32_le [of a] by (intro unat32_Suc) simp
qed

lemma unat32_of_nat: "n < 4294967296 \<Longrightarrow> unat (of_nat n :: u32) = n"
  by (simp add: unat_of_nat)

lemma sint32_small: "unat (w :: u32) < 2147483648 \<Longrightarrow> sint w = int (unat w)"
proof -
  assume small: "unat w < 2147483648"
  have "uint w = int (unat w)" by simp
  moreover have "sint w = uint w"
  proof -
    have "uint w < 2 ^ 31" using small by (simp flip: of_nat_less_iff [where ?'a = int])
    moreover have "- (2 ^ 31) \<le> uint w" by (rule order_trans [OF _ unsigned_greater_eq]) simp
    ultimately have "signed_take_bit 31 (uint w) = uint w"
      by (rule signed_take_bit_int_eq_self [rotated])
    then show ?thesis by (simp add: sint_uint)
  qed
  ultimately show ?thesis by simp
qed

section \<open>Lists\<close>

lemma nth_update: "i < length xs \<Longrightarrow> xs[j := x] ! i = (if i = j then x else xs ! i)"
  by (auto simp: nth_list_update)

lemma nth_list_update_if: "xs[i := x] ! j = (if j = i \<and> i < length xs then x else xs ! j)"
  by (cases "i < length xs") (auto simp: nth_list_update list_update_beyond)

lemma distinct_concat_map_nth:
  assumes "distinct (concat (map f [0..<n]))" "i < n" "j < n" "x \<in> set (f i)" "x \<in> set (f j)"
  shows "i = j"
  using assms
proof (induction n)
  case 0
  then show ?case by simp
next
  case (Suc n)
  have disj: "set (concat (map f [0..<n])) \<inter> set (f n) = {}"
    using Suc.prems(1) by auto
  have sub: "set (f k) \<subseteq> set (concat (map f [0..<n]))" if "k < n" for k
    using that by auto
  consider "i < n" "j < n" | "i = n" "j = n" | "i < n" "j = n" | "i = n" "j < n"
    using Suc.prems(2,3) by linarith
  then show ?case
  proof cases
    case 1
    then show ?thesis using Suc by auto
  next
    case 2
    then show ?thesis by simp
  next
    case 3
    then show ?thesis using disj sub [of i] Suc.prems(4,5) by blast
  next
    case 4
    then show ?thesis using disj sub [of j] Suc.prems(4,5) by blast
  qed
qed

section \<open>Scans\<close>

text \<open>
  \<open>scan p lo hi\<close> is the loop \<open>for (i = lo; i < hi; i++) if (p(i)) break;\<close>: it returns the
  final \<open>i\<close>, which is \<open>hi\<close> (or \<open>lo\<close>, if that is larger) when no index satisfies \<open>p\<close>.
\<close>

function scan :: "(nat \<Rightarrow> bool) \<Rightarrow> nat \<Rightarrow> nat \<Rightarrow> nat" where
  "scan p lo hi = (if lo < hi \<and> \<not> p lo then scan p (Suc lo) hi else lo)"
  by pat_completeness auto
termination
  by (relation "measure (\<lambda>(p, lo, hi). hi - lo)") auto

declare scan.simps [simp del]

lemma scan_stop [simp]: "p lo \<Longrightarrow> scan p lo hi = lo"
  by (simp add: scan.simps)

lemma scan_end [simp]: "hi \<le> lo \<Longrightarrow> scan p lo hi = lo"
  by (simp add: scan.simps)

lemma scan_step: "lo < hi \<Longrightarrow> \<not> p lo \<Longrightarrow> scan p lo hi = scan p (Suc lo) hi"
  by (subst scan.simps) simp

lemma scan_bounds: "lo \<le> hi \<Longrightarrow> lo \<le> scan p lo hi \<and> scan p lo hi \<le> hi"
proof (induction p lo hi rule: scan.induct)
  case (1 p lo hi)
  then show ?case by (cases "lo < hi \<and> \<not> p lo") (auto simp: scan.simps [of p lo hi])
qed

lemma scan_found: "scan p lo hi < hi \<Longrightarrow> p (scan p lo hi)"
proof (induction p lo hi rule: scan.induct)
  case (1 p lo hi)
  then show ?case by (cases "lo < hi \<and> \<not> p lo") (auto simp: scan.simps [of p lo hi])
qed

lemma scan_skipped: "lo \<le> i \<Longrightarrow> i < scan p lo hi \<Longrightarrow> \<not> p i"
proof (induction p lo hi rule: scan.induct)
  case (1 p lo hi)
  show ?case
  proof (cases "lo < hi \<and> \<not> p lo")
    case True
    show ?thesis
    proof (cases "i = lo")
      case False
      with 1 True show ?thesis by (auto simp: scan.simps [of p lo hi])
    qed (use True in simp)
  next
    case False
    with "1.prems" show ?thesis by (auto simp: scan.simps [of p lo hi])
  qed
qed

lemma scan_missed: "scan p lo hi = hi \<Longrightarrow> lo \<le> i \<Longrightarrow> i < hi \<Longrightarrow> \<not> p i"
  using scan_skipped [of lo i p hi] by simp

lemma scan_le: "scan p 0 hi \<le> hi"
  using scan_bounds [of 0 hi p] by simp

lemma scan_cases [case_names found missed]:
  assumes "\<lbrakk>scan p 0 hi < hi; p (scan p 0 hi)\<rbrakk> \<Longrightarrow> P"
    and "\<lbrakk>scan p 0 hi = hi; \<And>i. i < hi \<Longrightarrow> \<not> p i\<rbrakk> \<Longrightarrow> P"
  shows P
proof (cases "scan p 0 hi < hi")
  case True
  then show ?thesis using assms(1) scan_found by blast
next
  case False
  with scan_le [of p hi] have "scan p 0 hi = hi" by simp
  then show ?thesis using assms(2) scan_missed [of p 0 hi] by blast
qed

section \<open>Updates of parts of lists\<close>

lemma take_update_less: "j < n \<Longrightarrow> take n (xs[j := x]) = (take n xs)[j := x]"
  by (simp add: take_update_swap)

lemma drop_update_add: "drop d (xs[d + j := x]) = (drop d xs)[j := x]"
  by (simp add: drop_update_swap)

end
