(* ===== verification/BlockStore.thy ===== *)
theory BlockStore
  imports Prelude
begin

text \<open>
  The interface of all block store modules (\<open>egos/grass/block/block_store.h\<close>): blocks, their
  view as arrays of 32-bit references, the table of methods \<open>block_store_t\<close>, and the contract
  a well-behaved store satisfies. A module over another store is a function of the method
  table below it, as in C; its state is passed explicitly.

  The contract is a simulation: a store with invariant \<open>ok\<close> and abstraction \<open>img\<close> behaves as
  the reference disk \<open>img_store\<close>, a plain list of blocks. A client proved correct on
  \<open>img_store\<close> is then correct on every store of the contract (locale \<open>block_store\<close>).
\<close>

section \<open>Blocks\<close>

definition BLOCK_SIZE :: nat where
  "BLOCK_SIZE = 1024"

text \<open>
  A \<open>block_t\<close> is an array of \<open>BLOCK_SIZE\<close> bytes, here one little-endian word of
  \<open>8 * BLOCK_SIZE\<close> bits: byte \<open>i\<close> is bits \<open>8 * i\<close> to \<open>8 * i + 7\<close>. The casts of a block to an
  array of \<open>unsigned int\<close> (indirect blocks, inode blocks, free list blocks, FAT blocks) are
  \<open>rd32\<close> and \<open>wr32\<close>.
\<close>

type_synonym block_no = "32 word"
type_synonym block = "8192 word"

definition null_block :: block where
  "null_block = 0"

definition REFS_PER_BLOCK :: nat where
  "REFS_PER_BLOCK = BLOCK_SIZE div 4"

definition rd32 :: "block \<Rightarrow> nat \<Rightarrow> u32" where
  "rd32 b i = ucast (drop_bit (32 * i) b)"

definition wr32 :: "block \<Rightarrow> nat \<Rightarrow> u32 \<Rightarrow> block" where
  "wr32 b i w = (b AND NOT (push_bit (32 * i) (mask 32))) OR push_bit (32 * i) (ucast w)"

lemma RPB [simp]: "REFS_PER_BLOCK = 256"
  by (simp add: REFS_PER_BLOCK_def BLOCK_SIZE_def)

lemma block_bits: "LENGTH(8192) = 8 * BLOCK_SIZE"
  by (simp add: BLOCK_SIZE_def)

lemma rd32_null [simp]: "rd32 null_block i = 0"
  by (simp add: rd32_def null_block_def)

lemma rd32_wr32 [simp]:
  assumes "i < 256" "j < 256"
  shows "rd32 (wr32 b i w) j = (if i = j then w else rd32 b j)"
proof (rule bit_word_eqI)
  fix n assume n: "n < LENGTH(32)"
  have "32 * i + n < 8192" "32 * j + n < 8192" using assms n by auto
  moreover have "32 * i \<le> 32 * j + n \<and> 32 * j + n < 32 * i + 32 \<longleftrightarrow> i = j" using n by auto
  ultimately show "bit (rd32 (wr32 b i w) j) n = bit (if i = j then w else rd32 b j) n" using n
    by (auto simp: rd32_def wr32_def bit_simps dest: bit_imp_le_length)
qed

lemma wr32_rd32 [simp]: "i < 256 \<Longrightarrow> wr32 b i (rd32 b i) = b"
  by (rule bit_word_eqI) (auto simp: rd32_def wr32_def bit_simps dest: bit_imp_le_length)

lemma wr32_wr32 [simp]: "i < 256 \<Longrightarrow> wr32 (wr32 b i v) i w = wr32 b i w"
  by (rule bit_word_eqI) (auto simp: rd32_def wr32_def bit_simps dest: bit_imp_le_length)

lemma block_eqI:
  assumes "\<And>i. i < 256 \<Longrightarrow> rd32 a i = rd32 b i"
  shows "a = b"
proof (rule bit_word_eqI)
  fix n assume n: "n < LENGTH(8192)"
  then have "n div 32 < 256" by auto
  then have "bit (rd32 a (n div 32)) (n mod 32) = bit (rd32 b (n div 32)) (n mod 32)"
    using assms by simp
  with n show "bit a n = bit b n" by (simp add: rd32_def bit_simps)
qed

section \<open>The method table\<close>

text \<open>
  \<open>bs_read\<close> returns \<open>Some b\<close> where the C method returns 0 with \<open>*block = b\<close>, and \<open>None\<close> where
  it returns \<open>-1\<close>. The other methods return their \<open>int\<close>. The outer \<open>option\<close> is \<open>None\<close> when the
  call stops the program. \<open>destroy\<close> only frees memory and has no counterpart.
\<close>

record 's block_store_t =
  bs_nblocks :: "'s \<Rightarrow> (int \<times> 's) option"
  bs_read :: "'s \<Rightarrow> block_no \<Rightarrow> (block option \<times> 's) option"
  bs_write :: "'s \<Rightarrow> block_no \<Rightarrow> block \<Rightarrow> (int \<times> 's) option"
  bs_setsize :: "'s \<Rightarrow> block_no \<Rightarrow> (int \<times> 's) option"

section \<open>The reference disk\<close>

definition img_nblocks :: "block list \<Rightarrow> (int \<times> block list) option" where
  "img_nblocks D = Some (int (length D), D)"

definition img_read :: "block list \<Rightarrow> block_no \<Rightarrow> (block option \<times> block list) option" where
  "img_read D off = Some (if unat off < length D then Some (D ! unat off) else None, D)"

definition img_write :: "block list \<Rightarrow> block_no \<Rightarrow> block \<Rightarrow> (int \<times> block list) option" where
  "img_write D off b =
     (if unat off < length D then Some (0, D[unat off := b]) else Some (- 1, D))"

definition img_setsize :: "block list \<Rightarrow> block_no \<Rightarrow> (int \<times> block list) option" where
  "img_setsize D n =
     (if unat n \<le> length D then Some (int (length D), take (unat n) D) else None)"

definition img_store :: "block list block_store_t" where
  "img_store = \<lparr>bs_nblocks = img_nblocks, bs_read = img_read, bs_write = img_write,
     bs_setsize = img_setsize\<rparr>"

lemma img_store_simps [simp]:
  "bs_nblocks img_store = img_nblocks" "bs_read img_store = img_read"
  "bs_write img_store = img_write" "bs_setsize img_store = img_setsize"
  by (simp_all add: img_store_def)

lemma img_read_in [img_simps]: "unat off < length D \<Longrightarrow> img_read D off = Some (Some (D ! unat off), D)"
  by (simp add: img_read_def)

lemma img_write_in [img_simps]: "unat off < length D \<Longrightarrow> img_write D off b = Some (0, D[unat off := b])"
  by (simp add: img_write_def)

section \<open>Simulation\<close>

text \<open>
  \<open>sim ok img m m'\<close>: the run \<open>m\<close> on the store stops exactly when the run \<open>m'\<close> on the reference
  disk does, and otherwise returns the same value, keeps the invariant and leads to the same
  disk contents.
\<close>

definition sim :: "('s \<Rightarrow> bool) \<Rightarrow> ('s \<Rightarrow> block list) \<Rightarrow> ('a \<times> 's) option \<Rightarrow>
    ('a \<times> block list) option \<Rightarrow> bool" where
  "sim ok img m m' = (case m' of None \<Rightarrow> m = None
     | Some (a, D) \<Rightarrow> (\<exists>s. m = Some (a, s) \<and> ok s \<and> img s = D))"

lemma sim_None [sim_intros]: "sim ok img None None"
  by (simp add: sim_def)

lemma sim_Some [sim_intros]: "ok s \<Longrightarrow> img s = D \<Longrightarrow> sim ok img (Some (a, s)) (Some (a, D))"
  by (simp add: sim_def)

lemma sim_SomeD: "sim ok img m (Some (a, D)) \<Longrightarrow> \<exists>s. m = Some (a, s) \<and> ok s \<and> img s = D"
  by (simp add: sim_def)

lemma sim_NoneD: "sim ok img m None \<Longrightarrow> m = None"
  by (simp add: sim_def)

lemma sim_D: "sim ok img m m' \<Longrightarrow> m = Some (a, s) \<Longrightarrow> m' = Some (a, img s) \<and> ok s"
  by (auto simp: sim_def split: option.splits)

lemma sim_bind:
  assumes "sim ok img m m'" "\<And>a s. ok s \<Longrightarrow> sim ok img (f (a, s)) (g (a, img s))"
  shows "sim ok img (m \<bind> f) (m' \<bind> g)"
proof (cases m')
  case None
  with assms(1) show ?thesis by (simp add: sim_def)
next
  case (Some p)
  obtain a D where p: "p = (a, D)" by (cases p)
  with assms(1) Some obtain s where "m = Some (a, s)" "ok s" "img s = D"
    by (auto simp: sim_def)
  with assms(2) [of s a] Some p show ?thesis by simp
qed

lemma sim_bind_split [sim_intros]:
  assumes "sim ok img m m'" "\<And>a s. ok s \<Longrightarrow> sim ok img (f a s) (g a (img s))"
  shows "sim ok img (m \<bind> (\<lambda>(a, s). f a s)) (m' \<bind> (\<lambda>(a, s). g a s))"
  using assms by (auto intro: sim_bind)

lemma sim_if [sim_intros]:
  assumes "c \<Longrightarrow> sim ok img m m'" "\<not> c \<Longrightarrow> sim ok img n n'"
  shows "sim ok img (if c then m else n) (if c then m' else n')"
  using assms by simp

lemma sim_case_option [sim_intros]:
  assumes "x = None \<Longrightarrow> sim ok img m m'" "\<And>y. x = Some y \<Longrightarrow> sim ok img (f y) (g y)"
  shows "sim ok img (case x of None \<Rightarrow> m | Some y \<Rightarrow> f y) (case x of None \<Rightarrow> m' | Some y \<Rightarrow> g y)"
  using assms by (cases x) auto

lemma sim_case_prod [sim_intros]:
  assumes "\<And>a b. x = (a, b) \<Longrightarrow> sim ok img (f a b) (g a b)"
  shows "sim ok img (case x of (a, b) \<Rightarrow> f a b) (case x of (a, b) \<Rightarrow> g a b)"
  using assms by (cases x) auto

text \<open>A layer: the run below is followed by bookkeeping that changes neither result nor disk.\<close>

lemma sim_layer:
  assumes "sim ok img m m'"
    and "\<And>a s. m = Some (a, s) \<Longrightarrow> m' = Some (a, img s) \<Longrightarrow> ok s \<Longrightarrow>
      sim ok2 img2 (f (a, s)) (Some (a, img s))"
  shows "sim ok2 img2 (m \<bind> f) m'"
proof (cases m')
  case None
  with assms(1) show ?thesis by (simp add: sim_def)
next
  case (Some p)
  obtain a D where p: "p = (a, D)" by (cases p)
  with assms(1) Some obtain s where s: "m = Some (a, s)" "ok s" "img s = D"
    by (auto simp: sim_def)
  with assms(2) [of a s] Some p show ?thesis by simp
qed

lemma sim_layer_split:
  assumes "sim ok img m m'"
    and "\<And>a s. m = Some (a, s) \<Longrightarrow> m' = Some (a, img s) \<Longrightarrow> ok s \<Longrightarrow>
      sim ok2 img2 (f a s) (Some (a, img s))"
  shows "sim ok2 img2 (m \<bind> (\<lambda>(a, s). f a s)) m'"
  using assms by (auto intro: sim_layer)

section \<open>The contract\<close>

locale block_store =
  fixes bs :: "'s block_store_t" and ok :: "'s \<Rightarrow> bool" and img :: "'s \<Rightarrow> block list"
  assumes nblocks_sim [sim_intros]:
      "ok s \<Longrightarrow> sim ok img (bs_nblocks bs s) (img_nblocks (img s))"
    and read_sim [sim_intros]:
      "ok s \<Longrightarrow> sim ok img (bs_read bs s off) (img_read (img s) off)"
    and write_sim [sim_intros]:
      "ok s \<Longrightarrow> sim ok img (bs_write bs s off b) (img_write (img s) off b)"
    and img_small: "ok s \<Longrightarrow> length (img s) < 2147483648"
begin

lemma read_in:
  assumes "ok s" "unat off < length (img s)"
  shows "\<exists>s'. bs_read bs s off = Some (Some (img s ! unat off), s') \<and> ok s' \<and> img s' = img s"
  using read_sim [OF assms(1), of off] assms(2) by (simp add: img_simps sim_def)

lemma read_out:
  assumes "ok s" "\<not> unat off < length (img s)"
  shows "\<exists>s'. bs_read bs s off = Some (None, s') \<and> ok s' \<and> img s' = img s"
  using read_sim [OF assms(1), of off] assms(2) by (simp add: img_read_def sim_def)

lemma write_in:
  assumes "ok s" "unat off < length (img s)"
  shows "\<exists>s'. bs_write bs s off b = Some (0, s') \<and> ok s' \<and> img s' = (img s)[unat off := b]"
  using write_sim [OF assms(1), of off b] assms(2) by (simp add: img_simps sim_def)

lemma write_out:
  assumes "ok s" "\<not> unat off < length (img s)"
  shows "\<exists>s'. bs_write bs s off b = Some (- 1, s') \<and> ok s' \<and> img s' = img s"
  using write_sim [OF assms(1), of off b] assms(2) by (simp add: img_write_def sim_def)

lemma read_after_write:
  assumes "ok s" "bs_write bs s off b = Some (0, s')"
  shows "\<exists>s''. bs_read bs s' off = Some (Some b, s'') \<and> ok s''"
proof (cases "unat off < length (img s)")
  case True
  with write_in [OF assms(1) True, of b] assms(2)
  have "ok s'" "img s' = (img s)[unat off := b]" by auto
  with read_in [of s' off] True show ?thesis by auto
next
  case False
  with write_out [OF assms(1) False, of b] assms(2) show ?thesis by simp
qed

end

text \<open>Stores whose \<open>setsize\<close> can cut the device: it returns the old size.\<close>

locale resizable_store = block_store +
  assumes setsize_sim [sim_intros]:
    "ok s \<Longrightarrow> unat n \<le> length (img s) \<Longrightarrow> sim ok img (bs_setsize bs s n) (img_setsize (img s) n)"

text \<open>The reference disk satisfies its own contract, as long as its size fits an \<open>int\<close>.\<close>

interpretation ref_disk: resizable_store img_store "\<lambda>D. length D < 2147483648" "\<lambda>D. D"
  by unfold_locales (auto simp: sim_def img_read_def img_write_def img_nblocks_def img_setsize_def)

end
