(* ===== verification/RamDisk.thy ===== *)
theory RamDisk
  imports BlockStore
begin

text \<open>
  The block store in memory (\<open>egos/grass/block/ramdisk.c\<close>). \<open>rs_blocks\<close> is the caller's array;
  an access outside it is undefined in C and stops the run here. \<open>ramdisk_setsize\<close> only changes
  the recorded size, so the store behaves as a disk of its first \<open>rs_nblocks\<close> blocks.
\<close>

record ramdisk_state =
  rs_blocks :: "block list"
  rs_nblocks :: block_no

definition ramdisk_nblocks :: "ramdisk_state \<Rightarrow> (int \<times> ramdisk_state) option" where
  "ramdisk_nblocks rs = Some (sint (rs_nblocks rs), rs)"

definition ramdisk_setsize :: "ramdisk_state \<Rightarrow> block_no \<Rightarrow> (int \<times> ramdisk_state) option" where
  "ramdisk_setsize rs nblocks = Some (sint (rs_nblocks rs), rs\<lparr>rs_nblocks := nblocks\<rparr>)"

definition ramdisk_read :: "ramdisk_state \<Rightarrow> block_no \<Rightarrow> (block option \<times> ramdisk_state) option" where
  "ramdisk_read rs offset =
     (if offset \<ge> rs_nblocks rs then Some (None, rs)
      else if unat offset < length (rs_blocks rs) then Some (Some (rs_blocks rs ! unat offset), rs)
      else None)"

definition ramdisk_write :: "ramdisk_state \<Rightarrow> block_no \<Rightarrow> block \<Rightarrow> (int \<times> ramdisk_state) option" where
  "ramdisk_write rs offset block =
     (if offset \<ge> rs_nblocks rs then Some (- 1, rs)
      else if unat offset < length (rs_blocks rs)
      then Some (0, rs\<lparr>rs_blocks := (rs_blocks rs)[unat offset := block]\<rparr>)
      else None)"

definition ramdisk_init :: "block list \<Rightarrow> block_no \<Rightarrow> ramdisk_state" where
  "ramdisk_init blocks nblocks = \<lparr>rs_blocks = blocks, rs_nblocks = nblocks\<rparr>"

definition ramdisk_store :: "ramdisk_state block_store_t" where
  "ramdisk_store = \<lparr>bs_nblocks = ramdisk_nblocks, bs_read = ramdisk_read,
     bs_write = ramdisk_write, bs_setsize = ramdisk_setsize\<rparr>"

lemma ramdisk_store_simps [simp]:
  "bs_nblocks ramdisk_store = ramdisk_nblocks" "bs_read ramdisk_store = ramdisk_read"
  "bs_write ramdisk_store = ramdisk_write" "bs_setsize ramdisk_store = ramdisk_setsize"
  by (simp_all add: ramdisk_store_def)

section \<open>Contract\<close>

definition ramdisk_ok :: "ramdisk_state \<Rightarrow> bool" where
  "ramdisk_ok rs \<longleftrightarrow> unat (rs_nblocks rs) \<le> length (rs_blocks rs) \<and> unat (rs_nblocks rs) < 2147483648"

definition ramdisk_img :: "ramdisk_state \<Rightarrow> block list" where
  "ramdisk_img rs = take (unat (rs_nblocks rs)) (rs_blocks rs)"

lemma ramdisk_init_ok [simp]:
  "ramdisk_ok (ramdisk_init blocks nblocks) \<longleftrightarrow>
     unat nblocks \<le> length blocks \<and> unat nblocks < 2147483648"
  by (simp add: ramdisk_ok_def ramdisk_init_def)

lemma ramdisk_init_img [simp]:
  "ramdisk_img (ramdisk_init blocks nblocks) = take (unat nblocks) blocks"
  by (simp add: ramdisk_img_def ramdisk_init_def)

lemma ramdisk_img_length: "ramdisk_ok rs \<Longrightarrow> length (ramdisk_img rs) = unat (rs_nblocks rs)"
  by (simp add: ramdisk_img_def ramdisk_ok_def)

interpretation ram: resizable_store ramdisk_store ramdisk_ok ramdisk_img
proof (unfold_locales, goal_cases)
  case (1 s)
  then show ?case
    by (simp add: sim_def ramdisk_nblocks_def img_nblocks_def ramdisk_img_length)
      (simp add: ramdisk_ok_def sint32_small)
next
  case (2 s off)
  then show ?case
    by (auto simp: sim_def ramdisk_read_def img_read_def ramdisk_img_length word_le_nat_alt)
      (auto simp: ramdisk_ok_def ramdisk_img_def)
next
  case (3 s off b)
  then show ?case
    by (auto simp: sim_def ramdisk_write_def img_write_def ramdisk_img_length word_le_nat_alt)
      (auto simp: ramdisk_ok_def ramdisk_img_def take_update_less)
next
  case (4 s)
  then show ?case by (simp add: ramdisk_img_length) (simp add: ramdisk_ok_def)
next
  case (5 s n)
  then show ?case
    by (auto simp: sim_def ramdisk_setsize_def img_setsize_def ramdisk_img_length)
      (auto simp: ramdisk_ok_def ramdisk_img_def sint32_small min_def)
qed

end
