(* ===== verification/PartDisk.thy ===== *)
theory PartDisk
  imports RamDisk
begin

text \<open>
  A partition of another block store (\<open>egos/grass/block/partdisk.c\<close>): offsets are shifted by
  \<open>ps_delta\<close> and bounded by \<open>ps_nblocks\<close>. The state of the store below is a component of its
  own, because several partitions share one disk.
\<close>

record partdisk_state =
  ps_delta :: block_no
  ps_nblocks :: block_no

fun partdisk_nblocks :: "partdisk_state \<times> 's \<Rightarrow> (int \<times> partdisk_state \<times> 's) option" where
  "partdisk_nblocks (ps, s) = Some (sint (ps_nblocks ps), ps, s)"

fun partdisk_setsize :: "partdisk_state \<times> 's \<Rightarrow> block_no \<Rightarrow> (int \<times> partdisk_state \<times> 's) option" where
  "partdisk_setsize (ps, s) nblocks = Some (sint (ps_nblocks ps), ps\<lparr>ps_nblocks := nblocks\<rparr>, s)"

fun partdisk_read :: "'s block_store_t \<Rightarrow> partdisk_state \<times> 's \<Rightarrow> block_no \<Rightarrow>
    (block option \<times> partdisk_state \<times> 's) option" where
  "partdisk_read below (ps, s) offset =
     (if offset \<ge> ps_nblocks ps then Some (None, ps, s)
      else do {
        (r, s) \<leftarrow> bs_read below s (ps_delta ps + offset);
        Some (r, ps, s) })"

fun partdisk_write :: "'s block_store_t \<Rightarrow> partdisk_state \<times> 's \<Rightarrow> block_no \<Rightarrow> block \<Rightarrow>
    (int \<times> partdisk_state \<times> 's) option" where
  "partdisk_write below (ps, s) offset block =
     (if offset \<ge> ps_nblocks ps then Some (- 1, ps, s)
      else do {
        (r, s) \<leftarrow> bs_write below s (ps_delta ps + offset) block;
        Some (r, ps, s) })"

definition partdisk_init :: "block_no \<Rightarrow> block_no \<Rightarrow> partdisk_state" where
  "partdisk_init delta nblocks = \<lparr>ps_delta = delta, ps_nblocks = nblocks\<rparr>"

definition partdisk_store :: "'s block_store_t \<Rightarrow> (partdisk_state \<times> 's) block_store_t" where
  "partdisk_store below = \<lparr>bs_nblocks = partdisk_nblocks, bs_read = partdisk_read below,
     bs_write = partdisk_write below, bs_setsize = partdisk_setsize\<rparr>"

lemma partdisk_store_simps [simp]:
  "bs_nblocks (partdisk_store below) = partdisk_nblocks"
  "bs_read (partdisk_store below) = partdisk_read below"
  "bs_write (partdisk_store below) = partdisk_write below"
  "bs_setsize (partdisk_store below) = partdisk_setsize"
  by (simp_all add: partdisk_store_def)

section \<open>Contract\<close>

text \<open>A partition is well placed when it lies inside the store below.\<close>

definition part_ok :: "('s \<Rightarrow> bool) \<Rightarrow> ('s \<Rightarrow> block list) \<Rightarrow> partdisk_state \<times> 's \<Rightarrow> bool" where
  "part_ok ok img = (\<lambda>(ps, s). ok s \<and> unat (ps_delta ps) + unat (ps_nblocks ps) \<le> length (img s))"

definition part_img :: "('s \<Rightarrow> block list) \<Rightarrow> partdisk_state \<times> 's \<Rightarrow> block list" where
  "part_img img = (\<lambda>(ps, s). take (unat (ps_nblocks ps)) (drop (unat (ps_delta ps)) (img s)))"

lemma part_img_length:
  "part_ok ok img (ps, s) \<Longrightarrow> length (part_img img (ps, s)) = unat (ps_nblocks ps)"
  unfolding part_ok_def part_img_def by simp linarith

locale partdisk_on = block_store
begin

lemma part_offset:
  assumes "part_ok ok img (ps, s)" "unat off < unat (ps_nblocks ps)"
  shows "unat (ps_delta ps + off) = unat (ps_delta ps) + unat off"
    "unat (ps_delta ps) + unat off < length (img s)"
proof -
  from assms have "ok s" and le: "unat (ps_delta ps) + unat (ps_nblocks ps) \<le> length (img s)"
    by (simp_all add: part_ok_def)
  then have "length (img s) < 2147483648" by (simp add: img_small)
  with le assms(2) show "unat (ps_delta ps + off) = unat (ps_delta ps) + unat off"
    by (intro unat32_add) linarith
  from le assms(2) show "unat (ps_delta ps) + unat off < length (img s)" by linarith
qed

lemma part_read:
  assumes "part_ok ok img (ps, s)"
  shows "sim (part_ok ok img) (part_img img) (partdisk_read bs (ps, s) off)
    (img_read (part_img img (ps, s)) off)"
proof (cases "unat off < unat (ps_nblocks ps)")
  case True
  note o = part_offset [OF assms True]
  from assms have "ok s" by (simp add: part_ok_def)
  with read_in [of s "ps_delta ps + off"] o obtain s' where
    "bs_read bs s (ps_delta ps + off) = Some (Some (img s ! (unat (ps_delta ps) + unat off)), s')"
    "ok s'" "img s' = img s" by auto
  with assms o True show ?thesis
    by (simp add: sim_def img_read_def part_img_length word_le_nat_alt)
      (simp add: part_ok_def part_img_def)
next
  case False
  with assms show ?thesis by (simp add: sim_def img_read_def part_img_length word_le_nat_alt)
qed

lemma part_write:
  assumes "part_ok ok img (ps, s)"
  shows "sim (part_ok ok img) (part_img img) (partdisk_write bs (ps, s) off b)
    (img_write (part_img img (ps, s)) off b)"
proof (cases "unat off < unat (ps_nblocks ps)")
  case True
  note o = part_offset [OF assms True]
  from assms have "ok s" by (simp add: part_ok_def)
  with write_in [of s "ps_delta ps + off" b] o obtain s' where
    "bs_write bs s (ps_delta ps + off) b = Some (0, s')"
    "ok s'" "img s' = (img s)[unat (ps_delta ps) + unat off := b]" by auto
  with assms o True show ?thesis
    by (simp add: sim_def img_write_def part_img_length word_le_nat_alt)
      (simp add: part_ok_def part_img_def drop_update_add take_update_less)
next
  case False
  with assms show ?thesis by (simp add: sim_def img_write_def part_img_length word_le_nat_alt)
qed

text \<open>A write to one partition is not seen by a partition that does not overlap it.\<close>

lemma part_isolated:
  assumes "part_ok ok img (ps, s)" "part_ok ok img (qs, s)"
    and "unat (ps_delta ps) + unat (ps_nblocks ps) \<le> unat (ps_delta qs) \<or>
      unat (ps_delta qs) + unat (ps_nblocks qs) \<le> unat (ps_delta ps)"
    and "partdisk_write bs (ps, s) off b = Some (r, ps', s')"
  shows "part_ok ok img (qs, s') \<and> part_img img (qs, s') = part_img img (qs, s)"
proof (cases "unat off < unat (ps_nblocks ps)")
  case True
  note o = part_offset [OF assms(1) True]
  from assms have "ok s" by (simp add: part_ok_def)
  with write_in [of s "ps_delta ps + off" b] o assms(4) True
  have w: "ok s'" "img s' = (img s)[unat (ps_delta ps) + unat off := b]"
    by (auto simp: word_le_nat_alt)
  have "take n (drop d (xs[k := b])) = take n (drop d xs)" if "k < d \<or> d + n \<le> k" for n d k and xs :: "block list"
    using that by (auto simp: drop_update_swap take_update_cancel drop_update_cancel)
  with w assms(2,3) True show ?thesis by (auto simp: part_ok_def part_img_def)
next
  case False
  with assms(2,4) show ?thesis by (auto simp: word_le_nat_alt)
qed

end

sublocale partdisk_on \<subseteq> part: resizable_store "partdisk_store bs" "part_ok ok img" "part_img img"
proof (unfold_locales, goal_cases)
  case (1 s)
  obtain ps t where s: "s = (ps, t)" by (cases s)
  with 1 have l: "unat (ps_nblocks ps) \<le> length (img t)" "ok t" by (auto simp: part_ok_def)
  with img_small [of t] 1 s show ?case
    by (simp add: sim_def img_nblocks_def part_img_length sint32_small)
next
  case (2 s off)
  obtain ps t where "s = (ps, t)" by (cases s)
  with 2 part_read [of ps t off] show ?case by (simp del: partdisk_read.simps)
next
  case (3 s off b)
  obtain ps t where "s = (ps, t)" by (cases s)
  with 3 part_write [of ps t off b] show ?case by (simp del: partdisk_write.simps)
next
  case (4 s)
  obtain ps t where s: "s = (ps, t)" by (cases s)
  with 4 have l: "unat (ps_nblocks ps) \<le> length (img t)" "ok t" by (auto simp: part_ok_def)
  with img_small [of t] 4 s show ?case by (simp add: part_img_length)
next
  case (5 s n)
  obtain ps t where s: "s = (ps, t)" by (cases s)
  with 5 have l: "unat (ps_nblocks ps) \<le> length (img t)" "ok t" by (auto simp: part_ok_def)
  with img_small [of t] 5 s show ?case
    by (simp add: sim_def img_setsize_def part_img_length sint32_small)
      (auto simp: part_ok_def part_img_def min_def)
qed

interpretation ram_part: partdisk_on ramdisk_store ramdisk_ok ramdisk_img
  by unfold_locales

section \<open>Properties\<close>

text \<open>Partitions are isolated: a write through one partition, whatever the offset, leaves the
  contents of every disjoint partition of the same disk as they were, and keeps the disk below
  well formed.\<close>
theorem partdisk_isolated:
  assumes "block_store below ok img"
    and "part_ok ok img (ps, s)" "part_ok ok img (qs, s)"
    and "unat (ps_delta ps) + unat (ps_nblocks ps) \<le> unat (ps_delta qs) \<or>
      unat (ps_delta qs) + unat (ps_nblocks qs) \<le> unat (ps_delta ps)"
    and "partdisk_write below (ps, s) off b = Some (r, ps', s')"
  shows "part_ok ok img (qs, s') \<and> part_img img (qs, s') = part_img img (qs, s)"
  using partdisk_on.part_isolated [OF _ assms(2-5)] assms(1) by (simp add: partdisk_on_def)

theorem partdisk_isolated_witness:
  "part_img ramdisk_img (partdisk_init 2 1, ramdisk_init [1, 9, 3] 3) =
   part_img ramdisk_img (partdisk_init 2 1, ramdisk_init [1, 2, 3] 3)"
proof -
  have "partdisk_write ramdisk_store (partdisk_init 0 2, ramdisk_init [1, 2, 3] 3) 1 9 =
      Some (0, partdisk_init 0 2, ramdisk_init [1, 9, 3] 3)"
    by (simp add: partdisk_init_def ramdisk_write_def ramdisk_init_def word_le_nat_alt)
  then show ?thesis
    using partdisk_isolated [OF ram.block_store_axioms, of "partdisk_init 0 2" "ramdisk_init [1, 2, 3] 3"
        "partdisk_init 2 1" 1 9 0 "partdisk_init 0 2" "ramdisk_init [1, 9, 3] 3"]
    by (simp add: part_ok_def ramdisk_img_def ramdisk_init_def ramdisk_ok_def partdisk_init_def
        del: partdisk_write.simps)
qed

end
