(* ===== verification/StatDisk.thy ===== *)
theory StatDisk
  imports RamDisk
begin

text \<open>
  The two forwarding modules: \<open>egos/grass/block/statdisk.c\<close> counts the calls it forwards, and
  \<open>egos/grass/block/debugdisk.c\<close> prints them, here as a list of events, newest first.
\<close>

section \<open>statdisk\<close>

record statdisk_state =
  sds_nnblocks :: u32
  sds_nsetsize :: u32
  sds_nread :: u32
  sds_nwrite :: u32

fun statdisk_nblocks :: "'s block_store_t \<Rightarrow> statdisk_state \<times> 's \<Rightarrow> (int \<times> statdisk_state \<times> 's) option" where
  "statdisk_nblocks below (sds, s) = do {
     (r, s) \<leftarrow> bs_nblocks below s;
     Some (r, sds\<lparr>sds_nnblocks := sds_nnblocks sds + 1\<rparr>, s) }"

fun statdisk_setsize :: "'s block_store_t \<Rightarrow> statdisk_state \<times> 's \<Rightarrow> block_no \<Rightarrow>
    (int \<times> statdisk_state \<times> 's) option" where
  "statdisk_setsize below (sds, s) nblocks = do {
     (r, s) \<leftarrow> bs_setsize below s nblocks;
     Some (r, sds\<lparr>sds_nsetsize := sds_nsetsize sds + 1\<rparr>, s) }"

fun statdisk_read :: "'s block_store_t \<Rightarrow> statdisk_state \<times> 's \<Rightarrow> block_no \<Rightarrow>
    (block option \<times> statdisk_state \<times> 's) option" where
  "statdisk_read below (sds, s) offset = do {
     (r, s) \<leftarrow> bs_read below s offset;
     Some (r, sds\<lparr>sds_nread := sds_nread sds + 1\<rparr>, s) }"

fun statdisk_write :: "'s block_store_t \<Rightarrow> statdisk_state \<times> 's \<Rightarrow> block_no \<Rightarrow> block \<Rightarrow>
    (int \<times> statdisk_state \<times> 's) option" where
  "statdisk_write below (sds, s) offset block = do {
     (r, s) \<leftarrow> bs_write below s offset block;
     Some (r, sds\<lparr>sds_nwrite := sds_nwrite sds + 1\<rparr>, s) }"

definition statdisk_init :: statdisk_state where
  "statdisk_init = \<lparr>sds_nnblocks = 0, sds_nsetsize = 0, sds_nread = 0, sds_nwrite = 0\<rparr>"

definition statdisk_store :: "'s block_store_t \<Rightarrow> (statdisk_state \<times> 's) block_store_t" where
  "statdisk_store below = \<lparr>bs_nblocks = statdisk_nblocks below, bs_read = statdisk_read below,
     bs_write = statdisk_write below, bs_setsize = statdisk_setsize below\<rparr>"

text \<open>What \<open>statdisk_dump_stats\<close> prints.\<close>

definition statdisk_stats :: "statdisk_state \<Rightarrow> u32 \<times> u32 \<times> u32 \<times> u32" where
  "statdisk_stats sds = (sds_nnblocks sds, sds_nsetsize sds, sds_nread sds, sds_nwrite sds)"

section \<open>debugdisk\<close>

datatype debug_event =
    Invoke_nblocks | Return_nblocks int
  | Invoke_setsize block_no | Return_setsize block_no int
  | Invoke_read block_no | Return_read block_no bool
  | Invoke_write block_no | Return_write block_no int

record debugdisk_state =
  ds_descr :: string
  ds_out :: "debug_event list"

definition debug_print :: "debug_event \<Rightarrow> debugdisk_state \<Rightarrow> debugdisk_state" where
  "debug_print e ds = ds\<lparr>ds_out := e # ds_out ds\<rparr>"

fun debugdisk_nblocks :: "'s block_store_t \<Rightarrow> debugdisk_state \<times> 's \<Rightarrow> (int \<times> debugdisk_state \<times> 's) option" where
  "debugdisk_nblocks below (ds, s) = do {
     (r, s) \<leftarrow> bs_nblocks below s;
     Some (r, debug_print (Return_nblocks r) (debug_print Invoke_nblocks ds), s) }"

fun debugdisk_setsize :: "'s block_store_t \<Rightarrow> debugdisk_state \<times> 's \<Rightarrow> block_no \<Rightarrow>
    (int \<times> debugdisk_state \<times> 's) option" where
  "debugdisk_setsize below (ds, s) nblocks = do {
     (r, s) \<leftarrow> bs_setsize below s nblocks;
     Some (r, debug_print (Return_setsize nblocks r) (debug_print (Invoke_setsize nblocks) ds), s) }"

fun debugdisk_read :: "'s block_store_t \<Rightarrow> debugdisk_state \<times> 's \<Rightarrow> block_no \<Rightarrow>
    (block option \<times> debugdisk_state \<times> 's) option" where
  "debugdisk_read below (ds, s) offset = do {
     (r, s) \<leftarrow> bs_read below s offset;
     Some (r, debug_print (Return_read offset (r \<noteq> None)) (debug_print (Invoke_read offset) ds), s) }"

fun debugdisk_write :: "'s block_store_t \<Rightarrow> debugdisk_state \<times> 's \<Rightarrow> block_no \<Rightarrow> block \<Rightarrow>
    (int \<times> debugdisk_state \<times> 's) option" where
  "debugdisk_write below (ds, s) offset block = do {
     (r, s) \<leftarrow> bs_write below s offset block;
     Some (r, debug_print (Return_write offset r) (debug_print (Invoke_write offset) ds), s) }"

definition debugdisk_init :: "string \<Rightarrow> debugdisk_state" where
  "debugdisk_init descr = \<lparr>ds_descr = descr, ds_out = []\<rparr>"

definition debugdisk_store :: "'s block_store_t \<Rightarrow> (debugdisk_state \<times> 's) block_store_t" where
  "debugdisk_store below = \<lparr>bs_nblocks = debugdisk_nblocks below, bs_read = debugdisk_read below,
     bs_write = debugdisk_write below, bs_setsize = debugdisk_setsize below\<rparr>"

section \<open>Contract\<close>

text \<open>Both modules keep the contract of the store below, whatever they count or print.\<close>

definition fwd_ok :: "('s \<Rightarrow> bool) \<Rightarrow> 'c \<times> 's \<Rightarrow> bool" where
  "fwd_ok ok = (\<lambda>(c, s). ok s)"

definition fwd_img :: "('s \<Rightarrow> block list) \<Rightarrow> 'c \<times> 's \<Rightarrow> block list" where
  "fwd_img img = (\<lambda>(c, s). img s)"

lemma fwd_simps [simp]: "fwd_ok ok (c, s) = ok s" "fwd_img img (c, s) = img s"
  by (simp_all add: fwd_ok_def fwd_img_def)

lemma sim_forward:
  assumes "sim ok img m m'"
  shows "sim (fwd_ok ok) (fwd_img img) (m \<bind> (\<lambda>(a, s). Some (a, c a, s))) m'"
  using assms by (rule sim_layer_split) (simp add: sim_def)

locale forward_on = resizable_store

sublocale forward_on \<subseteq> stat: resizable_store "statdisk_store bs" "fwd_ok ok" "fwd_img img"
proof (unfold_locales, goal_cases)
  case (1 s)
  then show ?case by (cases s) (simp add: statdisk_store_def sim_forward nblocks_sim)
next
  case (2 s off)
  then show ?case by (cases s) (simp add: statdisk_store_def sim_forward read_sim)
next
  case (3 s off b)
  then show ?case by (cases s) (simp add: statdisk_store_def sim_forward write_sim)
next
  case (4 s)
  then show ?case by (cases s) (simp add: img_small)
next
  case (5 s n)
  then show ?case by (cases s) (simp add: statdisk_store_def sim_forward setsize_sim)
qed

sublocale forward_on \<subseteq> debug: resizable_store "debugdisk_store bs" "fwd_ok ok" "fwd_img img"
proof (unfold_locales, goal_cases)
  case (1 s)
  then show ?case by (cases s) (simp add: debugdisk_store_def sim_forward nblocks_sim)
next
  case (2 s off)
  then show ?case by (cases s) (simp add: debugdisk_store_def sim_forward read_sim)
next
  case (3 s off b)
  then show ?case by (cases s) (simp add: debugdisk_store_def sim_forward write_sim)
next
  case (4 s)
  then show ?case by (cases s) (simp add: img_small)
next
  case (5 s n)
  then show ?case by (cases s) (simp add: debugdisk_store_def sim_forward setsize_sim)
qed

interpretation ram_fwd: forward_on ramdisk_store ramdisk_ok ramdisk_img
  by unfold_locales

section \<open>Counting\<close>

text \<open>A sequence of calls through \<open>statdisk\<close>; it stops at the first call that stops the program.\<close>

datatype disk_call = Call_nblocks | Call_setsize block_no | Call_read block_no | Call_write block_no block

fun statdisk_call :: "'s block_store_t \<Rightarrow> disk_call \<Rightarrow> statdisk_state \<times> 's \<Rightarrow> (statdisk_state \<times> 's) option" where
  "statdisk_call below Call_nblocks st = map_option snd (statdisk_nblocks below st)"
| "statdisk_call below (Call_setsize n) st = map_option snd (statdisk_setsize below st n)"
| "statdisk_call below (Call_read off) st = map_option snd (statdisk_read below st off)"
| "statdisk_call below (Call_write off b) st = map_option snd (statdisk_write below st off b)"

fun statdisk_calls :: "'s block_store_t \<Rightarrow> disk_call list \<Rightarrow> statdisk_state \<times> 's \<Rightarrow> (statdisk_state \<times> 's) option" where
  "statdisk_calls below [] st = Some st"
| "statdisk_calls below (c # cs) st = statdisk_call below c st \<bind> statdisk_calls below cs"

definition count_calls :: "(disk_call \<Rightarrow> bool) \<Rightarrow> disk_call list \<Rightarrow> u32" where
  "count_calls p cs = of_nat (length (filter p cs))"

definition is_Call_setsize :: "disk_call \<Rightarrow> bool" where
  "is_Call_setsize c = (case c of Call_setsize _ \<Rightarrow> True | _ \<Rightarrow> False)"

definition is_Call_read :: "disk_call \<Rightarrow> bool" where
  "is_Call_read c = (case c of Call_read _ \<Rightarrow> True | _ \<Rightarrow> False)"

definition is_Call_write :: "disk_call \<Rightarrow> bool" where
  "is_Call_write c = (case c of Call_write _ _ \<Rightarrow> True | _ \<Rightarrow> False)"

lemma statdisk_calls_count:
  "statdisk_calls below cs (sds, s) = Some (sds', s') \<Longrightarrow>
     statdisk_stats sds' =
       (sds_nnblocks sds + count_calls (\<lambda>c. c = Call_nblocks) cs,
        sds_nsetsize sds + count_calls is_Call_setsize cs,
        sds_nread sds + count_calls is_Call_read cs,
        sds_nwrite sds + count_calls is_Call_write cs)"
proof (induction cs arbitrary: sds s)
  case Nil
  then show ?case by (simp add: statdisk_stats_def count_calls_def)
next
  case (Cons c cs)
  then obtain sds1 s1 where c: "statdisk_call below c (sds, s) = Some (sds1, s1)"
    and "statdisk_calls below cs (sds1, s1) = Some (sds', s')"
    by (auto simp: Option.bind_eq_Some_conv)
  note IH = Cons.IH [OF this(2)]
  show ?case
    using c IH
    by (cases c)
      (auto simp: Option.bind_eq_Some_conv statdisk_stats_def count_calls_def is_Call_setsize_def
        is_Call_read_def is_Call_write_def)
qed

end
