(* ===== verification/CheckDisk.thy ===== *)
theory CheckDisk
  imports RamDisk "HOL-Library.AList"
begin

text \<open>
  The checking module (\<open>egos/grass/block/checkdisk.c\<close>): it remembers every block it read or
  wrote and stops the program (\<open>exit(1)\<close>) when a read returns something else. \<open>cks_bl\<close> is the
  linked list \<open>cs->bl\<close>, first element first.
\<close>

record checkdisk_state =
  cks_descr :: string
  cks_bl :: "(block_no \<times> block) list"

fun checkdisk_nblocks :: "'s block_store_t \<Rightarrow> checkdisk_state \<times> 's \<Rightarrow> (int \<times> checkdisk_state \<times> 's) option" where
  "checkdisk_nblocks below (cs, s) = do {
     (r, s) \<leftarrow> bs_nblocks below s;
     Some (r, cs, s) }"

fun checkdisk_setsize :: "'s block_store_t \<Rightarrow> checkdisk_state \<times> 's \<Rightarrow> block_no \<Rightarrow>
    (int \<times> checkdisk_state \<times> 's) option" where
  "checkdisk_setsize below (cs, s) nblocks = do {
     let cs = cs\<lparr>cks_bl := filter (\<lambda>(off, b). \<not> off \<ge> nblocks) (cks_bl cs)\<rparr>;
     (r, s) \<leftarrow> bs_setsize below s nblocks;
     Some (r, cs, s) }"

fun checkdisk_read :: "'s block_store_t \<Rightarrow> checkdisk_state \<times> 's \<Rightarrow> block_no \<Rightarrow>
    (block option \<times> checkdisk_state \<times> 's) option" where
  "checkdisk_read below (cs, s) offset = do {
     (r, s) \<leftarrow> bs_read below s offset;
     (case r of
        None \<Rightarrow> Some (None, cs, s)
      | Some block \<Rightarrow>
          (case map_of (cks_bl cs) offset of
             Some b \<Rightarrow> if b \<noteq> block then None else Some (Some block, cs, s)
           | None \<Rightarrow> Some (Some block, cs\<lparr>cks_bl := (offset, block) # cks_bl cs\<rparr>, s))) }"

text \<open>The loop of \<open>checkdisk_write\<close> overwrites the first entry for the offset.\<close>

fun bl_assign :: "block_no \<Rightarrow> block \<Rightarrow> (block_no \<times> block) list \<Rightarrow> (block_no \<times> block) list option" where
  "bl_assign offset block [] = None"
| "bl_assign offset block ((off, b) # bl) =
     (if off = offset then Some ((off, block) # bl)
      else map_option ((#) (off, b)) (bl_assign offset block bl))"

fun checkdisk_write :: "'s block_store_t \<Rightarrow> checkdisk_state \<times> 's \<Rightarrow> block_no \<Rightarrow> block \<Rightarrow>
    (int \<times> checkdisk_state \<times> 's) option" where
  "checkdisk_write below (cs, s) offset block = do {
     (result, s) \<leftarrow> bs_write below s offset block;
     if result < 0 then Some (result, cs, s)
     else (case bl_assign offset block (cks_bl cs) of
        Some bl \<Rightarrow> Some (result, cs\<lparr>cks_bl := bl\<rparr>, s)
      | None \<Rightarrow> Some (result, cs\<lparr>cks_bl := (offset, block) # cks_bl cs\<rparr>, s)) }"

definition checkdisk_init :: "string \<Rightarrow> checkdisk_state" where
  "checkdisk_init descr = \<lparr>cks_descr = descr, cks_bl = []\<rparr>"

definition checkdisk_store :: "'s block_store_t \<Rightarrow> (checkdisk_state \<times> 's) block_store_t" where
  "checkdisk_store below = \<lparr>bs_nblocks = checkdisk_nblocks below, bs_read = checkdisk_read below,
     bs_write = checkdisk_write below, bs_setsize = checkdisk_setsize below\<rparr>"

lemma checkdisk_store_simps [simp]:
  "bs_nblocks (checkdisk_store below) = checkdisk_nblocks below"
  "bs_read (checkdisk_store below) = checkdisk_read below"
  "bs_write (checkdisk_store below) = checkdisk_write below"
  "bs_setsize (checkdisk_store below) = checkdisk_setsize below"
  by (simp_all add: checkdisk_store_def)

section \<open>Contract\<close>

lemma bl_assign_None: "bl_assign off b bl = None \<longleftrightarrow> map_of bl off = None"
  by (induction off b bl rule: bl_assign.induct) auto

lemma bl_assign_Some: "bl_assign off b bl = Some bl' \<Longrightarrow> map_of bl' = (map_of bl)(off \<mapsto> b)"
  by (induction off b bl arbitrary: bl' rule: bl_assign.induct) (auto split: if_splits)

lemma map_of_filter_below:
  "map_of (filter (\<lambda>(off, b). \<not> n \<le> off) bl) off = (if \<not> n \<le> (off :: block_no) then map_of bl off else None)"
  by (induction bl) auto

text \<open>Over a store of the contract, every remembered block is the block on the disk.\<close>

definition check_ok :: "('s \<Rightarrow> bool) \<Rightarrow> ('s \<Rightarrow> block list) \<Rightarrow> checkdisk_state \<times> 's \<Rightarrow> bool" where
  "check_ok ok img = (\<lambda>(cs, s). ok s \<and> (\<forall>off b. map_of (cks_bl cs) off = Some b \<longrightarrow>
     unat off < length (img s) \<and> img s ! unat off = b))"

definition check_img :: "('s \<Rightarrow> block list) \<Rightarrow> checkdisk_state \<times> 's \<Rightarrow> block list" where
  "check_img img = (\<lambda>(cs, s). img s)"

lemma check_img_simp [simp]: "check_img img (cs, s) = img s"
  by (simp add: check_img_def)

lemma check_okD: "check_ok ok img (cs, s) \<Longrightarrow> ok s"
  by (simp add: check_ok_def)

lemma check_init_ok: "ok s \<Longrightarrow> check_ok ok img (checkdisk_init descr, s)"
  by (simp add: check_ok_def checkdisk_init_def)

locale checkdisk_on = resizable_store
begin

lemma check_read:
  assumes "check_ok ok img (cs, s)"
  shows "sim (check_ok ok img) (check_img img) (checkdisk_read bs (cs, s) off) (img_read (img s) off)"
  unfolding checkdisk_read.simps
proof (rule sim_layer_split [OF read_sim])
  show "ok s" using assms by (rule check_okD)
next
  fix r s'
  assume "img_read (img s) off = Some (r, img s')" "ok s'"
  then show "sim (check_ok ok img) (check_img img)
    (case r of None \<Rightarrow> Some (None, cs, s')
     | Some block \<Rightarrow> (case map_of (cks_bl cs) off of
          Some b \<Rightarrow> if b \<noteq> block then None else Some (Some block, cs, s')
        | None \<Rightarrow> Some (Some block, cs\<lparr>cks_bl := (off, block) # cks_bl cs\<rparr>, s')))
    (Some (r, img s'))"
    using assms
    by (auto simp: sim_def check_ok_def img_read_def split: option.splits if_splits)
qed

lemma check_write:
  assumes "check_ok ok img (cs, s)"
  shows "sim (check_ok ok img) (check_img img) (checkdisk_write bs (cs, s) off b) (img_write (img s) off b)"
  unfolding checkdisk_write.simps
proof (rule sim_layer_split [OF write_sim])
  show "ok s" using assms by (rule check_okD)
next
  fix r s'
  assume w: "img_write (img s) off b = Some (r, img s')" "ok s'"
  show "sim (check_ok ok img) (check_img img)
    (if r < 0 then Some (r, cs, s')
     else (case bl_assign off b (cks_bl cs) of
        Some bl \<Rightarrow> Some (r, cs\<lparr>cks_bl := bl\<rparr>, s')
      | None \<Rightarrow> Some (r, cs\<lparr>cks_bl := (off, b) # cks_bl cs\<rparr>, s')))
    (Some (r, img s'))"
  proof (cases "unat off < length (img s)")
    case True
    with w have "r = 0" "img s' = (img s)[unat off := b]" by (auto simp: img_write_def)
    with assms w(2) True show ?thesis
      by (auto simp: sim_def check_ok_def nth_list_update unat32_inject dest!: bl_assign_Some
          split: option.splits)
  next
    case False
    with w have "r = - 1" "img s' = img s" by (auto simp: img_write_def)
    with assms w(2) show ?thesis by (auto simp: sim_def check_ok_def)
  qed
qed

lemma check_setsize:
  assumes "check_ok ok img (cs, s)" "unat n \<le> length (img s)"
  shows "sim (check_ok ok img) (check_img img) (checkdisk_setsize bs (cs, s) n) (img_setsize (img s) n)"
  unfolding checkdisk_setsize.simps Let_def
proof (rule sim_layer_split [OF setsize_sim])
  show "ok s" using assms(1) by (rule check_okD)
  show "unat n \<le> length (img s)" by (rule assms(2))
next
  fix r s'
  assume "img_setsize (img s) n = Some (r, img s')" "ok s'"
  then have "img s' = take (unat n) (img s)" by (auto simp: img_setsize_def split: if_splits)
  with assms \<open>ok s'\<close> show "sim (check_ok ok img) (check_img img)
     (Some (r, cs\<lparr>cks_bl := filter (\<lambda>(off, b). \<not> n \<le> off) (cks_bl cs)\<rparr>, s')) (Some (r, img s'))"
    by (auto simp: sim_def check_ok_def map_of_filter_below simp flip: word_le_nat_alt split: if_splits)
      (auto simp: word_le_nat_alt)
qed

end

sublocale checkdisk_on \<subseteq> check: resizable_store "checkdisk_store bs" "check_ok ok img" "check_img img"
proof (unfold_locales, goal_cases)
  case (1 s)
  obtain cs t where s: "s = (cs, t)" by (cases s)
  with 1 have "ok t" by (simp add: check_okD)
  then have "sim ok img (bs_nblocks bs t) (img_nblocks (img t))" by (rule nblocks_sim)
  with 1 s show ?case
    by (auto simp: sim_def img_nblocks_def check_ok_def)
next
  case (2 s off)
  obtain cs t where "s = (cs, t)" by (cases s)
  with 2 check_read [of cs t off] show ?case by (simp del: checkdisk_read.simps)
next
  case (3 s off b)
  obtain cs t where "s = (cs, t)" by (cases s)
  with 3 check_write [of cs t off b] show ?case by (simp del: checkdisk_write.simps)
next
  case (4 s)
  obtain cs t where "s = (cs, t)" by (cases s)
  with 4 show ?case by (auto dest: check_okD img_small)
next
  case (5 s n)
  obtain cs t where "s = (cs, t)" by (cases s)
  with 5 check_setsize [of cs t n] show ?case by (simp del: checkdisk_setsize.simps)
qed

interpretation ram_check: checkdisk_on ramdisk_store ramdisk_ok ramdisk_img
  by unfold_locales

text \<open>What the module is for: a store that returns something else than was last written is caught.\<close>

lemma checkdisk_detects:
  assumes "checkdisk_write below (cs, s) off b = Some (0, cs', s')"
    and "bs_read below t off = Some (Some b', t')" and "b' \<noteq> b"
  shows "checkdisk_read below (cs', t) off = None"
proof -
  have "map_of (cks_bl cs') off = Some b"
    using assms(1) by (auto simp: Option.bind_eq_Some_conv dest: bl_assign_Some split: if_splits option.splits)
  with assms(2,3) show ?thesis by simp
qed

end
