(* ===== verification/ClockDisk.thy ===== *)
theory ClockDisk
  imports PartDisk
begin

text \<open>
  The write-through cache with CLOCK eviction (\<open>egos/grass/block/clockdisk.c\<close>). The state has
  the fields of \<open>struct clockdisk_state\<close>; \<open>cs_binfo\<close> and \<open>cs_blocks\<close> are its two arrays of
  \<open>cs_nblocks\<close> entries. The commented-out statistics dump has no counterpart.
\<close>

datatype bi_status = BI_EMPTY | BI_UNUSED | BI_USED

record block_info =
  bi_status :: bi_status
  bi_offset :: block_no

record clockdisk_state =
  cs_blocks :: "block list"
  cs_nblocks :: block_no
  cs_binfo :: "block_info list"
  cs_clock_hand :: u32
  cs_read_hit :: u32
  cs_read_miss :: u32
  cs_write_hit :: u32
  cs_write_miss :: u32

section \<open>Eviction\<close>

definition is_used :: "block_info \<Rightarrow> bool" where
  "is_used bi \<longleftrightarrow> bi_status bi = BI_USED"

definition set_status :: "nat \<Rightarrow> bi_status \<Rightarrow> clockdisk_state \<Rightarrow> clockdisk_state" where
  "set_status i st cs = cs\<lparr>cs_binfo := (cs_binfo cs)[i := (cs_binfo cs ! i)\<lparr>bi_status := st\<rparr>]\<rparr>"

definition advance_hand :: "clockdisk_state \<Rightarrow> clockdisk_state" where
  "advance_hand cs = cs\<lparr>cs_clock_hand := cs_clock_hand cs + 1\<rparr>"

definition fill_entry :: "nat \<Rightarrow> block_no \<Rightarrow> block \<Rightarrow> clockdisk_state \<Rightarrow> clockdisk_state" where
  "fill_entry i offset block cs =
     cs\<lparr>cs_binfo := (cs_binfo cs)[i := \<lparr>bi_status = BI_USED, bi_offset = offset\<rparr>],
        cs_blocks := (cs_blocks cs)[i := block]\<rparr>"

lemma count_used_decreases:
  "i < length bis \<Longrightarrow> is_used (bis ! i) \<Longrightarrow> \<not> is_used bi \<Longrightarrow>
     length (filter is_used (bis[i := bi])) < length (filter is_used bis)"
  by (subst (2) id_take_nth_drop [of i bis]) (auto simp: upd_conv_take_nth_drop)

text \<open>
  The loop \<open>while(1)\<close> of \<open>cache_update\<close>. A remainder by zero or an entry outside the array stops
  the run; otherwise every turn that does not return clears a used entry, so the loop ends.
\<close>

function cache_update_loop :: "clockdisk_state \<Rightarrow> block_no \<Rightarrow> block \<Rightarrow> clockdisk_state option" where
  "cache_update_loop cs offset block =
     (let i = unat (cs_clock_hand cs mod cs_nblocks cs) in
      if cs_nblocks cs = 0 \<or> \<not> i < length (cs_binfo cs) then None
      else if \<not> is_used (cs_binfo cs ! i) then Some (advance_hand (fill_entry i offset block cs))
      else cache_update_loop (advance_hand (set_status i BI_UNUSED cs)) offset block)"
  by pat_completeness auto
termination
  by (relation "measure (\<lambda>(cs, offset, block). length (filter is_used (cs_binfo cs)))")
    (auto simp: Let_def advance_hand_def set_status_def is_used_def intro!: count_used_decreases)

declare cache_update_loop.simps [simp del]

definition cache_update :: "clockdisk_state \<Rightarrow> block_no \<Rightarrow> block \<Rightarrow> clockdisk_state option" where
  "cache_update cs offset block =
     (if cs_clock_hand cs > cs_nblocks cs
      then (if cs_nblocks cs = 0 then None
            else cache_update_loop (cs\<lparr>cs_clock_hand := cs_clock_hand cs mod cs_nblocks cs\<rparr>) offset block)
      else cache_update_loop cs offset block)"

section \<open>Operations\<close>

definition clock_lookup :: "clockdisk_state \<Rightarrow> block_no \<Rightarrow> nat" where
  "clock_lookup cs offset =
     scan (\<lambda>i. bi_offset (cs_binfo cs ! i) = offset \<and> bi_status (cs_binfo cs ! i) \<noteq> BI_EMPTY)
       0 (unat (cs_nblocks cs))"

fun clockdisk_nblocks :: "'s block_store_t \<Rightarrow> clockdisk_state \<times> 's \<Rightarrow> (int \<times> clockdisk_state \<times> 's) option" where
  "clockdisk_nblocks below (cs, s) = do {
     (r, s) \<leftarrow> bs_nblocks below s;
     Some (r, cs, s) }"

fun clockdisk_setsize :: "'s block_store_t \<Rightarrow> clockdisk_state \<times> 's \<Rightarrow> block_no \<Rightarrow>
    (int \<times> clockdisk_state \<times> 's) option" where
  "clockdisk_setsize below (cs, s) nblocks = do {
     let cs = cs\<lparr>cs_binfo := map (\<lambda>bi. if bi_status bi \<noteq> BI_EMPTY \<and> bi_offset bi \<ge> nblocks
                                      then bi\<lparr>bi_status := BI_EMPTY\<rparr> else bi) (cs_binfo cs)\<rparr>;
     (r, s) \<leftarrow> bs_setsize below s nblocks;
     Some (r, cs, s) }"

fun clockdisk_read :: "'s block_store_t \<Rightarrow> clockdisk_state \<times> 's \<Rightarrow> block_no \<Rightarrow>
    (block option \<times> clockdisk_state \<times> 's) option" where
  "clockdisk_read below (cs, s) offset =
     (let i = clock_lookup cs offset in
      if i < unat (cs_nblocks cs)
      then Some (Some (cs_blocks cs ! i),
                 (set_status i BI_USED cs)\<lparr>cs_read_hit := cs_read_hit cs + 1\<rparr>, s)
      else do {
        let cs = cs\<lparr>cs_read_miss := cs_read_miss cs + 1\<rparr>;
        (r, s) \<leftarrow> bs_read below s offset;
        (case r of
           None \<Rightarrow> Some (None, cs, s)
         | Some block \<Rightarrow> do {
             cs \<leftarrow> cache_update cs offset block;
             Some (Some block, cs, s) }) })"

fun clockdisk_write :: "'s block_store_t \<Rightarrow> clockdisk_state \<times> 's \<Rightarrow> block_no \<Rightarrow> block \<Rightarrow>
    (int \<times> clockdisk_state \<times> 's) option" where
  "clockdisk_write below (cs, s) offset block = do {
     let i = clock_lookup cs offset;
     let cs = (if i < unat (cs_nblocks cs) then set_status i BI_USED cs else cs);
     (r, s) \<leftarrow> bs_write below s offset block;
     if r = - 1 then Some (r, cs, s)
     else if i = unat (cs_nblocks cs)
     then do {
       cs \<leftarrow> cache_update (cs\<lparr>cs_write_miss := cs_write_miss cs + 1\<rparr>) offset block;
       Some (r, cs, s) }
     else Some (r, cs\<lparr>cs_write_hit := cs_write_hit cs + 1,
                      cs_blocks := (cs_blocks cs)[i := block]\<rparr>, s) }"

definition clockdisk_init :: "block list \<Rightarrow> block_no \<Rightarrow> clockdisk_state" where
  "clockdisk_init blocks nblocks =
     \<lparr>cs_blocks = blocks, cs_nblocks = nblocks,
      cs_binfo = replicate (unat nblocks) \<lparr>bi_status = BI_EMPTY, bi_offset = 0\<rparr>,
      cs_clock_hand = 0, cs_read_hit = 0, cs_read_miss = 0, cs_write_hit = 0, cs_write_miss = 0\<rparr>"

definition clockdisk_store :: "'s block_store_t \<Rightarrow> (clockdisk_state \<times> 's) block_store_t" where
  "clockdisk_store below = \<lparr>bs_nblocks = clockdisk_nblocks below, bs_read = clockdisk_read below,
     bs_write = clockdisk_write below, bs_setsize = clockdisk_setsize below\<rparr>"

text \<open>What \<open>clockdisk_dump_stats\<close> prints.\<close>

definition clockdisk_stats :: "clockdisk_state \<Rightarrow> u32 \<times> u32 \<times> u32 \<times> u32" where
  "clockdisk_stats cs = (cs_read_hit cs, cs_read_miss cs, cs_write_hit cs, cs_write_miss cs)"

lemma clockdisk_store_simps [simp]:
  "bs_nblocks (clockdisk_store below) = clockdisk_nblocks below"
  "bs_read (clockdisk_store below) = clockdisk_read below"
  "bs_write (clockdisk_store below) = clockdisk_write below"
  "bs_setsize (clockdisk_store below) = clockdisk_setsize below"
  by (simp_all add: clockdisk_store_def)

section \<open>Cache contents\<close>

text \<open>
  \<open>holds cs i off\<close>: entry \<open>i\<close> caches block \<open>off\<close>. A well-formed cache has at least one entry and
  arrays of the recorded size; it is coherent with a disk when every cached block equals the
  block on the disk and no block is cached twice.
\<close>

definition holds :: "clockdisk_state \<Rightarrow> nat \<Rightarrow> block_no \<Rightarrow> bool" where
  "holds cs i off \<longleftrightarrow> i < unat (cs_nblocks cs) \<and> bi_status (cs_binfo cs ! i) \<noteq> BI_EMPTY \<and>
     bi_offset (cs_binfo cs ! i) = off"

definition clock_wf :: "clockdisk_state \<Rightarrow> bool" where
  "clock_wf cs \<longleftrightarrow> cs_nblocks cs \<noteq> 0 \<and> length (cs_binfo cs) = unat (cs_nblocks cs) \<and>
     length (cs_blocks cs) = unat (cs_nblocks cs)"

definition coherent :: "clockdisk_state \<Rightarrow> block list \<Rightarrow> bool" where
  "coherent cs D \<longleftrightarrow>
     (\<forall>i off. holds cs i off \<longrightarrow> unat off < length D \<and> cs_blocks cs ! i = D ! unat off) \<and>
     (\<forall>i j off. holds cs i off \<longrightarrow> holds cs j off \<longrightarrow> i = j)"

lemma coherentD:
  assumes "coherent cs D" "holds cs i off"
  shows "unat off < length D" "cs_blocks cs ! i = D ! unat off" "holds cs j off \<Longrightarrow> j = i"
  using assms by (auto simp: coherent_def)

lemma holds_less: "holds cs i off \<Longrightarrow> i < unat (cs_nblocks cs)"
  by (simp add: holds_def)

lemma clock_init_wf:
  "clock_wf (clockdisk_init blocks n) \<longleftrightarrow> n \<noteq> 0 \<and> length blocks = unat n"
  by (auto simp: clock_wf_def clockdisk_init_def)

lemma clock_init_coherent: "coherent (clockdisk_init blocks n) D"
  by (auto simp: coherent_def holds_def clockdisk_init_def)

lemma clock_lookup_cases [case_names hit miss]:
  assumes "\<lbrakk>clock_lookup cs off < unat (cs_nblocks cs); holds cs (clock_lookup cs off) off\<rbrakk> \<Longrightarrow> P"
    and "\<lbrakk>clock_lookup cs off = unat (cs_nblocks cs); \<And>i. \<not> holds cs i off\<rbrakk> \<Longrightarrow> P"
  shows P
  using assms unfolding clock_lookup_def holds_def
  by (rule_tac scan_cases [where hi = "unat (cs_nblocks cs)" and
      p = "\<lambda>i. bi_offset (cs_binfo cs ! i) = off \<and> bi_status (cs_binfo cs ! i) \<noteq> BI_EMPTY"]) blast+

lemma clock_fields [simp]:
  "cs_nblocks (set_status i st cs) = cs_nblocks cs" "cs_blocks (set_status i st cs) = cs_blocks cs"
  "cs_nblocks (advance_hand cs) = cs_nblocks cs" "cs_blocks (advance_hand cs) = cs_blocks cs"
  "cs_binfo (advance_hand cs) = cs_binfo cs"
  "length (cs_binfo (set_status i st cs)) = length (cs_binfo cs)"
  "cs_blocks (fill_entry i off b cs) = (cs_blocks cs)[i := b]"
  by (simp_all add: set_status_def advance_hand_def fill_entry_def)

lemma clock_wf_simps [simp]:
  "clock_wf (set_status i st cs) = clock_wf cs" "clock_wf (advance_hand cs) = clock_wf cs"
  "clock_wf (cs\<lparr>cs_clock_hand := h\<rparr>) = clock_wf cs" "clock_wf (cs\<lparr>cs_read_hit := k\<rparr>) = clock_wf cs"
  "clock_wf (cs\<lparr>cs_read_miss := k\<rparr>) = clock_wf cs" "clock_wf (cs\<lparr>cs_write_hit := k\<rparr>) = clock_wf cs"
  "clock_wf (cs\<lparr>cs_write_miss := k\<rparr>) = clock_wf cs"
  by (simp_all add: clock_wf_def)

lemma holds_simps [simp]:
  "holds (advance_hand cs) = holds cs" "holds (cs\<lparr>cs_clock_hand := h\<rparr>) = holds cs"
  "holds (cs\<lparr>cs_read_hit := k\<rparr>) = holds cs" "holds (cs\<lparr>cs_read_miss := k\<rparr>) = holds cs"
  "holds (cs\<lparr>cs_write_hit := k\<rparr>) = holds cs" "holds (cs\<lparr>cs_write_miss := k\<rparr>) = holds cs"
  "holds (cs\<lparr>cs_blocks := bs\<rparr>) = holds cs"
  by (simp_all add: fun_eq_iff holds_def advance_hand_def)

lemma coherent_simps [simp]:
  "coherent (advance_hand cs) D = coherent cs D" "coherent (cs\<lparr>cs_clock_hand := h\<rparr>) D = coherent cs D"
  "coherent (cs\<lparr>cs_read_hit := k\<rparr>) D = coherent cs D" "coherent (cs\<lparr>cs_read_miss := k\<rparr>) D = coherent cs D"
  "coherent (cs\<lparr>cs_write_hit := k\<rparr>) D = coherent cs D" "coherent (cs\<lparr>cs_write_miss := k\<rparr>) D = coherent cs D"
  by (simp_all add: coherent_def)

lemma holds_set_status:
  "clock_wf cs \<Longrightarrow> holds cs i o' \<Longrightarrow> st \<noteq> BI_EMPTY \<Longrightarrow> holds (set_status i st cs) = holds cs"
  by (auto simp: fun_eq_iff holds_def set_status_def clock_wf_def nth_list_update)

lemma coherent_set_status:
  "clock_wf cs \<Longrightarrow> holds cs i o' \<Longrightarrow> st \<noteq> BI_EMPTY \<Longrightarrow> coherent (set_status i st cs) D = coherent cs D"
  by (simp add: coherent_def holds_set_status)

lemma used_holds:
  "i < unat (cs_nblocks cs) \<Longrightarrow> is_used (cs_binfo cs ! i) \<Longrightarrow> holds cs i (bi_offset (cs_binfo cs ! i))"
  by (simp add: holds_def is_used_def)

section \<open>Eviction keeps the cache coherent\<close>

lemma holds_fill_entry:
  "clock_wf cs \<Longrightarrow> i < unat (cs_nblocks cs) \<Longrightarrow>
     holds (fill_entry i off b cs) j o' = (if j = i then o' = off else holds cs j o')"
  by (auto simp: holds_def fill_entry_def clock_wf_def nth_list_update)

lemma coherent_fill_entry:
  assumes "clock_wf cs" "i < unat (cs_nblocks cs)" "coherent cs D" "\<And>j. \<not> holds cs j off"
    and "unat off < length D" "D ! unat off = b"
  shows "coherent (fill_entry i off b cs) D"
proof -
  have "length (cs_blocks cs) = unat (cs_nblocks cs)" using assms(1) by (simp add: clock_wf_def)
  with assms show ?thesis
    by (auto simp: coherent_def holds_fill_entry nth_list_update split: if_splits)
qed

lemma cache_update_loop_coherent:
  assumes "clock_wf cs" "coherent cs D" "\<And>j. \<not> holds cs j off" "unat off < length D" "D ! unat off = b"
  shows "\<exists>cs'. cache_update_loop cs off b = Some cs' \<and> clock_wf cs' \<and> coherent cs' D"
  using assms
proof (induction cs off b rule: cache_update_loop.induct)
  case (1 cs off b)
  define i where "i = unat (cs_clock_hand cs mod cs_nblocks cs)"
  have n: "cs_nblocks cs \<noteq> 0" "length (cs_binfo cs) = unat (cs_nblocks cs)"
    using "1.prems"(1) by (simp_all add: clock_wf_def)
  then have "0 < unat (cs_nblocks cs)" by (simp add: unat_gt_0)
  then have i: "i < unat (cs_nblocks cs)" by (simp add: i_def unat_mod)
  show ?case
  proof (cases "is_used (cs_binfo cs ! i)")
    case False
    then have "cache_update_loop cs off b = Some (advance_hand (fill_entry i off b cs))"
      using n i by (simp add: cache_update_loop.simps [of cs] Let_def flip: i_def)
    moreover have "clock_wf (fill_entry i off b cs)"
      using "1.prems"(1) by (simp add: clock_wf_def fill_entry_def)
    ultimately show ?thesis using coherent_fill_entry [OF "1.prems"(1) i "1.prems"(2-5)] by simp
  next
    case True
    let ?cs = "advance_hand (set_status i BI_UNUSED cs)"
    note h = used_holds [OF i True]
    have "cache_update_loop cs off b = cache_update_loop ?cs off b"
      using n i True by (simp add: cache_update_loop.simps [of cs] Let_def flip: i_def)
    moreover have "\<exists>cs'. cache_update_loop ?cs off b = Some cs' \<and> clock_wf cs' \<and> coherent cs' D"
    proof (rule "1.IH" [OF i_def])
      show "\<not> (cs_nblocks cs = 0 \<or> \<not> i < length (cs_binfo cs))" using n i by simp
      show "\<not> \<not> is_used (cs_binfo cs ! i)" using True by simp
    qed (use "1.prems" holds_set_status [OF "1.prems"(1) h] coherent_set_status [OF "1.prems"(1) h] in simp_all)
    ultimately show ?thesis by simp
  qed
qed

lemma cache_update_coherent:
  assumes "clock_wf cs" "coherent cs D" "\<And>j. \<not> holds cs j off" "unat off < length D" "D ! unat off = b"
  shows "\<exists>cs'. cache_update cs off b = Some cs' \<and> clock_wf cs' \<and> coherent cs' D"
proof -
  have "cs_nblocks cs \<noteq> 0" using assms(1) by (simp add: clock_wf_def)
  with cache_update_loop_coherent [of cs D off b]
    cache_update_loop_coherent [of "cs\<lparr>cs_clock_hand := cs_clock_hand cs mod cs_nblocks cs\<rparr>" D off b]
  show ?thesis using assms by (simp add: cache_update_def)
qed

section \<open>Contract\<close>

definition clock_ok :: "('s \<Rightarrow> bool) \<Rightarrow> ('s \<Rightarrow> block list) \<Rightarrow> clockdisk_state \<times> 's \<Rightarrow> bool" where
  "clock_ok ok img = (\<lambda>(cs, s). ok s \<and> clock_wf cs \<and> coherent cs (img s))"

definition clock_img :: "('s \<Rightarrow> block list) \<Rightarrow> clockdisk_state \<times> 's \<Rightarrow> block list" where
  "clock_img img = (\<lambda>(cs, s). img s)"

lemma clock_simps [simp]:
  "clock_ok ok img (cs, s) \<longleftrightarrow> ok s \<and> clock_wf cs \<and> coherent cs (img s)"
  "clock_img img (cs, s) = img s"
  by (simp_all add: clock_ok_def clock_img_def)

lemma coherent_write:
  assumes "clock_wf cs" "coherent cs D" "holds cs i off"
  shows "coherent (cs\<lparr>cs_blocks := (cs_blocks cs)[i := b]\<rparr>) (D[unat off := b])"
proof -
  have "i < length (cs_blocks cs)" using assms(1,3) by (simp add: clock_wf_def holds_def)
  with assms(2,3) show ?thesis
    by (auto simp: coherent_def nth_list_update unat32_inject) (metis holds_def)+
qed

lemma coherent_write_uncached:
  "coherent cs D \<Longrightarrow> (\<And>i. \<not> holds cs i off) \<Longrightarrow> coherent cs (D[unat off := b])"
  unfolding coherent_def by (metis length_list_update nth_list_update_neq unat32_inject)

lemma coherent_setsize:
  assumes wf: "clock_wf cs" and "coherent cs D" "unat n \<le> length D"
  shows "coherent (cs\<lparr>cs_binfo := map (\<lambda>bi. if bi_status bi \<noteq> BI_EMPTY \<and> bi_offset bi \<ge> n
      then bi\<lparr>bi_status := BI_EMPTY\<rparr> else bi) (cs_binfo cs)\<rparr>) (take (unat n) D)"
  (is "coherent ?cs _")
proof -
  have h: "holds ?cs i off \<longleftrightarrow> holds cs i off \<and> off < n" for i off
    using wf by (auto simp: holds_def clock_wf_def not_le split: if_splits)
  then show ?thesis
    using assms by (auto simp: coherent_def word_less_nat_alt)
qed

locale clock_over = block_store
begin

lemma clock_read:
  assumes "clock_ok ok img (cs, s)"
  shows "sim (clock_ok ok img) (clock_img img) (clockdisk_read bs (cs, s) off) (img_read (img s) off)"
proof (cases cs off rule: clock_lookup_cases)
  case hit
  from assms coherentD [OF _ hit(2), of "img s"]
  have "unat off < length (img s)" "cs_blocks cs ! clock_lookup cs off = img s ! unat off" by auto
  with assms hit holds_set_status [OF _ hit(2)] coherent_set_status [OF _ hit(2)] show ?thesis
    by (simp add: sim_def img_read_def Let_def)
next
  case miss
  let ?cs = "cs\<lparr>cs_read_miss := cs_read_miss cs + 1\<rparr>"
  have eq: "clockdisk_read bs (cs, s) off = do {
      (r, s) \<leftarrow> bs_read bs s off;
      (case r of None \<Rightarrow> Some (None, ?cs, s)
       | Some b \<Rightarrow> do { cs \<leftarrow> cache_update ?cs off b; Some (Some b, cs, s) }) }"
    using miss(1) by (simp add: Let_def)
  show ?thesis unfolding eq
  proof (rule sim_layer_split [OF read_sim])
    show "ok s" using assms by simp
  next
    fix r s' assume r: "img_read (img s) off = Some (r, img s')" "ok s'"
    then have s': "img s' = img s" by (simp add: img_read_def)
    show "sim (clock_ok ok img) (clock_img img)
      (case r of None \<Rightarrow> Some (None, ?cs, s')
       | Some b \<Rightarrow> do { cs \<leftarrow> cache_update ?cs off b; Some (Some b, cs, s') }) (Some (r, img s'))"
    proof (cases r)
      case None
      with assms r(2) s' show ?thesis by (simp add: sim_def)
    next
      case (Some b)
      with r s' have "unat off < length (img s)" "img s ! unat off = b"
        by (auto simp: img_read_def split: if_splits)
      with cache_update_coherent [of ?cs "img s" off b] miss(2) assms r(2) Some s'
      show ?thesis by (auto simp: sim_def)
    qed
  qed
qed

lemma clock_write:
  assumes "clock_ok ok img (cs, s)"
  shows "sim (clock_ok ok img) (clock_img img) (clockdisk_write bs (cs, s) off b) (img_write (img s) off b)"
proof -
  let ?i = "clock_lookup cs off" and ?n = "unat (cs_nblocks cs)"
  define cs1 where "cs1 = (if ?i < ?n then set_status ?i BI_USED cs else cs)"
  have nb: "cs_nblocks cs1 = cs_nblocks cs" by (simp add: cs1_def)
  have eq: "clockdisk_write bs (cs, s) off b = do {
      (r, s) \<leftarrow> bs_write bs s off b;
      if r = - 1 then Some (r, cs1, s)
      else if ?i = ?n then do {
        cs \<leftarrow> cache_update (cs1\<lparr>cs_write_miss := cs_write_miss cs1 + 1\<rparr>) off b;
        Some (r, cs, s) }
      else Some (r, cs1\<lparr>cs_write_hit := cs_write_hit cs1 + 1, cs_blocks := (cs_blocks cs1)[?i := b]\<rparr>, s) }"
    unfolding clockdisk_write.simps Let_def cs1_def [symmetric] nb ..
  have cs1: "clock_wf cs1" "coherent cs1 (img s)" "holds cs1 = holds cs" "cs_nblocks cs1 = cs_nblocks cs"
    using assms holds_set_status [of cs ?i off BI_USED] coherent_set_status [of cs ?i off BI_USED "img s"]
    by (cases cs off rule: clock_lookup_cases; simp add: cs1_def)+
  show ?thesis unfolding eq
  proof (rule sim_layer_split [OF write_sim])
    show "ok s" using assms by simp
  next
    fix r s' assume r: "img_write (img s) off b = Some (r, img s')" "ok s'"
    show "sim (clock_ok ok img) (clock_img img)
      (if r = - 1 then Some (r, cs1, s')
       else if ?i = ?n then do {
         cs \<leftarrow> cache_update (cs1\<lparr>cs_write_miss := cs_write_miss cs1 + 1\<rparr>) off b;
         Some (r, cs, s') }
       else Some (r, cs1\<lparr>cs_write_hit := cs_write_hit cs1 + 1, cs_blocks := (cs_blocks cs1)[?i := b]\<rparr>, s'))
      (Some (r, img s'))"
    proof (cases "unat off < length (img s)")
      case False
      with r have "r = - 1" "img s' = img s" by (auto simp: img_write_def)
      with r(2) cs1 show ?thesis by (simp add: sim_def)
    next
      case True
      with r have w: "r = 0" "img s' = (img s)[unat off := b]" by (auto simp: img_write_def)
      show ?thesis
      proof (cases cs off rule: clock_lookup_cases)
        case hit
        with coherent_write [of cs1 "img s" ?i off b] cs1 w r(2) show ?thesis
          by (simp add: sim_def clock_wf_def coherent_def)
      next
        case miss
        let ?cs = "cs1\<lparr>cs_write_miss := cs_write_miss cs1 + 1\<rparr>"
        have "coherent ?cs (img s')" using coherent_write_uncached [of cs1 "img s" off b] cs1 miss(2) w by simp
        with cache_update_coherent [of ?cs "img s'" off b] cs1 miss r(2) w True show ?thesis
          by (auto simp: sim_def)
      qed
    qed
  qed
qed

end

text \<open>A cache over a store that cannot be resized; this is what the kernel's virtual server has.\<close>

sublocale clock_over \<subseteq> cached: block_store "clockdisk_store bs" "clock_ok ok img" "clock_img img"
proof (unfold_locales, goal_cases)
  case (1 s)
  obtain cs t where s: "s = (cs, t)" by (cases s)
  with 1 have "sim ok img (bs_nblocks bs t) (img_nblocks (img t))" by (simp add: nblocks_sim)
  with 1 s show ?case by (auto simp: sim_def img_nblocks_def)
next
  case (2 s off)
  obtain cs t where "s = (cs, t)" by (cases s)
  with 2 clock_read [of cs t off] show ?case by (simp del: clockdisk_read.simps)
next
  case (3 s off b)
  obtain cs t where "s = (cs, t)" by (cases s)
  with 3 clock_write [of cs t off b] show ?case by (simp del: clockdisk_write.simps)
next
  case (4 s)
  then show ?case by (cases s) (simp add: img_small)
qed

context clock_over
begin

lemma cached_contract: "block_store (clockdisk_store bs) (clock_ok ok img) (clock_img img)"
  by (rule cached.block_store_axioms)

end

locale clockdisk_on = resizable_store

sublocale clockdisk_on \<subseteq> over: clock_over bs ok img
  by unfold_locales

sublocale clockdisk_on \<subseteq> clock: resizable_store "clockdisk_store bs" "clock_ok ok img" "clock_img img"
proof (unfold_locales, goal_cases)
  case (1 s n)
  obtain cs t where s: "s = (cs, t)" by (cases s)
  with 1 have "sim ok img (bs_setsize bs t n) (img_setsize (img t) n)" by (simp add: setsize_sim)
  with 1 s coherent_setsize [of cs "img t" n] show ?case
    by (auto simp: sim_def img_setsize_def clock_wf_def)
qed

interpretation ram_clock: clockdisk_on ramdisk_store ramdisk_ok ramdisk_img
  by unfold_locales

text \<open>The stack of the kernel's virtual block server: a cache over a partition of a disk.\<close>

interpretation part_clock: clockdisk_on "partdisk_store ramdisk_store"
    "part_ok ramdisk_ok ramdisk_img" "part_img ramdisk_img"
  by unfold_locales

context clockdisk_on
begin

lemma clock_contract: "resizable_store (clockdisk_store bs) (clock_ok ok img) (clock_img img)"
  by (rule clock.resizable_store_axioms)

end

section \<open>Properties\<close>

text \<open>C2: The cache is transparent: over any store that satisfies the contract of block stores, the
  clock cache satisfies the same contract with the same disk contents. So a read through the cache
  returns the block last written, whatever has been cached, evicted or cut off by setsize; the
  eviction loop always ends, and no access leaves the arrays.\<close>
theorem clockdisk_refines:
  assumes "resizable_store below ok img"
  shows "resizable_store (clockdisk_store below) (clock_ok ok img) (clock_img img)"
  by (rule clockdisk_on.clock_contract) (simp add: clockdisk_on_def assms)

theorem clockdisk_refines_witness:
  "resizable_store (clockdisk_store ramdisk_store) (clock_ok ramdisk_ok ramdisk_img) (clock_img ramdisk_img) \<and>
   clock_ok ramdisk_ok ramdisk_img (clockdisk_init [0, 0] 2, ramdisk_init [1, 2, 3] 3) \<and>
   clock_img ramdisk_img (clockdisk_init [0, 0] 2, ramdisk_init [1, 2, 3] 3) = [1, 2, 3]"
  using clockdisk_refines [OF ram.resizable_store_axioms]
  by (simp add: clock_init_wf clock_init_coherent)

end
