(* ===== verification/CacheDisk.thy ===== *)
theory CacheDisk
  imports RamDisk
begin

text \<open>
  The write-through cache of \<open>egos/grass/block/cachedisk.c\<close>. \<open>ccs_map\<close> is the array
  \<open>cacheno_to_blockno\<close>; \<open>-1\<close>, the largest \<open>unsigned int\<close>, marks an unused entry.
\<close>

record cachedisk_state =
  ccs_blocks :: "block list"
  ccs_nblocks :: block_no
  ccs_map :: "block_no list"
  ccs_read_hit :: u32
  ccs_read_miss :: u32
  ccs_write_hit :: u32
  ccs_write_miss :: u32

fun cachedisk_nblocks :: "'s block_store_t \<Rightarrow> cachedisk_state \<times> 's \<Rightarrow> (int \<times> cachedisk_state \<times> 's) option" where
  "cachedisk_nblocks below (cs, s) = do {
     (r, s) \<leftarrow> bs_nblocks below s;
     Some (r, cs, s) }"

fun cachedisk_setsize :: "'s block_store_t \<Rightarrow> cachedisk_state \<times> 's \<Rightarrow> block_no \<Rightarrow>
    (int \<times> cachedisk_state \<times> 's) option" where
  "cachedisk_setsize below (cs, s) nblocks = do {
     (r, s) \<leftarrow> bs_setsize below s nblocks;
     Some (r, cs, s) }"

fun cachedisk_read :: "'s block_store_t \<Rightarrow> cachedisk_state \<times> 's \<Rightarrow> block_no \<Rightarrow>
    (block option \<times> cachedisk_state \<times> 's) option" where
  "cachedisk_read below (cs, s) offset =
     (let i = scan (\<lambda>i. ccs_map cs ! i = offset) 0 (unat (ccs_nblocks cs)) in
      if i < unat (ccs_nblocks cs) then Some (Some (ccs_blocks cs ! i), cs, s)
      else do {
        (r, s) \<leftarrow> bs_read below s offset;
        Some (r, cs\<lparr>ccs_read_miss := ccs_read_miss cs + 1\<rparr>, s) })"

text \<open>
  The search loop of \<open>cachedisk_write\<close>: the final \<open>i\<close>, and in \<open>j\<close> the last unused entry seen
  (\<open>None\<close> for the initial \<open>j = -1\<close>).
\<close>

function cache_search :: "block_no list \<Rightarrow> block_no \<Rightarrow> nat \<Rightarrow> nat \<Rightarrow> nat option \<Rightarrow> nat \<times> nat option" where
  "cache_search m offset n i j =
     (if i < n
      then if m ! i = offset then (i, j)
           else cache_search m offset n (Suc i) (if m ! i = - 1 then Some i else j)
      else (i, j))"
  by pat_completeness auto
termination
  by (relation "measure (\<lambda>(m, offset, n, i, j). n - i)") auto

declare cache_search.simps [simp del]

fun cachedisk_write :: "'s block_store_t \<Rightarrow> cachedisk_state \<times> 's \<Rightarrow> block_no \<Rightarrow> block \<Rightarrow>
    (int \<times> cachedisk_state \<times> 's) option" where
  "cachedisk_write below (cs, s) offset block =
     (let (i, j) = cache_search (ccs_map cs) offset (unat (ccs_nblocks cs)) 0 None in
      if i = unat (ccs_nblocks cs)
      then do {
        let cs = (case j of None \<Rightarrow> cs | Some k \<Rightarrow> cs\<lparr>ccs_blocks := (ccs_blocks cs)[k := block]\<rparr>);
        (r, s) \<leftarrow> bs_write below s offset block;
        Some (r, cs\<lparr>ccs_write_miss := ccs_write_miss cs + 1\<rparr>, s) }
      else do {
        (r, s) \<leftarrow> bs_write below s offset block;
        Some (r, cs\<lparr>ccs_blocks := (ccs_blocks cs)[i := block]\<rparr>, s) })"

definition cachedisk_init :: "block list \<Rightarrow> block_no \<Rightarrow> cachedisk_state" where
  "cachedisk_init blocks nblocks =
     \<lparr>ccs_blocks = blocks, ccs_nblocks = nblocks, ccs_map = replicate (unat nblocks) (- 1),
      ccs_read_hit = 0, ccs_read_miss = 0, ccs_write_hit = 0, ccs_write_miss = 0\<rparr>"

text \<open>What \<open>cachedisk_dump_stats\<close> prints.\<close>

definition cachedisk_stats :: "cachedisk_state \<Rightarrow> u32 \<times> u32 \<times> u32 \<times> u32" where
  "cachedisk_stats cs = (ccs_read_hit cs, ccs_read_miss cs, ccs_write_hit cs, ccs_write_miss cs)"

section \<open>The cache is never filled\<close>

text \<open>
  No operation assigns to \<open>cacheno_to_blockno\<close>, so every entry stays unused and every access
  with an offset other than \<open>-1\<close> goes to the store below.
\<close>

definition cache_unused :: "cachedisk_state \<Rightarrow> bool" where
  "cache_unused cs \<longleftrightarrow> ccs_map cs = replicate (unat (ccs_nblocks cs)) (- 1) \<and> ccs_read_hit cs = 0"

lemma cachedisk_init_unused: "cache_unused (cachedisk_init blocks n)"
  by (simp add: cache_unused_def cachedisk_init_def)

lemma unused_scan:
  assumes "cache_unused cs" "off \<noteq> - 1"
  shows "scan (\<lambda>i. ccs_map cs ! i = off) 0 (unat (ccs_nblocks cs)) = unat (ccs_nblocks cs)"
  by (rule scan_cases [where p = "\<lambda>i. ccs_map cs ! i = off" and hi = "unat (ccs_nblocks cs)"])
    (use assms in \<open>auto simp: cache_unused_def\<close>)

lemma unused_search:
  "m = replicate n (- 1) \<Longrightarrow> off \<noteq> - 1 \<Longrightarrow> i \<le> n \<Longrightarrow> fst (cache_search m off n i j) = n"
proof (induction m off n i j rule: cache_search.induct)
  case (1 m off n i j)
  show ?case
  proof (cases "i < n")
    case True
    with "1.prems" have "m ! i \<noteq> off" by auto
    with 1 True show ?thesis by (subst cache_search.simps) simp
  next
    case False
    with "1.prems" show ?thesis by (subst cache_search.simps) simp
  qed
qed

lemma cachedisk_read_unused:
  assumes "cache_unused cs" "off \<noteq> - 1"
  shows "cachedisk_read below (cs, s) off = do {
    (r, s) \<leftarrow> bs_read below s off;
    Some (r, cs\<lparr>ccs_read_miss := ccs_read_miss cs + 1\<rparr>, s) }"
  using unused_scan [OF assms] by simp

lemma cachedisk_write_unused:
  assumes "cache_unused cs" "off \<noteq> - 1"
  shows "\<exists>cs'. cache_unused cs' \<and> cachedisk_write below (cs, s) off b =
    do { (r, s) \<leftarrow> bs_write below s off b; Some (r, cs', s) }"
proof -
  let ?n = "unat (ccs_nblocks cs)"
  have m: "ccs_map cs = replicate ?n (- 1)" using assms(1) by (simp add: cache_unused_def)
  obtain j where j: "cache_search (replicate ?n (- 1)) off ?n 0 None = (?n, j)"
    using unused_search [OF refl assms(2), of 0 ?n None]
    by (cases "cache_search (replicate ?n (- 1)) off ?n 0 None") auto
  let ?cs = "case j of None \<Rightarrow> cs | Some k \<Rightarrow> cs\<lparr>ccs_blocks := (ccs_blocks cs)[k := b]\<rparr>"
  have "cache_unused (?cs\<lparr>ccs_write_miss := ccs_write_miss ?cs + 1\<rparr>)"
    using assms(1) by (cases j) (simp_all add: cache_unused_def)
  moreover have "cachedisk_write below (cs, s) off b =
    do { (r, s) \<leftarrow> bs_write below s off b; Some (r, ?cs\<lparr>ccs_write_miss := ccs_write_miss ?cs + 1\<rparr>, s) }"
    using m j by (simp add: Let_def)
  ultimately show ?thesis by blast
qed

text \<open>An access to block \<open>-1\<close>, on the other hand, is answered from the uninitialised cache.\<close>

lemma cachedisk_read_garbage:
  assumes "cache_unused cs" "ccs_nblocks cs \<noteq> 0"
  shows "cachedisk_read below (cs, s) (- 1) = Some (Some (ccs_blocks cs ! 0), cs, s)"
proof -
  have "0 < unat (ccs_nblocks cs)" using assms(2) by (simp add: unat_gt_0)
  moreover from this have "ccs_map cs ! 0 = - 1" using assms(1) by (simp add: cache_unused_def)
  ultimately show ?thesis by simp
qed

end
