(* ===== verification/RaidDisk.thy ===== *)
theory RaidDisk
  imports RamDisk
begin

text \<open>
  Striping (\<open>egos/grass/block/raid0disk.c\<close>) and mirroring (\<open>egos/grass/block/raid1disk.c\<close>) over
  an array \<open>below\<close> of stores. Store \<open>i\<close> has method table \<open>below ! i\<close> and state \<open>ss ! i\<close>, and
  \<open>nbelow\<close> is the length of the array.
\<close>

section \<open>raid0disk\<close>

text \<open>
  The loop of \<open>raid0disk_nblocks\<close>: it asks store 0 \<open>nbelow\<close> times. The sum is an \<open>int\<close>, whose
  overflow is undefined.
\<close>

fun raid0_total :: "'s block_store_t \<Rightarrow> nat \<Rightarrow> int \<Rightarrow> 's \<Rightarrow> (int \<times> 's) option" where
  "raid0_total b0 0 tot s = Some (tot, s)"
| "raid0_total b0 (Suc k) tot s = do {
     (r, s) \<leftarrow> bs_nblocks b0 s;
     if r < 0 then Some (r, s)
     else if tot + r \<ge> 2147483648 then None
     else raid0_total b0 k (tot + r) s }"

definition raid0disk_nblocks :: "'s block_store_t list \<Rightarrow> 's list \<Rightarrow> (int \<times> 's list) option" where
  "raid0disk_nblocks below ss =
     (if length below = 0 then Some (0, ss)
      else do {
        (r, s) \<leftarrow> raid0_total (below ! 0) (length below) 0 (ss ! 0);
        Some (r, ss[0 := s]) })"

definition raid0disk_setsize :: "'s block_store_t list \<Rightarrow> 's list \<Rightarrow> block_no \<Rightarrow> (int \<times> 's list) option" where
  "raid0disk_setsize below ss nblocks = Some (- 1, ss)"

definition raid0disk_read :: "'s block_store_t list \<Rightarrow> 's list \<Rightarrow> block_no \<Rightarrow> (block option \<times> 's list) option" where
  "raid0disk_read below ss offset =
     (if length below = 0 then None
      else do {
        let i = unat offset mod length below;
        (r, s) \<leftarrow> bs_read (below ! i) (ss ! i) (of_nat (unat offset div length below));
        Some (r, ss[i := s]) })"

definition raid0disk_write :: "'s block_store_t list \<Rightarrow> 's list \<Rightarrow> block_no \<Rightarrow> block \<Rightarrow> (int \<times> 's list) option" where
  "raid0disk_write below ss offset block =
     (if length below = 0 then None
      else do {
        let i = unat offset mod length below;
        (r, s) \<leftarrow> bs_write (below ! i) (ss ! i) (of_nat (unat offset div length below)) block;
        Some (r, ss[i := s]) })"

definition raid0disk_store :: "'s block_store_t list \<Rightarrow> 's list block_store_t" where
  "raid0disk_store below = \<lparr>bs_nblocks = raid0disk_nblocks below, bs_read = raid0disk_read below,
     bs_write = raid0disk_write below, bs_setsize = raid0disk_setsize below\<rparr>"

section \<open>raid1disk\<close>

record 's raid1disk_state =
  rds_below :: "'s list"
  rds_broken :: "bool list"

definition set_broken :: "nat \<Rightarrow> 's raid1disk_state \<Rightarrow> 's raid1disk_state" where
  "set_broken i rds = rds\<lparr>rds_broken := (rds_broken rds)[i := True]\<rparr>"

definition set_below :: "nat \<Rightarrow> 's \<Rightarrow> 's raid1disk_state \<Rightarrow> 's raid1disk_state" where
  "set_below i s rds = rds\<lparr>rds_below := (rds_below rds)[i := s]\<rparr>"

text \<open>The four loops run over the indices \<open>0 .. nbelow - 1\<close>, given as a list.\<close>

fun raid1_nblocks_loop :: "'s block_store_t list \<Rightarrow> nat list \<Rightarrow> 's raid1disk_state \<Rightarrow>
    (int \<times> 's raid1disk_state) option" where
  "raid1_nblocks_loop below [] rds = Some (- 1, rds)"
| "raid1_nblocks_loop below (i # is) rds =
     (if \<not> rds_broken rds ! i
      then do {
        (nblocks, s) \<leftarrow> bs_nblocks (below ! 0) (rds_below rds ! 0);
        let rds = set_below 0 s rds;
        if nblocks < 0 then raid1_nblocks_loop below is (set_broken i rds)
        else Some (nblocks, rds) }
      else raid1_nblocks_loop below is rds)"

fun raid1_setsize_loop :: "'s block_store_t list \<Rightarrow> block_no \<Rightarrow> nat list \<Rightarrow> int \<Rightarrow> 's raid1disk_state \<Rightarrow>
    (int \<times> 's raid1disk_state) option" where
  "raid1_setsize_loop below nblocks [] oldsize rds = Some (oldsize, rds)"
| "raid1_setsize_loop below nblocks (i # is) oldsize rds = do {
     (r, s) \<leftarrow> bs_setsize (below ! i) (rds_below rds ! i) nblocks;
     let rds = set_below i s rds;
     if r < 0 then raid1_setsize_loop below nblocks is oldsize (set_broken i rds)
     else raid1_setsize_loop below nblocks is r rds }"

fun raid1_read_loop :: "'s block_store_t list \<Rightarrow> block_no \<Rightarrow> nat list \<Rightarrow> 's raid1disk_state \<Rightarrow>
    (block option \<times> 's raid1disk_state) option" where
  "raid1_read_loop below offset [] rds = Some (None, rds)"
| "raid1_read_loop below offset (i # is) rds =
     (if rds_broken rds ! i then raid1_read_loop below offset is rds
      else do {
        (r, s) \<leftarrow> bs_read (below ! i) (rds_below rds ! i) offset;
        let rds = set_below i s rds;
        (case r of Some b \<Rightarrow> Some (Some b, rds)
         | None \<Rightarrow> raid1_read_loop below offset is rds) })"

fun raid1_write_loop :: "'s block_store_t list \<Rightarrow> block_no \<Rightarrow> block \<Rightarrow> nat list \<Rightarrow> int \<Rightarrow> 's raid1disk_state \<Rightarrow>
    (int \<times> 's raid1disk_state) option" where
  "raid1_write_loop below offset block [] result rds = Some (result, rds)"
| "raid1_write_loop below offset block (i # is) result rds =
     (if rds_broken rds ! i then raid1_write_loop below offset block is result rds
      else do {
        (r, s) \<leftarrow> bs_write (below ! i) (rds_below rds ! i) offset block;
        let rds = set_below i s rds;
        if r < 0 then raid1_write_loop below offset block is result (set_broken i rds)
        else raid1_write_loop below offset block is 0 rds })"

definition raid1disk_nblocks :: "'s block_store_t list \<Rightarrow> 's raid1disk_state \<Rightarrow> (int \<times> 's raid1disk_state) option" where
  "raid1disk_nblocks below rds = raid1_nblocks_loop below [0..<length below] rds"

definition raid1disk_setsize :: "'s block_store_t list \<Rightarrow> 's raid1disk_state \<Rightarrow> block_no \<Rightarrow>
    (int \<times> 's raid1disk_state) option" where
  "raid1disk_setsize below rds nblocks = raid1_setsize_loop below nblocks [0..<length below] (- 1) rds"

definition raid1disk_read :: "'s block_store_t list \<Rightarrow> 's raid1disk_state \<Rightarrow> block_no \<Rightarrow>
    (block option \<times> 's raid1disk_state) option" where
  "raid1disk_read below rds offset = raid1_read_loop below offset [0..<length below] rds"

definition raid1disk_write :: "'s block_store_t list \<Rightarrow> 's raid1disk_state \<Rightarrow> block_no \<Rightarrow> block \<Rightarrow>
    (int \<times> 's raid1disk_state) option" where
  "raid1disk_write below rds offset block = raid1_write_loop below offset block [0..<length below] (- 1) rds"

definition raid1disk_init :: "'s list \<Rightarrow> 's raid1disk_state" where
  "raid1disk_init ss = \<lparr>rds_below = ss, rds_broken = replicate (length ss) False\<rparr>"

section \<open>Striping keeps the contract\<close>

text \<open>Block \<open>k\<close> of the striped disk is block \<open>k div n\<close> of store \<open>k mod n\<close>.\<close>

definition raid0_img :: "('s \<Rightarrow> block list) \<Rightarrow> nat \<Rightarrow> 's list \<Rightarrow> block list" where
  "raid0_img img m ss = map (\<lambda>k. img (ss ! (k mod length ss)) ! (k div length ss))
     [0..<length ss * m]"

definition raid0_ok :: "('s \<Rightarrow> bool) \<Rightarrow> ('s \<Rightarrow> block list) \<Rightarrow> nat \<Rightarrow> nat \<Rightarrow> 's list \<Rightarrow> bool" where
  "raid0_ok ok img n m ss \<longleftrightarrow> length ss = n \<and> 0 < n \<and> n * m < 2147483648 \<and>
     (\<forall>i<n. ok (ss ! i) \<and> length (img (ss ! i)) = m)"

locale raid0disk_on =
  fixes bss :: "'s block_store_t list" and ok :: "'s \<Rightarrow> bool" and img :: "'s \<Rightarrow> block list"
    and m :: nat
  assumes stores: "i < length bss \<Longrightarrow> block_store (bss ! i) ok img"
begin

lemma raid0_total_run:
  assumes "length bss \<noteq> 0" "ok s" "tot + int k * int (length (img s)) < 2147483648" "0 \<le> tot"
  shows "\<exists>s'. raid0_total (bss ! 0) k tot s = Some (tot + int k * int (length (img s)), s') \<and> ok s' \<and> img s' = img s"
  using assms(2-4)
proof (induction k arbitrary: tot s)
  case (Suc k)
  have "block_store (bss ! 0) ok img" using stores assms(1) by simp
  from sim_SomeD [OF block_store.nblocks_sim [OF this Suc.prems(1), unfolded img_nblocks_def]]
  obtain s1 where s1: "bs_nblocks (bss ! 0) s = Some (int (length (img s)), s1)" "ok s1" "img s1 = img s" by blast
  have "tot + int (length (img s)) + int k * int (length (img s1)) < 2147483648"
    using Suc.prems(2) s1(3) by (simp add: algebra_simps)
  from Suc.IH [OF s1(2) this] Suc.prems(3) s1(3)
  obtain s' where "raid0_total (bss ! 0) k (tot + int (length (img s))) s1 =
      Some (tot + int (length (img s)) + int k * int (length (img s)), s')" "ok s'" "img s' = img s" by auto
  moreover have "\<not> 2147483648 \<le> tot + int (length (img s))"
  proof -
    have "0 \<le> int k * int (length (img s))" by simp
    moreover have "tot + int (length (img s)) + int k * int (length (img s)) < 2147483648"
      using Suc.prems(2) by (simp add: algebra_simps)
    ultimately show ?thesis by linarith
  qed
  ultimately show ?case using s1(1) by (simp add: algebra_simps)
qed simp

lemma raid0_part:
  assumes "raid0_ok ok img (length bss) m ss"
  shows "i < length bss \<Longrightarrow> ok (ss ! i)" "i < length bss \<Longrightarrow> length (img (ss ! i)) = m"
    "length ss = length bss" "0 < length bss" "length (raid0_img img m ss) = length bss * m"
  using assms by (auto simp: raid0_ok_def raid0_img_def)

lemma raid0_offset:
  assumes "raid0_ok ok img (length bss) m ss"
  shows "unat (of_nat (unat (off :: u32) div length bss) :: u32) = unat off div length bss"
    "unat off < length (raid0_img img m ss) \<longleftrightarrow> unat off div length bss < m"
proof -
  have "unat off div length bss \<le> unat off" by simp
  then show "unat (of_nat (unat off div length bss) :: u32) = unat off div length bss"
    using unat32_less [of off] by (intro unat32_of_nat) linarith
  show "unat off < length (raid0_img img m ss) \<longleftrightarrow> unat off div length bss < m"
    using raid0_part(4,5) [OF assms] by (simp add: div_less_iff_less_mult mult.commute)
qed

lemma raid0_keep:
  assumes "raid0_ok ok img (length bss) m ss" "i < length bss" "ok s" "img s = img (ss ! i)"
  shows "raid0_ok ok img (length bss) m (ss[i := s])" "raid0_img img m (ss[i := s]) = raid0_img img m ss"
proof -
  have "img (ss[i := s] ! j) = img (ss ! j)" "ok (ss[i := s] ! j)" if "j < length bss" for j
    using assms that by (auto simp: raid0_ok_def nth_list_update)
  then show "raid0_ok ok img (length bss) m (ss[i := s])" "raid0_img img m (ss[i := s]) = raid0_img img m ss"
    using assms(1,2) by (auto simp: raid0_ok_def raid0_img_def)
qed

lemma raid0_read:
  assumes "raid0_ok ok img (length bss) m ss"
  shows "sim (raid0_ok ok img (length bss) m) (raid0_img img m) (raid0disk_read bss ss off) (img_read (raid0_img img m ss) off)"
proof -
  let ?n = "length bss"
  let ?i = "unat off mod ?n" and ?o = "of_nat (unat off div ?n) :: u32"
  note p = raid0_part [OF assms] and o = raid0_offset [OF assms, of off]
  have i: "?i < ?n" using p(4) by simp
  from sim_SomeD [OF block_store.read_sim [OF stores [OF i] p(1) [OF i], of ?o, unfolded img_read_def]]
  obtain s where s: "bs_read (bss ! ?i) (ss ! ?i) ?o = Some (if unat ?o < length (img (ss ! ?i))
      then Some (img (ss ! ?i) ! unat ?o) else None, s)" "ok s" "img s = img (ss ! ?i)" by blast
  have run: "raid0disk_read bss ss off = Some (if unat ?o < length (img (ss ! ?i))
      then Some (img (ss ! ?i) ! unat ?o) else None, ss[?i := s])"
    using s(1) p(4) by (simp add: raid0disk_read_def Let_def)
  have "(if unat ?o < length (img (ss ! ?i)) then Some (img (ss ! ?i) ! unat ?o) else None) =
    (if unat off < length (raid0_img img m ss) then Some (raid0_img img m ss ! unat off) else None)"
    unfolding o p(2) [OF i] using o(2) p(3,5) by (auto simp: raid0_img_def)
  then show ?thesis unfolding run img_read_def
    using raid0_keep [OF assms i s(2,3)] by (simp add: sim_def)
qed

lemma raid0_write:
  assumes "raid0_ok ok img (length bss) m ss"
  shows "sim (raid0_ok ok img (length bss) m) (raid0_img img m) (raid0disk_write bss ss off b) (img_write (raid0_img img m ss) off b)"
proof -
  let ?n = "length bss"
  let ?i = "unat off mod ?n" and ?o = "of_nat (unat off div ?n) :: u32"
  note p = raid0_part [OF assms] and o = raid0_offset [OF assms, of off]
  have i: "?i < ?n" using p(4) by simp
  note w = block_store.write_sim [OF stores [OF i] p(1) [OF i], of ?o b]
  show ?thesis
  proof (cases "unat off < length (raid0_img img m ss)")
    case True
    then have lt: "unat ?o < length (img (ss ! ?i))" using o p(2) [OF i] by simp
    from sim_SomeD [OF w [unfolded img_write_in [OF lt]]]
    obtain s where s: "bs_write (bss ! ?i) (ss ! ?i) ?o b = Some (0, s)" "ok s"
      "img s = (img (ss ! ?i))[unat ?o := b]" by blast
    have run: "raid0disk_write bss ss off b = Some (0, ss[?i := s])"
      using s(1) p(4) by (simp add: raid0disk_write_def Let_def)
    have len: "length (img (ss[?i := s] ! j)) = m" if "j < ?n" for j
      using that p(2,3) i s(3) by (simp add: nth_list_update)
    have "raid0_ok ok img ?n m (ss[?i := s])"
      using assms len len [OF p(4)] s(2) by (auto simp: raid0_ok_def nth_list_update)
    moreover have "raid0_img img m (ss[?i := s]) = (raid0_img img m ss)[unat off := b]"
    proof (rule nth_equalityI)
      fix k assume "k < length (raid0_img img m (ss[?i := s]))"
      then have k: "k < ?n * m" using len [OF p(4)] p(3) by (simp add: raid0_img_def)
      have kd: "k div ?n < m" using k p(4) by (simp add: div_less_iff_less_mult mult.commute)
      have eq: "k mod ?n = ?i \<and> k div ?n = unat off div ?n \<longleftrightarrow> k = unat off" by (metis mod_mult_div_eq)
      have "raid0_img img m (ss[?i := s]) ! k = img (ss[?i := s] ! (k mod ?n)) ! (k div ?n)"
        using k len [OF p(4)] p(3) by (simp add: raid0_img_def)
      also have "\<dots> = (if k = unat off then b else img (ss ! (k mod ?n)) ! (k div ?n))"
        using s(3) o(1) i p(3) kd p(2) [OF i] eq by (cases "k mod ?n = ?i") (auto simp: nth_list_update)
      also have "\<dots> = (raid0_img img m ss)[unat off := b] ! k"
        using k True p(3,5) by (simp add: nth_list_update) (simp add: raid0_img_def)
      finally show "raid0_img img m (ss[?i := s]) ! k = (raid0_img img m ss)[unat off := b] ! k" .
    qed (use len [OF p(4)] p(3) in \<open>simp add: raid0_img_def\<close>)
    ultimately show ?thesis unfolding run img_write_in [OF True] by (rule sim_Some)
  next
    case False
    then have lt: "\<not> unat ?o < length (img (ss ! ?i))" using o p(2) [OF i] by simp
    from w lt obtain s where s: "bs_write (bss ! ?i) (ss ! ?i) ?o b = Some (- 1, s)" "ok s" "img s = img (ss ! ?i)"
      by (auto simp: img_write_def dest: sim_SomeD)
    then have "raid0disk_write bss ss off b = Some (- 1, ss[?i := s])"
      using p(4) by (simp add: raid0disk_write_def Let_def)
    then show ?thesis using False raid0_keep [OF assms i s(2,3)] by (simp add: img_write_def sim_def)
  qed
qed

lemma raid0_nblocks:
  assumes "raid0_ok ok img (length bss) m ss"
  shows "sim (raid0_ok ok img (length bss) m) (raid0_img img m) (raid0disk_nblocks bss ss) (img_nblocks (raid0_img img m ss))"
proof -
  note p = raid0_part [OF assms]
  have ne: "length bss \<noteq> 0" using p(4) by simp
  have "int (length bss * m) < 2147483648" using assms by (simp add: raid0_ok_def del: of_nat_mult)
  then have "0 + int (length bss) * int (length (img (ss ! 0))) < 2147483648" by (simp add: p(2) [OF p(4)])
  from raid0_total_run [OF ne p(1) [OF p(4)] this, unfolded p(2) [OF p(4)]]
  obtain s where s: "raid0_total (bss ! 0) (length bss) 0 (ss ! 0) =
      Some (int (length bss) * int (m), s)" "ok s" "img s = img (ss ! 0)" by auto
  then have "raid0disk_nblocks bss ss = Some (int (length (raid0_img img m ss)), ss[0 := s])"
    using ne p(5) by (simp add: raid0disk_nblocks_def)
  then show ?thesis using raid0_keep [OF assms p(4) s(2,3)] by (simp add: img_nblocks_def sim_def)
qed

end

sublocale raid0disk_on \<subseteq> raid0: block_store "raid0disk_store bss" "raid0_ok ok img (length bss) m" "raid0_img img m"
proof (unfold_locales, goal_cases)
  case (1 s)
  then show ?case by (simp add: raid0disk_store_def raid0_nblocks)
next
  case (2 s off)
  then show ?case by (simp add: raid0disk_store_def raid0_read)
next
  case (3 s off b)
  then show ?case by (simp add: raid0disk_store_def raid0_write)
next
  case (4 s)
  then show ?case by (simp add: raid0_part) (simp add: raid0_ok_def)
qed

context raid0disk_on
begin

lemma raid0_contract: "block_store (raid0disk_store bss) (raid0_ok ok img (length bss) m) (raid0_img img m)"
  by (rule raid0.block_store_axioms)

end

interpretation ram_raid0: raid0disk_on "[ramdisk_store, ramdisk_store]" ramdisk_ok ramdisk_img m for m
proof (rule raid0disk_on.intro)
  fix i assume "i < length [ramdisk_store, ramdisk_store]"
  then have "[ramdisk_store, ramdisk_store] ! i = ramdisk_store" by (auto simp: less_Suc_eq)
  then show "block_store ([ramdisk_store, ramdisk_store] ! i) ramdisk_ok ramdisk_img"
    using ram.block_store_axioms by simp
qed

section \<open>Mirroring masks failing stores\<close>

text \<open>
  A store that may fail at any time: a read returns the right block or \<open>-1\<close>, and a write that
  fails may leave any contents behind. A store of the contract is one that does not use this.
\<close>

locale faulty_store =
  fixes bs :: "'s block_store_t" and ok :: "'s \<Rightarrow> bool" and img :: "'s \<Rightarrow> block list"
  assumes read_faulty: "ok s \<Longrightarrow> \<exists>r s'. bs_read bs s off = Some (r, s') \<and> ok s' \<and> img s' = img s \<and>
      (r = None \<or> unat off < length (img s) \<and> r = Some (img s ! unat off))"
    and write_faulty: "ok s \<Longrightarrow> \<exists>r s'. bs_write bs s off b = Some (r, s') \<and> ok s' \<and>
      (r < 0 \<or> r = 0 \<and> unat off < length (img s) \<and> img s' = (img s)[unat off := b])"

sublocale block_store \<subseteq> faulty: faulty_store bs ok img
proof (unfold_locales, goal_cases)
  case (1 s off)
  then show ?case using read_in [of s off] read_out [of s off] by (cases "unat off < length (img s)") auto
next
  case (2 s off b)
  then show ?case using write_in [of s off b] write_out [of s off b] by (cases "unat off < length (img s)") auto
qed

text \<open>\<open>mirror D rds\<close>: every store that is not marked broken holds the disk \<open>D\<close>.\<close>

definition mirror :: "nat \<Rightarrow> ('s \<Rightarrow> bool) \<Rightarrow> ('s \<Rightarrow> block list) \<Rightarrow> block list \<Rightarrow> 's raid1disk_state \<Rightarrow> bool" where
  "mirror n ok img D rds \<longleftrightarrow> length (rds_below rds) = n \<and> length (rds_broken rds) = n \<and>
     (\<forall>i<n. ok (rds_below rds ! i) \<and> (\<not> rds_broken rds ! i \<longrightarrow> img (rds_below rds ! i) = D))"

lemma upto_subset: "set [0..<n] \<subseteq> {..<n}"
  by auto

definition all_broken :: "'s raid1disk_state \<Rightarrow> bool" where
  "all_broken rds \<longleftrightarrow> (\<forall>i<length (rds_broken rds). rds_broken rds ! i)"

lemma mirror_init:
  "(\<And>i. i < length ss \<Longrightarrow> ok (ss ! i) \<and> img (ss ! i) = D) \<Longrightarrow> mirror (length ss) ok img D (raid1disk_init ss)"
  by (simp add: mirror_def raid1disk_init_def)

lemma raid1_fields [simp]:
  "rds_broken (set_below i s rds) = rds_broken rds" "rds_below (set_broken i rds) = rds_below rds"
  "rds_below (set_below i s rds) = (rds_below rds)[i := s]" "rds_broken (set_broken i rds) = (rds_broken rds)[i := True]"
  by (simp_all add: set_below_def set_broken_def)

text \<open>
  In the middle of a write the stores still to be visited hold the old disk \<open>D\<close> and the
  others the new disk \<open>E\<close>.
\<close>

definition mirror_mid :: "nat \<Rightarrow> ('s \<Rightarrow> bool) \<Rightarrow> ('s \<Rightarrow> block list) \<Rightarrow> nat set \<Rightarrow> block list \<Rightarrow> block list \<Rightarrow>
    's raid1disk_state \<Rightarrow> bool" where
  "mirror_mid n ok img todo D E rds \<longleftrightarrow> length (rds_below rds) = n \<and> length (rds_broken rds) = n \<and>
     (\<forall>i<n. ok (rds_below rds ! i) \<and>
        (\<not> rds_broken rds ! i \<longrightarrow> img (rds_below rds ! i) = (if i \<in> todo then D else E)))"

locale raid1disk_on =
  fixes bss :: "'s block_store_t list" and ok :: "'s \<Rightarrow> bool" and img :: "'s \<Rightarrow> block list"
  assumes stores: "i < length bss \<Longrightarrow> faulty_store (bss ! i) ok img"
begin

lemma raid1_read_loop:
  assumes "mirror (length bss) ok img D rds" "set is \<subseteq> {..<length bss}"
  shows "\<exists>r rds'. raid1_read_loop bss off is rds = Some (r, rds') \<and> mirror (length bss) ok img D rds' \<and>
    rds_broken rds' = rds_broken rds \<and> (r = None \<or> unat off < length D \<and> r = Some (D ! unat off))"
  using assms
proof (induction "is" arbitrary: rds)
  case (Cons i "is")
  show ?case
  proof (cases "rds_broken rds ! i")
    case False
    have i: "i < length bss" "ok (rds_below rds ! i)" "img (rds_below rds ! i) = D"
      using Cons.prems False by (auto simp: mirror_def)
    from faulty_store.read_faulty [OF stores [OF i(1)] i(2), of off]
    obtain r s where s: "bs_read (bss ! i) (rds_below rds ! i) off = Some (r, s)" "ok s" "img s = D"
      "r = None \<or> unat off < length D \<and> r = Some (D ! unat off)" unfolding i(3) by blast
    have m: "mirror (length bss) ok img D (set_below i s rds)"
      using Cons.prems(1) s(2,3) i(1) by (auto simp: mirror_def nth_list_update_if)
    show ?thesis
    proof (cases r)
      case None
      from Cons.IH [OF m] Cons.prems(2) show ?thesis using False s(1) None by simp
    next
      case (Some b)
      then show ?thesis using False s(1,4) m by simp
    qed
  qed (use Cons in simp)
qed simp

lemma raid1_write_loop:
  assumes "mirror_mid (length bss) ok img (set is) D (D[unat off := b]) rds" "set is \<subseteq> {..<length bss}"
    "distinct is" "res = - 1 \<or> res = 0" "res = - 1 \<longrightarrow> (\<forall>i<length bss. i \<notin> set is \<longrightarrow> rds_broken rds ! i)"
  shows "\<exists>r rds'. raid1_write_loop bss off b is res rds = Some (r, rds') \<and>
    mirror (length bss) ok img (D[unat off := b]) rds' \<and> (r = 0 \<or> r = - 1 \<and> all_broken rds')"
  using assms
proof (induction "is" arbitrary: rds res)
  case Nil
  then show ?case by (auto simp: mirror_mid_def mirror_def all_broken_def)
next
  case (Cons i "is")
  show ?case
  proof (cases "rds_broken rds ! i")
    case True
    then have "mirror_mid (length bss) ok img (set is) D (D[unat off := b]) rds"
      using Cons.prems(1) by (auto simp: mirror_mid_def)
    from Cons.IH [OF this, of res] Cons.prems True show ?thesis by auto
  next
    case False
    have i: "i < length bss" "ok (rds_below rds ! i)" "img (rds_below rds ! i) = D"
      using Cons.prems(1,2) False by (auto simp: mirror_mid_def)
    from faulty_store.write_faulty [OF stores [OF i(1)] i(2), of off b]
    obtain r s where s: "bs_write (bss ! i) (rds_below rds ! i) off b = Some (r, s)" "ok s"
      "r < 0 \<or> r = 0 \<and> img s = D[unat off := b]" unfolding i(3) by blast
    show ?thesis
    proof (cases "r < 0")
      case True
      let ?rds = "set_broken i (set_below i s rds)"
      have "mirror_mid (length bss) ok img (set is) D (D[unat off := b]) ?rds"
        using Cons.prems(1) s(2) i(1) by (auto simp: mirror_mid_def nth_list_update_if)
      moreover have "res = - 1 \<longrightarrow> (\<forall>j<length bss. j \<notin> set is \<longrightarrow> rds_broken ?rds ! j)"
        using Cons.prems(1,5) i(1) by (auto simp: mirror_mid_def nth_list_update_if)
      ultimately show ?thesis using Cons.IH [of ?rds res] Cons.prems(2-4) False True s(1) by simp
    next
      case ok: False
      let ?rds = "set_below i s rds"
      have "mirror_mid (length bss) ok img (set is) D (D[unat off := b]) ?rds"
        using Cons.prems(1,3) s(2,3) ok i(1) by (auto simp: mirror_mid_def nth_list_update_if)
      then show ?thesis using Cons.IH [of ?rds 0] Cons.prems(2,3) False ok s(1) by simp
    qed
  qed
qed

lemma raid1_read:
  assumes "mirror (length bss) ok img D rds"
  shows "\<exists>r rds'. raid1disk_read bss rds off = Some (r, rds') \<and> mirror (length bss) ok img D rds' \<and>
    (r = None \<or> unat off < length D \<and> r = Some (D ! unat off))"
  using raid1_read_loop [OF assms upto_subset, of off] unfolding raid1disk_read_def by blast

lemma raid1_write:
  assumes "mirror (length bss) ok img D rds"
  shows "\<exists>r rds'. raid1disk_write bss rds off b = Some (r, rds') \<and>
    mirror (length bss) ok img (D[unat off := b]) rds' \<and> (r = 0 \<or> r = - 1 \<and> all_broken rds')"
proof -
  have "mirror_mid (length bss) ok img (set [0..<length bss]) D (D[unat off := b]) rds"
    using assms by (auto simp: mirror_mid_def mirror_def)
  from raid1_write_loop [OF this upto_subset, of "- 1"] show ?thesis by (simp add: raid1disk_write_def)
qed

end

interpretation ram_raid1: raid1disk_on "[ramdisk_store, ramdisk_store]" ramdisk_ok ramdisk_img
proof (rule raid1disk_on.intro)
  fix i assume "i < length [ramdisk_store, ramdisk_store]"
  then have "[ramdisk_store, ramdisk_store] ! i = ramdisk_store" by (auto simp: less_Suc_eq)
  then show "faulty_store ([ramdisk_store, ramdisk_store] ! i) ramdisk_ok ramdisk_img"
    using ram.faulty.faulty_store_axioms by simp
qed

section \<open>Properties\<close>

lemma ramdisk_two: "ramdisk_ok (ramdisk_init [5, 6] 2) \<and> ramdisk_img (ramdisk_init [5, 6] 2) = [5, 6]"
  by (simp add: ramdisk_ok_def ramdisk_img_def ramdisk_init_def)

text \<open>Striping satisfies the contract of block stores: over stores of equal size \<open>m\<close> that satisfy it,
  the striped disk behaves as one disk of \<open>n * m\<close> blocks, where block \<open>k\<close> is block \<open>k div n\<close> of
  store \<open>k mod n\<close>; in particular distinct offsets never share a block.\<close>
theorem raid0disk_refines:
  assumes "\<And>i. i < length bss \<Longrightarrow> block_store (bss ! i) ok img"
  shows "block_store (raid0disk_store bss) (raid0_ok ok img (length bss) m) (raid0_img img m)"
  by (rule raid0disk_on.raid0_contract) (simp add: raid0disk_on_def assms)

theorem raid0disk_refines_witness:
  "block_store (raid0disk_store [ramdisk_store]) (raid0_ok ramdisk_ok ramdisk_img 1 2) (raid0_img ramdisk_img 2) \<and>
   raid0_ok ramdisk_ok ramdisk_img 1 2 [ramdisk_init [5, 6] 2] \<and>
   raid0_img ramdisk_img 2 [ramdisk_init [5, 6] 2] = [5, 6]"
  using raid0disk_refines [of "[ramdisk_store]" ramdisk_ok ramdisk_img 2] ram.block_store_axioms
  by (simp add: raid0_ok_def raid0_img_def ramdisk_two upt_rec)

text \<open>Mirroring masks failures: over stores whose reads and writes may fail at any time, a write
  keeps all stores that are not marked broken equal to one disk with the new block, and fails only
  when every store is marked broken; a store whose write failed is never used again.\<close>
theorem raid1disk_write_mirrors:
  assumes "\<And>i. i < length bss \<Longrightarrow> faulty_store (bss ! i) ok img"
    and "mirror (length bss) ok img D rds"
  shows "\<exists>r rds'. raid1disk_write bss rds off b = Some (r, rds') \<and>
    mirror (length bss) ok img (D[unat off := b]) rds' \<and> (r = 0 \<or> r = - 1 \<and> all_broken rds')"
  by (rule raid1disk_on.raid1_write [OF _ assms(2)]) (simp add: raid1disk_on_def assms(1))

theorem raid1disk_write_mirrors_witness:
  "\<exists>r rds'. raid1disk_write [ramdisk_store] (raid1disk_init [ramdisk_init [5, 6] 2]) 1 9 = Some (r, rds') \<and>
     mirror 1 ramdisk_ok ramdisk_img [5, 9] rds'"
proof -
  have "mirror 1 ramdisk_ok ramdisk_img [5, 6] (raid1disk_init [ramdisk_init [5, 6] 2])"
    by (simp add: mirror_def raid1disk_init_def ramdisk_two)
  with raid1disk_write_mirrors [of "[ramdisk_store]" ramdisk_ok ramdisk_img "[5, 6]" _ 1 9]
  show ?thesis using ram.faulty.faulty_store_axioms by fastforce
qed

text \<open>A read of a mirrored disk returns the block of the common disk or fails, whichever stores
  have failed before, and changes nothing.\<close>
theorem raid1disk_read_mirrors:
  assumes "\<And>i. i < length bss \<Longrightarrow> faulty_store (bss ! i) ok img"
    and "mirror (length bss) ok img D rds"
  shows "\<exists>r rds'. raid1disk_read bss rds off = Some (r, rds') \<and> mirror (length bss) ok img D rds' \<and>
    (r = None \<or> unat off < length D \<and> r = Some (D ! unat off))"
  by (rule raid1disk_on.raid1_read [OF _ assms(2)]) (simp add: raid1disk_on_def assms(1))

theorem raid1disk_read_mirrors_witness:
  "\<exists>r rds'. raid1disk_read [ramdisk_store] (raid1disk_init [ramdisk_init [5, 6] 2]) 1 = Some (r, rds') \<and>
     mirror 1 ramdisk_ok ramdisk_img [5, 6] rds'"
proof -
  have "mirror 1 ramdisk_ok ramdisk_img [5, 6] (raid1disk_init [ramdisk_init [5, 6] 2])"
    by (simp add: mirror_def raid1disk_init_def ramdisk_two)
  with raid1disk_read_mirrors [of "[ramdisk_store]" ramdisk_ok ramdisk_img "[5, 6]" _ 1]
  show ?thesis using ram.faulty.faulty_store_axioms by fastforce
qed

end
