(* ===== verification/TreeDisk.thy ===== *)
theory TreeDisk
  imports BlockStore
begin

text \<open>
  The tree file system (\<open>egos/grass/block/treedisk.h\<close>, \<open>egos/grass/block/treedisk.c\<close>): a set of
  virtual block stores, one per inode number, on one block store. All its state is on the store
  below, so every operation is a state transformer of that store; the only state of a virtual
  block store (\<open>struct treedisk_state\<close>) is its inode number.

  Block layouts are views of a block as 256 references: word 0 of the superblock is
  \<open>n_inodeblocks\<close> and word 1 is \<open>free_list\<close>; inode \<open>i\<close> of an inode block has its \<open>root\<close> in word
  \<open>2 * i\<close> and its \<open>nblocks\<close> in word \<open>2 * i + 1\<close>. \<open>size_t\<close> has 64 bits, so products with
  \<open>INODES_PER_BLOCK\<close> do not wrap.

  This theory holds the operations; \<open>TreeDiskInv\<close> holds the invariant and the proofs.
\<close>

section \<open>Accesses that must succeed\<close>

text \<open>\<open>if ((*below->read)(...) < 0) panic(...)\<close>, and the same for \<open>write\<close>.\<close>

definition read_or_panic :: "'s block_store_t \<Rightarrow> 's \<Rightarrow> block_no \<Rightarrow> (block \<times> 's) option" where
  "read_or_panic below s off = do {
     (r, s) \<leftarrow> bs_read below s off;
     (case r of None \<Rightarrow> None | Some b \<Rightarrow> Some (b, s)) }"

definition write_or_panic :: "'s block_store_t \<Rightarrow> 's \<Rightarrow> block_no \<Rightarrow> block \<Rightarrow> (unit \<times> 's) option" where
  "write_or_panic below s off b = do {
     (r, s) \<leftarrow> bs_write below s off b;
     if r < 0 then None else Some ((), s) }"

lemma read_or_panic_img [simp]:
  "unat off < length D \<Longrightarrow> read_or_panic img_store D off = Some (D ! unat off, D)"
  by (simp add: read_or_panic_def img_simps)

lemma write_or_panic_img [simp]:
  "unat off < length D \<Longrightarrow> write_or_panic img_store D off b = Some ((), D[unat off := b])"
  by (simp add: write_or_panic_def img_simps)

lemma sim_bind_pure [sim_intros]:
  assumes "\<And>x. m = Some x \<Longrightarrow> sim ok img (f x) (g x)"
  shows "sim ok img (m \<bind> f) (m \<bind> g)"
  using assms by (cases m) (auto intro: sim_None)

lemma sim_case_prod_app [sim_intros]:
  assumes "\<And>a b. x = (a, b) \<Longrightarrow> sim ok img (f a b s) (g a b t)"
  shows "sim ok img ((case x of (a, b) \<Rightarrow> f a b) s) ((case x of (a, b) \<Rightarrow> g a b) t)"
  using assms by (cases x) auto

context block_store
begin

lemma read_or_panic_sim [sim_intros]:
  "ok s \<Longrightarrow> sim ok img (read_or_panic bs s off) (read_or_panic img_store (img s) off)"
  unfolding read_or_panic_def img_store_simps by (intro sim_intros refl)

lemma write_or_panic_sim [sim_intros]:
  "ok s \<Longrightarrow> sim ok img (write_or_panic bs s off b) (write_or_panic img_store (img s) off b)"
  unfolding write_or_panic_def img_store_simps by (intro sim_intros refl)

end

section \<open>Layout\<close>

definition INODES_PER_BLOCK :: nat where
  "INODES_PER_BLOCK = BLOCK_SIZE div 8"

definition super_n_inodeblocks :: "block \<Rightarrow> u32" where
  "super_n_inodeblocks b = rd32 b 0"

definition super_free_list :: "block \<Rightarrow> u32" where
  "super_free_list b = rd32 b 1"

definition inode_root :: "block \<Rightarrow> nat \<Rightarrow> u32" where
  "inode_root b i = rd32 b (2 * i)"

definition inode_nblocks :: "block \<Rightarrow> nat \<Rightarrow> u32" where
  "inode_nblocks b i = rd32 b (2 * i + 1)"

text \<open>\<open>sn_inode\<close> is the index of the inode that the pointer \<open>snapshot.inode\<close> points to.\<close>

record treedisk_snapshot =
  sn_super :: block
  sn_inodeblock :: block
  sn_inode_blockno :: block_no
  sn_inode :: nat

definition sn_root :: "treedisk_snapshot \<Rightarrow> u32" where
  "sn_root sn = inode_root (sn_inodeblock sn) (sn_inode sn)"

definition sn_nblocks :: "treedisk_snapshot \<Rightarrow> u32" where
  "sn_nblocks sn = inode_nblocks (sn_inodeblock sn) (sn_inode sn)"

definition sn_set_root :: "u32 \<Rightarrow> treedisk_snapshot \<Rightarrow> treedisk_snapshot" where
  "sn_set_root r sn = sn\<lparr>sn_inodeblock := wr32 (sn_inodeblock sn) (2 * sn_inode sn) r\<rparr>"

definition sn_set_nblocks :: "u32 \<Rightarrow> treedisk_snapshot \<Rightarrow> treedisk_snapshot" where
  "sn_set_nblocks n sn = sn\<lparr>sn_inodeblock := wr32 (sn_inodeblock sn) (2 * sn_inode sn + 1) n\<rparr>"

section \<open>Tree depth\<close>

text \<open>The static \<open>log_rpb\<close>, as the loop in \<open>treedisk_init\<close> leaves it.\<close>

function log_rpb_loop :: "nat \<Rightarrow> nat" where
  "log_rpb_loop k =
     (if (REFS_PER_BLOCK - 1) div 2 ^ Suc k \<noteq> 0 then log_rpb_loop (Suc k) else Suc k)"
  by pat_completeness auto
termination
proof (relation "measure (\<lambda>k. REFS_PER_BLOCK - k)")
  fix k :: nat
  assume "(REFS_PER_BLOCK - 1) div 2 ^ Suc k \<noteq> 0"
  then have "2 ^ Suc k \<le> (255 :: nat)" by (simp add: div_eq_0_iff not_less)
  moreover have "k < 2 ^ k" by simp
  ultimately have "k < 255" unfolding power_Suc by linarith
  then show "(Suc k, k) \<in> measure (\<lambda>k. REFS_PER_BLOCK - k)" by simp
qed simp

definition log_rpb :: nat where
  "log_rpb = log_rpb_loop 0"

lemma log_rpb [simp]: "log_rpb = 8"
  by (simp add: log_rpb_def)

definition log_shift_r :: "block_no \<Rightarrow> nat \<Rightarrow> block_no" where
  "log_shift_r x nbits = (if nbits \<ge> 32 then 0 else drop_bit nbits x)"

text \<open>The loops \<open>while (log_shift_r(x, n * log_rpb) != 0) n++\<close>.\<close>

function count_levels :: "block_no \<Rightarrow> nat \<Rightarrow> nat" where
  "count_levels x n = (if log_shift_r x (n * log_rpb) \<noteq> 0 then count_levels x (Suc n) else n)"
  by pat_completeness auto
termination
  by (relation "measure (\<lambda>(x, n). 4 - n)") (auto simp: log_shift_r_def split: if_splits)

declare count_levels.simps [simp del]

definition tree_levels :: "block_no \<Rightarrow> nat" where
  "tree_levels nblocks = (if nblocks > 0 then count_levels (nblocks - 1) 0 else 0)"

text \<open>\<open>log_shift_r(offset, nlevels * log_rpb) % REFS_PER_BLOCK\<close>\<close>

definition level_index :: "block_no \<Rightarrow> nat \<Rightarrow> nat" where
  "level_index offset nlevels = unat (log_shift_r offset (nlevels * log_rpb)) mod REFS_PER_BLOCK"

section \<open>Snapshot, allocation, release\<close>

text \<open>The inner \<open>None\<close> is the result \<open>-1\<close>.\<close>

definition treedisk_get_snapshot :: "'s block_store_t \<Rightarrow> 's \<Rightarrow> u32 \<Rightarrow>
    (treedisk_snapshot option \<times> 's) option" where
  "treedisk_get_snapshot below s inode_no = do {
     (r, s) \<leftarrow> bs_read below s 0;
     (case r of
        None \<Rightarrow> Some (None, s)
      | Some super \<Rightarrow>
          if unat inode_no \<ge> unat (super_n_inodeblocks super) * INODES_PER_BLOCK then Some (None, s)
          else do {
            let blockno = of_nat (1 + unat inode_no div INODES_PER_BLOCK);
            (r, s) \<leftarrow> bs_read below s blockno;
            (case r of
               None \<Rightarrow> Some (None, s)
             | Some inodeblock \<Rightarrow>
                 Some (Some \<lparr>sn_super = super, sn_inodeblock = inodeblock, sn_inode_blockno = blockno,
                             sn_inode = unat inode_no mod INODES_PER_BLOCK\<rparr>, s)) }) }"

text \<open>\<open>for (i = REFS_PER_BLOCK; --i > 0;) if (refs[i] != 0) break;\<close>, from \<open>i\<close> downwards.\<close>

fun alloc_scan :: "block \<Rightarrow> nat \<Rightarrow> nat" where
  "alloc_scan fl 0 = 0"
| "alloc_scan fl (Suc i) = (if rd32 fl (Suc i) \<noteq> 0 then Suc i else alloc_scan fl i)"

definition treedisk_alloc_block :: "'s block_store_t \<Rightarrow> 's \<Rightarrow> treedisk_snapshot \<Rightarrow>
    ((block_no \<times> treedisk_snapshot) \<times> 's) option" where
  "treedisk_alloc_block below s sn =
     (let b = super_free_list (sn_super sn) in
      if b = 0 then None
      else do {
        (fl, s) \<leftarrow> read_or_panic below s b;
        let i = alloc_scan fl (REFS_PER_BLOCK - 1);
        if i = 0 then do {
          let sn = sn\<lparr>sn_super := wr32 (sn_super sn) 1 (rd32 fl 0)\<rparr>;
          (_, s) \<leftarrow> write_or_panic below s 0 (sn_super sn);
          Some ((b, sn), s) }
        else do {
          (_, s) \<leftarrow> write_or_panic below s b (wr32 fl i 0);
          Some ((rd32 fl i, sn), s) } })"

definition treedisk_free_block :: "'s block_store_t \<Rightarrow> 's \<Rightarrow> treedisk_snapshot \<Rightarrow> block_no \<Rightarrow>
    (treedisk_snapshot \<times> 's) option" where
  "treedisk_free_block below s sn target = do {
     (_, s) \<leftarrow> write_or_panic below s target null_block;
     let b = super_free_list (sn_super sn);
     if b = 0 then do {
       let sn = sn\<lparr>sn_super := wr32 (sn_super sn) 1 target\<rparr>;
       (_, s) \<leftarrow> write_or_panic below s 0 (sn_super sn);
       Some (sn, s) }
     else do {
       (fl, s) \<leftarrow> read_or_panic below s b;
       let i = scan (\<lambda>i. rd32 fl i = 0) 1 REFS_PER_BLOCK;
       if i \<noteq> REFS_PER_BLOCK then do {
         (_, s) \<leftarrow> write_or_panic below s b (wr32 fl i target);
         Some (sn, s) }
       else do {
         let sn = sn\<lparr>sn_super := wr32 (sn_super sn) 1 target\<rparr>;
         (_, s) \<leftarrow> write_or_panic below s 0 (sn_super sn);
         (_, s) \<leftarrow> write_or_panic below s target (wr32 null_block 0 b);
         Some (sn, s) } } }"

text \<open>
  \<open>recursive_free_file\<close>, whose first argument here is \<open>level - curr_level\<close>; \<open>free_refs\<close> is its
  loop over the references of an indirect block, given the function for the next level.
\<close>

fun free_refs :: "(block_no \<Rightarrow> treedisk_snapshot \<Rightarrow> 's \<Rightarrow> (treedisk_snapshot \<times> 's) option) \<Rightarrow> block \<Rightarrow>
    nat list \<Rightarrow> treedisk_snapshot \<Rightarrow> 's \<Rightarrow> (treedisk_snapshot \<times> 's) option" where
  "free_refs f indir [] sn s = Some (sn, s)"
| "free_refs f indir (i # is) sn s =
     (if rd32 indir i \<noteq> 0
      then do {
        (sn, s) \<leftarrow> f (rd32 indir i) sn s;
        free_refs f indir is sn s }
      else free_refs f indir is sn s)"

fun recursive_free_file :: "nat \<Rightarrow> 's block_store_t \<Rightarrow> block_no \<Rightarrow> treedisk_snapshot \<Rightarrow> 's \<Rightarrow>
    (treedisk_snapshot \<times> 's) option" where
  "recursive_free_file 0 below b sn s = treedisk_free_block below s sn b"
| "recursive_free_file (Suc n) below b sn s = do {
     (indir, s) \<leftarrow> read_or_panic below s b;
     (sn, s) \<leftarrow> free_refs (recursive_free_file n below) indir [0..<REFS_PER_BLOCK] sn s;
     treedisk_free_block below s sn b }"

text \<open>
  The loop that computes \<open>level\<close> in \<open>treedisk_free_file\<close>. \<open>max_capacity\<close> is an \<open>unsigned int\<close>
  that can wrap to 0, after which the loop does not end: the result is then \<open>None\<close>.
\<close>

partial_function (option) free_levels :: "u32 \<Rightarrow> u32 \<Rightarrow> nat \<Rightarrow> nat option" where
  "free_levels max_capacity nblocks level =
     (if max_capacity < nblocks
      then free_levels (max_capacity * of_nat REFS_PER_BLOCK) nblocks (Suc level)
      else Some level)"

definition treedisk_free_file :: "'s block_store_t \<Rightarrow> 's \<Rightarrow> treedisk_snapshot \<Rightarrow>
    (treedisk_snapshot \<times> 's) option" where
  "treedisk_free_file below s sn =
     (if sn_nblocks sn = 0 then Some (sn, s)
      else if sn_nblocks sn = 1 then treedisk_free_block below s sn (sn_root sn)
      else do {
        level \<leftarrow> free_levels (of_nat REFS_PER_BLOCK) (sn_nblocks sn) 1;
        recursive_free_file level below (sn_root sn) sn s })"

section \<open>The methods of a virtual block store\<close>

definition treedisk_nblocks :: "'s block_store_t \<Rightarrow> u32 \<Rightarrow> 's \<Rightarrow> (int \<times> 's) option" where
  "treedisk_nblocks below inode_no s = do {
     (r, s) \<leftarrow> treedisk_get_snapshot below s inode_no;
     (case r of
        None \<Rightarrow> Some (- 1, s)
      | Some sn \<Rightarrow> Some (sint (sn_nblocks sn), s)) }"

text \<open>A failed snapshot is ignored and an uninitialised pointer is used, which stops the run here.\<close>

definition treedisk_setsize :: "'s block_store_t \<Rightarrow> u32 \<Rightarrow> 's \<Rightarrow> block_no \<Rightarrow> (int \<times> 's) option" where
  "treedisk_setsize below inode_no s nblocks = do {
     (r, s) \<leftarrow> treedisk_get_snapshot below s inode_no;
     (case r of
        None \<Rightarrow> None
      | Some sn \<Rightarrow>
          if nblocks = sn_nblocks sn then Some (sint nblocks, s)
          else if nblocks > 0 then Some (- 1, s)
          else do {
            (sn, s) \<leftarrow> treedisk_free_file below s sn;
            let sn = sn_set_root 0 (sn_set_nblocks 0 sn);
            (_, s) \<leftarrow> write_or_panic below s (sn_inode_blockno sn) (sn_inodeblock sn);
            Some (0, s) }) }"

fun read_walk :: "'s block_store_t \<Rightarrow> block_no \<Rightarrow> nat \<Rightarrow> block_no \<Rightarrow> 's \<Rightarrow> (block option \<times> 's) option" where
  "read_walk below offset 0 b s =
     (if b = 0 then Some (Some null_block, s) else bs_read below s b)"
| "read_walk below offset (Suc nlevels) b s =
     (if b = 0 then Some (Some null_block, s)
      else do {
        (r, s) \<leftarrow> bs_read below s b;
        (case r of
           None \<Rightarrow> Some (None, s)
         | Some tib \<Rightarrow> read_walk below offset nlevels (rd32 tib (level_index offset nlevels)) s) })"

definition treedisk_read :: "'s block_store_t \<Rightarrow> u32 \<Rightarrow> 's \<Rightarrow> block_no \<Rightarrow> (block option \<times> 's) option" where
  "treedisk_read below inode_no s offset = do {
     (r, s) \<leftarrow> treedisk_get_snapshot below s inode_no;
     (case r of
        None \<Rightarrow> Some (None, s)
      | Some sn \<Rightarrow>
          if offset \<ge> sn_nblocks sn then Some (None, s)
          else read_walk below offset (tree_levels (sn_nblocks sn)) (sn_root sn) s) }"

text \<open>
  \<open>treedisk_write\<close>: \<open>grow_levels n\<close> is the loop that inserts \<open>n\<close> indirect blocks above the root,
  and \<open>write_walk\<close> the loop that walks down, from the slot \<open>parent_no\<close> of the block
  \<open>parent_block\<close> with number \<open>parent_off\<close>; it returns the number of the data block.
\<close>

fun grow_levels :: "nat \<Rightarrow> 's block_store_t \<Rightarrow> treedisk_snapshot \<Rightarrow> 's \<Rightarrow> (treedisk_snapshot \<times> 's) option" where
  "grow_levels 0 below sn s = Some (sn, s)"
| "grow_levels (Suc n) below sn s = do {
     ((indir, sn), s) \<leftarrow> treedisk_alloc_block below s sn;
     let tib = wr32 null_block 0 (sn_root sn);
     let sn = sn_set_root indir sn;
     (_, s) \<leftarrow> write_or_panic below s indir tib;
     grow_levels n below sn s }"

fun write_walk :: "'s block_store_t \<Rightarrow> block_no \<Rightarrow> nat \<Rightarrow> block \<Rightarrow> nat \<Rightarrow> block_no \<Rightarrow>
    treedisk_snapshot \<Rightarrow> 's \<Rightarrow> (block_no \<times> 's) option" where
  "write_walk below offset 0 parent_block parent_no parent_off sn s =
     (if rd32 parent_block parent_no = 0
      then do {
        ((b, sn), s) \<leftarrow> treedisk_alloc_block below s sn;
        (_, s) \<leftarrow> write_or_panic below s parent_off (wr32 parent_block parent_no b);
        Some (b, s) }
      else Some (rd32 parent_block parent_no, s))"
| "write_walk below offset (Suc nlevels) parent_block parent_no parent_off sn s =
     (if rd32 parent_block parent_no = 0
      then do {
        ((b, sn), s) \<leftarrow> treedisk_alloc_block below s sn;
        (_, s) \<leftarrow> write_or_panic below s parent_off (wr32 parent_block parent_no b);
        write_walk below offset nlevels null_block (level_index offset nlevels) b sn s }
      else do {
        let b = rd32 parent_block parent_no;
        (tib, s) \<leftarrow> read_or_panic below s b;
        write_walk below offset nlevels tib (level_index offset nlevels) b sn s })"

definition treedisk_write :: "'s block_store_t \<Rightarrow> u32 \<Rightarrow> 's \<Rightarrow> block_no \<Rightarrow> block \<Rightarrow> (int \<times> 's) option" where
  "treedisk_write below inode_no s offset block = do {
     (r, s) \<leftarrow> treedisk_get_snapshot below s inode_no;
     (case r of
        None \<Rightarrow> Some (- 1, s)
      | Some sn \<Rightarrow> do {
          let nlevels = tree_levels (sn_nblocks sn);
          let extends = (offset \<ge> sn_nblocks sn);
          let sn = (if extends then sn_set_nblocks (offset + 1) sn else sn);
          let nlevels_after = (if extends then count_levels offset 0 else nlevels);
          (sn, s) \<leftarrow> (if sn_nblocks sn = 0 then Some (sn, s)
                     else grow_levels (nlevels_after - nlevels) below sn s);
          (_, s) \<leftarrow> (if extends \<or> sn_nblocks sn \<noteq> 0 \<and> nlevels_after > nlevels
                    then write_or_panic below s (sn_inode_blockno sn) (sn_inodeblock sn)
                    else Some ((), s));
          let nlevels = (if sn_nblocks sn = 0 then nlevels_after else max nlevels nlevels_after);
          (b, s) \<leftarrow> write_walk below offset nlevels (sn_inodeblock sn) (2 * sn_inode sn)
                      (sn_inode_blockno sn) sn s;
          (_, s) \<leftarrow> write_or_panic below s b block;
          Some (0, s) }) }"

text \<open>The result is the inode number kept in \<open>struct treedisk_state\<close>, or \<open>None\<close> for a null pointer.\<close>

definition treedisk_init :: "'s block_store_t \<Rightarrow> 's \<Rightarrow> u32 \<Rightarrow> (u32 option \<times> 's) option" where
  "treedisk_init below s inode_no = do {
     (r, s) \<leftarrow> treedisk_get_snapshot below s inode_no;
     (case r of None \<Rightarrow> Some (None, s) | Some sn \<Rightarrow> Some (Some inode_no, s)) }"

section \<open>Creating a file system\<close>

text \<open>The two inner loops of \<open>setup_freelist\<close>.\<close>

function fill_refs :: "block \<Rightarrow> nat \<Rightarrow> u32 \<Rightarrow> u32 \<Rightarrow> block \<times> nat \<times> u32" where
  "fill_refs data i next_free nblocks =
     (if i < REFS_PER_BLOCK \<and> next_free < nblocks
      then fill_refs (wr32 data i next_free) (Suc i) (next_free + 1) nblocks
      else (data, i, next_free))"
  by pat_completeness auto
termination
  by (relation "measure (\<lambda>(data, i, next_free, nblocks). REFS_PER_BLOCK - i)") auto

function zero_refs :: "block \<Rightarrow> nat \<Rightarrow> block" where
  "zero_refs data i = (if i < REFS_PER_BLOCK then zero_refs (wr32 data i 0) (Suc i) else data)"
  by pat_completeness auto
termination
  by (relation "measure (\<lambda>(data, i). REFS_PER_BLOCK - i)") auto

declare fill_refs.simps [simp del] zero_refs.simps [simp del]

lemma fill_refs_next:
  "fill_refs data i next_free nblocks = (data', i', next_free') \<Longrightarrow> next_free \<le> nblocks \<Longrightarrow>
     next_free \<le> next_free' \<and> next_free' \<le> nblocks"
proof (induction data i next_free nblocks rule: fill_refs.induct)
  case (1 data i next_free nblocks)
  show ?case
  proof (cases "i < REFS_PER_BLOCK \<and> next_free < nblocks")
    case True
    then have n: "unat (next_free + 1) = Suc (unat next_free)"
      using unat32_le [of nblocks] by (simp add: unat32_Suc word_less_nat_alt)
    with True have "next_free + 1 \<le> nblocks" by (simp add: word_less_nat_alt word_le_nat_alt)
    then have "next_free + 1 \<le> next_free' \<and> next_free' \<le> nblocks"
      using "1.IH" True "1.prems"(1) by (simp add: fill_refs.simps [of data i])
    with n show ?thesis by (simp add: word_le_nat_alt)
  next
    case False
    with 1 show ?thesis by (auto simp: fill_refs.simps [of data i])
  qed
qed

text \<open>
  Its outer loop. The array \<open>freelist_data\<close> is assigned in full in every turn, so its contents
  before do not matter.
\<close>

function setup_freelist_loop :: "'s block_store_t \<Rightarrow> 's \<Rightarrow> block \<Rightarrow> u32 \<Rightarrow> u32 \<Rightarrow> u32 \<Rightarrow> (u32 \<times> 's) option" where
  "setup_freelist_loop below s data freelist_block next_free nblocks =
     (if next_free < nblocks
      then do {
        let data = wr32 data 0 freelist_block;
        let freelist_block = next_free;
        let (data, i, next_free) = fill_refs data 1 (next_free + 1) nblocks;
        let data = zero_refs data i;
        (_, s) \<leftarrow> write_or_panic below s freelist_block data;
        setup_freelist_loop below s data freelist_block next_free nblocks }
      else Some (freelist_block, s))"
  by pat_completeness auto
termination
proof (relation "measure (\<lambda>(below, s, data, freelist_block, next_free, nblocks).
    unat nblocks - unat next_free)", goal_cases)
  case 1
  show ?case by simp
next
  case (2 below s data freelist_block next_free nblocks data1 freelist_block1 p data2 q i next_free2)
  then have n: "unat (next_free + 1) = Suc (unat next_free)"
    using unat32_le [of nblocks] by (simp add: unat32_Suc word_less_nat_alt)
  with 2 have "next_free + 1 \<le> nblocks" by (simp add: word_less_nat_alt word_le_nat_alt)
  with 2 have "next_free + 1 \<le> next_free2" using fill_refs_next by (metis prod.inject)
  with 2 n show ?case by (simp add: word_less_nat_alt word_le_nat_alt)
qed

declare setup_freelist_loop.simps [simp del]

definition setup_freelist :: "'s block_store_t \<Rightarrow> 's \<Rightarrow> u32 \<Rightarrow> u32 \<Rightarrow> (u32 \<times> 's) option" where
  "setup_freelist below s next_free nblocks =
     setup_freelist_loop below s null_block 0 next_free nblocks"

text \<open>\<open>for (i = 1; i <= n_inodeblocks; i++)\<close> of \<open>treedisk_create\<close>, over the list of the \<open>i\<close>.\<close>

fun clear_inodes :: "'s block_store_t \<Rightarrow> nat list \<Rightarrow> 's \<Rightarrow> (int \<times> 's) option" where
  "clear_inodes below [] s = Some (0, s)"
| "clear_inodes below (i # is) s = do {
     (r, s) \<leftarrow> bs_write below s (of_nat i) null_block;
     if r < 0 then Some (- 1, s) else clear_inodes below is s }"

definition treedisk_create :: "'s block_store_t \<Rightarrow> 's \<Rightarrow> u32 \<Rightarrow> (int \<times> 's) option" where
  "treedisk_create below s n_inodes = do {
     let n_inodeblocks = of_nat ((unat n_inodes + INODES_PER_BLOCK - 1) div INODES_PER_BLOCK);
     (n, s) \<leftarrow> bs_nblocks below s;
     let nblocks = word_of_int n;
     if nblocks < n_inodeblocks + 2 then Some (- 1, s)
     else do {
       (r, s) \<leftarrow> bs_read below s 0;
       (case r of
          None \<Rightarrow> Some (- 1, s)
        | Some superblock \<Rightarrow>
            if super_n_inodeblocks superblock = 0
            then do {
              (free_list, s) \<leftarrow> setup_freelist below s (n_inodeblocks + 1) nblocks;
              (r, s) \<leftarrow> bs_write below s 0 (wr32 (wr32 null_block 0 n_inodeblocks) 1 free_list);
              if r < 0 then Some (- 1, s)
              else clear_inodes below [1..<Suc (unat n_inodeblocks)] s }
            else if super_n_inodeblocks superblock = n_inodeblocks then Some (0, s)
            else None) } }"

end
