(* ===== verification/TreeDiskInv.thy ===== *)
theory TreeDiskInv
  imports TreeDisk "HOL-Library.Multiset"
begin

text \<open>
  The invariant of the tree file system and the behaviour of its operations on the reference
  disk. The free list and the tree of an inode are described by the multisets of the blocks they
  hold; a well-formed file system has no block twice in their sum, and every operation keeps that
  sum. \<open>frame A D D'\<close> says that only blocks of \<open>A\<close> and the free list pointer of the superblock
  changed.
\<close>

section \<open>Multisets of block numbers\<close>

definition ndup :: "'a multiset \<Rightarrow> bool" where
  "ndup M \<longleftrightarrow> (\<forall>x. count M x \<le> 1)"

lemma ndup_mono: "ndup N \<Longrightarrow> M \<subseteq># N \<Longrightarrow> ndup M"
  unfolding ndup_def by (meson mset_subset_eq_count order_trans)

lemma ndup_disjoint: "ndup (M + N) \<Longrightarrow> x \<in># M \<Longrightarrow> x \<notin># N"
proof
  assume "ndup (M + N)" "x \<in># M" "x \<in># N"
  then have "count M x + count N x \<le> 1" "0 < count M x" "0 < count N x"
    by (simp_all add: ndup_def)
  then show False by simp
qed

lemma ndup_add: "ndup (add_mset b M) \<longleftrightarrow> ndup M \<and> b \<notin># M"
proof
  assume l: "ndup (add_mset b M)"
  then have "count (add_mset b M) b \<le> 1" by (simp only: ndup_def)
  then show "ndup M \<and> b \<notin># M" using ndup_mono [OF l, of M] by (simp add: not_in_iff)
next
  assume "ndup M \<and> b \<notin># M"
  then show "ndup (add_mset b M)" by (auto simp: ndup_def not_in_iff)
qed

lemma ndup_left: "ndup (M + N) \<Longrightarrow> ndup M" and ndup_right: "ndup (M + N) \<Longrightarrow> ndup N"
  by (auto intro: ndup_mono)

lemma sum_change:
  fixes f g :: "'i \<Rightarrow> 'a multiset"
  assumes "finite A" "i \<in> A" "\<And>j. j \<in> A \<Longrightarrow> j \<noteq> i \<Longrightarrow> g j = f j"
  shows "sum g A + f i = sum f A + g i"
proof -
  have "sum g (A - {i}) = sum f (A - {i})" using assms(3) by (auto intro: sum.cong)
  then show ?thesis using assms(1,2) by (simp add: sum.remove [of A i] ac_simps)
qed

lemma member_sum: "finite A \<Longrightarrow> i \<in> A \<Longrightarrow> x \<in># f i \<Longrightarrow> x \<in># sum f A"
  by (simp add: sum.remove [of A i])

lemma sum_disjoint:
  assumes "finite A" "i \<in> A" "j \<in> A" "i \<noteq> j" "ndup (sum f A)" "x \<in># f i"
  shows "x \<notin># f j"
proof -
  have "sum f A = f i + sum f (A - {i})" using assms(1,2) by (simp add: sum.remove)
  then have "x \<notin># sum f (A - {i})" using ndup_disjoint [of "f i" "sum f (A - {i})" x] assms(5,6) by simp
  moreover have "x \<in># f j \<Longrightarrow> x \<in># sum f (A - {i})" using assms(1,3,4) by (intro member_sum) auto
  ultimately show ?thesis by blast
qed

lemma mset_swap:
  assumes "S' + a = S + a'" "a' + F' = a + (F :: 'a multiset)"
  shows "S' + F' = S + F"
proof (rule multiset_eqI)
  fix x
  from assms [THEN arg_cong, of "\<lambda>M. count M x"] show "count (S' + F') x = count (S + F) x" by simp
qed

lemma sub_sum: "finite A \<Longrightarrow> i \<in> A \<Longrightarrow> f i \<subseteq># sum f (A :: 'i set)" for f :: "'i \<Rightarrow> 'a multiset"
  by (simp add: sum.remove [of A i])

section \<open>Frames\<close>

definition frame :: "u32 set \<Rightarrow> block list \<Rightarrow> block list \<Rightarrow> bool" where
  "frame A D D' \<longleftrightarrow> length D' = length D \<and> super_n_inodeblocks (D' ! 0) = super_n_inodeblocks (D ! 0) \<and>
     (\<forall>x. x \<noteq> 0 \<longrightarrow> x \<notin> A \<longrightarrow> D' ! unat x = D ! unat x)"

lemma frame_trans: "frame A D D' \<Longrightarrow> frame B D' D'' \<Longrightarrow> frame (A \<union> B) D D''"
  by (simp add: frame_def)

lemma frame_mono: "frame A D D' \<Longrightarrow> A \<subseteq> B \<Longrightarrow> frame B D D'"
  by (auto simp: frame_def)

lemma frame_refl [simp]: "frame A D D"
  by (simp add: frame_def)

lemma frame_update: "b \<noteq> 0 \<Longrightarrow> frame {b} D (D[unat b := v])"
  by (auto simp: frame_def unat32_inject nth_list_update_neq unat_eq_zero)

lemma frame_nth: "frame A D D' \<Longrightarrow> x \<noteq> 0 \<Longrightarrow> x \<notin> A \<Longrightarrow> D' ! unat x = D ! unat x"
  and frame_length: "frame A D D' \<Longrightarrow> length D' = length D"
  by (simp_all add: frame_def)

section \<open>The free list\<close>

definition opt_ref :: "u32 \<Rightarrow> u32 multiset" where
  "opt_ref r = (if r = 0 then {#} else {#r#})"

definition slot_refs :: "block \<Rightarrow> u32 multiset" where
  "slot_refs b = (\<Sum>i\<in>{1..<256}. opt_ref (rd32 b i))"

inductive flist :: "block list \<Rightarrow> u32 \<Rightarrow> u32 multiset \<Rightarrow> bool" where
  flist_end: "flist D 0 {#}"
| flist_block: "f \<noteq> 0 \<Longrightarrow> flist D (rd32 (D ! unat f) 0) M \<Longrightarrow>
    flist D f (add_mset f (slot_refs (D ! unat f) + M))"

inductive_cases flist_zeroE: "flist D 0 F"
inductive_cases flist_blockE: "flist D f F"

lemma flist_zero [simp]: "flist D 0 F \<longleftrightarrow> F = {#}"
  by (auto intro: flist_end elim: flist_zeroE)

lemma flist_nonzero: "f \<noteq> 0 \<Longrightarrow> flist D f F \<Longrightarrow>
    \<exists>M. F = add_mset f (slot_refs (D ! unat f) + M) \<and> flist D (rd32 (D ! unat f) 0) M"
  by (erule flist_blockE) auto

lemma flist_frame: "flist D f F \<Longrightarrow> (\<And>x. x \<in># F \<Longrightarrow> D' ! unat x = D ! unat x) \<Longrightarrow> flist D' f F"
proof (induction rule: flist.induct)
  case (flist_block f D M)
  then have eq: "D' ! unat f = D ! unat f" by simp
  then have "flist D' (rd32 (D' ! unat f) 0) M" using flist_block by simp
  with flist_block.hyps(1) flist.flist_block [of f D' M] eq show ?case by simp
qed simp

lemma slot_refs_null [simp]: "slot_refs null_block = {#}" "slot_refs (wr32 null_block 0 v) = {#}"
  by (simp_all add: slot_refs_def opt_ref_def)

lemma slot_refs_wr32:
  assumes "1 \<le> i" "i < 256"
  shows "slot_refs (wr32 b i v) + opt_ref (rd32 b i) = slot_refs b + opt_ref v"
  using sum_change [of "{1..<256}" i "\<lambda>j. opt_ref (rd32 (wr32 b i v) j)" "\<lambda>j. opt_ref (rd32 b j)"]
    assms by (simp add: slot_refs_def)

lemma slot_refs_empty: "(\<And>i. 1 \<le> i \<Longrightarrow> i < 256 \<Longrightarrow> rd32 b i = 0) \<Longrightarrow> slot_refs b = {#}"
  by (simp add: slot_refs_def opt_ref_def)

lemma slot_refs_member: "1 \<le> i \<Longrightarrow> i < 256 \<Longrightarrow> rd32 b i \<noteq> 0 \<Longrightarrow> rd32 b i \<in># slot_refs b"
  unfolding slot_refs_def by (rule member_sum) (auto simp: opt_ref_def)

lemma alloc_scan_le: "alloc_scan fl i \<le> i"
  by (induction fl i rule: alloc_scan.induct) auto

lemma alloc_scan_hit: "alloc_scan fl i \<noteq> 0 \<Longrightarrow> rd32 fl (alloc_scan fl i) \<noteq> 0"
  by (induction fl i rule: alloc_scan.induct) (auto split: if_splits)

lemma alloc_scan_miss: "alloc_scan fl i = 0 \<Longrightarrow> 1 \<le> j \<Longrightarrow> j \<le> i \<Longrightarrow> rd32 fl j = 0"
  by (induction fl i rule: alloc_scan.induct) (auto split: if_splits simp: le_Suc_eq)

text \<open>\<open>fl_ok D F\<close>: the free list of the disk \<open>D\<close> holds exactly the blocks \<open>F\<close>, each once.\<close>

definition fl_ok :: "block list \<Rightarrow> u32 multiset \<Rightarrow> bool" where
  "fl_ok D F \<longleftrightarrow> flist D (super_free_list (D ! 0)) F \<and> ndup F \<and>
     (\<forall>x\<in>#F. x \<noteq> 0 \<and> unat x < length D) \<and> 0 < length D"

lemma fl_okD:
  assumes "fl_ok D F"
  shows "flist D (super_free_list (D ! 0)) F" "ndup F" "0 < length D"
    "x \<in># F \<Longrightarrow> x \<noteq> 0" "x \<in># F \<Longrightarrow> unat x < length D"
  using assms by (auto simp: fl_ok_def)

lemma fl_ok_frame:
  assumes "fl_ok D F" "frame A D D'" "D' ! 0 = D ! 0" "\<And>x. x \<in># F \<Longrightarrow> x \<notin> A"
  shows "fl_ok D' F"
proof -
  have "flist D' (super_free_list (D ! 0)) F"
    using flist_frame [OF fl_okD(1) [OF assms(1)]] frame_nth [OF assms(2)] assms(4)
      fl_okD(4) [OF assms(1)] by blast
  with assms show ?thesis by (simp add: fl_ok_def frame_def)
qed

lemma super_wr32 [simp]:
  "super_free_list (wr32 b (Suc 0) f) = f"
  "super_n_inodeblocks (wr32 b (Suc 0) f) = super_n_inodeblocks b"
  by (simp_all add: super_free_list_def super_n_inodeblocks_def)

lemma alloc_block_full:
  "super_free_list (sn_super sn) = 0 \<Longrightarrow> treedisk_alloc_block bs s sn = None"
  by (simp add: treedisk_alloc_block_def)

lemma alloc_block_img:
  assumes fl: "fl_ok D F" and F: "F \<noteq> {#}" and sn: "sn_super sn = D ! 0"
  shows "\<exists>b F' D'. treedisk_alloc_block img_store D sn = Some ((b, sn\<lparr>sn_super := D' ! 0\<rparr>), D') \<and>
    F = add_mset b F' \<and> fl_ok D' F' \<and> frame (set_mset F) D D'"
proof -
  define f where "f = super_free_list (D ! 0)"
  have f0: "f \<noteq> 0" using fl_okD(1) [OF fl] F by (auto simp: f_def)
  define b where "b = D ! unat f"
  obtain M where FM: "F = add_mset f (slot_refs b + M)" and M: "flist D (rd32 b 0) M"
    using flist_nonzero [OF f0, of D F] fl_okD(1) [OF fl] by (auto simp: f_def b_def)
  have fin: "unat f < length D" "f \<in># F" using fl_okD(5) [OF fl, of f] FM by auto
  have fM: "f \<notin># M" using fl_okD(2) [OF fl] FM by (simp add: ndup_add)
  define i where "i = alloc_scan b 255"
  have i: "i < 256" using alloc_scan_le [of b 255] by (simp add: i_def)
  show ?thesis
  proof (cases "i = 0")
    case True
    let ?D = "D[0 := wr32 (D ! 0) 1 (rd32 b 0)]"
    have "slot_refs b = {#}" using alloc_scan_miss [of b 255] True i_def by (intro slot_refs_empty) simp
    moreover have "flist ?D (rd32 b 0) M"
      using fl_okD(4) [OF fl] FM by (intro flist_frame [OF M]) (auto simp: nth_list_update_neq unat_eq_zero)
    moreover have "treedisk_alloc_block img_store D sn = Some ((f, sn\<lparr>sn_super := ?D ! 0\<rparr>), ?D)"
      using f0 fin True fl_okD(3) [OF fl] sn
      by (simp add: treedisk_alloc_block_def f_def [symmetric] b_def [symmetric] i_def [symmetric])
    ultimately show ?thesis using FM fl
      by (intro exI [of _ f] exI [of _ M] exI [of _ ?D])
        (auto simp: fl_ok_def frame_def ndup_add nth_list_update_neq unat_eq_zero)
  next
    case False
    let ?r = "rd32 b i" and ?b = "wr32 b i 0"
    let ?D = "D[unat f := ?b]"
    have r: "?r \<noteq> 0" using alloc_scan_hit [of b 255] False i_def by simp
    have eq: "slot_refs b = add_mset ?r (slot_refs ?b)"
      using slot_refs_wr32 [of i b 0] False i r by (simp add: opt_ref_def)
    let ?F = "add_mset f (slot_refs ?b + M)"
    have "flist ?D (rd32 b 0) M" using fM by (intro flist_frame [OF M])
      (metis nth_list_update_neq unat32_inject)
    then have "flist ?D (rd32 (?D ! unat f) 0) M" using fin False i by simp
    from flist_block [OF f0 this] have "flist ?D f ?F" using fin by simp
    moreover have D0: "?D ! 0 = D ! 0" using f0 by (simp add: nth_list_update_neq unat_eq_zero)
    moreover have FF: "F = add_mset ?r ?F" using FM eq by simp
    ultimately have "fl_ok ?D ?F" using fl by (auto simp: fl_ok_def ndup_add f_def)
    moreover have "treedisk_alloc_block img_store D sn = Some ((?r, sn\<lparr>sn_super := ?D ! 0\<rparr>), ?D)"
      using f0 fin False sn D0
      by (simp add: treedisk_alloc_block_def f_def [symmetric] b_def [symmetric] i_def [symmetric])
    moreover have "frame (set_mset F) D ?D"
      using frame_mono [OF frame_update [OF f0]] fin by simp
    ultimately show ?thesis using FF by blast
  qed
qed

lemma free_block_img:
  assumes fl: "fl_ok D F" and sn: "sn_super sn = D ! 0"
    and t: "t \<noteq> 0" "unat t < length D" "t \<notin># F"
  shows "\<exists>D'. treedisk_free_block img_store D sn t = Some (sn\<lparr>sn_super := D' ! 0\<rparr>, D') \<and>
    fl_ok D' (add_mset t F) \<and> frame (insert t (set_mset F)) D D'"
proof -
  define D1 where "D1 = D[unat t := null_block]"
  have ut: "unat t \<noteq> 0" using t(1) by (simp add: unat_eq_zero)
  have D1: "D1 ! 0 = D ! 0" "length D1 = length D" "D1 ! unat t = null_block"
    using ut t(2) by (simp_all add: D1_def nth_list_update_neq)
  have fr1: "frame {t} D D1" unfolding D1_def using t(1) by (rule frame_update)
  have fl1: "fl_ok D1 F" using fl_ok_frame [OF fl fr1 D1(1)] t(3) by blast
  have ndup: "ndup (add_mset t F)" using fl_okD(2) [OF fl] t(3) by (simp add: ndup_add)
  define f where "f = super_free_list (D ! 0)"
  have run: "treedisk_free_block img_store D sn t =
    (if f = 0 then Some (sn\<lparr>sn_super := wr32 (D ! 0) 1 t\<rparr>, D1[0 := wr32 (D ! 0) 1 t])
     else do {
       (b, s) \<leftarrow> read_or_panic img_store D1 f;
       let i = scan (\<lambda>i. rd32 b i = 0) 1 256;
       if i \<noteq> 256 then do { (_, s) \<leftarrow> write_or_panic img_store s f (wr32 b i t); Some (sn, s) }
       else do {
         (_, s) \<leftarrow> write_or_panic img_store s 0 (wr32 (D ! 0) 1 t);
         (_, s) \<leftarrow> write_or_panic img_store s t (wr32 null_block 0 f);
         Some (sn\<lparr>sn_super := wr32 (D ! 0) 1 t\<rparr>, s) } })"
    using t(2) fl_okD(3) [OF fl] D1(2)
    by (simp add: treedisk_free_block_def sn f_def [symmetric] D1_def [symmetric] Let_def cong: if_cong)
  show ?thesis
  proof (cases "f = 0")
    case True
    let ?D = "D1[0 := wr32 (D ! 0) 1 t]"
    have "F = {#}" using fl_okD(1) [OF fl] True by (simp add: f_def)
    moreover have "?D ! unat t = null_block" using D1 ut by (simp add: nth_list_update_neq)
    then have "flist ?D t {#t#}" using flist_block [of t ?D "{#}"] t(1) by simp
    moreover have "frame {t} D ?D"
      using fr1 D1(2) fl_okD(3) [OF fl] by (auto simp: frame_def nth_list_update_neq unat_eq_zero)
    ultimately show ?thesis
      using run True t D1(2) fl_okD(3) [OF fl] by (auto simp: fl_ok_def ndup_def)
  next
    case False
    define b where "b = D1 ! unat f"
    obtain M where FM: "F = add_mset f (slot_refs b + M)" and M: "flist D1 (rd32 b 0) M"
      using flist_nonzero [OF False, of D1 F] fl_okD(1) [OF fl1] D1(1) by (auto simp: f_def b_def)
    have fin: "unat f < length D1" "f \<in># F" using fl_okD(5) [OF fl1, of f] FM by auto
    have fM: "f \<notin># M" using fl_okD(2) [OF fl] FM by (simp add: ndup_add)
    have ft: "f \<noteq> t" using fin(2) t(3) by auto
    define i where "i = scan (\<lambda>i. rd32 b i = 0) (Suc 0) 256"
    show ?thesis
    proof (cases "i = 256")
      case False
      then have i: "1 \<le> i" "i < 256" "rd32 b i = 0"
        using scan_bounds [of "Suc 0" 256 "\<lambda>i. rd32 b i = 0"] scan_found [of "\<lambda>i. rd32 b i = 0" "Suc 0" 256]
        by (auto simp: i_def)
      let ?b = "wr32 b i t"
      let ?D = "D1[unat f := ?b]"
      have eq: "slot_refs ?b = add_mset t (slot_refs b)"
        using slot_refs_wr32 [of i b t] i t(1) by (simp add: opt_ref_def)
      have "flist ?D (rd32 b 0) M" using fM by (intro flist_frame [OF M])
        (metis nth_list_update_neq unat32_inject)
      then have "flist ?D (rd32 (?D ! unat f) 0) M" using fin i by simp
      from flist_block [OF \<open>f \<noteq> 0\<close> this] have fl2: "flist ?D f (add_mset t F)"
        using fin FM eq by (simp add: add_mset_commute)
      have D0: "?D ! 0 = D ! 0" using \<open>f \<noteq> 0\<close> D1(1) by (simp add: nth_list_update_neq unat_eq_zero)
      have "frame (insert t (set_mset F)) D ?D"
        using frame_trans [OF fr1 frame_update [OF \<open>f \<noteq> 0\<close>], of ?b] fin(2)
        by (rule_tac frame_mono) auto
      moreover have "fl_ok ?D (add_mset t F)"
        using fl2 D0 fl1 t D1(2) ndup by (auto simp: fl_ok_def f_def)
      moreover have "treedisk_free_block img_store D sn t = Some (sn, ?D)"
        using run \<open>f \<noteq> 0\<close> fin False by (simp add: b_def [symmetric] i_def [symmetric] Let_def)
      moreover have "sn\<lparr>sn_super := ?D ! 0\<rparr> = sn" using D0 sn by simp
      ultimately show ?thesis by (intro exI [of _ ?D]) simp
    next
      case True
      let ?D = "D1[0 := wr32 (D ! 0) 1 t, unat t := wr32 null_block 0 f]"
      have nth: "?D ! unat x = D1 ! unat x" if "x \<noteq> 0" "x \<noteq> t" for x
        using that by (simp add: nth_list_update_neq unat_eq_zero unat32_inject)
      have "flist ?D (super_free_list (D1 ! 0)) F"
      proof (rule flist_frame [OF fl_okD(1) [OF fl1]])
        fix x assume "x \<in># F"
        with t(3) fl_okD(4) [OF fl] show "?D ! unat x = D1 ! unat x" by (intro nth) auto
      qed
      then have "flist ?D f F" by (simp add: D1(1) f_def)
      then have "flist ?D (rd32 (?D ! unat t) 0) F" using t(2) D1(2) by simp
      from flist_block [OF t(1) this] have "flist ?D t (add_mset t F)" using t(2) D1(2) by simp
      moreover have D0: "?D ! 0 = wr32 (D ! 0) 1 t" using ut D1(2) fl_okD(3) [OF fl]
        by (simp add: nth_list_update_neq)
      ultimately have "fl_ok ?D (add_mset t F)" using fl t D1(2) ndup by (auto simp: fl_ok_def)
      moreover have "treedisk_free_block img_store D sn t = Some (sn\<lparr>sn_super := ?D ! 0\<rparr>, ?D)"
        using run \<open>f \<noteq> 0\<close> fin True D0 D1(2) t(2) fl_okD(3) [OF fl]
        by (simp add: b_def [symmetric] i_def [symmetric] Let_def)
      moreover have "frame (insert t (set_mset F)) D ?D"
        using nth fr1 D0 D1(2) by (simp add: frame_def)
      ultimately show ?thesis by blast
    qed
  qed
qed

section \<open>Trees of blocks\<close>

fun tree_mset :: "block list \<Rightarrow> nat \<Rightarrow> block_no \<Rightarrow> u32 multiset" where
  "tree_mset D 0 b = opt_ref b"
| "tree_mset D (Suc n) b =
     (if b = 0 then {#} else add_mset b (\<Sum>i<256. tree_mset D n (rd32 (D ! unat b) i)))"

text \<open>The block at an offset of a tree with \<open>n\<close> levels of indirect blocks above the data.\<close>

fun tget :: "block list \<Rightarrow> nat \<Rightarrow> block_no \<Rightarrow> block_no \<Rightarrow> block" where
  "tget D 0 b off = (if b = 0 then null_block else D ! unat b)"
| "tget D (Suc n) b off =
     (if b = 0 then null_block else tget D n (rd32 (D ! unat b) (level_index off n)) off)"

text \<open>Two offsets select the same path through \<open>n\<close> levels.\<close>

definition same_path :: "nat \<Rightarrow> block_no \<Rightarrow> block_no \<Rightarrow> bool" where
  "same_path n off off' \<longleftrightarrow> (\<forall>m<n. level_index off m = level_index off' m)"

lemma level_index_less [simp]: "level_index off n < 256"
  by (simp add: level_index_def)

lemma tree_zero [simp]: "tree_mset D n 0 = {#}" "tget D n 0 off = null_block"
  by (cases n; simp add: opt_ref_def)+

lemma tree_root: "b \<noteq> 0 \<Longrightarrow> b \<in># tree_mset D n b"
  by (cases n) (auto simp: opt_ref_def)

lemma tree_child: "b \<noteq> 0 \<Longrightarrow> i < 256 \<Longrightarrow> tree_mset D n (rd32 (D ! unat b) i) \<subseteq># tree_mset D (Suc n) b"
  using subset_mset.order_trans [OF sub_sum [of "{..<256}" i "\<lambda>i. tree_mset D n (rd32 (D ! unat b) i)"]
      mset_subset_eq_add_right [of _ "{#b#}"]]
  by simp

lemma tree_child_in:
  "b \<noteq> 0 \<Longrightarrow> i < 256 \<Longrightarrow> x \<in># tree_mset D n (rd32 (D ! unat b) i) \<Longrightarrow> x \<in># tree_mset D (Suc n) b"
  using tree_child mset_subset_eqD by metis

lemma tree_frame:
  "(\<And>x. x \<in># tree_mset D n b \<Longrightarrow> D' ! unat x = D ! unat x) \<Longrightarrow> tree_mset D' n b = tree_mset D n b"
proof (induction n arbitrary: b)
  case (Suc n)
  show ?case
  proof (cases "b = 0")
    case False
    then have "D' ! unat b = D ! unat b" using Suc.prems tree_root by blast
    moreover have "tree_mset D' n (rd32 (D ! unat b) i) = tree_mset D n (rd32 (D ! unat b) i)" if "i < 256" for i
      using Suc tree_child_in [OF False that] by blast
    ultimately show ?thesis using False by simp
  qed simp
qed simp

lemma tget_frame:
  "(\<And>x. x \<in># tree_mset D n b \<Longrightarrow> D' ! unat x = D ! unat x) \<Longrightarrow> tget D' n b off = tget D n b off"
proof (induction n arbitrary: b)
  case 0
  then show ?case by (simp add: opt_ref_def)
next
  case (Suc n)
  show ?case
  proof (cases "b = 0")
    case False
    then have "D' ! unat b = D ! unat b" using Suc.prems tree_root by blast
    moreover have "tget D' n (rd32 (D ! unat b) (level_index off n)) off =
        tget D n (rd32 (D ! unat b) (level_index off n)) off"
      using Suc tree_child_in [OF False level_index_less] by blast
    ultimately show ?thesis using False by simp
  qed simp
qed

lemma read_walk_img:
  "(\<And>x. x \<in># tree_mset D n b \<Longrightarrow> unat x < length D) \<Longrightarrow>
     read_walk img_store off n b D = Some (Some (tget D n b off), D)"
proof (induction n arbitrary: b)
  case 0
  then show ?case by (auto simp: opt_ref_def img_simps)
next
  case (Suc n)
  show ?case
  proof (cases "b = 0")
    case False
    then have "unat b < length D" using Suc.prems tree_root by blast
    moreover have "read_walk img_store off n (rd32 (D ! unat b) (level_index off n)) D =
        Some (Some (tget D n (rd32 (D ! unat b) (level_index off n)) off), D)"
      using Suc tree_child_in [OF False level_index_less] by blast
    ultimately show ?thesis using False by (simp add: img_simps)
  qed simp
qed

lemmas tree_Suc = tree_mset.simps(2) and tget_Suc = tget.simps(2)

declare tree_Suc [simp del] tget_Suc [simp del]

section \<open>The walk of a write\<close>

text \<open>
  \<open>in_use D M\<close>: the blocks \<open>M\<close> are distinct block numbers of the disk other than 0.
\<close>

definition in_use :: "block list \<Rightarrow> u32 multiset \<Rightarrow> bool" where
  "in_use D M \<longleftrightarrow> ndup M \<and> (\<forall>x\<in>#M. x \<noteq> 0 \<and> unat x < length D)"

lemma in_useD: "in_use D M \<Longrightarrow> ndup M" "in_use D M \<Longrightarrow> x \<in># M \<Longrightarrow> x \<noteq> 0"
    "in_use D M \<Longrightarrow> x \<in># M \<Longrightarrow> unat x < length D"
  by (auto simp: in_use_def)

lemma in_use_sub: "in_use D N \<Longrightarrow> M \<subseteq># N \<Longrightarrow> length D' = length D \<Longrightarrow> in_use D' M"
  unfolding in_use_def using ndup_mono mset_subset_eqD by metis

text \<open>The last two steps of \<open>treedisk_write\<close>.\<close>

definition walk_and_store :: "block_no \<Rightarrow> nat \<Rightarrow> block \<Rightarrow> nat \<Rightarrow> block_no \<Rightarrow> treedisk_snapshot \<Rightarrow> block \<Rightarrow>
    block list \<Rightarrow> (int \<times> block list) option" where
  "walk_and_store off n pb pi po sn blk D = do {
     (b, s) \<leftarrow> write_walk img_store off n pb pi po sn D;
     (_, s) \<leftarrow> write_or_panic img_store s b blk;
     Some (0, s) }"

text \<open>What it does to the tree below the slot \<open>pi\<close> of block \<open>po\<close>.\<close>

definition walk_post :: "block_no \<Rightarrow> nat \<Rightarrow> block \<Rightarrow> nat \<Rightarrow> block_no \<Rightarrow> block \<Rightarrow>
    block list \<Rightarrow> u32 multiset \<Rightarrow> block list \<Rightarrow> u32 \<Rightarrow> u32 multiset \<Rightarrow> bool" where
  "walk_post off n pb pi po blk D F D' v' F' \<longleftrightarrow>
     v' \<noteq> 0 \<and> fl_ok D' F' \<and> D' ! unat po = wr32 pb pi v' \<and>
     frame (insert po (set_mset (tree_mset D n (rd32 pb pi) + F))) D D' \<and>
     tree_mset D' n v' + F' = tree_mset D n (rd32 pb pi) + F \<and>
     (\<forall>off'. tget D' n v' off' = (if same_path n off off' then blk else tget D n (rd32 pb pi) off'))"

lemma same_path_Suc: "same_path (Suc n) off off' \<longleftrightarrow> level_index off n = level_index off' n \<and> same_path n off off'"
  by (auto simp: same_path_def less_Suc_eq)

lemma same_path_0 [simp]: "same_path 0 off off'"
  by (simp add: same_path_def)

text \<open>Filling an empty slot with a block from the free list.\<close>

lemma slot_alloc:
  assumes "fl_ok D F" "F \<noteq> {#}" "sn_super sn = D ! 0" "po \<noteq> 0" "unat po < length D" "po \<notin># F"
  obtains b F' D1 D2 where "treedisk_alloc_block img_store D sn = Some ((b, sn\<lparr>sn_super := D2 ! 0\<rparr>), D1)"
    "D2 = D1[unat po := wr32 pb pi b]" "unat po < length D1"
    "F = add_mset b F'" "fl_ok D2 F'" "frame (insert po (set_mset F)) D D2"
    "D2 ! unat po = wr32 pb pi b" "b \<noteq> 0" "unat b < length D" "b \<notin># F'"
proof -
  obtain b F' D1 where a: "treedisk_alloc_block img_store D sn = Some ((b, sn\<lparr>sn_super := D1 ! 0\<rparr>), D1)"
    "F = add_mset b F'" "fl_ok D1 F'" "frame (set_mset F) D D1"
    using alloc_block_img [OF assms(1-3)] by blast
  let ?D2 = "D1[unat po := wr32 pb pi b]"
  have l: "length D1 = length D" using a(4) by (rule frame_length)
  have z: "?D2 ! 0 = D1 ! 0" using assms(4) by (simp add: nth_list_update_neq unat_eq_zero)
  note f = frame_update [OF assms(4), of D1 "wr32 pb pi b"]
  have "fl_ok ?D2 F'" using fl_ok_frame [OF a(3) f z] assms(6) a(2) by auto
  moreover have "frame (insert po (set_mset F)) D ?D2"
    using frame_trans [OF a(4) f] by (simp add: insert_commute)
  ultimately show ?thesis
    using that [of b ?D2 D1 F'] a l z assms(5) fl_okD(2,4,5) [OF assms(1)] by (simp add: ndup_add)
qed

lemma walk_post_fresh:
  assumes "walk_post off n null_block (level_index off n) b blk D2 F' D3 v F''"
    and "rd32 pb pi = 0" "F = add_mset b F'" "b \<noteq> 0" "po \<notin># F" "po \<noteq> 0"
    and "frame (insert po (set_mset F)) D D2" "D2 ! unat po = wr32 pb pi b"
  shows "walk_post off (Suc n) pb pi po blk D F D3 b F''"
proof -
  let ?j = "level_index off n"
  from assms(1) have w: "v \<noteq> 0" "fl_ok D3 F''" "D3 ! unat b = wr32 null_block ?j v"
    "frame (insert b (set_mset F')) D2 D3" "tree_mset D3 n v + F'' = F'"
    "\<And>off'. tget D3 n v off' = (if same_path n off off' then blk else null_block)"
    by (simp_all add: walk_post_def)
  have "(\<Sum>i<256. tree_mset D3 n (rd32 (D3 ! unat b) i)) = (\<Sum>i<256. if i = ?j then tree_mset D3 n v else {#})"
    using w(3) by (intro sum.cong) auto
  then have "tree_mset D3 (Suc n) b = add_mset b (tree_mset D3 n v)" using assms(4) by (simp add: tree_Suc)
  moreover have "tget D3 (Suc n) b off' = (if same_path (Suc n) off off' then blk else null_block)" for off'
    using assms(4) w(3,6) by (simp add: same_path_Suc tget_Suc)
  moreover have "D3 ! unat po = wr32 pb pi b" using frame_nth [OF w(4) assms(6)] assms(3,5,8) by simp
  moreover have "frame (insert po (set_mset F)) D D3"
    by (rule frame_mono [OF frame_trans [OF assms(7) w(4)]]) (auto simp: assms(3))
  ultimately show ?thesis using assms(2-4) w(2,5) by (simp add: walk_post_def)
qed

lemma walk_post_child:
  assumes "walk_post off n (D ! unat v) (level_index off n) v blk D F D3 c F''"
    and "v = rd32 pb pi" "v \<noteq> 0" "pi < 256" "D ! unat po = pb" "po \<noteq> 0"
    and "in_use D (tree_mset D (Suc n) v + F)" "po \<notin># tree_mset D (Suc n) v + F"
  shows "walk_post off (Suc n) pb pi po blk D F D3 v F''"
proof -
  let ?j = "level_index off n" and ?tib = "D ! unat v"
  let ?T = "\<lambda>i. tree_mset D n (rd32 ?tib i)"
  from assms(1) have w: "fl_ok D3 F''" "D3 ! unat v = wr32 ?tib ?j c"
    "frame (insert v (set_mset (?T ?j + F))) D D3" "tree_mset D3 n c + F'' = ?T ?j + F"
    "\<And>off'. tget D3 n c off' = (if same_path n off off' then blk else tget D n (rd32 ?tib ?j) off')"
    by (simp_all add: walk_post_def)
  have u: "ndup (add_mset v (sum ?T {..<256}) + F)" "\<And>x. x \<in># sum ?T {..<256} \<Longrightarrow> x \<noteq> 0"
    using assms(7) assms(3) by (auto simp: in_use_def tree_Suc)
  have kept: "D3 ! unat x = D ! unat x" if "x \<in># ?T i" "i < 256" "i \<noteq> ?j" for x i
  proof (rule frame_nth [OF w(3)])
    have m: "x \<in># sum ?T {..<256}" using that by (intro member_sum) auto
    then show "x \<noteq> 0" by (rule u(2))
    have "x \<noteq> v" using u(1) m by (auto simp: ndup_add)
    moreover have "x \<notin># F" using ndup_disjoint [OF u(1)] m by simp
    moreover have "x \<notin># ?T ?j"
      using sum_disjoint [of "{..<256}" i ?j ?T x] that ndup_left [OF u(1)] by (simp add: ndup_add)
    ultimately show "x \<notin> insert v (set_mset (?T ?j + F))" by simp
  qed
  have "tree_mset D3 n (rd32 ?tib i) = ?T i" if "i < 256" "i \<noteq> ?j" for i
    using tree_frame kept that by blast
  then have "(\<Sum>i<256. tree_mset D3 n (rd32 (D3 ! unat v) i)) + ?T ?j = sum ?T {..<256} + tree_mset D3 n c"
    using sum_change [of "{..<256}" ?j "\<lambda>i. tree_mset D3 n (rd32 (D3 ! unat v) i)" ?T] w(2) by simp
  from mset_swap [OF this w(4)] have total: "tree_mset D3 (Suc n) v + F'' = tree_mset D (Suc n) v + F"
    using assms(3) by (simp add: tree_Suc)
  have data: "\<forall>off'. tget D3 (Suc n) v off' = (if same_path (Suc n) off off' then blk else tget D (Suc n) v off')"
  proof
    fix off'
    show "tget D3 (Suc n) v off' = (if same_path (Suc n) off off' then blk else tget D (Suc n) v off')"
    proof (cases "level_index off' n = ?j")
      case True
      then show ?thesis using assms(3) w(2,5) by (simp add: same_path_Suc tget_Suc)
    next
      case False
      then have "tget D3 n (rd32 ?tib (level_index off' n)) off' = tget D n (rd32 ?tib (level_index off' n)) off'"
        using tget_frame kept level_index_less by blast
      then show ?thesis using assms(3) w(2) False by (simp add: same_path_Suc tget_Suc)
    qed
  qed
  have sub: "insert v (set_mset (?T ?j + F)) \<subseteq> set_mset (tree_mset D (Suc n) v + F)"
    using tree_root [OF assms(3), of D "Suc n"] tree_child_in [OF assms(3) level_index_less, of _ D n off n]
    by auto
  have "po \<notin> insert v (set_mset (?T ?j + F))" using sub assms(8) by blast
  from frame_nth [OF w(3) assms(6) this] have slot: "D3 ! unat po = wr32 pb pi v"
    by (simp add: assms(2,4,5))
  have fr: "frame (insert po (set_mset (tree_mset D (Suc n) v + F))) D D3"
    by (rule frame_mono [OF w(3)]) (use sub in blast)
  show ?thesis
    unfolding walk_post_def assms(2) [symmetric] by (intro conjI assms(3) w(1) slot fr total data)
qed

lemma walk_img:
  assumes "fl_ok D F" "sn_super sn = D ! 0" "pi < 256" "po \<noteq> 0" "unat po < length D"
    and "in_use D (tree_mset D n (rd32 pb pi) + F)" "po \<notin># tree_mset D n (rd32 pb pi) + F"
    and "rd32 pb pi \<noteq> 0 \<Longrightarrow> D ! unat po = pb"
  shows "(walk_and_store off n pb pi po sn blk D = None \<and> size F \<le> n) \<or>
    (\<exists>D' v' F'. walk_and_store off n pb pi po sn blk D = Some (0, D') \<and> walk_post off n pb pi po blk D F D' v' F')"
  using assms
proof (induction n arbitrary: D F sn pb pi po)
  case 0
  show ?case
  proof (cases "rd32 pb pi = 0")
    case True
    show ?thesis
    proof (cases "F = {#}")
      case True
      then have "super_free_list (sn_super sn) = 0" using "0.prems"(1,2) by (auto simp: fl_ok_def elim: flist_blockE)
      then show ?thesis using \<open>rd32 pb pi = 0\<close> True by (simp add: walk_and_store_def alloc_block_full)
    next
      case False
      have "po \<notin># F" using "0.prems"(7) by simp
      obtain b F' D1 D2 where a: "treedisk_alloc_block img_store D sn = Some ((b, sn\<lparr>sn_super := D2 ! 0\<rparr>), D1)"
        "D2 = D1[unat po := wr32 pb pi b]" "unat po < length D1"
        "F = add_mset b F'" "fl_ok D2 F'" "frame (insert po (set_mset F)) D D2"
        "D2 ! unat po = wr32 pb pi b" "b \<noteq> 0" "unat b < length D" "b \<notin># F'"
        by (rule slot_alloc [OF "0.prems"(1) False "0.prems"(2,4,5) \<open>po \<notin># F\<close>])
      let ?D3 = "D2[unat b := blk]"
      have b: "unat b < length D2" "b \<noteq> po" using frame_length [OF a(6)] a(4,9) \<open>po \<notin># F\<close> by auto
      note f = frame_update [OF a(8), of D2 blk]
      have z: "?D3 ! 0 = D2 ! 0" using a(8) by (simp add: nth_list_update_neq unat_eq_zero)
      have "fl_ok ?D3 F'" using fl_ok_frame [OF a(5) f z] a(10) by blast
      moreover have "?D3 ! unat po = wr32 pb pi b" using frame_nth [OF f "0.prems"(4)] b a(7) by auto
      moreover have "frame (insert po (set_mset F)) D ?D3"
        by (rule frame_mono [OF frame_trans [OF a(6) f]]) (auto simp: a(4))
      ultimately have "walk_post off 0 pb pi po blk D F ?D3 b F'"
        using \<open>rd32 pb pi = 0\<close> a(4,8) b by (simp add: walk_post_def opt_ref_def)
      moreover have "walk_and_store off 0 pb pi po sn blk D = Some (0, ?D3)"
        using \<open>rd32 pb pi = 0\<close> a(1-3) b by (simp add: walk_and_store_def)
      ultimately show ?thesis by blast
    qed
  next
    case False
    let ?v = "rd32 pb pi"
    let ?D3 = "D[unat ?v := blk]"
    have v: "unat ?v < length D" "?v \<notin># F" "po \<noteq> ?v" "po \<notin># F"
      using False "0.prems"(6,7) by (auto simp: in_use_def opt_ref_def ndup_add)
    note f = frame_update [OF False, of D blk]
    have z: "?D3 ! 0 = D ! 0" using False by (simp add: nth_list_update_neq unat_eq_zero)
    have "fl_ok ?D3 F" using fl_ok_frame [OF "0.prems"(1) f z] v(2) by blast
    moreover have "?D3 ! unat po = wr32 pb pi ?v"
      using frame_nth [OF f "0.prems"(4)] v(3) "0.prems"(3,8) False by simp
    moreover have "frame (insert po (set_mset (opt_ref ?v + F))) D ?D3"
      using False by (intro frame_mono [OF f]) (auto simp: opt_ref_def)
    ultimately have "walk_post off 0 pb pi po blk D F ?D3 ?v F"
      using False v(1) by (simp add: walk_post_def)
    moreover have "walk_and_store off 0 pb pi po sn blk D = Some (0, ?D3)"
      using False v(1) by (simp add: walk_and_store_def)
    ultimately show ?thesis by blast
  qed
next
  case (Suc n)
  let ?v = "rd32 pb pi" and ?j = "level_index off n"
  show ?case
  proof (cases "?v = 0")
    case True
    show ?thesis
    proof (cases "F = {#}")
      case True
      then have "super_free_list (sn_super sn) = 0" using Suc.prems(1,2) by (auto simp: fl_ok_def elim: flist_blockE)
      then show ?thesis using \<open>?v = 0\<close> True by (simp add: walk_and_store_def alloc_block_full)
    next
      case False
      have "po \<notin># F" using Suc.prems(7) by simp
      obtain b F' D1 D2 where a: "treedisk_alloc_block img_store D sn = Some ((b, sn\<lparr>sn_super := D2 ! 0\<rparr>), D1)"
        "D2 = D1[unat po := wr32 pb pi b]" "unat po < length D1"
        "F = add_mset b F'" "fl_ok D2 F'" "frame (insert po (set_mset F)) D D2"
        "D2 ! unat po = wr32 pb pi b" "b \<noteq> 0" "unat b < length D" "b \<notin># F'"
        by (rule slot_alloc [OF Suc.prems(1) False Suc.prems(2,4,5) \<open>po \<notin># F\<close>])
      let ?sn = "sn\<lparr>sn_super := D2 ! 0\<rparr>"
      have run: "walk_and_store off (Suc n) pb pi po sn blk D = walk_and_store off n null_block ?j b ?sn blk D2"
        using \<open>?v = 0\<close> a(1-3) by (simp add: walk_and_store_def)
      have "unat b < length D2" "in_use D2 F'"
        using frame_length [OF a(6)] a(9) fl_okD [OF a(5)] by (auto simp: in_use_def)
      with Suc.IH [of D2 F' ?sn ?j b null_block] a(5,8,10)
      have "(walk_and_store off n null_block ?j b ?sn blk D2 = None \<and> size F' \<le> n) \<or>
        (\<exists>D' v' F''. walk_and_store off n null_block ?j b ?sn blk D2 = Some (0, D') \<and>
           walk_post off n null_block ?j b blk D2 F' D' v' F'')" by simp
      then show ?thesis unfolding run
        using walk_post_fresh [OF _ \<open>?v = 0\<close> a(4,8) \<open>po \<notin># F\<close> Suc.prems(4) a(6,7)] a(4) by fastforce
    qed
  next
    case False
    have v: "unat ?v < length D" using in_useD(3) [OF Suc.prems(6)] tree_root [OF False] by simp
    have sub: "tree_mset D n (rd32 (D ! unat ?v) ?j) + F \<subseteq># tree_mset D (Suc n) ?v + F"
      using tree_child [OF False level_index_less] by simp
    have "?v \<notin># tree_mset D n (rd32 (D ! unat ?v) ?j) + F"
    proof -
      have "ndup (add_mset ?v ((\<Sum>i<256. tree_mset D n (rd32 (D ! unat ?v) i)) + F))"
        using in_useD(1) [OF Suc.prems(6)] False by (simp add: tree_Suc)
      then show ?thesis
        using member_sum [of "{..<256}" ?j ?v "\<lambda>i. tree_mset D n (rd32 (D ! unat ?v) i)"]
        by (auto simp: ndup_add)
    qed
    with Suc.IH [of D F sn ?j ?v "D ! unat ?v"] Suc.prems(1,2) False v in_use_sub [OF Suc.prems(6) sub]
    have "(walk_and_store off n (D ! unat ?v) ?j ?v sn blk D = None \<and> size F \<le> n) \<or>
      (\<exists>D' v' F'. walk_and_store off n (D ! unat ?v) ?j ?v sn blk D = Some (0, D') \<and>
         walk_post off n (D ! unat ?v) ?j ?v blk D F D' v' F')" by simp
    moreover have "walk_and_store off (Suc n) pb pi po sn blk D =
        walk_and_store off n (D ! unat ?v) ?j ?v sn blk D"
      using False v by (simp add: walk_and_store_def Let_def)
    ultimately show ?thesis
      using walk_post_child [OF _ refl False Suc.prems(3) Suc.prems(8) [OF False] Suc.prems(4,6,7)]
      by (metis le_SucI)
  qed
qed

end
