(* ===== verification/TreeDiskFiles.thy ===== *)
theory TreeDiskFiles
  imports TreeDiskInv
begin

text \<open>
  The files of the tree file system: the size and contents of every inode, the well-formedness
  of the whole disk, and the effect of each operation of a virtual block store on them.
\<close>

section \<open>Paths and depths as numbers\<close>

lemma log_shift_r_nat: "unat (log_shift_r x (n * 8)) = unat x div 256 ^ n"
proof (cases "n * 8 \<ge> 32")
  case True
  then have "4 \<le> n" by simp
  then have "(256 :: nat) ^ 4 \<le> 256 ^ n" by (rule power_increasing) simp
  then have "unat x < 256 ^ n" using unat32_less [of x] by simp
  with True show ?thesis by (simp add: log_shift_r_def)
next
  case False
  have "(2 :: nat) ^ (n * 8) = 256 ^ n" by (simp add: power_mult mult.commute [of n])
  moreover have "unat (drop_bit (n * 8) x) = unat x div 2 ^ (n * 8)"
    by (simp only: unat_drop_bit_eq drop_bit_nat_def)
  ultimately show ?thesis using False by (simp only: log_shift_r_def if_False)
qed

lemma log_shift_r_zero: "log_shift_r x (n * 8) = 0 \<longleftrightarrow> unat x < 256 ^ n"
  using log_shift_r_nat [of x n] by (auto simp: unat_eq_zero div_eq_0_iff)

lemma level_index_nat: "level_index off n = unat off div 256 ^ n mod 256"
  by (simp add: level_index_def log_shift_r_nat)

lemma same_path_nat: "same_path n off off' \<longleftrightarrow> unat off mod 256 ^ n = unat off' mod 256 ^ n"
proof (induction n)
  case (Suc n)
  have "x mod 256 ^ Suc n = y mod 256 ^ Suc n \<longleftrightarrow>
      x div 256 ^ n mod 256 = y div 256 ^ n mod 256 \<and> x mod 256 ^ n = y mod 256 ^ n" for x y :: nat
  proof -
    have m: "z mod 256 ^ Suc n = 256 ^ n * (z div 256 ^ n mod 256) + z mod 256 ^ n" for z :: nat
      by (simp add: mod_mult2_eq mult.commute [of 256])
    have l: "z mod 256 ^ n < 256 ^ n" for z :: nat by simp
    show ?thesis unfolding m
    proof
      assume eq: "256 ^ n * (x div 256 ^ n mod 256) + x mod 256 ^ n =
        256 ^ n * (y div 256 ^ n mod 256) + y mod 256 ^ n"
      from arg_cong [OF this, of "\<lambda>k. k mod 256 ^ n"] arg_cong [OF this, of "\<lambda>k. k div 256 ^ n"]
      show "x div 256 ^ n mod 256 = y div 256 ^ n mod 256 \<and> x mod 256 ^ n = y mod 256 ^ n" by simp
    qed simp
  qed
  with Suc show ?case by (simp add: same_path_Suc level_index_nat)
qed simp

lemma same_path_eq: "unat off < 256 ^ n \<Longrightarrow> unat off' < 256 ^ n \<Longrightarrow> same_path n off off' \<longleftrightarrow> off = off'"
  by (simp add: same_path_nat unat32_inject)

lemma count_levels_bounds:
  "n \<le> count_levels x n \<and> unat x < 256 ^ count_levels x n \<and>
     (\<forall>j. n \<le> j \<longrightarrow> j < count_levels x n \<longrightarrow> 256 ^ j \<le> unat x)"
proof (induction x n rule: count_levels.induct)
  case (1 x n)
  show ?case
  proof (cases "log_shift_r x (n * 8) = 0")
    case True
    then have "count_levels x n = n" by (subst count_levels.simps) simp
    with True show ?thesis by (simp add: log_shift_r_zero)
  next
    case False
    then have eq: "count_levels x n = count_levels x (Suc n)" by (subst count_levels.simps) simp
    from False have "256 ^ n \<le> unat x" by (simp add: log_shift_r_zero)
    moreover have "256 ^ j \<le> unat x" if "Suc n \<le> j" "j < count_levels x (Suc n)" for j
      using 1 False that by simp
    ultimately have "\<forall>j. n \<le> j \<longrightarrow> j < count_levels x (Suc n) \<longrightarrow> 256 ^ j \<le> unat x"
      by (metis Suc_leI le_neq_implies_less)
    then show ?thesis unfolding eq using 1 False by simp
  qed
qed

lemma count_levels_fits: "unat x < 256 ^ count_levels x 0"
  using count_levels_bounds by blast

lemma count_levels_least: "unat x < 256 ^ n \<Longrightarrow> count_levels x 0 \<le> n"
  using count_levels_bounds [of 0 x] by (meson le_zero_eq linorder_not_le zero_le)

lemma count_levels_le: "count_levels x 0 \<le> 4"
  using unat32_less [of x] by (intro count_levels_least) simp

lemma tree_levels_fits: "unat off < unat n \<Longrightarrow> unat off < 256 ^ tree_levels n"
proof -
  assume l: "unat off < unat n"
  then have "n > 0" by (simp add: word_less_nat_alt)
  then have "unat (n - 1) = unat n - 1" by (simp add: unat_minus_one)
  with l count_levels_fits [of "n - 1"] \<open>n > 0\<close> show ?thesis by (simp add: tree_levels_def)
qed

lemma tree_levels_least: "unat n \<le> 256 ^ k \<Longrightarrow> tree_levels n \<le> k"
proof (cases "n = 0")
  case False
  assume "unat n \<le> 256 ^ k"
  moreover have "0 < unat n" using False by (simp add: unat_gt_0)
  ultimately have "unat (n - 1) < 256 ^ k" using False by (simp add: unat_minus_one)
  then show ?thesis using count_levels_least by (simp add: tree_levels_def)
qed (simp add: tree_levels_def)

lemma tree_levels_le: "tree_levels n \<le> 4"
  using unat32_less [of n] by (intro tree_levels_least) simp

lemma tree_levels_extend:
  assumes "n \<le> off" "off \<noteq> - 1"
  shows "tree_levels (off + 1) = count_levels off 0" "tree_levels n \<le> count_levels off 0"
proof -
  have "off + 1 \<noteq> 0" using assms(2) by (simp add: eq_neg_iff_add_eq_0)
  then show "tree_levels (off + 1) = count_levels off 0" by (simp add: tree_levels_def word_gt_0)
  have "unat n \<le> 256 ^ count_levels off 0"
    using count_levels_fits [of off] assms(1) by (simp add: word_le_nat_alt)
  then show "tree_levels n \<le> count_levels off 0" by (rule tree_levels_least)
qed

section \<open>Files\<close>

definition inode_blockno :: "nat \<Rightarrow> nat" where
  "inode_blockno i = 1 + i div 128"

definition f_root :: "block list \<Rightarrow> nat \<Rightarrow> u32" where
  "f_root D i = inode_root (D ! inode_blockno i) (i mod 128)"

definition f_size :: "block list \<Rightarrow> nat \<Rightarrow> u32" where
  "f_size D i = inode_nblocks (D ! inode_blockno i) (i mod 128)"

definition f_blocks :: "block list \<Rightarrow> nat \<Rightarrow> u32 multiset" where
  "f_blocks D i = tree_mset D (tree_levels (f_size D i)) (f_root D i)"

definition f_data :: "block list \<Rightarrow> nat \<Rightarrow> block_no \<Rightarrow> block" where
  "f_data D i off =
     (if unat off < 256 ^ tree_levels (f_size D i) then tget D (tree_levels (f_size D i)) (f_root D i) off
      else null_block)"

definition n_inodes_of :: "block list \<Rightarrow> nat" where
  "n_inodes_of D = 128 * unat (super_n_inodeblocks (D ! 0))"

text \<open>All blocks in the trees of the files.\<close>

definition all_blocks :: "block list \<Rightarrow> u32 multiset" where
  "all_blocks D = (\<Sum>i<n_inodes_of D. f_blocks D i)"

text \<open>
  \<open>fs_wf D F\<close>: the disk \<open>D\<close> is a file system with free blocks \<open>F\<close>. No block is used twice, no
  block of the superblock or the inodes is in a tree or on the free list, a file is empty exactly
  when it has no root, and there is nothing beyond the end of a file.
\<close>

definition fs_wf :: "block list \<Rightarrow> u32 multiset \<Rightarrow> bool" where
  "fs_wf D F \<longleftrightarrow>
     fl_ok D F \<and> unat (super_n_inodeblocks (D ! 0)) < length D \<and> in_use D (all_blocks D + F) \<and>
     (\<forall>x\<in>#all_blocks D + F. unat (super_n_inodeblocks (D ! 0)) < unat x) \<and>
     (\<forall>i<n_inodes_of D. (f_size D i = 0 \<longleftrightarrow> f_root D i = 0) \<and>
        (\<forall>off. unat (f_size D i) \<le> unat off \<longrightarrow> f_data D i off = null_block))"

text \<open>Two disks agree on the files other than \<open>i\<close>.\<close>

definition others_same :: "nat \<Rightarrow> block list \<Rightarrow> block list \<Rightarrow> bool" where
  "others_same i D D' \<longleftrightarrow> n_inodes_of D' = n_inodes_of D \<and>
     (\<forall>j<n_inodes_of D. j \<noteq> i \<longrightarrow> f_size D' j = f_size D j \<and> f_data D' j = f_data D j)"

lemma inode_blockno_bounds:
  assumes "i < n_inodes_of D"
  shows "0 < inode_blockno i" "inode_blockno i \<le> unat (super_n_inodeblocks (D ! 0))"
    "unat (of_nat (inode_blockno i) :: u32) = inode_blockno i"
proof -
  have "i div 128 < unat (super_n_inodeblocks (D ! 0))"
    using assms by (simp add: n_inodes_of_def less_mult_imp_div_less mult.commute)
  then show b: "0 < inode_blockno i" "inode_blockno i \<le> unat (super_n_inodeblocks (D ! 0))"
    by (simp_all add: inode_blockno_def)
  then show "unat (of_nat (inode_blockno i) :: u32) = inode_blockno i"
    using unat32_less [of "super_n_inodeblocks (D ! 0)"] by (intro unat32_of_nat) simp
qed

lemma inode_words:
  assumes "a < 128" "c < 128"
  shows "inode_root (wr32 (wr32 b (2 * c + 1) n) (2 * c) v) a = (if a = c then v else inode_root b a)"
    "inode_nblocks (wr32 (wr32 b (2 * c + 1) n) (2 * c) v) a = (if a = c then n else inode_nblocks b a)"
proof -
  have p: "2 * c + 1 \<noteq> 2 * a" "2 * c \<noteq> 2 * a + 1" by presburger+
  from assms p show "inode_root (wr32 (wr32 b (2 * c + 1) n) (2 * c) v) a = (if a = c then v else inode_root b a)"
    unfolding inode_root_def by (subst rd32_wr32; simp)+
  from assms p show "inode_nblocks (wr32 (wr32 b (2 * c + 1) n) (2 * c) v) a = (if a = c then n else inode_nblocks b a)"
    unfolding inode_nblocks_def by (subst rd32_wr32; simp)+
qed

lemma f_blocks_sub: "i < n_inodes_of D \<Longrightarrow> f_blocks D i \<subseteq># all_blocks D"
  unfolding all_blocks_def by (rule sub_sum) auto

text \<open>
  The effect of rewriting one inode: the tree of file \<open>i\<close> and the free list exchange blocks,
  the rest of the disk is untouched.
\<close>

lemma inode_update:
  assumes wf: "fs_wf D F" and i: "i < n_inodes_of D"
    and fl: "fl_ok D' F'"
    and fr: "frame (insert (of_nat (inode_blockno i)) (set_mset (f_blocks D i + F))) D D'"
    and ib: "D' ! inode_blockno i =
      wr32 (wr32 (D ! inode_blockno i) (2 * (i mod 128) + 1) n) (2 * (i mod 128)) v"
    and tr: "tree_mset D' (tree_levels n) v + F' = f_blocks D i + F"
    and nv: "n = 0 \<longleftrightarrow> v = 0"
    and nodata: "\<And>off. unat n \<le> unat off \<Longrightarrow> unat off < 256 ^ tree_levels n \<Longrightarrow> tget D' (tree_levels n) v off = null_block"
  shows "fs_wf D' F'" "f_size D' i = n" "f_root D' i = v" "others_same i D D'"
    "all_blocks D' + F' = all_blocks D + F"
proof -
  let ?k = "unat (super_n_inodeblocks (D ! 0))"
  have k: "super_n_inodeblocks (D' ! 0) = super_n_inodeblocks (D ! 0)" "length D' = length D"
    using fr by (simp_all add: frame_def)
  then have N: "n_inodes_of D' = n_inodes_of D" by (simp add: n_inodes_of_def)
  from wf have big: "\<And>x. x \<in># all_blocks D + F \<Longrightarrow> ?k < unat x" and use: "in_use D (all_blocks D + F)"
    and kl: "?k < length D"
    by (auto simp: fs_wf_def)
  show size: "f_size D' i = n" and root: "f_root D' i = v"
    unfolding f_size_def f_root_def ib by (simp_all only: inode_words mod_less_divisor zero_less_numeral if_True simp_thms)
  have sub: "set_mset (f_blocks D i + F) \<subseteq> set_mset (all_blocks D + F)"
    using f_blocks_sub [OF i] by (auto dest: mset_subset_eqD)
  have inode: "f_size D' j = f_size D j \<and> f_root D' j = f_root D j" if j: "j < n_inodes_of D" "j \<noteq> i" for j
  proof (cases "inode_blockno j = inode_blockno i")
    case True
    then have "j mod 128 \<noteq> i mod 128" using j(2)
      by (metis Suc_inject inode_blockno_def mult_div_mod_eq plus_1_eq_Suc)
    moreover have "j mod 128 < 128" "i mod 128 < 128" by simp_all
    ultimately show ?thesis unfolding f_size_def f_root_def True ib by (simp only: inode_words mod_less_divisor zero_less_numeral if_False simp_thms)
  next
    case False
    let ?w = "of_nat (inode_blockno j) :: u32"
    note bj = inode_blockno_bounds [OF j(1)]
    have "?w \<noteq> of_nat (inode_blockno i)" using False bj(3) inode_blockno_bounds(3) [OF i] by metis
    moreover have "?w \<notin># f_blocks D i + F"
    proof
      assume "?w \<in># f_blocks D i + F"
      then have "?w \<in># all_blocks D + F" using sub by blast
      from big [OF this] bj show False by simp
    qed
    ultimately have "?w \<notin> insert (of_nat (inode_blockno i)) (set_mset (f_blocks D i + F))" by blast
    moreover have "?w \<noteq> 0"
    proof
      assume "?w = 0"
      with bj(3) have "inode_blockno j = 0" by (simp only: unsigned_0)
      with bj(1) show False by simp
    qed
    ultimately have "D' ! unat ?w = D ! unat ?w" using frame_nth [OF fr] by blast
    then have "D' ! inode_blockno j = D ! inode_blockno j" by (simp only: bj(3))
    then show ?thesis by (simp add: f_size_def f_root_def)
  qed
  have kept: "D' ! unat x = D ! unat x" if j: "j < n_inodes_of D" "j \<noteq> i" and x: "x \<in># f_blocks D j" for j x
  proof (rule frame_nth [OF fr])
    have m: "x \<in># all_blocks D" using f_blocks_sub [OF j(1)] x by (rule mset_subset_eqD)
    then show "x \<noteq> 0" using in_useD(2) [OF use] by simp
    have "x \<noteq> of_nat (inode_blockno i)"
      using big [of x] m inode_blockno_bounds(2,3) [OF i] by auto
    moreover have "x \<notin># F" using ndup_disjoint [OF in_useD(1) [OF use] m] .
    moreover have "x \<notin># f_blocks D i"
      using sum_disjoint [of "{..<n_inodes_of D}" j i "f_blocks D" x] j x i
        ndup_left [OF in_useD(1) [OF use]] by (simp add: all_blocks_def)
    ultimately show "x \<notin> insert (of_nat (inode_blockno i)) (set_mset (f_blocks D i + F))" by simp
  qed
  have other: "f_blocks D' j = f_blocks D j \<and> f_data D' j = f_data D j" if "j < n_inodes_of D" "j \<noteq> i" for j
  proof -
    let ?l = "tree_levels (f_size D j)" and ?r = "f_root D j"
    have k: "D' ! unat x = D ! unat x" if "x \<in># tree_mset D ?l ?r" for x
      using kept [OF \<open>j < n_inodes_of D\<close> \<open>j \<noteq> i\<close>] that by (simp add: f_blocks_def)
    have "tree_mset D' ?l ?r = tree_mset D ?l ?r" using k by (rule tree_frame)
    moreover have "tget D' ?l ?r off = tget D ?l ?r off" for off using k by (rule tget_frame)
    ultimately show ?thesis using inode [OF that] by (simp add: f_blocks_def f_data_def fun_eq_iff)
  qed
  then show same: "others_same i D D'" unfolding others_same_def N using inode by blast
  have "all_blocks D' + f_blocks D i = all_blocks D + f_blocks D' i"
    unfolding all_blocks_def N
    by (rule sum_change [of "{..<n_inodes_of D}" i "f_blocks D'" "f_blocks D"]) (use i other in auto)
  then show total: "all_blocks D' + F' = all_blocks D + F"
    by (rule mset_swap) (simp only: f_blocks_def size root tr)
  have "\<forall>off. unat n \<le> unat off \<longrightarrow> f_data D' i off = null_block"
    using nodata by (simp add: f_data_def size root)
  moreover have "(f_size D j = 0 \<longleftrightarrow> f_root D j = 0) \<and>
      (\<forall>off. unat (f_size D j) \<le> unat off \<longrightarrow> f_data D j off = null_block)" if "j < n_inodes_of D" for j
    using wf that by (simp add: fs_wf_def)
  ultimately have "(f_size D' j = 0 \<longleftrightarrow> f_root D' j = 0) \<and>
      (\<forall>off. unat (f_size D' j) \<le> unat off \<longrightarrow> f_data D' j off = null_block)" if "j < n_inodes_of D" for j
    using that inode [OF that] other [OF that] size root nv by (cases "j = i") auto
  moreover have "in_use D' (all_blocks D' + F')" unfolding total using use k(2) by (simp add: in_use_def)
  moreover have "\<forall>x\<in>#all_blocks D' + F'. ?k < unat x" unfolding total using big by blast
  ultimately show "fs_wf D' F'" unfolding fs_wf_def N k using fl kl by blast
qed

section \<open>Growing a tree\<close>

definition grow_post :: "nat \<Rightarrow> nat \<Rightarrow> treedisk_snapshot \<Rightarrow> block list \<Rightarrow> u32 multiset \<Rightarrow>
    u32 \<Rightarrow> block list \<Rightarrow> u32 multiset \<Rightarrow> bool" where
  "grow_post l n sn D F r' D' F' \<longleftrightarrow>
     fl_ok D' F' \<and> frame (set_mset F) D D' \<and> size F = size F' + n \<and>
     tree_mset D' (l + n) r' + F' = tree_mset D l (sn_root sn) + F \<and>
     (n = 0 \<longrightarrow> r' = sn_root sn) \<and> (n \<noteq> 0 \<longrightarrow> r' \<noteq> 0) \<and>
     (\<forall>off. tget D' (l + n) r' off =
        (if \<forall>m. l \<le> m \<and> m < l + n \<longrightarrow> level_index off m = 0 then tget D l (sn_root sn) off else null_block))"

lemma sn_set_simps:
  "sn_inode sn < 128 \<Longrightarrow> sn_root (sn_set_root r sn) = r"
  "sn_inode sn < 128 \<Longrightarrow> sn_set_root r (sn_set_root r' sn) = sn_set_root r sn"
  "sn_root (sn\<lparr>sn_super := b\<rparr>) = sn_root sn"
  "sn_super (sn_set_root r sn) = sn_super sn" "sn_inode (sn_set_root r sn) = sn_inode sn"
  "sn_inode_blockno (sn_set_root r sn) = sn_inode_blockno sn"
  "sn_inode sn < 128 \<Longrightarrow> sn_set_root (sn_root sn) sn = sn"
  "(sn_set_root r sn)\<lparr>sn_super := b\<rparr> = sn_set_root r (sn\<lparr>sn_super := b\<rparr>)"
  by (simp_all add: sn_root_def sn_set_root_def inode_root_def)

text \<open>One new root above a tree of \<open>l\<close> levels.\<close>

lemma new_root:
  assumes "b \<noteq> 0" "D2 ! unat b = wr32 null_block 0 r" "\<And>x. x \<in># tree_mset D l r \<Longrightarrow> D2 ! unat x = D ! unat x"
  shows "tree_mset D2 (Suc l) b = add_mset b (tree_mset D l r)"
    "tget D2 (Suc l) b off = (if level_index off l = 0 then tget D l r off else null_block)"
proof -
  have t: "tree_mset D2 l r = tree_mset D l r" "tget D2 l r off = tget D l r off"
    using tree_frame tget_frame assms(3) by blast+
  have "(\<Sum>i<256. tree_mset D2 l (rd32 (D2 ! unat b) i)) = (\<Sum>i<256. if i = (0 :: nat) then tree_mset D2 l r else {#})"
    using assms(2) by (intro sum.cong) auto
  then show "tree_mset D2 (Suc l) b = add_mset b (tree_mset D l r)" using assms(1) t(1) by (simp add: tree_Suc)
  show "tget D2 (Suc l) b off = (if level_index off l = 0 then tget D l r off else null_block)"
    using assms(1,2) t(2) by (simp add: tget_Suc)
qed

lemma grow_post_step:
  assumes step: "F = add_mset b F1" "frame (set_mset F) D D2" "b \<noteq> 0"
      "tree_mset D2 (Suc l) b = add_mset b (tree_mset D l (sn_root sn))"
      "\<And>off. tget D2 (Suc l) b off = (if level_index off l = 0 then tget D l (sn_root sn) off else null_block)"
    and root: "sn_root sn2 = b"
    and post: "grow_post (Suc l) n sn2 D2 F1 r' D' F'"
  shows "grow_post l (Suc n) sn D F r' D' F'"
proof -
  from post have p: "fl_ok D' F'" "frame (set_mset F1) D2 D'" "size F1 = size F' + n"
    "tree_mset D' (Suc l + n) r' + F' = tree_mset D2 (Suc l) b + F1"
    "n = 0 \<longrightarrow> r' = b" "n \<noteq> 0 \<longrightarrow> r' \<noteq> 0"
    "\<And>off. tget D' (Suc l + n) r' off =
      (if \<forall>m. Suc l \<le> m \<and> m < Suc l + n \<longrightarrow> level_index off m = 0 then tget D2 (Suc l) b off else null_block)"
    unfolding grow_post_def root by blast+
  have "frame (set_mset F) D D'" by (rule frame_mono [OF frame_trans [OF step(2) p(2)]]) (auto simp: step(1))
  moreover have "tree_mset D' (l + Suc n) r' + F' = tree_mset D l (sn_root sn) + F"
    using p(4) step(1,4) by simp
  moreover have "tget D' (l + Suc n) r' off =
      (if \<forall>m. l \<le> m \<and> m < l + Suc n \<longrightarrow> level_index off m = 0 then tget D l (sn_root sn) off else null_block)" for off
  proof -
    define Q where "Q = (\<forall>m. Suc l \<le> m \<and> m < Suc l + n \<longrightarrow> level_index off m = 0)"
    have iff: "(\<forall>m. l \<le> m \<and> m < l + Suc n \<longrightarrow> level_index off m = 0) \<longleftrightarrow> level_index off l = 0 \<and> Q"
      unfolding Q_def by (auto simp: Suc_le_eq) (metis le_neq_implies_less)
    have "tget D' (Suc l + n) r' off = (if Q then tget D2 (Suc l) b off else null_block)"
      using p(7) [of off] unfolding Q_def .
    then show ?thesis unfolding iff by (simp add: step(5))
  qed
  ultimately show ?thesis using p(1,3,5,6) step(1,3) by (auto simp: grow_post_def)
qed

lemma grow_img:
  assumes "fl_ok D F" "sn_super sn = D ! 0" "sn_inode sn < 128"
    and "in_use D (tree_mset D l (sn_root sn) + F)"
  shows "(grow_levels n img_store sn D = None \<and> size F < n) \<or>
    (\<exists>r' D' F'. grow_levels n img_store sn D = Some ((sn_set_root r' sn)\<lparr>sn_super := D' ! 0\<rparr>, D') \<and>
       grow_post l n sn D F r' D' F')"
  using assms
proof (induction n arbitrary: D F sn l)
  case 0
  have "grow_levels 0 img_store sn D = Some ((sn_set_root (sn_root sn) sn)\<lparr>sn_super := D ! 0\<rparr>, D)"
    using 0 by (simp add: sn_set_simps)
  moreover have "grow_post l 0 sn D F (sn_root sn) D F" using 0 by (simp add: grow_post_def)
  ultimately show ?case by blast
next
  case (Suc n)
  show ?case
  proof (cases "F = {#}")
    case True
    then have "super_free_list (sn_super sn) = 0" using Suc.prems(1,2) by (auto simp: fl_ok_def elim: flist_blockE)
    then show ?thesis using True by (simp add: alloc_block_full)
  next
    case False
    obtain b F1 D1 where a: "treedisk_alloc_block img_store D sn = Some ((b, sn\<lparr>sn_super := D1 ! 0\<rparr>), D1)"
      "F = add_mset b F1" "fl_ok D1 F1" "frame (set_mset F) D D1"
      using alloc_block_img [OF Suc.prems(1) False Suc.prems(2)] by blast
    let ?D2 = "D1[unat b := wr32 null_block 0 (sn_root sn)]"
    let ?sn = "sn_set_root b (sn\<lparr>sn_super := D1 ! 0\<rparr>)"
    have b: "b \<noteq> 0" "unat b < length D1" "b \<notin># F1"
      using fl_okD [OF Suc.prems(1)] a(2) frame_length [OF a(4)] by (auto simp: ndup_add)
    have z: "?D2 ! 0 = D1 ! 0" using b(1) by (simp add: nth_list_update_neq unat_eq_zero)
    note f = frame_update [OF b(1), of D1 "wr32 null_block 0 (sn_root sn)"]
    have fr: "frame (set_mset F) D ?D2"
      by (rule frame_mono [OF frame_trans [OF a(4) f]]) (simp add: a(2))
    have kept: "?D2 ! unat x = D ! unat x" if "x \<in># tree_mset D l (sn_root sn)" for x
      using frame_nth [OF fr] in_useD(1,2) [OF Suc.prems(4)] ndup_disjoint that by fastforce
    have D2b: "?D2 ! unat b = wr32 null_block 0 (sn_root sn)" using b(2) by simp
    note nr = new_root [OF b(1) D2b kept]
    have fl2: "fl_ok ?D2 F1" using fl_ok_frame [OF a(3) f z] b(3) by blast
    have use2: "in_use ?D2 (tree_mset ?D2 (Suc l) b + F1)"
      using Suc.prems(4) frame_length [OF fr] by (simp add: nr(1) a(2) in_use_def)
    have rt: "sn_root ?sn = b" using Suc.prems(3) by (simp add: sn_set_simps)
    have run: "grow_levels (Suc n) img_store sn D = grow_levels n img_store ?sn ?D2"
      using a(1) b(2) by (simp add: sn_set_simps)
    have res: "(sn_set_root r' ?sn)\<lparr>sn_super := x\<rparr> = (sn_set_root r' sn)\<lparr>sn_super := x\<rparr>" for r' x
      using Suc.prems(3) by (simp add: sn_set_simps)
    have "(grow_levels n img_store ?sn ?D2 = None \<and> size F1 < n) \<or>
      (\<exists>r' D' F'. grow_levels n img_store ?sn ?D2 = Some ((sn_set_root r' ?sn)\<lparr>sn_super := D' ! 0\<rparr>, D') \<and>
         grow_post (Suc l) n ?sn ?D2 F1 r' D' F')"
      using Suc.IH [OF fl2, of ?sn "Suc l"] use2 z Suc.prems(3) unfolding rt by (simp add: sn_set_simps)
    then show ?thesis unfolding run res
      using grow_post_step [OF a(2) fr b(1) nr rt] a(2) by (metis Suc_less_eq size_add_mset)
  qed
qed

end
