(* ===== verification/TreeDiskOps.thy ===== *)
theory TreeDiskOps
  imports TreeDiskFiles
begin

text \<open>
  The methods of a virtual block store on a well-formed tree file system: what \<open>treedisk_read\<close>,
  \<open>treedisk_write\<close> and \<open>treedisk_setsize\<close> of \<open>egos/grass/block/treedisk.c\<close> return and what they
  do to the files.
\<close>

lemma high_zero:
  "unat off < 256 ^ (l + g) \<Longrightarrow>
     (\<forall>m. l \<le> m \<and> m < l + g \<longrightarrow> level_index off m = 0) \<longleftrightarrow> unat off < 256 ^ l"
proof
  assume "unat off < 256 ^ l"
  then show "\<forall>m. l \<le> m \<and> m < l + g \<longrightarrow> level_index off m = 0"
    using less_le_trans [OF _ power_increasing [of l _ "256 :: nat"]] by (auto simp: level_index_nat)
next
  assume "unat off < 256 ^ (l + g)" "\<forall>m. l \<le> m \<and> m < l + g \<longrightarrow> level_index off m = 0"
  then show "unat off < 256 ^ l"
  proof (induction g)
    case (Suc g)
    then have "unat off div 256 ^ (l + g) mod 256 = 0" by (simp add: level_index_nat)
    moreover have "unat off div 256 ^ (l + g) < 256"
      using Suc.prems(1) by (simp add: less_mult_imp_div_less)
    ultimately have "unat off < 256 ^ (l + g)" by (simp add: div_eq_0_iff)
    then show ?case using Suc by simp
  qed simp
qed

section \<open>Snapshots\<close>

definition snap :: "block list \<Rightarrow> nat \<Rightarrow> treedisk_snapshot" where
  "snap D i = \<lparr>sn_super = D ! 0, sn_inodeblock = D ! inode_blockno i,
     sn_inode_blockno = of_nat (inode_blockno i), sn_inode = i mod 128\<rparr>"

lemma snap_simps [simp]:
  "sn_super (snap D i) = D ! 0" "sn_inodeblock (snap D i) = D ! inode_blockno i"
  "sn_inode_blockno (snap D i) = of_nat (inode_blockno i)" "sn_inode (snap D i) = i mod 128"
  "sn_root (snap D i) = f_root D i" "sn_nblocks (snap D i) = f_size D i"
  by (simp_all add: snap_def sn_root_def sn_nblocks_def f_root_def f_size_def)

lemma IPB [simp]: "INODES_PER_BLOCK = 128"
  by (simp add: INODES_PER_BLOCK_def BLOCK_SIZE_def)

lemma fs_wfD:
  assumes "fs_wf D F"
  shows "fl_ok D F" "unat (super_n_inodeblocks (D ! 0)) < length D" "in_use D (all_blocks D + F)"
    "x \<in># all_blocks D + F \<Longrightarrow> unat (super_n_inodeblocks (D ! 0)) < unat x"
    "i < n_inodes_of D \<Longrightarrow> f_size D i = 0 \<longleftrightarrow> f_root D i = 0"
    "i < n_inodes_of D \<Longrightarrow> unat (f_size D i) \<le> unat off \<Longrightarrow> f_data D i off = null_block"
    "0 < length D"
  using assms by (auto simp: fs_wf_def)

lemma get_snapshot_img:
  assumes "fs_wf D F"
  shows "treedisk_get_snapshot img_store D ino =
    Some (if unat ino < n_inodes_of D then Some (snap D (unat ino)) else None, D)"
proof (cases "unat ino < n_inodes_of D")
  case True
  note b = inode_blockno_bounds [OF True]
  have eq: "(of_nat (1 + unat ino div 128) :: u32) = of_nat (inode_blockno (unat ino))"
    by (simp add: inode_blockno_def)
  have "unat (of_nat (inode_blockno (unat ino)) :: u32) < length D"
    using b(2,3) fs_wfD(2) [OF assms] by simp
  moreover have "\<not> unat (super_n_inodeblocks (D ! 0)) * 128 \<le> unat ino"
    using True by (simp add: n_inodes_of_def)
  ultimately show ?thesis using True fs_wfD(7) [OF assms]
    unfolding treedisk_get_snapshot_def img_store_simps IPB eq
    by (simp add: img_read_def b(3) snap_def Let_def)
next
  case False
  then show ?thesis using fs_wfD(7) [OF assms]
    by (simp add: treedisk_get_snapshot_def img_read_def n_inodes_of_def mult.commute)
qed

section \<open>Reading\<close>

lemma treedisk_read_img:
  assumes "fs_wf D F"
  shows "treedisk_read img_store ino D off =
    Some (if unat ino < n_inodes_of D \<and> off < f_size D (unat ino)
          then Some (f_data D (unat ino) off) else None, D)"
proof (cases "unat ino < n_inodes_of D \<and> off < f_size D (unat ino)")
  case True
  let ?i = "unat ino"
  have "x \<in># f_blocks D ?i \<Longrightarrow> unat x < length D" for x
    using fs_wfD(3) [OF assms] f_blocks_sub [of ?i D] True
    by (auto simp: in_use_def dest: mset_subset_eqD)
  then have "read_walk img_store off (tree_levels (f_size D ?i)) (f_root D ?i) D =
      Some (Some (tget D (tree_levels (f_size D ?i)) (f_root D ?i) off), D)"
    by (intro read_walk_img) (simp add: f_blocks_def)
  moreover have "unat off < 256 ^ tree_levels (f_size D ?i)"
    using True by (intro tree_levels_fits) (simp add: word_less_nat_alt)
  ultimately show ?thesis using True
    by (simp add: treedisk_read_def get_snapshot_img [OF assms] f_data_def linorder_not_le)
next
  case False
  then show ?thesis
    by (auto simp: treedisk_read_def get_snapshot_img [OF assms] linorder_not_le)
qed

section \<open>Writing\<close>

lemma sn_set_nblocks_simps:
  assumes "sn_inode sn < 128"
  shows "sn_nblocks (sn_set_nblocks n sn) = n" "sn_root (sn_set_nblocks n sn) = sn_root sn"
    "sn_nblocks (sn_set_root r sn) = sn_nblocks sn" "sn_set_nblocks (sn_nblocks sn) sn = sn"
    "sn_inode (sn_set_nblocks n sn) = sn_inode sn" "sn_super (sn_set_nblocks n sn) = sn_super sn"
    "sn_inode_blockno (sn_set_nblocks n sn) = sn_inode_blockno sn"
proof -
  have p: "2 * sn_inode sn + 1 \<noteq> 2 * sn_inode sn" by presburger
  show "sn_root (sn_set_nblocks n sn) = sn_root sn" "sn_nblocks (sn_set_root r sn) = sn_nblocks sn"
    using assms p by (simp_all add: sn_nblocks_def sn_set_nblocks_def sn_root_def sn_set_root_def
        inode_root_def inode_nblocks_def)
  show "sn_nblocks (sn_set_nblocks n sn) = n" "sn_set_nblocks (sn_nblocks sn) sn = sn"
    "sn_inode (sn_set_nblocks n sn) = sn_inode sn" "sn_super (sn_set_nblocks n sn) = sn_super sn"
    "sn_inode_blockno (sn_set_nblocks n sn) = sn_inode_blockno sn"
    using assms by (simp_all add: sn_nblocks_def sn_set_nblocks_def inode_nblocks_def)
qed

lemma max_extend:
  assumes "off \<noteq> - 1"
  shows "max n (off + 1) = (if n \<le> off then off + 1 else n :: u32)" "max n (off + 1) \<noteq> 0"
    "off < max n (off + 1)"
proof -
  have "unat (- 1 :: u32) = 4294967295" by (simp add: unsigned_minus_1_eq_mask mask_eq_exp_minus_1)
  with assms have "unat off \<noteq> 4294967295" by (metis unat32_inject)
  then have "unat (off + 1) = Suc (unat off)" using unat32_le [of off] by (intro unat32_Suc) simp
  then have "n \<le> off \<longleftrightarrow> n < off + 1" "0 < off + 1" "off < off + 1"
    by (simp_all add: word_le_nat_alt word_less_nat_alt less_Suc_eq_le)
  then show "max n (off + 1) = (if n \<le> off then off + 1 else n)" "max n (off + 1) \<noteq> 0"
    "off < max n (off + 1)"
    by (auto simp: max_def not_le)
qed

lemma write_run:
  assumes wf: "fs_wf D F" and i: "unat ino < n_inodes_of D" and off: "off \<noteq> - 1"
    and n: "n = max (f_size D (unat ino)) (off + 1)"
    and g: "g = grow_levels (tree_levels n - tree_levels (f_size D (unat ino))) img_store
                  (sn_set_nblocks n (snap D (unat ino))) D"
  shows "g = None \<Longrightarrow> treedisk_write img_store ino D off blk = None"
    "g = Some (sn, D1) \<Longrightarrow> sn_nblocks sn = n \<Longrightarrow> treedisk_write img_store ino D off blk = do {
      (_, s) \<leftarrow> (if f_size D (unat ino) \<le> off
                then write_or_panic img_store D1 (sn_inode_blockno sn) (sn_inodeblock sn)
                else Some ((), D1));
      walk_and_store off (tree_levels n) (sn_inodeblock sn) (2 * sn_inode sn) (sn_inode_blockno sn) sn blk s }"
proof -
  let ?e = "f_size D (unat ino) \<le> off"
  let ?l = "tree_levels (f_size D (unat ino))"
  let ?sn = "snap D (unat ino)"
  have sn: "(if ?e then sn_set_nblocks (off + 1) ?sn else ?sn) = sn_set_nblocks n ?sn"
    using max_extend(1) [OF off] sn_set_nblocks_simps(4) [of ?sn] by (simp add: n)
  have l: "(if ?e then count_levels off 0 else ?l) = tree_levels n"
    using max_extend(1) [OF off] tree_levels_extend [OF _ off] by (simp add: n)
  have mono: "?l \<le> tree_levels n" "\<not> ?e \<Longrightarrow> tree_levels n = ?l"
    using max_extend(1) [OF off] tree_levels_extend [OF _ off] by (auto simp: n)
  have nz: "sn_nblocks (sn_set_nblocks n ?sn) \<noteq> 0"
    using max_extend(2) [OF off] by (simp add: sn_set_nblocks_simps n)
  have run: "treedisk_write img_store ino D off blk = do {
      (sn, s) \<leftarrow> g;
      (_, s) \<leftarrow> (if ?e \<or> sn_nblocks sn \<noteq> 0 \<and> tree_levels n > ?l
                then write_or_panic img_store s (sn_inode_blockno sn) (sn_inodeblock sn)
                else Some ((), s));
      let nlevels = (if sn_nblocks sn = 0 then tree_levels n else max ?l (tree_levels n));
      (b, s) \<leftarrow> write_walk img_store off nlevels (sn_inodeblock sn) (2 * sn_inode sn)
                  (sn_inode_blockno sn) sn s;
      (_, s) \<leftarrow> write_or_panic img_store s b blk;
      Some (0, s) }"
    using i nz by (simp add: treedisk_write_def get_snapshot_img [OF wf] Let_def sn l g split del: if_split cong: if_cong)
  show "g = None \<Longrightarrow> treedisk_write img_store ino D off blk = None" by (simp add: run)
  assume "g = Some (sn, D1)" "sn_nblocks sn = n"
  then show "treedisk_write img_store ino D off blk = do {
      (_, s) \<leftarrow> (if ?e then write_or_panic img_store D1 (sn_inode_blockno sn) (sn_inodeblock sn)
                else Some ((), D1));
      walk_and_store off (tree_levels n) (sn_inodeblock sn) (2 * sn_inode sn) (sn_inode_blockno sn) sn blk s }"
    using mono by (auto simp: run walk_and_store_def max_absorb2 Let_def)
qed

lemma treedisk_write_img:
  assumes wf: "fs_wf D F" and i: "unat ino < n_inodes_of D" and off: "off \<noteq> - 1"
  shows "(treedisk_write img_store ino D off blk = None \<and> size F \<le> 8) \<or>
    (\<exists>D' F'. treedisk_write img_store ino D off blk = Some (0, D') \<and> fs_wf D' F' \<and>
       f_size D' (unat ino) = max (f_size D (unat ino)) (off + 1) \<and>
       f_data D' (unat ino) = (f_data D (unat ino))(off := blk) \<and>
       others_same (unat ino) D D' \<and> all_blocks D' + F' = all_blocks D + F)"
proof -
  let ?i = "unat ino" and ?s = "f_size D (unat ino)" and ?r = "f_root D (unat ino)"
  define n where "n = max ?s (off + 1)"
  define l where "l = tree_levels ?s"
  define g where "g = tree_levels n - l"
  define sn where "sn = sn_set_nblocks n (snap D ?i)"
  define ib where "ib = inode_blockno ?i"
  note b = inode_blockno_bounds [OF i, folded ib_def]
  have lg: "l + g = tree_levels n" "g \<le> 4" "tree_levels n \<le> 4"
    using max_extend(1) [OF off] tree_levels_extend [OF _ off] tree_levels_le [of n]
    by (auto simp: n_def l_def g_def)
  have c: "?i mod 128 < 128" by simp
  have sni: "sn_inode sn = ?i mod 128" "sn_super sn = D ! 0" "sn_root sn = ?r" "sn_nblocks sn = n"
    "sn_inode_blockno sn = of_nat ib" "sn_inodeblock sn = wr32 (D ! ib) (2 * (?i mod 128) + 1) n"
    using c by (simp_all add: sn_def sn_set_nblocks_simps ib_def) (simp add: sn_set_nblocks_def)
  have T: "tree_mset D l (sn_root sn) = f_blocks D ?i" by (simp add: f_blocks_def l_def sni)
  have use: "in_use D (f_blocks D ?i + F)"
    using in_use_sub [OF fs_wfD(3) [OF wf] _ refl] f_blocks_sub [OF i] by simp
  have ibn: "unat (of_nat ib :: u32) < length D" "(of_nat ib :: u32) \<noteq> 0"
    using b fs_wfD(2) [OF wf] by (simp_all add: b(3) flip: unat_eq_zero)
  have ibx: "(of_nat ib :: u32) \<notin># f_blocks D ?i + F"
    using fs_wfD(4) [OF wf, of "of_nat ib"] b f_blocks_sub [OF i] by (auto dest: mset_subset_eqD)
  have "sn_inode sn < 128" "in_use D (tree_mset D l (sn_root sn) + F)" using c use by (simp_all add: sni T [unfolded sni])
  from grow_img [OF fs_wfD(1) [OF wf] sni(2) this, of g]
  consider (full) "grow_levels g img_store sn D = None" "size F < g"
    | (ok) r' D1 F1 where "grow_levels g img_store sn D = Some ((sn_set_root r' sn)\<lparr>sn_super := D1 ! 0\<rparr>, D1)"
        "grow_post l g sn D F r' D1 F1"
    by metis
  then show ?thesis
  proof cases
    case full
    then have "treedisk_write img_store ino D off blk = None"
      using write_run(1) [OF wf i off n_def refl] by (simp add: g_def l_def sn_def)
    with full lg show ?thesis by simp
  next
    case ok
    let ?sn = "(sn_set_root r' sn)\<lparr>sn_super := D1 ! 0\<rparr>"
    define pb where "pb = wr32 (wr32 (D ! ib) (2 * (?i mod 128) + 1) n) (2 * (?i mod 128)) r'"
    define D2 where "D2 = D1[ib := pb]"
    have snp: "sn_inodeblock ?sn = pb" "sn_inode ?sn = ?i mod 128" "sn_inode_blockno ?sn = of_nat ib"
      "sn_super ?sn = D1 ! 0" "sn_nblocks ?sn = n"
      using sni c by (simp_all add: pb_def sn_set_root_def sn_nblocks_def inode_nblocks_def)
    from ok(2) T have gp: "fl_ok D1 F1" "frame (set_mset F) D D1" "size F = size F1 + g"
      "tree_mset D1 (tree_levels n) r' + F1 = f_blocks D ?i + F" "g = 0 \<longrightarrow> r' = ?r"
      by (simp_all add: grow_post_def lg sni)
    have gd: "tget D1 (tree_levels n) r' off' = f_data D ?i off'" if "unat off' < 256 ^ tree_levels n" for off'
    proof -
      have "tget D1 (l + g) r' off' = (if \<forall>m. l \<le> m \<and> m < l + g \<longrightarrow> level_index off' m = 0
          then tget D l ?r off' else null_block)"
        using ok(2) unfolding grow_post_def sni by blast
      moreover have "unat off' < 256 ^ (l + g)" using that by (simp add: lg)
      ultimately show ?thesis using high_zero [of off' l g] by (simp add: f_data_def lg flip: l_def)
    qed
    have D1ib: "D1 ! ib = D ! ib" using frame_nth [OF gp(2) ibn(2)] ibx b(3) by simp
    have len: "length D1 = length D" using gp(2) by (rule frame_length)
    have D2: "length D2 = length D" "D2 ! ib = pb" "D2 ! 0 = D1 ! 0"
      using len ibn(1) b by (simp_all add: D2_def nth_list_update_neq)
    have fr1: "frame {of_nat ib} D1 D2" using frame_update [OF ibn(2), of D1 pb] b(3) by (simp add: D2_def)
    have write_inode: "(if ?s \<le> off then write_or_panic img_store D1 (of_nat ib) pb else Some ((), D1)) = Some ((), D2)"
    proof (cases "?s \<le> off")
      case True
      then show ?thesis using ibn(1) len b(3) by (simp add: D2_def)
    next
      case False
      then have "n = ?s" "g = 0" using max_extend(1) [OF off] by (simp_all add: n_def g_def l_def)
      then have "pb = D1 ! ib" using gp(5) D1ib c
        by (simp add: pb_def f_size_def f_root_def inode_nblocks_def inode_root_def ib_def)
      with False show ?thesis by (simp add: D2_def)
    qed
    have g1: "Some (?sn, D1) = grow_levels (tree_levels n - tree_levels ?s) img_store
        (sn_set_nblocks n (snap D ?i)) D"
      using ok(1) by (simp add: g_def l_def sn_def)
    have run: "treedisk_write img_store ino D off blk =
        walk_and_store off (tree_levels n) pb (2 * (?i mod 128)) (of_nat ib) ?sn blk D2"
      unfolding write_run(2) [OF wf i off n_def g1 refl snp(5)] snp write_inode by simp
    have fresh: "of_nat ib \<notin># tree_mset D1 (tree_levels n) r' + F1" unfolding gp(4) by (rule ibx)
    have "D2 ! unat x = D1 ! unat x" if "x \<in># tree_mset D1 (tree_levels n) r'" for x
      using frame_nth [OF fr1, of x] that fresh in_useD(2) [OF use, of x] gp(4)
      by (metis empty_iff insert_iff union_iff)
    note T2 = tree_frame [OF this] tget_frame [OF this]
    have fl2: "fl_ok D2 F1" using fl_ok_frame [OF gp(1) fr1 D2(3)] fresh by auto
    have use2: "in_use D2 (tree_mset D2 (tree_levels n) (rd32 pb (2 * (?i mod 128))) + F1)"
      using use gp(4) D2(1) by (simp add: pb_def T2(1) in_use_def)
    have rd: "rd32 pb (2 * (?i mod 128)) = r'" by (simp add: pb_def)
    have ibl: "unat (of_nat ib :: u32) < length D2" using ibn(1) D2(1) by simp
    have fresh2: "of_nat ib \<notin># tree_mset D2 (tree_levels n) (rd32 pb (2 * (?i mod 128))) + F1"
      using fresh by (simp add: rd T2(1))
    have slot: "2 * (?i mod 128) < 256" using c by simp
    have par: "D2 ! unat (of_nat ib :: u32) = pb" using D2(2) b(3) by simp
    have sup: "sn_super ?sn = D2 ! 0" using D2(3) snp(4) by simp
    from walk_img [OF fl2 sup slot ibn(2) ibl use2 fresh2 par, of off blk]
    consider (full) "treedisk_write img_store ino D off blk = None" "size F1 \<le> tree_levels n"
      | (stored) D3 v F3 where "treedisk_write img_store ino D off blk = Some (0, D3)"
          "walk_post off (tree_levels n) pb (2 * (?i mod 128)) (of_nat ib) blk D2 F1 D3 v F3"
      unfolding run by metis
    then show ?thesis
    proof cases
      case full
      then show ?thesis using gp(3) lg by simp
    next
      case stored
      have all: "tree_mset D2 (tree_levels n) (rd32 pb (2 * (?i mod 128))) + F1 = f_blocks D ?i + F"
        by (simp add: rd T2(1) gp(4))
      from stored(2) have w: "v \<noteq> 0" "fl_ok D3 F3" "D3 ! ib = wr32 pb (2 * (?i mod 128)) v"
        "frame (insert (of_nat ib) (set_mset (f_blocks D ?i + F))) D2 D3"
        "tree_mset D3 (tree_levels n) v + F3 = f_blocks D ?i + F"
        unfolding walk_post_def all b(3) by blast+
      have wd: "tget D3 (tree_levels n) v off' = (if off' = off then blk else f_data D ?i off')"
        if "unat off' < 256 ^ tree_levels n" for off'
      proof -
        have "unat off < 256 ^ tree_levels n"
          using tree_levels_fits [of off n] tree_levels_extend(1) [OF _ off] count_levels_fits [of off]
            max_extend(1) [OF off, of ?s]
          by (cases "?s \<le> off") (auto simp: n_def word_less_nat_alt not_le)
        from same_path_eq [OF this that] stored(2) T2(2) gd [OF that]
        show ?thesis by (auto simp: walk_post_def rd)
      qed
      have frD: "frame (insert (of_nat (inode_blockno ?i)) (set_mset (f_blocks D ?i + F))) D D3"
        by (rule frame_mono [OF frame_trans [OF frame_trans [OF gp(2) fr1] w(4)]]) (auto simp: ib_def)
      have node: "D3 ! inode_blockno ?i = wr32 (wr32 (D ! inode_blockno ?i) (2 * (?i mod 128) + 1) n) (2 * (?i mod 128)) v"
        using w(3) c by (simp add: pb_def ib_def)
      have nv: "n = 0 \<longleftrightarrow> v = 0" using w(1) max_extend(2) [OF off, of ?s] by (simp add: n_def)
      have le: "unat ?s \<le> unat n" "unat off < unat n"
        using max_extend(3) [OF off, of ?s] by (simp_all add: n_def flip: word_le_nat_alt word_less_nat_alt)
      have "tget D3 (tree_levels n) v off' = null_block"
        if "unat n \<le> unat off'" "unat off' < 256 ^ tree_levels n" for off'
        using wd [OF that(2)] that(1) le fs_wfD(6) [OF wf i] by auto
      note up = inode_update [OF wf i w(2) frD node w(5) nv this]
      have "f_data D3 ?i off' = ((f_data D ?i)(off := blk)) off'" for off'
      proof (cases "unat off' < 256 ^ tree_levels n")
        case True
        with wd [OF this] show ?thesis by (simp add: f_data_def up(2,3))
      next
        case False
        then have "\<not> unat off' < unat n" using tree_levels_fits by blast
        with False le fs_wfD(6) [OF wf i, of off'] show ?thesis
          by (auto simp: f_data_def [of D3] up(2))
      qed
      then show ?thesis using stored(1) up by (auto simp: n_def fun_eq_iff)
    qed
  qed
qed

section \<open>Releasing a file\<close>

definition freed :: "treedisk_snapshot \<Rightarrow> block list \<Rightarrow> u32 multiset \<Rightarrow> u32 multiset \<Rightarrow>
    (treedisk_snapshot \<times> block list) option \<Rightarrow> bool" where
  "freed sn D F T m \<longleftrightarrow> (\<exists>D'. m = Some (sn\<lparr>sn_super := D' ! 0\<rparr>, D') \<and> fl_ok D' (T + F) \<and>
     frame (set_mset (T + F)) D D')"

lemma free_refs_img:
  assumes sub: "\<And>D F sn b. fl_ok D F \<Longrightarrow> sn_super sn = D ! 0 \<Longrightarrow> b \<noteq> 0 \<Longrightarrow> in_use D (tree_mset D n b + F) \<Longrightarrow>
      freed sn D F (tree_mset D n b) (f b sn D)"
  shows "fl_ok D F \<Longrightarrow> sn_super sn = D ! 0 \<Longrightarrow> distinct is \<Longrightarrow>
      in_use D ((\<Sum>i\<in>set is. tree_mset D n (rd32 indir i)) + F) \<Longrightarrow>
      freed sn D F (\<Sum>i\<in>set is. tree_mset D n (rd32 indir i)) (free_refs f indir is sn D)"
proof (induction "is" arbitrary: D F sn)
  case Nil
  then show ?case by (simp add: freed_def)
next
  case (Cons i "is")
  let ?c = "rd32 indir i"
  let ?S = "\<lambda>D. \<Sum>j\<in>set is. tree_mset D n (rd32 indir j)"
  have split: "(\<Sum>j\<in>set (i # is). tree_mset D n (rd32 indir j)) = tree_mset D n ?c + ?S D"
    using Cons.prems(3) by simp
  show ?case
  proof (cases "?c = 0")
    case True
    then show ?thesis using Cons unfolding split by simp
  next
    case False
    have use: "in_use D (?S D + (tree_mset D n ?c + F))" using Cons.prems(4) unfolding split by (simp add: ac_simps)
    obtain D1 where D1: "f ?c sn D = Some (sn\<lparr>sn_super := D1 ! 0\<rparr>, D1)" "fl_ok D1 (tree_mset D n ?c + F)"
      "frame (set_mset (tree_mset D n ?c + F)) D D1"
      using sub [OF Cons.prems(1,2) False in_use_sub [OF use _ refl]] by (auto simp: freed_def)
    have same: "tree_mset D1 n (rd32 indir j) = tree_mset D n (rd32 indir j)" if "j \<in> set is" for j
    proof (rule tree_frame)
      fix x assume "x \<in># tree_mset D n (rd32 indir j)"
      then have "x \<in># ?S D" using that by (intro member_sum) auto
      then show "D1 ! unat x = D ! unat x"
        using frame_nth [OF D1(3)] ndup_disjoint [OF in_useD(1) [OF use]] in_useD(2) [OF use] by simp
    qed
    have S: "?S D1 = ?S D" using same by simp
    have "freed (sn\<lparr>sn_super := D1 ! 0\<rparr>) D1 (tree_mset D n ?c + F) (?S D1)
        (free_refs f indir is (sn\<lparr>sn_super := D1 ! 0\<rparr>) D1)"
      using Cons.prems(3) use frame_length [OF D1(3)]
      by (intro Cons.IH D1(2)) (auto simp: S in_use_def)
    then obtain D2 where D2: "free_refs f indir is (sn\<lparr>sn_super := D1 ! 0\<rparr>) D1 = Some (sn\<lparr>sn_super := D2 ! 0\<rparr>, D2)"
      "fl_ok D2 (?S D + (tree_mset D n ?c + F))" "frame (set_mset (?S D + (tree_mset D n ?c + F))) D1 D2"
      by (auto simp: freed_def S)
    have "frame (set_mset (tree_mset D n ?c + ?S D + F)) D D2"
      by (rule frame_mono [OF frame_trans [OF D1(3) D2(3)]]) auto
    then show ?thesis unfolding freed_def split using D2(1,2) D1(1) False by (simp add: ac_simps)
  qed
qed

lemma recursive_free_img:
  "fl_ok D F \<Longrightarrow> sn_super sn = D ! 0 \<Longrightarrow> b \<noteq> 0 \<Longrightarrow> in_use D (tree_mset D n b + F) \<Longrightarrow>
     freed sn D F (tree_mset D n b) (recursive_free_file n img_store b sn D)"
proof (induction n arbitrary: D F sn b)
  case 0
  then show ?case
    using free_block_img [of D F sn b] by (auto simp: freed_def opt_ref_def in_use_def ndup_add)
next
  case (Suc n)
  let ?S = "\<Sum>i<256. tree_mset D n (rd32 (D ! unat b) i)"
  have T: "tree_mset D (Suc n) b = add_mset b ?S" using Suc.prems(3) by (simp add: tree_Suc)
  have b: "unat b < length D" "b \<notin># ?S + F" using Suc.prems(4) by (auto simp: T in_use_def ndup_add)
  have use: "in_use D ((\<Sum>i\<in>set [0..<REFS_PER_BLOCK]. tree_mset D n (rd32 (D ! unat b) i)) + F)"
    using in_use_sub [OF Suc.prems(4), of "?S + F" D] by (simp add: T atLeast0LessThan)
  have "freed sn D F (\<Sum>i\<in>set [0..<REFS_PER_BLOCK]. tree_mset D n (rd32 (D ! unat b) i))
     (free_refs (recursive_free_file n img_store) (D ! unat b) [0..<REFS_PER_BLOCK] sn D)"
    by (rule free_refs_img [OF Suc.IH Suc.prems(1,2) distinct_upt use])
  then obtain D1 where D1: "free_refs (recursive_free_file n img_store) (D ! unat b) [0..<256] sn D =
      Some (sn\<lparr>sn_super := D1 ! 0\<rparr>, D1)" "fl_ok D1 (?S + F)" "frame (set_mset (?S + F)) D D1"
    by (auto simp: freed_def atLeast0LessThan)
  have "sn_super (sn\<lparr>sn_super := D1 ! 0\<rparr>) = D1 ! 0" "unat b < length D1"
    using b(1) frame_length [OF D1(3)] by simp_all
  from free_block_img [OF D1(2) this(1) Suc.prems(3) this(2) b(2)]
  obtain D2 where D2: "treedisk_free_block img_store D1 (sn\<lparr>sn_super := D1 ! 0\<rparr>) b = Some (sn\<lparr>sn_super := D2 ! 0\<rparr>, D2)"
    "fl_ok D2 (add_mset b (?S + F))" "frame (insert b (set_mset (?S + F))) D1 D2" by auto
  have "frame (set_mset (add_mset b ?S + F)) D D2"
    by (rule frame_mono [OF frame_trans [OF D1(3) D2(3)]]) auto
  then show ?case unfolding freed_def T using b(1) D1(1) D2(1,2) by simp
qed

text \<open>The level that \<open>treedisk_free_file\<close> computes, and when it never does.\<close>

lemma free_levels_nonzero: "free_levels m n l = Some y \<Longrightarrow> n \<noteq> 0 \<longrightarrow> m \<noteq> 0"
proof (rule free_levels.raw_induct [where P = "\<lambda>m n l y. n \<noteq> 0 \<longrightarrow> m \<noteq> 0"])
  fix f m n l y
  assume ih: "\<And>m n l y. f m n l = Some y \<Longrightarrow> n \<noteq> (0 :: u32) \<longrightarrow> m \<noteq> (0 :: u32)"
    and body: "(if m < n then f (m * of_nat REFS_PER_BLOCK) n (Suc l) else Some l) = Some y"
  show "n \<noteq> 0 \<longrightarrow> m \<noteq> 0"
    using ih [of 0 n "Suc l" y] body by (auto simp: word_gt_0)
qed

lemma free_levels_stuck: "n \<noteq> 0 \<Longrightarrow> free_levels 0 n l = None"
  using free_levels_nonzero [of 0 n l] by (cases "free_levels 0 n l") auto

lemma tree_levels_eq:
  assumes "256 ^ j < unat n" "unat n \<le> 256 ^ Suc j"
  shows "tree_levels n = Suc j"
proof -
  have "unat (of_nat (256 ^ j) :: u32) = 256 ^ j"
    using assms(1) unat32_less [of n] by (intro unat32_of_nat) simp
  with tree_levels_fits [of "of_nat (256 ^ j)" n] assms(1) have "256 ^ j < (256 :: nat) ^ tree_levels n"
    by metis
  then have "j < tree_levels n" by simp
  with tree_levels_least [OF assms(2)] show ?thesis by simp
qed

lemma free_levels_result:
  assumes "1 < unat n"
  shows "free_levels 256 n 1 = (if unat n \<le> 2 ^ 24 then Some (tree_levels n) else None)"
proof -
  have s: "free_levels m n l = (if unat m < unat n then free_levels (m * 256) n (Suc l) else Some l)" for m l
    by (subst free_levels.simps) (simp add: word_less_nat_alt)
  consider "unat n \<le> 256" | "256 < unat n" "unat n \<le> 65536" | "65536 < unat n" "unat n \<le> 16777216"
    | "16777216 < unat n" by linarith
  then show ?thesis
  proof cases
    case 1
    then show ?thesis using tree_levels_eq [of 0 n] assms by (simp add: s [of 256])
  next
    case 2
    then show ?thesis using tree_levels_eq [of 1 n] by (simp add: s [of 256] s [of 65536])
  next
    case 3
    then show ?thesis using tree_levels_eq [of 2 n] by (simp add: s [of 256] s [of 65536] s [of 16777216])
  next
    case 4
    then have "n \<noteq> 0" by auto
    have wrap: "(4294967296 :: u32) = 0" by simp
    have "free_levels 4294967296 n l = None" for l
      unfolding wrap by (rule free_levels_stuck) fact
    then show ?thesis
      using 4 by (simp add: s [of 256] s [of 65536] s [of 16777216])
  qed
qed

text \<open>
  \<open>treedisk_setsize(this_bs, 0)\<close>: all blocks of the file go to the free list. A file of more
  than \<open>2 ^ 24\<close> blocks makes it run forever.
\<close>

lemma treedisk_free_file_img:
  assumes wf: "fs_wf D F" and i: "i < n_inodes_of D" and small: "unat (f_size D i) \<le> 2 ^ 24"
  shows "freed (snap D i) D F (f_blocks D i) (treedisk_free_file img_store D (snap D i))"
proof -
  let ?s = "f_size D i"
  have use: "in_use D (f_blocks D i + F)"
    using in_use_sub [OF fs_wfD(3) [OF wf] _ refl] f_blocks_sub [OF i] by simp
  have fl: "fl_ok D F" using wf by (rule fs_wfD)
  consider "?s = 0" | "?s = 1" | "1 < unat ?s"
    by (metis One_nat_def Suc_lessI gr0I unat_1 unat32_inject unat_eq_zero)
  then show ?thesis
  proof cases
    case 1
    then have "f_root D i = 0" using fs_wfD(5) [OF wf i] by simp
    then have "f_blocks D i = {#}" by (simp add: f_blocks_def)
    moreover have "(snap D i)\<lparr>sn_super := D ! 0\<rparr> = snap D i" by (simp add: snap_def)
    ultimately show ?thesis using 1 fl by (simp add: treedisk_free_file_def freed_def)
  next
    case 2
    then have r: "f_root D i \<noteq> 0" using fs_wfD(5) [OF wf i] by simp
    have l: "tree_levels 1 = 0" using tree_levels_least [of 1 0] by simp
    have "freed (snap D i) D F (tree_mset D 0 (f_root D i)) (recursive_free_file 0 img_store (f_root D i) (snap D i) D)"
      using use 2 l r fl by (intro recursive_free_img) (auto simp: f_blocks_def)
    then show ?thesis using 2 l by (simp add: treedisk_free_file_def f_blocks_def)
  next
    case 3
    then have r: "f_root D i \<noteq> 0" "?s \<noteq> 0" "?s \<noteq> 1" using fs_wfD(5) [OF wf i] by auto
    have "freed (snap D i) D F (tree_mset D (tree_levels ?s) (f_root D i))
        (recursive_free_file (tree_levels ?s) img_store (f_root D i) (snap D i) D)"
      using use r fl by (intro recursive_free_img) (auto simp: f_blocks_def)
    then show ?thesis using free_levels_result [OF 3] small r by (simp add: treedisk_free_file_def f_blocks_def)
  qed
qed

lemma treedisk_setsize_img:
  assumes wf: "fs_wf D F" and i: "unat ino < n_inodes_of D"
    and small: "unat (f_size D (unat ino)) \<le> 2 ^ 24"
  shows "\<exists>D' F'. treedisk_setsize img_store ino D 0 = Some (0, D') \<and> fs_wf D' F' \<and>
    f_size D' (unat ino) = 0 \<and> (\<forall>off. f_data D' (unat ino) off = null_block) \<and>
    others_same (unat ino) D D' \<and> F' = f_blocks D (unat ino) + F \<and> all_blocks D' + F' = all_blocks D + F"
proof (cases "f_size D (unat ino) = 0")
  case True
  then have "f_root D (unat ino) = 0" using fs_wfD(5) [OF wf i] by simp
  then have "f_blocks D (unat ino) = {#}" by (simp add: f_blocks_def)
  moreover have "f_data D (unat ino) off = null_block" for off using fs_wfD(6) [OF wf i] True by simp
  ultimately show ?thesis
    using True wf i by (intro exI [of _ D] exI [of _ F])
      (simp add: treedisk_setsize_def get_snapshot_img [OF wf] others_same_def)
next
  case False
  let ?i = "unat ino"
  define ib where "ib = inode_blockno ?i"
  note b = inode_blockno_bounds [OF i, folded ib_def]
  have c: "?i mod 128 < 128" by simp
  obtain D1 where D1: "treedisk_free_file img_store D (snap D ?i) = Some ((snap D ?i)\<lparr>sn_super := D1 ! 0\<rparr>, D1)"
    "fl_ok D1 (f_blocks D ?i + F)" "frame (set_mset (f_blocks D ?i + F)) D D1"
    using treedisk_free_file_img [OF wf i small] by (auto simp: freed_def)
  define nb where "nb = wr32 (wr32 (D ! ib) (2 * (?i mod 128) + 1) 0) (2 * (?i mod 128)) 0"
  let ?D2 = "D1[ib := nb]"
  have ibn: "unat (of_nat ib :: u32) < length D" "(of_nat ib :: u32) \<noteq> 0"
    using b fs_wfD(2) [OF wf] by (simp_all add: b(3) flip: unat_eq_zero)
  have ibx: "(of_nat ib :: u32) \<notin># f_blocks D ?i + F"
    using fs_wfD(4) [OF wf, of "of_nat ib"] b f_blocks_sub [OF i] by (auto dest: mset_subset_eqD)
  have fr: "frame {of_nat ib} D1 ?D2" using frame_update [OF ibn(2), of D1 nb] b(3) by simp
  have z: "?D2 ! 0 = D1 ! 0" using b(1) by simp
  have fl2: "fl_ok ?D2 (f_blocks D ?i + F)" using fl_ok_frame [OF D1(2) fr z] ibx by auto
  have node: "?D2 ! inode_blockno ?i = wr32 (wr32 (D ! inode_blockno ?i) (2 * (?i mod 128) + 1) 0) (2 * (?i mod 128)) 0"
    using ibn(1) frame_length [OF D1(3)] b(3) by (simp add: ib_def [symmetric] nb_def)
  have frD: "frame (insert (of_nat (inode_blockno ?i)) (set_mset (f_blocks D ?i + F))) D ?D2"
    by (rule frame_mono [OF frame_trans [OF D1(3) fr]]) (auto simp: ib_def)
  have run: "treedisk_setsize img_store ino D 0 = Some (0, ?D2)"
    using False i ibn(1) frame_length [OF D1(3)] b(3) D1(1)
    by (simp add: treedisk_setsize_def get_snapshot_img [OF wf] sn_set_nblocks_def sn_set_root_def
        ib_def [symmetric] nb_def)
  have "tree_mset ?D2 (tree_levels 0) 0 + (f_blocks D ?i + F) = f_blocks D ?i + F" by simp
  note up = inode_update [OF wf i fl2 frD node this]
  have "f_data ?D2 ?i off = null_block" for off
    using fs_wfD(6) [OF up(1)] up(2,4) i by (simp add: others_same_def)
  then show ?thesis using run up by auto
qed

lemma treedisk_setsize_stuck:
  assumes wf: "fs_wf D F" and i: "unat ino < n_inodes_of D"
    and big: "2 ^ 24 < unat (f_size D (unat ino))"
  shows "treedisk_setsize img_store ino D 0 = None"
proof -
  have "f_size D (unat ino) \<noteq> 0" "f_size D (unat ino) \<noteq> 1" "1 < unat (f_size D (unat ino))"
    using big by auto
  then have "treedisk_free_file img_store D (snap D (unat ino)) = None"
    using free_levels_result [of "f_size D (unat ino)"] big by (simp add: treedisk_free_file_def)
  then show ?thesis using i \<open>f_size D (unat ino) \<noteq> 0\<close>
    by (simp add: treedisk_setsize_def get_snapshot_img [OF wf])
qed

end
