(* ===== verification/TreeDiskCreate.thy ===== *)
theory TreeDiskCreate
  imports TreeDiskOps
begin

text \<open>
  \<open>treedisk_create\<close> (\<open>egos/grass/block/treedisk.c\<close>) builds a well-formed file system of empty
  files on a blank disk, with every block after the inode blocks on the free list, and leaves a
  disk that already holds a file system alone.
\<close>

section \<open>Ranges of block numbers\<close>

definition rng :: "nat \<Rightarrow> nat \<Rightarrow> u32 multiset" where
  "rng a b = image_mset of_nat (mset_set {a..<b})"

lemma rng_empty [simp]: "b \<le> a \<Longrightarrow> rng a b = {#}"
  by (simp add: rng_def)

lemma rng_split: "a \<le> b \<Longrightarrow> b \<le> c \<Longrightarrow> rng a c = rng a b + rng b c"
  unfolding rng_def by (subst image_mset_union [symmetric], subst mset_set_Union [symmetric])
    (auto simp: ivl_disj_un_two)

lemma rng_single [simp]: "rng a (Suc a) = {#of_nat a#}"
  by (simp add: rng_def)

lemma rng_member: "b \<le> 4294967296 \<Longrightarrow> x \<in># rng a b \<longleftrightarrow> a \<le> unat x \<and> unat x < b"
proof -
  assume "b \<le> 4294967296"
  then have "x = of_nat k \<longleftrightarrow> unat x = k" if "k < b" for k
  proof -
    have "unat (of_nat k :: u32) = k" using that \<open>b \<le> 4294967296\<close> by (intro unat32_of_nat) simp
    then show ?thesis by (metis unat32_inject)
  qed
  moreover have "x \<in># rng a b \<longleftrightarrow> (\<exists>k. a \<le> k \<and> k < b \<and> x = of_nat k)" by (auto simp: rng_def)
  ultimately show ?thesis by metis
qed

lemma rng_ndup: "b \<le> 4294967296 \<Longrightarrow> ndup (rng a b)"
proof (induction b)
  case (Suc b)
  show ?case
  proof (cases "a \<le> b")
    case True
    then have "rng a (Suc b) = add_mset (of_nat b) (rng a b)" using rng_split [of a b "Suc b"] by simp
    moreover have "of_nat b \<notin># rng a b" using Suc.prems by (simp add: rng_member unat32_of_nat)
    ultimately show ?thesis using Suc by (simp add: ndup_add)
  qed (simp add: ndup_def)
qed (simp add: ndup_def)

lemma rng_size: "size (rng a b) = b - a"
  by (simp add: rng_def)

section \<open>The free list\<close>

lemma fill_refs_result:
  assumes "fill_refs data i next nblocks = (data', i', next')" "i \<le> 256" "next \<le> nblocks"
  shows "\<exists>k. i' = i + k \<and> i' \<le> 256 \<and> unat next' = unat next + k \<and> next' \<le> nblocks \<and>
    (\<forall>j<256. rd32 data' j = (if i \<le> j \<and> j < i' then of_nat (unat next + (j - i)) else rd32 data j))"
  using assms
proof (induction data i "next" nblocks rule: fill_refs.induct)
  case (1 data i "next" nblocks)
  show ?case
  proof (cases "i < REFS_PER_BLOCK \<and> next < nblocks")
    case True
    then have n: "unat (next + 1) = Suc (unat next)"
      using unat32_le [of nblocks] by (simp add: unat32_Suc word_less_nat_alt)
    have le: "next + 1 \<le> nblocks" using True n by (simp add: word_less_nat_alt word_le_nat_alt)
    have "fill_refs (wr32 data i next) (Suc i) (next + 1) nblocks = (data', i', next')"
      using "1.prems"(1) True by (simp add: fill_refs.simps [of data i])
    from "1.IH" [OF True this] True le obtain k where k: "i' = Suc i + k" "i' \<le> 256"
      "unat next' = unat (next + 1) + k" "next' \<le> nblocks"
      "\<And>j. j < 256 \<Longrightarrow> rd32 data' j =
        (if Suc i \<le> j \<and> j < i' then of_nat (unat (next + 1) + (j - Suc i)) else rd32 (wr32 data i next) j)"
      by auto
    have "rd32 data' j = (if i \<le> j \<and> j < i' then of_nat (unat next + (j - i)) else rd32 data j)" if "j < 256" for j
      using k(5) [OF that] True that k(1) n by (auto simp: Suc_diff_Suc le_eq_less_or_eq)
    then show ?thesis using k n by (intro exI [of _ "Suc k"]) auto
  next
    case False
    then have "data' = data" "i' = i" "next' = next" using "1.prems"(1) by (auto simp: fill_refs.simps [of data i])
    then show ?thesis using "1.prems" by auto
  qed
qed

lemma zero_refs_result: "j < 256 \<Longrightarrow> rd32 (zero_refs data i) j = (if i \<le> j then 0 else rd32 data j)"
proof (induction data i rule: zero_refs.induct)
  case (1 data i)
  show ?case
  proof (cases "i < REFS_PER_BLOCK")
    case True
    then have "rd32 (zero_refs data i) j = rd32 (zero_refs (wr32 data i 0) (Suc i)) j"
      by (simp add: zero_refs.simps [of data i])
    with 1 True show ?thesis by auto
  next
    case False
    with 1 show ?thesis by (simp add: zero_refs.simps [of data i])
  qed
qed

lemma slot_refs_rng:
  assumes "0 < n" "n + k \<le> 4294967296" "k < 256"
    and "\<And>j. 1 \<le> j \<Longrightarrow> j < 256 \<Longrightarrow> rd32 b j = (if j < 1 + k then of_nat (n + (j - 1)) else 0)"
  shows "slot_refs b = rng n (n + k)"
proof -
  have "slot_refs b = (\<Sum>j\<in>{1..<256}. if j < 1 + k then {#of_nat (n + (j - 1))#} else {#})"
    unfolding slot_refs_def
  proof (rule sum.cong)
    fix j :: nat assume j: "j \<in> {1..<256}"
    have "(of_nat (n + (j - 1)) :: u32) \<noteq> 0" if "j < 1 + k"
    proof
      assume z: "(of_nat (n + (j - 1)) :: u32) = 0"
      have "unat (of_nat (n + (j - 1)) :: u32) = n + (j - 1)" using that assms(1,2) j by (intro unat32_of_nat) auto
      with z assms(1) show False by (simp only: unsigned_0)
    qed
    then show "opt_ref (rd32 b j) = (if j < 1 + k then {#of_nat (n + (j - 1))#} else {#})"
      using assms(4) [of j] j by (cases "j < 1 + k") (simp_all add: opt_ref_def del: of_nat_add)
  qed simp
  also have "\<dots> = (\<Sum>j\<in>{1..<1 + k}. {#of_nat (n + (j - 1))#})"
  proof -
    have "{1..<256} \<inter> {j. j < 1 + k} = {1..<1 + k}" using assms(3) by auto
    then show ?thesis by (simp add: sum.If_cases)
  qed
  also have "\<dots> = rng n (n + k)"
  proof (induction k)
    case (Suc k)
    have "rng n (n + Suc k) = rng n (n + k) + {#of_nat (n + k)#}" using rng_split [of n "n + k" "Suc (n + k)"] by simp
    with Suc show ?case by simp
  qed simp
  finally show ?thesis .
qed

lemma setup_freelist_img:
  assumes "next \<le> nblocks" "unat nblocks \<le> length D" "0 < unat next" "flist D fb M"
    and "\<And>x. x \<in># M \<Longrightarrow> unat x < unat next"
  shows "\<exists>f D'. setup_freelist_loop img_store D data fb next nblocks = Some (f, D') \<and>
    flist D' f (M + rng (unat next) (unat nblocks)) \<and> length D' = length D \<and>
    (\<forall>j<unat next. D' ! j = D ! j)"
  using assms
proof (induction "img_store" D data fb "next" nblocks arbitrary: M rule: setup_freelist_loop.induct)
  case (1 D data fb "next" nblocks)
  show ?case
  proof (cases "next < nblocks")
    case False
    then have "next = nblocks" using "1.prems"(1) by simp
    then show ?thesis using "1.prems"(4) by (simp add: setup_freelist_loop.simps)
  next
    case True
    then have n: "unat (next + 1) = Suc (unat next)"
      using unat32_le [of nblocks] by (simp add: unat32_Suc word_less_nat_alt)
    have le: "next + 1 \<le> nblocks" using True n by (simp add: word_less_nat_alt word_le_nat_alt)
    obtain d1 i n2 where fill: "fill_refs (wr32 data 0 fb) 1 (next + 1) nblocks = (d1, i, n2)" by (metis prod_cases3)
    from fill_refs_result [OF fill _ le] obtain k where k: "i = 1 + k" "i \<le> 256" "unat n2 = Suc (unat next) + k"
      "n2 \<le> nblocks" "\<And>j. j < 256 \<Longrightarrow> rd32 d1 j =
        (if 1 \<le> j \<and> j < i then of_nat (Suc (unat next) + (j - 1)) else rd32 (wr32 data 0 fb) j)"
      by (auto simp: n)
    define d where "d = zero_refs d1 i"
    have d0: "rd32 d 0 = fb" using k(1) k(5) [of 0] by (simp add: d_def zero_refs_result)
    have "slot_refs d = rng (Suc (unat next)) (Suc (unat next) + k)"
      using k unat32_less [of n2] by (intro slot_refs_rng) (auto simp: d_def zero_refs_result)
    then have slots: "slot_refs d = rng (Suc (unat next)) (unat n2)" by (simp add: k(3))
    have nx: "unat next < length D" "next \<noteq> 0"
      using True "1.prems"(2,3) by (auto simp: word_less_nat_alt)
    let ?D = "D[unat next := d]"
    have "flist ?D fb M"
    proof (rule flist_frame [OF "1.prems"(4)])
      fix x assume "x \<in># M"
      then have "unat next \<noteq> unat x" using "1.prems"(5) by fastforce
      then show "?D ! unat x = D ! unat x" by simp
    qed
    then have "flist ?D next (add_mset next (slot_refs (?D ! unat next) + M))"
      using nx d0 by (intro flist_block) simp_all
    moreover have "add_mset next (slot_refs (?D ! unat next) + M) = M + rng (unat next) (unat n2)"
      using nx slots k(3) rng_split [of "unat next" "Suc (unat next)" "unat n2"] by simp
    ultimately have fl: "flist ?D next (M + rng (unat next) (unat n2))" by simp
    have run: "setup_freelist_loop img_store D data fb next nblocks = setup_freelist_loop img_store ?D d next n2 nblocks"
      using True fill nx by (subst setup_freelist_loop.simps) (simp add: Let_def d_def)
    have below: "unat x < Suc (unat next + k)" if "x \<in># M" for x using "1.prems"(5) [OF that] by simp
    have "\<exists>f D'. setup_freelist_loop img_store ?D d next n2 nblocks = Some (f, D') \<and>
        flist D' f ((M + rng (unat next) (unat n2)) + rng (unat n2) (unat nblocks)) \<and>
        length D' = length ?D \<and> (\<forall>j<unat n2. D' ! j = ?D ! j)"
    proof (rule "1.hyps" [OF True refl refl _ refl refl d_def])
      show "(d1, i, n2) = fill_refs (wr32 data 0 fb) 1 (next + 1) nblocks" using fill by simp
    qed (use k(3,4) "1.prems"(2) below fl nx unat32_less [of n2] in \<open>auto simp: rng_member\<close>)
    then show ?thesis unfolding run
      using rng_split [of "unat next" "unat n2" "unat nblocks"] k(3,4)
      by (fastforce simp: word_le_nat_alt nth_list_update_neq ac_simps)
  qed
qed

section \<open>The whole file system\<close>

lemma clear_inodes_img:
  assumes "\<And>i. i \<in> set is \<Longrightarrow> i < length D" "length D < 4294967296"
  shows "\<exists>D'. clear_inodes img_store is D = Some (0, D') \<and> length D' = length D \<and>
    (\<forall>j<length D. D' ! j = (if j \<in> set is then null_block else D ! j))"
  using assms
proof (induction "is" arbitrary: D)
  case (Cons i "is")
  have i: "i < length D" "unat (of_nat i :: u32) = i"
    using Cons.prems(1) [of i] Cons.prems(2) by (auto intro: unat32_of_nat)
  from Cons.IH [of "D[i := null_block]"] Cons.prems
  obtain D' where D': "clear_inodes img_store is (D[i := null_block]) = Some (0, D')" "length D' = length D"
    "\<forall>j<length D. D' ! j = (if j \<in> set is then null_block else D[i := null_block] ! j)" by auto
  have "clear_inodes img_store (i # is) D = Some (0, D')"
    using D'(1) i by (simp add: img_write_def i(2))
  with D' i(1) show ?case by (intro exI [of _ D']) (auto simp: nth_list_update)
qed simp

definition inode_blocks_for :: "u32 \<Rightarrow> nat" where
  "inode_blocks_for n_inodes = (unat n_inodes + 127) div 128"

lemma inode_blocks_for_bounds:
  "unat (of_nat (inode_blocks_for n) :: u32) = inode_blocks_for n" "inode_blocks_for n \<le> 33554432"
  "unat n \<le> 128 * inode_blocks_for n"
proof -
  show b: "inode_blocks_for n \<le> 33554432"
    using unat32_le [of n] by (simp add: inode_blocks_for_def)
  then show "unat (of_nat (inode_blocks_for n) :: u32) = inode_blocks_for n"
    by (intro unat32_of_nat) simp
  show "unat n \<le> 128 * inode_blocks_for n" by (simp add: inode_blocks_for_def)
qed

lemma create_run:
  assumes "length D < 2147483648" "inode_blocks_for n + 2 \<le> length D"
  shows "treedisk_create img_store D n =
    (if super_n_inodeblocks (D ! 0) = 0
     then do {
       (f, s) \<leftarrow> setup_freelist img_store D (of_nat (inode_blocks_for n + 1)) (of_nat (length D));
       (r, s) \<leftarrow> img_write s 0 (wr32 (wr32 null_block 0 (of_nat (inode_blocks_for n))) 1 f);
       if r < 0 then Some (- 1, s) else clear_inodes img_store [1..<Suc (inode_blocks_for n)] s }
     else if super_n_inodeblocks (D ! 0) = of_nat (inode_blocks_for n) then Some (0, D) else None)"
proof -
  let ?k = "inode_blocks_for n"
  have e: "(unat n + 128 - 1) div 128 = ?k" by (simp add: inode_blocks_for_def)
  have l: "(word_of_int (int (length D)) :: u32) = of_nat (length D)" by simp
  have u: "unat (of_nat (length D) :: u32) = length D" using assms(1) by (intro unat32_of_nat) simp
  have "unat (of_nat ?k + 2 :: u32) = ?k + 2"
    using inode_blocks_for_bounds(1,2) [of n] by (subst unat32_add) auto
  then have nlt: "\<not> (of_nat (length D) :: u32) < of_nat ?k + 2"
    using assms(2) u by (simp only: word_less_nat_alt)
  have D0: "0 < length D" using assms(2) by linarith
  show ?thesis unfolding treedisk_create_def IPB e img_store_simps img_nblocks_def Let_def
    using nlt D0 inode_blocks_for_bounds(1) [of n]
    by (simp add: img_read_def l of_nat_Suc add.commute cong: if_cong)
qed

lemma create_blank_img:
  assumes "length D < 2147483648" "inode_blocks_for n + 2 \<le> length D" "super_n_inodeblocks (D ! 0) = 0"
  shows "\<exists>D'. treedisk_create img_store D n = Some (0, D') \<and> length D' = length D \<and>
    fs_wf D' (rng (inode_blocks_for n + 1) (length D)) \<and> n_inodes_of D' = 128 * inode_blocks_for n \<and>
    (\<forall>i<n_inodes_of D'. f_size D' i = 0)"
proof -
  let ?k = "inode_blocks_for n"
  have u: "unat (of_nat (length D) :: u32) = length D" "unat (of_nat (?k + 1) :: u32) = ?k + 1"
    using assms(1) inode_blocks_for_bounds(2) [of n] by (intro unat32_of_nat; simp)+
  have le: "(of_nat (?k + 1) :: u32) \<le> of_nat (length D)"
    unfolding word_le_nat_alt u using assms(2) by simp
  obtain f D1 where D1: "setup_freelist img_store D (of_nat (?k + 1)) (of_nat (length D)) = Some (f, D1)"
    "flist D1 f (rng (?k + 1) (length D))" "length D1 = length D"
    using setup_freelist_img [OF le, of D 0 "{#}" null_block, unfolded u]
    unfolding setup_freelist_def by auto
  let ?sb = "wr32 (wr32 null_block 0 (of_nat ?k)) 1 f"
  let ?D2 = "D1[0 := ?sb]"
  have pre: "i < length ?D2" if "i \<in> set [1..<Suc ?k]" for i using that assms(2) D1(3) by auto
  have "length ?D2 < 4294967296" using assms(1) D1(3) by simp
  from clear_inodes_img [OF pre this] obtain D3 where "clear_inodes img_store [1..<Suc ?k] ?D2 = Some (0, D3)"
    "length D3 = length ?D2"
    "\<forall>j<length ?D2. D3 ! j = (if j \<in> set [1..<Suc ?k] then null_block else ?D2 ! j)" by blast
  note D3 = this [unfolded length_list_update D1(3)]
  have D0: "0 < length D" using assms(2) by linarith
  have run: "treedisk_create img_store D n = Some (0, D3)"
  proof -
    have "img_write D1 0 ?sb = Some (0, ?D2)" using D0 D1(3) by (simp add: img_write_def)
    then show ?thesis unfolding create_run [OF assms(1,2)]
      by (simp add: assms(3) D1(1) D3(1) del: One_nat_def upt_Suc of_nat_add of_nat_Suc)
  qed
  have sb: "D3 ! 0 = ?sb" using D3(3) D0 D1(3) by auto
  have k: "unat (super_n_inodeblocks (D3 ! 0)) = ?k"
    using inode_blocks_for_bounds(1) [of n] by (simp add: sb super_n_inodeblocks_def)
  then have N: "n_inodes_of D3 = 128 * ?k" by (simp add: n_inodes_of_def)
  let ?F = "rng (?k + 1) (length D)"
  have mem: "x \<in># ?F \<longleftrightarrow> ?k < unat x \<and> unat x < length D" for x
    using assms(1) by (simp add: rng_member Suc_le_eq)
  have "flist D3 f ?F"
    by (rule flist_frame [OF D1(2)]) (use mem D3(3) in \<open>auto simp: nth_list_update_neq\<close>)
  moreover have nd: "ndup ?F" using assms(1) by (intro rng_ndup) simp
  ultimately have fl: "fl_ok D3 ?F"
    using mem D3(2) D0 by (auto simp: fl_ok_def sb super_free_list_def simp flip: unat_eq_zero)
  have blank: "f_size D3 i = 0 \<and> f_root D3 i = 0" if "i < n_inodes_of D3" for i
  proof -
    have "1 \<le> inode_blockno i" "inode_blockno i < Suc ?k" using inode_blockno_bounds [OF that] k by simp_all
    then have "inode_blockno i \<in> set [1..<Suc ?k]" "inode_blockno i < length D" using assms(2) by auto
    then have "D3 ! inode_blockno i = null_block" using D3(3) by metis
    then show ?thesis by (simp add: f_size_def f_root_def inode_nblocks_def inode_root_def)
  qed
  have "f_blocks D3 i = {#}" "f_data D3 i off = null_block" if "i < n_inodes_of D3" for i off
    using blank [OF that] by (simp_all add: f_blocks_def f_data_def)
  then have "all_blocks D3 = {#}" by (simp add: all_blocks_def)
  then have "fs_wf D3 ?F"
    using fl nd mem D3(2) k assms(2) blank \<open>\<And>off i. i < n_inodes_of D3 \<Longrightarrow> f_data D3 i off = null_block\<close>
    by (auto simp: fs_wf_def in_use_def simp flip: unat_eq_zero)
  with run D3(2) N blank show ?thesis by auto
qed

end
