(* ===== verification/InodeStore.thy ===== *)
theory InodeStore
  imports BlockStore
begin

text \<open>
  The contract of the file layers (\<open>treedisk.c\<close>, \<open>fatdisk.c\<close>): a family of virtual block stores
  indexed by inode numbers on one state. \<open>files s ino\<close> is the size in blocks and the contents of
  the store \<open>ino\<close>, or \<open>None\<close> when there is no such inode. What clients of the layers (block
  server, file server) need is proved once here: a file written block by block is read back.
\<close>

type_synonym 'f file_view = "'f \<rightharpoonup> nat \<times> (block_no \<Rightarrow> block)"

locale inode_store =
  fixes rd :: "'s \<Rightarrow> u32 \<Rightarrow> block_no \<Rightarrow> (block option \<times> 's) option"
    and wr :: "'s \<Rightarrow> u32 \<Rightarrow> block_no \<Rightarrow> block \<Rightarrow> (int \<times> 's) option"
    and trunc :: "'s \<Rightarrow> u32 \<Rightarrow> (int \<times> 's) option"
    and ok :: "'s \<Rightarrow> bool"
    and files :: "'s \<Rightarrow> u32 file_view"
  assumes rd_law: "ok s \<Longrightarrow> files s ino = Some (n, d) \<Longrightarrow> rd s ino off = Some (res, s') \<Longrightarrow>
      ok s' \<and> files s' = files s \<and> res = (if unat off < n then Some (d off) else None)"
    and rd_returns: "ok s \<Longrightarrow> files s ino = Some (n, d) \<Longrightarrow> rd s ino off \<noteq> None"
    and wr_law: "ok s \<Longrightarrow> files s ino = Some (n, d) \<Longrightarrow> off \<noteq> - 1 \<Longrightarrow> wr s ino off b = Some (r, s') \<Longrightarrow>
      ok s' \<and> r = 0 \<and> files s' = (files s)(ino \<mapsto> (max n (Suc (unat off)), d(off := b)))"
    and trunc_law: "ok s \<Longrightarrow> files s ino = Some (n, d) \<Longrightarrow> trunc s ino = Some (r, s') \<Longrightarrow>
      ok s' \<and> r = 0 \<and> files s' = (files s)(ino \<mapsto> (0, \<lambda>_. null_block))"

text \<open>Writing a list of blocks from an offset on, and reading as many back.\<close>

fun put_blocks :: "('s \<Rightarrow> u32 \<Rightarrow> block_no \<Rightarrow> block \<Rightarrow> (int \<times> 's) option) \<Rightarrow> u32 \<Rightarrow> nat \<Rightarrow> block list \<Rightarrow> 's \<Rightarrow>
    's option" where
  "put_blocks wr ino off [] s = Some s"
| "put_blocks wr ino off (b # bs) s = do {
     (r, s) \<leftarrow> wr s ino (of_nat off) b;
     if r < 0 then None else put_blocks wr ino (Suc off) bs s }"

fun get_blocks :: "('s \<Rightarrow> u32 \<Rightarrow> block_no \<Rightarrow> (block option \<times> 's) option) \<Rightarrow> u32 \<Rightarrow> nat \<Rightarrow> nat \<Rightarrow> 's \<Rightarrow>
    (block option list \<times> 's) option" where
  "get_blocks rd ino off 0 s = Some ([], s)"
| "get_blocks rd ino off (Suc k) s = do {
     (r, s) \<leftarrow> rd s ino (of_nat off);
     (rs, s) \<leftarrow> get_blocks rd ino (Suc off) k s;
     Some (r # rs, s) }"

definition put_data :: "nat \<Rightarrow> block list \<Rightarrow> (block_no \<Rightarrow> block) \<Rightarrow> block_no \<Rightarrow> block" where
  "put_data off bs d x = (if off \<le> unat x \<and> unat x < off + length bs then bs ! (unat x - off) else d x)"

context inode_store
begin

lemma read_after_write:
  assumes "ok s" "files s ino = Some (n, d)" "off \<noteq> - 1" "wr s ino off b = Some (r, s')"
  shows "\<exists>s''. rd s' ino off = Some (Some b, s'') \<and> ok s'' \<and> files s'' = files s'"
proof -
  from wr_law [OF assms] have "ok s'" and f: "files s' ino = Some (max n (Suc (unat off)), d(off := b))" by auto
  with rd_law [OF this, of off] rd_returns [OF this, of off] show ?thesis by fastforce
qed

lemma put_blocks_law:
  assumes "ok s" "files s ino = Some (n, d)" "off + length bs < 4294967296"
    and "put_blocks wr ino off bs s = Some s'"
  shows "ok s' \<and> files s' = (if bs = [] then files s
    else (files s)(ino \<mapsto> (max n (off + length bs), put_data off bs d)))"
  using assms
proof (induction bs arbitrary: s n d off)
  case Nil
  then show ?case by simp
next
  case (Cons b bs)
  have u: "unat (of_nat off :: u32) = off" using Cons.prems(3) by (intro unat32_of_nat) simp
  have m: "(of_nat off :: u32) \<noteq> - 1"
  proof
    assume "(of_nat off :: u32) = - 1"
    with u have "off = unat (- 1 :: u32)" by simp
    also have "\<dots> = 4294967295" by (simp add: unsigned_minus_1_eq_mask mask_eq_exp_minus_1)
    finally show False using Cons.prems(3) by simp
  qed
  obtain r s1 where w: "wr s ino (of_nat off) b = Some (r, s1)" "put_blocks wr ino (Suc off) bs s1 = Some s'"
    using Cons.prems(4) by (auto simp: Option.bind_eq_Some_conv split: if_splits)
  from wr_law [OF Cons.prems(1,2) m w(1)] u
  have s1: "ok s1" "files s1 = (files s)(ino \<mapsto> (max n (Suc off), d(of_nat off := b)))" by auto
  then have f1: "files s1 ino = Some (max n (Suc off), d(of_nat off := b))" by simp
  have "Suc off + length bs < 4294967296" using Cons.prems(3) by simp
  note ih = Cons.IH [OF s1(1) f1 this w(2)]
  have "put_data (Suc off) bs (d(of_nat off := b)) x = put_data off (b # bs) d x" for x
  proof -
    have "x = of_nat off \<longleftrightarrow> unat x = off" using u by (metis unat32_inject)
    then show ?thesis by (auto simp: put_data_def nth_Cons split: nat.splits)
      (metis Suc_diff_Suc Suc_le_eq le_neq_implies_less diff_Suc_Suc nat.inject)+
  qed
  then have pd: "put_data (Suc off) bs (d(of_nat off := b)) = put_data off (b # bs) d" by (rule ext)
  show ?case
  proof (cases bs)
    case Nil
    have "put_data (Suc off) [] (d(of_nat off := b)) = d(of_nat off := b)"
      by (rule ext) (auto simp: put_data_def)
    with pd Nil have "put_data off (b # bs) d = d(of_nat off := b)" by simp
    with ih s1 Nil show ?thesis by simp
  next
    case (Cons c cs)
    with ih [unfolded pd] s1 show ?thesis by (simp add: max.assoc)
  qed
qed

lemma get_blocks_law:
  assumes "ok s" "files s ino = Some (n, d)" "off + k \<le> 4294967296"
  shows "\<exists>s'. get_blocks rd ino off k s =
      Some (map (\<lambda>j. if j < n then Some (d (of_nat j)) else None) [off..<off + k], s') \<and>
    ok s' \<and> files s' = files s"
  using assms
proof (induction k arbitrary: off s)
  case (Suc k)
  have u: "unat (of_nat off :: u32) = off" using Suc.prems(3) by (intro unat32_of_nat) simp
  obtain r s1 where r: "rd s ino (of_nat off) = Some (r, s1)"
    using rd_returns [OF Suc.prems(1,2), of "of_nat off"] by auto
  from rd_law [OF Suc.prems(1,2) r] u
  have s1: "ok s1" "files s1 = files s" "r = (if off < n then Some (d (of_nat off)) else None)" by auto
  with Suc.IH [of s1 "Suc off"] Suc.prems obtain s2 where
    "get_blocks rd ino (Suc off) k s1 =
      Some (map (\<lambda>j. if j < n then Some (d (of_nat j)) else None) [Suc off..<Suc off + k], s2)"
    "ok s2" "files s2 = files s" by auto
  moreover have "[off..<off + Suc k] = off # [Suc off..<Suc off + k]" by (simp add: upt_rec)
  ultimately show ?case using r s1(3) by simp
qed simp

lemma put_get_blocks:
  assumes "ok s" "files s ino = Some (n, d)" "off + length bs < 4294967296"
    and "put_blocks wr ino off bs s = Some s'"
  shows "\<exists>s''. get_blocks rd ino off (length bs) s' = Some (map Some bs, s'')"
proof (cases "bs = []")
  case False
  from put_blocks_law [OF assms] False
  have s': "ok s'" "files s' ino = Some (max n (off + length bs), put_data off bs d)" by auto
  have "map (\<lambda>j. if j < max n (off + length bs) then Some (put_data off bs d (of_nat j)) else None)
      [off..<off + length bs] = map Some bs"
    using assms(3) by (intro nth_equalityI) (auto simp: put_data_def unat32_of_nat simp del: of_nat_add)
  with get_blocks_law [OF s', of off "length bs"] assms(3) show ?thesis by auto
qed (use assms in simp)

lemma other_files:
  assumes "ok s" "files s ino = Some (n, d)" "off \<noteq> - 1" "wr s ino off b = Some (r, s')" "ino' \<noteq> ino"
  shows "files s' ino' = files s ino'"
  using wr_law [OF assms(1-4)] assms(5) by simp

end

end
