(* ===== verification/TreeDiskStore.thy ===== *)
theory TreeDiskStore
  imports TreeDiskCreate InodeStore ClockDisk
begin

text \<open>
  The tree file system over any store that satisfies the contract of block stores, and its
  properties. Every operation is simulated by its run on the reference disk, so the results of
  \<open>TreeDiskOps\<close> and \<open>TreeDiskCreate\<close> hold over a RAM disk, a partition, a cache and any stack of
  them.
\<close>

context block_store
begin

lemma get_snapshot_sim [sim_intros]:
  "ok s \<Longrightarrow> sim ok img (treedisk_get_snapshot bs s ino) (treedisk_get_snapshot img_store (img s) ino)"
  unfolding treedisk_get_snapshot_def img_store_simps Let_def by (intro sim_intros refl)

lemma alloc_block_sim [sim_intros]:
  "ok s \<Longrightarrow> sim ok img (treedisk_alloc_block bs s sn) (treedisk_alloc_block img_store (img s) sn)"
  unfolding treedisk_alloc_block_def Let_def by (intro sim_intros refl)

lemma free_block_sim [sim_intros]:
  "ok s \<Longrightarrow> sim ok img (treedisk_free_block bs s sn t) (treedisk_free_block img_store (img s) sn t)"
  unfolding treedisk_free_block_def Let_def by (intro sim_intros refl)

lemma free_refs_sim:
  assumes "\<And>b sn s. ok s \<Longrightarrow> sim ok img (f b sn s) (g b sn (img s))"
  shows "ok s \<Longrightarrow> sim ok img (free_refs f indir is sn s) (free_refs g indir is sn (img s))"
proof (induction "is" arbitrary: sn s)
  case Nil
  then show ?case by (simp add: sim_Some)
next
  case (Cons i "is")
  then show ?case unfolding free_refs.simps by (intro sim_intros assms)
qed

lemma recursive_free_sim [sim_intros]:
  "ok s \<Longrightarrow> sim ok img (recursive_free_file n bs b sn s) (recursive_free_file n img_store b sn (img s))"
proof (induction n arbitrary: b sn s)
  case 0
  then show ?case unfolding recursive_free_file.simps by (intro sim_intros)
next
  case (Suc n)
  then show ?case unfolding recursive_free_file.simps by (intro sim_intros free_refs_sim)
qed

lemma free_file_sim [sim_intros]:
  "ok s \<Longrightarrow> sim ok img (treedisk_free_file bs s sn) (treedisk_free_file img_store (img s) sn)"
  unfolding treedisk_free_file_def by (intro sim_intros refl)

lemma treedisk_setsize_sim:
  "ok s \<Longrightarrow> sim ok img (treedisk_setsize bs ino s n) (treedisk_setsize img_store ino (img s) n)"
  unfolding treedisk_setsize_def Let_def by (intro sim_intros refl)

lemma read_walk_sim [sim_intros]:
  "ok s \<Longrightarrow> sim ok img (read_walk bs off n b s) (read_walk img_store off n b (img s))"
proof (induction n arbitrary: b s)
  case 0
  then show ?case unfolding read_walk.simps img_store_simps by (intro sim_intros refl)
next
  case (Suc n)
  then show ?case unfolding read_walk.simps img_store_simps by (intro sim_intros refl)
qed

lemma treedisk_read_sim:
  "ok s \<Longrightarrow> sim ok img (treedisk_read bs ino s off) (treedisk_read img_store ino (img s) off)"
  unfolding treedisk_read_def by (intro sim_intros refl)

lemma grow_levels_sim [sim_intros]:
  "ok s \<Longrightarrow> sim ok img (grow_levels n bs sn s) (grow_levels n img_store sn (img s))"
proof (induction n arbitrary: sn s)
  case 0
  then show ?case by (simp add: sim_Some)
next
  case (Suc n)
  then show ?case unfolding grow_levels.simps Let_def by (intro sim_intros refl)
qed

lemma write_walk_sim [sim_intros]:
  "ok s \<Longrightarrow> sim ok img (write_walk bs off n pb pi po sn s) (write_walk img_store off n pb pi po sn (img s))"
proof (induction n arbitrary: pb pi po sn s)
  case 0
  then show ?case unfolding write_walk.simps by (intro sim_intros refl)
next
  case (Suc n)
  then show ?case unfolding write_walk.simps Let_def by (intro sim_intros refl)
qed

lemma treedisk_write_sim:
  "ok s \<Longrightarrow> sim ok img (treedisk_write bs ino s off b) (treedisk_write img_store ino (img s) off b)"
  unfolding treedisk_write_def Let_def by (intro sim_intros refl)

lemma setup_freelist_sim [sim_intros]:
  "ok s \<Longrightarrow> sim ok img (setup_freelist_loop bs s data fb nx n) (setup_freelist_loop img_store (img s) data fb nx n)"
proof (induction "unat n - unat nx" arbitrary: s data fb nx rule: less_induct)
  case less
  show ?case
  proof (cases "nx < n")
    case False
    with less.prems show ?thesis by (simp add: setup_freelist_loop.simps sim_Some)
  next
    case True
    obtain d i n2 where fill: "fill_refs (wr32 data 0 fb) 1 (nx + 1) n = (d, i, n2)" by (metis prod_cases3)
    have "unat (nx + 1) = Suc (unat nx)"
      using True unat32_le [of n] by (simp add: unat32_Suc word_less_nat_alt)
    moreover from this True have "nx + 1 \<le> n" by (simp add: word_less_nat_alt word_le_nat_alt)
    then have "nx + 1 \<le> n2 \<and> n2 \<le> n" using fill_refs_next [OF fill] by simp
    ultimately have "unat nx < unat n2" "unat nx < unat n" using True
      by (simp_all add: word_le_nat_alt word_less_nat_alt)
    then have dec: "unat n - unat n2 < unat n - unat nx" by (intro diff_less_mono2)
    have run: "setup_freelist_loop b t data fb nx n = do {
        (_, t) \<leftarrow> write_or_panic b t nx (zero_refs d i);
        setup_freelist_loop b t (zero_refs d i) nx n2 n }" for b :: "'x block_store_t" and t
      using True fill by (subst setup_freelist_loop.simps) (simp add: Let_def)
    show ?thesis unfolding run by (intro sim_intros less.hyps dec less.prems)
  qed
qed

lemma clear_inodes_sim [sim_intros]:
  "ok s \<Longrightarrow> sim ok img (clear_inodes bs is s) (clear_inodes img_store is (img s))"
proof (induction "is" arbitrary: s)
  case Nil
  then show ?case by (simp add: sim_Some)
next
  case (Cons i "is")
  then show ?case unfolding clear_inodes.simps img_store_simps by (intro sim_intros refl)
qed

lemma treedisk_create_sim:
  "ok s \<Longrightarrow> sim ok img (treedisk_create bs s n) (treedisk_create img_store (img s) n)"
  unfolding treedisk_create_def setup_freelist_def img_store_simps Let_def by (intro sim_intros refl)

end

section \<open>Files over any store\<close>

definition tree_ok :: "('s \<Rightarrow> bool) \<Rightarrow> ('s \<Rightarrow> block list) \<Rightarrow> 's \<Rightarrow> bool" where
  "tree_ok ok img s \<longleftrightarrow> ok s \<and> (\<exists>F. fs_wf (img s) F)"

definition tree_files :: "('s \<Rightarrow> block list) \<Rightarrow> 's \<Rightarrow> u32 file_view" where
  "tree_files img s ino = (if unat ino < n_inodes_of (img s)
     then Some (unat (f_size (img s) (unat ino)), f_data (img s) (unat ino)) else None)"

text \<open>\<open>treedisk_setsize(this_bs, 0)\<close>, for files whose release ends.\<close>

definition tree_trunc :: "'s block_store_t \<Rightarrow> 's \<Rightarrow> u32 \<Rightarrow> (int \<times> 's) option" where
  "tree_trunc below s ino = treedisk_setsize below ino s 0"

definition tree_rd :: "'s block_store_t \<Rightarrow> 's \<Rightarrow> u32 \<Rightarrow> block_no \<Rightarrow> (block option \<times> 's) option" where
  "tree_rd below s ino off = treedisk_read below ino s off"

definition tree_wr :: "'s block_store_t \<Rightarrow> 's \<Rightarrow> u32 \<Rightarrow> block_no \<Rightarrow> block \<Rightarrow> (int \<times> 's) option" where
  "tree_wr below s ino off b = treedisk_write below ino s off b"

lemma unat_max_extend: "off \<noteq> - 1 \<Longrightarrow> unat (max n (off + 1)) = max (unat n) (Suc (unat off))" for off :: u32
proof -
  assume "off \<noteq> - 1"
  then have "unat off < unat (off + 1)"
    using max_extend(3) [of off 0] by (simp add: word_less_nat_alt max_def word_le_nat_alt split: if_splits)
  moreover have "unat (off + 1) \<le> Suc (unat off)" by (simp add: unat_word_ariths)
  ultimately have "unat (off + 1) = Suc (unat off)" by simp
  then show ?thesis by (simp add: max_def word_le_nat_alt)
qed

lemma tree_files_update:
  assumes "others_same (unat ino) (img s) (img s')" "unat ino < n_inodes_of (img s)"
  shows "tree_files img s' =
    (tree_files img s)(ino \<mapsto> (unat (f_size (img s') (unat ino)), f_data (img s') (unat ino)))"
proof
  fix j
  show "tree_files img s' j =
      ((tree_files img s)(ino \<mapsto> (unat (f_size (img s') (unat ino)), f_data (img s') (unat ino)))) j"
    using assms by (cases "j = ino") (auto simp: tree_files_def others_same_def unat32_inject)
qed

locale treedisk_on = block_store
begin

lemma tree_write:
  assumes "ok s" "fs_wf (img s) F" "unat ino < n_inodes_of (img s)" "off \<noteq> - 1"
  shows "(treedisk_write bs ino s off b = None \<and> size F \<le> 8) \<or>
    (\<exists>s' F'. treedisk_write bs ino s off b = Some (0, s') \<and> ok s' \<and> fs_wf (img s') F' \<and>
       f_size (img s') (unat ino) = max (f_size (img s) (unat ino)) (off + 1) \<and>
       f_data (img s') (unat ino) = (f_data (img s) (unat ino))(off := b) \<and>
       others_same (unat ino) (img s) (img s') \<and>
       all_blocks (img s') + F' = all_blocks (img s) + F)"
  using treedisk_write_img [OF assms(2-4), of b] treedisk_write_sim [OF assms(1), of ino off b]
  by (auto dest!: sim_NoneD sim_SomeD)

lemma tree_read:
  assumes "ok s" "fs_wf (img s) F"
  shows "\<exists>s'. treedisk_read bs ino s off =
      Some (if unat ino < n_inodes_of (img s) \<and> off < f_size (img s) (unat ino)
            then Some (f_data (img s) (unat ino) off) else None, s') \<and> ok s' \<and> img s' = img s"
  using treedisk_read_img [OF assms(2), of ino off] treedisk_read_sim [OF assms(1), of ino off]
  by (auto dest!: sim_SomeD simp del: not_less)

lemma tree_setsize:
  assumes "ok s" "fs_wf (img s) F" "unat ino < n_inodes_of (img s)"
    and "unat (f_size (img s) (unat ino)) \<le> 2 ^ 24"
  shows "\<exists>s' F'. treedisk_setsize bs ino s 0 = Some (0, s') \<and> ok s' \<and> fs_wf (img s') F' \<and>
    f_size (img s') (unat ino) = 0 \<and> (\<forall>off. f_data (img s') (unat ino) off = null_block) \<and>
    others_same (unat ino) (img s) (img s') \<and> F' = f_blocks (img s) (unat ino) + F"
  using treedisk_setsize_img [OF assms(2-4)] treedisk_setsize_sim [OF assms(1), of ino 0]
  by (auto dest!: sim_SomeD)

lemma tree_setsize_stuck:
  assumes "ok s" "fs_wf (img s) F" "unat ino < n_inodes_of (img s)"
    and "2 ^ 24 < unat (f_size (img s) (unat ino))"
  shows "treedisk_setsize bs ino s 0 = None"
  using treedisk_setsize_stuck [OF assms(2-4)] treedisk_setsize_sim [OF assms(1), of ino 0]
  by (auto dest: sim_NoneD)

lemma tree_create:
  assumes "ok s" "inode_blocks_for n + 2 \<le> length (img s)" "super_n_inodeblocks (img s ! 0) = 0"
  shows "\<exists>s'. treedisk_create bs s n = Some (0, s') \<and> ok s' \<and> length (img s') = length (img s) \<and>
    fs_wf (img s') (rng (inode_blocks_for n + 1) (length (img s))) \<and>
    n_inodes_of (img s') = 128 * inode_blocks_for n \<and> (\<forall>i<n_inodes_of (img s'). f_size (img s') i = 0)"
  using create_blank_img [OF img_small [OF assms(1)] assms(2,3)] treedisk_create_sim [OF assms(1), of n]
  by (auto dest!: sim_SomeD)

end

sublocale treedisk_on \<subseteq> tree: inode_store "tree_rd bs" "tree_wr bs" "tree_trunc bs"
    "tree_ok ok img" "tree_files img"
proof (unfold_locales, goal_cases)
  case (1 s ino n d off res s')
  then obtain F where s: "ok s" "fs_wf (img s) F" by (auto simp: tree_ok_def)
  with tree_read [OF this, of ino off] 1 show ?case
    by (auto simp: tree_ok_def tree_files_def tree_rd_def word_less_nat_alt fun_eq_iff split: if_splits)
next
  case (2 s ino n d off)
  then obtain F where "ok s" "fs_wf (img s) F" by (auto simp: tree_ok_def)
  with tree_read [OF this, of ino off] show ?case by (auto simp: tree_rd_def)
next
  case (3 s ino n d off b r s')
  then obtain F where s: "ok s" "fs_wf (img s) F" by (auto simp: tree_ok_def)
  have i: "unat ino < n_inodes_of (img s)" "n = unat (f_size (img s) (unat ino))" "d = f_data (img s) (unat ino)"
    using 3(2) by (auto simp: tree_files_def split: if_splits)
  from tree_write [OF s i(1) 3(3), of b] 3(4) obtain F' where w: "r = 0" "ok s'" "fs_wf (img s') F'"
    "f_size (img s') (unat ino) = max (f_size (img s) (unat ino)) (off + 1)"
    "f_data (img s') (unat ino) = (f_data (img s) (unat ino))(off := b)"
    "others_same (unat ino) (img s) (img s')" by (auto simp: tree_wr_def)
  then show ?case
    using tree_files_update [of ino img, OF w(6) i(1)] unat_max_extend [OF 3(3)] i(2,3)
    by (auto simp: tree_ok_def)
next
  case (4 s ino n d r s')
  then obtain F where s: "ok s" "fs_wf (img s) F" by (auto simp: tree_ok_def)
  have i: "unat ino < n_inodes_of (img s)" using 4(2) by (auto simp: tree_files_def split: if_splits)
  have small: "unat (f_size (img s) (unat ino)) \<le> 2 ^ 24"
    using tree_setsize_stuck [OF s i] 4(3) by (cases "2 ^ 24 < unat (f_size (img s) (unat ino))") (auto simp: tree_trunc_def)
  from tree_setsize [OF s i small] 4(3) obtain F' where w: "r = 0" "ok s'" "fs_wf (img s') F'"
    "f_size (img s') (unat ino) = 0" "\<forall>off. f_data (img s') (unat ino) off = null_block"
    "others_same (unat ino) (img s) (img s')" by (auto simp: tree_trunc_def)
  then show ?case
    using tree_files_update [of ino img, OF w(6) i] by (auto simp: tree_ok_def fun_eq_iff)
qed

interpretation ram_tree: treedisk_on ramdisk_store ramdisk_ok ramdisk_img
  by unfold_locales

text \<open>The stack of the kernel's block server: files on a cache over a partition of the disk.\<close>

interpretation part_tree: treedisk_on "clockdisk_store (partdisk_store ramdisk_store)"
    "clock_ok (part_ok ramdisk_ok ramdisk_img) (part_img ramdisk_img)" "clock_img (part_img ramdisk_img)"
  by unfold_locales

section \<open>Properties\<close>

lemma treedisk_on_intro: "block_store below ok img \<Longrightarrow> treedisk_on below ok img"
  by (simp add: treedisk_on_def)

text \<open>A file system of 128 files with 18 free blocks on a RAM disk, for the witnesses.\<close>

definition ram20 :: ramdisk_state where
  "ram20 = ramdisk_init (replicate 20 0) 20"

lemma ram20:
  "ramdisk_ok ram20" "ramdisk_img ram20 = replicate 20 0" "inode_blocks_for 1 = 1"
  "super_n_inodeblocks 0 = 0"
  by (simp_all add: ram20_def inode_blocks_for_def super_n_inodeblocks_def rd32_def)

lemma ram20_created:
  "\<exists>s. treedisk_create ramdisk_store ram20 1 = Some (0, s) \<and> ramdisk_ok s \<and>
     fs_wf (ramdisk_img s) (rng 2 20) \<and> n_inodes_of (ramdisk_img s) = 128 \<and>
     (\<forall>i<128. f_size (ramdisk_img s) i = 0)"
  using ram_tree.tree_create [OF ram20(1), of 1] unfolding ram20 by (auto simp: ram20 simp del: One_nat_def)

text \<open>C3: Creating a file system on a blank disk that is large enough succeeds and establishes the
  invariant: the superblock, the inode blocks and the free list partition the disk, all blocks
  after the inode blocks are free, there are at least the requested number of inodes and every
  file is empty.\<close>
theorem treedisk_create_wf:
  assumes "block_store below ok img" "ok s"
    and "inode_blocks_for n + 2 \<le> length (img s)" "super_n_inodeblocks (img s ! 0) = 0"
  shows "\<exists>s'. treedisk_create below s n = Some (0, s') \<and> ok s' \<and> length (img s') = length (img s) \<and>
    fs_wf (img s') (rng (inode_blocks_for n + 1) (length (img s))) \<and>
    unat n \<le> n_inodes_of (img s') \<and> (\<forall>i<n_inodes_of (img s'). f_size (img s') i = 0)"
proof -
  from treedisk_on.tree_create [OF treedisk_on_intro [OF assms(1)] assms(2-4)] inode_blocks_for_bounds(3) [of n]
  show ?thesis by auto
qed

theorem treedisk_create_wf_witness:
  "\<exists>s. treedisk_create ramdisk_store ram20 1 = Some (0, s) \<and> fs_wf (ramdisk_img s) (rng 2 20)"
  using treedisk_create_wf [OF ram.block_store_axioms ram20(1), of 1] unfolding ram20
  by (auto simp: ram20 simp del: One_nat_def)

text \<open>C4: A write to a file of a well-formed tree file system, at any offset but the last
  representable one, stores the block: afterwards the file has the block at that offset and its
  old contents (holes as null blocks) at all others, its size is extended to the offset if need be,
  every other file is unchanged and the file system is well formed again, with no block lost or
  used twice. It stops only for lack of space, when at most 8 blocks are free.\<close>
theorem treedisk_write_correct:
  assumes "block_store below ok img" "ok s" "fs_wf (img s) F"
    and "unat ino < n_inodes_of (img s)" "off \<noteq> - 1"
  shows "(treedisk_write below ino s off b = None \<and> size F \<le> 8) \<or>
    (\<exists>s' F'. treedisk_write below ino s off b = Some (0, s') \<and> ok s' \<and> fs_wf (img s') F' \<and>
       f_size (img s') (unat ino) = max (f_size (img s) (unat ino)) (off + 1) \<and>
       f_data (img s') (unat ino) = (f_data (img s) (unat ino))(off := b) \<and>
       others_same (unat ino) (img s) (img s') \<and>
       all_blocks (img s') + F' = all_blocks (img s) + F)"
  by (rule treedisk_on.tree_write [OF treedisk_on_intro [OF assms(1)] assms(2-5)])

theorem treedisk_write_correct_witness:
  "\<exists>s s'. treedisk_create ramdisk_store ram20 1 = Some (0, s) \<and>
     treedisk_write ramdisk_store 3 s 70000 7 = Some (0, s') \<and>
     f_size (ramdisk_img s') 3 = 70001 \<and> f_data (ramdisk_img s') 3 70000 = 7"
proof -
  obtain s where s: "treedisk_create ramdisk_store ram20 1 = Some (0, s)" "ramdisk_ok s"
    "fs_wf (ramdisk_img s) (rng 2 20)" "n_inodes_of (ramdisk_img s) = 128" "\<forall>i<128. f_size (ramdisk_img s) i = 0"
    using ram20_created by blast
  then show ?thesis
    using treedisk_write_correct [OF ram.block_store_axioms s(2,3), of 3 70000 7] by (auto simp: rng_size)
qed

text \<open>C5: Reading a file of a well-formed tree file system returns the block at the offset when the
  offset is within the file, and fails for other offsets and for inode numbers that do not exist;
  the disk is unchanged and the walk down the tree never fails.\<close>
theorem treedisk_read_correct:
  assumes "block_store below ok img" "ok s" "fs_wf (img s) F"
  shows "\<exists>s'. treedisk_read below ino s off =
      Some (if unat ino < n_inodes_of (img s) \<and> off < f_size (img s) (unat ino)
            then Some (f_data (img s) (unat ino) off) else None, s') \<and> ok s' \<and> img s' = img s"
  by (rule treedisk_on.tree_read [OF treedisk_on_intro [OF assms(1)] assms(2,3)])

theorem treedisk_read_correct_witness:
  "\<exists>s s'. treedisk_create ramdisk_store ram20 1 = Some (0, s) \<and>
     treedisk_read ramdisk_store 3 s 0 = Some (None, s')"
proof -
  obtain s where s: "treedisk_create ramdisk_store ram20 1 = Some (0, s)" "ramdisk_ok s"
    "fs_wf (ramdisk_img s) (rng 2 20)" "n_inodes_of (ramdisk_img s) = 128" "\<forall>i<128. f_size (ramdisk_img s) i = 0"
    using ram20_created by blast
  then show ?thesis
    using treedisk_read_correct [OF ram.block_store_axioms s(2,3), of 3 0] by (auto simp: rng_size)
qed

text \<open>C6: Truncating a file of at most \<open>2 ^ 24\<close> blocks empties it, returns exactly the blocks of its
  tree to the free list and leaves every other file as it was.\<close>
theorem treedisk_setsize_frees:
  assumes "block_store below ok img" "ok s" "fs_wf (img s) F" "unat ino < n_inodes_of (img s)"
    and "unat (f_size (img s) (unat ino)) \<le> 2 ^ 24"
  shows "\<exists>s' F'. treedisk_setsize below ino s 0 = Some (0, s') \<and> ok s' \<and> fs_wf (img s') F' \<and>
    f_size (img s') (unat ino) = 0 \<and> (\<forall>off. f_data (img s') (unat ino) off = null_block) \<and>
    others_same (unat ino) (img s) (img s') \<and> F' = f_blocks (img s) (unat ino) + F"
  by (rule treedisk_on.tree_setsize [OF treedisk_on_intro [OF assms(1)] assms(2-5)])

theorem treedisk_setsize_frees_witness:
  "\<exists>s s1 s'. treedisk_create ramdisk_store ram20 1 = Some (0, s) \<and>
     treedisk_write ramdisk_store 3 s 70000 7 = Some (0, s1) \<and>
     treedisk_setsize ramdisk_store 3 s1 0 = Some (0, s') \<and> f_size (ramdisk_img s') 3 = 0"
proof -
  obtain s where s: "treedisk_create ramdisk_store ram20 1 = Some (0, s)" "ramdisk_ok s"
    "fs_wf (ramdisk_img s) (rng 2 20)" "n_inodes_of (ramdisk_img s) = 128" "\<forall>i<128. f_size (ramdisk_img s) i = 0"
    using ram20_created by blast
  obtain s1 F1 where s1: "treedisk_write ramdisk_store 3 s 70000 7 = Some (0, s1)" "ramdisk_ok s1"
    "fs_wf (ramdisk_img s1) F1" "f_size (ramdisk_img s1) 3 = 70001" "n_inodes_of (ramdisk_img s1) = 128"
    using ram_tree.tree_write [OF s(2,3), of 3 70000 7] s(4,5) by (auto simp: rng_size others_same_def)
  then show ?thesis
    using treedisk_setsize_frees [OF ram.block_store_axioms s1(2,3), of 3] s(1) by auto
qed

text \<open>C7: Truncating a file of more than \<open>2 ^ 24\<close> blocks never returns, although such files can be
  written: the capacity computed in \<open>treedisk_free_file\<close> wraps to 0 and its loop does not end.\<close>
theorem treedisk_setsize_diverges:
  assumes "block_store below ok img" "ok s" "fs_wf (img s) F" "unat ino < n_inodes_of (img s)"
    and "2 ^ 24 < unat (f_size (img s) (unat ino))"
  shows "treedisk_setsize below ino s 0 = None"
  by (rule treedisk_on.tree_setsize_stuck [OF treedisk_on_intro [OF assms(1)] assms(2-5)])

theorem treedisk_setsize_diverges_witness:
  "\<exists>s s1. treedisk_create ramdisk_store ram20 1 = Some (0, s) \<and>
     treedisk_write ramdisk_store 3 s 16777216 7 = Some (0, s1) \<and>
     treedisk_setsize ramdisk_store 3 s1 0 = None"
proof -
  obtain s where s: "treedisk_create ramdisk_store ram20 1 = Some (0, s)" "ramdisk_ok s"
    "fs_wf (ramdisk_img s) (rng 2 20)" "n_inodes_of (ramdisk_img s) = 128" "\<forall>i<128. f_size (ramdisk_img s) i = 0"
    using ram20_created by blast
  obtain s1 F1 where s1: "treedisk_write ramdisk_store 3 s 16777216 7 = Some (0, s1)" "ramdisk_ok s1"
    "fs_wf (ramdisk_img s1) F1" "f_size (ramdisk_img s1) 3 = 16777217" "n_inodes_of (ramdisk_img s1) = 128"
    using ram_tree.tree_write [OF s(2,3), of 3 16777216 7] s(4,5) by (auto simp: rng_size others_same_def)
  then show ?thesis
    using treedisk_setsize_diverges [OF ram.block_store_axioms s1(2,3), of 3] s(1) by auto
qed

text \<open>A file written block by block through the tree file system, over a cache on a partition of
  the disk (the stack the kernel builds), reads back as it was written.\<close>
theorem treedisk_stack_roundtrip:
  assumes "tree_ok (clock_ok (part_ok ramdisk_ok ramdisk_img) (part_img ramdisk_img)) (clock_img (part_img ramdisk_img)) s"
    and "tree_files (clock_img (part_img ramdisk_img)) s ino = Some (n, d)"
    and "off + length bs < 4294967296"
    and "put_blocks (tree_wr (clockdisk_store (partdisk_store ramdisk_store))) ino off bs s = Some s'"
  shows "\<exists>s''. get_blocks (tree_rd (clockdisk_store (partdisk_store ramdisk_store))) ino off (length bs) s' =
    Some (map Some bs, s'')"
  by (rule part_tree.tree.put_get_blocks [OF assms])

theorem treedisk_stack_roundtrip_witness:
  "\<exists>s s' s''. put_blocks (tree_wr (clockdisk_store (partdisk_store ramdisk_store))) 3 300 [7] s = Some s' \<and>
     get_blocks (tree_rd (clockdisk_store (partdisk_store ramdisk_store))) 3 300 1 s' = Some ([Some 7], s'')"
proof -
  let ?s = "(clockdisk_init [0, 0] 2, partdisk_init 1 20, ramdisk_init (replicate 22 0) 22)"
  let ?img = "clock_img (part_img ramdisk_img)" and ?bs = "clockdisk_store (partdisk_store ramdisk_store)"
    and ?ok = "clock_ok (part_ok ramdisk_ok ramdisk_img) (part_img ramdisk_img)"
  have img: "?img ?s = replicate 20 0" by (simp add: part_img_def partdisk_init_def)
  have ok: "?ok ?s" by (simp add: part_ok_def partdisk_init_def clock_init_wf clock_init_coherent)
  obtain s where s: "?ok s" "fs_wf (?img s) (rng 2 20)" "n_inodes_of (?img s) = 128"
    using part_tree.tree_create [OF ok, of 1] unfolding img ram20(3)
    by (auto simp: ram20 simp del: One_nat_def)
  then have "tree_ok ?ok ?img s" by (auto simp: tree_ok_def)
  moreover obtain n d where "tree_files ?img s 3 = Some (n, d)" using s(3) by (simp add: tree_files_def)
  moreover obtain s' where p: "put_blocks (tree_wr ?bs) 3 300 [7] s = Some s'"
    using part_tree.tree_write [OF s(1,2), of 3 300 7] s(3) by (auto simp: tree_wr_def rng_size)
  ultimately have "\<exists>s''. get_blocks (tree_rd ?bs) 3 300 (length [7 :: block]) s' = Some (map Some [7], s'')"
    by (intro treedisk_stack_roundtrip [of s 3 n d 300 "[7]" s']) simp_all
  then have "\<exists>s''. get_blocks (tree_rd ?bs) 3 300 1 s' = Some ([Some 7], s'')"
    by (simp del: get_blocks.simps)
  with p show ?thesis by blast
qed

end
