(* ===== verification/TreeDiskChk.thy ===== *)
theory TreeDiskChk
  imports TreeDiskStore
begin

text \<open>
  The checker of tree file systems (\<open>egos/grass/block/treedisk_chk.c\<close>): it marks every block that it finds
  in use, and fails when a block is outside the disk or marked already. The code ignores the results of
  its reads; \<open>junk\<close> is what a buffer holds whose read has failed. \<open>binfo\<close> has one mark for each block of the disk.
\<close>

section \<open>The checker\<close>

datatype chk_status = BI_UNKNOWN | BI_SUPER | BI_INODE | BI_INDIR | BI_DATA | BI_FREELIST | BI_FREE

type_synonym binfo = "chk_status list"

definition chk_read :: "'s block_store_t \<Rightarrow> block \<Rightarrow> block_no \<Rightarrow> 's \<Rightarrow> (block \<times> 's) option" where
  "chk_read below junk off s = do {
     (r, s) \<leftarrow> bs_read below s off;
     Some (case r of None \<Rightarrow> junk | Some b \<Rightarrow> b, s) }"

text \<open>The loop over the references of an indirect block, given the check of the next level.\<close>

fun check_refs :: "(block_no \<Rightarrow> block_no \<Rightarrow> binfo \<Rightarrow> 's \<Rightarrow> (bool \<times> binfo \<times> 's) option) \<Rightarrow> block \<Rightarrow> block_no \<Rightarrow> block_no \<Rightarrow>
    nat list \<Rightarrow> block_no \<Rightarrow> binfo \<Rightarrow> 's \<Rightarrow> (bool \<times> binfo \<times> 's) option" where
  "check_refs f ib sz nblocks [] offset binfo s = Some (True, binfo, s)"
| "check_refs f ib sz nblocks (i # is) offset binfo s = do {
     (ok, binfo, s) \<leftarrow> f (rd32 ib i) offset binfo s;
     (if \<not> ok then Some (False, binfo, s)
      else if offset + sz \<ge> nblocks then Some (True, binfo, s)
      else check_refs f ib sz nblocks is (offset + sz) binfo s) }"

fun check_inode :: "'s block_store_t \<Rightarrow> block \<Rightarrow> block_no \<Rightarrow> block_no \<Rightarrow> nat \<Rightarrow> block_no \<Rightarrow> block_no \<Rightarrow> binfo \<Rightarrow> 's \<Rightarrow>
    (bool \<times> binfo \<times> 's) option" where
  "check_inode below junk nblocks fs_nblocks 0 node offset binfo s =
     (if node = 0 then Some (True, binfo, s)
      else if node \<ge> fs_nblocks then Some (False, binfo, s)
      else if binfo ! unat node \<noteq> BI_UNKNOWN then Some (False, binfo, s)
      else Some (True, binfo[unat node := BI_DATA], s))"
| "check_inode below junk nblocks fs_nblocks (Suc n) node offset binfo s =
     (if node = 0 then Some (True, binfo, s)
      else if node \<ge> fs_nblocks then Some (False, binfo, s)
      else if binfo ! unat node \<noteq> BI_UNKNOWN then Some (False, binfo, s)
      else do {
        (ib, s) \<leftarrow> chk_read below junk node s;
        check_refs (check_inode below junk nblocks fs_nblocks n) ib (push_bit (n * log_rpb) 1) nblocks [0..<REFS_PER_BLOCK]
          offset (binfo[unat node := BI_INDIR]) s })"

text \<open>The inodes of an inode block, and the inode blocks.\<close>

fun check_inodes :: "'s block_store_t \<Rightarrow> block \<Rightarrow> block_no \<Rightarrow> block \<Rightarrow> nat list \<Rightarrow> binfo \<Rightarrow> 's \<Rightarrow> (bool \<times> binfo \<times> 's) option" where
  "check_inodes below junk fs_nblocks tib [] binfo s = Some (True, binfo, s)"
| "check_inodes below junk fs_nblocks tib (i # is) binfo s =
     (if inode_nblocks tib i = 0 then check_inodes below junk fs_nblocks tib is binfo s
      else do {
        (ok, binfo, s) \<leftarrow> check_inode below junk (inode_nblocks tib i) fs_nblocks (count_levels (inode_nblocks tib i - 1) 0)
          (inode_root tib i) 0 binfo s;
        (if ok then check_inodes below junk fs_nblocks tib is binfo s else Some (False, binfo, s)) })"

fun check_inodeblocks :: "'s block_store_t \<Rightarrow> block \<Rightarrow> block_no \<Rightarrow> nat list \<Rightarrow> binfo \<Rightarrow> 's \<Rightarrow> (bool \<times> binfo \<times> 's) option" where
  "check_inodeblocks below junk fs_nblocks [] binfo s = Some (True, binfo, s)"
| "check_inodeblocks below junk fs_nblocks (b # bs) binfo s = do {
     (tib, s) \<leftarrow> chk_read below junk (of_nat b) s;
     (ok, binfo, s) \<leftarrow> check_inodes below junk fs_nblocks tib [0..<INODES_PER_BLOCK] binfo s;
     (if ok then check_inodeblocks below junk fs_nblocks bs binfo s else Some (False, binfo, s)) }"

fun check_slots :: "block_no \<Rightarrow> block \<Rightarrow> nat list \<Rightarrow> binfo \<Rightarrow> bool \<times> binfo" where
  "check_slots fs_nblocks tfb [] binfo = (True, binfo)"
| "check_slots fs_nblocks tfb (i # is) binfo =
     (if rd32 tfb i = 0 \<or> rd32 tfb i \<ge> fs_nblocks then check_slots fs_nblocks tfb is binfo
      else if binfo ! unat (rd32 tfb i) \<noteq> BI_UNKNOWN then (False, binfo)
      else check_slots fs_nblocks tfb is (binfo[unat (rd32 tfb i) := BI_FREE]))"

partial_function (option) check_freelist :: "'s block_store_t \<Rightarrow> block \<Rightarrow> block_no \<Rightarrow> block_no \<Rightarrow> binfo \<Rightarrow> 's \<Rightarrow>
    (bool \<times> binfo \<times> 's) option" where
  "check_freelist below junk fs_nblocks fl binfo s =
     (if fl = 0 then Some (True, binfo, s)
      else if fl \<ge> fs_nblocks then Some (False, binfo, s)
      else if binfo ! unat fl \<noteq> BI_UNKNOWN then Some (False, binfo, s)
      else do {
        (tfb, s) \<leftarrow> chk_read below junk fl s;
        let (ok, binfo) = check_slots fs_nblocks tfb [1..<REFS_PER_BLOCK] (binfo[unat fl := BI_FREELIST]);
        (if ok then check_freelist below junk fs_nblocks (rd32 tfb 0) binfo s else Some (False, binfo, s)) })"

text \<open>The marks of the superblock and the inode blocks; \<open>None\<close>: a mark behind the end of \<open>binfo\<close>.\<close>

definition mark_inodeblocks :: "nat \<Rightarrow> nat \<Rightarrow> binfo option" where
  "mark_inodeblocks fs n = (if n < fs then Some (map (\<lambda>b. if b = 0 then BI_SUPER else if b \<le> n then BI_INODE else BI_UNKNOWN) [0..<fs]) else None)"

text \<open>The result, and the first block that is not accounted for, which the checker reports.\<close>

definition treedisk_check :: "'s block_store_t \<Rightarrow> block \<Rightarrow> 's \<Rightarrow> ((bool \<times> nat option) \<times> 's) option" where
  "treedisk_check below junk s = do {
     (n, s) \<leftarrow> bs_nblocks below s;
     let fs_nblocks = (of_int n :: u32);
     if fs_nblocks = 0 then Some ((False, None), s)
     else do {
       (superblock, s) \<leftarrow> chk_read below junk 0 s;
       if 1 + super_n_inodeblocks superblock > fs_nblocks then Some ((False, None), s)
       else if super_free_list superblock \<ge> fs_nblocks then Some ((False, None), s)
       else do {
         binfo \<leftarrow> mark_inodeblocks (unat fs_nblocks) (unat (super_n_inodeblocks superblock));
         (ok, binfo, s) \<leftarrow> check_inodeblocks below junk fs_nblocks [1..<Suc (unat (super_n_inodeblocks superblock))] binfo s;
         if \<not> ok then Some ((False, None), s)
         else do {
           (ok, binfo, s) \<leftarrow> check_freelist below junk fs_nblocks (super_free_list superblock) binfo s;
           Some (if ok then (True, List.find (\<lambda>b. binfo ! b = BI_UNKNOWN) [0..<unat fs_nblocks]) else (False, None), s) } } } }"

section \<open>What a check marks\<close>

definition unknown :: "binfo \<Rightarrow> u32 set" where
  "unknown bi = {x. unat x < length bi \<and> bi ! unat x = BI_UNKNOWN}"

text \<open>\<open>fits U M\<close>: the blocks \<open>M\<close> are distinct and not yet marked.\<close>

definition fits :: "u32 set \<Rightarrow> u32 multiset \<Rightarrow> bool" where
  "fits U M \<longleftrightarrow> ndup M \<and> set_mset M \<subseteq> U"

lemma ndup_plus: "ndup (M + N) \<longleftrightarrow> ndup M \<and> ndup N \<and> set_mset M \<inter> set_mset N = {}"
proof
  assume "ndup (M + N)"
  then show "ndup M \<and> ndup N \<and> set_mset M \<inter> set_mset N = {}"
    using ndup_left [of M N] ndup_right [of M N] ndup_disjoint [of M N] by blast
next
  assume d: "ndup M \<and> ndup N \<and> set_mset M \<inter> set_mset N = {}"
  have "count (M + N) x \<le> 1" for x
  proof (cases "x \<in># M")
    case True
    then have "x \<notin># N" using d by auto
    then show ?thesis using d by (simp add: ndup_def not_in_iff)
  next
    case False
    then show ?thesis using d by (simp add: ndup_def not_in_iff)
  qed
  then show "ndup (M + N)" by (simp add: ndup_def)
qed

lemma fits_plus: "fits U (M + N) \<longleftrightarrow> fits U M \<and> fits (U - set_mset M) N"
  by (auto simp: fits_def ndup_plus)

lemma fits_empty [simp]: "fits U {#}"
  by (simp add: fits_def ndup_def)

lemma fits_single: "fits U {#x#} \<longleftrightarrow> x \<in> U"
  by (simp add: fits_def ndup_def)

lemma fits_mono: "fits U N \<Longrightarrow> M \<subseteq># N \<Longrightarrow> fits U M"
  by (auto simp: fits_def intro: ndup_mono dest: mset_subset_eqD)

text \<open>\<open>checks bi M r bi'\<close>: the marks \<open>bi\<close> become \<open>bi'\<close> by a check of the blocks \<open>M\<close> with the result \<open>r\<close>.\<close>

definition checks :: "binfo \<Rightarrow> u32 multiset \<Rightarrow> bool \<Rightarrow> binfo \<Rightarrow> bool" where
  "checks bi M r bi' \<longleftrightarrow> length bi' = length bi \<and> (r \<longleftrightarrow> fits (unknown bi) M) \<and> (r \<longrightarrow> unknown bi' = unknown bi - set_mset M)"

lemma checks_none [simp]: "checks bi {#} True bi"
  by (simp add: checks_def)

lemma checks_trans: "checks bi M True bi1 \<Longrightarrow> checks bi1 N r bi2 \<Longrightarrow> checks bi (M + N) r bi2"
  by (auto simp: checks_def fits_plus)

lemma checks_stop: "checks bi M False bi' \<Longrightarrow> checks bi (M + N) False bi'"
  by (simp add: checks_def fits_plus)

lemma unknown_mark: "st \<noteq> BI_UNKNOWN \<Longrightarrow> unknown (bi[unat x := st]) = unknown bi - {x}"
  by (auto simp: unknown_def nth_list_update_if unat32_inject split: if_splits)

lemma checks_mark: "x \<in> unknown bi \<Longrightarrow> st \<noteq> BI_UNKNOWN \<Longrightarrow> checks bi {#x#} True (bi[unat x := st])"
  by (simp add: checks_def fits_single unknown_mark)

lemma checks_bad: "x \<notin> unknown bi \<Longrightarrow> checks bi {#x#} False bi"
  by (simp add: checks_def fits_single)

section \<open>The blocks that are visited\<close>

fun chk_refs :: "(block_no \<Rightarrow> block_no \<Rightarrow> u32 multiset) \<Rightarrow> block \<Rightarrow> block_no \<Rightarrow> block_no \<Rightarrow> nat list \<Rightarrow> block_no \<Rightarrow> u32 multiset" where
  "chk_refs f ib sz nblocks [] offset = {#}"
| "chk_refs f ib sz nblocks (i # is) offset = f (rd32 ib i) offset +
     (if offset + sz \<ge> nblocks then {#} else chk_refs f ib sz nblocks is (offset + sz))"

fun chk_tree :: "block list \<Rightarrow> block_no \<Rightarrow> nat \<Rightarrow> block_no \<Rightarrow> block_no \<Rightarrow> u32 multiset" where
  "chk_tree D nblocks 0 node offset = opt_ref node"
| "chk_tree D nblocks (Suc n) node offset = (if node = 0 then {#} else
     add_mset node (chk_refs (chk_tree D nblocks n) (D ! unat node) (push_bit (n * log_rpb) 1) nblocks [0..<REFS_PER_BLOCK] offset))"

lemma chk_refs_sub:
  assumes "\<And>r off. f r off \<subseteq># g r"
  shows "chk_refs f ib sz nb is off \<subseteq># (\<Sum>i\<leftarrow>is. g (rd32 ib i))"
proof (induction "is" arbitrary: off)
  case (Cons i "is")
  show ?case using assms [of "rd32 ib i" off] Cons [of "off + sz"] by (auto intro: subset_mset.add_mono simp: subset_mset.add_increasing2)
qed simp

lemma chk_tree_sub: "chk_tree D nb n node off \<subseteq># tree_mset D n node"
proof (induction n arbitrary: node off)
  case (Suc n)
  have "chk_refs (chk_tree D nb n) (D ! unat node) (push_bit (n * log_rpb) 1) nb [0..<REFS_PER_BLOCK] off \<subseteq>#
    (\<Sum>i\<leftarrow>[0..<256]. tree_mset D n (rd32 (D ! unat node) i))"
    using chk_refs_sub [of "chk_tree D nb n" "tree_mset D n"] Suc by simp
  also have "\<dots> = (\<Sum>i<256. tree_mset D n (rd32 (D ! unat node) i))"
    by (simp only: sum_set_upt_conv_sum_list_nat [symmetric] atLeast_upt)
  finally show ?case by (simp add: tree_mset.simps(2))
qed (simp add: tree_mset.simps(1))

text \<open>The visited part of the free list.\<close>

definition chk_slots :: "nat \<Rightarrow> block \<Rightarrow> nat list \<Rightarrow> u32 multiset" where
  "chk_slots len b is = (\<Sum>i\<leftarrow>is. if unat (rd32 b i) < len then opt_ref (rd32 b i) else {#})"

inductive chk_flist :: "block list \<Rightarrow> u32 \<Rightarrow> u32 multiset \<Rightarrow> bool" where
  chk_end: "chk_flist D 0 {#}"
| chk_block: "f \<noteq> 0 \<Longrightarrow> unat f < length D \<Longrightarrow> chk_flist D (rd32 (D ! unat f) 0) M \<Longrightarrow>
    chk_flist D f (add_mset f (chk_slots (length D) (D ! unat f) [1..<256] + M))"

lemma check_slots_ok:
  assumes "unat fs = length bi"
  shows "check_slots fs b is bi = (r, bi') \<Longrightarrow> checks bi (chk_slots (length bi) b is) r bi'"
  using assms
proof (induction "is" arbitrary: bi)
  case Nil
  then show ?case by (simp add: chk_slots_def)
next
  case (Cons i "is")
  let ?x = "rd32 b i"
  show ?case
  proof (cases "?x = 0 \<or> ?x \<ge> fs")
    case True
    then have "(if unat ?x < length bi then opt_ref ?x else {#}) = {#}"
      using Cons.prems(2) by (auto simp: opt_ref_def word_le_nat_alt)
    moreover have "checks bi (chk_slots (length bi) b is) r bi'" using True Cons.prems by (intro Cons.IH) simp_all
    ultimately show ?thesis by (simp add: chk_slots_def)
  next
    case False
    then have x: "unat ?x < length bi" "opt_ref ?x = {#?x#}" using Cons.prems(2) by (simp_all add: opt_ref_def word_le_nat_alt)
    show ?thesis
    proof (cases "bi ! unat ?x = BI_UNKNOWN")
      case True
      then have "check_slots fs b is (bi[unat ?x := BI_FREE]) = (r, bi')" using False Cons.prems(1) by simp
      from Cons.IH [OF this] Cons.prems(2) have "checks (bi[unat ?x := BI_FREE]) (chk_slots (length bi) b is) r bi'" by simp
      from checks_trans [OF checks_mark this] True x show ?thesis by (simp add: chk_slots_def unknown_def)
    next
      case bad: False
      then have "?x \<notin> unknown bi" by (simp add: unknown_def)
      from checks_stop [OF checks_bad [OF this]] bad False Cons.prems(1) x show ?thesis by (simp add: chk_slots_def)
    qed
  qed
qed

text \<open>The blocks of the files of an inode block.\<close>

definition chk_inodes :: "block list \<Rightarrow> block \<Rightarrow> nat list \<Rightarrow> u32 multiset" where
  "chk_inodes D tib is = (\<Sum>i\<leftarrow>is. if inode_nblocks tib i = 0 then {#}
     else chk_tree D (inode_nblocks tib i) (count_levels (inode_nblocks tib i - 1) 0) (inode_root tib i) 0)"

inductive_cases chk_flistE: "chk_flist D f F"

lemma chk_flist_nonzero: "f \<noteq> 0 \<Longrightarrow> chk_flist D f F \<Longrightarrow>
    \<exists>M. F = add_mset f (chk_slots (length D) (D ! unat f) [1..<256] + M) \<and> chk_flist D (rd32 (D ! unat f) 0) M"
  by (erule chk_flistE) auto

section \<open>The checker on a store\<close>

text \<open>A run that checks the blocks \<open>M\<close> of the disk \<open>D\<close> and leaves the disk alone.\<close>

definition run_checks :: "('s \<Rightarrow> bool) \<Rightarrow> ('s \<Rightarrow> block list) \<Rightarrow> block list \<Rightarrow> binfo \<Rightarrow> u32 multiset \<Rightarrow>
    (bool \<times> binfo \<times> 's) option \<Rightarrow> bool" where
  "run_checks ok img D bi M res \<longleftrightarrow> (\<exists>r bi' s'. res = Some (r, bi', s') \<and> ok s' \<and> img s' = D \<and> checks bi M r bi')"

lemma run_checksI: "ok s \<Longrightarrow> img s = D \<Longrightarrow> checks bi M r bi' \<Longrightarrow> run_checks ok img D bi M (Some (r, bi', s))"
  by (auto simp: run_checks_def)

lemma run_checks_bind:
  assumes "run_checks ok img D bi M res"
    and "\<And>bi' s'. ok s' \<Longrightarrow> img s' = D \<Longrightarrow> checks bi M True bi' \<Longrightarrow> run_checks ok img D bi' N (g bi' s')"
  shows "run_checks ok img D bi (M + N) (res \<bind> (\<lambda>(r, bi', s'). if r then g bi' s' else Some (False, bi', s')))"
proof -
  from assms(1) obtain r bi' s' where res: "res = Some (r, bi', s')" "ok s'" "img s' = D" "checks bi M r bi'"
    by (auto simp: run_checks_def)
  show ?thesis
  proof (cases r)
    case True
    with assms(2) [OF res(2,3), of bi'] res(4) have "run_checks ok img D bi' N (g bi' s')" by simp
    then obtain r2 bi2 s2 where
      "g bi' s' = Some (r2, bi2, s2)" "ok s2" "img s2 = D" "checks bi' N r2 bi2" unfolding run_checks_def by blast
    with True res checks_trans [of bi M bi' N r2 bi2] show ?thesis by (auto simp: run_checks_def)
  next
    case False
    with res checks_stop [of bi M bi' N] show ?thesis by (auto simp: run_checks_def)
  qed
qed

context block_store
begin

lemma chk_read_in:
  assumes "ok s" "unat off < length (img s)"
  shows "\<exists>s'. chk_read bs junk off s = Some (img s ! unat off, s') \<and> ok s' \<and> img s' = img s"
  using read_in [OF assms] by (auto simp: chk_read_def)

lemma check_refs_ok:
  assumes "\<And>node off bi s. ok s \<Longrightarrow> img s = D \<Longrightarrow> length bi = length D \<Longrightarrow> run_checks ok img D bi (g node off) (f node off bi s)"
  shows "ok s \<Longrightarrow> img s = D \<Longrightarrow> length bi = length D \<Longrightarrow>
    run_checks ok img D bi (chk_refs g ib sz nb is off) (check_refs f ib sz nb is off bi s)"
proof (induction "is" arbitrary: off bi s)
  case Nil
  then show ?case by (simp add: run_checksI)
next
  case (Cons i "is")
  note r = assms [OF Cons.prems, of "rd32 ib i" off]
  have flip: "check_refs f ib sz nb (i # is) off bi s = f (rd32 ib i) off bi s \<bind> (\<lambda>(r, bi', s'). if r then
      (if off + sz \<ge> nb then Some (True, bi', s') else check_refs f ib sz nb is (off + sz) bi' s') else Some (False, bi', s'))"
    by (auto intro!: arg_cong2 [of _ _ _ _ Option.bind])
  show ?case unfolding flip chk_refs.simps
  proof (rule run_checks_bind [OF r])
    fix bi' s' assume s': "ok s'" "img s' = D" "checks bi (g (rd32 ib i) off) True bi'"
    then have "length bi' = length D" using Cons.prems(3) by (simp add: checks_def)
    with Cons.IH [OF s'(1,2) this, of "off + sz"] s'
    show "run_checks ok img D bi' (if nb \<le> off + sz then {#} else chk_refs g ib sz nb is (off + sz))
      (if nb \<le> off + sz then Some (True, bi', s') else check_refs f ib sz nb is (off + sz) bi' s')"
      by (simp add: run_checksI)
  qed
qed

lemma check_inode_ok:
  assumes "unat fs = length D"
  shows "ok s \<Longrightarrow> img s = D \<Longrightarrow> length bi = length D \<Longrightarrow>
    run_checks ok img D bi (chk_tree D nb n node off) (check_inode bs junk nb fs n node off bi s)"
proof (induction n arbitrary: node off bi s)
  case 0
  show ?case
  proof (cases "node = 0")
    case True
    with 0 show ?thesis by (simp add: opt_ref_def run_checksI)
  next
    case False
    show ?thesis
    proof (cases "node \<in> unknown bi")
      case True
      with False 0 checks_mark [OF True, of BI_DATA] assms show ?thesis
        by (simp add: opt_ref_def run_checksI unknown_def word_le_nat_alt)
    next
      case bad: False
      with False 0 checks_bad [OF bad] assms show ?thesis
        by (auto simp add: opt_ref_def run_checksI unknown_def word_le_nat_alt)
    qed
  qed
next
  case (Suc n)
  show ?case
  proof (cases "node = 0")
    case True
    with Suc.prems show ?thesis by (simp add: run_checksI)
  next
    case False
    let ?M = "chk_refs (chk_tree D nb n) (D ! unat node) (push_bit (n * log_rpb) 1) nb [0..<REFS_PER_BLOCK] off"
    show ?thesis
    proof (cases "node \<in> unknown bi")
      case True
      then have x: "unat node < length D" "bi ! unat node = BI_UNKNOWN" "\<not> node \<ge> fs"
        using Suc.prems(3) assms by (simp_all add: unknown_def word_le_nat_alt)
      from chk_read_in [OF Suc.prems(1)] x(1) Suc.prems(2) obtain s1 where
        s1: "chk_read bs junk node s = Some (D ! unat node, s1)" "ok s1" "img s1 = D" by metis
      have "run_checks ok img D (bi[unat node := BI_INDIR]) ?M
        (check_refs (check_inode bs junk nb fs n) (D ! unat node) (push_bit (n * log_rpb) 1) nb [0..<REFS_PER_BLOCK] off (bi[unat node := BI_INDIR]) s1)"
        by (rule check_refs_ok [OF Suc.IH s1(2,3)]) (use Suc.prems(3) in simp_all)
      then obtain r bi' s' where r: "check_refs (check_inode bs junk nb fs n) (D ! unat node) (push_bit (n * log_rpb) 1) nb [0..<REFS_PER_BLOCK] off (bi[unat node := BI_INDIR]) s1 =
        Some (r, bi', s')" "ok s'" "img s' = D" "checks (bi[unat node := BI_INDIR]) ?M r bi'"
        unfolding run_checks_def by blast
      have c: "checks bi (chk_tree D nb (Suc n) node off) r bi'"
        using checks_trans [OF checks_mark [OF True] r(4)] False by simp
      have "check_inode bs junk nb fs (Suc n) node off bi s = Some (r, bi', s')"
        unfolding check_inode.simps using False x(2,3) s1(1) r(1) by simp
      with run_checksI [where ok = ok and img = img, OF r(2,3) c] show ?thesis by simp
    next
      case bad: False
      have "checks bi (chk_tree D nb (Suc n) node off) False bi"
        using checks_stop [OF checks_bad [OF bad], of ?M] False by simp
      moreover have "node \<ge> fs \<or> bi ! unat node \<noteq> BI_UNKNOWN"
        using bad Suc.prems(3) assms by (auto simp: unknown_def word_le_nat_alt)
      ultimately show ?thesis using False Suc.prems(1,2) by (auto simp: run_checksI simp del: chk_tree.simps)
    qed
  qed
qed

lemma check_inodes_ok:
  assumes "unat fs = length D"
  shows "ok s \<Longrightarrow> img s = D \<Longrightarrow> length bi = length D \<Longrightarrow>
    run_checks ok img D bi (chk_inodes D tib is) (check_inodes bs junk fs tib is bi s)"
proof (induction "is" arbitrary: bi s)
  case Nil
  then show ?case by (simp add: run_checksI chk_inodes_def)
next
  case (Cons i "is")
  show ?case
  proof (cases "inode_nblocks tib i = 0")
    case True
    with Cons.IH [OF Cons.prems] show ?thesis by (simp add: chk_inodes_def)
  next
    case False
    have "run_checks ok img D bi (chk_tree D (inode_nblocks tib i) (count_levels (inode_nblocks tib i - 1) 0) (inode_root tib i) 0 + chk_inodes D tib is)
      (check_inode bs junk (inode_nblocks tib i) fs (count_levels (inode_nblocks tib i - 1) 0) (inode_root tib i) 0 bi s \<bind>
        (\<lambda>(r, bi', s'). if r then check_inodes bs junk fs tib is bi' s' else Some (False, bi', s')))"
      by (rule run_checks_bind [OF check_inode_ok [OF assms Cons.prems]]) (use Cons.IH Cons.prems(3) in \<open>simp add: checks_def\<close>)
    with False show ?thesis by (simp add: chk_inodes_def)
  qed
qed

lemma check_inodeblocks_ok:
  assumes "unat fs = length D"
  shows "ok s \<Longrightarrow> img s = D \<Longrightarrow> length bi = length D \<Longrightarrow> \<forall>b\<in>set bs'. b < length D \<Longrightarrow>
    run_checks ok img D bi (\<Sum>b\<leftarrow>bs'. chk_inodes D (D ! b) [0..<INODES_PER_BLOCK]) (check_inodeblocks bs junk fs bs' bi s)"
proof (induction bs' arbitrary: bi s)
  case Nil
  then show ?case by (simp add: run_checksI)
next
  case (Cons b bs')
  have b: "b < length D" "unat (of_nat b :: u32) = b"
    using Cons.prems(2,4) img_small [OF Cons.prems(1)] by (auto intro: unat32_of_nat)
  with chk_read_in [OF Cons.prems(1), of "of_nat b"] Cons.prems(2) obtain s1 where
    s1: "chk_read bs junk (of_nat b) s = Some (D ! b, s1)" "ok s1" "img s1 = D" by auto
  have "run_checks ok img D bi (chk_inodes D (D ! b) [0..<INODES_PER_BLOCK] + (\<Sum>b\<leftarrow>bs'. chk_inodes D (D ! b) [0..<INODES_PER_BLOCK]))
    (check_inodes bs junk fs (D ! b) [0..<INODES_PER_BLOCK] bi s1 \<bind>
      (\<lambda>(r, bi', s'). if r then check_inodeblocks bs junk fs bs' bi' s' else Some (False, bi', s')))"
    by (rule run_checks_bind [OF check_inodes_ok [OF assms s1(2,3) Cons.prems(3)]]) (use Cons.IH Cons.prems(3,4) in \<open>simp add: checks_def\<close>)
  then show ?case by (simp add: s1(1))
qed

lemma check_freelist_ok:
  assumes "unat fs = length D"
  shows "ok s \<Longrightarrow> img s = D \<Longrightarrow> length bi = length D \<Longrightarrow>
    \<exists>r bi' s'. check_freelist bs junk fs fl bi s = Some (r, bi', s') \<and> ok s' \<and> img s' = D \<and> length bi' = length D \<and>
      (if r then \<exists>F. chk_flist D fl F \<and> checks bi F True bi' else \<forall>F. chk_flist D fl F \<longrightarrow> \<not> fits (unknown bi) F)"
proof (induction "card (unknown bi)" arbitrary: fl bi s rule: less_induct)
  case less
  show ?case
  proof (cases "fl = 0")
    case True
    then have "check_freelist bs junk fs fl bi s = Some (True, bi, s)" by (subst check_freelist.simps) simp
    moreover have "\<exists>F. chk_flist D fl F \<and> checks bi F True bi" using True chk_end checks_none by blast
    ultimately show ?thesis using less.prems by (intro exI [of _ True] exI [of _ bi] exI [of _ s]) simp
  next
    case False
    show ?thesis
    proof (cases "fl \<in> unknown bi")
      case bad: False
      have "fl \<ge> fs \<or> bi ! unat fl \<noteq> BI_UNKNOWN"
        using bad less.prems(3) assms by (auto simp: unknown_def word_le_nat_alt)
      then have "check_freelist bs junk fs fl bi s = Some (False, bi, s)" using False by (subst check_freelist.simps) auto
      moreover have "\<not> fits (unknown bi) F" if cf: "chk_flist D fl F" for F
        using chk_flist_nonzero [OF False cf] bad by (auto simp: fits_def)
      ultimately show ?thesis using less.prems by (intro exI [of _ False] exI [of _ bi] exI [of _ s]) simp
    next
      case True
      then have x: "unat fl < length D" "bi ! unat fl = BI_UNKNOWN" "\<not> fl \<ge> fs"
        using less.prems(3) assms by (simp_all add: unknown_def word_le_nat_alt)
      from chk_read_in [OF less.prems(1)] x(1) less.prems(2) obtain s1 where
        s1: "chk_read bs junk fl s = Some (D ! unat fl, s1)" "ok s1" "img s1 = D" by metis
      define bi1 where "bi1 = bi[unat fl := BI_FREELIST]"
      obtain r bi2 where r: "check_slots fs (D ! unat fl) [1..<REFS_PER_BLOCK] bi1 = (r, bi2)" by (cases "check_slots fs (D ! unat fl) [1..<REFS_PER_BLOCK] bi1")
      let ?S = "chk_slots (length D) (D ! unat fl) [1..<256]"
      have "checks bi1 ?S r bi2"
        using check_slots_ok [OF _ r] assms less.prems(3) by (simp add: bi1_def)
      with checks_trans [OF checks_mark [OF True, of BI_FREELIST]] have c: "checks bi (add_mset fl ?S) r bi2" by (simp add: bi1_def)
      show ?thesis
      proof (cases r)
        case no: False
        have "check_freelist bs junk fs fl bi s = Some (False, bi2, s1)"
          using False x(2,3) s1(1) r no by (subst check_freelist.simps) (simp add: bi1_def)
        moreover have "\<not> fits (unknown bi) F" if cf: "chk_flist D fl F" for F
        proof -
          obtain M where "F = add_mset fl ?S + M" using chk_flist_nonzero [OF False cf] by auto
          then show ?thesis using c no by (simp add: checks_def fits_plus del: union_mset_add_mset_left)
        qed
        moreover have "length bi2 = length D" using c less.prems(3) by (simp add: checks_def)
        ultimately show ?thesis using s1 by (intro exI [of _ False] exI [of _ bi2] exI [of _ s1]) simp
      next
        case yes: True
        have u: "unknown bi2 = unknown bi - set_mset (add_mset fl ?S)" "length bi2 = length D"
          using c yes less.prems(3) by (simp_all add: checks_def)
        have "unknown bi2 \<subset> unknown bi" using u(1) True by auto
        then have lt: "card (unknown bi2) < card (unknown bi)" by (intro psubset_card_mono) (auto intro: finite_subset [OF subset_UNIV])
        from less.hyps [OF lt s1(2,3) u(2), of "rd32 (D ! unat fl) 0"] obtain r3 bi3 s3 where
          r3: "check_freelist bs junk fs (rd32 (D ! unat fl) 0) bi2 s1 = Some (r3, bi3, s3)" "ok s3" "img s3 = D" "length bi3 = length D"
          "if r3 then \<exists>F. chk_flist D (rd32 (D ! unat fl) 0) F \<and> checks bi2 F True bi3
            else \<forall>F. chk_flist D (rd32 (D ! unat fl) 0) F \<longrightarrow> \<not> fits (unknown bi2) F" by blast
        have run: "check_freelist bs junk fs fl bi s = Some (r3, bi3, s3)"
          using False x(2,3) s1(1) r yes r3(1) by (subst check_freelist.simps) (simp add: bi1_def)
        show ?thesis
        proof (cases r3)
          case True
          then obtain M where M: "chk_flist D (rd32 (D ! unat fl) 0) M" "checks bi2 M True bi3" using r3(5) by auto
          have "chk_flist D fl (add_mset fl (?S + M))" by (rule chk_block [OF False x(1) M(1)])
          moreover have "checks bi (add_mset fl (?S + M)) True bi3" using checks_trans [of bi "add_mset fl ?S" bi2 M True bi3] c yes M(2) by simp
          ultimately have "\<exists>F. chk_flist D fl F \<and> checks bi F True bi3" by blast
          with run r3(2-4) True show ?thesis by (intro exI [of _ True] exI [of _ bi3] exI [of _ s3]) simp
        next
          case no: False
          have "\<not> fits (unknown bi) F" if cf: "chk_flist D fl F" for F
          proof -
            obtain M where "F = add_mset fl ?S + M" "chk_flist D (rd32 (D ! unat fl) 0) M" using chk_flist_nonzero [OF False cf] by auto
            then show ?thesis using r3(5) no u(1) by (simp add: fits_plus del: union_mset_add_mset_left set_mset_add_mset_insert)
          qed
          with run r3(2-4) no show ?thesis by (intro exI [of _ False] exI [of _ bi3] exI [of _ s3]) simp
        qed
      qed
    qed
  qed
qed

end

section \<open>A consistent disk\<close>

text \<open>The blocks of all files that the checker visits, and what it establishes.\<close>

definition visited :: "block list \<Rightarrow> u32 multiset" where
  "visited D = (\<Sum>b\<leftarrow>[1..<Suc (unat (super_n_inodeblocks (D ! 0)))]. chk_inodes D (D ! b) [0..<INODES_PER_BLOCK])"

definition consistent :: "block list \<Rightarrow> u32 multiset \<Rightarrow> bool" where
  "consistent D F \<longleftrightarrow> chk_flist D (super_free_list (D ! 0)) F \<and> ndup (visited D + F) \<and>
     (\<forall>x \<in># visited D + F. unat (super_n_inodeblocks (D ! 0)) < unat x \<and> unat x < length D)"

lemma chk_flist_unique: "chk_flist D f F \<Longrightarrow> chk_flist D f G \<Longrightarrow> F = G"
proof (induction arbitrary: G rule: chk_flist.induct)
  case (chk_end D)
  then show ?case by (auto elim: chk_flistE)
next
  case (chk_block f D M)
  from chk_flist_nonzero [OF chk_block.hyps(1) chk_block.prems] chk_block.IH show ?case by auto
qed

lemma unknown_start:
  assumes "mark_inodeblocks len n = Some bi"
  shows "unknown bi = {x. n < unat x \<and> unat x < len}" "length bi = len"
  using assms by (auto simp: mark_inodeblocks_def unknown_def split: if_splits)

lemma consistent_fits:
  assumes "unknown bi = {x. unat (super_n_inodeblocks (D ! 0)) < unat x \<and> unat x < length D}"
  shows "consistent D F \<longleftrightarrow> chk_flist D (super_free_list (D ! 0)) F \<and> fits (unknown bi) (visited D + F)"
  using assms by (auto simp: consistent_def fits_def)

lemma find_unknown:
  assumes "length bi = length D" "length D < 2147483648" "unknown bi = {x. n < unat x \<and> unat x < length D} - set_mset M"
  shows "List.find (\<lambda>b. bi ! b = BI_UNKNOWN) [0..<length D] = None \<longleftrightarrow> (\<forall>b. n < b \<longrightarrow> b < length D \<longrightarrow> of_nat b \<in># M)"
proof -
  have "List.find (\<lambda>b. bi ! b = BI_UNKNOWN) [0..<length D] = None \<longleftrightarrow> (\<forall>b<length D. bi ! b \<noteq> BI_UNKNOWN)"
    by (auto simp: find_None_iff)
  also have "\<dots> \<longleftrightarrow> (\<forall>b<length D. of_nat b \<notin> unknown bi)"
  proof (intro all_cong)
    fix b assume b: "b < length D"
    then have "unat (of_nat b :: u32) = b" using assms(2) by (intro unat32_of_nat) simp
    then show "bi ! b \<noteq> BI_UNKNOWN \<longleftrightarrow> of_nat b \<notin> unknown bi" using assms(1) b by (simp add: unknown_def)
  qed
  also have "\<dots> \<longleftrightarrow> (\<forall>b. n < b \<longrightarrow> b < length D \<longrightarrow> of_nat b \<in># M)"
  proof -
    have "unat (of_nat b :: u32) = b" if "b < length D" for b using assms(2) that by (intro unat32_of_nat) simp
    then show ?thesis unfolding assms(3) by auto
  qed
  finally show ?thesis .
qed

context block_store
begin

lemma treedisk_check_ok:
  fixes s D n
  defines "D \<equiv> img s" and "n \<equiv> unat (super_n_inodeblocks (img s ! 0))"
  assumes s: "ok s" and n: "n < length D" and fl: "unat (super_free_list (D ! 0)) < length D"
  shows "\<exists>r leak s'. treedisk_check bs junk s = Some ((r, leak), s') \<and> ok s' \<and> img s' = D \<and>
    (if r then \<exists>F. consistent D F \<and> (leak = None \<longleftrightarrow> (\<forall>b. n < b \<longrightarrow> b < length D \<longrightarrow> of_nat b \<in># visited D + F))
     else \<forall>F. \<not> consistent D F)"
proof -
  have small: "length D < 2147483648" using img_small [OF s] by (simp add: D_def)
  from nblocks_sim [OF s] obtain s1 where s1: "bs_nblocks bs s = Some (int (length D), s1)" "ok s1" "img s1 = D"
    by (auto simp: img_nblocks_def sim_def D_def)
  define fs :: u32 where "fs = of_int (int (length D))"
  have fs: "unat fs = length D" using small by (simp add: fs_def unat32_of_nat)
  then have fs0: "fs \<noteq> 0" using n by (metis gr_implies_not0 unat_0)
  have D0: "0 < length D" by (rule le_less_trans [OF _ n]) simp
  with chk_read_in [OF s1(2), of 0] s1(3) obtain s2 where s2: "chk_read bs junk 0 s1 = Some (D ! 0, s2)" "ok s2" "img s2 = D" by auto
  have n': "unat (super_n_inodeblocks (D ! 0)) = n" by (simp add: n_def D_def)
  have "unat (1 + super_n_inodeblocks (D ! 0)) = 1 + n" using n n' small by (subst unat32_add) simp_all
  then have room: "\<not> 1 + super_n_inodeblocks (D ! 0) > fs" "\<not> super_free_list (D ! 0) \<ge> fs"
    using n fl fs by (simp_all add: word_less_nat_alt word_le_nat_alt)
  obtain bi where bi: "mark_inodeblocks (length D) n = Some bi" using n by (simp add: mark_inodeblocks_def)
  note U = unknown_start [OF bi]
  have "\<forall>b\<in>set [1..<Suc n]. b < length D" using n by auto
  from check_inodeblocks_ok [OF fs s2(2,3) U(2) this, of junk] obtain r1 bi1 s3 where
    s3: "check_inodeblocks bs junk fs [1..<Suc n] bi s2 = Some (r1, bi1, s3)" "ok s3" "img s3 = D" "checks bi (visited D) r1 bi1"
    unfolding run_checks_def visited_def n' by blast
  have start: "treedisk_check bs junk s = (if \<not> r1 then Some ((False, None), s3) else do {
      (ok, binfo, s) \<leftarrow> check_freelist bs junk fs (super_free_list (D ! 0)) bi1 s3;
      Some (if ok then (True, List.find (\<lambda>b. binfo ! b = BI_UNKNOWN) [0..<length D]) else (False, None), s) })"
    unfolding treedisk_check_def Let_def s1(1) Option.bind.simps(2) split_conv fs_def [symmetric] if_not_P [OF fs0] s2(1) if_not_P [OF room(1)]
      if_not_P [OF room(2)] n' fs bi s3(1) ..
  have un: "unknown bi = {x. unat (super_n_inodeblocks (D ! 0)) < unat x \<and> unat x < length D}" by (simp add: U(1) n')
  note cons = consistent_fits [OF un]
  show ?thesis
  proof (cases r1)
    case False
    then have "\<not> consistent D F" for F using s3(4) by (simp add: cons checks_def fits_plus)
    moreover have "treedisk_check bs junk s = Some ((False, None), s3)" using start False by simp
    ultimately show ?thesis using s3(2,3) by (intro exI [of _ False] exI [of _ None] exI [of _ s3]) simp
  next
    case True
    have len1: "length bi1 = length D" using s3(4) U(2) by (simp add: checks_def)
    have un1: "fits (unknown bi) (visited D)" "unknown bi1 = unknown bi - set_mset (visited D)" using s3(4) True by (simp_all add: checks_def)
    from check_freelist_ok [OF fs s3(2,3) len1, of junk "super_free_list (D ! 0)"] obtain r bi2 s4 where
      s4: "check_freelist bs junk fs (super_free_list (D ! 0)) bi1 s3 = Some (r, bi2, s4)" "ok s4" "img s4 = D" "length bi2 = length D"
      "if r then \<exists>F. chk_flist D (super_free_list (D ! 0)) F \<and> checks bi1 F True bi2
        else \<forall>F. chk_flist D (super_free_list (D ! 0)) F \<longrightarrow> \<not> fits (unknown bi1) F" by blast
    show ?thesis
    proof (cases r)
      case yes: True
      then obtain F where F: "chk_flist D (super_free_list (D ! 0)) F" "checks bi1 F True bi2" using s4(5) by auto
      then have c: "consistent D F" using un1 by (simp add: cons fits_plus checks_def)
      have "unknown bi2 = unknown bi - set_mset (visited D + F)" using F(2) un1(2) by (auto simp: checks_def)
      from find_unknown [OF s4(4) small this [unfolded U(1)]] c s4(1-3) start True yes show ?thesis
        by (intro exI [of _ True] exI [of _ "List.find (\<lambda>b. bi2 ! b = BI_UNKNOWN) [0..<length D]"] exI [of _ s4]) auto
    next
      case no: False
      then have "\<not> consistent D F" for F using s4(5) un1 by (auto simp: cons fits_plus)
      moreover have "treedisk_check bs junk s = Some ((False, None), s4)" using start True s4(1) no by simp
      ultimately show ?thesis using s4(2,3) by (intro exI [of _ False] exI [of _ None] exI [of _ s4]) simp
    qed
  qed
qed

end

context block_store
begin

lemma chk_overflow:
  assumes s: "ok s" and D0: "0 < length (img s)"
    and n: "super_n_inodeblocks (img s ! 0) = - 1" and fl: "unat (super_free_list (img s ! 0)) < length (img s)"
  shows "treedisk_check bs junk s = None"
proof -
  have small: "length (img s) < 2147483648" by (rule img_small [OF s])
  from nblocks_sim [OF s] obtain s1 where s1: "bs_nblocks bs s = Some (int (length (img s)), s1)" "ok s1" "img s1 = img s"
    by (auto simp: img_nblocks_def sim_def)
  define fs :: u32 where "fs = of_int (int (length (img s)))"
  have fs: "unat fs = length (img s)" using small by (simp add: fs_def unat32_of_nat)
  then have fs0: "fs \<noteq> 0" using D0 by (metis neq0_conv unat_0)
  with chk_read_in [OF s1(2), of 0] s1(3) D0 obtain s2 where s2: "chk_read bs junk 0 s1 = Some (img s ! 0, s2)" by auto
  have room: "\<not> super_free_list (img s ! 0) \<ge> fs" using fl fs by (simp add: word_le_nat_alt)
  have "mark_inodeblocks (unat fs) (unat (- 1 :: u32)) = None" using small by (simp add: mark_inodeblocks_def fs unat32_minus_one)
  then show ?thesis using s1(1) s2 fs0 room n by (simp add: treedisk_check_def Let_def fs_def [symmetric] del: of_int_of_nat_eq)
qed

end

section \<open>Well-formed file systems are consistent\<close>

lemma chk_flist_wf: "flist D f F \<Longrightarrow> (\<forall>x\<in>#F. unat x < length D) \<Longrightarrow> chk_flist D f F"
proof (induction rule: flist.induct)
  case (flist_end D)
  show ?case by (rule chk_end)
next
  case (flist_block f D M)
  let ?b = "D ! unat f"
  have "(if unat (rd32 ?b i) < length D then opt_ref (rd32 ?b i) else {#}) = opt_ref (rd32 ?b i)" if "i \<in> set [1..<256]" for i
  proof (cases "rd32 ?b i = 0")
    case False
    then have "rd32 ?b i \<in># slot_refs ?b" using that by (intro slot_refs_member) auto
    then show ?thesis using flist_block.prems by simp
  qed (simp add: opt_ref_def)
  then have "chk_slots (length D) ?b [1..<256] = (\<Sum>i\<leftarrow>[1..<256]. opt_ref (rd32 ?b i))"
    unfolding chk_slots_def by (intro arg_cong [of _ _ sum_list] map_cong refl)
  also have "\<dots> = slot_refs ?b" unfolding slot_refs_def by (simp only: sum_set_upt_conv_sum_list_nat [symmetric] set_upt)
  finally have slots: "chk_slots (length D) ?b [1..<256] = slot_refs ?b" .
  have "unat f < length D" "chk_flist D (rd32 ?b 0) M" using flist_block by simp_all
  from chk_flist.chk_block [OF flist_block.hyps(1) this] show ?case unfolding slots .
qed

lemma sum_sub: "(\<And>i. i < n \<Longrightarrow> f i \<subseteq># g i) \<Longrightarrow> (\<Sum>i<(n :: nat). f i) \<subseteq># (\<Sum>i<n. g i :: 'a multiset)"
  by (induction n) (simp_all add: subset_mset.add_mono)

lemma visited_sub: "visited D \<subseteq># all_blocks D"
proof -
  define N where "N = unat (super_n_inodeblocks (D ! 0))"
  have sub: "chk_inodes D (D ! Suc m) [0..<INODES_PER_BLOCK] \<subseteq># (\<Sum>i<128. f_blocks D (i + m * 128))" for m
  proof -
    let ?g = "\<lambda>i. if inode_nblocks (D ! Suc m) i = 0 then {#}
     else chk_tree D (inode_nblocks (D ! Suc m) i) (count_levels (inode_nblocks (D ! Suc m) i - 1) 0) (inode_root (D ! Suc m) i) 0"
    have "?g i \<subseteq># f_blocks D (i + m * 128)" if "i < 128" for i
    proof -
      have f: "f_size D (i + m * 128) = inode_nblocks (D ! Suc m) i" "f_root D (i + m * 128) = inode_root (D ! Suc m) i"
        using that by (simp_all add: f_size_def f_root_def inode_blockno_def)
      then show ?thesis
        using chk_tree_sub [of D "inode_nblocks (D ! Suc m) i" "count_levels (inode_nblocks (D ! Suc m) i - 1) 0" "inode_root (D ! Suc m) i" 0]
        by (simp add: f_blocks_def tree_levels_def word_gt_0)
    qed
    then have "(\<Sum>i<128. ?g i) \<subseteq># (\<Sum>i<128. f_blocks D (i + m * 128))" by (rule sum_sub)
    moreover have "chk_inodes D (D ! Suc m) [0..<INODES_PER_BLOCK] = (\<Sum>i<128. ?g i)"
      unfolding chk_inodes_def by (simp only: INODES_PER_BLOCK_def BLOCK_SIZE_def sum_set_upt_conv_sum_list_nat [symmetric])
        (simp add: atLeast0LessThan)
    ultimately show ?thesis by simp
  qed
  have group: "sum (f_blocks D) {m * 128..<m * 128 + 128} = (\<Sum>i<128. f_blocks D (i + m * 128))" for m
    using sum.shift_bounds_nat_ivl [of "f_blocks D" 0 "m * 128" 128] by (simp only: add_0 add.commute [of 128] atLeast0LessThan)
  have "visited D = (\<Sum>m<N. chk_inodes D (D ! Suc m) [0..<INODES_PER_BLOCK])"
    unfolding visited_def N_def [symmetric]
    by (simp only: sum_set_upt_conv_sum_list_nat [symmetric] set_upt One_nat_def sum.shift_bounds_Suc_ivl atLeast0LessThan)
  also have "\<dots> \<subseteq># (\<Sum>m<N. \<Sum>i<128. f_blocks D (i + m * 128))" by (rule sum_sub) (rule sub)
  also have "(\<Sum>m<N. \<Sum>i<128. f_blocks D (i + m * 128)) = (\<Sum>m<N. sum (f_blocks D) {m * 128..<m * 128 + 128})"
    by (simp only: group)
  also have "\<dots> = all_blocks D" by (simp add: all_blocks_def n_inodes_of_def N_def sum.nat_group mult.commute)
  finally show ?thesis .
qed

lemma wf_superblock:
  assumes "fs_wf D F"
  shows "unat (super_n_inodeblocks (D ! 0)) < length D" "unat (super_free_list (D ! 0)) < length D"
proof -
  show n: "unat (super_n_inodeblocks (D ! 0)) < length D" using assms by (simp add: fs_wf_def)
  show "unat (super_free_list (D ! 0)) < length D"
  proof (cases "super_free_list (D ! 0) = 0")
    case True
    have "0 < length D" by (rule le_less_trans [OF _ n]) simp
    with True show ?thesis by simp
  next
    case False
    then show ?thesis using assms flist_nonzero [OF False, of D F] by (auto simp: fs_wf_def fl_ok_def)
  qed
qed

lemma wf_consistent:
  assumes "fs_wf D F"
  shows "consistent D F"
proof -
  have w: "flist D (super_free_list (D ! 0)) F" "ndup (all_blocks D + F)" "\<forall>x\<in>#all_blocks D + F. unat x < length D"
    "\<forall>x\<in>#all_blocks D + F. unat (super_n_inodeblocks (D ! 0)) < unat x"
    using assms by (auto simp: fs_wf_def fl_ok_def in_use_def)
  have sub: "visited D + F \<subseteq># all_blocks D + F" using visited_sub by simp
  then have "\<forall>x\<in>#visited D + F. x \<in># all_blocks D + F" by (meson mset_subset_eqD)
  moreover have "chk_flist D (super_free_list (D ! 0)) F" using w(1,3) by (intro chk_flist_wf) auto
  ultimately show ?thesis using w(3,4) ndup_mono [OF w(2) sub] by (simp only: consistent_def) blast
qed

section \<open>Properties\<close>


text \<open>Every well-formed file system passes the check, over any block store.\<close>
theorem treedisk_check_accepts:
  assumes "block_store below ok img" "ok s" "fs_wf (img s) F"
  shows "\<exists>leak s'. treedisk_check below junk s = Some ((True, leak), s') \<and> ok s' \<and> img s' = img s"
proof -
  from block_store.treedisk_check_ok [OF assms(1,2) wf_superblock [OF assms(3)], of junk] wf_consistent [OF assms(3)] show ?thesis
    by (auto split: if_splits)
qed

theorem treedisk_check_accepts_witness:
  "\<exists>s leak s'. treedisk_create ramdisk_store ram20 1 = Some (0, s) \<and> treedisk_check ramdisk_store 0 s = Some ((True, leak), s')"
proof -
  obtain s where s: "treedisk_create ramdisk_store ram20 1 = Some (0, s)" "ramdisk_ok s" "fs_wf (ramdisk_img s) (rng 2 20)"
    using ram20_created by blast
  from treedisk_check_accepts [OF ram.block_store_axioms s(2,3), of 0] s(1) show ?thesis by auto
qed


text \<open>The bound on the number of inode blocks wraps: with a superblock that claims the largest number of inode
  blocks, the checker marks blocks behind the end of its array.\<close>
theorem treedisk_check_overflow:
  assumes "block_store below ok img" "ok s" "0 < length (img s)"
    and "super_n_inodeblocks (img s ! 0) = - 1" "unat (super_free_list (img s ! 0)) < length (img s)"
  shows "treedisk_check below junk s = None"
  using block_store.chk_overflow [OF assms] .

end
