(* ===== verification/FatDisk.thy ===== *)
theory FatDisk
  imports TreeDisk
begin

text \<open>
  The FAT file system (\<open>egos/grass/block/fatdisk.h\<close>, \<open>egos/grass/block/fatdisk.c\<close>). As for
  \<open>treedisk\<close>, all persistent state is on the store below; the static variable \<open>fatblocks\<close> of the
  module, which only \<open>setup_fatfreelist\<close> assigns, is the argument \<open>fatblocks\<close> of the operations.

  Words 0, 1, 2 of the superblock are \<open>n_inodeblocks\<close>, \<open>n_fatblocks\<close> and \<open>fat_free_list\<close>; inode
  \<open>i\<close> of an inode block has its \<open>head\<close> in word \<open>2 * i\<close> and its \<open>nblocks\<close> in word \<open>2 * i + 1\<close>;
  a FAT block holds 256 \<open>next\<close> fields. An entry is free when its \<open>next\<close> is 0.
\<close>

section \<open>Layout\<close>

definition FAT_PER_BLOCK :: nat where
  "FAT_PER_BLOCK = BLOCK_SIZE div 4"

lemma FPB [simp]: "FAT_PER_BLOCK = 256"
  by (simp add: FAT_PER_BLOCK_def BLOCK_SIZE_def)

definition fs_n_inodeblocks :: "block \<Rightarrow> u32" where
  "fs_n_inodeblocks b = rd32 b 0"

definition fs_n_fatblocks :: "block \<Rightarrow> u32" where
  "fs_n_fatblocks b = rd32 b 1"

definition fs_fat_free_list :: "block \<Rightarrow> u32" where
  "fs_fat_free_list b = rd32 b 2"

record fatdisk_snapshot =
  fsn_super :: block
  fsn_inodeblock :: block
  fsn_inode_blockno :: block_no
  fsn_inode_no :: u32
  fsn_inode :: nat

definition fsn_head :: "fatdisk_snapshot \<Rightarrow> u32" where
  "fsn_head sn = rd32 (fsn_inodeblock sn) (2 * fsn_inode sn)"

definition fsn_nblocks :: "fatdisk_snapshot \<Rightarrow> u32" where
  "fsn_nblocks sn = rd32 (fsn_inodeblock sn) (2 * fsn_inode sn + 1)"

definition fsn_set_head :: "u32 \<Rightarrow> fatdisk_snapshot \<Rightarrow> fatdisk_snapshot" where
  "fsn_set_head h sn = sn\<lparr>fsn_inodeblock := wr32 (fsn_inodeblock sn) (2 * fsn_inode sn) h\<rparr>"

definition fsn_set_nblocks :: "u32 \<Rightarrow> fatdisk_snapshot \<Rightarrow> fatdisk_snapshot" where
  "fsn_set_nblocks n sn = sn\<lparr>fsn_inodeblock := wr32 (fsn_inodeblock sn) (2 * fsn_inode sn + 1) n\<rparr>"

text \<open>\<open>entry % FAT_PER_BLOCK\<close>\<close>

definition fat_index :: "u32 \<Rightarrow> nat" where
  "fat_index entry = unat entry mod FAT_PER_BLOCK"

section \<open>FAT entries\<close>

definition fatentry_to_datablock :: "'s block_store_t \<Rightarrow> 's \<Rightarrow> u32 \<Rightarrow> (block_no \<times> 's) option" where
  "fatentry_to_datablock below s n = do {
     (r, s) \<leftarrow> bs_read below s 0;
     (case r of
        None \<Rightarrow> Some (- 1, s)
      | Some super \<Rightarrow> Some (fs_n_inodeblocks super + 1 + fs_n_fatblocks super + n, s)) }"

definition find_fat_blockno :: "'s block_store_t \<Rightarrow> 's \<Rightarrow> u32 \<Rightarrow> (block_no \<times> 's) option" where
  "find_fat_blockno below s fatentry = do {
     (r, s) \<leftarrow> bs_read below s 0;
     (case r of
        None \<Rightarrow> Some (- 1, s)
      | Some super \<Rightarrow> Some (fs_n_inodeblocks super + of_nat (unat fatentry div FAT_PER_BLOCK) + 1, s)) }"

text \<open>
  The loop \<open>while(nfatblocks--)\<close> of \<open>find_free_entry\<close>; \<open>ninode\<close> is \<open>n_inodeblocks\<close> of the
  superblock. Running out of blocks is the panic \<open>The disk is full\<close>.
\<close>

fun free_entry_loop :: "'s block_store_t \<Rightarrow> u32 \<Rightarrow> u32 \<Rightarrow> nat \<Rightarrow> block_no \<Rightarrow> nat \<Rightarrow> 's \<Rightarrow> (u32 \<times> 's) option" where
  "free_entry_loop below fatblocks ninode 0 bno i s = None"
| "free_entry_loop below fatblocks ninode (Suc nfatblocks) bno i s = do {
     (fatblock, s) \<leftarrow> read_or_panic below s bno;
     let i = scan (\<lambda>i. rd32 fatblock i = 0) i FAT_PER_BLOCK;
     if i < FAT_PER_BLOCK then Some ((bno - 1 - ninode) * of_nat FAT_PER_BLOCK + of_nat i, s)
     else do {
       let bno = bno + 1;
       let bno = (if bno \<ge> 1 + ninode + fatblocks then 1 + ninode else bno);
       free_entry_loop below fatblocks ninode nfatblocks bno 0 s } }"

definition find_free_entry :: "'s block_store_t \<Rightarrow> u32 \<Rightarrow> 's \<Rightarrow> block_no \<Rightarrow> (u32 \<times> 's) option" where
  "find_free_entry below fatblocks s bno = do {
     (r, s) \<leftarrow> bs_read below s 0;
     (case r of
        None \<Rightarrow> Some (- 1, s)
      | Some super \<Rightarrow>
          free_entry_loop below fatblocks (fs_n_inodeblocks super) (unat fatblocks) bno
            (fat_index (fs_fat_free_list super)) s) }"

definition fatdisk_alloc :: "'s block_store_t \<Rightarrow> u32 \<Rightarrow> 's \<Rightarrow> fatdisk_snapshot \<Rightarrow>
    ((u32 \<times> fatdisk_snapshot) \<times> 's) option" where
  "fatdisk_alloc below fatblocks s sn = do {
     let fidx = fs_fat_free_list (fsn_super sn);
     (fidx_bno, s) \<leftarrow> find_fat_blockno below s fidx;
     (fatblock, s) \<leftarrow> read_or_panic below s fidx_bno;
     (_, s) \<leftarrow> write_or_panic below s fidx_bno (wr32 fatblock (fat_index fidx) (- 1));
     (free, s) \<leftarrow> find_free_entry below fatblocks s fidx_bno;
     let sn = sn\<lparr>fsn_super := wr32 (fsn_super sn) 2 free\<rparr>;
     (_, s) \<leftarrow> write_or_panic below s 0 (fsn_super sn);
     Some ((fidx, sn), s) }"

definition fatdisk_get_snapshot :: "'s block_store_t \<Rightarrow> 's \<Rightarrow> u32 \<Rightarrow> (fatdisk_snapshot option \<times> 's) option" where
  "fatdisk_get_snapshot below s inode_no = do {
     (r, s) \<leftarrow> bs_read below s 0;
     (case r of
        None \<Rightarrow> Some (None, s)
      | Some super \<Rightarrow>
          if unat inode_no \<ge> unat (fs_n_inodeblocks super) * INODES_PER_BLOCK then Some (None, s)
          else do {
            let blockno = of_nat (1 + unat inode_no div INODES_PER_BLOCK);
            (r, s) \<leftarrow> bs_read below s blockno;
            (case r of
               None \<Rightarrow> Some (None, s)
             | Some inodeblock \<Rightarrow>
                 Some (Some \<lparr>fsn_super = super, fsn_inodeblock = inodeblock, fsn_inode_blockno = blockno,
                             fsn_inode_no = inode_no, fsn_inode = unat inode_no mod INODES_PER_BLOCK\<rparr>, s)) }) }"

text \<open>The loop \<open>while(offset--)\<close>; the result \<open>-1\<close> is an error.\<close>

fun fat_follow :: "'s block_store_t \<Rightarrow> nat \<Rightarrow> u32 \<Rightarrow> 's \<Rightarrow> (u32 \<times> 's) option" where
  "fat_follow below 0 start s = Some (start, s)"
| "fat_follow below (Suc offset) start s = do {
     (fat_bno, s) \<leftarrow> find_fat_blockno below s start;
     (r, s) \<leftarrow> bs_read below s fat_bno;
     (case r of
        None \<Rightarrow> Some (- 1, s)
      | Some fatblock \<Rightarrow> fat_follow below offset (rd32 fatblock (fat_index start)) s) }"

definition fatdisk_traverse :: "'s block_store_t \<Rightarrow> u32 \<Rightarrow> 's \<Rightarrow> block_no \<Rightarrow> (u32 \<times> 's) option" where
  "fatdisk_traverse below inode_no s offset = do {
     (r, s) \<leftarrow> fatdisk_get_snapshot below s inode_no;
     (case r of
        None \<Rightarrow> Some (- 1, s)
      | Some sn \<Rightarrow>
          if offset \<ge> fsn_nblocks sn then Some (- 1, s)
          else fat_follow below (unat offset) (fsn_head sn) s) }"

section \<open>Releasing a file\<close>

text \<open>The loop \<open>while(nblks)\<close> of \<open>fatdisk_free_file\<close>.\<close>

fun fat_free_loop :: "'s block_store_t \<Rightarrow> nat \<Rightarrow> u32 \<Rightarrow> 's \<Rightarrow> (unit \<times> 's) option" where
  "fat_free_loop below 0 fatentry s = Some ((), s)"
| "fat_free_loop below (Suc nblks) fatentry s = do {
     (fatbno, s) \<leftarrow> find_fat_blockno below s fatentry;
     (fatblock, s) \<leftarrow> read_or_panic below s fatbno;
     (target, s) \<leftarrow> fatentry_to_datablock below s fatentry;
     (_, s) \<leftarrow> write_or_panic below s target null_block;
     let next = rd32 fatblock (fat_index fatentry);
     (_, s) \<leftarrow> write_or_panic below s fatbno (wr32 fatblock (fat_index fatentry) 0);
     fat_free_loop below nblks next s }"

definition fatdisk_free_file :: "'s block_store_t \<Rightarrow> fatdisk_snapshot \<Rightarrow> 's \<Rightarrow> (unit \<times> 's) option" where
  "fatdisk_free_file below sn s =
     (if fsn_nblocks sn = 0 then Some ((), s)
      else do {
        (_, s) \<leftarrow> fat_free_loop below (unat (fsn_nblocks sn)) (fsn_head sn) s;
        let sn = fsn_set_head 0 (fsn_set_nblocks 0 sn);
        write_or_panic below s (fsn_inode_blockno sn) (fsn_inodeblock sn) })"

section \<open>The methods of a virtual block store\<close>

text \<open>
  The loop \<open>while(addblks--)\<close> of \<open>fatdisk_write\<close>. \<open>dirty_inode\<close> is never reset, so the inode
  block is written in every turn after the first that sets it.
\<close>

fun fat_extend :: "'s block_store_t \<Rightarrow> u32 \<Rightarrow> block_no \<Rightarrow> nat \<Rightarrow> u32 \<Rightarrow> bool \<Rightarrow> fatdisk_snapshot \<Rightarrow> 's \<Rightarrow>
    (unit \<times> 's) option" where
  "fat_extend below fatblocks offset 0 last_entry dirty_inode sn s = Some ((), s)"
| "fat_extend below fatblocks offset (Suc addblks) last_entry dirty_inode sn s = do {
     ((free_bno, sn), s) \<leftarrow> fatdisk_alloc below fatblocks s sn;
     ((dirty_inode, sn), s) \<leftarrow>
       (if fsn_nblocks sn = 0 then Some ((True, fsn_set_head free_bno sn), s)
        else do {
          (last_entry_bno, s) \<leftarrow> find_fat_blockno below s last_entry;
          (lastfatblock, s) \<leftarrow> read_or_panic below s last_entry_bno;
          (_, s) \<leftarrow> write_or_panic below s last_entry_bno (wr32 lastfatblock (fat_index last_entry) free_bno);
          Some ((dirty_inode, sn), s) });
     let extends = (offset \<ge> fsn_nblocks sn);
     let sn = (if extends then fsn_set_nblocks (offset + 1) sn else sn);
     let dirty_inode = (dirty_inode \<or> extends);
     (_, s) \<leftarrow> (if dirty_inode then write_or_panic below s (fsn_inode_blockno sn) (fsn_inodeblock sn)
               else Some ((), s));
     fat_extend below fatblocks offset addblks free_bno dirty_inode sn s }"

text \<open>
  \<open>addblks\<close> is an \<open>int\<close>: a count of \<open>2 ^ 31\<close> or more is negative, and \<open>while(addblks--)\<close> then
  runs until the disk is full or the counter overflows, so that the call does not return.
\<close>

definition fatdisk_write :: "'s block_store_t \<Rightarrow> u32 \<Rightarrow> u32 \<Rightarrow> 's \<Rightarrow> block_no \<Rightarrow> block \<Rightarrow> (int \<times> 's) option" where
  "fatdisk_write below fatblocks inode_no s offset block = do {
     (r, s) \<leftarrow> fatdisk_get_snapshot below s inode_no;
     (case r of
        None \<Rightarrow> Some (- 1, s)
      | Some sn \<Rightarrow> do {
          let addblks = (if offset + 1 > fsn_nblocks sn then offset + 1 - fsn_nblocks sn else 0);
          (last_entry, s) \<leftarrow> (if fsn_nblocks sn > 0 then fatdisk_traverse below inode_no s (fsn_nblocks sn - 1)
                             else Some (0, s));
          (_, s) \<leftarrow> (if unat addblks < 2147483648
                    then fat_extend below fatblocks offset (unat addblks) last_entry False sn s
                    else None);
          (entry_for_data, s) \<leftarrow> fatdisk_traverse below inode_no s offset;
          (data_block, s) \<leftarrow> fatentry_to_datablock below s entry_for_data;
          bs_write below s data_block block }) }"

text \<open>The loop of \<open>fatdisk_read\<close>.\<close>

fun fat_read_loop :: "'s block_store_t \<Rightarrow> nat \<Rightarrow> u32 \<Rightarrow> 's \<Rightarrow> (block option \<times> 's) option" where
  "fat_read_loop below 0 start s = do {
     (readfrom, s) \<leftarrow> fatentry_to_datablock below s start;
     bs_read below s readfrom }"
| "fat_read_loop below (Suc offset) start s = do {
     (fat_bno, s) \<leftarrow> find_fat_blockno below s start;
     (r, s) \<leftarrow> bs_read below s fat_bno;
     (case r of
        None \<Rightarrow> Some (None, s)
      | Some fatblock \<Rightarrow> fat_read_loop below offset (rd32 fatblock (fat_index start)) s) }"

definition fatdisk_read :: "'s block_store_t \<Rightarrow> u32 \<Rightarrow> 's \<Rightarrow> block_no \<Rightarrow> (block option \<times> 's) option" where
  "fatdisk_read below inode_no s offset = do {
     (r, s) \<leftarrow> fatdisk_get_snapshot below s inode_no;
     (case r of
        None \<Rightarrow> Some (None, s)
      | Some sn \<Rightarrow>
          if offset \<ge> fsn_nblocks sn then Some (None, s)
          else fat_read_loop below (unat offset) (fsn_head sn) s) }"

definition fatdisk_nblocks :: "'s block_store_t \<Rightarrow> u32 \<Rightarrow> 's \<Rightarrow> (int \<times> 's) option" where
  "fatdisk_nblocks below inode_no s = do {
     (r, s) \<leftarrow> fatdisk_get_snapshot below s inode_no;
     (case r of None \<Rightarrow> Some (- 1, s) | Some sn \<Rightarrow> Some (sint (fsn_nblocks sn), s)) }"

definition fatdisk_setsize :: "'s block_store_t \<Rightarrow> u32 \<Rightarrow> 's \<Rightarrow> block_no \<Rightarrow> (int \<times> 's) option" where
  "fatdisk_setsize below inode_no s nblocks = do {
     (r, s) \<leftarrow> fatdisk_get_snapshot below s inode_no;
     (case r of
        None \<Rightarrow> None
      | Some sn \<Rightarrow>
          if nblocks = fsn_nblocks sn then Some (sint nblocks, s)
          else if nblocks > 0 then Some (- 1, s)
          else do {
            (_, s) \<leftarrow> fatdisk_free_file below sn s;
            Some (0, s) }) }"

definition fatdisk_init :: "'s block_store_t \<Rightarrow> 's \<Rightarrow> u32 \<Rightarrow> (u32 option \<times> 's) option" where
  "fatdisk_init below s inode_no = do {
     (r, s) \<leftarrow> fatdisk_get_snapshot below s inode_no;
     (case r of None \<Rightarrow> Some (None, s) | Some sn \<Rightarrow> Some (Some inode_no, s)) }"

section \<open>Creating a file system\<close>

text \<open>The two inner loops of \<open>setup_fatfreelist\<close>: \<open>0\<close> for a data block, \<open>-1\<close> past the end.\<close>

function fat_fill :: "block \<Rightarrow> nat \<Rightarrow> u32 \<Rightarrow> u32 \<Rightarrow> block \<times> nat \<times> u32" where
  "fat_fill data i next_free nblocks =
     (if i < FAT_PER_BLOCK \<and> next_free < nblocks
      then fat_fill (wr32 data i 0) (Suc i) (next_free + 1) nblocks
      else (data, i, next_free))"
  by pat_completeness auto
termination
  by (relation "measure (\<lambda>(data, i, next_free, nblocks). FAT_PER_BLOCK - i)") auto

function fat_close :: "block \<Rightarrow> nat \<Rightarrow> block" where
  "fat_close data i = (if i < FAT_PER_BLOCK then fat_close (wr32 data i (- 1)) (Suc i) else data)"
  by pat_completeness auto
termination
  by (relation "measure (\<lambda>(data, i). FAT_PER_BLOCK - i)") auto

declare fat_fill.simps [simp del] fat_close.simps [simp del]

text \<open>
  Its outer loop. \<open>next_free\<close> grows by at least two in every turn, so the fuel \<open>nblocks\<close> given
  below is enough; only for \<open>nblocks = 2 ^ 32 - 1\<close>, a device that reports an error, could it wrap,
  and then the writes fail first.
\<close>

fun fat_setup_loop :: "'s block_store_t \<Rightarrow> nat \<Rightarrow> 's \<Rightarrow> block \<Rightarrow> block_no \<Rightarrow> u32 \<Rightarrow> u32 \<Rightarrow> u32 \<Rightarrow> (u32 \<times> 's) option" where
  "fat_setup_loop below fuel s data fatlist_block next_free n_fatblocks nblocks =
     (if next_free < nblocks
      then (case fuel of
              0 \<Rightarrow> None
            | Suc fuel \<Rightarrow> do {
                let (data, i, next_free) = fat_fill data 0 next_free nblocks;
                let data = fat_close data i;
                (_, s) \<leftarrow> write_or_panic below s fatlist_block data;
                fat_setup_loop below fuel s data (fatlist_block + 1) (next_free + 1) (n_fatblocks + 1) nblocks })
      else Some (n_fatblocks, s))"

declare fat_setup_loop.simps [simp del]

text \<open>The result is the returned value and the new value of \<open>fatblocks\<close>.\<close>

definition setup_fatfreelist :: "'s block_store_t \<Rightarrow> u32 \<Rightarrow> 's \<Rightarrow> u32 \<Rightarrow> u32 \<Rightarrow> ((u32 \<times> u32) \<times> 's) option" where
  "setup_fatfreelist below fatblocks s next_free nblocks = do {
     (r, s) \<leftarrow> bs_read below s 0;
     (case r of
        None \<Rightarrow> Some ((- 1, fatblocks), s)
      | Some _ \<Rightarrow> do {
          (n, s) \<leftarrow> fat_setup_loop below (unat nblocks) s null_block next_free next_free 0 nblocks;
          Some ((0, n), s) }) }"

definition fatdisk_create :: "'s block_store_t \<Rightarrow> u32 \<Rightarrow> 's \<Rightarrow> u32 \<Rightarrow> ((int \<times> u32) \<times> 's) option" where
  "fatdisk_create below fatblocks s n_inodes = do {
     let n_inodeblocks = of_nat ((unat n_inodes + INODES_PER_BLOCK - 1) div INODES_PER_BLOCK);
     (n, s) \<leftarrow> bs_nblocks below s;
     let nblocks = word_of_int n;
     if nblocks < n_inodeblocks + 2 then Some ((- 1, fatblocks), s)
     else do {
       (r, s) \<leftarrow> bs_read below s 0;
       (case r of
          None \<Rightarrow> Some ((- 1, fatblocks), s)
        | Some superblock \<Rightarrow>
            if fs_n_inodeblocks superblock = 0
            then do {
              ((free_list, fatblocks), s) \<leftarrow> setup_fatfreelist below fatblocks s (n_inodeblocks + 1) nblocks;
              (r, s) \<leftarrow> bs_write below s 0
                 (wr32 (wr32 (wr32 null_block 0 n_inodeblocks) 2 free_list) 1 fatblocks);
              if r < 0 then Some ((- 1, fatblocks), s)
              else do {
                (r, s) \<leftarrow> clear_inodes below [1..<Suc (unat n_inodeblocks)] s;
                Some ((r, fatblocks), s) } }
            else if fs_n_inodeblocks superblock = n_inodeblocks then Some ((0, fatblocks), s)
            else None) } }"

end
