(* ===== verification/FatDiskInv.thy ===== *)
theory FatDiskInv
  imports FatDisk ClockDisk
begin

text \<open>
  Properties of the FAT file system (\<open>egos/grass/block/fatdisk.c\<close>). The file of an inode is the
  chain of its FAT entries; \<open>fat_ok\<close> says that the chains of all inodes are inside the FAT and the
  disk and share no entry.
\<close>

section \<open>Chains\<close>

definition fat_K :: "block list \<Rightarrow> nat" where
  "fat_K D = unat (fs_n_inodeblocks (D ! 0))"

definition fat_N :: "block list \<Rightarrow> nat" where
  "fat_N D = unat (fs_n_fatblocks (D ! 0))"

definition fat_blockno :: "block list \<Rightarrow> u32 \<Rightarrow> nat" where
  "fat_blockno D e = fat_K D + unat e div 256 + 1"

definition fat_datano :: "block list \<Rightarrow> u32 \<Rightarrow> nat" where
  "fat_datano D e = fat_K D + 1 + fat_N D + unat e"

definition fat_next :: "block list \<Rightarrow> u32 \<Rightarrow> u32" where
  "fat_next D e = rd32 (D ! fat_blockno D e) (fat_index e)"

fun fat_chain :: "block list \<Rightarrow> nat \<Rightarrow> u32 \<Rightarrow> u32 list" where
  "fat_chain D 0 e = []"
| "fat_chain D (Suc n) e = e # fat_chain D n (fat_next D e)"

definition fat_head :: "block list \<Rightarrow> nat \<Rightarrow> u32" where
  "fat_head D i = rd32 (D ! (1 + i div 128)) (2 * (i mod 128))"

definition fat_size :: "block list \<Rightarrow> nat \<Rightarrow> nat" where
  "fat_size D i = unat (rd32 (D ! (1 + i div 128)) (2 * (i mod 128) + 1))"

definition fat_file :: "block list \<Rightarrow> nat \<Rightarrow> u32 list" where
  "fat_file D i = fat_chain D (fat_size D i) (fat_head D i)"

definition fat_data :: "block list \<Rightarrow> nat \<Rightarrow> block list" where
  "fat_data D i = map (\<lambda>e. D ! fat_datano D e) (fat_file D i)"

definition fat_entry_ok :: "block list \<Rightarrow> u32 \<Rightarrow> bool" where
  "fat_entry_ok D e \<longleftrightarrow> unat e < 256 * fat_N D \<and> fat_datano D e < length D"

definition fat_ok :: "block list \<Rightarrow> bool" where
  "fat_ok D \<longleftrightarrow> length D < 2147483648 \<and> fat_K D + fat_N D + 1 \<le> length D \<and>
     (\<forall>i<128 * fat_K D. \<forall>e\<in>set (fat_file D i). fat_entry_ok D e) \<and>
     distinct (concat (map (fat_file D) [0..<128 * fat_K D]))"

lemma fat_okD:
  assumes "fat_ok D"
  shows "length D < 2147483648" "fat_K D + fat_N D + 1 \<le> length D" "0 < length D"
    "i < 128 * fat_K D \<Longrightarrow> e \<in> set (fat_file D i) \<Longrightarrow> fat_entry_ok D e"
    "distinct (concat (map (fat_file D) [0..<128 * fat_K D]))"
  using assms by (auto simp: fat_ok_def)

lemma fat_chain_length [simp]: "length (fat_chain D n e) = n"
  by (induction n arbitrary: e) auto

lemma fat_file_length [simp]: "length (fat_file D i) = fat_size D i"
  by (simp add: fat_file_def)

lemma fat_chain_nth: "k < n \<Longrightarrow> fat_chain D n e ! k = (fat_next D ^^ k) e"
proof (induction n arbitrary: e k)
  case (Suc n)
  then show ?case by (cases k) (auto simp: funpow_swap1)
qed simp

lemma fat_chain_cong: "(\<And>e. fat_next D' e = fat_next D e) \<Longrightarrow> fat_chain D' n e = fat_chain D n e"
  by (induction n arbitrary: e) auto

lemma fat_index_less [simp]: "fat_index e < 256"
  by (simp add: fat_index_def)

section \<open>Block numbers\<close>

lemma find_fat_blockno_img:
  assumes "length D < 2147483648" "0 < length D" "fat_K D + fat_N D + 1 \<le> length D" "fat_entry_ok D e"
  shows "\<exists>b. find_fat_blockno img_store D e = Some (b, D) \<and> unat b = fat_blockno D e"
    "fat_blockno D e < length D" "fat_K D < fat_blockno D e" "fat_blockno D e < fat_K D + 1 + fat_N D"
proof -
  have d: "unat e div 256 < fat_N D" using assms(4) by (simp add: fat_entry_ok_def less_mult_imp_div_less mult.commute)
  then show lt: "fat_blockno D e < length D" "fat_K D < fat_blockno D e" "fat_blockno D e < fat_K D + 1 + fat_N D"
    using assms(3) by (simp_all add: fat_blockno_def)
  have "unat (fs_n_inodeblocks (D ! 0) + of_nat (unat e div 256) + 1) = fat_blockno D e"
  proof -
    have q: "unat (of_nat (unat e div 256) :: u32) = unat e div 256"
      using d assms(1,3) by (intro unat32_of_nat) simp
    have "unat (fs_n_inodeblocks (D ! 0) + of_nat (unat e div 256)) = fat_K D + unat e div 256"
      using lt(1) assms(1) q by (subst unat32_add) (simp_all add: fat_K_def fat_blockno_def)
    then show ?thesis using lt(1) assms(1) by (subst unat32_Suc) (simp_all add: fat_blockno_def)
  qed
  then show "\<exists>b. find_fat_blockno img_store D e = Some (b, D) \<and> unat b = fat_blockno D e"
    using assms(2) by (simp add: find_fat_blockno_def img_simps)
qed

lemma fatentry_to_datablock_img:
  assumes "length D < 2147483648" "0 < length D" "fat_entry_ok D e"
  shows "\<exists>b. fatentry_to_datablock img_store D e = Some (b, D) \<and> unat b = fat_datano D e"
proof -
  have lt: "fat_datano D e < length D" using assms(3) by (simp add: fat_entry_ok_def)
  have a: "unat (fs_n_inodeblocks (D ! 0) + 1) = fat_K D + 1"
    using lt assms(1) by (subst unat32_Suc) (simp_all add: fat_K_def fat_datano_def)
  have "unat (fs_n_inodeblocks (D ! 0) + 1 + fs_n_fatblocks (D ! 0)) = fat_K D + 1 + fat_N D"
    using lt assms(1) a by (subst unat32_add) (simp_all add: fat_N_def fat_datano_def)
  then have "unat (fs_n_inodeblocks (D ! 0) + 1 + fs_n_fatblocks (D ! 0) + e) = fat_datano D e"
    using lt assms(1) by (subst unat32_add) (simp_all add: fat_datano_def)
  then show ?thesis using assms(2) by (simp add: fatentry_to_datablock_def img_simps)
qed

section \<open>Reading\<close>

lemma fat_read_loop_img:
  assumes "length D < 2147483648" "fat_K D + fat_N D + 1 \<le> length D"
    and "\<And>k. k \<le> n \<Longrightarrow> fat_entry_ok D ((fat_next D ^^ k) e)"
  shows "fat_read_loop img_store n e D = Some (Some (D ! fat_datano D ((fat_next D ^^ n) e)), D)"
  using assms(3)
proof (induction n arbitrary: e)
  case 0
  have e: "fat_entry_ok D e" using 0 [of 0] by simp
  have l0: "0 < length D" using assms(2) by linarith
  obtain b where "fatentry_to_datablock img_store D e = Some (b, D)" "unat b = fat_datano D e"
    using fatentry_to_datablock_img [OF assms(1) l0 e] by blast
  moreover have "fat_datano D e < length D" using e by (simp add: fat_entry_ok_def)
  ultimately show ?case by (simp add: img_simps)
next
  case (Suc n)
  have e: "fat_entry_ok D e" using Suc.prems [of 0] by simp
  have l0: "0 < length D" using assms(2) by linarith
  obtain b where b: "find_fat_blockno img_store D e = Some (b, D)" "unat b = fat_blockno D e"
    using find_fat_blockno_img(1) [OF assms(1) l0 assms(2) e] by blast
  have "unat b < length D" using find_fat_blockno_img(2) [OF assms(1) l0 assms(2) e] b(2) by simp
  moreover have "fat_read_loop img_store n (fat_next D e) D =
      Some (Some (D ! fat_datano D ((fat_next D ^^ n) (fat_next D e))), D)"
  proof (rule Suc.IH)
    fix k assume "k \<le> n"
    then show "fat_entry_ok D ((fat_next D ^^ k) (fat_next D e))"
      using Suc.prems [of "Suc k"] by (simp add: funpow_swap1)
  qed
  moreover have "rd32 (D ! unat b) (fat_index e) = fat_next D e" by (simp add: fat_next_def b(2))
  ultimately show ?case using b(1) by (simp add: img_simps funpow_swap1)
qed

definition fsnap :: "block list \<Rightarrow> u32 \<Rightarrow> fatdisk_snapshot" where
  "fsnap D ino = \<lparr>fsn_super = D ! 0, fsn_inodeblock = D ! (1 + unat ino div 128),
     fsn_inode_blockno = of_nat (1 + unat ino div 128), fsn_inode_no = ino, fsn_inode = unat ino mod 128\<rparr>"

lemma fsnap_simps [simp]:
  "fsn_head (fsnap D ino) = fat_head D (unat ino)" "unat (fsn_nblocks (fsnap D ino)) = fat_size D (unat ino)"
  "fsn_super (fsnap D ino) = D ! 0"
  by (simp_all add: fsnap_def fsn_head_def fsn_nblocks_def fat_head_def fat_size_def)

lemma IPB128: "INODES_PER_BLOCK = 128"
  by (simp add: INODES_PER_BLOCK_def BLOCK_SIZE_def)

lemma fat_snapshot_img:
  assumes "length D < 2147483648" "fat_K D + 1 \<le> length D"
  shows "fatdisk_get_snapshot img_store D ino =
    Some (if unat ino < 128 * fat_K D then Some (fsnap D ino) else None, D)"
proof (cases "unat ino < 128 * fat_K D")
  case True
  then have d: "unat ino div 128 < fat_K D" by (simp add: less_mult_imp_div_less mult.commute)
  then have "unat (of_nat (1 + unat ino div 128) :: u32) = 1 + unat ino div 128"
    using assms by (intro unat32_of_nat) simp
  moreover have "\<not> unat (fs_n_inodeblocks (D ! 0)) * 128 \<le> unat ino" using True by (simp add: fat_K_def)
  moreover have "0 < length D" "1 + unat ino div 128 < length D" using d assms(2) by linarith+
  ultimately show ?thesis using True
    by (simp add: fatdisk_get_snapshot_def IPB128 img_read_def fsnap_def Let_def del: of_nat_add of_nat_Suc)
next
  case False
  moreover have "0 < length D" using assms(2) by linarith
  ultimately show ?thesis
    by (simp add: fatdisk_get_snapshot_def IPB128 img_read_def fat_K_def mult.commute)
qed

lemma fatdisk_read_img:
  assumes ok: "fat_ok D"
  shows "fatdisk_read img_store ino D off =
    Some (if unat ino < 128 * fat_K D \<and> unat off < fat_size D (unat ino)
          then Some (fat_data D (unat ino) ! unat off) else None, D)"
proof -
  note o = fat_okD [OF ok]
  have sn: "fatdisk_get_snapshot img_store D ino = Some (if unat ino < 128 * fat_K D then Some (fsnap D ino) else None, D)"
    using fat_snapshot_img [OF o(1)] o(2) by simp
  have le: "fsn_nblocks (fsnap D ino) \<le> off \<longleftrightarrow> fat_size D (unat ino) \<le> unat off"
    by (simp add: word_le_nat_alt)
  show ?thesis
  proof (cases "unat ino < 128 * fat_K D \<and> unat off < fat_size D (unat ino)")
    case True
    let ?h = "fat_head D (unat ino)" and ?n = "fat_size D (unat ino)"
    have "fat_entry_ok D ((fat_next D ^^ k) ?h)" if "k \<le> unat off" for k
    proof -
      have "k < ?n" using that True by simp
      then have "(fat_next D ^^ k) ?h \<in> set (fat_file D (unat ino))"
        using fat_chain_nth [of k ?n D ?h] nth_mem [of k "fat_file D (unat ino)"] by (simp add: fat_file_def)
      then show ?thesis using o(4) True by blast
    qed
    from fat_read_loop_img [OF o(1,2) this]
    have "fat_read_loop img_store (unat off) ?h D = Some (Some (D ! fat_datano D ((fat_next D ^^ unat off) ?h)), D)" .
    moreover have "fat_data D (unat ino) ! unat off = D ! fat_datano D ((fat_next D ^^ unat off) ?h)"
      using True fat_chain_nth [of "unat off" ?n D ?h] by (simp add: fat_data_def) (simp add: fat_file_def)
    ultimately show ?thesis using True by (simp add: fatdisk_read_def sn le)
  next
    case False
    then show ?thesis by (auto simp: fatdisk_read_def sn le not_less)
  qed
qed

section \<open>Writing inside a file\<close>

lemma fat_follow_img:
  assumes "length D < 2147483648" "fat_K D + fat_N D + 1 \<le> length D"
    and "\<And>k. k < n \<Longrightarrow> fat_entry_ok D ((fat_next D ^^ k) e)"
  shows "fat_follow img_store n e D = Some ((fat_next D ^^ n) e, D)"
  using assms(3)
proof (induction n arbitrary: e)
  case (Suc n)
  have e: "fat_entry_ok D e" using Suc.prems [of 0] by simp
  have l0: "0 < length D" using assms(2) by linarith
  obtain b where b: "find_fat_blockno img_store D e = Some (b, D)" "unat b = fat_blockno D e"
    using find_fat_blockno_img(1) [OF assms(1) l0 assms(2) e] by blast
  have "unat b < length D" using find_fat_blockno_img(2) [OF assms(1) l0 assms(2) e] b(2) by simp
  moreover have "fat_follow img_store n (fat_next D e) D = Some ((fat_next D ^^ n) (fat_next D e), D)"
  proof (rule Suc.IH)
    fix k assume "k < n"
    then show "fat_entry_ok D ((fat_next D ^^ k) (fat_next D e))"
      using Suc.prems [of "Suc k"] by (simp add: funpow_swap1)
  qed
  moreover have "rd32 (D ! unat b) (fat_index e) = fat_next D e" by (simp add: fat_next_def b(2))
  ultimately show ?case using b(1) by (simp add: img_simps funpow_swap1)
qed simp

lemma fat_traverse_img:
  assumes ok: "fat_ok D" and i: "unat ino < 128 * fat_K D" "unat off < fat_size D (unat ino)"
  shows "fatdisk_traverse img_store ino D off = Some (fat_file D (unat ino) ! unat off, D)"
proof -
  note o = fat_okD [OF ok]
  let ?h = "fat_head D (unat ino)" and ?n = "fat_size D (unat ino)"
  have sn: "fatdisk_get_snapshot img_store D ino = Some (Some (fsnap D ino), D)"
    using fat_snapshot_img [OF o(1), of ino] o(2) i(1) by simp
  have nle: "\<not> fsn_nblocks (fsnap D ino) \<le> off" using i(2) by (simp add: word_le_nat_alt)
  have nth: "(fat_next D ^^ k) ?h = fat_file D (unat ino) ! k" if "k < ?n" for k
    using fat_chain_nth [OF that, of D ?h] by (simp add: fat_file_def)
  have "fat_entry_ok D ((fat_next D ^^ k) ?h)" if "k < unat off" for k
    using nth [of k] nth_mem [of k "fat_file D (unat ino)"] o(4) [OF i(1)] that i(2) by simp
  from fat_follow_img [OF o(1,2) this] nth [OF i(2)]
  show ?thesis using nle by (simp add: fatdisk_traverse_def sn)
qed

lemma fat_overwrite_run:
  assumes ok: "fat_ok D" and i: "unat ino < 128 * fat_K D" "unat off < fat_size D (unat ino)"
  shows "fatdisk_write img_store fb ino D off b =
    Some (0, D[fat_datano D (fat_file D (unat ino) ! unat off) := b])"
proof -
  note o = fat_okD [OF ok]
  let ?e = "fat_file D (unat ino) ! unat off"
  have sn: "fatdisk_get_snapshot img_store D ino = Some (Some (fsnap D ino), D)"
    using fat_snapshot_img [OF o(1), of ino] o(2) i(1) by simp
  let ?n = "fsn_nblocks (fsnap D ino)"
  have n: "unat ?n = fat_size D (unat ino)" "0 < unat ?n" using i(2) by simp_all
  then have pos: "0 < ?n" by (simp add: word_less_nat_alt)
  have le: "unat off < unat ?n" using n(1) i(2) by simp
  then have "unat (off + 1) = Suc (unat off)"
    using unat32_le [of ?n] by (intro unat32_Suc) linarith
  then have nle: "\<not> ?n < off + 1" using le by (simp add: word_less_nat_alt)
  have "unat (?n - 1) = unat ?n - 1" using pos by (intro unat_minus_one) auto
  then have "unat (?n - 1) < fat_size D (unat ino)" using n by simp
  from fat_traverse_img [OF ok i(1) this]
  obtain l where last: "fatdisk_traverse img_store ino D (?n - 1) = Some (l, D)" by blast
  have ent: "fat_entry_ok D ?e" using o(4) [OF i(1)] nth_mem [of "unat off" "fat_file D (unat ino)"] i(2) by simp
  obtain db where db: "fatentry_to_datablock img_store D ?e = Some (db, D)" "unat db = fat_datano D ?e"
    using fatentry_to_datablock_img [OF o(1,3) ent] by blast
  have "fat_datano D ?e < length D" using ent by (simp add: fat_entry_ok_def)
  then show ?thesis
    using pos nle last fat_traverse_img [OF ok i] db
    by (simp add: fatdisk_write_def sn img_write_def)
qed

lemma fat_chain_same:
  "(\<And>x. x \<in> set (fat_chain D n e) \<Longrightarrow> fat_next D' x = fat_next D x) \<Longrightarrow> fat_chain D' n e = fat_chain D n e"
  by (induction n arbitrary: e) auto

lemma fat_data_write:
  fixes b :: block
  assumes ok: "fat_ok D" and "fat_K D + fat_N D < m" "m < length D"
  defines "D' \<equiv> D[m := b]"
  shows "fat_K D' = fat_K D" "fat_N D' = fat_N D"
    "i < 128 * fat_K D \<Longrightarrow> fat_file D' i = fat_file D i" "fat_ok D'"
proof -
  note o = fat_okD [OF ok]
  have low: "D' ! j = D ! j" if "j \<le> fat_K D + fat_N D" for j
    using that assms(2) by (simp add: D'_def nth_list_update_neq)
  then show K: "fat_K D' = fat_K D" and N: "fat_N D' = fat_N D" by (simp_all add: fat_K_def fat_N_def)
  have len: "length D' = length D" by (simp add: D'_def)
  have f: "fat_file D' i = fat_file D i" if i: "i < 128 * fat_K D" for i
  proof -
    have "i div 128 < fat_K D" using i by (simp add: less_mult_imp_div_less mult.commute)
    then have "D' ! (1 + i div 128) = D ! (1 + i div 128)" by (intro low) simp
    then have hs: "fat_head D' i = fat_head D i" "fat_size D' i = fat_size D i"
      by (simp_all add: fat_head_def fat_size_def)
    have "fat_next D' x = fat_next D x" if "x \<in> set (fat_file D i)" for x
    proof -
      have "fat_blockno D x \<le> fat_K D + fat_N D"
        using find_fat_blockno_img(4) [OF o(1,3,2) o(4) [OF i that]] by simp
      then show ?thesis by (simp add: fat_next_def fat_blockno_def K low)
    qed
    then show ?thesis unfolding fat_file_def hs by (intro fat_chain_same) (simp add: fat_file_def)
  qed
  show "i < 128 * fat_K D \<Longrightarrow> fat_file D' i = fat_file D i" by (rule f)
  have files: "map (fat_file D') [0..<128 * fat_K D] = map (fat_file D) [0..<128 * fat_K D]" using f by simp
  have ent: "fat_entry_ok D' e = fat_entry_ok D e" for e by (simp add: fat_entry_ok_def fat_datano_def K N len)
  show "fat_ok D'" unfolding fat_ok_def K N len files ent using o f by auto
qed

lemma fat_data_length: "length (fat_data D i) = fat_size D i"
  by (simp add: fat_data_def)

lemma fatdisk_overwrite_img:
  assumes ok: "fat_ok D" and i: "unat ino < 128 * fat_K D" "unat off < fat_size D (unat ino)"
  shows "\<exists>D'. fatdisk_write img_store fb ino D off b = Some (0, D') \<and> fat_ok D' \<and> fat_K D' = fat_K D \<and>
    fat_data D' (unat ino) = (fat_data D (unat ino))[unat off := b] \<and>
    (\<forall>j<128 * fat_K D. j \<noteq> unat ino \<longrightarrow> fat_data D' j = fat_data D j)"
proof -
  note o = fat_okD [OF ok]
  let ?i = "unat ino"
  define e where "e = fat_file D ?i ! unat off"
  define m where "m = fat_datano D e"
  have mem: "e \<in> set (fat_file D ?i)" using i(2) by (simp add: e_def)
  have m: "fat_K D + fat_N D < m" "m < length D"
    using o(4) [OF i(1) mem] by (simp_all add: m_def fat_entry_ok_def fat_datano_def)
  let ?D = "D[m := b]"
  note w = fat_data_write [where b = b, OF ok m]
  have dat: "fat_data ?D j ! k = (if fat_file D j ! k = e then b else fat_data D j ! k)"
    if "j < 128 * fat_K D" "k < fat_size D j" for j k
  proof -
    have "fat_datano ?D x = fat_datano D x" for x by (simp add: fat_datano_def w(1,2))
    moreover have "m = fat_datano D x \<longleftrightarrow> x = e" for x
      by (auto simp: m_def fat_datano_def unat32_inject)
    ultimately show ?thesis using that w(3) [OF that(1)] m(2)
      by (simp add: fat_data_def nth_list_update)
  qed
  have sz: "fat_size ?D j = fat_size D j" if "j < 128 * fat_K D" for j
    using arg_cong [OF w(3) [OF that], of length] by simp
  have inj: "fat_file D ?i ! k = e \<longleftrightarrow> k = unat off" if "k < fat_size D ?i" for k
  proof -
    have "distinct (fat_file D ?i)" using o(5) i(1) by (simp add: distinct_concat_iff)
    then show ?thesis using that i(2) by (simp add: e_def nth_eq_iff_index_eq)
  qed
  have "fat_data ?D ?i = (fat_data D ?i)[unat off := b]"
  proof (rule nth_equalityI)
    fix k assume "k < length (fat_data ?D ?i)"
    then have "k < fat_size D ?i" using sz [OF i(1)] by (simp add: fat_data_length)
    with dat [OF i(1) this] inj [OF this] show "fat_data ?D ?i ! k = (fat_data D ?i)[unat off := b] ! k"
      by (simp add: nth_list_update fat_data_length)
  qed (simp add: fat_data_length sz [OF i(1)])
  moreover have "fat_data ?D j = fat_data D j" if j: "j < 128 * fat_K D" "j \<noteq> ?i" for j
  proof (rule nth_equalityI)
    fix k assume "k < length (fat_data ?D j)"
    then have k: "k < fat_size D j" using sz [OF j(1)] by (simp add: fat_data_length)
    have "fat_file D j ! k \<noteq> e"
    proof
      assume "fat_file D j ! k = e"
      then have "e \<in> set (fat_file D j)" using k nth_mem [of k "fat_file D j"] by simp
      with distinct_concat_map_nth [OF o(5) j(1) i(1)] mem j(2) show False by blast
    qed
    with dat [OF j(1) k] show "fat_data ?D j ! k = fat_data D j ! k" by simp
  qed (simp add: fat_data_length sz [OF j(1)])
  ultimately show ?thesis
    using fat_overwrite_run [OF ok i, of fb b] w(1,4) by (simp add: e_def m_def)
qed

section \<open>Allocation failures\<close>

text \<open>With \<open>fatblocks = 0\<close>, its value until a file system is created, no allocation succeeds.\<close>

lemma free_entry_none: "find_free_entry img_store 0 D bno = None \<or> D = []"
  by (auto simp: find_free_entry_def img_read_def)

lemma fatdisk_alloc_unmounted:
  assumes "D \<noteq> []"
  shows "fatdisk_alloc img_store 0 D sn = None"
proof -
  let ?f = "fs_fat_free_list (fsn_super sn)"
  obtain b where b: "find_fat_blockno img_store D ?f = Some (b, D)"
    using assms by (simp add: find_fat_blockno_def img_read_def)
  show ?thesis
  proof (cases "unat b < length D")
    case True
    then have "find_free_entry img_store 0 (D[unat b := x]) b = None" for x
      using free_entry_none [of "D[unat b := x]" b] assms by auto
    then show ?thesis using True b by (simp add: fatdisk_alloc_def Let_def)
  next
    case False
    then show ?thesis using b by (simp add: fatdisk_alloc_def read_or_panic_def img_read_def)
  qed
qed

lemma fat_follow_state: "fat_follow img_store n e D = Some (r, D') \<Longrightarrow> D' = D"
proof (induction n arbitrary: e)
  case (Suc n)
  then show ?case
    by (auto simp: find_fat_blockno_def img_read_def split: if_splits option.splits)
qed simp

lemma fatdisk_traverse_state: "fatdisk_traverse img_store ino D off = Some (r, D') \<Longrightarrow> D' = D"
  by (auto simp: fatdisk_traverse_def fatdisk_get_snapshot_def img_read_def Let_def
      dest: fat_follow_state split: if_splits option.splits)

lemma fatdisk_extend_unmounted:
  assumes "length D < 2147483648" "fat_K D + 1 \<le> length D" "unat ino < 128 * fat_K D"
    and "fat_size D (unat ino) \<le> unat off" "off \<noteq> - 1"
  shows "fatdisk_write img_store 0 ino D off b = None"
proof -
  have D: "D \<noteq> []" using assms(2) by auto
  have sn: "fatdisk_get_snapshot img_store D ino = Some (Some (fsnap D ino), D)"
    using fat_snapshot_img [OF assms(1,2), of ino] assms(3) by simp
  let ?n = "fsn_nblocks (fsnap D ino)"
  have "unat ?n < unat (off + 1)" using assms(4) unat32_Suc_neq [OF assms(5)] by simp
  then have more: "?n < off + 1" by (simp add: word_less_nat_alt)
  then have "off + 1 - ?n \<noteq> 0" by auto
  then obtain k where k: "unat (off + 1 - ?n) = Suc k" by (metis not0_implies_Suc unat_eq_zero)
  have ext: "fat_extend img_store 0 off (Suc k) l False (fsnap D ino) D = None" for l
    using fatdisk_alloc_unmounted [OF D] by simp
  have "(if ?n > 0 then fatdisk_traverse img_store ino D (?n - 1) else Some (0, D)) = None \<or>
    (\<exists>l. (if ?n > 0 then fatdisk_traverse img_store ino D (?n - 1) else Some (0, D)) = Some (l, D))"
    by (cases "fatdisk_traverse img_store ino D (?n - 1)") (auto dest: fatdisk_traverse_state)
  then show ?thesis
    using more k ext by (auto simp: fatdisk_write_def sn simp del: fat_extend.simps)
qed

text \<open>
  The search starts at the index of the last allocation and never looks at the smaller indices
  of that block: with one FAT block, entries released before it are not found again.
\<close>

lemma fatdisk_alloc_misses:
  assumes "length D < 2147483648" "fat_K D + fat_N D + 1 \<le> length D"
    and "fat_entry_ok D (fs_fat_free_list (D ! 0))" "fsn_super sn = D ! 0"
    and "\<And>i. fat_index (fs_fat_free_list (D ! 0)) < i \<Longrightarrow> i < 256 \<Longrightarrow>
      rd32 (D ! fat_blockno D (fs_fat_free_list (D ! 0))) i \<noteq> 0"
  shows "fatdisk_alloc img_store 1 D sn = None"
proof -
  let ?f = "fs_fat_free_list (D ! 0)"
  have l0: "0 < length D" using assms(2) by linarith
  obtain b where b: "find_fat_blockno img_store D ?f = Some (b, D)" "unat b = fat_blockno D ?f"
    using find_fat_blockno_img(1) [OF assms(1) l0 assms(2,3)] by blast
  note bl = find_fat_blockno_img(2,3) [OF assms(1) l0 assms(2,3)]
  let ?B = "wr32 (D ! unat b) (fat_index ?f) (- 1)"
  let ?D = "D[unat b := ?B]"
  have D0: "?D ! 0 = D ! 0" using bl(2) b(2) by (simp add: nth_list_update_neq)
  have "rd32 ?B i \<noteq> 0" if "fat_index ?f \<le> i" "i < 256" for i
    using assms(5) [of i] that b(2) by (cases "i = fat_index ?f") simp_all
  then have "scan (\<lambda>i. rd32 ?B i = 0) (fat_index ?f) 256 = 256"
    using scan_bounds [of "fat_index ?f" 256 "\<lambda>i. rd32 ?B i = 0"]
      scan_found [of "\<lambda>i. rd32 ?B i = 0" "fat_index ?f" 256] fat_index_less [of ?f]
    by (metis le_neq_implies_less less_imp_le_nat)
  then have "find_free_entry img_store 1 ?D b = None"
    using bl(1) b(2) l0 D0 by (simp add: find_free_entry_def img_read_def numeral_eq_Suc Let_def)
  then show ?thesis using b bl(1) assms(4) by (simp add: fatdisk_alloc_def Let_def)
qed

section \<open>Over any store\<close>

context block_store
begin

lemma find_fat_blockno_sim [sim_intros]:
  "ok s \<Longrightarrow> sim ok img (find_fat_blockno bs s e) (find_fat_blockno img_store (img s) e)"
  unfolding find_fat_blockno_def img_store_simps by (intro sim_intros refl)

lemma fatentry_to_datablock_sim [sim_intros]:
  "ok s \<Longrightarrow> sim ok img (fatentry_to_datablock bs s e) (fatentry_to_datablock img_store (img s) e)"
  unfolding fatentry_to_datablock_def img_store_simps by (intro sim_intros refl)

lemma free_entry_loop_sim [sim_intros]:
  "ok s \<Longrightarrow> sim ok img (free_entry_loop bs fb k n bno i s) (free_entry_loop img_store fb k n bno i (img s))"
proof (induction n arbitrary: bno i s)
  case 0
  then show ?case by (simp add: sim_None)
next
  case (Suc n)
  then show ?case unfolding free_entry_loop.simps Let_def by (intro sim_intros refl)
qed

lemma fatdisk_alloc_sim [sim_intros]:
  "ok s \<Longrightarrow> sim ok img (fatdisk_alloc bs fb s sn) (fatdisk_alloc img_store fb (img s) sn)"
  unfolding fatdisk_alloc_def find_free_entry_def img_store_simps Let_def by (intro sim_intros refl)

lemma fat_snapshot_sim [sim_intros]:
  "ok s \<Longrightarrow> sim ok img (fatdisk_get_snapshot bs s ino) (fatdisk_get_snapshot img_store (img s) ino)"
  unfolding fatdisk_get_snapshot_def img_store_simps Let_def by (intro sim_intros refl)

lemma fat_follow_sim [sim_intros]:
  "ok s \<Longrightarrow> sim ok img (fat_follow bs n e s) (fat_follow img_store n e (img s))"
proof (induction n arbitrary: e s)
  case 0
  then show ?case by (simp add: sim_Some)
next
  case (Suc n)
  then show ?case unfolding fat_follow.simps img_store_simps by (intro sim_intros refl)
qed

lemma fat_traverse_sim [sim_intros]:
  "ok s \<Longrightarrow> sim ok img (fatdisk_traverse bs ino s off) (fatdisk_traverse img_store ino (img s) off)"
  unfolding fatdisk_traverse_def by (intro sim_intros refl)

lemma fat_extend_sim [sim_intros]:
  "ok s \<Longrightarrow> sim ok img (fat_extend bs fb off n l d sn s) (fat_extend img_store fb off n l d sn (img s))"
proof (induction n arbitrary: l d sn s)
  case 0
  then show ?case by (simp add: sim_Some)
next
  case (Suc n)
  then show ?case unfolding fat_extend.simps Let_def by (intro sim_intros refl)
qed

lemma fatdisk_write_sim:
  "ok s \<Longrightarrow> sim ok img (fatdisk_write bs fb ino s off b) (fatdisk_write img_store fb ino (img s) off b)"
  unfolding fatdisk_write_def img_store_simps Let_def by (intro sim_intros refl)

lemma fat_read_loop_sim [sim_intros]:
  "ok s \<Longrightarrow> sim ok img (fat_read_loop bs n e s) (fat_read_loop img_store n e (img s))"
proof (induction n arbitrary: e s)
  case 0
  then show ?case unfolding fat_read_loop.simps img_store_simps by (intro sim_intros refl)
next
  case (Suc n)
  then show ?case unfolding fat_read_loop.simps img_store_simps by (intro sim_intros refl)
qed

lemma fatdisk_read_sim:
  "ok s \<Longrightarrow> sim ok img (fatdisk_read bs ino s off) (fatdisk_read img_store ino (img s) off)"
  unfolding fatdisk_read_def img_store_simps by (intro sim_intros refl)

end

section \<open>Properties\<close>

text \<open>A disk with one file of one block, for the witnesses.\<close>

definition fat_demo :: "block list" where
  "fat_demo = [wr32 (wr32 null_block 0 1) 1 1, wr32 null_block 1 1, wr32 null_block 0 (- 1), 7]"

lemma fat_demo:
  "fat_K fat_demo = 1" "fat_N fat_demo = 1" "length fat_demo = 4" "fat_file fat_demo 0 = [0]"
  "j < 128 \<Longrightarrow> j \<noteq> 0 \<Longrightarrow> fat_file fat_demo j = []" "fat_data fat_demo 0 = [7]"
  "fat_size fat_demo 0 = 1"
proof -
  show K: "fat_K fat_demo = 1" and N: "fat_N fat_demo = 1" and "length fat_demo = 4"
    by (simp_all add: fat_demo_def fat_K_def fat_N_def fs_n_inodeblocks_def fs_n_fatblocks_def)
  have "rd32 (wr32 null_block 1 1) (2 * j + 1) = (if j = 0 then 1 else 0)"
    "rd32 (wr32 null_block 1 1) (2 * j) = 0" if "j < 128" for j
    using that by (subst rd32_wr32; simp)+
  then have sz: "fat_size fat_demo j = (if j = 0 then 1 else 0)" "fat_head fat_demo j = 0" if "j < 128" for j
    using that by (simp_all add: fat_size_def fat_head_def fat_demo_def)
  from sz [of 0] show "fat_size fat_demo 0 = 1" by simp
  from sz show f0: "fat_file fat_demo 0 = [0]" and "j < 128 \<Longrightarrow> j \<noteq> 0 \<Longrightarrow> fat_file fat_demo j = []"
    by (simp_all add: fat_file_def)
  show "fat_data fat_demo 0 = [7]"
    by (simp add: fat_data_def f0 fat_datano_def K N) (simp add: fat_demo_def)
qed

lemma fat_demo_ok: "fat_ok fat_demo"
proof -
  have f: "fat_file fat_demo i = (if i = 0 then [0] else [])" if "i < 128" for i
    using fat_demo(4,5) that by simp
  then have m: "map (fat_file fat_demo) [0..<128] = [0] # map (fat_file fat_demo) [Suc 0..<128]"
    by (simp add: upt_conv_Cons)
  have c: "concat (map (fat_file fat_demo) [Suc 0..<128]) = []" using f by simp
  have "distinct (concat (map (fat_file fat_demo) [0..<128]))" unfolding m concat.simps c by simp
  then show ?thesis
    using f by (auto simp: fat_ok_def fat_demo fat_entry_ok_def fat_datano_def split: if_splits)
qed

text \<open>C8: Reading a file of a well-formed FAT file system follows its chain of entries to the block at
  the offset; offsets outside the file and inode numbers that do not exist are errors.\<close>
theorem fatdisk_read_correct:
  assumes "block_store below ok img" "ok s" "fat_ok (img s)"
  shows "\<exists>s'. fatdisk_read below ino s off =
      Some (if unat ino < 128 * fat_K (img s) \<and> unat off < fat_size (img s) (unat ino)
            then Some (fat_data (img s) (unat ino) ! unat off) else None, s') \<and> ok s' \<and> img s' = img s"
  using sim_SomeD [OF block_store.fatdisk_read_sim [OF assms(1,2), of ino off,
      unfolded fatdisk_read_img [OF assms(3), of ino off]]] .

theorem fatdisk_read_correct_witness: "fatdisk_read img_store 0 fat_demo 0 = Some (Some 7, fat_demo)"
  using fatdisk_read_correct [OF ref_disk.block_store_axioms _ fat_demo_ok, of 0 0] by (auto simp: fat_demo)

text \<open>Overwriting a block inside a file changes that block of that file and nothing else: all
  other blocks of the file and the contents of all other files stay as they were, the chains stay
  well formed.\<close>
theorem fatdisk_overwrite_correct:
  assumes "block_store below ok img" "ok s" "fat_ok (img s)"
    and "unat ino < 128 * fat_K (img s)" "unat off < fat_size (img s) (unat ino)"
  shows "\<exists>s'. fatdisk_write below fatblocks ino s off b = Some (0, s') \<and> ok s' \<and> fat_ok (img s') \<and>
    fat_K (img s') = fat_K (img s) \<and>
    fat_data (img s') (unat ino) = (fat_data (img s) (unat ino))[unat off := b] \<and>
    (\<forall>j<128 * fat_K (img s). j \<noteq> unat ino \<longrightarrow> fat_data (img s') j = fat_data (img s) j)"
proof -
  from fatdisk_overwrite_img [OF assms(3-5), of fatblocks b]
  obtain D' where D': "fatdisk_write img_store fatblocks ino (img s) off b = Some (0, D')" "fat_ok D'"
    "fat_K D' = fat_K (img s)" "fat_data D' (unat ino) = (fat_data (img s) (unat ino))[unat off := b]"
    "\<forall>j<128 * fat_K (img s). j \<noteq> unat ino \<longrightarrow> fat_data D' j = fat_data (img s) j" by blast
  from block_store.fatdisk_write_sim [OF assms(1,2), of fatblocks ino off b]
  obtain s' where "fatdisk_write below fatblocks ino s off b = Some (0, s')" "ok s'" "img s' = D'"
    unfolding D'(1) by (auto dest: sim_SomeD)
  with D' show ?thesis by blast
qed

theorem fatdisk_overwrite_correct_witness:
  "\<exists>D. fatdisk_write img_store 1 0 fat_demo 0 9 = Some (0, D) \<and> fat_data D 0 = [9]"
  using fatdisk_overwrite_correct [OF ref_disk.block_store_axioms _ fat_demo_ok, of 0 0 1 9] by (auto simp: fat_demo)

text \<open>When the module has not created the file system itself since it was started (its static
  variable \<open>fatblocks\<close> is then 0), a write that extends a file never returns, however much space is
  free: the search for a free entry visits no FAT block.\<close>
theorem fatdisk_extend_after_restart:
  assumes "block_store below ok img" "ok s"
    and "fat_K (img s) + 1 \<le> length (img s)" "unat ino < 128 * fat_K (img s)"
    and "fat_size (img s) (unat ino) \<le> unat off" "off \<noteq> - 1"
  shows "fatdisk_write below 0 ino s off b = None"
  using fatdisk_extend_unmounted [OF block_store.img_small [OF assms(1,2)] assms(3-6), of b]
    block_store.fatdisk_write_sim [OF assms(1,2), of 0 ino off b]
  by (metis sim_NoneD)

theorem fatdisk_extend_after_restart_witness: "fatdisk_write img_store 0 0 fat_demo 1 9 = None"
proof -
  have "(1 :: u32) \<noteq> - 1" by simp
  then show ?thesis
    using fatdisk_extend_after_restart [OF ref_disk.block_store_axioms, of fat_demo 0 1 9] by (simp add: fat_demo)
qed

text \<open>On a disk with one FAT block the allocator stops with the disk full although entries below
  the last allocated one are free: it searches from that entry to the end of the block only.\<close>
theorem fatdisk_alloc_skips_free:
  assumes "block_store below ok img" "ok s"
    and "fat_K (img s) + fat_N (img s) + 1 \<le> length (img s)"
    and "fat_entry_ok (img s) (fs_fat_free_list (img s ! 0))" "fsn_super sn = img s ! 0"
    and "\<And>i. fat_index (fs_fat_free_list (img s ! 0)) < i \<Longrightarrow> i < 256 \<Longrightarrow>
      rd32 (img s ! fat_blockno (img s) (fs_fat_free_list (img s ! 0))) i \<noteq> 0"
  shows "fatdisk_alloc below 1 s sn = None"
  using fatdisk_alloc_misses [OF block_store.img_small [OF assms(1,2)] assms(3-6)]
    block_store.fatdisk_alloc_sim [OF assms(1,2), of 1 sn]
  by (metis sim_NoneD)

text \<open>The disk of the witness: entry 255 is next to be allocated and all other entries are free.\<close>

definition fat_full :: "block list" where
  "fat_full = [wr32 (wr32 (wr32 null_block 0 1) 1 1) 2 255, null_block, null_block] @ replicate 256 0"

theorem fatdisk_alloc_skips_free_witness:
  "fatdisk_alloc img_store 1 fat_full (fsnap fat_full 0) = None \<and>
   rd32 (fat_full ! 2) 0 = 0 \<and> rd32 (fat_full ! 2) 254 = 0"
proof -
  have f: "fs_fat_free_list (fat_full ! 0) = 255" "fat_K fat_full = 1" "fat_N fat_full = 1"
    "length fat_full = 259" "fat_full ! 2 = null_block"
    by (simp_all add: fat_full_def fs_fat_free_list_def fat_K_def fat_N_def fs_n_inodeblocks_def fs_n_fatblocks_def)
  have "fat_index 255 = 255" by (simp add: fat_index_def)
  then have "fatdisk_alloc img_store 1 fat_full (fsnap fat_full 0) = None"
    using fatdisk_alloc_skips_free [OF ref_disk.block_store_axioms, of fat_full "fsnap fat_full 0"]
    by (simp add: f fat_entry_ok_def fat_datano_def)
  then show ?thesis by (simp add: f)
qed

end
