(* ===== verification/Queue.thy ===== *)
theory Queue
  imports Prelude
begin

text \<open>
  The linked queues of \<open>egos/shared/queue.c\<close>, on an explicit heap: the code keeps a pointer to
  the first element and a pointer to the last link (\<open>struct element **last\<close>), which is either
  the field \<open>first\<close> of the queue itself or the field \<open>next\<close> of an element. The address that
  \<open>calloc\<close> or \<open>my_alloc\<close> returns is an argument of the operations that allocate (\<open>None\<close> when
  there is no memory); following a dangling pointer stops the run.

  The interface \<open>fifo_queue\<close> states what a queue promises by an abstraction to lists. Its
  client lemma says that every sequence of operations returns what the list returns.
\<close>

section \<open>Interface\<close>

datatype 'v queue_op = Enq 'v | Push 'v | Deq

text \<open>The runs of a sequence of operations; \<open>room\<close> finds the address of the next allocation.\<close>

fun run_queue :: "(nat \<Rightarrow> 's \<Rightarrow> 'v \<Rightarrow> 's option) \<Rightarrow> (nat \<Rightarrow> 's \<Rightarrow> 'v \<Rightarrow> 's option) \<Rightarrow>
    ('s \<Rightarrow> ('v option \<times> 's) option) \<Rightarrow> ('s \<Rightarrow> nat) \<Rightarrow> 'v queue_op list \<Rightarrow> 's \<Rightarrow> ('v option list \<times> 's) option" where
  "run_queue enq push deq new [] s = Some ([], s)"
| "run_queue enq push deq new (Enq v # ops) s = do {
     s \<leftarrow> enq (new s) s v;
     run_queue enq push deq new ops s }"
| "run_queue enq push deq new (Push v # ops) s = do {
     s \<leftarrow> push (new s) s v;
     run_queue enq push deq new ops s }"
| "run_queue enq push deq new (Deq # ops) s = do {
     (r, s) \<leftarrow> deq s;
     (rs, s) \<leftarrow> run_queue enq push deq new ops s;
     Some (r # rs, s) }"

fun run_list :: "'v queue_op list \<Rightarrow> 'v list \<Rightarrow> 'v option list \<times> 'v list" where
  "run_list [] xs = ([], xs)"
| "run_list (Enq v # ops) xs = run_list ops (xs @ [v])"
| "run_list (Push v # ops) xs = run_list ops (v # xs)"
| "run_list (Deq # ops) [] = (let (rs, ys) = run_list ops [] in (None # rs, ys))"
| "run_list (Deq # ops) (x # xs) = (let (rs, ys) = run_list ops xs in (Some x # rs, ys))"

fun op_ok :: "('v \<Rightarrow> bool) \<Rightarrow> 'v queue_op \<Rightarrow> bool" where
  "op_ok adm (Enq v) = adm v"
| "op_ok adm (Push v) = adm v"
| "op_ok adm Deq = True"

lemma op_ok_True: "op_ok (\<lambda>v. True) opr"
  by (cases opr) auto

locale fifo_queue =
  fixes ok :: "'s \<Rightarrow> bool" and items :: "'s \<Rightarrow> 'v list" and room :: "nat \<Rightarrow> 's \<Rightarrow> bool"
    and adm :: "'v \<Rightarrow> bool"
    and enq :: "nat \<Rightarrow> 's \<Rightarrow> 'v \<Rightarrow> 's option" and push :: "nat \<Rightarrow> 's \<Rightarrow> 'v \<Rightarrow> 's option"
    and deq :: "'s \<Rightarrow> ('v option \<times> 's) option"
  assumes enq_law: "ok s \<Longrightarrow> room a s \<Longrightarrow> adm v \<Longrightarrow> \<exists>s'. enq a s v = Some s' \<and> ok s' \<and> items s' = items s @ [v]"
    and push_law: "ok s \<Longrightarrow> room a s \<Longrightarrow> adm v \<Longrightarrow> \<exists>s'. push a s v = Some s' \<and> ok s' \<and> items s' = v # items s"
    and deq_empty: "ok s \<Longrightarrow> items s = [] \<Longrightarrow> deq s = Some (None, s)"
    and deq_item: "ok s \<Longrightarrow> items s = v # vs \<Longrightarrow> \<exists>s'. deq s = Some (Some v, s') \<and> ok s' \<and> items s' = vs"
begin

lemma run_refines:
  assumes "ok s" "\<And>s. ok s \<Longrightarrow> length (items s) < n \<Longrightarrow> room (new s) s"
    and "list_all (op_ok adm) ops" "length (items s) + length ops \<le> n"
  shows "\<exists>s'. run_queue enq push deq new ops s = Some (fst (run_list ops (items s)), s') \<and> ok s' \<and>
    items s' = snd (run_list ops (items s))"
  using assms(1,3,4)
proof (induction ops arbitrary: s)
  case (Cons opr ops)
  have r: "room (new s) s" using assms(2) Cons.prems by simp
  show ?case
  proof (cases opr)
    case (Enq v)
    with enq_law [OF Cons.prems(1) r, of v] Cons.prems(2) obtain s' where
      s: "enq (new s) s v = Some s'" "ok s'" "items s' = items s @ [v]" by auto
    with Cons.IH [of s'] Cons.prems Enq show ?thesis by simp
  next
    case (Push v)
    with push_law [OF Cons.prems(1) r, of v] Cons.prems(2) obtain s' where
      s: "push (new s) s v = Some s'" "ok s'" "items s' = v # items s" by auto
    with Cons.IH [of s'] Cons.prems Push show ?thesis by simp
  next
    case Deq
    show ?thesis
    proof (cases "items s")
      case Nil
      with Cons.IH [of s] Cons.prems Deq deq_empty [OF Cons.prems(1)] show ?thesis
        by (auto split: prod.splits)
    next
      case (Cons v vs)
      with deq_item [OF Cons.prems(1)] obtain s' where
        s: "deq s = Some (Some v, s')" "ok s'" "items s' = vs" by blast
      with Cons.IH [of s'] Cons.prems Deq Cons show ?thesis by (auto split: prod.splits)
    qed
  qed
qed simp

end

section \<open>The queue\<close>

type_synonym addr = nat
type_synonym ptr = u64

record element =
  el_next :: "addr option"
  el_item :: ptr

datatype link = First | Next addr

record queue =
  q_first :: "addr option"
  q_last :: link

type_synonym queue_heap = "addr \<Rightarrow> element option"
type_synonym queue_mem = "queue_heap \<times> queue"

definition queue_init :: queue where
  "queue_init = \<lparr>q_first = None, q_last = First\<rparr>"

definition queue_insert :: "addr option \<Rightarrow> queue_mem \<Rightarrow> ptr \<Rightarrow> queue_mem option" where
  "queue_insert new m item = (case m of (h, q) \<Rightarrow> do {
     e \<leftarrow> new;
     let q' = (if q_first q = None then q\<lparr>q_last := Next e\<rparr> else q);
     Some (h(e \<mapsto> \<lparr>el_next = q_first q, el_item = item\<rparr>), q'\<lparr>q_first := Some e\<rparr>) })"

text \<open>The assignment \<open>*q->last = e\<close>.\<close>

definition store_link :: "link \<Rightarrow> addr option \<Rightarrow> queue_mem \<Rightarrow> queue_mem option" where
  "store_link l p m = (case m of (h, q) \<Rightarrow>
     (case l of
        First \<Rightarrow> Some (h, q\<lparr>q_first := p\<rparr>)
      | Next a \<Rightarrow> (case h a of None \<Rightarrow> None | Some e \<Rightarrow> Some (h(a \<mapsto> e\<lparr>el_next := p\<rparr>), q))))"

definition queue_append :: "addr option \<Rightarrow> queue_mem \<Rightarrow> ptr \<Rightarrow> queue_mem option" where
  "queue_append new m item = (case m of (h, q) \<Rightarrow> do {
     e \<leftarrow> new;
     (h, q) \<leftarrow> store_link (q_last q) (Some e) (h(e \<mapsto> \<lparr>el_next = None, el_item = item\<rparr>), q);
     Some (h, q\<lparr>q_last := Next e\<rparr>) })"

definition queue_add_uint :: "addr option \<Rightarrow> queue_mem \<Rightarrow> u32 \<Rightarrow> queue_mem option" where
  "queue_add_uint new m item = queue_append new m (ucast item)"

definition queue_tget :: "queue_mem \<Rightarrow> (ptr option \<times> queue_mem) option" where
  "queue_tget m = (case m of (h, q) \<Rightarrow>
     (case q_first q of
        None \<Rightarrow> Some (None, m)
      | Some e \<Rightarrow> (case h e of
            None \<Rightarrow> None
          | Some el \<Rightarrow>
              let q = q\<lparr>q_first := el_next el\<rparr>;
                  q = (if q_first q = None then q\<lparr>q_last := First\<rparr> else q)
              in Some (Some (el_item el), (h(e := None), q)))))"

text \<open>The result 0 of \<open>queue_get\<close> does not tell an empty queue from a null item.\<close>

definition queue_get :: "queue_mem \<Rightarrow> (ptr \<times> queue_mem) option" where
  "queue_get m = (case m of (h, q) \<Rightarrow>
     (case q_first q of
        None \<Rightarrow> Some (0, m)
      | Some e \<Rightarrow> (case h e of
            None \<Rightarrow> None
          | Some el \<Rightarrow>
              let q = q\<lparr>q_first := el_next el\<rparr>;
                  q = (if q_first q = None then q\<lparr>q_last := First\<rparr> else q)
              in Some (el_item el, (h(e := None), q)))))"

definition queue_get_uint :: "queue_mem \<Rightarrow> (u32 option \<times> queue_mem) option" where
  "queue_get_uint m = do {
     (r, m) \<leftarrow> queue_tget m;
     Some (map_option ucast r, m) }"

definition queue_empty :: "queue_mem \<Rightarrow> bool" where
  "queue_empty m = (q_first (snd m) = None)"

definition queue_release :: "queue_mem \<Rightarrow> unit option" where
  "queue_release m = (if q_first (snd m) = None then Some () else None)"

section \<open>Queues represent lists\<close>

fun chain :: "(addr \<Rightarrow> addr option option) \<Rightarrow> addr option \<Rightarrow> addr list \<Rightarrow> addr option \<Rightarrow> bool" where
  "chain nx p [] q \<longleftrightarrow> p = q"
| "chain nx p (a # as) q \<longleftrightarrow> p = Some a \<and> (case nx a of None \<Rightarrow> False | Some n \<Rightarrow> chain nx n as q)"

lemma chain_frame: "a \<notin> set as \<Longrightarrow> chain (nx(a := e)) p as q = chain nx p as q"
  by (induction as arbitrary: p) (auto split: option.splits)

lemma chain_append: "chain nx p (as @ bs) q \<longleftrightarrow> (\<exists>r. chain nx p as r \<and> chain nx r bs q)"
  by (induction as arbitrary: p) (auto split: option.splits)

lemma chain_dom: "chain nx p as q \<Longrightarrow> a \<in> set as \<Longrightarrow> nx a \<noteq> None"
  by (induction as arbitrary: p) (auto split: option.splits)

lemma chain_functional: "chain nx p as None \<Longrightarrow> chain nx p bs None \<Longrightarrow> as = bs"
proof (induction as arbitrary: p bs)
  case Nil
  then show ?case by (cases bs) auto
next
  case (Cons a as)
  then show ?case by (cases bs) (auto split: option.splits)
qed

definition nexts :: "queue_heap \<Rightarrow> addr \<Rightarrow> addr option option" where
  "nexts h a = map_option el_next (h a)"

definition elem_items :: "queue_heap \<Rightarrow> addr list \<Rightarrow> ptr option list" where
  "elem_items h as = map (\<lambda>a. map_option el_item (h a)) as"

definition queue_rep :: "queue_mem \<Rightarrow> addr list \<Rightarrow> ptr list \<Rightarrow> bool" where
  "queue_rep m as xs \<longleftrightarrow> (case m of (h, q) \<Rightarrow>
     chain (nexts h) (q_first q) as None \<and> distinct as \<and> elem_items h as = map Some xs \<and>
     q_last q = (if as = [] then First else Next (last as)))"

lemma nexts_upd [simp]: "nexts (h(a \<mapsto> e)) = (nexts h)(a \<mapsto> el_next e)" "nexts (h(a := None)) = (nexts h)(a := None)"
  by (auto simp: nexts_def fun_eq_iff)

lemma nexts_None [simp]: "nexts h a = None \<longleftrightarrow> h a = None"
  by (simp add: nexts_def)

lemma elem_items_frame [simp]: "a \<notin> set as \<Longrightarrow> elem_items (h(a := e)) as = elem_items h as"
  by (auto simp: elem_items_def)

lemma elem_items_simps [simp]: "elem_items h [] = []" "elem_items h (a # as) = map_option el_item (h a) # elem_items h as"
    "elem_items h (as @ bs) = elem_items h as @ elem_items h bs"
  by (simp_all add: elem_items_def)

lemma queue_rep_init: "queue_rep (h, queue_init) [] []"
  by (simp add: queue_rep_def queue_init_def)

lemma queue_rep_fresh: "queue_rep (h, q) as xs \<Longrightarrow> h e = None \<Longrightarrow> e \<notin> set as"
  using chain_dom [of "nexts h" "q_first q" as None e] by (auto simp: queue_rep_def)

lemma queue_append_rep:
  assumes "queue_rep (h, q) as xs" "h e = None"
  shows "\<exists>m. queue_append (Some e) (h, q) x = Some m \<and> queue_rep m (as @ [e]) (xs @ [x])"
proof (cases as rule: rev_cases)
  case Nil
  then show ?thesis using assms by (simp add: queue_rep_def queue_append_def store_link_def)
next
  case (snoc bs b)
  note new = queue_rep_fresh [OF assms]
  from assms(1) snoc have c: "chain (nexts h) (q_first q) bs (Some b)" "elem_items h as = map Some xs"
    "distinct (bs @ [b])" "q_last q = Next b"
    by (auto simp: queue_rep_def chain_append split: option.splits)
  from assms(1) snoc obtain el where el: "h b = Some el"
    by (auto simp: queue_rep_def chain_append nexts_def split: option.splits)
  have eb: "e \<noteq> b" using el assms(2) by auto
  let ?h = "h(e \<mapsto> \<lparr>el_next = None, el_item = x\<rparr>, b \<mapsto> el\<lparr>el_next := Some e\<rparr>)"
  have run: "queue_append (Some e) (h, q) x = Some (?h, q\<lparr>q_last := Next e\<rparr>)"
    using c el eb by (simp add: queue_append_def store_link_def)
  have "chain (nexts ?h) (q_first q) bs (Some b)" using c new snoc by (simp add: chain_frame)
  moreover have "chain (nexts ?h) (Some b) [b, e] None" using eb by simp
  ultimately have "chain (nexts ?h) (q_first q) (bs @ [b, e]) None" unfolding chain_append by blast
  moreover have "elem_items ?h (as @ [e]) = map Some (xs @ [x])"
    using c(2,3) new snoc el eb by auto
  ultimately have "queue_rep (?h, q\<lparr>q_last := Next e\<rparr>) (as @ [e]) (xs @ [x])"
    using c(3) new snoc by (simp add: queue_rep_def)
  then show ?thesis unfolding run by blast
qed

lemma queue_insert_rep:
  assumes "queue_rep (h, q) as xs" "h e = None"
  shows "\<exists>m. queue_insert (Some e) (h, q) x = Some m \<and> queue_rep m (e # as) (x # xs)"
proof -
  have "q_first q = None \<longleftrightarrow> as = []" using assms(1) by (cases as) (auto simp: queue_rep_def)
  then show ?thesis using assms queue_rep_fresh [OF assms]
    by (auto simp: queue_insert_def queue_rep_def chain_frame)
qed

lemma queue_tget_rep:
  assumes "queue_rep (h, q) (a # as) xs"
  shows "\<exists>x ys m. xs = x # ys \<and> queue_tget (h, q) = Some (Some x, m) \<and> queue_rep m as ys \<and> fst m = h(a := None)"
proof -
  from assms obtain el where el: "h a = Some el" "q_first q = Some a" "chain (nexts h) (el_next el) as None"
    by (auto simp: queue_rep_def nexts_def split: option.splits)
  from assms el(1) obtain x ys where x: "xs = x # ys" "el_item el = x" "elem_items h as = map Some ys"
    by (cases xs) (auto simp: queue_rep_def)
  from assms have d: "a \<notin> set as" "distinct as" "q_last q = Next (last (a # as))" by (auto simp: queue_rep_def)
  let ?q = "q\<lparr>q_first := el_next el, q_last := if el_next el = None then First else q_last q\<rparr>"
  have n: "el_next el = None \<longleftrightarrow> as = []" using el(3) by (cases as) auto
  have run: "queue_tget (h, q) = Some (Some x, (h(a := None), ?q))"
    using el x by (simp add: queue_tget_def Let_def)
  have "queue_rep (h(a := None), ?q) as ys" using n el x d by (simp add: queue_rep_def chain_frame)
  with x(1) run show ?thesis by auto
qed

lemma queue_tget_nil: "queue_rep (h, q) [] xs \<Longrightarrow> xs = [] \<and> queue_tget (h, q) = Some (None, (h, q))"
  by (auto simp: queue_rep_def queue_tget_def)

lemma queue_rep_unique: "queue_rep m as xs \<Longrightarrow> queue_rep m bs ys \<Longrightarrow> xs = ys"
proof -
  assume r: "queue_rep m as xs" "queue_rep m bs ys"
  then have "as = bs" by (auto simp: queue_rep_def dest: chain_functional)
  with r have "map Some xs = map Some ys" by (auto simp: queue_rep_def)
  then show "xs = ys" by (simp add: inj_map_eq_map)
qed

lemma queue_rep_nil: "queue_rep m as [] \<Longrightarrow> as = []"
  by (auto simp: queue_rep_def elem_items_def)

text \<open>The abstraction: the list of the items of a queue that represents one.\<close>

definition queue_ok :: "queue_mem \<Rightarrow> bool" where
  "queue_ok m \<longleftrightarrow> (\<exists>as xs. queue_rep m as xs) \<and> finite (dom (fst m))"

definition queue_items :: "queue_mem \<Rightarrow> ptr list" where
  "queue_items m = (THE xs. \<exists>as. queue_rep m as xs)"

lemma queue_items: "queue_rep m as xs \<Longrightarrow> queue_items m = xs"
  unfolding queue_items_def
  by (rule the_equality) (auto dest: queue_rep_unique)

lemma queue_okI: "queue_rep m as xs \<Longrightarrow> finite (dom (fst m)) \<Longrightarrow> queue_ok m"
  by (auto simp: queue_ok_def)

lemma queue_okE:
  assumes "queue_ok m"
  obtains as where "queue_rep m as (queue_items m)" "finite (dom (fst m))"
  using assms by (auto simp: queue_ok_def queue_items)

lemma store_link_dom: "store_link l p m = Some m' \<Longrightarrow> finite (dom (fst m)) \<Longrightarrow> finite (dom (fst m'))"
  by (auto simp: store_link_def split: link.splits option.splits prod.splits)

lemma queue_append_dom: "queue_append e m x = Some m' \<Longrightarrow> finite (dom (fst m)) \<Longrightarrow> finite (dom (fst m'))"
  by (auto simp: queue_append_def split: prod.splits bind_splits dest: store_link_dom)

lemma queue_insert_dom: "queue_insert e m x = Some m' \<Longrightarrow> finite (dom (fst m)) \<Longrightarrow> finite (dom (fst m'))"
  by (auto simp: queue_insert_def Let_def split: prod.splits bind_splits)

interpretation linked: fifo_queue queue_ok queue_items "\<lambda>a m. fst m a = None" "\<lambda>v. True"
  "\<lambda>a. queue_append (Some a)" "\<lambda>a. queue_insert (Some a)" queue_tget
proof (unfold_locales, goal_cases)
  case (1 s a v)
  from 1(1) obtain as where rep: "queue_rep s as (queue_items s)" "finite (dom (fst s))" by (rule queue_okE)
  with 1(2) queue_append_rep [of "fst s" "snd s" as "queue_items s" a v] obtain m where
    m: "queue_append (Some a) s v = Some m" "queue_rep m (as @ [a]) (queue_items s @ [v])" by auto
  with queue_okI [OF m(2) queue_append_dom [OF m(1) rep(2)]] queue_items [OF m(2)] show ?case by simp
next
  case (2 s a v)
  from 2(1) obtain as where rep: "queue_rep s as (queue_items s)" "finite (dom (fst s))" by (rule queue_okE)
  with 2(2) queue_insert_rep [of "fst s" "snd s" as "queue_items s" a v] obtain m where
    m: "queue_insert (Some a) s v = Some m" "queue_rep m (a # as) (v # queue_items s)" by auto
  with queue_okI [OF m(2) queue_insert_dom [OF m(1) rep(2)]] queue_items [OF m(2)] show ?case by simp
next
  case (3 s)
  from 3(1) obtain as where rep: "queue_rep s as (queue_items s)" by (rule queue_okE)
  with 3(2) have "as = []" using queue_rep_nil by simp
  with rep queue_tget_nil [of "fst s" "snd s"] show ?case by simp
next
  case (4 s v vs)
  from 4(1) obtain as where rep: "queue_rep s as (v # vs)" "finite (dom (fst s))"
    using 4 by (auto elim: queue_okE)
  have "as \<noteq> []" using rep(1) by (auto simp: queue_rep_def split: prod.splits)
  then obtain b bs where as: "as = b # bs" by (cases as) simp_all
  from queue_tget_rep [of "fst s" "snd s" b bs "v # vs"] rep(1) as obtain m where
    m: "queue_tget s = Some (Some v, m)" "queue_rep m bs vs" "fst m = (fst s)(b := None)" by auto
  with queue_okI [OF m(2)] rep(2) queue_items [OF m(2)] show ?case by simp
qed

text \<open>An allocator: the first address that is not in use.\<close>

definition new_addr :: "(addr \<Rightarrow> 'e option) \<Rightarrow> addr" where
  "new_addr h = Suc (Max (insert 0 (dom h)))"

lemma new_addr: "finite (dom h) \<Longrightarrow> h (new_addr h) = None"
proof (rule ccontr)
  assume "finite (dom h)" "h (new_addr h) \<noteq> None"
  then have "Suc (Max (insert 0 (dom h))) \<le> Max (insert 0 (dom h))"
    unfolding new_addr_def by (intro Max_ge) auto
  then show False by simp
qed

section \<open>Properties\<close>

text \<open>C20: Any sequence of appends, insertions at the front and removals on a linked queue returns
  exactly what the same sequence on a list returns, no dangling link is followed, and the queue
  represents the resulting list: first in, first out, and insertions overtake.\<close>
theorem queue_refines_list:
  assumes "queue_rep (h, q) as xs" "finite (dom h)"
    and "\<And>m :: queue_mem. finite (dom (fst m)) \<Longrightarrow> fst m (new m) = None"
  shows "\<exists>m bs. run_queue (\<lambda>a. queue_append (Some a)) (\<lambda>a. queue_insert (Some a)) queue_tget new ops (h, q) =
      Some (fst (run_list ops xs), m) \<and> queue_rep m bs (snd (run_list ops xs))"
proof -
  have "list_all (op_ok (\<lambda>v. True)) ops" by (simp add: list_all_iff op_ok_True)
  moreover have "queue_ok (h, q)" by (rule queue_okI [OF assms(1)]) (simp add: assms(2))
  moreover have "queue_items (h, q) = xs" using assms(1) by (rule queue_items)
  moreover have "fst m (new m) = None" if "queue_ok m" for m using that by (intro assms(3)) (auto elim: queue_okE)
  ultimately obtain m where "run_queue (\<lambda>a. queue_append (Some a)) (\<lambda>a. queue_insert (Some a)) queue_tget new ops (h, q) =
      Some (fst (run_list ops xs), m)" "queue_ok m" "queue_items m = snd (run_list ops xs)"
    using linked.run_refines [of "(h, q)" "length xs + length ops" new ops] by auto
  then show ?thesis by (metis queue_okE)
qed

theorem queue_refines_list_witness:
  "map_option fst (run_queue (\<lambda>a. queue_append (Some a)) (\<lambda>a. queue_insert (Some a)) queue_tget (\<lambda>m. new_addr (fst m))
     [Enq 7, Enq 8, Push 9, Deq, Deq, Deq, Deq, Enq 3, Deq] (Map.empty, queue_init)) =
   Some [Some 9, Some 7, Some 8, None, Some 3]"
  using queue_refines_list [OF queue_rep_init, of Map.empty "\<lambda>m. new_addr (fst m)"
      "[Enq 7, Enq 8, Push 9, Deq, Deq, Deq, Deq, Enq 3, Deq]"] new_addr by auto

text \<open>An unsigned integer that goes through a queue comes out unchanged, whatever its value.\<close>
theorem queue_uint_roundtrip:
  assumes "queue_rep (h, q) as xs" "h e = None"
  shows "\<exists>m. queue_add_uint (Some e) (h, q) v = Some m \<and>
    (\<exists>bs. queue_rep m bs (xs @ [ucast v])) \<and> (xs = [] \<longrightarrow> map_option fst (queue_get_uint m) = Some (Some v))"
proof -
  from queue_append_rep [OF assms, of "ucast v"] obtain h' q' where
    m: "queue_add_uint (Some e) (h, q) v = Some (h', q')" "queue_rep (h', q') (as @ [e]) (xs @ [ucast v])"
    by (auto simp: queue_add_uint_def)
  have "map_option fst (queue_get_uint (h', q')) = Some (Some v)" if "xs = []"
  proof -
    from assms(1) that have "as = []" using queue_rep_nil by simp
    with m(2) that queue_tget_rep [of h' q' e "[]" "[ucast v]"] show ?thesis
      by (auto simp: queue_get_uint_def ucast_up_ucast_id is_up)
  qed
  with m show ?thesis by blast
qed

theorem queue_uint_roundtrip_witness:
  "\<exists>m. queue_add_uint (Some 5) (Map.empty, queue_init) 4294967295 = Some m \<and>
     map_option fst (queue_get_uint m) = Some (Some 4294967295)"
  using queue_uint_roundtrip [OF queue_rep_init, of Map.empty 5 4294967295] by auto

end
