(* ===== verification/P0Queue.thy ===== *)
theory P0Queue
  imports Queue
begin

text \<open>
  The doubly linked queues of \<open>p0/queue.c\<close>, on an explicit heap of nodes. The state is the heap
  with the queue structure (\<open>None\<close> for a null \<open>queue_t *\<close>); items are pointers, 0 is null; the
  argument \<open>new\<close> is what \<open>malloc\<close> returns. Following a null or dangling pointer stops the run,
  and so does the overflow of the \<open>int\<close> counter. No operation but \<open>queue_free\<close> releases memory.
\<close>

section \<open>Operations\<close>

record node =
  nd_prev :: "addr option"
  nd_next :: "addr option"
  nd_item :: ptr

record queue_t =
  qt_head :: "addr option"
  qt_tail :: "addr option"
  qt_length :: int

type_synonym node_heap = "addr \<Rightarrow> node option"
type_synonym p0_mem = "node_heap \<times> queue_t option"

text \<open>An assignment to a field of the node a pointer points to, and a read of it.\<close>

definition upd_node :: "(node \<Rightarrow> node) \<Rightarrow> addr option \<Rightarrow> node_heap \<Rightarrow> node_heap option" where
  "upd_node f p h = (case p of None \<Rightarrow> None
     | Some a \<Rightarrow> (case h a of None \<Rightarrow> None | Some n \<Rightarrow> Some (h(a \<mapsto> f n))))"

definition the_node :: "addr option \<Rightarrow> node_heap \<Rightarrow> node option" where
  "the_node p h = (case p of None \<Rightarrow> None | Some a \<Rightarrow> h a)"

text \<open>\<open>queue->length++\<close>, on a 32-bit \<open>int\<close>.\<close>

definition incr_length :: "queue_t \<Rightarrow> queue_t option" where
  "incr_length q = (if qt_length q < 2147483647 then Some (q\<lparr>qt_length := qt_length q + 1\<rparr>) else None)"

definition p0_queue_new :: "bool \<Rightarrow> queue_t option" where
  "p0_queue_new got_memory = (if got_memory then Some \<lparr>qt_head = None, qt_tail = None, qt_length = 0\<rparr> else None)"

definition p0_queue_prepend :: "addr option \<Rightarrow> p0_mem \<Rightarrow> ptr \<Rightarrow> (int \<times> p0_mem) option" where
  "p0_queue_prepend new m item = (case m of
     (h, None) \<Rightarrow> Some (- 1, m)
   | (h, Some q) \<Rightarrow>
       if item = 0 then Some (- 1, m)
       else (case new of
          None \<Rightarrow> Some (- 1, m)
        | Some n \<Rightarrow> do {
            let h = h(n \<mapsto> \<lparr>nd_prev = None, nd_next = None, nd_item = item\<rparr>);
            (h, q) \<leftarrow> (if qt_length q = 0 then do {
                        h \<leftarrow> upd_node (nd_next_update (\<lambda>_. None)) (Some n) h;
                        Some (h, q\<lparr>qt_tail := Some n\<rparr>) }
                      else do {
                        h \<leftarrow> upd_node (nd_prev_update (\<lambda>_. Some n)) (qt_head q) h;
                        h \<leftarrow> upd_node (nd_next_update (\<lambda>_. qt_head q)) (Some n) h;
                        Some (h, q) });
            h \<leftarrow> upd_node (nd_prev_update (\<lambda>_. None)) (Some n) h;
            q \<leftarrow> incr_length (q\<lparr>qt_head := Some n\<rparr>);
            Some (0, (h, Some q)) }))"

definition p0_queue_append :: "addr option \<Rightarrow> p0_mem \<Rightarrow> ptr \<Rightarrow> (int \<times> p0_mem) option" where
  "p0_queue_append new m item = (case m of
     (h, None) \<Rightarrow> Some (- 1, m)
   | (h, Some q) \<Rightarrow>
       if item = 0 then Some (- 1, m)
       else (case new of
          None \<Rightarrow> Some (- 1, m)
        | Some n \<Rightarrow> do {
            let h = h(n \<mapsto> \<lparr>nd_prev = None, nd_next = None, nd_item = item\<rparr>);
            (h, q) \<leftarrow> (if qt_length q = 0 then do {
                        h \<leftarrow> upd_node (nd_prev_update (\<lambda>_. None)) (Some n) h;
                        Some (h, q\<lparr>qt_head := Some n\<rparr>) }
                      else do {
                        h \<leftarrow> upd_node (nd_next_update (\<lambda>_. Some n)) (qt_tail q) h;
                        h \<leftarrow> upd_node (nd_prev_update (\<lambda>_. qt_tail q)) (Some n) h;
                        Some (h, q) });
            h \<leftarrow> upd_node (nd_next_update (\<lambda>_. None)) (Some n) h;
            q \<leftarrow> incr_length (q\<lparr>qt_tail := Some n\<rparr>);
            Some (0, (h, Some q)) }))"

text \<open>
  \<open>out\<close> says whether the argument \<open>item\<close> is not null; the result has the value stored in
  \<open>*item\<close>. The code stores a null there before it returns \<open>-1\<close>, even through a null \<open>item\<close>.
\<close>

definition p0_queue_dequeue :: "bool \<Rightarrow> p0_mem \<Rightarrow> ((int \<times> ptr) \<times> p0_mem) option" where
  "p0_queue_dequeue out m = (case m of
     (h, None) \<Rightarrow> (if out then Some ((- 1, 0), m) else None)
   | (h, Some q) \<Rightarrow>
       if \<not> out then None
       else if qt_length q = 0 then Some ((- 1, 0), m)
       else do {
         n \<leftarrow> the_node (qt_head q) h;
         (h, q) \<leftarrow> (if qt_length q = 1 then Some (h, q\<lparr>qt_head := None, qt_tail := None\<rparr>)
                   else do {
                     h \<leftarrow> upd_node (nd_prev_update (\<lambda>_. None)) (nd_next n) h;
                     Some (h, q\<lparr>qt_head := nd_next n\<rparr>) });
         Some ((0, nd_item n), (h, Some (q\<lparr>qt_length := qt_length q - 1\<rparr>))) })"

text \<open>
  The callback gets the node, not its item. A cyclic list would be walked for ever, so the walk is
  a partial function.
\<close>

partial_function (option) iterate_loop :: "(addr \<Rightarrow> 'a \<Rightarrow> 'a) \<Rightarrow> node_heap \<Rightarrow> addr option \<Rightarrow> 'a \<Rightarrow> 'a option" where
  "iterate_loop f h cur st = (case cur of
     None \<Rightarrow> Some st
   | Some a \<Rightarrow> (case h a of None \<Rightarrow> None | Some n \<Rightarrow> iterate_loop f h (nd_next n) (f a st)))"

definition p0_queue_iterate :: "(addr \<Rightarrow> 'a \<Rightarrow> 'a) option \<Rightarrow> p0_mem \<Rightarrow> 'a \<Rightarrow> (int \<times> 'a) option" where
  "p0_queue_iterate f m st = (case (m, f) of
     ((h, Some q), Some f) \<Rightarrow> do { st \<leftarrow> iterate_loop f h (qt_head q) st; Some (0, st) }
   | _ \<Rightarrow> Some (- 1, st))"

definition p0_queue_free :: "p0_mem \<Rightarrow> int \<times> p0_mem" where
  "p0_queue_free m = (case m of
     (h, None) \<Rightarrow> (- 1, m)
   | (h, Some q) \<Rightarrow> if qt_length q \<noteq> 0 then (- 1, m) else (0, (h, None)))"

definition p0_queue_length :: "p0_mem \<Rightarrow> int" where
  "p0_queue_length m = (case snd m of None \<Rightarrow> - 1 | Some q \<Rightarrow> qt_length q)"

text \<open>The search of \<open>queue_delete\<close>: the address of the first node with the item.\<close>

partial_function (option) find_node :: "node_heap \<Rightarrow> ptr \<Rightarrow> addr option \<Rightarrow> addr option option" where
  "find_node h item q = (case q of
     None \<Rightarrow> Some None
   | Some a \<Rightarrow> (case h a of None \<Rightarrow> None
        | Some n \<Rightarrow> if nd_item n \<noteq> item then find_node h item (nd_next n) else Some (Some a)))"

definition p0_queue_delete :: "p0_mem \<Rightarrow> ptr \<Rightarrow> (int \<times> p0_mem) option" where
  "p0_queue_delete m item = (case m of
     (h, None) \<Rightarrow> Some (- 1, m)
   | (h, Some q) \<Rightarrow>
       if item = 0 \<or> qt_length q = 0 then Some (- 1, m)
       else do {
         r \<leftarrow> find_node h item (qt_head q);
         (case r of
            None \<Rightarrow> Some (- 1, m)
          | Some a \<Rightarrow> do {
              n \<leftarrow> h a;
              (case (nd_prev n, nd_next n) of
                 (Some p, Some x) \<Rightarrow> do {
                   h \<leftarrow> upd_node (nd_next_update (\<lambda>_. Some x)) (Some p) h;
                   h \<leftarrow> upd_node (nd_prev_update (\<lambda>_. Some p)) (Some x) h;
                   Some (0, (h, Some q)) }
               | (None, Some x) \<Rightarrow> do {
                   h \<leftarrow> upd_node (nd_prev_update (\<lambda>_. None)) (Some x) h;
                   Some (0, (h, Some (q\<lparr>qt_head := Some x\<rparr>))) }
               | (Some p, None) \<Rightarrow> do {
                   h \<leftarrow> upd_node (nd_next_update (\<lambda>_. None)) (Some p) h;
                   Some (0, (h, Some (q\<lparr>qt_tail := Some p\<rparr>))) }
               | (None, None) \<Rightarrow> Some (0, m)) }) })"

section \<open>Queues represent lists\<close>

text \<open>\<open>dchain h pv p as q\<close>: from the link \<open>p\<close> the nodes \<open>as\<close> follow, up to the link \<open>q\<close>, and the
  \<open>prev\<close> fields lead back, the first of them to \<open>pv\<close>.\<close>

fun dchain :: "node_heap \<Rightarrow> addr option \<Rightarrow> addr option \<Rightarrow> addr list \<Rightarrow> addr option \<Rightarrow> bool" where
  "dchain h pv p [] q \<longleftrightarrow> p = q"
| "dchain h pv p (a # as) q \<longleftrightarrow> p = Some a \<and> (case h a of None \<Rightarrow> False
     | Some n \<Rightarrow> nd_prev n = pv \<and> dchain h (Some a) (nd_next n) as q)"

definition prev_of :: "addr option \<Rightarrow> addr list \<Rightarrow> addr option" where
  "prev_of pv as = (if as = [] then pv else Some (last as))"

lemma dchain_append: "dchain h pv p (as @ bs) q \<longleftrightarrow> (\<exists>r. dchain h pv p as r \<and> dchain h (prev_of pv as) r bs q)"
  by (induction as arbitrary: pv p) (auto simp: prev_of_def split: option.splits)

lemma dchain_frame: "a \<notin> set as \<Longrightarrow> dchain (h(a := e)) pv p as q = dchain h pv p as q"
  by (induction as arbitrary: pv p) (auto split: option.splits)

lemma dchain_dom: "dchain h pv p as q \<Longrightarrow> a \<in> set as \<Longrightarrow> h a \<noteq> None"
  by (induction as arbitrary: pv p) (auto split: option.splits)

lemma dchain_functional: "dchain h pv p as None \<Longrightarrow> dchain h pv p bs None \<Longrightarrow> as = bs"
proof (induction as arbitrary: pv p bs)
  case Nil
  then show ?case by (cases bs) auto
next
  case (Cons a as)
  then show ?case by (cases bs) (auto split: option.splits)
qed

definition node_items :: "node_heap \<Rightarrow> addr list \<Rightarrow> ptr option list" where
  "node_items h as = map (\<lambda>a. map_option nd_item (h a)) as"

lemma node_items_simps [simp]: "node_items h [] = []" "node_items h (a # as) = map_option nd_item (h a) # node_items h as"
  "node_items h (as @ bs) = node_items h as @ node_items h bs"
  by (simp_all add: node_items_def)

lemma node_items_frame [simp]: "a \<notin> set as \<Longrightarrow> node_items (h(a := e)) as = node_items h as"
  by (auto simp: node_items_def)

lemma node_items_upd [simp]: "h a = Some n \<Longrightarrow> nd_item n' = nd_item n \<Longrightarrow> node_items (h(a \<mapsto> n')) as = node_items h as"
  by (auto simp: node_items_def)

text \<open>The links and the items, without the counter; then with it.\<close>

definition p0_chain :: "p0_mem \<Rightarrow> addr list \<Rightarrow> ptr list \<Rightarrow> bool" where
  "p0_chain m as xs \<longleftrightarrow> (case m of (h, None) \<Rightarrow> False
     | (h, Some q) \<Rightarrow> dchain h None (qt_head q) as None \<and> distinct as \<and> node_items h as = map Some xs \<and>
         qt_tail q = prev_of None as)"

definition p0_rep :: "p0_mem \<Rightarrow> addr list \<Rightarrow> ptr list \<Rightarrow> bool" where
  "p0_rep m as xs \<longleftrightarrow> p0_chain m as xs \<and> p0_queue_length m = int (length xs) \<and> length xs < 2147483648"

lemma p0_new_rep: "p0_rep (h, p0_queue_new True) [] []"
  by (simp add: p0_rep_def p0_chain_def p0_queue_new_def p0_queue_length_def prev_of_def)

lemma p0_repE:
  assumes "p0_rep m as xs"
  obtains h q where "m = (h, Some q)" "dchain h None (qt_head q) as None" "distinct as"
    "node_items h as = map Some xs" "qt_tail q = prev_of None as" "qt_length q = int (length xs)"
    "length as = length xs" "length xs < 2147483648"
proof -
  from assms obtain h q where m: "m = (h, Some q)"
    by (cases m; cases "snd m") (auto simp: p0_rep_def p0_chain_def)
  moreover from assms m have "length (node_items h as) = length xs" by (simp add: p0_rep_def p0_chain_def)
  ultimately show ?thesis using assms that [of h q]
    by (simp add: p0_rep_def p0_chain_def p0_queue_length_def node_items_def)
qed

lemma p0_repI:
  assumes "dchain h None (qt_head q) as None" "distinct as" "node_items h as = map Some xs"
    "qt_tail q = prev_of None as" "qt_length q = int (length xs)" "length xs < 2147483648"
  shows "p0_rep (h, Some q) as xs"
  using assms by (simp add: p0_rep_def p0_chain_def p0_queue_length_def)

lemma prev_of_simps [simp]: "prev_of pv [] = pv" "prev_of pv (as @ [a]) = Some a" "prev_of pv (a # as) = prev_of (Some a) as"
  by (simp_all add: prev_of_def)

lemma upd_node_Some [simp]: "upd_node f (Some a) h = map_option (\<lambda>n. h(a \<mapsto> f n)) (h a)"
  by (simp add: upd_node_def split: option.splits)

lemma p0_rep_fresh:
  assumes "p0_rep m as xs" "fst m e = None"
  shows "e \<notin> set as"
proof -
  from assms(1) obtain h q where "m = (h, Some q)" "dchain h None (qt_head q) as None" by (rule p0_repE)
  with assms(2) dchain_dom [of h None "qt_head q" as None e] show ?thesis by auto
qed

lemma p0_append_rep:
  assumes "p0_rep m as xs" "fst m e = None" "x \<noteq> 0" "Suc (length xs) < 2147483648"
  shows "\<exists>m'. p0_queue_append (Some e) m x = Some (0, m') \<and> p0_rep m' (as @ [e]) (xs @ [x]) \<and>
    (\<exists>h' q'. m' = (h', Some q') \<and> dom h' = insert e (dom (fst m)))"
proof -
  note new = p0_rep_fresh [OF assms(1,2)]
  from assms(1) obtain h q where m: "m = (h, Some q)" "dchain h None (qt_head q) as None" "distinct as"
    "node_items h as = map Some xs" "qt_tail q = prev_of None as" "qt_length q = int (length xs)"
    "length as = length xs" by (rule p0_repE)
  show ?thesis
  proof (cases as rule: rev_cases)
    case Nil
    with m assms(3) show ?thesis by (auto simp: p0_queue_append_def incr_length_def intro!: p0_repI)
  next
    case (snoc bs b)
    from m(2) snoc obtain n where n: "h b = Some n" "nd_prev n = prev_of None bs" "nd_next n = None"
      "dchain h None (qt_head q) bs (Some b)"
      by (auto simp: dchain_append split: option.splits)
    have d: "e \<noteq> b" "e \<notin> set bs" "b \<notin> set bs" using new snoc m(3) by auto
    let ?h = "h(e \<mapsto> \<lparr>nd_prev = Some b, nd_next = None, nd_item = x\<rparr>, b \<mapsto> n\<lparr>nd_next := Some e\<rparr>)"
    let ?q = "q\<lparr>qt_tail := Some e, qt_length := int (length xs) + 1\<rparr>"
    have ne: "qt_length q \<noteq> 0" using m(6,7) snoc by auto
    have run: "p0_queue_append (Some e) m x = Some (0, (?h, Some ?q))"
      using m n d ne assms(3,4) snoc by (simp add: p0_queue_append_def incr_length_def Let_def fun_upd_twist)
    have "dchain ?h None (qt_head q) bs (Some b)" using n(4) d by (simp add: dchain_frame)
    moreover have "dchain ?h (prev_of None bs) (Some b) [b, e] None" using n d by simp
    ultimately have "dchain ?h None (qt_head q) (bs @ [b, e]) None" unfolding dchain_append by blast
    moreover have "node_items ?h (as @ [e]) = map Some (xs @ [x])"
      using m(4) n(1) d snoc by auto
    ultimately have "p0_rep (?h, Some ?q) (as @ [e]) (xs @ [x])"
      using m(3) new snoc assms(4) by (intro p0_repI) (auto simp: prev_of_def)
    moreover have "dom ?h = insert e (dom (fst m))" using m(1) n(1) by auto
    ultimately show ?thesis using run by blast
  qed
qed

lemma p0_prepend_rep:
  assumes "p0_rep m as xs" "fst m e = None" "x \<noteq> 0" "Suc (length xs) < 2147483648"
  shows "\<exists>m'. p0_queue_prepend (Some e) m x = Some (0, m') \<and> p0_rep m' (e # as) (x # xs) \<and>
    (\<exists>h' q'. m' = (h', Some q') \<and> dom h' = insert e (dom (fst m)))"
proof -
  note new = p0_rep_fresh [OF assms(1,2)]
  from assms(1) obtain h q where m: "m = (h, Some q)" "dchain h None (qt_head q) as None" "distinct as"
    "node_items h as = map Some xs" "qt_tail q = prev_of None as" "qt_length q = int (length xs)"
    "length as = length xs" by (rule p0_repE)
  show ?thesis
  proof (cases as)
    case Nil
    with m assms(3) show ?thesis by (auto simp: p0_queue_prepend_def incr_length_def intro!: p0_repI)
  next
    case (Cons b bs)
    from m(2) Cons obtain n where n: "h b = Some n" "nd_prev n = None" "qt_head q = Some b"
      "dchain h (Some b) (nd_next n) bs None" by (auto split: option.splits)
    have d: "e \<noteq> b" "e \<notin> set bs" "b \<notin> set bs" using new Cons m(3) by auto
    let ?h = "h(e \<mapsto> \<lparr>nd_prev = None, nd_next = Some b, nd_item = x\<rparr>, b \<mapsto> n\<lparr>nd_prev := Some e\<rparr>)"
    let ?q = "q\<lparr>qt_head := Some e, qt_length := int (length xs) + 1\<rparr>"
    have ne: "qt_length q \<noteq> 0" using m(6,7) Cons by auto
    have run: "p0_queue_prepend (Some e) m x = Some (0, (?h, Some ?q))"
      using m n d ne assms(3,4) by (simp add: p0_queue_prepend_def incr_length_def Let_def fun_upd_twist)
    have "dchain ?h (Some b) (nd_next n) bs None" using n(4) d by (simp add: dchain_frame)
    then have "dchain ?h None (qt_head ?q) (e # as) None" using n d Cons by simp
    moreover have "node_items ?h (e # as) = map Some (x # xs)" using m(4) n(1) d Cons by auto
    ultimately have "p0_rep (?h, Some ?q) (e # as) (x # xs)"
      using m(3,5) new Cons assms(4) by (intro p0_repI) (auto simp: prev_of_def)
    moreover have "dom ?h = insert e (dom (fst m))" using m(1) n(1) by auto
    ultimately show ?thesis using run by blast
  qed
qed

lemma p0_dequeue_nil: "p0_rep m as [] \<Longrightarrow> p0_queue_dequeue True m = Some ((- 1, 0), m)"
  by (erule p0_repE) (simp add: p0_queue_dequeue_def)

lemma p0_dequeue_rep:
  assumes "p0_rep m as (x # xs)"
  shows "\<exists>m' a bs. p0_queue_dequeue True m = Some ((0, x), m') \<and> as = a # bs \<and> p0_rep m' bs xs \<and>
    dom (fst m') = dom (fst m)"
proof -
  from assms obtain h q where m: "m = (h, Some q)" "dchain h None (qt_head q) as None" "distinct as"
    "node_items h as = map Some (x # xs)" "qt_tail q = prev_of None as" "qt_length q = int (length (x # xs))"
    "length as = length (x # xs)" "length (x # xs) < 2147483648" by (rule p0_repE)
  from m(7) obtain a bs where as: "as = a # bs" "length bs = length xs" by (cases as) auto
  from m(2,4) as obtain n where n: "h a = Some n" "qt_head q = Some a" "dchain h (Some a) (nd_next n) bs None"
    "nd_item n = x" "node_items h bs = map Some xs" by (auto split: option.splits)
  show ?thesis
  proof (cases bs)
    case Nil
    with m n as show ?thesis by (auto simp: p0_queue_dequeue_def the_node_def intro!: p0_repI)
  next
    case (Cons b cs)
    with n(3) obtain n' where n': "nd_next n = Some b" "h b = Some n'" "dchain h (Some b) (nd_next n') cs None"
      by (auto split: option.splits)
    have d: "a \<notin> set bs" "b \<notin> set cs" "distinct bs" using m(3) as Cons by auto
    let ?h = "h(b \<mapsto> n'\<lparr>nd_prev := None\<rparr>)"
    let ?q = "q\<lparr>qt_head := Some b, qt_length := int (length xs)\<rparr>"
    have ne: "length xs \<noteq> 0" using as(2) Cons by auto
    have run: "p0_queue_dequeue True m = Some ((0, x), (?h, Some ?q))"
      using m(1,6) n n' ne by (simp add: p0_queue_dequeue_def the_node_def)
    have "dchain ?h None (qt_head ?q) bs None" using n' d Cons by (simp add: dchain_frame)
    moreover have "node_items ?h bs = map Some xs" using n(5) n'(2) by simp
    ultimately have "p0_rep (?h, Some ?q) bs xs"
      using d m(5,8) as Cons by (intro p0_repI) (auto simp: prev_of_def)
    moreover have "dom ?h = dom (fst m)" using m(1) n'(2) by auto
    ultimately show ?thesis using run as(1) by auto
  qed
qed

section \<open>Deleting an item\<close>

lemma find_node_skip:
  assumes "dchain h pv p as r" "x \<notin> set ys" "node_items h as = map Some ys"
  shows "find_node h x p = find_node h x r"
  using assms
proof (induction as arbitrary: pv p ys)
  case (Cons a as)
  then obtain n where n: "h a = Some n" "p = Some a" "dchain h (Some a) (nd_next n) as r"
    by (auto split: option.splits)
  with Cons.prems(2,3) obtain y ys' where y: "ys = y # ys'" "nd_item n = y" "node_items h as = map Some ys'" "y \<noteq> x" "x \<notin> set ys'"
    by (cases ys) auto
  have "find_node h x p = find_node h x (nd_next n)" using n y by (subst find_node.simps) simp
  with Cons.IH [OF n(3) y(5,3)] show ?case by simp
qed simp

lemma find_node_hit: "h a = Some n \<Longrightarrow> nd_item n = x \<Longrightarrow> find_node h x (Some a) = Some (Some a)"
  by (subst find_node.simps) simp

lemma find_node_end [simp]: "find_node h x None = Some None"
  by (subst find_node.simps) simp

text \<open>The links around the first node with the item, and what unlinking it leaves.\<close>

lemma p0_split:
  assumes "p0_rep m as xs" "x \<in> set xs"
  obtains h q bs a cs n ys zs where "m = (h, Some q)" "as = bs @ a # cs" "h a = Some n" "nd_item n = x"
    "dchain h None (qt_head q) bs (Some a)" "nd_prev n = prev_of None bs" "dchain h (Some a) (nd_next n) cs None"
    "xs = ys @ x # zs" "x \<notin> set ys" "node_items h bs = map Some ys" "node_items h cs = map Some zs"
    "distinct as" "find_node h x (qt_head q) = Some (Some a)" "qt_length q = int (length xs)"
    "qt_tail q = prev_of None as"
proof -
  from assms(1) obtain h q where m: "m = (h, Some q)" "dchain h None (qt_head q) as None" "distinct as"
    "node_items h as = map Some xs" "qt_tail q = prev_of None as" "qt_length q = int (length xs)"
    "length as = length xs" by (rule p0_repE)
  from split_list_first [OF assms(2)] obtain ys zs where xs: "xs = ys @ x # zs" "x \<notin> set ys" by blast
  have as: "as = take (length ys) as @ as ! length ys # drop (Suc (length ys)) as"
    using m(7) xs by (intro id_take_nth_drop) simp
  moreover have "length (take (length ys) as) = length ys" using m(7) xs by simp
  ultimately obtain bs a cs where s: "as = bs @ a # cs" "length bs = length ys" by blast
  from m(4) s xs have it: "node_items h bs = map Some ys" "node_items h (a # cs) = map Some (x # zs)"
    by (simp_all add: node_items_def)
  from m(2) s(1) obtain n where n: "h a = Some n" "dchain h None (qt_head q) bs (Some a)"
    "nd_prev n = prev_of None bs" "dchain h (Some a) (nd_next n) cs None"
    by (auto simp: dchain_append split: option.splits)
  have "nd_item n = x" using it(2) n(1) by simp
  moreover from this have "find_node h x (qt_head q) = Some (Some a)"
    using find_node_skip [OF n(2) xs(2) it(1)] find_node_hit [of h a n x] n(1) by simp
  ultimately show ?thesis using m s xs it n by (intro that [of h q bs a cs n ys zs]) auto
qed

lemma p0_delete_rep:
  assumes "p0_rep m as xs" "x \<in> set xs" "x \<noteq> 0" "2 \<le> length xs"
  shows "\<exists>m' bs. p0_queue_delete m x = Some (0, m') \<and> p0_chain m' bs (remove1 x xs) \<and>
    p0_queue_length m' = int (length xs)"
proof -
  from p0_split [OF assms(1,2)] obtain h q bs a cs n ys zs where
    m: "m = (h, Some q)" "as = bs @ a # cs" "h a = Some n" "nd_item n = x" and
    c: "dchain h None (qt_head q) bs (Some a)" "nd_prev n = prev_of None bs" "dchain h (Some a) (nd_next n) cs None" and
    i: "xs = ys @ x # zs" "x \<notin> set ys" "node_items h bs = map Some ys" "node_items h cs = map Some zs" and
    r: "distinct as" "find_node h x (qt_head q) = Some (Some a)" "qt_length q = int (length xs)"
    "qt_tail q = prev_of None as" by metis
  have xs': "remove1 x xs = ys @ zs" using i(1,2) by (simp add: remove1_append)
  have ne: "qt_length q \<noteq> 0" using assms(4) r(3) by auto
  have lens: "length bs = length ys" "length cs = length zs"
    using i(3,4) by (metis length_map node_items_def)+
  show ?thesis
  proof (cases bs rule: rev_cases)
    case bs: Nil
    with lens i(1) assms(4) obtain b ds where cs: "cs = b # ds" by (cases cs) auto
    with c(3) obtain n' where n': "nd_next n = Some b" "h b = Some n'" "dchain h (Some b) (nd_next n') ds None"
      by (auto split: option.splits)
    let ?h = "h(b \<mapsto> n'\<lparr>nd_prev := None\<rparr>)" and ?q = "q\<lparr>qt_head := Some b\<rparr>"
    have run: "p0_queue_delete m x = Some (0, (?h, Some ?q))"
      using m r ne assms(3) n' c(2) bs by (simp add: p0_queue_delete_def)
    have "b \<notin> set ds" using r(1) m(2) bs cs by simp
    then have "dchain ?h None (Some b) cs None" using n' cs by (simp add: dchain_frame)
    moreover have "node_items ?h cs = map Some (ys @ zs)" using i(3,4) n'(2) bs by simp
    ultimately have "p0_chain (?h, Some ?q) cs (remove1 x xs)"
      using r(1,4) m(2) bs cs xs' by (simp add: p0_chain_def)
    then show ?thesis using run r(3) by (auto simp: p0_queue_length_def)
  next
    case (snoc ds b)
    from c(1) snoc obtain n1 where n1: "h b = Some n1" "nd_prev n1 = prev_of None ds"
      "dchain h None (qt_head q) ds (Some b)"
      by (auto simp: dchain_append split: option.splits)
    have bd: "b \<notin> set ds" "b \<noteq> a" using r(1) m(2) snoc by auto
    show ?thesis
    proof (cases cs)
      case Nil
      let ?h = "h(b \<mapsto> n1\<lparr>nd_next := None\<rparr>)" and ?q = "q\<lparr>qt_tail := Some b\<rparr>"
      have nn: "nd_next n = None" using c(3) Nil by simp
      have run: "p0_queue_delete m x = Some (0, (?h, Some ?q))"
        using m r ne assms(3) n1 c(2) snoc nn by (simp add: p0_queue_delete_def)
      have "dchain ?h None (qt_head q) ds (Some b)" using n1(3) bd by (simp add: dchain_frame)
      then have "dchain ?h None (qt_head q) bs None" unfolding snoc dchain_append using n1(2) by auto
      moreover have "node_items ?h bs = map Some (ys @ zs)" using i(3,4) n1(1) Nil by simp
      ultimately have "p0_chain (?h, Some ?q) bs (remove1 x xs)"
        using r(1) m(2) snoc xs' by (simp add: p0_chain_def)
      then show ?thesis using run r(3) by (auto simp: p0_queue_length_def)
    next
      case (Cons d es)
      with c(3) obtain n2 where n2: "nd_next n = Some d" "h d = Some n2" "dchain h (Some d) (nd_next n2) es None"
        by (auto split: option.splits)
      have bd': "b \<noteq> d" "b \<notin> set es" "d \<notin> set es" "d \<notin> set ds" using r(1) m(2) snoc Cons by auto
      let ?h = "h(b \<mapsto> n1\<lparr>nd_next := Some d\<rparr>, d \<mapsto> n2\<lparr>nd_prev := Some b\<rparr>)"
      have run: "p0_queue_delete m x = Some (0, (?h, Some q))"
        using m r ne assms(3) n1 n2 c(2) snoc bd' by (simp add: p0_queue_delete_def)
      have "dchain ?h None (qt_head q) ds (Some b)" using n1(3) bd bd' by (simp add: dchain_frame)
      moreover have "dchain ?h (prev_of None ds) (Some b) (b # cs) None"
        using n1 n2 bd' Cons by (simp add: dchain_frame)
      ultimately have "dchain ?h None (qt_head q) (ds @ b # cs) None" unfolding dchain_append by blast
      then have ch: "dchain ?h None (qt_head q) (bs @ cs) None" using snoc by simp
      have "node_items ?h (bs @ cs) = map Some (ys @ zs)" using i(3,4) n1(1) n2(2) bd'(1) by simp
      moreover have "qt_tail q = prev_of None (bs @ cs)" using r(4) m(2) Cons by (simp add: prev_of_def)
      ultimately have "p0_chain (?h, Some q) (bs @ cs) (remove1 x xs)"
        using ch r(1) m(2) xs' by (simp add: p0_chain_def)
      then show ?thesis using run r(3) by (auto simp: p0_queue_length_def)
    qed
  qed
qed

text \<open>A queue with one node whose counter says more.\<close>

lemma p0_dequeue_stale:
  assumes "p0_chain m as [y]" "p0_queue_length m = k" "1 < k"
  shows "p0_queue_dequeue True m = None"
proof -
  obtain h q where m: "m = (h, Some q)" "dchain h None (qt_head q) as None" "node_items h as = map Some [y]" "qt_length q = k"
    using assms(1,2) by (cases m; cases "snd m") (auto simp: p0_chain_def p0_queue_length_def)
  from m(3) obtain a where "as = [a]" by (cases as; cases "tl as") (auto simp: node_items_def)
  with m(2) obtain n where "qt_head q = Some a" "h a = Some n" "nd_next n = None" by (auto split: option.splits)
  with m(1,4) assms(3) show ?thesis by (simp add: p0_queue_dequeue_def the_node_def upd_node_def)
qed

section \<open>The contract of queues\<close>

definition p0_ok :: "p0_mem \<Rightarrow> bool" where
  "p0_ok m \<longleftrightarrow> (\<exists>as xs. p0_rep m as xs) \<and> finite (dom (fst m))"

definition p0_items :: "p0_mem \<Rightarrow> ptr list" where
  "p0_items m = (THE xs. \<exists>as. p0_rep m as xs)"

lemma p0_rep_unique: "p0_rep m as xs \<Longrightarrow> p0_rep m bs ys \<Longrightarrow> xs = ys"
proof -
  assume r: "p0_rep m as xs" "p0_rep m bs ys"
  then have "as = bs" by (auto elim!: p0_repE dest: dchain_functional)
  with r have "map Some xs = map Some ys" by (auto elim!: p0_repE)
  then show "xs = ys" by (simp add: inj_map_eq_map)
qed

lemma p0_items: "p0_rep m as xs \<Longrightarrow> p0_items m = xs"
  unfolding p0_items_def by (rule the_equality) (auto dest: p0_rep_unique)

lemma p0_okI: "p0_rep m as xs \<Longrightarrow> finite (dom (fst m)) \<Longrightarrow> p0_ok m"
  by (auto simp: p0_ok_def)

lemma p0_okE:
  assumes "p0_ok m"
  obtains as where "p0_rep m as (p0_items m)" "finite (dom (fst m))"
  using assms by (auto simp: p0_ok_def p0_items)

text \<open>The operations in the shape of the interface; a result \<open>-1\<close> of an addition stops the run.\<close>

definition checked :: "(int \<times> p0_mem) option \<Rightarrow> p0_mem option" where
  "checked r = (case r of Some (c, m) \<Rightarrow> if c = 0 then Some m else None | None \<Rightarrow> None)"

definition p0_get :: "p0_mem \<Rightarrow> (ptr option \<times> p0_mem) option" where
  "p0_get m = (case p0_queue_dequeue True m of
     None \<Rightarrow> None
   | Some ((c, item), m) \<Rightarrow> Some (if c = 0 then Some item else None, m))"

definition p0_room :: "nat \<Rightarrow> p0_mem \<Rightarrow> bool" where
  "p0_room a m \<longleftrightarrow> fst m a = None \<and> p0_queue_length m < 2147483647"

lemma p0_room_length: "p0_rep m as xs \<Longrightarrow> p0_room a m \<Longrightarrow> Suc (length xs) < 2147483648"
  by (simp add: p0_rep_def p0_room_def)

interpretation doubly: fifo_queue p0_ok p0_items p0_room "\<lambda>v. v \<noteq> 0"
  "\<lambda>a m v. checked (p0_queue_append (Some a) m v)" "\<lambda>a m v. checked (p0_queue_prepend (Some a) m v)" p0_get
proof (unfold_locales, goal_cases)
  case (1 s a v)
  from 1(1) obtain as where rep: "p0_rep s as (p0_items s)" "finite (dom (fst s))" by (rule p0_okE)
  have "fst s a = None" using 1(2) by (simp add: p0_room_def)
  from p0_append_rep [OF rep(1) this 1(3) p0_room_length [OF rep(1) 1(2)]] obtain m where
    m: "p0_queue_append (Some a) s v = Some (0, m)" "p0_rep m (as @ [a]) (p0_items s @ [v])"
    "dom (fst m) = insert a (dom (fst s))" by auto
  with p0_okI [OF m(2)] p0_items [OF m(2)] rep(2) show ?case by (simp add: checked_def)
next
  case (2 s a v)
  from 2(1) obtain as where rep: "p0_rep s as (p0_items s)" "finite (dom (fst s))" by (rule p0_okE)
  have "fst s a = None" using 2(2) by (simp add: p0_room_def)
  from p0_prepend_rep [OF rep(1) this 2(3) p0_room_length [OF rep(1) 2(2)]] obtain m where
    m: "p0_queue_prepend (Some a) s v = Some (0, m)" "p0_rep m (a # as) (v # p0_items s)"
    "dom (fst m) = insert a (dom (fst s))" by auto
  with p0_okI [OF m(2)] p0_items [OF m(2)] rep(2) show ?case by (simp add: checked_def)
next
  case (3 s)
  from 3 obtain as where "p0_rep s as []" by (auto elim: p0_okE)
  from p0_dequeue_nil [OF this] show ?case by (simp add: p0_get_def)
next
  case (4 s v vs)
  from 4 obtain as where rep: "p0_rep s as (v # vs)" "finite (dom (fst s))" by (auto elim: p0_okE)
  from p0_dequeue_rep [OF rep(1)] obtain m bs where
    m: "p0_queue_dequeue True s = Some ((0, v), m)" "p0_rep m bs vs" "dom (fst m) = dom (fst s)" by blast
  with p0_okI [OF m(2)] p0_items [OF m(2)] rep(2) show ?case by (simp add: p0_get_def)
qed

section \<open>Properties\<close>

text \<open>Any sequence of appends, prepends and removals on the doubly linked queue of p0 returns
  what the same sequence on a list returns, as long as items are not null and the counter does not
  overflow; no null or dangling pointer is followed.\<close>
theorem p0_queue_refines_list:
  assumes "p0_rep (h, q) as xs" "finite (dom h)"
    and "\<And>m :: p0_mem. finite (dom (fst m)) \<Longrightarrow> fst m (new m) = None"
    and "list_all (op_ok (\<lambda>v. v \<noteq> 0)) ops" "length xs + length ops < 2147483647"
  shows "\<exists>m bs. run_queue (\<lambda>a m v. checked (p0_queue_append (Some a) m v))
      (\<lambda>a m v. checked (p0_queue_prepend (Some a) m v)) p0_get new ops (h, q) =
      Some (fst (run_list ops xs), m) \<and> p0_rep m bs (snd (run_list ops xs))"
proof -
  have ok: "p0_ok (h, q)" by (rule p0_okI [OF assms(1)]) (simp add: assms(2))
  have it: "p0_items (h, q) = xs" using assms(1) by (rule p0_items)
  have room: "p0_room (new m) m" if "p0_ok m" "length (p0_items m) < length xs + length ops" for m
  proof -
    from that(1) obtain as' where rep: "p0_rep m as' (p0_items m)" "finite (dom (fst m))" by (rule p0_okE)
    then show ?thesis using that(2) assms(3,5) by (simp add: p0_room_def p0_rep_def)
  qed
  have "length (p0_items (h, q)) + length ops \<le> length xs + length ops" by (simp add: it)
  from doubly.run_refines [of "(h, q)" "length xs + length ops" new ops, OF ok room assms(4) this, unfolded it]
  obtain m where
    m: "run_queue (\<lambda>a m v. checked (p0_queue_append (Some a) m v))
      (\<lambda>a m v. checked (p0_queue_prepend (Some a) m v)) p0_get new ops (h, q) =
      Some (fst (run_list ops xs), m)" "p0_ok m" "p0_items m = snd (run_list ops xs)" by blast
  from m(2) obtain bs where "p0_rep m bs (p0_items m)" by (rule p0_okE)
  with m show ?thesis by auto
qed

theorem p0_queue_refines_list_witness:
  "map_option fst (run_queue (\<lambda>a m v. checked (p0_queue_append (Some a) m v))
      (\<lambda>a m v. checked (p0_queue_prepend (Some a) m v)) p0_get (\<lambda>m. new_addr (fst m))
      [Enq 7, Push 8, Enq 9, Deq, Deq, Deq, Deq] (Map.empty, p0_queue_new True)) =
   Some [Some 8, Some 7, Some 9, None]"
  using p0_queue_refines_list [OF p0_new_rep, of Map.empty "\<lambda>m. new_addr (fst m)"
      "[Enq 7, Push 8, Enq 9, Deq, Deq, Deq, Deq]"] new_addr by auto

text \<open>Deleting an item from a queue of at least two unlinks its first occurrence and nothing else,
  but leaves the counter of the queue as it was, so that it is one larger than the number of items.\<close>
theorem p0_queue_delete_unlinks:
  assumes "p0_rep m as xs" "x \<in> set xs" "x \<noteq> 0" "2 \<le> length xs"
  shows "\<exists>m' bs. p0_queue_delete m x = Some (0, m') \<and> p0_chain m' bs (remove1 x xs) \<and>
    p0_queue_length m' = int (length (remove1 x xs)) + 1"
  using p0_delete_rep [OF assms] assms(2,4) by (auto simp: length_remove1)

text \<open>A queue with the items 7 and 8.\<close>

definition p0_two :: p0_mem where
  "p0_two = ([0 \<mapsto> \<lparr>nd_prev = None, nd_next = Some 1, nd_item = 7\<rparr>,
              1 \<mapsto> \<lparr>nd_prev = Some 0, nd_next = None, nd_item = 8\<rparr>],
     Some \<lparr>qt_head = Some 0, qt_tail = Some 1, qt_length = 2\<rparr>)"

lemma p0_two_rep: "p0_rep p0_two [0, 1] [7, 8]"
  by (simp add: p0_two_def p0_rep_def p0_chain_def p0_queue_length_def prev_of_def)

theorem p0_queue_delete_unlinks_witness:
  "\<exists>m' bs. p0_queue_delete p0_two 7 = Some (0, m') \<and> p0_chain m' bs [8] \<and> p0_queue_length m' = 2"
  using p0_queue_delete_unlinks [OF p0_two_rep, of 7] by simp

text \<open>The stale counter is fatal: after one of two items was deleted, taking the remaining one
  follows a null pointer.\<close>
theorem p0_queue_delete_dequeue_crashes:
  assumes "p0_rep m as [x, y]" "z = x \<or> z = y" "z \<noteq> 0"
  shows "\<exists>m'. p0_queue_delete m z = Some (0, m') \<and> p0_queue_dequeue True m' = None"
proof -
  from p0_delete_rep [OF assms(1) _ assms(3)] assms(2) obtain m' bs where
    m: "p0_queue_delete m z = Some (0, m')" "p0_chain m' bs (remove1 z [x, y])" "p0_queue_length m' = 2" by auto
  moreover obtain w where "remove1 z [x, y] = [w]" using assms(2) by auto
  ultimately show ?thesis using p0_dequeue_stale [of m' bs w 2] by auto
qed

theorem p0_queue_delete_dequeue_crashes_witness:
  "\<exists>m'. p0_queue_delete p0_two 8 = Some (0, m') \<and> p0_queue_dequeue True m' = None"
  using p0_queue_delete_dequeue_crashes [OF p0_two_rep, of 8] by simp

end
