(* ===== verification/Bytes.thy ===== *)
theory Bytes
  imports BlockStore
begin

text \<open>
  Bytes in memory: words and blocks as little-endian byte sequences, the layout in which the
  messages between clients and servers (\<open>struct block_request\<close>, \<open>struct file_request\<close>, their
  replies, \<open>struct msg_event\<close>) and the contents of frames and blocks are laid out.
\<close>

section \<open>Words as bytes\<close>

fun bytes_word :: "u8 list \<Rightarrow> 'a::len word" where
  "bytes_word [] = 0"
| "bytes_word (x # xs) = ucast x OR push_bit 8 (bytes_word xs)"

definition word_bytes :: "nat \<Rightarrow> 'a::len word \<Rightarrow> u8 list" where
  "word_bytes n w = map (\<lambda>i. ucast (drop_bit (8 * i) w)) [0..<n]"

lemma bit_bytes_word:
  "bit (bytes_word bs :: 'a::len word) n \<longleftrightarrow>
     n < LENGTH('a) \<and> n div 8 < length bs \<and> bit (bs ! (n div 8)) (n mod 8)"
proof (induction bs arbitrary: n)
  case Nil
  show ?case by simp
next
  case (Cons x xs)
  show ?case
  proof (cases "n < 8")
    case True
    then show ?thesis by (auto simp: bit_simps dest: bit_imp_le_length)
  next
    case False
    then have "n div 8 = Suc ((n - 8) div 8)" "n mod 8 = (n - 8) mod 8"
      by (simp_all add: le_div_geq le_mod_geq)
    with False Cons [of "n - 8"] show ?thesis by (auto simp: bit_simps dest: bit_imp_le_length)
  qed
qed

lemma length_word_bytes [simp]: "length (word_bytes n w) = n"
  by (simp add: word_bytes_def)

lemma nth_word_bytes: "i < n \<Longrightarrow> word_bytes n w ! i = ucast (drop_bit (8 * i) w)"
  by (simp add: word_bytes_def)

lemma bytes_word_bytes:
  assumes "LENGTH('a) \<le> 8 * n"
  shows "bytes_word (word_bytes n w) = (w :: 'a::len word)"
proof (rule bit_word_eqI)
  fix i assume i: "i < LENGTH('a)"
  with assms have "i div 8 < n" by simp
  then have "bit (word_bytes n w ! (i div 8)) (i mod 8) = bit w i"
    by (simp add: nth_word_bytes bit_simps)
  with i \<open>i div 8 < n\<close> show "bit (bytes_word (word_bytes n w) :: 'a word) i = bit w i"
    by (simp add: bit_bytes_word)
qed

lemma word_bytes_word:
  assumes "length bs = n" "8 * n \<le> LENGTH('a)"
  shows "word_bytes n (bytes_word bs :: 'a::len word) = bs"
proof (rule nth_equalityI)
  show "length (word_bytes n (bytes_word bs :: 'a word)) = length bs" using assms(1) by simp
  fix i assume "i < length (word_bytes n (bytes_word bs :: 'a word))"
  then have i: "i < n" by simp
  show "word_bytes n (bytes_word bs :: 'a word) ! i = bs ! i"
  proof (rule bit_word_eqI)
    fix j assume j: "j < LENGTH(8)"
    with i have "8 * i + j < LENGTH('a)" "(8 * i + j) div 8 = i" "(8 * i + j) mod 8 = j"
      using assms(2) by auto
    with i j assms(1) show "bit (word_bytes n (bytes_word bs :: 'a word) ! i) j = bit (bs ! i) j"
      by (simp add: nth_word_bytes bit_simps bit_bytes_word)
  qed
qed

definition le32 :: "u32 \<Rightarrow> u8 list" where
  "le32 w = map (\<lambda>i. ucast (drop_bit (8 * i) w)) [0..<4]"

definition get32 :: "u8 list \<Rightarrow> nat \<Rightarrow> u32" where
  "get32 bs i = bytes_word (take 4 (drop i bs))"

definition le64 :: "u64 \<Rightarrow> u8 list" where
  "le64 w = word_bytes 8 w"

definition get64 :: "u8 list \<Rightarrow> nat \<Rightarrow> u64" where
  "get64 bs i = bytes_word (take 8 (drop i bs))"

lemma le32_word_bytes: "le32 w = word_bytes 4 w"
  by (simp add: le32_def word_bytes_def)

lemma length_le32 [simp]: "length (le32 w) = 4" "length (le64 v) = 8"
  by (simp_all add: le32_def le64_def)

lemma get32_le32: "get32 (xs @ le32 w @ ys) (length xs) = w"
  by (simp add: get32_def le32_word_bytes bytes_word_bytes)

lemma get64_le64: "get64 (xs @ le64 w @ ys) (length xs) = w"
  by (simp add: get64_def le64_def bytes_word_bytes)

lemma get32_at: "n = length xs \<Longrightarrow> get32 (xs @ le32 w @ ys) n = w"
  by (simp add: get32_le32)

lemma get32_take: "i + 4 \<le> n \<Longrightarrow> get32 (take n bs) i = get32 bs i"
  by (simp add: get32_def drop_take min_def)

section \<open>Blocks as bytes\<close>

definition block_bytes :: "block \<Rightarrow> u8 list" where
  "block_bytes b = word_bytes BLOCK_SIZE b"

definition bytes_block :: "u8 list \<Rightarrow> block" where
  "bytes_block bs = bytes_word bs"

lemma length_block_bytes [simp]: "length (block_bytes b) = 1024"
  by (simp add: block_bytes_def BLOCK_SIZE_def)

lemma bytes_block_bytes [simp]: "bytes_block (block_bytes b) = b"
  by (simp add: bytes_block_def block_bytes_def bytes_word_bytes BLOCK_SIZE_def)

lemma block_bytes_block [simp]: "length bs = 1024 \<Longrightarrow> block_bytes (bytes_block bs) = bs"
  by (simp add: bytes_block_def block_bytes_def word_bytes_word BLOCK_SIZE_def)

end
