(* ===== verification/Process.thy ===== *)
theory Process
  imports Queue Bytes
begin

text \<open>
  Processes, scheduling and messages (\<open>egos/grass/process.h\<close>, \<open>egos/grass/process.c\<close>), as built
  with \<open>HW_MLFQ\<close>, \<open>HW_MEASURE\<close> and \<open>HW_PAGING\<close>. The global variables of the module are the
  record \<open>kernel\<close>. A \<open>struct process *\<close> is an index into \<open>proc_set\<close>, a \<open>struct page_info *\<close> a pair
  of such an index and a page; the linked queues are lists (theory \<open>Queue\<close> proves that they behave
  so). The clock is an argument \<open>now\<close> of the operations that read it. A failed \<open>assert\<close> or \<open>panic\<close>
  stops the run.

  A function that switches to another process is cut at the switch: \<open>proc_switch\<close> ends where the
  next process resumes, \<open>proc_recv\<close> has a part before and a part after its \<open>proc_yield\<close>.

  Not in the state: stacks and contexts, the load average (floating point), the cleanup callback
  \<open>finish\<close> of the servers, which only frees the memory of the server, and \<open>proc_dump\<close>, which only
  prints.
\<close>

section \<open>State\<close>

definition MAX_PRIORITY :: nat where
  "MAX_PRIORITY = 3"

definition MAX_PROCS :: nat where
  "MAX_PROCS = 100"

definition PHYS_FRAMES :: nat where
  "PHYS_FRAMES = 128"

definition PG_DEV_SIZE :: nat where
  "PG_DEV_SIZE = 1024"

definition VIRT_PAGES :: nat where
  "VIRT_PAGES = 256"

datatype proc_state = PROC_FREE | PROC_RUNNABLE | PROC_WAITING | PROC_ZOMBIE

datatype msg_type = MSG_REQUEST | MSG_REPLY | MSG_EVENT

text \<open>The size of a message is the length of its contents.\<close>

record message =
  msg_src :: u32
  msg_contents :: "u8 list"

record msg_queue =
  mq_waiting :: bool
  mq_messages :: "message list"

datatype page_info = PI_UNINIT | PI_VALID u32 | PI_ONDISK u32

datatype fi_status = FI_FREE | FI_UNREF | FI_REF | FI_PINNED

record frame_info =
  fi_state :: fi_status
  fi_pi :: "(nat \<times> nat) option"

record process =
  p_priority :: nat
  p_remain_quantum :: u64
  p_last_run :: u64
  p_yield_cnt :: u32
  p_tick_cnt :: u32
  p_pid :: u32
  p_descr :: string
  p_start :: ptr
  p_arg :: ptr
  p_uid :: u32
  p_owner :: u32
  p_state :: proc_state
  p_mboxes :: "msg_type \<Rightarrow> msg_queue"
  p_server :: u32
  p_alarm_set :: bool
  p_exptime :: u64
  p_interruptable :: bool
  p_pages :: "page_info list"

record kernel =
  k_procs :: "process list"
  k_current :: nat
  k_runq :: "nat list list"
  k_free :: "nat list"
  k_nprocs :: u32
  k_nrunnable :: u32
  k_pid_gen :: u32
  k_shutting_down :: bool
  k_curfew :: u64
  k_quantum :: "u32 list"
  k_freeframes :: "u32 list"
  k_freeblocks :: "u32 list"
  k_frame_info :: "frame_info list"
  k_clock_hand :: nat

definition pr :: "kernel \<Rightarrow> nat \<Rightarrow> process" where
  "pr k i = k_procs k ! i"

definition upd_proc :: "nat \<Rightarrow> (process \<Rightarrow> process) \<Rightarrow> kernel \<Rightarrow> kernel" where
  "upd_proc i f k = k\<lparr>k_procs := (k_procs k)[i := f (k_procs k ! i)]\<rparr>"

definition upd_mbox :: "nat \<Rightarrow> msg_type \<Rightarrow> (msg_queue \<Rightarrow> msg_queue) \<Rightarrow> kernel \<Rightarrow> kernel" where
  "upd_mbox i t f = upd_proc i (\<lambda>p. p\<lparr>p_mboxes := (p_mboxes p)(t := f (p_mboxes p t))\<rparr>)"

definition assert :: "bool \<Rightarrow> unit option" where
  "assert b = (if b then Some () else None)"

section \<open>Priorities\<close>

text \<open>The comparison is between unsigned longs; the quanta are unsigned ints.\<close>

definition check_priority :: "u64 \<Rightarrow> nat \<Rightarrow> kernel \<Rightarrow> kernel" where
  "check_priority now i k = (let p = pr k i in
     if now - p_last_run p > p_remain_quantum p then
       let prio = p_priority p + (if p_priority p = MAX_PRIORITY - 1 then 0 else 1)
       in upd_proc i (\<lambda>p. p\<lparr>p_priority := prio, p_remain_quantum := ucast (k_quantum k ! prio)\<rparr>) k
     else upd_proc i (\<lambda>p. p\<lparr>p_remain_quantum := p_remain_quantum p - (now - p_last_run p)\<rparr>) k)"

section \<open>Process structures\<close>

definition mq_init :: msg_queue where
  "mq_init = \<lparr>mq_waiting = False, mq_messages = []\<rparr>"

definition proc_alloc :: "u32 \<Rightarrow> string \<Rightarrow> u32 \<Rightarrow> kernel \<Rightarrow> nat option \<times> kernel" where
  "proc_alloc owner descr uid k = (case k_free k of
     [] \<Rightarrow> (None, k)
   | p # free \<Rightarrow>
       let new = \<lparr>p_priority = 0, p_remain_quantum = 0, p_last_run = 0, p_yield_cnt = 0, p_tick_cnt = 0,
                  p_pid = k_pid_gen k, p_descr = descr, p_start = 0, p_arg = 0, p_uid = uid, p_owner = owner,
                  p_state = PROC_RUNNABLE, p_mboxes = (\<lambda>_. mq_init), p_server = 0, p_alarm_set = False,
                  p_exptime = 0, p_interruptable = False, p_pages = replicate VIRT_PAGES PI_UNINIT\<rparr>
       in (Some p, k\<lparr>k_free := free, k_pid_gen := k_pid_gen k + 1, k_nprocs := k_nprocs k + 1,
                     k_nrunnable := k_nrunnable k + 1, k_procs := (k_procs k)[p := new]\<rparr>))"

definition proc_release :: "nat \<Rightarrow> kernel \<Rightarrow> kernel option" where
  "proc_release i k = do {
     assert (p_state (pr k i) = PROC_ZOMBIE);
     let k = upd_proc i (\<lambda>p. p\<lparr>p_mboxes := (\<lambda>t. (p_mboxes p t)\<lparr>mq_messages := []\<rparr>)\<rparr>) k;
     let k = upd_proc i (\<lambda>p. p\<lparr>p_state := PROC_FREE\<rparr>) (k\<lparr>k_nprocs := k_nprocs k - 1\<rparr>);
     Some (k\<lparr>k_free := k_free k @ [i]\<rparr>) }"

definition proc_to_runqueue :: "nat \<Rightarrow> kernel \<Rightarrow> kernel option" where
  "proc_to_runqueue i k = do {
     assert (p_state (pr k i) = PROC_RUNNABLE);
     let prio = p_priority (pr k i);
     if prio < length (k_runq k) then Some (k\<lparr>k_runq := (k_runq k)[prio := k_runq k ! prio @ [i]]\<rparr>)
     else None }"

definition proc_find :: "u32 \<Rightarrow> kernel \<Rightarrow> nat option" where
  "proc_find pid k = (let i = scan (\<lambda>i. p_state (pr k i) \<noteq> PROC_FREE \<and> p_pid (pr k i) = pid) 0 MAX_PROCS
     in if i < MAX_PROCS then Some i else None)"

section \<open>Messages\<close>

definition proc_send :: "u32 \<Rightarrow> u32 \<Rightarrow> msg_type \<Rightarrow> u8 list \<Rightarrow> kernel \<Rightarrow> (bool \<times> kernel) option" where
  "proc_send src_pid dst_pid mtype contents k = (case proc_find dst_pid k of
     None \<Rightarrow> Some (False, k)
   | Some dst \<Rightarrow>
       if p_state (pr k dst) = PROC_ZOMBIE then Some (False, k)
       else let mq = p_mboxes (pr k dst) mtype in
         if mtype = MSG_REPLY \<and> (p_state (pr k dst) \<noteq> PROC_WAITING \<or> \<not> mq_waiting mq \<or> p_server (pr k dst) \<noteq> src_pid)
         then Some (False, k)
         else do {
           let k = upd_mbox dst mtype (\<lambda>mq. mq\<lparr>mq_messages := mq_messages mq @
                     [\<lparr>msg_src = src_pid, msg_contents = contents\<rparr>]\<rparr>) k;
           if mq_waiting mq then do {
             assert (p_state (pr k dst) = PROC_WAITING);
             let k = upd_proc dst (\<lambda>p. p\<lparr>p_state := PROC_RUNNABLE, p_alarm_set := False\<rparr>)
                       (k\<lparr>k_nrunnable := k_nrunnable k + 1\<rparr>);
             k \<leftarrow> (if dst \<noteq> k_current k then proc_to_runqueue dst k else Some k);
             Some (True, upd_mbox dst mtype (\<lambda>mq. mq\<lparr>mq_waiting := False\<rparr>) k) }
           else Some (True, k) })"

definition proc_wakeup :: "nat \<Rightarrow> kernel \<Rightarrow> kernel option" where
  "proc_wakeup i k = do {
     assert (p_state (pr k i) = PROC_WAITING);
     let k = upd_proc i (\<lambda>p. p\<lparr>p_state := PROC_RUNNABLE, p_alarm_set := False\<rparr>)
               (k\<lparr>k_nrunnable := k_nrunnable k + 1\<rparr>);
     k \<leftarrow> (if i \<noteq> k_current k
          then proc_to_runqueue i (upd_proc i (\<lambda>p. p\<lparr>p_priority := p_priority p -
                 (if p_priority p = MAX_PRIORITY - 1 then 1 else 0)\<rparr>) k)
          else Some k);
     Some (upd_proc i (\<lambda>p. p\<lparr>p_mboxes := (\<lambda>t. (p_mboxes p t)\<lparr>mq_waiting := False\<rparr>)\<rparr>) k) }"

text \<open>
  \<open>proc_recv\<close> up to its \<open>proc_yield\<close>; the result says whether it yields. Then the rest, with the
  size of the buffer; its result is the copied contents, of which \<open>*psize\<close> is the length, and the
  sender.
\<close>

definition proc_recv_wait :: "msg_type \<Rightarrow> u32 \<Rightarrow> u64 \<Rightarrow> kernel \<Rightarrow> (bool \<times> kernel) option" where
  "proc_recv_wait mtype max_time now k = (let i = k_current k; mq = p_mboxes (pr k i) mtype in do {
     assert (p_state (pr k i) = PROC_RUNNABLE);
     assert (\<not> mq_waiting mq);
     if mq_messages mq = [] then do {
       let k = upd_proc i (\<lambda>p. p\<lparr>p_state := PROC_WAITING\<rparr>) (upd_mbox i mtype (\<lambda>mq. mq\<lparr>mq_waiting := True\<rparr>) k);
       let k = k\<lparr>k_nrunnable := k_nrunnable k - 1\<rparr>;
       let k = (if max_time \<noteq> 0
                then upd_proc i (\<lambda>p. p\<lparr>p_exptime := now + ucast max_time, p_alarm_set := True\<rparr>) k else k);
       Some (True, k) }
     else do {
       assert (mtype \<noteq> MSG_REPLY);
       Some (False, k) } })"

definition proc_recv_take :: "msg_type \<Rightarrow> nat \<Rightarrow> kernel \<Rightarrow> ((u8 list \<times> u32) option \<times> kernel) option" where
  "proc_recv_take mtype psize k = (let i = k_current k; mq = p_mboxes (pr k i) mtype in do {
     assert (\<not> mq_waiting mq);
     assert (p_state (pr k i) = PROC_RUNNABLE);
     (case mq_messages mq of
        [] \<Rightarrow> Some (None, k)
      | msg # msgs \<Rightarrow> Some (Some (take psize (msg_contents msg), msg_src msg),
                          upd_mbox i mtype (\<lambda>mq. mq\<lparr>mq_messages := msgs\<rparr>) k)) })"

section \<open>Death\<close>

text \<open>A \<open>struct msg_event\<close>; 1 is \<open>MEV_PROCDIED\<close>.\<close>

definition msg_event :: "u32 \<Rightarrow> int \<Rightarrow> u8 list" where
  "msg_event pid status = le32 1 @ le32 pid @ le32 (word_of_int status)"

text \<open>The loops of \<open>proc_term\<close>: clients that wait for the dead process, then its pages.\<close>

fun wake_clients :: "u32 \<Rightarrow> nat list \<Rightarrow> kernel \<Rightarrow> kernel option" where
  "wake_clients pid [] k = Some k"
| "wake_clients pid (i # is) k =
     (if p_state (pr k i) = PROC_WAITING \<and> mq_waiting (p_mboxes (pr k i) MSG_REPLY) \<and> p_server (pr k i) = pid
      then do { k \<leftarrow> proc_wakeup i k; wake_clients pid is k }
      else wake_clients pid is k)"

fun release_pages :: "page_info list \<Rightarrow> kernel \<Rightarrow> kernel option" where
  "release_pages [] k = Some k"
| "release_pages (PI_UNINIT # pages) k = release_pages pages k"
| "release_pages (PI_VALID f # pages) k =
     (if unat f < length (k_frame_info k) \<and> fi_state (k_frame_info k ! unat f) \<noteq> FI_FREE
      then release_pages pages (k\<lparr>k_frame_info := (k_frame_info k)[unat f := (k_frame_info k ! unat f)\<lparr>fi_state := FI_FREE\<rparr>],
             k_freeframes := k_freeframes k @ [f]\<rparr>)
      else None)"
| "release_pages (PI_ONDISK b # pages) k = release_pages pages (k\<lparr>k_freeblocks := k_freeblocks k @ [b]\<rparr>)"

definition proc_term :: "nat \<Rightarrow> int \<Rightarrow> kernel \<Rightarrow> kernel option" where
  "proc_term i status k = do {
     assert (k_nprocs k > 0);
     let k = (if p_state (pr k i) = PROC_RUNNABLE then k\<lparr>k_nrunnable := k_nrunnable k - 1\<rparr> else k);
     k \<leftarrow> (if p_state (pr k i) \<noteq> PROC_ZOMBIE then do {
            let k = upd_proc i (\<lambda>p. p\<lparr>p_state := PROC_ZOMBIE\<rparr>) k;
            k \<leftarrow> (case proc_find (p_owner (pr k i)) k of
                   None \<Rightarrow> Some k
                 | Some owner \<Rightarrow> do {
                     (_, k) \<leftarrow> proc_send (p_pid (pr k i)) (p_pid (pr k owner)) MSG_EVENT
                                (msg_event (p_pid (pr k i)) status) k;
                     Some k });
            wake_clients (p_pid (pr k i)) [0..<MAX_PROCS] k }
          else Some k);
     release_pages (p_pages (pr k i)) k }"

definition proc_zap :: "nat option \<Rightarrow> nat \<Rightarrow> int \<Rightarrow> kernel \<Rightarrow> kernel option" where
  "proc_zap killer i status k =
     (if (case killer of None \<Rightarrow> False | Some z \<Rightarrow> p_uid (pr k z) \<noteq> 0 \<and> p_uid (pr k z) \<noteq> p_uid (pr k i))
      then Some k
      else do {
        assert (k_nprocs k > 0);
        (case p_state (pr k i) of
           PROC_RUNNABLE \<Rightarrow> proc_term i status k
         | PROC_WAITING \<Rightarrow> do {
             k \<leftarrow> proc_term i status k;
             if i \<noteq> k_current k then proc_release i k else Some k }
         | PROC_ZOMBIE \<Rightarrow> Some k
         | PROC_FREE \<Rightarrow> None) })"

fun zap_all :: "nat \<Rightarrow> int \<Rightarrow> nat list \<Rightarrow> kernel \<Rightarrow> kernel option" where
  "zap_all killer status [] k = Some k"
| "zap_all killer status (i # is) k =
     (if p_state (pr k i) \<noteq> PROC_FREE \<and> p_interruptable (pr k i)
      then do { k \<leftarrow> proc_zap (Some killer) i status k; zap_all killer status is k }
      else zap_all killer status is k)"

text \<open>\<open>proc_kill\<close> up to its \<open>proc_yield\<close>; the result says whether it yields.\<close>

definition proc_kill :: "u32 \<Rightarrow> u32 \<Rightarrow> int \<Rightarrow> kernel \<Rightarrow> (bool \<times> kernel) option" where
  "proc_kill killer pid status k = (case proc_find killer k of
     None \<Rightarrow> Some (False, k)
   | Some z \<Rightarrow>
       if pid = 0 then do {
         k \<leftarrow> zap_all z status [0..<MAX_PROCS] k;
         Some (p_state (pr k (k_current k)) = PROC_ZOMBIE, k) }
       else (case proc_find pid k of
           None \<Rightarrow> Some (False, k)
         | Some i \<Rightarrow> do {
             k \<leftarrow> proc_zap (Some z) i status k;
             Some (p_state (pr k i) = PROC_ZOMBIE, k) }))"

section \<open>The scheduler\<close>

text \<open>One turn of the loop of \<open>proc_yield\<close> ends in one of four ways.\<close>

datatype turn = Switch_to nat | Return_now | Exit_kernel | Idle_for u64

text \<open>The scan of all processes for kills and timeouts; the second result is \<open>next\<close>.\<close>

fun scan_timeouts :: "u64 \<Rightarrow> nat list \<Rightarrow> u64 \<Rightarrow> kernel \<Rightarrow> (u64 \<times> kernel) option" where
  "scan_timeouts now [] next k = Some (next, k)"
| "scan_timeouts now (i # is) next k =
     (if k_shutting_down k \<and> p_state (pr k i) \<noteq> PROC_FREE
      then do { k \<leftarrow> proc_zap None i (- 4) k; scan_timeouts now is next k }
      else if p_state (pr k i) = PROC_WAITING \<and> p_alarm_set (pr k i)
      then do {
        k \<leftarrow> (if p_exptime (pr k i) \<le> now then proc_wakeup i k else Some k);
        let next = (if p_exptime (pr k i) < next then p_exptime (pr k i) else next);
        scan_timeouts now is next k }
      else scan_timeouts now is next k)"

text \<open>
  The loop \<open>while((proc_next = queue_get(mtlQueue->q[prio])) != 0)\<close>: the first runnable process of
  a queue, after the zombies before it have been released.
\<close>

fun drain :: "nat \<Rightarrow> nat list \<Rightarrow> kernel \<Rightarrow> (nat option \<times> kernel) option" where
  "drain prio [] k = Some (None, k)"
| "drain prio (i # is) k = (let k = k\<lparr>k_runq := (k_runq k)[prio := is]\<rparr> in
     if p_state (pr k i) = PROC_RUNNABLE then Some (Some i, k)
     else do { k \<leftarrow> proc_release i k; drain prio is k })"

fun pick_next :: "nat list \<Rightarrow> kernel \<Rightarrow> (nat option \<times> kernel) option" where
  "pick_next [] k = Some (None, k)"
| "pick_next (prio # prios) k = do {
     (r, k) \<leftarrow> drain prio (k_runq k ! prio) k;
     (case r of Some i \<Rightarrow> Some (Some i, k) | None \<Rightarrow> pick_next prios k) }"

definition proc_cleanup :: "kernel \<Rightarrow> kernel" where
  "proc_cleanup k = k\<lparr>k_freeblocks := [], k_freeframes := [], k_free := [], k_runq := replicate MAX_PRIORITY []\<rparr>"

definition yield_turn :: "u64 \<Rightarrow> kernel \<Rightarrow> (turn \<times> kernel) option" where
  "yield_turn now k =
     (if k_curfew k \<noteq> 0 \<and> now > k_curfew k then Some (Exit_kernel, proc_cleanup k)
      else do {
        (next, k) \<leftarrow> scan_timeouts now [0..<MAX_PROCS] (now + 1000) k;
        (r, k) \<leftarrow> pick_next [0..<MAX_PRIORITY] k;
        assert (k_nprocs k > 0);
        (case r of
           Some i \<Rightarrow> Some (Switch_to i, k)
         | None \<Rightarrow>
             if p_state (pr k (k_current k)) = PROC_RUNNABLE then Some (Return_now, k)
             else if k_nprocs k = 1 \<and> k_shutting_down k then Some (Exit_kernel, proc_cleanup k)
             else Some (Idle_for (next - now), k)) })"

text \<open>\<open>proc_after_switch\<close> for the next process \<open>i\<close>.\<close>

definition proc_after_switch :: "nat \<Rightarrow> kernel \<Rightarrow> kernel option" where
  "proc_after_switch i k = do {
     assert (i \<noteq> k_current k);
     assert (p_state (pr k i) = PROC_RUNNABLE);
     k \<leftarrow> (if p_state (pr k (k_current k)) = PROC_ZOMBIE then proc_release (k_current k) k else Some k);
     Some (k\<lparr>k_current := i\<rparr>) }"

text \<open>The rest of \<open>proc_yield\<close> after its loop, up to where the next process resumes.\<close>

definition proc_switch :: "u64 \<Rightarrow> nat \<Rightarrow> kernel \<Rightarrow> kernel option" where
  "proc_switch now i k = do {
     assert (i \<noteq> k_current k);
     assert (p_pid (pr k i) \<noteq> p_pid (pr k (k_current k)));
     assert (p_state (pr k i) = PROC_RUNNABLE);
     k \<leftarrow> (if p_state (pr k (k_current k)) = PROC_RUNNABLE then proc_to_runqueue (k_current k) k else Some k);
     let k = upd_proc i (\<lambda>p. p\<lparr>p_last_run := now\<rparr>) k;
     let k = upd_proc (k_current k) (\<lambda>p. p\<lparr>p_yield_cnt := p_yield_cnt p + 1\<rparr>) k;
     proc_after_switch i k }"

text \<open>
  What the interrupt handlers do while \<open>intr_suspend\<close> waits: they send messages to processes.
\<close>

type_synonym delivery = "u32 \<times> u32 \<times> msg_type \<times> u8 list"

fun intr_suspend :: "delivery list \<Rightarrow> kernel \<Rightarrow> kernel option" where
  "intr_suspend [] k = Some k"
| "intr_suspend ((src, dst, mtype, contents) # ds) k = do {
     (_, k) \<leftarrow> proc_send src dst mtype contents k;
     intr_suspend ds k }"

datatype yielded = Switched | Returned | Exited | Still_idle

text \<open>
  \<open>proc_yield\<close> for a given sequence of I/O and clock readings, one entry for each turn of its
  loop. When the sequence is used up the kernel is still waiting. (The code asserts
  \<open>proc_nprocs > 0\<close> once before its loop and once in every turn; here both are in the turn.)
\<close>

fun proc_yield :: "(delivery list \<times> u64 \<times> u64) list \<Rightarrow> kernel \<Rightarrow> (yielded \<times> kernel) option" where
  "proc_yield [] k = Some (Still_idle, k)"
| "proc_yield ((io, now, now') # env) k = do {
     k \<leftarrow> intr_suspend io k;
     assert (k_nprocs k > 0);
     (r, k) \<leftarrow> yield_turn now k;
     (case r of
        Switch_to i \<Rightarrow> do { k \<leftarrow> proc_switch now' i k; Some (Switched, k) }
      | Return_now \<Rightarrow> Some (Returned, k)
      | Exit_kernel \<Rightarrow> Some (Exited, k)
      | Idle_for _ \<Rightarrow> proc_yield env k) }"

section \<open>Creation\<close>

text \<open>
  The result is the process id for the parent (0 is an error); when it is not 0, the state is the
  one in which the new process starts (\<open>ctx_entry\<close>), and the parent is in the run queue.
\<close>

definition proc_create_uid :: "u32 \<Rightarrow> string \<Rightarrow> ptr \<Rightarrow> ptr \<Rightarrow> u32 \<Rightarrow> u64 \<Rightarrow> kernel \<Rightarrow> (u32 \<times> kernel) option" where
  "proc_create_uid owner descr start arg uid now k =
     (if k_shutting_down k then Some (0, k)
      else (case proc_find owner k of
          None \<Rightarrow> Some (0, k)
        | Some parent \<Rightarrow>
            let uid = (if p_uid (pr k parent) \<noteq> 0 then p_uid (pr k parent) else uid);
                (r, k) = proc_alloc owner descr uid k
            in (case r of
                  None \<Rightarrow> Some (0, k)
                | Some i \<Rightarrow> do {
                    let k = upd_proc i (\<lambda>p. p\<lparr>p_priority := 0, p_remain_quantum := ucast (k_quantum k ! 0),
                              p_start := start, p_arg := arg\<rparr>) k;
                    k \<leftarrow> proc_to_runqueue (k_current k) k;
                    let k = upd_proc i (\<lambda>p. p\<lparr>p_last_run := now\<rparr>) k;
                    Some (p_pid (pr k i), k\<lparr>k_current := i\<rparr>) })))"

definition proc_create :: "u32 \<Rightarrow> string \<Rightarrow> ptr \<Rightarrow> ptr \<Rightarrow> u64 \<Rightarrow> kernel \<Rightarrow> (u32 \<times> kernel) option" where
  "proc_create owner descr start arg now k = proc_create_uid owner descr start arg 0 now k"

section \<open>Start and shutdown\<close>

definition free_proc :: "u32 \<Rightarrow> process" where
  "free_proc pid = \<lparr>p_priority = 0, p_remain_quantum = 0, p_last_run = 0, p_yield_cnt = 0, p_tick_cnt = 0,
     p_pid = pid, p_descr = [], p_start = 0, p_arg = 0, p_uid = 0, p_owner = 0, p_state = PROC_FREE,
     p_mboxes = (\<lambda>_. mq_init), p_server = 0, p_alarm_set = False, p_exptime = 0, p_interruptable = False,
     p_pages = replicate VIRT_PAGES PI_UNINIT\<rparr>"

definition proc_initialize :: "kernel option" where
  "proc_initialize = (let k = \<lparr>k_procs = map (\<lambda>i. free_proc (of_nat i)) [0..<MAX_PROCS], k_current = 0,
       k_runq = replicate MAX_PRIORITY [], k_free = [0..<MAX_PROCS], k_nprocs = 0, k_nrunnable = 0,
       k_pid_gen = 1, k_shutting_down = False, k_curfew = 0,
       k_quantum = map (\<lambda>i. of_nat ((i + 1) * 100)) [0..<MAX_PRIORITY],
       k_freeframes = map of_nat [0..<PHYS_FRAMES], k_freeblocks = map of_nat [0..<PG_DEV_SIZE],
       k_frame_info = replicate PHYS_FRAMES \<lparr>fi_state = FI_FREE, fi_pi = None\<rparr>, k_clock_hand = 0\<rparr>;
       (r, k) = proc_alloc 1 ''main'' 0 k
     in (case r of None \<Rightarrow> None | Some i \<Rightarrow> Some (k\<lparr>k_current := i\<rparr>)))"

definition proc_shutdown :: "u64 \<Rightarrow> kernel \<Rightarrow> kernel" where
  "proc_shutdown now k = k\<lparr>k_shutting_down := True, k_curfew := now + 3000\<rparr>"

section \<open>System calls of kernel processes\<close>

text \<open>\<open>egos/grass/procsys.c\<close>, up to the point where the call waits, and from there on.\<close>

definition sys_recv_wait :: "msg_type \<Rightarrow> u32 \<Rightarrow> u64 \<Rightarrow> kernel \<Rightarrow> (bool option \<times> kernel) option" where
  "sys_recv_wait mtype max_time now k =
     (if mtype \<noteq> MSG_REQUEST \<and> mtype \<noteq> MSG_EVENT then Some (None, k)
      else do { (y, k) \<leftarrow> proc_recv_wait mtype max_time now k; Some (Some y, k) })"

definition sys_recv_take :: "msg_type \<Rightarrow> nat \<Rightarrow> kernel \<Rightarrow> ((int \<times> (u8 list \<times> u32) option) \<times> kernel) option" where
  "sys_recv_take mtype psize k = do {
     (r, k) \<leftarrow> proc_recv_take mtype psize k;
     Some ((case r of None \<Rightarrow> - 1 | Some (msg, _) \<Rightarrow> int (length msg), r), k) }"

definition sys_send :: "u32 \<Rightarrow> msg_type \<Rightarrow> u8 list \<Rightarrow> kernel \<Rightarrow> (int \<times> kernel) option" where
  "sys_send pid mtype msg k =
     (if mtype \<noteq> MSG_REPLY \<and> mtype \<noteq> MSG_EVENT then Some (- 1, k)
      else do {
        (r, k) \<leftarrow> proc_send (p_pid (pr k (k_current k))) pid mtype msg k;
        Some (if r then 0 else - 1, k) })"

text \<open>The result of the first part: \<open>-1\<close> at once, or a wait for the reply.\<close>

definition sys_rpc_send :: "u32 \<Rightarrow> u8 list \<Rightarrow> u64 \<Rightarrow> kernel \<Rightarrow> (bool option \<times> kernel) option" where
  "sys_rpc_send pid request now k =
     (if pid = p_pid (pr k (k_current k)) then Some (None, k)
      else do {
        (r, k) \<leftarrow> proc_send (p_pid (pr k (k_current k))) pid MSG_REQUEST request k;
        if \<not> r then Some (None, k)
        else do {
          let k = upd_proc (k_current k) (\<lambda>p. p\<lparr>p_server := pid\<rparr>) k;
          (y, k) \<leftarrow> proc_recv_wait MSG_REPLY 0 now k;
          Some (Some y, k) } })"

definition sys_rpc_reply :: "u32 \<Rightarrow> nat \<Rightarrow> kernel \<Rightarrow> ((int \<times> u8 list option) \<times> kernel) option" where
  "sys_rpc_reply pid repsize k = do {
     (r, k) \<leftarrow> proc_recv_take MSG_REPLY repsize k;
     (case r of
        None \<Rightarrow> Some ((- 1, None), k)
      | Some (msg, src) \<Rightarrow> do {
          assert (src = pid);
          Some ((int (length msg), Some msg), k) }) }"

definition sys_getpid :: "kernel \<Rightarrow> u32" where
  "sys_getpid k = p_pid (pr k (k_current k))"

text \<open>\<open>sys_exit\<close> up to its \<open>proc_yield\<close>, which does not come back.\<close>

definition sys_exit :: "int \<Rightarrow> kernel \<Rightarrow> kernel option" where
  "sys_exit status k = proc_term (k_current k) status k"

end
