(* ===== verification/ProcessInv.thy ===== *)
theory ProcessInv
  imports Process
begin

text \<open>
  The invariant of the kernel (theory \<open>Process\<close>) and its preservation: every process is where its
  state says (free list, run queue, running), the counters count, process ids are unique, at most
  one mailbox of a process waits, a mailbox for replies holds at most one message, and that is from
  the server the process called. No operation stops on an assertion from a state that satisfies it.
\<close>

lemmas proc_consts [simp] = MAX_PRIORITY_def MAX_PROCS_def PHYS_FRAMES_def

lemma assert_simps [simp]: "assert True = Some ()" "assert False = None"
  by (simp_all add: assert_def)

section \<open>Views of the state\<close>

abbreviation st :: "kernel \<Rightarrow> nat \<Rightarrow> proc_state" where
  "st k i \<equiv> p_state (pr k i)"

definition slots :: "kernel \<Rightarrow> proc_state set \<Rightarrow> nat set" where
  "slots k S = {i. i < 100 \<and> st k i \<in> S}"

lemma slots_finite [simp]: "finite (slots k S)"
  by (rule finite_subset [of _ "{..<100}"]) (auto simp: slots_def)

lemma slots_iff [simp]: "i \<in> slots k S \<longleftrightarrow> i < 100 \<and> st k i \<in> S"
  by (simp add: slots_def)

lemma slots_card: "card (slots k S) \<le> 100"
proof -
  have "card (slots k S) \<le> card {..<100 :: nat}" by (rule card_mono) (auto simp: slots_def)
  then show ?thesis by simp
qed

lemma pr_upd [simp]: "i < length (k_procs k) \<Longrightarrow> pr (upd_proc i f k) j = (if j = i then f (pr k i) else pr k j)"
  by (auto simp: pr_def upd_proc_def)

lemma upd_proc_fields [simp]:
  "length (k_procs (upd_proc i f k)) = length (k_procs k)" "k_current (upd_proc i f k) = k_current k"
  "k_runq (upd_proc i f k) = k_runq k" "k_free (upd_proc i f k) = k_free k"
  "k_nprocs (upd_proc i f k) = k_nprocs k" "k_nrunnable (upd_proc i f k) = k_nrunnable k"
  "k_pid_gen (upd_proc i f k) = k_pid_gen k" "k_shutting_down (upd_proc i f k) = k_shutting_down k"
  "k_curfew (upd_proc i f k) = k_curfew k" "k_quantum (upd_proc i f k) = k_quantum k"
  "k_freeframes (upd_proc i f k) = k_freeframes k" "k_freeblocks (upd_proc i f k) = k_freeblocks k"
  "k_frame_info (upd_proc i f k) = k_frame_info k" "k_clock_hand (upd_proc i f k) = k_clock_hand k"
  by (simp_all add: upd_proc_def)

lemma pr_fields [simp]:
  "pr (k\<lparr>k_runq := a\<rparr>) i = pr k i" "pr (k\<lparr>k_free := b\<rparr>) i = pr k i" "pr (k\<lparr>k_nprocs := c\<rparr>) i = pr k i"
  "pr (k\<lparr>k_nrunnable := c\<rparr>) i = pr k i" "pr (k\<lparr>k_current := d\<rparr>) i = pr k i"
  "pr (k\<lparr>k_freeframes := e\<rparr>) i = pr k i" "pr (k\<lparr>k_freeblocks := e\<rparr>) i = pr k i"
  "pr (k\<lparr>k_frame_info := g\<rparr>) i = pr k i" "pr (k\<lparr>k_clock_hand := h\<rparr>) i = pr k i"
  "pr (k\<lparr>k_pid_gen := c\<rparr>) i = pr k i"
  by (simp_all add: pr_def)

lemma slots_upd:
  "i < length (k_procs k) \<Longrightarrow> i < 100 \<Longrightarrow> slots (upd_proc i f k) S =
     (if p_state (f (pr k i)) \<in> S then insert i (slots k S) else slots k S - {i})"
  by (auto simp: slots_def)

section \<open>The invariant\<close>

definition mail_ok :: "process \<Rightarrow> bool" where
  "mail_ok p \<longleftrightarrow> (\<forall>t t'. mq_waiting (p_mboxes p t) \<and> mq_waiting (p_mboxes p t') \<longrightarrow> t = t') \<and>
     (\<forall>t. mq_waiting (p_mboxes p t) \<longrightarrow> p_state p = PROC_WAITING \<or> p_state p = PROC_ZOMBIE \<or> p_state p = PROC_FREE) \<and>
     (p_state p = PROC_RUNNABLE \<or> p_state p = PROC_WAITING \<longrightarrow>
        length (mq_messages (p_mboxes p MSG_REPLY)) \<le> 1 \<and>
        (\<forall>m\<in>set (mq_messages (p_mboxes p MSG_REPLY)). msg_src m = p_server p) \<and>
        (mq_waiting (p_mboxes p MSG_REPLY) \<longrightarrow> mq_messages (p_mboxes p MSG_REPLY) = []))"

definition proc_ok :: "process \<Rightarrow> bool" where
  "proc_ok p \<longleftrightarrow> p_priority p < 3 \<and> length (p_pages p) = VIRT_PAGES \<and> mail_ok p"

text \<open>The processes in \<open>X\<close> are on no queue: the running one, and one that is about to run or to go.\<close>

definition queues_ok :: "nat set \<Rightarrow> kernel \<Rightarrow> bool" where
  "queues_ok X k \<longleftrightarrow> length (k_runq k) = 3 \<and> distinct (concat (k_runq k)) \<and>
     set (concat (k_runq k)) = slots k {PROC_RUNNABLE, PROC_ZOMBIE} - X \<and>
     distinct (k_free k) \<and> set (k_free k) = slots k {PROC_FREE}"

definition counts_ok :: "kernel \<Rightarrow> bool" where
  "counts_ok k \<longleftrightarrow> k_nprocs k = of_nat (card (slots k (- {PROC_FREE}))) \<and>
     k_nrunnable k = of_nat (card (slots k {PROC_RUNNABLE}))"

definition kernel_inv :: "nat set \<Rightarrow> kernel \<Rightarrow> bool" where
  "kernel_inv X k \<longleftrightarrow> length (k_procs k) = 100 \<and> k_current k < 100 \<and> st k (k_current k) \<noteq> PROC_FREE \<and>
     queues_ok X k \<and> counts_ok k \<and> inj_on (\<lambda>i. p_pid (pr k i)) (slots k (- {PROC_FREE})) \<and>
     (\<forall>i<100. proc_ok (pr k i)) \<and> k_current k \<in> X \<and>
     (\<forall>i\<in>X. i \<noteq> k_current k \<longrightarrow> st k i \<noteq> PROC_WAITING)"

lemma kernel_invD:
  assumes "kernel_inv X k"
  shows "length (k_procs k) = 100" "k_current k < 100" "st k (k_current k) \<noteq> PROC_FREE"
    "queues_ok X k" "counts_ok k" "inj_on (\<lambda>i. p_pid (pr k i)) (slots k (- {PROC_FREE}))"
    "\<And>i. i < 100 \<Longrightarrow> proc_ok (pr k i)" "k_current k \<in> X"
    "\<And>i. i \<in> X \<Longrightarrow> i \<noteq> k_current k \<Longrightarrow> st k i \<noteq> PROC_WAITING"
  using assms by (auto simp: kernel_inv_def)

lemma nprocs_pos: "kernel_inv X k \<Longrightarrow> k_nprocs k > 0"
proof -
  assume inv: "kernel_inv X k"
  let ?S = "slots k (- {PROC_FREE})"
  have "k_current k \<in> ?S" using kernel_invD(2,3) [OF inv] by simp
  then have "0 < card ?S" by (auto simp: card_gt_0_iff)
  moreover have "card ?S \<le> 100" by (rule slots_card)
  moreover have "k_nprocs k = of_nat (card ?S)" using kernel_invD(5) [OF inv] by (simp add: counts_ok_def)
  ultimately show ?thesis by (simp add: word_less_nat_alt unat_of_nat)
qed

text \<open>What does not change while processes are woken up.\<close>

definition evolves :: "kernel \<Rightarrow> kernel \<Rightarrow> bool" where
  "evolves k k' \<longleftrightarrow> k_current k' = k_current k \<and> k_nprocs k' = k_nprocs k \<and> k_free k' = k_free k \<and>
     k_pid_gen k' = k_pid_gen k \<and> k_shutting_down k' = k_shutting_down k \<and> k_curfew k' = k_curfew k \<and>
     k_quantum k' = k_quantum k \<and> k_freeframes k' = k_freeframes k \<and> k_freeblocks k' = k_freeblocks k \<and>
     k_frame_info k' = k_frame_info k \<and> k_clock_hand k' = k_clock_hand k \<and>
     (\<forall>j. p_pid (pr k' j) = p_pid (pr k j) \<and> p_pages (pr k' j) = p_pages (pr k j) \<and>
       p_uid (pr k' j) = p_uid (pr k j) \<and> p_owner (pr k' j) = p_owner (pr k j) \<and>
       p_interruptable (pr k' j) = p_interruptable (pr k j) \<and> p_server (pr k' j) = p_server (pr k j) \<and>
       (st k' j = st k j \<or> st k j = PROC_WAITING \<and> st k' j = PROC_RUNNABLE))"

lemma evolves_refl [simp]: "evolves k k"
  by (simp add: evolves_def)

lemma evolves_trans [trans]: "evolves k k' \<Longrightarrow> evolves k' k'' \<Longrightarrow> evolves k k''"
  unfolding evolves_def by (auto; metis)

lemma evolves_st: "evolves k k' \<Longrightarrow> st k' j = st k j \<or> st k j = PROC_WAITING \<and> st k' j = PROC_RUNNABLE"
  by (simp add: evolves_def)

lemma evolves_zombie: "evolves k k' \<Longrightarrow> st k i = PROC_ZOMBIE \<Longrightarrow> st k' i = PROC_ZOMBIE"
  unfolding evolves_def by (metis proc_state.distinct(11))

lemma evolves_free: "evolves k k' \<Longrightarrow> st k' i = PROC_FREE \<longleftrightarrow> st k i = PROC_FREE"
  unfolding evolves_def by (metis proc_state.distinct(1,3))

lemma evolvesD:
  assumes "evolves k k'"
  shows "k_current k' = k_current k" "p_pages (pr k' j) = p_pages (pr k j)" "p_pid (pr k' j) = p_pid (pr k j)"
    "k_freeframes k' = k_freeframes k" "k_freeblocks k' = k_freeblocks k" "k_frame_info k' = k_frame_info k"
  using assms by (auto simp: evolves_def)

section \<open>Finding processes\<close>

lemma proc_find_Some:
  assumes "kernel_inv X k"
  shows "proc_find pid k = Some i \<longleftrightarrow> i < 100 \<and> st k i \<noteq> PROC_FREE \<and> p_pid (pr k i) = pid"
proof -
  let ?P = "\<lambda>i. st k i \<noteq> PROC_FREE \<and> p_pid (pr k i) = pid"
  have inj: "i = j" if "i < 100" "j < 100" "?P i" "?P j" for i j
    using kernel_invD(6) [OF assms] that by (auto simp: inj_on_def)
  show ?thesis
  proof (cases rule: scan_cases [of ?P 100])
    case found
    then show ?thesis using inj [of "scan ?P 0 100" i] by (auto simp: proc_find_def Let_def)
  next
    case missed
    then show ?thesis by (auto simp: proc_find_def Let_def)
  qed
qed

lemma proc_find_bound: "proc_find pid k = Some i \<Longrightarrow> i < 100 \<and> st k i \<noteq> PROC_FREE \<and> p_pid (pr k i) = pid"
  using scan_found [of "\<lambda>i. st k i \<noteq> PROC_FREE \<and> p_pid (pr k i) = pid" 0 100]
  by (auto simp: proc_find_def Let_def split: if_splits)

section \<open>Changes that keep states\<close>

lemma kernel_inv_upd:
  assumes "kernel_inv X k" "i < 100" "p_state (f (pr k i)) = st k i" "p_pid (f (pr k i)) = p_pid (pr k i)"
    "proc_ok (f (pr k i))"
  shows "kernel_inv X (upd_proc i f k)"
proof -
  note d = kernel_invD [OF assms(1)]
  have s: "slots (upd_proc i f k) S = slots k S" for S
    using d(1) assms(2,3) by (auto simp: slots_upd slots_def)
  have v: "st (upd_proc i f k) j = st k j" "p_pid (pr (upd_proc i f k) j) = p_pid (pr k j)" for j
    using d(1) assms(2,3,4) by simp_all
  have q: "queues_ok X (upd_proc i f k)" "counts_ok (upd_proc i f k)"
    using d(4,5) by (simp_all add: queues_ok_def counts_ok_def s)
  have p: "proc_ok (pr (upd_proc i f k) j)" if "j < 100" for j
    using d(1) d(7) [OF that] assms(2,5) by simp
  show ?thesis using d(1,2,3,6,8,9) q p by (simp add: kernel_inv_def v s)
qed

lemma queues_ok_cong:
  assumes "k_runq k' = k_runq k" "k_free k' = k_free k" "\<And>S. slots k' S = slots k S" "queues_ok X k"
  shows "queues_ok X k'"
  using assms by (simp add: queues_ok_def)

text \<open>A process enters a run queue.\<close>

lemma concat_upd_set: "p < length q \<Longrightarrow> set (concat (q[p := q ! p @ [i]])) = insert i (set (concat q))"
  by (induction q arbitrary: p) (auto simp: nth_Cons' split: nat.splits)

lemma concat_upd_distinct:
  "p < length q \<Longrightarrow> distinct (concat q) \<Longrightarrow> i \<notin> set (concat q) \<Longrightarrow> distinct (concat (q[p := q ! p @ [i]]))"
proof (induction q arbitrary: p)
  case (Cons x q)
  then show ?case
  proof (cases p)
    case (Suc p')
    with Cons show ?thesis using concat_upd_set [of p' q i] by auto
  qed auto
qed simp

lemma runqueue_enter:
  assumes "kernel_inv X k" "i < 100" "st k i = PROC_RUNNABLE" "i \<in> X"
  shows "\<exists>k'. proc_to_runqueue i k = Some k' \<and> k' = k\<lparr>k_runq := k_runq k'\<rparr> \<and> queues_ok (X - {i}) k'"
proof -
  note d = kernel_invD [OF assms(1)]
  let ?p = "p_priority (pr k i)"
  let ?k = "k\<lparr>k_runq := (k_runq k)[?p := k_runq k ! ?p @ [i]]\<rparr>"
  have p: "?p < length (k_runq k)" using d(4) d(7) [OF assms(2)] by (simp add: queues_ok_def proc_ok_def)
  have "set (concat (k_runq k)) = slots k {PROC_RUNNABLE, PROC_ZOMBIE} - X" "distinct (concat (k_runq k))"
    using d(4) by (simp_all add: queues_ok_def)
  moreover have "i \<notin> set (concat (k_runq k))" using calculation(1) assms(4) by blast
  ultimately have "distinct (concat (k_runq ?k))"
    "set (concat (k_runq ?k)) = insert i (slots k {PROC_RUNNABLE, PROC_ZOMBIE} - X)"
    using concat_upd_distinct [OF p] concat_upd_set [OF p] by simp_all
  moreover have "slots ?k S = slots k S" for S by (simp add: slots_def)
  moreover have "insert i (slots k {PROC_RUNNABLE, PROC_ZOMBIE} - X) = slots k {PROC_RUNNABLE, PROC_ZOMBIE} - (X - {i})"
    using assms(2,3) by auto
  ultimately have "queues_ok (X - {i}) ?k" using d(4) by (simp add: queues_ok_def)
  then show ?thesis using p assms(3) by (simp add: proc_to_runqueue_def Let_def)
qed

section \<open>Waking up\<close>

lemma upd_upd: "i < length (k_procs k) \<Longrightarrow> upd_proc i g (upd_proc i f k) = upd_proc i (\<lambda>p. g (f p)) k"
  by (simp add: upd_proc_def)

lemma runqueue_upd:
  assumes "i < length (k_procs k)" "p_state (g (pr k i)) = st k i" "p_priority (g (pr k i)) = p_priority (pr k i)"
  shows "proc_to_runqueue i (upd_proc i g k) = map_option (upd_proc i g) (proc_to_runqueue i k)"
  using assms by (cases "st k i = PROC_RUNNABLE") (auto simp: proc_to_runqueue_def Let_def upd_proc_def pr_def)

lemma card_insert_word: "finite S \<Longrightarrow> i \<notin> S \<Longrightarrow> of_nat (card (insert i S)) = (of_nat (card S) + 1 :: u32)"
  by simp

lemma set_runnable:
  assumes "kernel_inv X k" "i < 100" "st k i = PROC_WAITING" "p_state (f (pr k i)) = PROC_RUNNABLE"
    "p_pid (f (pr k i)) = p_pid (pr k i)" "proc_ok (f (pr k i))"
  shows "kernel_inv (insert i X) (upd_proc i f (k\<lparr>k_nrunnable := k_nrunnable k + 1\<rparr>))"
proof -
  note d = kernel_invD [OF assms(1)]
  define ka where "ka = upd_proc i f (k\<lparr>k_nrunnable := k_nrunnable k + 1\<rparr>)"
  have v: "pr ka j = (if j = i then f (pr k i) else pr k j)" for j
    using d(1) assms(2) by (simp add: ka_def)
  have fields: "length (k_procs ka) = 100" "k_current ka = k_current k" "k_runq ka = k_runq k"
    "k_free ka = k_free k" "k_nprocs ka = k_nprocs k" "k_nrunnable ka = k_nrunnable k + 1"
    using d(1) by (simp_all add: ka_def)
  have s: "slots ka {PROC_RUNNABLE, PROC_ZOMBIE} - insert i X = slots k {PROC_RUNNABLE, PROC_ZOMBIE} - X"
    "slots ka {PROC_FREE} = slots k {PROC_FREE}" "slots ka (- {PROC_FREE}) = slots k (- {PROC_FREE})"
    "slots ka {PROC_RUNNABLE} = insert i (slots k {PROC_RUNNABLE})" "i \<notin> slots k {PROC_RUNNABLE}"
    using assms(2,3,4) by (auto simp: slots_def v)
  have "queues_ok (insert i X) ka"
    using d(4) unfolding queues_ok_def fields s(1,2) .
  moreover have "counts_ok ka"
    using d(5) card_insert_word [OF slots_finite s(5)] unfolding counts_ok_def fields s(3,4) by simp
  moreover have "inj_on (\<lambda>i. p_pid (pr ka i)) (slots ka (- {PROC_FREE}))"
    using d(6) unfolding s(3) by (rule inj_on_cong [THEN iffD2, rotated]) (simp add: v assms(5))
  moreover have "proc_ok (pr ka j)" if "j < 100" for j
    using d(7) [OF that] assms(6) by (simp add: v)
  ultimately show ?thesis unfolding ka_def [symmetric] kernel_inv_def fields
    using d(2,3,8,9) assms(4) by (auto simp: v)
qed

lemma kernel_inv_runq:
  "kernel_inv X k \<Longrightarrow> queues_ok Y (k\<lparr>k_runq := q\<rparr>) \<Longrightarrow> Y \<subseteq> X \<Longrightarrow> k_current k \<in> Y \<Longrightarrow> kernel_inv Y (k\<lparr>k_runq := q\<rparr>)"
  by (auto simp: kernel_inv_def counts_ok_def slots_def)

text \<open>
  The common part of \<open>proc_send\<close> and \<open>proc_wakeup\<close>: a waiting process becomes runnable, by \<open>f\<close>,
  is put on a queue unless it is the current process, and is then changed by \<open>g\<close>.
\<close>

lemma wake_up:
  assumes "kernel_inv X k" "i < 100" "st k i = PROC_WAITING" "p_state (f (pr k i)) = PROC_RUNNABLE"
    "p_state (g (f (pr k i))) = PROC_RUNNABLE" "p_priority (g (f (pr k i))) = p_priority (f (pr k i))"
    "p_pid (g (f (pr k i))) = p_pid (pr k i)" "proc_ok (g (f (pr k i)))"
  shows "\<exists>k1. (if i \<noteq> k_current k then proc_to_runqueue i (upd_proc i f (k\<lparr>k_nrunnable := k_nrunnable k + 1\<rparr>))
      else Some (upd_proc i f (k\<lparr>k_nrunnable := k_nrunnable k + 1\<rparr>))) = Some k1 \<and>
    kernel_inv X (upd_proc i g k1) \<and> (\<forall>j. pr (upd_proc i g k1) j = (if j = i then g (f (pr k i)) else pr k j)) \<and>
    upd_proc i g k1 = k\<lparr>k_procs := k_procs (upd_proc i g k1), k_runq := k_runq k1, k_nrunnable := k_nrunnable k + 1\<rparr>"
proof -
  note d = kernel_invD [OF assms(1)]
  let ?k0 = "k\<lparr>k_nrunnable := k_nrunnable k + 1\<rparr>"
  let ?k1 = "upd_proc i f ?k0" and ?k2 = "upd_proc i (\<lambda>p. g (f p)) ?k0"
  have len: "i < length (k_procs ?k0)" "i < length (k_procs ?k1)" using d(1) assms(2) by simp_all
  have k2: "upd_proc i g ?k1 = ?k2" using upd_upd [OF len(1)] .
  have inv2: "kernel_inv (insert i X) ?k2"
    by (rule set_runnable [OF assms(1-3)]) (simp_all add: assms)
  have v2: "pr ?k2 j = (if j = i then g (f (pr k i)) else pr k j)" for j using len by simp
  show ?thesis
  proof (cases "i = k_current k")
    case True
    have "insert i X = X" using True d(8) by auto
    with inv2 True v2 show ?thesis unfolding k2 [symmetric] by (simp add: k2 upd_proc_def)
  next
    case False
    have iX: "i \<notin> X" using d(9) [of i] assms(3) False by auto
    have "st ?k2 i = PROC_RUNNABLE" using v2 assms(5) by simp
    from runqueue_enter [OF inv2 assms(2) this] obtain q where
      q: "proc_to_runqueue i ?k2 = Some (?k2\<lparr>k_runq := q\<rparr>)" "queues_ok X (?k2\<lparr>k_runq := q\<rparr>)"
      using iX by (metis Diff_insert_absorb insertI1)
    have inv: "kernel_inv X (?k2\<lparr>k_runq := q\<rparr>)"
      by (rule kernel_inv_runq [OF inv2 q(2)]) (use d(8) in auto)
    have "map_option (upd_proc i g) (proc_to_runqueue i ?k1) = Some (?k2\<lparr>k_runq := q\<rparr>)"
      using runqueue_upd [of i ?k1 g] len assms(4,5,6) q(1) k2 by simp
    then obtain k1 where k1: "proc_to_runqueue i ?k1 = Some k1" "upd_proc i g k1 = ?k2\<lparr>k_runq := q\<rparr>" by blast
    have "k_runq k1 = q" using arg_cong [OF k1(2), of k_runq] by simp
    then have "upd_proc i g k1 = k\<lparr>k_procs := k_procs (upd_proc i g k1), k_runq := k_runq k1, k_nrunnable := k_nrunnable k + 1\<rparr>"
      unfolding k1(2) by (simp add: upd_proc_def)
    moreover have "\<forall>j. pr (upd_proc i g k1) j = (if j = i then g (f (pr k i)) else pr k j)"
      unfolding k1(2) pr_fields using v2 by blast
    moreover have "kernel_inv X (upd_proc i g k1)" unfolding k1(2) by (rule inv)
    ultimately show ?thesis using k1(1) False by auto
  qed
qed

lemma wake_evolves:
  assumes "\<forall>j. pr k' j = (if j = i then p else pr k j)" "k' = k\<lparr>k_procs := ps, k_runq := q, k_nrunnable := n\<rparr>"
    "st k i = PROC_WAITING" "p_state p = PROC_RUNNABLE" "p_pid p = p_pid (pr k i)" "p_pages p = p_pages (pr k i)"
    "p_uid p = p_uid (pr k i)" "p_owner p = p_owner (pr k i)" "p_interruptable p = p_interruptable (pr k i)"
    "p_server p = p_server (pr k i)"
  shows "evolves k k'"
  unfolding evolves_def using assms by simp

lemma proc_wakeup_inv:
  assumes "kernel_inv X k" "i < 100" "st k i = PROC_WAITING"
  shows "\<exists>k'. proc_wakeup i k = Some k' \<and> kernel_inv X k' \<and> evolves k k' \<and> st k' i = PROC_RUNNABLE \<and>
    p_exptime (pr k' i) = p_exptime (pr k i)"
proof -
  note d = kernel_invD [OF assms(1)]
  let ?f = "\<lambda>p. p\<lparr>p_state := PROC_RUNNABLE, p_alarm_set := False\<rparr>"
  let ?h = "\<lambda>p :: process. p\<lparr>p_priority := p_priority p - (if p_priority p = 2 then 1 else 0)\<rparr>"
  define f' where "f' = (\<lambda>p. if i \<noteq> k_current k then ?h (?f p) else ?f p)"
  define g where "g = (\<lambda>p :: process. p\<lparr>p_mboxes := (\<lambda>t. (p_mboxes p t)\<lparr>mq_waiting := False\<rparr>)\<rparr>)"
  have f: "p_state (f' (pr k i)) = PROC_RUNNABLE" "p_state (g (f' (pr k i))) = PROC_RUNNABLE"
    "p_priority (g (f' (pr k i))) = p_priority (f' (pr k i))" "p_pid (g (f' (pr k i))) = p_pid (pr k i)"
    "proc_ok (g (f' (pr k i)))"
    using d(7) [OF assms(2)] assms(3) by (auto simp: f'_def g_def proc_ok_def mail_ok_def)
  from wake_up [where f = f' and g = g, OF assms f] obtain k1 where
    k1: "(if i \<noteq> k_current k then proc_to_runqueue i (upd_proc i f' (k\<lparr>k_nrunnable := k_nrunnable k + 1\<rparr>))
      else Some (upd_proc i f' (k\<lparr>k_nrunnable := k_nrunnable k + 1\<rparr>))) = Some k1"
    "kernel_inv X (upd_proc i g k1)" "\<forall>j. pr (upd_proc i g k1) j = (if j = i then g (f' (pr k i)) else pr k j)"
    "upd_proc i g k1 = k\<lparr>k_procs := k_procs (upd_proc i g k1), k_runq := k_runq k1, k_nrunnable := k_nrunnable k + 1\<rparr>"
    by blast
  have len: "i < length (k_procs (k\<lparr>k_nrunnable := k_nrunnable k + 1\<rparr>))" using d(1) assms(2) by simp
  have run: "proc_wakeup i k = Some (upd_proc i g k1)"
    using k1(1) assms(3) upd_upd [OF len, of ?h ?f]
    by (cases "i = k_current k") (auto simp: proc_wakeup_def Let_def f'_def g_def)
  moreover have "evolves k (upd_proc i g k1)"
    by (rule wake_evolves [OF k1(3,4) assms(3)]) (simp_all add: f'_def g_def)
  ultimately show ?thesis using k1(2,3) f(2) by (simp add: f'_def g_def)
qed

section \<open>Sending\<close>

lemma upd_mbox_proc: "upd_mbox i t f k = upd_proc i (\<lambda>p. p\<lparr>p_mboxes := (p_mboxes p)(t := f (p_mboxes p t))\<rparr>) k"
  by (simp add: upd_mbox_def)

lemma evolves_mbox: "i < length (k_procs k) \<Longrightarrow> evolves k (upd_mbox i t f k)"
  by (simp add: evolves_def upd_mbox_proc)

definition mails :: "kernel \<Rightarrow> nat \<Rightarrow> msg_type \<Rightarrow> message list" where
  "mails k i t = mq_messages (p_mboxes (pr k i) t)"

text \<open>Whether the kernel accepts a message, and what it then does with it.\<close>

definition accepts :: "kernel \<Rightarrow> u32 \<Rightarrow> nat \<Rightarrow> msg_type \<Rightarrow> bool" where
  "accepts k src i mtype \<longleftrightarrow> st k i \<noteq> PROC_ZOMBIE \<and> (mtype = MSG_REPLY \<longrightarrow>
     st k i = PROC_WAITING \<and> mq_waiting (p_mboxes (pr k i) MSG_REPLY) \<and> p_server (pr k i) = src)"

definition delivered :: "u32 \<Rightarrow> u32 \<Rightarrow> msg_type \<Rightarrow> u8 list \<Rightarrow> kernel \<Rightarrow> bool \<Rightarrow> kernel \<Rightarrow> bool" where
  "delivered src dst mtype msg k r k' \<longleftrightarrow> (case proc_find dst k of
     None \<Rightarrow> \<not> r \<and> k' = k
   | Some i \<Rightarrow> r = accepts k src i mtype \<and> (\<not> r \<longrightarrow> k' = k) \<and>
       (r \<longrightarrow> (\<forall>j t. mails k' j t = (if j = i \<and> t = mtype then mails k j t @ [\<lparr>msg_src = src, msg_contents = msg\<rparr>]
               else mails k j t)) \<and>
             st k' i = (if mq_waiting (p_mboxes (pr k i) mtype) then PROC_RUNNABLE else st k i)))"

lemma proc_send_inv:
  assumes "kernel_inv X k"
  shows "\<exists>r k'. proc_send src dst mtype msg k = Some (r, k') \<and> kernel_inv X k' \<and> evolves k k' \<and>
    delivered src dst mtype msg k r k'"
proof (cases "proc_find dst k")
  case None
  then show ?thesis using assms by (auto simp: proc_send_def delivered_def)
next
  case (Some i)
  note d = kernel_invD [OF assms]
  have i: "i < 100" "st k i \<noteq> PROC_FREE" using proc_find_bound [OF Some] by auto
  have ok: "mail_ok (pr k i)" "proc_ok (pr k i)" using d(7) [OF i(1)] by (auto simp: proc_ok_def)
  let ?mq = "p_mboxes (pr k i) mtype" and ?m = "\<lparr>msg_src = src, msg_contents = msg\<rparr>"
  show ?thesis
  proof (cases "st k i = PROC_ZOMBIE \<or> mtype = MSG_REPLY \<and> (st k i \<noteq> PROC_WAITING \<or> \<not> mq_waiting ?mq \<or> p_server (pr k i) \<noteq> src)")
    case True
    then have "\<not> accepts k src i mtype" by (auto simp: accepts_def)
    then show ?thesis using True assms Some by (auto simp: proc_send_def Let_def delivered_def)
  next
    case ok': False
    have acc: "accepts k src i mtype" using ok' by (auto simp: accepts_def)
    let ?h = "\<lambda>p. p\<lparr>p_mboxes := (p_mboxes p)(mtype := (p_mboxes p mtype)\<lparr>mq_messages := mq_messages (p_mboxes p mtype) @ [?m]\<rparr>)\<rparr>"
    let ?r = "\<lambda>p. p\<lparr>p_state := PROC_RUNNABLE, p_alarm_set := False\<rparr>"
    let ?ka = "upd_mbox i mtype (\<lambda>mq. mq\<lparr>mq_messages := mq_messages mq @ [?m]\<rparr>) k"
    have len: "i < length (k_procs k)" using d(1) i(1) by simp
    show ?thesis
    proof (cases "mq_waiting ?mq")
      case False
      have "proc_ok (?h (pr k i))" using ok ok' False by (auto simp: proc_ok_def mail_ok_def)
      then have "kernel_inv X ?ka" unfolding upd_mbox_proc by (intro kernel_inv_upd [OF assms i(1)]) simp_all
      moreover have "evolves k ?ka" by (rule evolves_mbox [OF len])
      moreover have "proc_send src dst mtype msg k = Some (True, ?ka)"
        using Some ok' False len by (auto simp: proc_send_def Let_def)
      moreover have "delivered src dst mtype msg k True ?ka"
        using Some acc False len by (simp add: delivered_def mails_def upd_mbox_proc)
      ultimately show ?thesis by blast
    next
      case True
      have w: "st k i = PROC_WAITING" using ok(1) True ok' i(2) by (auto simp: mail_ok_def)
      define f where "f = (\<lambda>p :: process. ?r (?h p))"
      define g where "g = (\<lambda>p :: process. p\<lparr>p_mboxes := (p_mboxes p)(mtype := (p_mboxes p mtype)\<lparr>mq_waiting := False\<rparr>)\<rparr>)"
      have "mail_ok (g (f (pr k i)))" using ok(1) ok' True w
        by (auto simp: f_def g_def mail_ok_def)
      then have f: "p_state (f (pr k i)) = PROC_RUNNABLE" "p_state (g (f (pr k i))) = PROC_RUNNABLE"
        "p_priority (g (f (pr k i))) = p_priority (f (pr k i))" "p_pid (g (f (pr k i))) = p_pid (pr k i)"
        "proc_ok (g (f (pr k i)))"
        using ok(2) by (auto simp: f_def g_def proc_ok_def)
      from wake_up [where f = f and g = g, OF assms i(1) w f] obtain k1 where
        k1: "(if i \<noteq> k_current k then proc_to_runqueue i (upd_proc i f (k\<lparr>k_nrunnable := k_nrunnable k + 1\<rparr>))
          else Some (upd_proc i f (k\<lparr>k_nrunnable := k_nrunnable k + 1\<rparr>))) = Some k1"
        "kernel_inv X (upd_proc i g k1)" "\<forall>j. pr (upd_proc i g k1) j = (if j = i then g (f (pr k i)) else pr k j)"
        "upd_proc i g k1 = k\<lparr>k_procs := k_procs (upd_proc i g k1), k_runq := k_runq k1, k_nrunnable := k_nrunnable k + 1\<rparr>"
        by blast
      have st': "st ?ka i = PROC_WAITING" using len w by (simp add: upd_mbox_proc)
      have ka: "upd_proc i ?r (?ka\<lparr>k_nrunnable := k_nrunnable ?ka + 1\<rparr>) = upd_proc i f (k\<lparr>k_nrunnable := k_nrunnable k + 1\<rparr>)"
        using len by (simp add: upd_mbox_def upd_proc_def f_def)
      have "proc_send src dst mtype msg k = (do {
          k \<leftarrow> (if i \<noteq> k_current ?ka then proc_to_runqueue i (upd_proc i ?r (?ka\<lparr>k_nrunnable := k_nrunnable ?ka + 1\<rparr>))
               else Some (upd_proc i ?r (?ka\<lparr>k_nrunnable := k_nrunnable ?ka + 1\<rparr>)));
          Some (True, upd_mbox i mtype (\<lambda>mq. mq\<lparr>mq_waiting := False\<rparr>) k) })"
        using Some ok' True st' by (auto simp: proc_send_def Let_def upd_mbox_def)
      then have "proc_send src dst mtype msg k = Some (True, upd_proc i g k1)"
        using k1(1) unfolding ka by (simp add: upd_mbox_proc g_def)
      moreover have "evolves k (upd_proc i g k1)"
        by (rule wake_evolves [OF k1(3,4) w]) (simp_all add: f_def g_def)
      moreover have "delivered src dst mtype msg k True (upd_proc i g k1)"
        using Some acc True k1(3) by (simp add: delivered_def mails_def f_def g_def)
      ultimately show ?thesis using k1(2) by blast
    qed
  qed
qed

lemma intr_suspend_inv:
  "kernel_inv X k \<Longrightarrow> \<exists>k'. intr_suspend io k = Some k' \<and> kernel_inv X k' \<and> evolves k k'"
proof (induction io arbitrary: k)
  case (Cons d io)
  obtain src dst mtype msg where d: "d = (src, dst, mtype, msg)" by (cases d) auto
  from proc_send_inv [OF Cons.prems] obtain r k1 where
    k1: "proc_send src dst mtype msg k = Some (r, k1)" "kernel_inv X k1" "evolves k k1" by blast
  from Cons.IH [OF k1(2)] k1 show ?case by (auto simp: d intro: evolves_trans)
qed simp

end
