(* ===== verification/ProcessPages.thy ===== *)
theory ProcessPages
  imports ProcessInv "HOL-Library.Multiset"
begin

text \<open>
  The frames and paging blocks of the kernel (theory \<open>Process\<close>): where they are, and that the
  death of a process returns all of its frames and blocks. The invariant \<open>kernel_ok\<close> puts this
  together with the invariant of theory \<open>ProcessInv\<close>.
\<close>

section \<open>Frames and paging blocks\<close>

definition frames_of :: "page_info list \<Rightarrow> u32 list" where
  "frames_of ps = concat (map (\<lambda>p. case p of PI_VALID f \<Rightarrow> [f] | _ \<Rightarrow> []) ps)"

definition blocks_of :: "page_info list \<Rightarrow> u32 list" where
  "blocks_of ps = concat (map (\<lambda>p. case p of PI_ONDISK b \<Rightarrow> [b] | _ \<Rightarrow> []) ps)"

lemma frames_of_simps [simp]: "frames_of [] = []" "frames_of (PI_UNINIT # ps) = frames_of ps"
  "frames_of (PI_VALID f # ps) = f # frames_of ps" "frames_of (PI_ONDISK b # ps) = frames_of ps"
  "frames_of (ps @ qs) = frames_of ps @ frames_of qs"
  by (simp_all add: frames_of_def)

lemma blocks_of_simps [simp]: "blocks_of [] = []" "blocks_of (PI_UNINIT # ps) = blocks_of ps"
  "blocks_of (PI_VALID f # ps) = blocks_of ps" "blocks_of (PI_ONDISK b # ps) = b # blocks_of ps"
  "blocks_of (ps @ qs) = blocks_of ps @ blocks_of qs"
  by (simp_all add: blocks_of_def)

definition live :: "kernel \<Rightarrow> nat \<Rightarrow> bool" where
  "live k i \<longleftrightarrow> st k i = PROC_RUNNABLE \<or> st k i = PROC_WAITING"

definition held_pages :: "kernel \<Rightarrow> page_info list" where
  "held_pages k = concat (map (\<lambda>i. if live k i then p_pages (pr k i) else []) [0..<100])"

text \<open>
  Every frame is on the free list or belongs to one page of one living process, to which it points
  back; \<open>E\<close> are the pages of a process that is being terminated.
\<close>

definition pages_inv :: "page_info list \<Rightarrow> kernel \<Rightarrow> bool" where
  "pages_inv E k \<longleftrightarrow> length (k_frame_info k) = 128 \<and> k_clock_hand k < 128 \<and>
     mset (k_freeframes k @ frames_of (held_pages k @ E)) = mset (map of_nat [0..<128]) \<and>
     mset (k_freeblocks k @ blocks_of (held_pages k @ E)) \<subseteq># mset (map of_nat [0..<1024]) \<and>
     (\<forall>f\<in>set (k_freeframes k). fi_state (k_frame_info k ! unat f) = FI_FREE) \<and>
     (\<forall>f\<in>set (frames_of (held_pages k @ E)). fi_state (k_frame_info k ! unat f) = FI_REF \<or>
        fi_state (k_frame_info k ! unat f) = FI_UNREF) \<and>
     (\<forall>i<100. \<forall>n<length (p_pages (pr k i)). \<forall>f. live k i \<and> p_pages (pr k i) ! n = PI_VALID f \<longrightarrow>
        fi_pi (k_frame_info k ! unat f) = Some (i, n))"

lemma frames_range: "f \<in># mset (map (of_nat :: nat \<Rightarrow> u32) [0..<128]) \<Longrightarrow> unat f < 128"
  by (auto simp: unat_of_nat)

lemma frames_distinct: "mset xs = mset (map (of_nat :: nat \<Rightarrow> u32) [0..<128]) \<Longrightarrow> distinct xs"
proof -
  assume m: "mset xs = mset (map (of_nat :: nat \<Rightarrow> u32) [0..<128])"
  have "inj_on (of_nat :: nat \<Rightarrow> u32) {0..<128}"
  proof (rule inj_onI)
    fix i j :: nat assume ij: "i \<in> {0..<128}" "j \<in> {0..<128}" and eq: "(of_nat i :: u32) = of_nat j"
    have "unat (of_nat i :: u32) = i" "unat (of_nat j :: u32) = j"
      using ij by (auto intro: unat32_of_nat)
    with eq show "i = j" by metis
  qed
  then have "distinct (map (of_nat :: nat \<Rightarrow> u32) [0..<128])" by (simp add: distinct_map)
  with m show ?thesis by (metis mset_eq_imp_distinct_iff)
qed

lemma pages_invD:
  assumes "pages_inv E k"
  shows "length (k_frame_info k) = 128" "k_clock_hand k < 128"
    "mset (k_freeframes k @ frames_of (held_pages k @ E)) = mset (map of_nat [0..<128])"
    "mset (k_freeblocks k @ blocks_of (held_pages k @ E)) \<subseteq># mset (map of_nat [0..<1024])"
    "f \<in> set (k_freeframes k) \<Longrightarrow> fi_state (k_frame_info k ! unat f) = FI_FREE"
    "f \<in> set (frames_of (held_pages k @ E)) \<Longrightarrow> fi_state (k_frame_info k ! unat f) = FI_REF \<or>
        fi_state (k_frame_info k ! unat f) = FI_UNREF"
    "i < 100 \<Longrightarrow> n < length (p_pages (pr k i)) \<Longrightarrow> live k i \<Longrightarrow> p_pages (pr k i) ! n = PI_VALID f \<Longrightarrow>
        fi_pi (k_frame_info k ! unat f) = Some (i, n)"
    "distinct (k_freeframes k @ frames_of (held_pages k @ E))"
    "f \<in> set (k_freeframes k @ frames_of (held_pages k @ E)) \<Longrightarrow> unat f < 128"
proof -
  note a = assms [unfolded pages_inv_def]
  show "length (k_frame_info k) = 128" "k_clock_hand k < 128"
    "mset (k_freeframes k @ frames_of (held_pages k @ E)) = mset (map of_nat [0..<128])"
    "mset (k_freeblocks k @ blocks_of (held_pages k @ E)) \<subseteq># mset (map of_nat [0..<1024])"
    "f \<in> set (k_freeframes k) \<Longrightarrow> fi_state (k_frame_info k ! unat f) = FI_FREE"
    "f \<in> set (frames_of (held_pages k @ E)) \<Longrightarrow> fi_state (k_frame_info k ! unat f) = FI_REF \<or>
        fi_state (k_frame_info k ! unat f) = FI_UNREF"
    "i < 100 \<Longrightarrow> n < length (p_pages (pr k i)) \<Longrightarrow> live k i \<Longrightarrow> p_pages (pr k i) ! n = PI_VALID f \<Longrightarrow>
        fi_pi (k_frame_info k ! unat f) = Some (i, n)"
    using a by blast+
  then show "distinct (k_freeframes k @ frames_of (held_pages k @ E))" by (intro frames_distinct)
  show "unat f < 128" if "f \<in> set (k_freeframes k @ frames_of (held_pages k @ E))"
  proof (rule frames_range)
    from that show "f \<in># mset (map of_nat [0..<128])" using a by (metis set_mset_mset)
  qed
qed

lemma pages_inv_cong:
  assumes "pages_inv E k" "\<And>i. i < 100 \<Longrightarrow> live k' i = live k i" "\<And>i. i < 100 \<Longrightarrow> p_pages (pr k' i) = p_pages (pr k i)"
    "k_freeframes k' = k_freeframes k" "k_freeblocks k' = k_freeblocks k" "k_frame_info k' = k_frame_info k"
    "k_clock_hand k' = k_clock_hand k"
  shows "pages_inv E k'"
proof -
  have "held_pages k' = held_pages k" unfolding held_pages_def using assms(2,3)
    by (intro arg_cong [of _ _ concat] map_cong) simp_all
  then show ?thesis using assms(1) unfolding pages_inv_def assms(4-7) by (simp add: assms(2,3))
qed

lemma live_evolves: "evolves k k' \<Longrightarrow> live k' i = live k i"
  unfolding evolves_def live_def by (metis proc_state.distinct(7,9))

lemma pages_inv_evolves:
  assumes "pages_inv E k" "evolves k k'"
  shows "pages_inv E k'"
  using assms(2) by (intro pages_inv_cong [OF assms(1)] live_evolves) (auto simp: evolves_def)

text \<open>A process dies: its pages are no longer held.\<close>

lemma held_pages_drop:
  assumes "i < 100" "live k i" "\<And>j. j \<noteq> i \<Longrightarrow> live k' j = live k j" "\<not> live k' i"
    "\<And>j. j \<noteq> i \<Longrightarrow> p_pages (pr k' j) = p_pages (pr k j)"
  shows "mset (held_pages k) = mset (held_pages k') + mset (p_pages (pr k i))"
proof -
  let ?F = "\<lambda>k j. mset (if live k j then p_pages (pr k j) else [])"
  have h: "mset (held_pages k) = (\<Sum>j\<in>{0..<100}. ?F k j)" for k
    unfolding held_pages_def mset_concat by (simp add: sum_list_distinct_conv_sum_set comp_def)
  have "(\<Sum>j\<in>{0..<100} - {i}. ?F k' j) = (\<Sum>j\<in>{0..<100} - {i}. ?F k j)"
    by (rule sum.cong) (use assms(3,5) in auto)
  moreover have "(\<Sum>j\<in>{0..<100}. ?F k j) = ?F k i + (\<Sum>j\<in>{0..<100} - {i}. ?F k j)"
    "(\<Sum>j\<in>{0..<100}. ?F k' j) = ?F k' i + (\<Sum>j\<in>{0..<100} - {i}. ?F k' j)"
    using assms(1) by (simp_all add: sum.remove)
  ultimately show ?thesis unfolding h using assms(2,4) by simp
qed

lemma mset_frames_of: "mset (frames_of ps) = (\<Sum>p\<in>#mset ps. case p of PI_VALID f \<Rightarrow> {#f#} | _ \<Rightarrow> {#})"
  by (induction ps) (auto simp: frames_of_def split: page_info.splits)

lemma mset_blocks_of: "mset (blocks_of ps) = (\<Sum>p\<in>#mset ps. case p of PI_ONDISK b \<Rightarrow> {#b#} | _ \<Rightarrow> {#})"
  by (induction ps) (auto simp: blocks_of_def split: page_info.splits)

lemma frames_of_mset: "mset ps = mset qs \<Longrightarrow> mset (frames_of ps) = mset (frames_of qs)"
  by (simp add: mset_frames_of)

lemma blocks_of_mset: "mset ps = mset qs \<Longrightarrow> mset (blocks_of ps) = mset (blocks_of qs)"
  by (simp add: mset_blocks_of)

lemma pages_inv_die:
  assumes "pages_inv E k" "i < 100" "live k i" "\<And>j. j \<noteq> i \<Longrightarrow> live k' j = live k j" "\<not> live k' i"
    "\<And>j. p_pages (pr k' j) = p_pages (pr k j)" "k_freeframes k' = k_freeframes k"
    "k_freeblocks k' = k_freeblocks k" "k_frame_info k' = k_frame_info k" "k_clock_hand k' = k_clock_hand k"
  shows "pages_inv (p_pages (pr k i) @ E) k'"
proof -
  have "mset (held_pages k @ E) = mset (held_pages k' @ p_pages (pr k i) @ E)"
    using held_pages_drop [OF assms(2-5)] assms(6) by simp
  note m = frames_of_mset [OF this] blocks_of_mset [OF this]
  have "set (frames_of (held_pages k @ E)) = set (frames_of (held_pages k' @ p_pages (pr k i) @ E))"
    using m(1) by (metis set_mset_mset)
  moreover have "live k j" if "live k' j" for j using that assms(4,5) by (cases "j = i") auto
  ultimately show ?thesis
    using assms(1) m unfolding pages_inv_def assms(6-10) mset_append by (auto simp: add.assoc)
qed

text \<open>The frames and blocks of the pages \<open>ps\<close> go back.\<close>

definition paging_only :: "kernel \<Rightarrow> kernel \<Rightarrow> bool" where
  "paging_only k k' \<longleftrightarrow> k_procs k' = k_procs k \<and> k_current k' = k_current k \<and> k_runq k' = k_runq k \<and>
     k_free k' = k_free k \<and> k_nprocs k' = k_nprocs k \<and> k_nrunnable k' = k_nrunnable k \<and>
     k_pid_gen k' = k_pid_gen k \<and> k_shutting_down k' = k_shutting_down k \<and> k_curfew k' = k_curfew k \<and>
     k_quantum k' = k_quantum k \<and> k_clock_hand k' = k_clock_hand k"

lemma paging_only_pr: "paging_only k k' \<Longrightarrow> pr k' i = pr k i"
  by (simp add: paging_only_def pr_def)

lemma release_pages_inv:
  assumes "pages_inv (ps @ E) k"
  shows "\<exists>k'. release_pages ps k = Some k' \<and> pages_inv E k' \<and> paging_only k k' \<and>
    k_freeframes k' = k_freeframes k @ frames_of ps \<and> k_freeblocks k' = k_freeblocks k @ blocks_of ps"
  using assms
proof (induction ps arbitrary: k)
  case Nil
  then show ?case by (simp add: paging_only_def)
next
  case (Cons p ps)
  note d = pages_invD [OF Cons.prems]
  show ?case
  proof (cases p)
    case PI_UNINIT
    with Cons show ?thesis by (simp add: pages_inv_def)
  next
    case (PI_ONDISK b)
    let ?k = "k\<lparr>k_freeblocks := k_freeblocks k @ [b]\<rparr>"
    have "held_pages ?k = held_pages k" "\<And>i. live ?k i = live k i" by (simp_all add: held_pages_def live_def cong: if_cong)
    then have "pages_inv (ps @ E) ?k" using Cons.prems PI_ONDISK by (simp add: pages_inv_def)
    from Cons.IH [OF this] PI_ONDISK show ?thesis by (auto simp: paging_only_def)
  next
    case (PI_VALID f)
    have used: "f \<in> set (frames_of (held_pages k @ (p # ps) @ E))" using PI_VALID by simp
    have f: "unat f < 128" "fi_state (k_frame_info k ! unat f) \<noteq> FI_FREE"
      using d(6) [OF used] d(9) [of f] used by auto
    let ?fi = "(k_frame_info k)[unat f := (k_frame_info k ! unat f)\<lparr>fi_state := FI_FREE\<rparr>]"
    let ?k = "k\<lparr>k_frame_info := ?fi, k_freeframes := k_freeframes k @ [f]\<rparr>"
    have h: "held_pages ?k = held_pages k" "\<And>i. live ?k i = live k i" by (simp_all add: held_pages_def live_def cong: if_cong)
    have fresh: "f \<notin> set (frames_of (held_pages k @ ps @ E))" using d(8) PI_VALID by auto
    have fi: "?fi ! unat g = (if g = f then (k_frame_info k ! unat f)\<lparr>fi_state := FI_FREE\<rparr> else k_frame_info k ! unat g)" for g
      using f(1) d(1) unat32_inject [of g f] by (auto simp: nth_list_update)
    have "pages_inv (ps @ E) ?k"
      unfolding pages_inv_def
    proof (intro conjI ballI allI impI)
      show "length (k_frame_info ?k) = 128" "k_clock_hand ?k < 128" using d(1,2) by simp_all
      show "mset (k_freeframes ?k @ frames_of (held_pages ?k @ ps @ E)) = mset (map of_nat [0..<128])"
        using d(3) PI_VALID by (simp add: h)
      show "mset (k_freeblocks ?k @ blocks_of (held_pages ?k @ ps @ E)) \<subseteq># mset (map of_nat [0..<1024])"
        using d(4) PI_VALID by (simp add: h)
    next
      fix g assume "g \<in> set (k_freeframes ?k)"
      then show "fi_state (k_frame_info ?k ! unat g) = FI_FREE" using d(5) by (auto simp: fi)
    next
      fix g assume "g \<in> set (frames_of (held_pages ?k @ ps @ E))"
      moreover from this have "g \<noteq> f" using fresh by (auto simp: h)
      ultimately show "fi_state (k_frame_info ?k ! unat g) = FI_REF \<or> fi_state (k_frame_info ?k ! unat g) = FI_UNREF"
        using d(6) [of g] PI_VALID by (auto simp: h fi)
    next
      fix i n g assume a: "i < 100" "n < length (p_pages (pr ?k i))" "live ?k i \<and> p_pages (pr ?k i) ! n = PI_VALID g"
      then show "fi_pi (k_frame_info ?k ! unat g) = Some (i, n)"
        using d(7) [of i n g] by (auto simp: h fi)
    qed
    from Cons.IH [OF this] PI_VALID f d(1) show ?thesis by (auto simp: paging_only_def)
  qed
qed

definition kernel_all :: "nat set \<Rightarrow> page_info list \<Rightarrow> kernel \<Rightarrow> bool" where
  "kernel_all X E k \<longleftrightarrow> kernel_inv X k \<and> pages_inv E k"

definition kernel_ok :: "kernel \<Rightarrow> bool" where
  "kernel_ok k \<longleftrightarrow> kernel_all {k_current k} [] k"

lemma kernel_inv_paging: "kernel_inv X k \<Longrightarrow> paging_only k k' \<Longrightarrow> kernel_inv X k'"
proof -
  assume inv: "kernel_inv X k" and p: "paging_only k k'"
  then show ?thesis by (simp add: paging_only_def kernel_inv_def queues_ok_def counts_ok_def slots_def pr_def)
qed

section \<open>Release of a process structure\<close>

lemma card_remove_word: "finite S \<Longrightarrow> i \<in> S \<Longrightarrow> of_nat (card (S - {i})) = (of_nat (card S) - 1 :: u32)"
proof -
  assume "finite S" "i \<in> S"
  then have "card S = Suc (card (S - {i}))" by (simp only: card_Suc_Diff1)
  then show ?thesis by (simp only: of_nat_Suc add_diff_cancel_left')
qed

lemma proc_release_eq:
  assumes "i < length (k_procs k)" "st k i = PROC_ZOMBIE"
  shows "proc_release i k = Some (upd_proc i (\<lambda>p. p\<lparr>p_mboxes := (\<lambda>t. (p_mboxes p t)\<lparr>mq_messages := []\<rparr>), p_state := PROC_FREE\<rparr>)
     (k\<lparr>k_nprocs := k_nprocs k - 1, k_free := k_free k @ [i]\<rparr>))"
  using assms by (simp add: proc_release_def upd_proc_def Let_def)

lemma proc_release_inv:
  assumes "kernel_all X E k" "i \<in> X" "i < 100" "i \<noteq> k_current k" "st k i = PROC_ZOMBIE"
  shows "\<exists>k'. proc_release i k = Some k' \<and> kernel_all (X - {i}) E k' \<and> k_current k' = k_current k \<and>
    k_runq k' = k_runq k \<and> k_shutting_down k' = k_shutting_down k \<and> (\<forall>j. j \<noteq> i \<longrightarrow> pr k' j = pr k j) \<and> st k' i = PROC_FREE"
proof -
  have inv: "kernel_inv X k" and pg: "pages_inv E k" using assms(1) by (simp_all add: kernel_all_def)
  note d = kernel_invD [OF inv]
  define f :: "process \<Rightarrow> process" where
    "f = (\<lambda>p. p\<lparr>p_mboxes := (\<lambda>t. (p_mboxes p t)\<lparr>mq_messages := []\<rparr>), p_state := PROC_FREE\<rparr>)"
  define ka where "ka = upd_proc i f (k\<lparr>k_nprocs := k_nprocs k - 1, k_free := k_free k @ [i]\<rparr>)"
  have len: "i < length (k_procs k)" using d(1) assms(3) by simp
  have run: "proc_release i k = Some ka"
    using proc_release_eq [OF len assms(5)] by (simp add: ka_def f_def)
  have v: "pr ka j = (if j = i then f (pr k i) else pr k j)" for j using len by (simp add: ka_def)
  have fields: "length (k_procs ka) = 100" "k_current ka = k_current k" "k_runq ka = k_runq k"
    "k_free ka = k_free k @ [i]" "k_nprocs ka = k_nprocs k - 1" "k_nrunnable ka = k_nrunnable k"
    "k_freeframes ka = k_freeframes k" "k_freeblocks ka = k_freeblocks k" "k_frame_info ka = k_frame_info k"
    "k_clock_hand ka = k_clock_hand k" "k_shutting_down ka = k_shutting_down k"
    using d(1) by (simp_all add: ka_def)
  have s: "slots ka {PROC_RUNNABLE, PROC_ZOMBIE} - (X - {i}) = slots k {PROC_RUNNABLE, PROC_ZOMBIE} - X"
    "slots ka {PROC_FREE} = insert i (slots k {PROC_FREE})" "slots ka (- {PROC_FREE}) = slots k (- {PROC_FREE}) - {i}"
    "slots ka {PROC_RUNNABLE} = slots k {PROC_RUNNABLE}" "i \<in> slots k (- {PROC_FREE})" "i \<notin> slots k {PROC_FREE}"
    using assms(2,3,5) by (auto simp: slots_def v f_def)
  have "queues_ok (X - {i}) ka"
    using d(4) s(6) unfolding queues_ok_def fields s(1,2) by auto
  moreover have "counts_ok ka"
    using d(5) card_remove_word [OF slots_finite s(5)] unfolding counts_ok_def fields s(3,4) by simp
  moreover have "inj_on (\<lambda>i. p_pid (pr ka i)) (slots ka (- {PROC_FREE}))"
  proof -
    have "inj_on (\<lambda>i. p_pid (pr k i)) (slots k (- {PROC_FREE}) - {i})" using d(6) by (rule inj_on_diff)
    then show ?thesis unfolding s(3) by (rule inj_on_cong [THEN iffD2, rotated]) (simp add: v)
  qed
  moreover have "proc_ok (pr ka j)" if "j < 100" for j
    using d(7) [OF that] assms(5) by (auto simp: v f_def proc_ok_def mail_ok_def)
  ultimately have "kernel_inv (X - {i}) ka" unfolding kernel_inv_def fields
    using d(2,3,8,9) assms(4) by (auto simp: v)
  moreover have "pages_inv E ka"
    by (rule pages_inv_cong [OF pg]) (use assms(5) fields in \<open>auto simp: live_def v f_def\<close>)
  ultimately show ?thesis using run fields by (simp add: kernel_all_def v f_def)
qed

end
