(* ===== verification/ProcessRun.thy ===== *)
theory ProcessRun
  imports ProcessPages
begin

text \<open>
  Every operation of the kernel (theory \<open>Process\<close>) keeps \<open>kernel_ok\<close> and stops on no assertion:
  termination and kill, the scheduler, waiting, remote procedure calls, creation and start.
\<close>

section \<open>Termination\<close>

lemma die_inv:
  assumes "kernel_all X E k" "i < 100" "live k i"
  shows "kernel_all (if st k i = PROC_WAITING then insert i X else X) (p_pages (pr k i) @ E)
    (upd_proc i (\<lambda>p. p\<lparr>p_state := PROC_ZOMBIE\<rparr>)
       (if st k i = PROC_RUNNABLE then k\<lparr>k_nrunnable := k_nrunnable k - 1\<rparr> else k))"
proof -
  have inv: "kernel_inv X k" and pg: "pages_inv E k" using assms(1) by (simp_all add: kernel_all_def)
  note d = kernel_invD [OF inv]
  let ?k0 = "if st k i = PROC_RUNNABLE then k\<lparr>k_nrunnable := k_nrunnable k - 1\<rparr> else k"
  let ?X = "if st k i = PROC_WAITING then insert i X else X"
  define ka where "ka = upd_proc i (\<lambda>p. p\<lparr>p_state := PROC_ZOMBIE\<rparr>) ?k0"
  have len: "i < length (k_procs ?k0)" using d(1) assms(2) by simp
  have v: "pr ka j = (if j = i then (pr k i)\<lparr>p_state := PROC_ZOMBIE\<rparr> else pr k j)" for j
    using len by (simp add: ka_def)
  have fields: "length (k_procs ka) = 100" "k_current ka = k_current k" "k_runq ka = k_runq k"
    "k_free ka = k_free k" "k_nprocs ka = k_nprocs k"
    "k_nrunnable ka = (if st k i = PROC_RUNNABLE then k_nrunnable k - 1 else k_nrunnable k)"
    "k_freeframes ka = k_freeframes k" "k_freeblocks ka = k_freeblocks k" "k_frame_info ka = k_frame_info k"
    "k_clock_hand ka = k_clock_hand k"
    using d(1) by (simp_all add: ka_def)
  have st: "st k i = PROC_RUNNABLE \<or> st k i = PROC_WAITING" using assms(3) by (simp add: live_def)
  have s: "slots ka {PROC_RUNNABLE, PROC_ZOMBIE} - ?X = slots k {PROC_RUNNABLE, PROC_ZOMBIE} - X"
    "slots ka {PROC_FREE} = slots k {PROC_FREE}" "slots ka (- {PROC_FREE}) = slots k (- {PROC_FREE})"
    "slots ka {PROC_RUNNABLE} = slots k {PROC_RUNNABLE} - {i}"
    using assms(2) st by (auto simp: slots_def v)
  have "queues_ok ?X ka" using d(4) unfolding queues_ok_def fields s(1,2) .
  moreover have "counts_ok ka"
  proof (cases "st k i = PROC_RUNNABLE")
    case True
    then have "i \<in> slots k {PROC_RUNNABLE}" using assms(2) by simp
    from card_remove_word [OF slots_finite this] show ?thesis
      using d(5) True unfolding counts_ok_def fields s(3,4) by simp
  next
    case False
    then have "slots k {PROC_RUNNABLE} - {i} = slots k {PROC_RUNNABLE}" by auto
    then show ?thesis using d(5) False unfolding counts_ok_def fields s(3,4) by simp
  qed
  moreover have "inj_on (\<lambda>i. p_pid (pr ka i)) (slots ka (- {PROC_FREE}))"
    using d(6) unfolding s(3) by (rule inj_on_cong [THEN iffD2, rotated]) (simp add: v)
  moreover have "proc_ok (pr ka j)" if "j < 100" for j
    using d(7) [OF that] by (auto simp: v proc_ok_def mail_ok_def)
  ultimately have "kernel_inv ?X ka" unfolding kernel_inv_def fields
    using d(2,3,8,9) by (auto simp: v)
  moreover have "pages_inv (p_pages (pr k i) @ E) ka"
    by (rule pages_inv_die [OF pg assms(2,3)]) (auto simp: live_def v fields)
  ultimately show ?thesis unfolding ka_def [symmetric] by (simp add: kernel_all_def)
qed

lemma wake_clients_inv:
  "kernel_inv X k \<Longrightarrow> set is \<subseteq> {..<100} \<Longrightarrow>
     \<exists>k'. wake_clients pid is k = Some k' \<and> kernel_inv X k' \<and> evolves k k'"
proof (induction "is" arbitrary: k)
  case (Cons i "is")
  show ?case
  proof (cases "st k i = PROC_WAITING \<and> mq_waiting (p_mboxes (pr k i) MSG_REPLY) \<and> p_server (pr k i) = pid")
    case True
    with proc_wakeup_inv [OF Cons.prems(1), of i] Cons.prems(2) obtain k1 where
      k1: "proc_wakeup i k = Some k1" "kernel_inv X k1" "evolves k k1" by auto
    from Cons.IH [OF k1(2)] Cons.prems(2) k1 True show ?thesis by (auto intro: evolves_trans)
  next
    case False
    with Cons show ?thesis by auto
  qed
qed simp

lemma kernel_all_evolves: "kernel_inv X k' \<Longrightarrow> evolves k k' \<Longrightarrow> kernel_all Y E k \<Longrightarrow> kernel_all X E k'"
  using pages_inv_evolves by (auto simp: kernel_all_def)

lemma upt100 [simp]: "set [0..<100 :: nat] \<subseteq> {..<100}"
  by auto

lemma proc_term_inv:
  assumes "kernel_all X E k" "i < 100" "live k i"
  shows "\<exists>k'. proc_term i status k = Some k' \<and>
    kernel_all (if st k i = PROC_WAITING then insert i X else X) E k' \<and>
    st k' i = PROC_ZOMBIE \<and> k_current k' = k_current k \<and> k_shutting_down k' = k_shutting_down k \<and>
    (\<forall>j. j \<noteq> i \<longrightarrow> st k' j = st k j \<or> st k j = PROC_WAITING \<and> st k' j = PROC_RUNNABLE) \<and>
    k_freeframes k' = k_freeframes k @ frames_of (p_pages (pr k i)) \<and>
    k_freeblocks k' = k_freeblocks k @ blocks_of (p_pages (pr k i))"
proof -
  have inv: "kernel_inv X k" using assms(1) by (simp add: kernel_all_def)
  note d = kernel_invD [OF inv]
  let ?k0 = "if st k i = PROC_RUNNABLE then k\<lparr>k_nrunnable := k_nrunnable k - 1\<rparr> else k"
  let ?X = "if st k i = PROC_WAITING then insert i X else X"
  define ka where "ka = upd_proc i (\<lambda>p. p\<lparr>p_state := PROC_ZOMBIE\<rparr>) ?k0"
  have ka: "kernel_all ?X (p_pages (pr k i) @ E) ka" unfolding ka_def by (rule die_inv [OF assms])
  then have kainv: "kernel_inv ?X ka" by (simp add: kernel_all_def)
  have len: "i < length (k_procs ?k0)" using d(1) assms(2) by simp
  have v: "pr ka j = (if j = i then (pr k i)\<lparr>p_state := PROC_ZOMBIE\<rparr> else pr k j)"
    "k_current ka = k_current k" "k_shutting_down ka = k_shutting_down k" for j
    using len by (simp_all add: ka_def)
  let ?notify = "(case proc_find (p_owner (pr ka i)) ka of None \<Rightarrow> Some ka
     | Some owner \<Rightarrow> do {
         (_, k) \<leftarrow> proc_send (p_pid (pr ka i)) (p_pid (pr ka owner)) MSG_EVENT (msg_event (p_pid (pr ka i)) status) ka;
         Some k })"
  have "\<exists>k1. ?notify = Some k1 \<and> kernel_inv ?X k1 \<and> evolves ka k1"
  proof (cases "proc_find (p_owner (pr ka i)) ka")
    case None
    with kainv show ?thesis by auto
  next
    case (Some owner)
    from proc_send_inv [OF kainv, of "p_pid (pr ka i)" "p_pid (pr ka owner)" MSG_EVENT "msg_event (p_pid (pr ka i)) status"]
    obtain r k1 where "proc_send (p_pid (pr ka i)) (p_pid (pr ka owner)) MSG_EVENT (msg_event (p_pid (pr ka i)) status) ka = Some (r, k1)"
      "kernel_inv ?X k1" "evolves ka k1" by blast
    with Some show ?thesis by simp
  qed
  then obtain k1 where k1: "?notify = Some k1" "kernel_inv ?X k1" "evolves ka k1" by blast
  from wake_clients_inv [OF k1(2) upt100] obtain k2 where
    k2: "wake_clients (p_pid (pr k1 i)) [0..<100] k1 = Some k2" "kernel_inv ?X k2" "evolves k1 k2" by blast
  have ev: "evolves ka k2" using k1(3) k2(3) by (rule evolves_trans)
  have pages: "p_pages (pr k2 i) = p_pages (pr k i)" using evolvesD(2) [OF ev, of i] by (simp add: v)
  have "pages_inv (p_pages (pr k2 i) @ E) k2"
    using ka pages_inv_evolves [OF _ ev] unfolding pages by (simp add: kernel_all_def)
  from release_pages_inv [OF this] obtain k3 where
    k3: "release_pages (p_pages (pr k2 i)) k2 = Some k3" "pages_inv E k3" "paging_only k2 k3"
    "k_freeframes k3 = k_freeframes k2 @ frames_of (p_pages (pr k2 i))"
    "k_freeblocks k3 = k_freeblocks k2 @ blocks_of (p_pages (pr k2 i))" by blast
  have "k_freeframes k3 = k_freeframes k @ frames_of (p_pages (pr k i))"
    "k_freeblocks k3 = k_freeblocks k @ blocks_of (p_pages (pr k i))"
    using k3(4,5) evolvesD(4,5) [OF ev] pages by (simp_all add: ka_def)
  note freed = this
  have "st ?k0 i \<noteq> PROC_ZOMBIE" using assms(3) by (auto simp: live_def)
  then have run: "proc_term i status k = Some k3"
    unfolding proc_term_def Let_def ka_def [symmetric] using nprocs_pos [OF inv]
    by (simp only: k1(1) k2(1) k3(1) if_True not_False_eq_True assert_simps bind.bind_lunit proc_consts)
  have "st k2 i = PROC_ZOMBIE" using evolves_zombie [OF ev, of i] by (simp add: v)
  moreover have "\<forall>j. j \<noteq> i \<longrightarrow> st k2 j = st k j \<or> st k j = PROC_WAITING \<and> st k2 j = PROC_RUNNABLE"
    using evolves_st [OF ev] by (metis v(1))
  moreover have "k_current k2 = k_current k" "k_shutting_down k2 = k_shutting_down k"
    using ev by (simp_all add: evolves_def v)
  ultimately have "st k3 i = PROC_ZOMBIE \<and> k_current k3 = k_current k \<and> k_shutting_down k3 = k_shutting_down k \<and>
    (\<forall>j. j \<noteq> i \<longrightarrow> st k3 j = st k j \<or> st k j = PROC_WAITING \<and> st k3 j = PROC_RUNNABLE)"
    using k3(3) paging_only_pr [OF k3(3)] by (auto simp: paging_only_def)
  moreover have "kernel_all ?X E k3" using kernel_inv_paging [OF k2(2) k3(3)] k3(2) by (simp add: kernel_all_def)
  ultimately show ?thesis using run freed by blast
qed

lemma kernel_okD: "kernel_ok k \<Longrightarrow> kernel_all {k_current k} [] k"
  by (simp add: kernel_ok_def)

lemma kernel_okI: "kernel_all {k_current k} [] k \<Longrightarrow> kernel_ok k"
  by (simp add: kernel_ok_def)

lemma kernel_ok_current: "kernel_ok k \<Longrightarrow> k_current k < 100 \<and> st k (k_current k) \<noteq> PROC_FREE \<and> length (k_procs k) = 100"
  by (simp add: kernel_ok_def kernel_all_def kernel_inv_def)

lemma proc_zap_inv:
  assumes "kernel_ok k" "i < 100" "st k i \<noteq> PROC_FREE"
  shows "\<exists>k'. proc_zap killer i status k = Some k' \<and> kernel_ok k' \<and> k_current k' = k_current k \<and>
    k_shutting_down k' = k_shutting_down k \<and> (\<forall>j. j \<noteq> i \<and> st k j \<noteq> PROC_FREE \<longrightarrow> st k' j \<noteq> PROC_FREE)"
proof -
  note all = kernel_okD [OF assms(1)]
  then have inv: "kernel_inv {k_current k} k" by (simp add: kernel_all_def)
  note pos = nprocs_pos [OF inv]
  let ?deny = "case killer of None \<Rightarrow> False | Some z \<Rightarrow> p_uid (pr k z) \<noteq> 0 \<and> p_uid (pr k z) \<noteq> p_uid (pr k i)"
  consider "?deny" | "\<not> ?deny" "st k i = PROC_RUNNABLE" | "\<not> ?deny" "st k i = PROC_WAITING" | "\<not> ?deny" "st k i = PROC_ZOMBIE"
    using assms(3) by (cases "st k i") auto
  then show ?thesis
  proof cases
    case 1
    then show ?thesis using assms(1) by (auto simp: proc_zap_def)
  next
    case 2
    then have "live k i" by (simp add: live_def)
    from proc_term_inv [OF all assms(2) this, of status] obtain k' where
      k': "proc_term i status k = Some k'" "kernel_all {k_current k} [] k'" "k_current k' = k_current k"
      "k_shutting_down k' = k_shutting_down k"
      "\<forall>j. j \<noteq> i \<longrightarrow> st k' j = st k j \<or> st k j = PROC_WAITING \<and> st k' j = PROC_RUNNABLE"
      unfolding 2(2) by auto
    have "proc_zap killer i status k = Some k'" using 2 k'(1) pos by (simp add: proc_zap_def)
    moreover have "kernel_ok k'" using k'(2,3) by (simp add: kernel_ok_def)
    ultimately show ?thesis using k'(3-5) by (intro exI [of _ k']) force
  next
    case 3
    then have "live k i" by (simp add: live_def)
    from proc_term_inv [OF all assms(2) this, of status] obtain k1 where
      k1: "proc_term i status k = Some k1" "kernel_all (insert i {k_current k}) [] k1" "st k1 i = PROC_ZOMBIE"
      "k_current k1 = k_current k" "k_shutting_down k1 = k_shutting_down k"
      "\<forall>j. j \<noteq> i \<longrightarrow> st k1 j = st k j \<or> st k j = PROC_WAITING \<and> st k1 j = PROC_RUNNABLE"
      using 3 by auto
    have keep: "\<forall>j. j \<noteq> i \<and> st k j \<noteq> PROC_FREE \<longrightarrow> st k1 j \<noteq> PROC_FREE" using k1(6) by force
    show ?thesis
    proof (cases "i = k_current k")
      case True
      have "proc_zap killer i status k = Some k1"
        using 3 k1(1,4) pos by (simp add: proc_zap_def True [symmetric])
      moreover have "kernel_ok k1" using k1(2,4) True by (simp add: kernel_ok_def)
      ultimately show ?thesis using k1(4,5) keep by blast
    next
      case False
      then have "i \<noteq> k_current k1" using k1(4) by simp
      from proc_release_inv [OF k1(2) _ assms(2) this k1(3)] obtain k2 where
        k2: "proc_release i k1 = Some k2" "kernel_all (insert i {k_current k} - {i}) [] k2" "k_current k2 = k_current k1"
        "k_shutting_down k2 = k_shutting_down k1" "\<forall>j. j \<noteq> i \<longrightarrow> pr k2 j = pr k1 j" by auto
      have "insert i {k_current k} - {i} = {k_current k2}" using False k2(3) k1(4) by auto
      then have "kernel_ok k2" using k2(2) by (simp add: kernel_ok_def)
      moreover have "proc_zap killer i status k = Some k2" using 3 k1(1,4) k2(1) False pos by (simp add: proc_zap_def)
      ultimately show ?thesis using k1(4,5) k2(3-5) keep by (intro exI [of _ k2]) auto
    qed
  next
    case 4
    then show ?thesis using assms(1) pos by (auto simp: proc_zap_def)
  qed
qed

lemma zap_all_inv:
  "kernel_ok k \<Longrightarrow> set is \<subseteq> {..<100} \<Longrightarrow>
     \<exists>k'. zap_all z status is k = Some k' \<and> kernel_ok k' \<and> k_current k' = k_current k"
proof (induction "is" arbitrary: k)
  case (Cons i "is")
  show ?case
  proof (cases "st k i \<noteq> PROC_FREE \<and> p_interruptable (pr k i)")
    case True
    with proc_zap_inv [OF Cons.prems(1), of i "Some z" status] Cons.prems(2) obtain k1 where
      k1: "proc_zap (Some z) i status k = Some k1" "kernel_ok k1" "k_current k1 = k_current k" by auto
    from Cons.IH [OF k1(2)] Cons.prems(2) k1 True show ?thesis by auto
  next
    case False
    with Cons show ?thesis by auto
  qed
qed simp

lemma proc_kill_inv:
  assumes "kernel_ok k"
  shows "\<exists>y k'. proc_kill killer pid status k = Some (y, k') \<and> kernel_ok k' \<and> k_current k' = k_current k"
proof -
  have inv: "kernel_inv {k_current k} k" using assms by (simp add: kernel_ok_def kernel_all_def)
  show ?thesis
  proof (cases "proc_find killer k")
    case None
    then show ?thesis using assms by (auto simp: proc_kill_def)
  next
    case z: (Some z)
    show ?thesis
    proof (cases "pid = 0")
      case True
      from zap_all_inv [OF assms upt100, of z status] z True show ?thesis by (auto simp: proc_kill_def)
    next
      case False
      show ?thesis
      proof (cases "proc_find pid k")
        case None
        then show ?thesis using z False assms by (auto simp: proc_kill_def)
      next
        case (Some i)
        with proc_find_bound [OF Some] proc_zap_inv [OF assms, of i "Some z" status] z False show ?thesis
          by (auto simp: proc_kill_def)
      qed
    qed
  qed
qed

section \<open>The scheduler\<close>

lemma scan_timeouts_inv:
  "kernel_ok k \<Longrightarrow> set is \<subseteq> {..<100} \<Longrightarrow>
     \<exists>next' k'. scan_timeouts now is next k = Some (next', k') \<and> kernel_ok k' \<and> k_current k' = k_current k"
proof (induction "is" arbitrary: k "next")
  case (Cons i "is")
  have i: "i < 100" "set is \<subseteq> {..<100}" using Cons.prems(2) by auto
  have inv: "kernel_inv {k_current k} k" using Cons.prems(1) by (simp add: kernel_ok_def kernel_all_def)
  consider "k_shutting_down k \<and> st k i \<noteq> PROC_FREE"
    | "\<not> (k_shutting_down k \<and> st k i \<noteq> PROC_FREE)" "st k i = PROC_WAITING \<and> p_alarm_set (pr k i)" "p_exptime (pr k i) \<le> now"
    | "\<not> (k_shutting_down k \<and> st k i \<noteq> PROC_FREE)" "st k i = PROC_WAITING \<and> p_alarm_set (pr k i)" "\<not> p_exptime (pr k i) \<le> now"
    | "\<not> (k_shutting_down k \<and> st k i \<noteq> PROC_FREE)" "\<not> (st k i = PROC_WAITING \<and> p_alarm_set (pr k i))" by blast
  then show ?case
  proof cases
    case 1
    with proc_zap_inv [OF Cons.prems(1) i(1), of None "- 4"] obtain k1 where
      k1: "proc_zap None i (- 4) k = Some k1" "kernel_ok k1" "k_current k1 = k_current k" by blast
    from Cons.IH [OF k1(2) i(2), of "next"] k1 1 show ?thesis by auto
  next
    case 2
    from proc_wakeup_inv [OF inv i(1)] 2 obtain k1 where
      k1: "proc_wakeup i k = Some k1" "kernel_inv {k_current k} k1" "evolves k k1" "p_exptime (pr k1 i) = p_exptime (pr k i)"
      by blast
    have "kernel_ok k1" using kernel_all_evolves [OF k1(2,3) kernel_okD [OF Cons.prems(1)]] evolvesD(1) [OF k1(3)]
      by (simp add: kernel_ok_def)
    from Cons.IH [OF this i(2)] k1 2 evolvesD(1) [OF k1(3)] show ?thesis by (simp add: Let_def)
  next
    case 3
    then show ?thesis using Cons.IH [OF Cons.prems(1) i(2)] by (auto simp: Let_def)
  next
    case 4
    then have eq: "scan_timeouts now (i # is) next k = scan_timeouts now is next k" by auto
    show ?thesis unfolding eq using Cons.IH [OF Cons.prems(1) i(2)] .
  qed
qed simp

lemma concat_upd_tl:
  "p < length q \<Longrightarrow> q ! p = i # is \<Longrightarrow> distinct (concat q) \<Longrightarrow>
     distinct (concat (q[p := is])) \<and> set (concat (q[p := is])) = set (concat q) - {i} \<and> i \<in> set (concat q)"
proof (induction q arbitrary: p)
  case (Cons x q)
  show ?case
  proof (cases p)
    case 0
    with Cons.prems show ?thesis by auto
  next
    case (Suc p')
    with Cons.IH [of p'] Cons.prems show ?thesis by auto
  qed
qed simp

text \<open>The head of a queue leaves it.\<close>

lemma dequeue_inv:
  assumes "kernel_all {k_current k} [] k" "prio < 3" "k_runq k ! prio = i # is"
  shows "kernel_all {k_current k, i} [] (k\<lparr>k_runq := (k_runq k)[prio := is]\<rparr>)" "i < 100" "i \<noteq> k_current k"
    "st k i = PROC_RUNNABLE \<or> st k i = PROC_ZOMBIE"
proof -
  have inv: "kernel_inv {k_current k} k" and pg: "pages_inv [] k" using assms(1) by (simp_all add: kernel_all_def)
  note d = kernel_invD [OF inv]
  let ?k = "k\<lparr>k_runq := (k_runq k)[prio := is]\<rparr>"
  have q: "length (k_runq k) = 3" "distinct (concat (k_runq k))"
    "set (concat (k_runq k)) = slots k {PROC_RUNNABLE, PROC_ZOMBIE} - {k_current k}"
    using d(4) by (simp_all add: queues_ok_def)
  then have t: "distinct (concat ((k_runq k)[prio := is]))" "set (concat ((k_runq k)[prio := is])) = set (concat (k_runq k)) - {i}"
    "i \<in> set (concat (k_runq k))" using concat_upd_tl [of prio "k_runq k" i "is"] assms(2,3) by simp_all
  then show i: "i < 100" "i \<noteq> k_current k" "st k i = PROC_RUNNABLE \<or> st k i = PROC_ZOMBIE" unfolding q(3) by auto
  have sl: "slots ?k S = slots k S" for S by (simp add: slots_def)
  have "set (concat (k_runq ?k)) = slots ?k {PROC_RUNNABLE, PROC_ZOMBIE} - {k_current k, i}"
    using t(2) unfolding q(3) sl by auto
  moreover have "set (k_free k) = slots ?k {PROC_FREE}" "distinct (k_free k)" using d(4) by (simp_all add: queues_ok_def sl)
  ultimately have "queues_ok {k_current k, i} ?k" using t(1) q(1) by (simp add: queues_ok_def)
  then have "kernel_inv {k_current k, i} ?k" using d(1-3,5-7) i(3) by (auto simp: kernel_inv_def counts_ok_def sl)
  moreover have "pages_inv [] ?k" by (rule pages_inv_cong [OF pg]) (simp_all add: live_def)
  ultimately show "kernel_all {k_current k, i} [] ?k" by (simp add: kernel_all_def)
qed

abbreviation runnable :: "kernel \<Rightarrow> nat \<Rightarrow> bool" where
  "runnable k i \<equiv> st k i = PROC_RUNNABLE"

lemma drain_inv:
  assumes "kernel_all {k_current k} [] k" "prio < 3" "k_runq k ! prio = is"
  shows "\<exists>k'. drain prio is k = Some (find (runnable k) is, k') \<and> k_current k' = k_current k \<and>
    k_shutting_down k' = k_shutting_down k \<and>
    (\<forall>j. pr k' j = pr k j \<or> st k j = PROC_ZOMBIE \<and> st k' j = PROC_FREE) \<and>
    (case find (runnable k) is of
       None \<Rightarrow> kernel_all {k_current k} [] k' \<and> k_runq k' = (k_runq k)[prio := []]
     | Some i \<Rightarrow> kernel_all {k_current k, i} [] k' \<and> i \<noteq> k_current k \<and> i < 100 \<and> st k' i = PROC_RUNNABLE)"
  using assms
proof (induction "is" arbitrary: k)
  case Nil
  then have "(k_runq k)[prio := []] = k_runq k" by (metis list_update_id)
  with Nil show ?case by simp
next
  case (Cons i "is")
  note dq = dequeue_inv [OF Cons.prems]
  let ?k = "k\<lparr>k_runq := (k_runq k)[prio := is]\<rparr>"
  show ?case
  proof (cases "st k i = PROC_RUNNABLE")
    case True
    with dq show ?thesis by simp
  next
    case False
    then have z: "st ?k i = PROC_ZOMBIE" using dq(4) by simp
    from proc_release_inv [OF dq(1) _ dq(2) _ z] dq(3) obtain k1 where
      k1: "proc_release i ?k = Some k1" "kernel_all ({k_current k, i} - {i}) [] k1" "k_current k1 = k_current k"
      "k_runq k1 = (k_runq k)[prio := is]" "k_shutting_down k1 = k_shutting_down k" "\<forall>j. j \<noteq> i \<longrightarrow> pr k1 j = pr k j" "st k1 i = PROC_FREE"
      by auto
    have "{k_current k, i} - {i} = {k_current k1}" using dq(3) k1(3) by auto
    then have all: "kernel_all {k_current k1} [] k1" using k1(2) by simp
    have len: "length (k_runq k) = 3" using Cons.prems(1) by (simp add: kernel_all_def kernel_inv_def queues_ok_def)
    have q: "k_runq k1 ! prio = is" using k1(4) len Cons.prems(2) by simp
    have "runnable k1 j = runnable k j" for j using k1(6,7) z by (cases "j = i") auto
    then have f: "find (runnable k1) is = find (runnable k) is" by simp
    from Cons.IH [OF all Cons.prems(2) q] obtain k2 where
      k2: "drain prio is k1 = Some (find (runnable k) is, k2)" "k_current k2 = k_current k" "k_shutting_down k2 = k_shutting_down k1"
      "\<forall>j. pr k2 j = pr k1 j \<or> st k1 j = PROC_ZOMBIE \<and> st k2 j = PROC_FREE"
      "case find (runnable k) is of
       None \<Rightarrow> kernel_all {k_current k1} [] k2 \<and> k_runq k2 = (k_runq k1)[prio := []]
     | Some i \<Rightarrow> kernel_all {k_current k1, i} [] k2 \<and> i \<noteq> k_current k1 \<and> i < 100 \<and> st k2 i = PROC_RUNNABLE"
      unfolding f k1(3) by blast
    have "pr k2 j = pr k j \<or> st k j = PROC_ZOMBIE \<and> st k2 j = PROC_FREE" for j
      using spec [OF k2(4), of j] spec [OF k1(6), of j] k1(7) z by (cases "j = i") auto
    moreover have "drain prio (i # is) k = Some (find (runnable k) is, k2)"
      using False k1(1) k2(1) by (simp add: Let_def)
    ultimately show ?thesis using False k2(2,3,5) k1(3,4,5) by (auto split: option.splits)
  qed
qed

lemma find_concat: "find P (xs @ ys) = (case find P xs of None \<Rightarrow> find P ys | Some x \<Rightarrow> Some x)"
  by (induction xs) auto

lemma find_runnable_None: "find (runnable k) xs = None \<longleftrightarrow> (\<forall>i\<in>set xs. st k i \<noteq> PROC_RUNNABLE)"
  by (induction xs) auto

lemma pick_next_inv:
  assumes "kernel_all {k_current k} [] k" "distinct ps" "set ps \<subseteq> {..<3}"
  shows "\<exists>k'. pick_next ps k = Some (find (runnable k) (concat (map (\<lambda>p. k_runq k ! p) ps)), k') \<and>
    k_current k' = k_current k \<and> k_shutting_down k' = k_shutting_down k \<and>
    (\<forall>j. pr k' j = pr k j \<or> st k j = PROC_ZOMBIE \<and> st k' j = PROC_FREE) \<and>
    (case find (runnable k) (concat (map (\<lambda>p. k_runq k ! p) ps)) of
       None \<Rightarrow> kernel_all {k_current k} [] k'
     | Some i \<Rightarrow> kernel_all {k_current k, i} [] k' \<and> i \<noteq> k_current k \<and> i < 100 \<and> st k' i = PROC_RUNNABLE)"
  using assms
proof (induction ps arbitrary: k)
  case (Cons p ps)
  from Cons.prems have p: "p < 3" "p \<notin> set ps" "distinct ps" "set ps \<subseteq> {..<3}" by auto
  from drain_inv [OF Cons.prems(1) p(1) refl] obtain k1 where
    k1: "drain p (k_runq k ! p) k = Some (find (runnable k) (k_runq k ! p), k1)" "k_current k1 = k_current k"
    "k_shutting_down k1 = k_shutting_down k" "\<forall>j. pr k1 j = pr k j \<or> st k j = PROC_ZOMBIE \<and> st k1 j = PROC_FREE"
    "case find (runnable k) (k_runq k ! p) of
       None \<Rightarrow> kernel_all {k_current k} [] k1 \<and> k_runq k1 = (k_runq k)[p := []]
     | Some i \<Rightarrow> kernel_all {k_current k, i} [] k1 \<and> i \<noteq> k_current k \<and> i < 100 \<and> st k1 i = PROC_RUNNABLE" by blast
  show ?case
  proof (cases "find (runnable k) (k_runq k ! p)")
    case (Some i)
    with k1 show ?thesis by (simp add: find_concat)
  next
    case None
    with k1(5) have all: "kernel_all {k_current k1} [] k1" "k_runq k1 = (k_runq k)[p := []]" using k1(2) by simp_all
    have qs: "map (\<lambda>p. k_runq k1 ! p) ps = map (\<lambda>p. k_runq k ! p) ps" 
      by (rule map_cong [OF refl]) (metis all(2) nth_list_update_neq p(2))
    have "runnable k1 j = runnable k j" for j using spec [OF k1(4), of j] by auto
    then have f: "find (runnable k1) xs = find (runnable k) xs" for xs by simp
    from Cons.IH [OF all(1) p(3,4)] obtain k2 where
      k2: "pick_next ps k1 = Some (find (runnable k) (concat (map (\<lambda>p. k_runq k ! p) ps)), k2)"
      "k_current k2 = k_current k" "k_shutting_down k2 = k_shutting_down k"
      "\<forall>j. pr k2 j = pr k1 j \<or> st k1 j = PROC_ZOMBIE \<and> st k2 j = PROC_FREE"
      "case find (runnable k) (concat (map (\<lambda>p. k_runq k ! p) ps)) of
         None \<Rightarrow> kernel_all {k_current k} [] k2
       | Some i \<Rightarrow> kernel_all {k_current k, i} [] k2 \<and> i \<noteq> k_current k \<and> i < 100 \<and> st k2 i = PROC_RUNNABLE"
      unfolding f qs k1(2,3) by blast
    have "pr k2 j = pr k j \<or> st k j = PROC_ZOMBIE \<and> st k2 j = PROC_FREE" for j
      using spec [OF k1(4), of j] spec [OF k2(4), of j] by auto
    moreover have "pick_next (p # ps) k = Some (find (runnable k) (concat (map (\<lambda>p. k_runq k ! p) ps)), k2)"
      using k1(1) k2(1) None by simp
    ultimately show ?thesis using None k2(2,3,5) by (simp add: find_concat)
  qed
qed simp

lemma upto3: "[0..<3] = [0, 1, 2 :: nat]"
  by (simp add: upt_rec)

lemma nths3: "length q = 3 \<Longrightarrow> concat (map (\<lambda>p. q ! p) [0..<3]) = concat q"
  by (metis map_nth)

lemma yield_turn_inv:
  assumes "kernel_ok k" "k_curfew k = 0 \<or> now \<le> k_curfew k"
  shows "\<exists>r k'. yield_turn now k = Some (r, k') \<and>
    (case r of
       Switch_to i \<Rightarrow> kernel_all {k_current k, i} [] k' \<and> k_current k' = k_current k \<and> i \<noteq> k_current k \<and> i < 100 \<and> st k' i = PROC_RUNNABLE
     | Return_now \<Rightarrow> kernel_ok k' \<and> k_current k' = k_current k \<and> st k' (k_current k) = PROC_RUNNABLE
     | Exit_kernel \<Rightarrow> k_shutting_down k'
     | Idle_for _ \<Rightarrow> kernel_ok k' \<and> k_current k' = k_current k \<and> (\<forall>i<100. st k' i \<noteq> PROC_RUNNABLE))"
proof -
  from scan_timeouts_inv [OF assms(1) upt100, of now "now + 1000"] obtain "next" k1 where
    k1: "scan_timeouts now [0..<100] (now + 1000) k = Some (next, k1)" "kernel_ok k1" "k_current k1 = k_current k" by blast
  have len: "length (k_runq k1) = 3" using k1(2) by (simp add: kernel_ok_def kernel_all_def kernel_inv_def queues_ok_def)
  let ?r = "find (runnable k1) (concat (k_runq k1))"
  have sub: "distinct [0..<3 :: nat]" "set [0..<3 :: nat] \<subseteq> {..<3}" by auto
  from pick_next_inv [OF kernel_okD [OF k1(2)] sub] obtain k2 where
    k2: "pick_next [0..<3] k1 = Some (?r, k2)" "k_current k2 = k_current k1" "k_shutting_down k2 = k_shutting_down k1"
    "\<forall>j. pr k2 j = pr k1 j \<or> st k1 j = PROC_ZOMBIE \<and> st k2 j = PROC_FREE"
    "case ?r of None \<Rightarrow> kernel_all {k_current k1} [] k2
     | Some i \<Rightarrow> kernel_all {k_current k1, i} [] k2 \<and> i \<noteq> k_current k1 \<and> i < 100 \<and> st k2 i = PROC_RUNNABLE"
    unfolding nths3 [OF len] by blast
  have "\<exists>X. kernel_inv X k2" using k2(5) by (auto simp: kernel_all_def split: option.splits)
  then have pos: "k_nprocs k2 > 0" using nprocs_pos by blast
  have curfew: "\<not> (k_curfew k \<noteq> 0 \<and> now > k_curfew k)" using assms(2) by auto
  show ?thesis
  proof (cases ?r)
    case (Some i)
    then have "yield_turn now k = Some (Switch_to i, k2)"
      using k1(1) k2(1) pos curfew by (simp add: yield_turn_def)
    then show ?thesis using Some k1(3) k2(2,5) by simp
  next
    case None
    have ok2: "kernel_ok k2" using k2(2,5) None by (simp add: kernel_ok_def)
    show ?thesis
    proof (cases "st k2 (k_current k2) = PROC_RUNNABLE")
      case True
      then have "yield_turn now k = Some (Return_now, k2)"
        using k1(1) k2(1) None pos curfew by (simp add: yield_turn_def)
      then show ?thesis using True ok2 k1(3) k2(2) by simp
    next
      case False
      have inv2: "kernel_inv {k_current k2} k2" using ok2 by (simp add: kernel_ok_def kernel_all_def)
      show ?thesis
      proof (cases "k_nprocs k2 = 1 \<and> k_shutting_down k2")
        case True
        then have "yield_turn now k = Some (Exit_kernel, proc_cleanup k2)"
          unfolding yield_turn_def if_not_P [OF curfew] using k1(1) k2(1) None pos False by simp
        then show ?thesis using True by (simp add: proc_cleanup_def)
      next
        case idle: False
        then have run: "yield_turn now k = Some (Idle_for (next - now), k2)"
          using k1(1) k2(1) None pos curfew False by (simp add: yield_turn_def)
        have "st k2 i \<noteq> PROC_RUNNABLE" if "i < 100" for i
        proof (cases "i = k_current k2")
          case ne: False
          have "st k1 i \<noteq> PROC_RUNNABLE" if r: "st k1 i = PROC_RUNNABLE"
          proof -
            have "set (concat (k_runq k1)) = slots k1 {PROC_RUNNABLE, PROC_ZOMBIE} - {k_current k1}"
              using k1(2) by (simp add: kernel_ok_def kernel_all_def kernel_inv_def queues_ok_def)
            then have "i \<in> set (concat (k_runq k1))" using ne k2(2) \<open>i < 100\<close> r by auto
            with None show ?thesis unfolding find_runnable_None by blast
          qed
          then show ?thesis using spec [OF k2(4), of i] by auto
        qed (use False in simp)
        with run ok2 k1(3) k2(2) show ?thesis by simp
      qed
    qed
  qed
qed

lemma upd_current: "(upd_proc i f k)\<lparr>k_current := c\<rparr> = upd_proc i f (k\<lparr>k_current := c\<rparr>)"
  by (simp add: upd_proc_def)

lemma kernel_all_upd:
  assumes "kernel_all X E k" "i < 100" "p_state (f (pr k i)) = st k i" "p_pid (f (pr k i)) = p_pid (pr k i)"
    "p_priority (f (pr k i)) < 3" "p_pages (f (pr k i)) = p_pages (pr k i)" "mail_ok (f (pr k i))"
  shows "kernel_all X E (upd_proc i f k)"
proof -
  have inv: "kernel_inv X k" and pg: "pages_inv E k" using assms(1) by (simp_all add: kernel_all_def)
  have len: "i < length (k_procs k)" "proc_ok (pr k i)" using kernel_invD(1,7) [OF inv] assms(2) by auto
  then have "proc_ok (f (pr k i))" using assms(5-7) by (simp add: proc_ok_def)
  moreover have "pages_inv E (upd_proc i f k)"
    by (rule pages_inv_cong [OF pg]) (use len assms(3,6) in \<open>simp_all add: live_def\<close>)
  ultimately show ?thesis using kernel_inv_upd [where f = f, OF inv assms(2-4)] by (simp add: kernel_all_def)
qed

lemma mail_ok_cong: "p_mboxes q = p_mboxes p \<Longrightarrow> p_state q = p_state p \<Longrightarrow> p_server q = p_server p \<Longrightarrow> mail_ok q = mail_ok p"
  by (simp add: mail_ok_def)

lemma kernel_all_mail: "kernel_all X E k \<Longrightarrow> i < 100 \<Longrightarrow> mail_ok (pr k i) \<and> p_priority (pr k i) < 3"
  by (simp add: kernel_all_def kernel_inv_def proc_ok_def)

text \<open>The next process takes over: it becomes current, and the old one is in its queue or gone.\<close>

lemma kernel_all_current:
  assumes "kernel_all X E k" "i < 100" "st k i \<noteq> PROC_FREE" "i \<in> X" "Y = X - {k_current k} \<union> {i}"
    "st k (k_current k) = PROC_WAITING \<or> k_current k = i"
  shows "kernel_all Y E (k\<lparr>k_current := i\<rparr>)"
proof -
  have inv: "kernel_inv X k" and pg: "pages_inv E k" using assms(1) by (simp_all add: kernel_all_def)
  note d = kernel_invD [OF inv]
  let ?k = "k\<lparr>k_current := i\<rparr>"
  have sl: "slots ?k S = slots k S" for S by (simp add: slots_def)
  have "slots k {PROC_RUNNABLE, PROC_ZOMBIE} - Y = slots k {PROC_RUNNABLE, PROC_ZOMBIE} - X"
    using assms(4,5,6) by auto
  then have "queues_ok Y ?k" using d(4) by (simp add: queues_ok_def sl)
  moreover have "\<forall>j\<in>Y. j \<noteq> i \<longrightarrow> st ?k j \<noteq> PROC_WAITING" using d(9) assms(4,5) by auto
  ultimately have "kernel_inv Y ?k" using d(1,5-7) assms(2,3,5) by (auto simp: kernel_inv_def counts_ok_def sl)
  moreover have "pages_inv E ?k" by (rule pages_inv_cong [OF pg]) (simp_all add: live_def)
  ultimately show ?thesis by (simp add: kernel_all_def)
qed

lemma current_set: "kernel_all X E (k\<lparr>k_current := i\<rparr>) \<Longrightarrow> X = {i} \<Longrightarrow> E = [] \<Longrightarrow> kernel_ok (k\<lparr>k_current := i\<rparr>)"
  by (simp add: kernel_ok_def)

lemma proc_switch_inv:
  assumes "kernel_all {k_current k, i} [] k" "i \<noteq> k_current k" "i < 100" "st k i = PROC_RUNNABLE"
  shows "\<exists>k'. proc_switch now i k = Some k' \<and> kernel_ok k' \<and> k_current k' = i \<and> st k' i = PROC_RUNNABLE \<and>
    p_last_run (pr k' i) = now"
proof -
  let ?c = "k_current k"
  have inv: "kernel_inv {?c, i} k" using assms(1) by (simp add: kernel_all_def)
  note d = kernel_invD [OF inv]
  have pid: "p_pid (pr k i) \<noteq> p_pid (pr k ?c)"
    using d(2,3,6) assms(2-4) unfolding inj_on_def by force
  let ?u = "\<lambda>k. upd_proc ?c (\<lambda>p. p\<lparr>p_yield_cnt := p_yield_cnt p + 1\<rparr>) (upd_proc i (\<lambda>p. p\<lparr>p_last_run := now\<rparr>) k)"
  have u: "kernel_all X [] (?u k1)" if "kernel_all X [] k1" "k_current k1 = ?c" for X k1
  proof -
    have "mail_ok (pr k1 i)" "mail_ok (pr k1 ?c)" "p_priority (pr k1 i) < 3" "p_priority (pr k1 ?c) < 3"
      using kernel_all_mail [OF that(1)] assms(3) d(2) by auto
    moreover have "length (k_procs k1) = 100" using that(1) by (simp add: kernel_all_def kernel_inv_def)
    ultimately show ?thesis using assms(2,3) d(2)
      by (intro kernel_all_upd that(1)) (simp_all add: mail_ok_def)
  qed
  have uf: "pr (?u k1) j = (if j = i then (pr k1 i)\<lparr>p_last_run := now\<rparr> else if j = ?c then (pr k1 ?c)\<lparr>p_yield_cnt := p_yield_cnt (pr k1 ?c) + 1\<rparr> else pr k1 j)"
    if "length (k_procs k1) = 100" for k1 j using that assms(2,3) d(2) by auto
  consider "st k ?c = PROC_RUNNABLE" | "st k ?c = PROC_WAITING" | "st k ?c = PROC_ZOMBIE"
    using d(3) by (cases "st k ?c") auto
  then show ?thesis
  proof cases
    case 1
    have "?c \<in> {?c, i}" by simp
    from runqueue_enter [OF inv d(2) 1 this] obtain q where
      q: "proc_to_runqueue ?c k = Some (k\<lparr>k_runq := q\<rparr>)" "queues_ok ({?c, i} - {?c}) (k\<lparr>k_runq := q\<rparr>)" by metis
    let ?k1 = "k\<lparr>k_runq := q\<rparr>"
    let ?k2 = "?u ?k1"
    have sl: "slots (?k1\<lparr>k_current := i\<rparr>) S = slots k S" for S by (simp add: slots_def)
    have "{?c, i} - {?c} = {i}" using assms(2) by auto
    then have "queues_ok {i} (?k1\<lparr>k_current := i\<rparr>)" using q(2) by (simp add: queues_ok_def slots_def)
    then have "kernel_inv {i} (?k1\<lparr>k_current := i\<rparr>)" using d(1,5,6,7) assms(3,4)
      by (simp add: kernel_inv_def counts_ok_def sl)
    moreover have "pages_inv [] (?k1\<lparr>k_current := i\<rparr>)"
      by (rule pages_inv_cong [of _ k]) (use assms(1) in \<open>simp_all add: kernel_all_def live_def\<close>)
    ultimately have all: "kernel_all {i} [] (?k1\<lparr>k_current := i\<rparr>)" by (simp add: kernel_all_def)
    have "kernel_all {i} [] (?k2\<lparr>k_current := i\<rparr>)"
    proof -
      have "mail_ok (pr k i)" "mail_ok (pr k ?c)" "p_priority (pr k i) < 3" "p_priority (pr k ?c) < 3"
        using kernel_all_mail [OF assms(1)] assms(3) d(2) by auto
      then have "kernel_all {i} [] (?u (?k1\<lparr>k_current := i\<rparr>))" using assms(2,3) d(1,2)
        by (intro kernel_all_upd all) (simp_all add: mail_ok_def)
      then show ?thesis by (simp only: upd_current)
    qed
    moreover have "proc_switch now i k = Some (?k2\<lparr>k_current := i\<rparr>)"
      using 1 q(1) assms(2-4) pid d(1,2) by (simp add: proc_switch_def proc_after_switch_def)
    ultimately show ?thesis using uf [of ?k1 i] d(1) assms(4) by (simp add: kernel_ok_def)
  next
    case 2
    have all: "kernel_all {?c, i} [] (?u k)" by (rule u [OF assms(1) refl])
    have v: "st (?u k) i = PROC_RUNNABLE" "st (?u k) ?c = PROC_WAITING" "k_current (?u k) = ?c"
      using uf [of k] d(1) assms(2,4) 2 by simp_all
    have "kernel_all {i} [] ((?u k)\<lparr>k_current := i\<rparr>)"
      by (rule kernel_all_current [OF all assms(3)]) (use v assms(2) in auto)
    moreover have "proc_switch now i k = Some ((?u k)\<lparr>k_current := i\<rparr>)"
      using 2 assms(2-4) pid d(1,2) by (simp add: proc_switch_def proc_after_switch_def)
    ultimately show ?thesis using uf [of k i] d(1) assms(4) by (simp add: kernel_ok_def)
  next
    case 3
    have all: "kernel_all {?c, i} [] (?u k)" by (rule u [OF assms(1) refl])
    have v: "st (?u k) i = PROC_RUNNABLE" "st (?u k) ?c = PROC_ZOMBIE" "k_current (?u k) = ?c"
      using uf [of k] d(1) assms(2,4) 3 by simp_all
    let ?w = "(?u k)\<lparr>k_current := i\<rparr>"
    have sl: "slots ?w S = slots (?u k) S" for S by (simp add: slots_def)
    have allw: "kernel_all {?c, i} [] ?w"
    proof -
      have e: "kernel_inv {?c, i} (?u k)" "pages_inv [] (?u k)" using all by (simp_all add: kernel_all_def)
      note dd = kernel_invD [OF e(1)]
      have "queues_ok {?c, i} ?w" using dd(4) by (simp add: queues_ok_def sl)
      then have "kernel_inv {?c, i} ?w" using dd(1,5-7) assms(3) v by (auto simp: kernel_inv_def counts_ok_def sl)
      moreover have "pages_inv [] ?w" by (rule pages_inv_cong [OF e(2)]) (simp_all add: live_def)
      ultimately show ?thesis by (simp add: kernel_all_def)
    qed
    have cw: "st ?w ?c = PROC_ZOMBIE" "?c \<noteq> k_current ?w" using v(2) assms(2) by simp_all
    from proc_release_inv [OF allw _ d(2) cw(2,1)] obtain k2 where
      k2: "proc_release ?c ?w = Some k2" "kernel_all ({?c, i} - {?c}) [] k2" "k_current k2 = i"
      "\<forall>j. j \<noteq> ?c \<longrightarrow> pr k2 j = pr ?w j" by auto
    have rel: "map_option (\<lambda>k. k\<lparr>k_current := i\<rparr>) (proc_release ?c (?u k)) = proc_release ?c ?w"
      using v(2) cw(1) by (simp add: proc_release_def upd_proc_def Let_def)
    then obtain k1 where k1: "proc_release ?c (?u k) = Some k1" "k1\<lparr>k_current := i\<rparr> = k2" using k2(1) by auto
    have "proc_switch now i k = Some k2"
      using 3 assms(2-4) pid d(1,2) k1 v by (simp add: proc_switch_def proc_after_switch_def)
    moreover have "{?c, i} - {?c} = {i}" using assms(2) by auto
    ultimately show ?thesis using k2 uf [of k i] d(1) assms(2,4) by (simp add: kernel_ok_def)
  qed
qed

end
