(* ===== verification/ProcessProps.thy ===== *)
theory ProcessProps
  imports ProcessRun
begin

text \<open>
  The properties of the kernel (theory \<open>Process\<close>): it starts in a consistent state, every
  operation keeps that, the scheduler takes the first process of the highest priority, a remote
  procedure call gets the reply of the server it called, and how priorities are accounted.
\<close>

section \<open>Yielding\<close>

lemma exit_cleanup: "yield_turn now k = Some (r, k') \<Longrightarrow> k_curfew k \<noteq> 0 \<and> now > k_curfew k \<Longrightarrow> r = Exit_kernel"
  by (simp add: yield_turn_def)

lemma proc_yield_inv:
  "kernel_ok k \<Longrightarrow> \<exists>r k'. proc_yield env k = Some (r, k') \<and>
    (r = Exited \<or> kernel_ok k' \<and>
      (r = Switched \<longrightarrow> k_current k' \<noteq> k_current k \<and> runnable k' (k_current k')) \<and>
      (r = Returned \<longrightarrow> k_current k' = k_current k \<and> runnable k' (k_current k')) \<and>
      (r = Still_idle \<longrightarrow> k_current k' = k_current k))"
proof (induction env arbitrary: k)
  case (Cons e env)
  obtain io now now' where e: "e = (io, now, now')" by (cases e) auto
  have inv: "kernel_inv {k_current k} k" using Cons.prems by (simp add: kernel_ok_def kernel_all_def)
  from intr_suspend_inv [OF inv] obtain k1 where
    k1: "intr_suspend io k = Some k1" "kernel_inv {k_current k} k1" "evolves k k1" by blast
  have c1: "k_current k1 = k_current k" using evolvesD(1) [OF k1(3)] .
  have ok1: "kernel_ok k1"
    using kernel_all_evolves [OF k1(2,3) kernel_okD [OF Cons.prems]] c1 by (simp add: kernel_ok_def)
  have pos: "k_nprocs k1 > 0" by (rule nprocs_pos [OF k1(2)])
  show ?case
  proof (cases "k_curfew k1 \<noteq> 0 \<and> now > k_curfew k1")
    case True
    then show ?thesis using k1(1) pos by (auto simp: e yield_turn_def)
  next
    case False
    then have "k_curfew k1 = 0 \<or> now \<le> k_curfew k1" by auto
    from yield_turn_inv [OF ok1 this] obtain r k2 where
      k2: "yield_turn now k1 = Some (r, k2)" "case r of
         Switch_to i \<Rightarrow> kernel_all {k_current k1, i} [] k2 \<and> k_current k2 = k_current k1 \<and> i \<noteq> k_current k1 \<and> i < 100 \<and> st k2 i = PROC_RUNNABLE
       | Return_now \<Rightarrow> kernel_ok k2 \<and> k_current k2 = k_current k1 \<and> st k2 (k_current k1) = PROC_RUNNABLE
       | Exit_kernel \<Rightarrow> k_shutting_down k2
       | Idle_for _ \<Rightarrow> kernel_ok k2 \<and> k_current k2 = k_current k1 \<and> (\<forall>i<100. st k2 i \<noteq> PROC_RUNNABLE)" by blast
    show ?thesis
    proof (cases r)
      case (Switch_to i)
      with k2(2) have i: "kernel_all {k_current k2, i} [] k2" "i \<noteq> k_current k2" "i < 100" "st k2 i = PROC_RUNNABLE"
        "k_current k2 = k_current k" using c1 by simp_all
      from proc_switch_inv [OF i(1-4), of now'] obtain k3 where
        "proc_switch now' i k2 = Some k3" "kernel_ok k3" "k_current k3 = i" "st k3 i = PROC_RUNNABLE" by blast
      then show ?thesis using k1(1) k2(1) Switch_to pos i(2,5) by (simp add: e)
    next
      case Return_now
      with k1(1) k2 pos c1 show ?thesis by (simp add: e)
    next
      case Exit_kernel
      with k1(1) k2(1) pos show ?thesis by (simp add: e)
    next
      case (Idle_for d)
      with k2(2) have "kernel_ok k2" "k_current k2 = k_current k" using c1 by simp_all
      with Cons.IH [of k2] k1(1) k2(1) Idle_for pos show ?thesis by (simp add: e)
    qed
  qed
qed simp

text \<open>When nothing has expired the scan of the timeouts changes nothing.\<close>

lemma scan_quiet:
  "\<not> k_shutting_down k \<Longrightarrow> (\<And>i. i \<in> set is \<Longrightarrow> st k i = PROC_WAITING \<Longrightarrow> p_alarm_set (pr k i) \<Longrightarrow> now < p_exptime (pr k i)) \<Longrightarrow>
     \<exists>next'. scan_timeouts now is next k = Some (next', k)"
proof (induction "is" arbitrary: "next")
  case (Cons i "is")
  show ?case
  proof (cases "st k i = PROC_WAITING \<and> p_alarm_set (pr k i)")
    case True
    with Cons.prems(2) [of i] have "\<not> p_exptime (pr k i) \<le> now" by (simp add: not_le)
    with Cons True show ?thesis by (auto simp: Let_def)
  next
    case False
    with Cons show ?thesis by auto
  qed
qed simp

section \<open>Waiting for messages\<close>

lemma current_inv: "kernel_ok k \<Longrightarrow> kernel_inv {k_current k} k \<and> pages_inv [] k"
  by (simp add: kernel_ok_def kernel_all_def)

text \<open>The current process starts to wait.\<close>

lemma start_waiting:
  assumes "kernel_ok k" "runnable k (k_current k)" "p_state (f (pr k (k_current k))) = PROC_WAITING"
    "p_pid (f (pr k (k_current k))) = p_pid (pr k (k_current k))" "p_pages (f (pr k (k_current k))) = p_pages (pr k (k_current k))"
    "proc_ok (f (pr k (k_current k)))"
  shows "kernel_ok ((upd_proc (k_current k) f k)\<lparr>k_nrunnable := k_nrunnable k - 1\<rparr>)"
proof -
  let ?c = "k_current k"
  have inv: "kernel_inv {?c} k" and pg: "pages_inv [] k" using current_inv [OF assms(1)] by simp_all
  note d = kernel_invD [OF inv]
  define ka where "ka = (upd_proc ?c f k)\<lparr>k_nrunnable := k_nrunnable k - 1\<rparr>"
  have v: "pr ka j = (if j = ?c then f (pr k ?c) else pr k j)" for j using d(1,2) by (simp add: ka_def)
  have fields: "length (k_procs ka) = 100" "k_current ka = ?c" "k_runq ka = k_runq k"
    "k_free ka = k_free k" "k_nprocs ka = k_nprocs k" "k_nrunnable ka = k_nrunnable k - 1"
    "k_freeframes ka = k_freeframes k" "k_freeblocks ka = k_freeblocks k" "k_frame_info ka = k_frame_info k"
    "k_clock_hand ka = k_clock_hand k"
    using d(1) by (simp_all add: ka_def)
  have s: "slots ka {PROC_RUNNABLE, PROC_ZOMBIE} - {?c} = slots k {PROC_RUNNABLE, PROC_ZOMBIE} - {?c}"
    "slots ka {PROC_FREE} = slots k {PROC_FREE}" "slots ka (- {PROC_FREE}) = slots k (- {PROC_FREE})"
    "slots ka {PROC_RUNNABLE} = slots k {PROC_RUNNABLE} - {?c}" "?c \<in> slots k {PROC_RUNNABLE}"
    using d(2) assms(2,3) by (auto simp: slots_def v)
  have "queues_ok {?c} ka" using d(4) unfolding queues_ok_def fields s(1,2) .
  moreover have "counts_ok ka"
    using d(5) card_remove_word [OF slots_finite s(5)] unfolding counts_ok_def fields s(3,4) by simp
  moreover have "inj_on (\<lambda>i. p_pid (pr ka i)) (slots ka (- {PROC_FREE}))"
    using d(6) unfolding s(3) by (rule inj_on_cong [THEN iffD2, rotated]) (simp add: v assms(4))
  moreover have "proc_ok (pr ka j)" if "j < 100" for j using d(7) [OF that] assms(6) by (simp add: v)
  ultimately have "kernel_inv {?c} ka" unfolding kernel_inv_def fields using d(2) assms(3) by (auto simp: v)
  moreover have "pages_inv [] ka"
    by (rule pages_inv_cong [OF pg]) (use assms(2,3,5) fields in \<open>auto simp: live_def v\<close>)
  ultimately show ?thesis unfolding ka_def [symmetric] kernel_ok_def kernel_all_def fields by simp
qed

lemma proc_recv_wait_inv:
  assumes "kernel_ok k" "runnable k (k_current k)" "mtype = MSG_REPLY \<longrightarrow> mails k (k_current k) mtype = []"
  shows "\<exists>k'. proc_recv_wait mtype max_time now k = Some (mails k (k_current k) mtype = [], k') \<and> kernel_ok k' \<and>
    k_current k' = k_current k \<and>
    (if mails k (k_current k) mtype = []
     then st k' (k_current k) = PROC_WAITING \<and> mq_waiting (p_mboxes (pr k' (k_current k)) mtype)
     else k' = k)"
proof -
  let ?c = "k_current k"
  have inv: "kernel_inv {?c} k" using current_inv [OF assms(1)] by simp
  note d = kernel_invD [OF inv]
  have ok: "proc_ok (pr k ?c)" using d(7) [OF d(2)] .
  have nw: "\<not> mq_waiting (p_mboxes (pr k ?c) t)" for t using ok assms(2) by (auto simp: proc_ok_def mail_ok_def)
  show ?thesis
  proof (cases "mails k ?c mtype = []")
    case False
    moreover from this have "mtype \<noteq> MSG_REPLY" using assms(3) by auto
    ultimately show ?thesis using assms nw by (simp add: proc_recv_wait_def Let_def mails_def)
  next
    case True
    let ?w = "\<lambda>p. p\<lparr>p_mboxes := (p_mboxes p)(mtype := (p_mboxes p mtype)\<lparr>mq_waiting := True\<rparr>), p_state := PROC_WAITING\<rparr>"
    let ?f = "\<lambda>p. if max_time \<noteq> 0 then (?w p)\<lparr>p_exptime := now + ucast max_time, p_alarm_set := True\<rparr> else ?w p"
    have "proc_ok (?f (pr k ?c))" using ok nw True assms(2) by (auto simp: proc_ok_def mail_ok_def mails_def)
    then have "kernel_ok ((upd_proc ?c ?f k)\<lparr>k_nrunnable := k_nrunnable k - 1\<rparr>)"
      by (intro start_waiting assms) simp_all
    moreover have "proc_recv_wait mtype max_time now k = Some (True, (upd_proc ?c ?f k)\<lparr>k_nrunnable := k_nrunnable k - 1\<rparr>)"
      using True assms(2) nw d(1,2)
      by (simp add: proc_recv_wait_def Let_def mails_def upd_mbox_def upd_proc_def)
    ultimately show ?thesis using True d(1,2) by simp
  qed
qed

lemma proc_recv_take_inv:
  assumes "kernel_ok k" "runnable k (k_current k)"
  shows "\<exists>k'. proc_recv_take mtype n k = Some (case mails k (k_current k) mtype of [] \<Rightarrow> None
       | m # _ \<Rightarrow> Some (take n (msg_contents m), msg_src m), k') \<and> kernel_ok k' \<and> k_current k' = k_current k \<and>
    mails k' (k_current k) mtype = tl (mails k (k_current k) mtype) \<and> runnable k' (k_current k)"
proof -
  let ?c = "k_current k"
  have all: "kernel_all {?c} [] k" and inv: "kernel_inv {?c} k"
    using assms(1) by (simp_all add: kernel_ok_def kernel_all_def)
  note d = kernel_invD [OF inv]
  have ok: "proc_ok (pr k ?c)" using d(7) [OF d(2)] .
  have nw: "\<not> mq_waiting (p_mboxes (pr k ?c) t)" for t using ok assms(2) by (auto simp: proc_ok_def mail_ok_def)
  show ?thesis
  proof (cases "mails k ?c mtype")
    case Nil
    then show ?thesis using assms nw by (auto simp: proc_recv_take_def Let_def mails_def)
  next
    case (Cons m ms)
    let ?k = "upd_mbox ?c mtype (\<lambda>mq. mq\<lparr>mq_messages := ms\<rparr>) k"
    let ?f = "\<lambda>p. p\<lparr>p_mboxes := (p_mboxes p)(mtype := (p_mboxes p mtype)\<lparr>mq_messages := ms\<rparr>)\<rparr>"
    have "mail_ok (?f (pr k ?c))" using ok Cons nw by (auto simp: proc_ok_def mail_ok_def mails_def)
    then have "kernel_all {?c} [] ?k" unfolding upd_mbox_proc
      using kernel_all_mail [OF all d(2)] by (intro kernel_all_upd all d(2)) simp_all
    then have "kernel_ok ?k" by (simp add: kernel_ok_def upd_mbox_proc)
    moreover have "proc_recv_take mtype n k = Some (Some (take n (msg_contents m), msg_src m), ?k)"
      using Cons nw assms(2) by (simp add: proc_recv_take_def Let_def mails_def)
    ultimately show ?thesis using Cons d(1,2) assms(2) by (simp add: upd_mbox_proc mails_def)
  qed
qed

section \<open>Creation\<close>

lemma held_pages_new:
  assumes "i < 100" "\<not> live k i" "\<And>j. j \<noteq> i \<Longrightarrow> live k' j = live k j" "live k' i"
    "\<And>j. j \<noteq> i \<Longrightarrow> p_pages (pr k' j) = p_pages (pr k j)"
  shows "mset (held_pages k') = mset (held_pages k) + mset (p_pages (pr k' i))"
  using held_pages_drop [of i k' k] assms by simp

lemma uninit_pages [simp]: "frames_of (replicate n PI_UNINIT) = []" "blocks_of (replicate n PI_UNINIT) = []"
  by (induction n) simp_all

lemma pages_inv_new:
  assumes "pages_inv E k" "i < 100" "\<not> live k i" "\<And>j. j \<noteq> i \<Longrightarrow> pr k' j = pr k j"
    "live k' i" "p_pages (pr k' i) = replicate VIRT_PAGES PI_UNINIT" "k_freeframes k' = k_freeframes k"
    "k_freeblocks k' = k_freeblocks k" "k_frame_info k' = k_frame_info k" "k_clock_hand k' = k_clock_hand k"
  shows "pages_inv E k'"
proof -
  have lv: "live k' j = (j = i \<or> live k j)" for j using assms(3-5) by (cases "j = i") (auto simp: live_def)
  have "mset (held_pages k') = mset (held_pages k @ replicate VIRT_PAGES PI_UNINIT)"
    using held_pages_new [OF assms(2,3) _ assms(5)] assms(4,6) lv by simp
  note m = frames_of_mset [OF this] blocks_of_mset [OF this]
  then have "set (frames_of (held_pages k')) = set (frames_of (held_pages k))" by (metis append_Nil2 frames_of_simps(5) set_mset_mset uninit_pages(1))
  moreover have "fi_pi (k_frame_info k ! unat f) = Some (j, n)"
    if "j < 100" "n < length (p_pages (pr k' j))" "live k' j" "p_pages (pr k' j) ! n = PI_VALID f" for j n f
  proof (cases "j = i")
    case True
    with that(2,4) show ?thesis unfolding assms(6) True by simp
  next
    case False
    with that show ?thesis using pages_invD(7) [OF assms(1), of j n f] lv assms(4) [of j] by simp
  qed
  ultimately show ?thesis using assms(1) m unfolding pages_inv_def assms(7-10) by simp
qed

definition new_process :: "u32 \<Rightarrow> string \<Rightarrow> u32 \<Rightarrow> u32 \<Rightarrow> process" where
  "new_process pid descr uid owner = \<lparr>p_priority = 0, p_remain_quantum = 0, p_last_run = 0, p_yield_cnt = 0, p_tick_cnt = 0,
     p_pid = pid, p_descr = descr, p_start = 0, p_arg = 0, p_uid = uid, p_owner = owner,
     p_state = PROC_RUNNABLE, p_mboxes = (\<lambda>_. mq_init), p_server = 0, p_alarm_set = False,
     p_exptime = 0, p_interruptable = False, p_pages = replicate VIRT_PAGES PI_UNINIT\<rparr>"

lemma proc_alloc_eq:
  "k_free k = p # free \<Longrightarrow> proc_alloc owner descr uid k = (Some p,
     k\<lparr>k_free := free, k_pid_gen := k_pid_gen k + 1, k_nprocs := k_nprocs k + 1,
       k_nrunnable := k_nrunnable k + 1, k_procs := (k_procs k)[p := new_process (k_pid_gen k) descr uid owner]\<rparr>)"
  by (simp add: proc_alloc_def new_process_def Let_def)

definition fresh_pid :: "kernel \<Rightarrow> bool" where
  "fresh_pid k \<longleftrightarrow> (\<forall>i<100. st k i \<noteq> PROC_FREE \<longrightarrow> p_pid (pr k i) \<noteq> k_pid_gen k)"

lemma proc_alloc_inv:
  assumes "kernel_all X [] k" "fresh_pid k" "k_free k = p # free"
  shows "\<exists>k'. proc_alloc owner descr uid k = (Some p, k') \<and> kernel_all (insert p X) [] k' \<and>
    p < 100 \<and> st k p = PROC_FREE \<and> pr k' p = new_process (k_pid_gen k) descr uid owner \<and>
    (\<forall>j. j \<noteq> p \<longrightarrow> pr k' j = pr k j) \<and> k_current k' = k_current k \<and> k_runq k' = k_runq k \<and>
    k_quantum k' = k_quantum k \<and> k_shutting_down k' = k_shutting_down k \<and> k_curfew k' = k_curfew k"
proof -
  have inv: "kernel_inv X k" and pg: "pages_inv [] k" using assms(1) by (simp_all add: kernel_all_def)
  note d = kernel_invD [OF inv]
  define ka where "ka = k\<lparr>k_free := free, k_pid_gen := k_pid_gen k + 1, k_nprocs := k_nprocs k + 1,
       k_nrunnable := k_nrunnable k + 1, k_procs := (k_procs k)[p := new_process (k_pid_gen k) descr uid owner]\<rparr>"
  have run: "proc_alloc owner descr uid k = (Some p, ka)" using proc_alloc_eq [OF assms(3)] by (simp add: ka_def)
  have fr: "distinct (p # free)" "set (p # free) = slots k {PROC_FREE}"
    using d(4) assms(3) by (simp_all add: queues_ok_def)
  then have p: "p < 100" "st k p = PROC_FREE" by (metis insertI1 list.simps(15) singletonD slots_iff)+
  have v: "pr ka j = (if j = p then new_process (k_pid_gen k) descr uid owner else pr k j)" for j
    using d(1) p(1) by (simp add: ka_def pr_def)
  have fields: "length (k_procs ka) = 100" "k_current ka = k_current k" "k_runq ka = k_runq k"
    "k_free ka = free" "k_nprocs ka = k_nprocs k + 1" "k_nrunnable ka = k_nrunnable k + 1"
    "k_freeframes ka = k_freeframes k" "k_freeblocks ka = k_freeblocks k" "k_frame_info ka = k_frame_info k"
    "k_clock_hand ka = k_clock_hand k"
    using d(1) by (simp_all add: ka_def)
  have ns: "p_state (new_process a b c e) = PROC_RUNNABLE" "p_pid (new_process a b c e) = a"
    "proc_ok (new_process a b c e)" "p_pages (new_process a b c e) = replicate VIRT_PAGES PI_UNINIT" for a b c e
    by (simp_all add: new_process_def proc_ok_def mail_ok_def mq_init_def)
  have s: "slots ka {PROC_RUNNABLE, PROC_ZOMBIE} - insert p X = slots k {PROC_RUNNABLE, PROC_ZOMBIE} - X"
    "slots ka {PROC_FREE} = slots k {PROC_FREE} - {p}" "slots ka (- {PROC_FREE}) = insert p (slots k (- {PROC_FREE}))"
    "slots ka {PROC_RUNNABLE} = insert p (slots k {PROC_RUNNABLE})" "p \<notin> slots k (- {PROC_FREE})" "p \<notin> slots k {PROC_RUNNABLE}"
    using p by (auto simp: slots_def v ns)
  have "set free = slots k {PROC_FREE} - {p}" "distinct free" using fr by auto
  then have "queues_ok (insert p X) ka" using d(4) unfolding queues_ok_def fields s(1,2) by simp
  moreover have "counts_ok ka"
    using d(5) card_insert_word [OF slots_finite s(5)] card_insert_word [OF slots_finite s(6)]
    unfolding counts_ok_def fields s(3,4) by simp
  moreover have "inj_on (\<lambda>i. p_pid (pr ka i)) (slots ka (- {PROC_FREE}))"
  proof -
    have "inj_on (\<lambda>i. p_pid (pr ka i)) (slots k (- {PROC_FREE}))"
      using d(6) by (rule inj_on_cong [THEN iffD2, rotated]) (use p(2) in \<open>auto simp: v\<close>)
    moreover have "p_pid (pr ka p) \<notin> (\<lambda>i. p_pid (pr ka i)) ` (slots k (- {PROC_FREE}) - {p})"
      using assms(2) by (auto simp: v ns fresh_pid_def)
    ultimately show ?thesis unfolding s(3) by (simp only: inj_on_insert) simp
  qed
  moreover have "proc_ok (pr ka j)" if "j < 100" for j using d(7) [OF that] ns(3) by (simp add: v)
  moreover have "p \<noteq> k_current k" using p(2) d(3) by auto
  ultimately have "kernel_inv (insert p X) ka" unfolding kernel_inv_def fields using d(2,3,8,9) by (auto simp: v ns)
  moreover have "pages_inv [] ka"
    by (rule pages_inv_new [OF pg p(1)]) (use p(2) fields in \<open>auto simp: live_def v ns\<close>)
  ultimately show ?thesis using run p v fields by (simp add: kernel_all_def ka_def)
qed

lemma proc_create_inv:
  assumes "kernel_ok k" "runnable k (k_current k)" "fresh_pid k"
  shows "\<exists>pid k'. proc_create_uid owner descr start arg uid now k = Some (pid, k') \<and> kernel_ok k' \<and>
    (if k_shutting_down k \<or> proc_find owner k = None \<or> k_free k = [] then pid = 0 \<and> k' = k
     else pid = k_pid_gen k \<and> k_current k' = hd (k_free k) \<and> runnable k' (k_current k') \<and>
       p_pid (pr k' (k_current k')) = pid \<and> p_owner (pr k' (k_current k')) = owner \<and>
       p_uid (pr k' (k_current k')) = (let u = p_uid (pr k (the (proc_find owner k))) in if u \<noteq> 0 then u else uid) \<and>
       k_runq k' = (k_runq k)[p_priority (pr k (k_current k)) := k_runq k ! p_priority (pr k (k_current k)) @ [k_current k]] \<and>
       k_shutting_down k' = k_shutting_down k \<and> k_curfew k' = k_curfew k \<and>
       (\<forall>j. j \<noteq> k_current k' \<longrightarrow> pr k' j = pr k j))"
proof (cases "k_shutting_down k \<or> proc_find owner k = None \<or> k_free k = []")
  case True
  then show ?thesis using assms(1)
    by (auto simp: proc_create_uid_def proc_alloc_def Let_def split: option.splits)
next
  case False
  let ?c = "k_current k"
  obtain parent where parent: "proc_find owner k = Some parent" using False by auto
  obtain p free where free: "k_free k = p # free" using False by (cases "k_free k") auto
  let ?uid = "if p_uid (pr k parent) \<noteq> 0 then p_uid (pr k parent) else uid"
  note all = kernel_okD [OF assms(1)]
  from proc_alloc_inv [OF all assms(3) free, of owner descr ?uid] obtain k1 where
    k1: "proc_alloc owner descr ?uid k = (Some p, k1)" "kernel_all {p, ?c} [] k1" "p < 100" "st k p = PROC_FREE"
    "pr k1 p = new_process (k_pid_gen k) descr ?uid owner" "\<forall>j. j \<noteq> p \<longrightarrow> pr k1 j = pr k j" "k_current k1 = ?c"
    "k_runq k1 = k_runq k" "k_quantum k1 = k_quantum k" "k_shutting_down k1 = k_shutting_down k" "k_curfew k1 = k_curfew k" by blast
  have cp: "?c \<noteq> p" using k1(4) assms(2) by auto
  let ?f = "\<lambda>p. p\<lparr>p_priority := 0, p_remain_quantum := ucast (k_quantum k1 ! 0), p_start := start, p_arg := arg\<rparr>"
  let ?k2 = "upd_proc p ?f k1"
  have m: "mail_ok (pr k1 p)" using kernel_all_mail [OF k1(2,3)] by simp
  have k2: "kernel_all {p, ?c} [] ?k2"
    by (rule kernel_all_upd [OF k1(2,3)]) (use m in \<open>simp_all add: mail_ok_def\<close>)
  have len: "length (k_procs k1) = 100" using k1(2) by (simp add: kernel_all_def kernel_inv_def)
  have v2: "pr ?k2 j = (if j = p then ?f (pr k1 p) else pr k j)" for j using len k1(3,6) by simp
  have inv2: "kernel_inv {p, ?c} ?k2" using k2 by (simp add: kernel_all_def)
  have c: "?c < 100" "runnable ?k2 ?c" "?c \<in> {p, ?c}" using kernel_ok_current [OF assms(1)] cp assms(2) v2 by simp_all
  from runqueue_enter [OF inv2 c] obtain q where
    q: "proc_to_runqueue ?c ?k2 = Some (?k2\<lparr>k_runq := q\<rparr>)" "queues_ok ({p, ?c} - {?c}) (?k2\<lparr>k_runq := q\<rparr>)" by metis
  have qe: "q = (k_runq k)[p_priority (pr k ?c) := k_runq k ! p_priority (pr k ?c) @ [?c]]"
  proof -
    have "?k2\<lparr>k_runq := q\<rparr> = ?k2\<lparr>k_runq := (k_runq k)[p_priority (pr k ?c) := k_runq k ! p_priority (pr k ?c) @ [?c]]\<rparr>"
      using q(1) v2 cp k1(8) by (auto simp: proc_to_runqueue_def Let_def assert_def split: if_splits)
    from arg_cong [OF this, of k_runq] show ?thesis by simp
  qed
  let ?k3 = "upd_proc p (\<lambda>p. p\<lparr>p_last_run := now\<rparr>) ((?k2\<lparr>k_runq := q\<rparr>)\<lparr>k_current := p\<rparr>)"
  have "kernel_all {p} [] ((?k2\<lparr>k_runq := q\<rparr>)\<lparr>k_current := p\<rparr>)"
  proof -
    note d = kernel_invD [OF inv2]
    let ?k = "(?k2\<lparr>k_runq := q\<rparr>)\<lparr>k_current := p\<rparr>"
    have sl: "slots ?k S = slots ?k2 S" "slots (?k2\<lparr>k_runq := q\<rparr>) S = slots ?k2 S" for S by (simp_all add: slots_def)
    have "{p, ?c} - {?c} = {p}" using cp by auto
    then have "queues_ok {p} ?k" using q(2) by (simp add: queues_ok_def sl)
    moreover have "st ?k2 p = PROC_RUNNABLE" using v2 k1(5) by (simp add: new_process_def)
    ultimately have "kernel_inv {p} ?k" using d(1,5-7) k1(3) by (simp add: kernel_inv_def counts_ok_def sl)
    moreover have "pages_inv [] ?k"
      by (rule pages_inv_cong [of _ ?k2]) (use k2 in \<open>simp_all add: kernel_all_def live_def\<close>)
    ultimately show ?thesis by (simp add: kernel_all_def)
  qed
  then have "kernel_all {p} [] ?k3"
    by (rule kernel_all_upd) (use k1(3) m v2 in \<open>simp_all add: mail_ok_def\<close>)
  then have ok: "kernel_ok ?k3" by (simp add: kernel_ok_def)
  have run: "proc_create_uid owner descr start arg uid now k = Some (k_pid_gen k, ?k3)"
    using False parent k1(1,3,5,7) q(1) len
    by (simp add: proc_create_uid_def Let_def upd_current new_process_def)
  have v3: "pr ?k3 j = (if j = p then (?f (pr k1 p))\<lparr>p_last_run := now\<rparr> else pr k j)" for j
    using len k1(3) spec [OF k1(6), of j] by auto
  show ?thesis using run ok False parent free k1(5,10,11) qe v3 by (simp add: new_process_def Let_def)
qed

end
