(* ===== verification/KernelProps.thy ===== *)
theory KernelProps
  imports ProcessProps
begin

text \<open>
  The properties of the kernel stated over whole operations (\<open>egos/grass/process.c\<close>,
  \<open>egos/grass/procsys.c\<close>), with the state after the start of the module as their example.
\<close>

section \<open>The initial state\<close>

definition init_kernel :: kernel where
  "init_kernel = \<lparr>k_procs = (map (\<lambda>i. free_proc (of_nat i)) [0..<100])[0 := new_process 1 ''main'' 0 1],
     k_current = 0, k_runq = [[], [], []], k_free = [1..<100], k_nprocs = 1, k_nrunnable = 1,
     k_pid_gen = 2, k_shutting_down = False, k_curfew = 0, k_quantum = [100, 200, 300],
     k_freeframes = map of_nat [0..<128], k_freeblocks = map of_nat [0..<1024],
     k_frame_info = replicate 128 \<lparr>fi_state = FI_FREE, fi_pi = None\<rparr>, k_clock_hand = 0\<rparr>"

lemma proc_initialize_eq: "proc_initialize = Some init_kernel"
proof -
  have f: "[0..<MAX_PROCS] = 0 # [1..<100]" by (simp add: upt_conv_Cons)
  have q: "replicate MAX_PRIORITY [] = [[], [], []]" "map (\<lambda>i. of_nat ((i + 1) * 100)) [0..<MAX_PRIORITY] = [100, 200, 300 :: u32]"
    by (simp_all add: numeral_3_eq_3 upt_rec)
  have g: "PHYS_FRAMES = 128" "PG_DEV_SIZE = 1024" by (simp_all add: PG_DEV_SIZE_def)
  let ?k = "\<lparr>k_procs = map (\<lambda>i. free_proc (of_nat i)) [0..<MAX_PROCS], k_current = 0,
       k_runq = [[], [], []], k_free = 0 # [1..<100], k_nprocs = 0, k_nrunnable = 0,
       k_pid_gen = 1, k_shutting_down = False, k_curfew = 0,
       k_quantum = [100, 200, 300], k_freeframes = map of_nat [0..<128], k_freeblocks = map of_nat [0..<1024],
       k_frame_info = replicate 128 \<lparr>fi_state = FI_FREE, fi_pi = None\<rparr>, k_clock_hand = 0\<rparr>"
  have "proc_initialize = (let (r, k) = proc_alloc 1 ''main'' 0 ?k in (case r of None \<Rightarrow> None | Some i \<Rightarrow> Some (k\<lparr>k_current := i\<rparr>)))"
    unfolding proc_initialize_def Let_def q g by (simp only: f)
  also have "\<dots> = Some init_kernel"
    using proc_alloc_eq [of ?k 0 "[1..<100]" 1 "''main''" 0] by (simp add: init_kernel_def)
  finally show ?thesis .
qed

lemma init_fields [simp]:
  "k_current init_kernel = 0" "k_runq init_kernel = [[], [], []]" "k_free init_kernel = [1..<100]"
  "k_pid_gen init_kernel = 2" "k_shutting_down init_kernel = False" "k_curfew init_kernel = 0"
  "length (k_procs init_kernel) = 100" "k_clock_hand init_kernel = 0"
  "k_freeframes init_kernel = map of_nat [0..<128]"
  by (simp_all add: init_kernel_def)

lemma init_pr: "i < 100 \<Longrightarrow> pr init_kernel i = (if i = 0 then new_process 1 ''main'' 0 1 else free_proc (of_nat i))"
  by (simp add: pr_def init_kernel_def nth_list_update_if)

lemma init_st [simp]: "i < 100 \<Longrightarrow> st init_kernel i = (if i = 0 then PROC_RUNNABLE else PROC_FREE)"
  by (simp add: init_pr new_process_def free_proc_def)

lemma init_slots: "slots init_kernel S = (if PROC_RUNNABLE \<in> S then {0} else {}) \<union> (if PROC_FREE \<in> S then {1..<100} else {})"
  by (auto simp: slots_def split: if_splits)

lemma init_ok: "kernel_ok init_kernel"
proof -
  have "queues_ok {0} init_kernel" by (auto simp: queues_ok_def init_slots)
  moreover have "counts_ok init_kernel" unfolding counts_ok_def init_slots by (simp add: init_kernel_def)
  moreover have "proc_ok (pr init_kernel i)" if "i < 100" for i
    using that by (simp add: init_pr proc_ok_def mail_ok_def new_process_def free_proc_def mq_init_def)
  ultimately have "kernel_inv {0} init_kernel" by (simp add: kernel_inv_def init_slots)
  moreover have "pages_inv [] init_kernel"
  proof -
    have "held_pages init_kernel = concat (map (\<lambda>i. if i = 0 then replicate 256 PI_UNINIT else []) [0..<100])"
      unfolding held_pages_def by (intro arg_cong [of _ _ concat] map_cong refl)
        (auto simp: live_def init_pr new_process_def free_proc_def VIRT_PAGES_def)
    also have "\<dots> = replicate 256 PI_UNINIT" by (simp add: upt_conv_Cons)
    finally have h: "held_pages init_kernel = replicate 256 PI_UNINIT" .
    have n: "p_pages (pr init_kernel i) ! n \<noteq> PI_VALID f" if "i < 100" "n < length (p_pages (pr init_kernel i))" for i n f
      using that by (cases "i = 0") (simp_all add: init_pr new_process_def free_proc_def)
    have fr: "fi_state (k_frame_info init_kernel ! unat f) = FI_FREE" if "f \<in> set (k_freeframes init_kernel)" for f
      using that by (auto simp: init_kernel_def unat32_of_nat)
    have b: "k_freeblocks init_kernel = map of_nat [0..<1024]" "length (k_frame_info init_kernel) = 128"
      by (simp_all add: init_kernel_def)
    show ?thesis using n fr unfolding pages_inv_def h b by simp
  qed
  ultimately show ?thesis by (simp add: kernel_ok_def kernel_all_def)
qed

lemma init_fresh: "fresh_pid init_kernel"
  by (auto simp: fresh_pid_def init_pr new_process_def free_proc_def)

lemma init_find: "proc_find 1 init_kernel = Some 0"
  using proc_find_Some [OF conjunct1 [OF current_inv [OF init_ok]], of 1 0] by (simp add: init_pr new_process_def)

lemma init_runnable: "runnable init_kernel (k_current init_kernel)"
  by simp

lemma nth_list_update_zero [simp]: "(x # xs)[0 := y] = y # xs"
  by simp

text \<open>The state after \<open>main\<close> has created a second process: that one runs, \<open>main\<close> is in the queue.\<close>

lemma two_processes:
  "\<exists>k. proc_create_uid 1 ''init'' 0 0 0 5 init_kernel = Some (2, k) \<and> kernel_ok k \<and> k_current k = 1 \<and>
     runnable k 1 \<and> runnable k 0 \<and> k_runq k = [[0], [], []] \<and> \<not> k_shutting_down k \<and> k_curfew k = 0 \<and>
     p_pid (pr k 1) = 2 \<and> p_pid (pr k 0) = 1 \<and> (\<forall>i<100. st k i \<noteq> PROC_WAITING) \<and> p_uid (pr k 1) = 0"
proof -
  from proc_create_inv [OF init_ok init_runnable init_fresh, of 1 "''init''" 0 0 0 5] init_find
  obtain pid k where k: "proc_create_uid 1 ''init'' 0 0 0 5 init_kernel = Some (pid, k)" "kernel_ok k"
    "pid = 2" "k_current k = 1" "runnable k (k_current k)" "p_pid (pr k (k_current k)) = pid"
    "p_uid (pr k (k_current k)) = 0"
    "k_runq k = (k_runq init_kernel)[p_priority (pr init_kernel 0) := k_runq init_kernel ! p_priority (pr init_kernel 0) @ [0]]"
    "\<not> k_shutting_down k" "k_curfew k = 0" "\<forall>j. j \<noteq> k_current k \<longrightarrow> pr k j = pr init_kernel j"
    by (auto simp: upt_conv_Cons init_pr new_process_def)
  have "k_runq k = [[0], [], []]" using k(8) by (simp add: init_pr new_process_def)
  moreover have "st k i \<noteq> PROC_WAITING" if "i < 100" for i using k(4,5,11) that by (cases "i = 1") auto
  ultimately show ?thesis using k by (simp add: init_pr new_process_def)
qed

section \<open>Properties\<close>


text \<open>C15: Sending a message keeps the kernel consistent and stops on no assertion. It is accepted exactly
  when the destination exists, is not a zombie and, for a reply, waits for one from the sender;
  then it is appended to that mailbox, no other mailbox changes, and a destination that waits on
  the mailbox becomes runnable; otherwise nothing changes.\<close>
theorem proc_send_delivers:
  assumes "kernel_ok k"
  shows "\<exists>r k'. proc_send src dst mtype msg k = Some (r, k') \<and> kernel_ok k' \<and> delivered src dst mtype msg k r k'"
proof -
  from proc_send_inv [of "{k_current k}" k src dst mtype msg] current_inv [OF assms] obtain r k' where
    k': "proc_send src dst mtype msg k = Some (r, k')" "kernel_inv {k_current k} k'" "evolves k k'"
    "delivered src dst mtype msg k r k'" by blast
  have "kernel_ok k'" using kernel_all_evolves [OF k'(2,3) kernel_okD [OF assms]] evolvesD(1) [OF k'(3)]
    by (simp add: kernel_ok_def)
  with k' show ?thesis by blast
qed

theorem proc_send_delivers_witness:
  "\<exists>k'. proc_send 7 1 MSG_REQUEST [1, 2] init_kernel = Some (True, k') \<and> kernel_ok k' \<and>
     mails k' 0 MSG_REQUEST = [\<lparr>msg_src = 7, msg_contents = [1, 2]\<rparr>]"
proof -
  from proc_send_delivers [OF init_ok, of 7 1 MSG_REQUEST "[1, 2]"] obtain r k' where
    k': "proc_send 7 1 MSG_REQUEST [1, 2] init_kernel = Some (r, k')" "kernel_ok k'"
    "delivered 7 1 MSG_REQUEST [1, 2] init_kernel r k'" by blast
  from k'(3) have "r" "mails k' 0 MSG_REQUEST = [\<lparr>msg_src = 7, msg_contents = [1, 2]\<rparr>]"
    unfolding delivered_def init_find
    by (auto simp: accepts_def init_pr new_process_def mails_def mq_init_def)
  with k'(1,2) show ?thesis by simp
qed



text \<open>C14: Scheduling order and progress: when no alarm has expired and no shutdown is under way, the next
  process is the first runnable one in the queue of the highest priority that has one, the switch
  happens in the first turn of the loop, and its run starts now.\<close>
theorem proc_yield_picks_highest:
  assumes "kernel_ok k" "\<not> k_shutting_down k" "k_curfew k = 0"
    and "\<And>i. i < 100 \<Longrightarrow> st k i = PROC_WAITING \<Longrightarrow> p_alarm_set (pr k i) \<Longrightarrow> now < p_exptime (pr k i)"
    and "find (runnable k) (concat (k_runq k)) = Some i"
  shows "\<exists>k'. proc_yield (([], now, now') # env) k = Some (Switched, k') \<and> kernel_ok k' \<and>
    k_current k' = i \<and> p_last_run (pr k' i) = now'"
proof -
  have inv: "kernel_inv {k_current k} k" using current_inv [OF assms(1)] by simp
  from scan_quiet [OF assms(2), of "[0..<100]" now "now + 1000"] assms(4) obtain "next" where
    s: "scan_timeouts now [0..<100] (now + 1000) k = Some (next, k)" by auto
  have len: "length (k_runq k) = 3" using inv by (simp add: kernel_inv_def queues_ok_def)
  have sub: "distinct [0..<3 :: nat]" "set [0..<3 :: nat] \<subseteq> {..<3}" by auto
  from pick_next_inv [OF kernel_okD [OF assms(1)] sub] obtain k2 where
    k2: "pick_next [0..<3] k = Some (Some i, k2)" "k_current k2 = k_current k"
    "kernel_all {k_current k, i} [] k2" "i \<noteq> k_current k" "i < 100" "st k2 i = PROC_RUNNABLE"
    unfolding nths3 [OF len] assms(5) by auto
  have pos: "k_nprocs k > 0" "k_nprocs k2 > 0" using nprocs_pos [OF inv] nprocs_pos k2(3) by (auto simp: kernel_all_def)
  have "kernel_all {k_current k2, i} [] k2" "i \<noteq> k_current k2" using k2(2-4) by simp_all
  from proc_switch_inv [OF this k2(5,6), of now'] obtain k3 where
    "proc_switch now' i k2 = Some k3" "kernel_ok k3" "k_current k3 = i" "p_last_run (pr k3 i) = now'" by blast
  moreover have "yield_turn now k = Some (Switch_to i, k2)" using s k2(1) pos assms(3) by (simp add: yield_turn_def)
  ultimately show ?thesis using pos by simp
qed

theorem proc_yield_picks_highest_witness:
  "\<exists>k k'. proc_create_uid 1 ''init'' 0 0 0 5 init_kernel = Some (2, k) \<and>
     proc_yield [([], 20, 21)] k = Some (Switched, k') \<and> k_current k' = 0"
proof -
  from two_processes obtain k where k: "proc_create_uid 1 ''init'' 0 0 0 5 init_kernel = Some (2, k)" "kernel_ok k"
    "runnable k 0" "k_runq k = [[0], [], []]" "\<not> k_shutting_down k" "k_curfew k = 0" "\<forall>i<100. st k i \<noteq> PROC_WAITING" by blast
  from proc_yield_picks_highest [OF k(2,5,6), of 20 0 21 "[]"] k(3,4,7) show ?thesis using k(1) by auto
qed

text \<open>C18: The death of a process keeps the kernel consistent and stops on no assertion, and all its frames
  and paging blocks go back to the free lists, in the order of its pages.\<close>
theorem sys_exit_releases:
  assumes "kernel_ok k" "runnable k (k_current k)"
  shows "\<exists>k'. sys_exit status k = Some k' \<and> kernel_ok k' \<and> st k' (k_current k') = PROC_ZOMBIE \<and>
    k_freeframes k' = k_freeframes k @ frames_of (p_pages (pr k (k_current k))) \<and>
    k_freeblocks k' = k_freeblocks k @ blocks_of (p_pages (pr k (k_current k)))"
proof -
  have c: "k_current k < 100" using kernel_ok_current [OF assms(1)] by simp
  have "live k (k_current k)" using assms(2) by (simp add: live_def)
  from proc_term_inv [OF kernel_okD [OF assms(1)] c this, of status] assms(2) show ?thesis
    by (fastforce simp: sys_exit_def kernel_ok_def)
qed

theorem sys_exit_releases_witness:
  "\<exists>k'. sys_exit 3 init_kernel = Some k' \<and> kernel_ok k' \<and> st k' (k_current k') = PROC_ZOMBIE"
  using sys_exit_releases [OF init_ok init_runnable, of 3] by blast

text \<open>A kill, of one process or of all interruptable ones, keeps the kernel consistent and stops on no
  assertion, whoever asks and whatever the states of the processes are.\<close>
theorem proc_kill_safe:
  assumes "kernel_ok k"
  shows "\<exists>y k'. proc_kill killer pid status k = Some (y, k') \<and> kernel_ok k' \<and> k_current k' = k_current k"
  by (rule proc_kill_inv [OF assms])

theorem proc_kill_safe_witness: "\<exists>y k'. proc_kill 1 1 (- 2) init_kernel = Some (y, k') \<and> kernel_ok k'"
  using proc_kill_safe [OF init_ok, of 1 1 "- 2"] by blast

text \<open>Creating a process keeps the kernel consistent. Without a parent, without a free slot or during a
  shutdown it returns 0 and changes nothing; otherwise the new process gets the next id and runs,
  the creator waits at the end of its queue, and a user process cannot get another user id than
  its own.\<close>
theorem proc_create_uid_correct:
  assumes "kernel_ok k" "runnable k (k_current k)" "fresh_pid k"
  shows "\<exists>pid k'. proc_create_uid owner descr start arg uid now k = Some (pid, k') \<and> kernel_ok k' \<and>
    (if k_shutting_down k \<or> proc_find owner k = None \<or> k_free k = [] then pid = 0 \<and> k' = k
     else pid = k_pid_gen k \<and> k_current k' = hd (k_free k) \<and> runnable k' (k_current k') \<and>
       p_pid (pr k' (k_current k')) = pid \<and> p_owner (pr k' (k_current k')) = owner \<and>
       p_uid (pr k' (k_current k')) = (let u = p_uid (pr k (the (proc_find owner k))) in if u \<noteq> 0 then u else uid) \<and>
       k_runq k' = (k_runq k)[p_priority (pr k (k_current k)) := k_runq k ! p_priority (pr k (k_current k)) @ [k_current k]])"
  using proc_create_inv [OF assms, of owner descr start arg uid now] by (auto split: if_splits)

theorem proc_create_uid_correct_witness:
  "\<exists>k'. proc_create_uid 1 ''init'' 0 0 0 5 init_kernel = Some (2, k') \<and> kernel_ok k' \<and> k_current k' = 1"
  using proc_create_uid_correct [OF init_ok init_runnable init_fresh, of 1 "''init''" 0 0 0 5] init_find
  by (auto simp: upt_conv_Cons)



text \<open>C17: A remote procedure call gets its answer from the server it called or fails: when the caller runs
  again, the reply mailbox holds at most one message, the assertion on its source holds, and the
  mailbox is empty afterwards, so that the next call can wait on it.\<close>
theorem sys_rpc_reply_from_server:
  assumes "kernel_ok k" "runnable k (k_current k)" "p_server (pr k (k_current k)) = pid"
  shows "\<exists>k'. sys_rpc_reply pid n k = Some (case mails k (k_current k) MSG_REPLY of
       [] \<Rightarrow> (- 1, None) | m # _ \<Rightarrow> (int (length (take n (msg_contents m))), Some (take n (msg_contents m))), k') \<and>
    kernel_ok k' \<and> mails k' (k_current k) MSG_REPLY = []"
proof -
  let ?c = "k_current k"
  have "proc_ok (pr k ?c)" using kernel_invD(2,7) conjunct1 [OF current_inv [OF assms(1)]] by blast
  then have r: "length (mails k ?c MSG_REPLY) \<le> 1" "\<forall>m\<in>set (mails k ?c MSG_REPLY). msg_src m = pid"
    using assms(2,3) by (auto simp: proc_ok_def mail_ok_def mails_def)
  from proc_recv_take_inv [OF assms(1,2), of MSG_REPLY n] obtain k' where
    k': "proc_recv_take MSG_REPLY n k = Some (case mails k ?c MSG_REPLY of [] \<Rightarrow> None
       | m # _ \<Rightarrow> Some (take n (msg_contents m), msg_src m), k')" "kernel_ok k'"
    "mails k' ?c MSG_REPLY = tl (mails k ?c MSG_REPLY)" by blast
  have "mails k' ?c MSG_REPLY = []" using r(1) k'(3) by (cases "mails k ?c MSG_REPLY") auto
  then show ?thesis using k'(1,2) r(2) by (cases "mails k ?c MSG_REPLY") (auto simp: sys_rpc_reply_def)
qed

theorem sys_rpc_reply_from_server_witness:
  "\<exists>k'. sys_rpc_reply 0 4 init_kernel = Some ((- 1, None), k') \<and> kernel_ok k'"
  using sys_rpc_reply_from_server [OF init_ok init_runnable, of 0 4] by (auto simp: mails_def init_pr new_process_def mq_init_def)

text \<open>Time accounting charges twice: \<open>check_priority\<close> takes the whole time since the start of the run
  at every interrupt, so two interrupts in one run, of which none exceeds the quantum, take the
  time up to the first one twice.\<close>
theorem check_priority_charges_twice:
  assumes "i < length (k_procs k)" "t1 - p_last_run (pr k i) \<le> p_remain_quantum (pr k i)"
    and "t2 - p_last_run (pr k i) \<le> p_remain_quantum (pr k i) - (t1 - p_last_run (pr k i))"
  shows "p_remain_quantum (pr (check_priority t2 i (check_priority t1 i k)) i) =
    p_remain_quantum (pr k i) - (t1 - p_last_run (pr k i)) - (t2 - p_last_run (pr k i))"
proof -
  let ?p = "pr k i"
  let ?k = "upd_proc i (\<lambda>p. p\<lparr>p_remain_quantum := p_remain_quantum p - (t1 - p_last_run p)\<rparr>) k"
  have "\<not> t1 - p_last_run ?p > p_remain_quantum ?p" using assms(2) by (simp add: not_less)
  then have 1: "check_priority t1 i k = ?k" unfolding check_priority_def Let_def by (rule if_not_P)
  have "\<not> t2 - p_last_run (pr ?k i) > p_remain_quantum (pr ?k i)" using assms(1,3) by (simp add: not_less)
  then have "check_priority t2 i ?k = upd_proc i (\<lambda>p. p\<lparr>p_remain_quantum := p_remain_quantum p - (t2 - p_last_run p)\<rparr>) ?k"
    unfolding check_priority_def Let_def by (rule if_not_P)
  then show ?thesis unfolding 1 using assms(1) by simp
qed

theorem check_priority_charges_twice_witness:
  "p_remain_quantum (pr (check_priority 60 0 (check_priority 30 0
     (upd_proc 0 (\<lambda>p. p\<lparr>p_remain_quantum := 100, p_last_run := 0\<rparr>) init_kernel))) 0) = 10"
  using check_priority_charges_twice [of 0 "upd_proc 0 (\<lambda>p. p\<lparr>p_remain_quantum := 100, p_last_run := 0\<rparr>) init_kernel" 30 60]
  by simp

end
