(* ===== verification/BlockSvr.thy ===== *)
theory BlockSvr
  imports Bytes PartDisk
begin

text \<open>
  The block server (\<open>egos/grass/blocksvr.c\<close>), its clients (\<open>egos/shared/block.c\<close>), and the block
  store that forwards to a server (\<open>egos/grass/block/protdisk.c\<close>). A request is the byte sequence
  of a \<open>struct block_request\<close> followed by data, a reply that of a \<open>struct block_reply\<close> followed by
  data. A server is a function from the request and its state to the reply and the new state;
  \<open>None\<close> is a failed \<open>assert\<close> or an access outside an array, which stops the kernel. Its replies
  are handed to the requesting process (theory \<open>Process\<close> models the queues in between).
\<close>

section \<open>Requests and replies\<close>

datatype block_req_type = BLOCK_UNUSED | BLOCK_READ | BLOCK_WRITE | BLOCK_GETSIZE | BLOCK_SETSIZE

datatype block_status = BLOCK_OK | BLOCK_ERROR

fun block_type_num :: "block_req_type \<Rightarrow> u32" where
  "block_type_num BLOCK_UNUSED = 0"
| "block_type_num BLOCK_READ = 1"
| "block_type_num BLOCK_WRITE = 2"
| "block_type_num BLOCK_GETSIZE = 3"
| "block_type_num BLOCK_SETSIZE = 4"

definition num_block_type :: "u32 \<Rightarrow> block_req_type option" where
  "num_block_type w = (if w = 0 then Some BLOCK_UNUSED else if w = 1 then Some BLOCK_READ
     else if w = 2 then Some BLOCK_WRITE else if w = 3 then Some BLOCK_GETSIZE
     else if w = 4 then Some BLOCK_SETSIZE else None)"

fun block_status_num :: "block_status \<Rightarrow> u32" where
  "block_status_num BLOCK_OK = 0"
| "block_status_num BLOCK_ERROR = 1"

definition block_request :: "block_req_type \<Rightarrow> u32 \<Rightarrow> u32 \<Rightarrow> u8 list \<Rightarrow> u8 list" where
  "block_request t ino offset data = le32 (block_type_num t) @ le32 ino @ le32 offset @ data"

definition block_reply :: "block_status \<Rightarrow> u32 \<Rightarrow> u8 list \<Rightarrow> u8 list" where
  "block_reply st nblock data = le32 (block_status_num st) @ le32 nblock @ data"

lemma block_request_fields [simp]:
  "length (block_request t ino off d) = 12 + length d" "get32 (block_request t ino off d) 0 = block_type_num t"
  "get32 (block_request t ino off d) 4 = ino" "get32 (block_request t ino off d) 8 = off"
  "drop 12 (block_request t ino off d) = d"
  using get32_at [of 0 "[]" "block_type_num t" "le32 ino @ le32 off @ d"]
    get32_at [of 4 "le32 (block_type_num t)" ino "le32 off @ d"]
    get32_at [of 8 "le32 (block_type_num t) @ le32 ino" off d]
  by (simp_all add: block_request_def)

lemma block_reply_fields [simp]:
  "length (block_reply st n d) = 8 + length d" "get32 (block_reply st n d) 0 = block_status_num st"
  "get32 (block_reply st n d) 4 = n" "drop 8 (block_reply st n d) = d"
  using get32_at [of 0 "[]" "block_status_num st" "le32 n @ d"]
    get32_at [of 4 "le32 (block_status_num st)" n d]
  by (simp_all add: block_reply_def)

lemma num_block_type [simp]: "num_block_type (block_type_num t) = Some t"
  by (cases t) (simp_all add: num_block_type_def)

lemma block_status_num_0 [simp]: "block_status_num st = 0 \<longleftrightarrow> st = BLOCK_OK"
  by (cases st) simp_all

section \<open>The server\<close>

definition MAX_INODES :: nat where
  "MAX_INODES = 128"

text \<open>\<open>block_respond\<close>, with \<open>nblock\<close> blocks of data.\<close>

definition block_respond :: "block_status \<Rightarrow> u8 list \<Rightarrow> u8 list" where
  "block_respond status data = block_reply status 0 data"

definition block_do_read :: "'s block_store_t list \<Rightarrow> u32 \<Rightarrow> u32 \<Rightarrow> 's \<Rightarrow> (u8 list \<times> 's) option" where
  "block_do_read inodes ino offset s =
     (if unat ino \<ge> MAX_INODES then Some (block_respond BLOCK_ERROR [], s)
      else if unat ino \<ge> length inodes then None
      else do {
        (r, s) \<leftarrow> bs_read (inodes ! unat ino) s offset;
        (case r of
           None \<Rightarrow> Some (block_respond BLOCK_ERROR [], s)
         | Some b \<Rightarrow> Some (block_reply BLOCK_OK 1 (block_bytes b), s)) })"

definition block_do_write :: "'s block_store_t list \<Rightarrow> u32 \<Rightarrow> u32 \<Rightarrow> u8 list \<Rightarrow> nat \<Rightarrow> 's \<Rightarrow> (u8 list \<times> 's) option" where
  "block_do_write inodes ino offset data nblock s =
     (if unat ino \<ge> MAX_INODES then Some (block_respond BLOCK_ERROR [], s)
      else if nblock \<noteq> 1 then Some (block_respond BLOCK_ERROR [], s)
      else if unat ino \<ge> length inodes then None
      else do {
        (r, s) \<leftarrow> bs_write (inodes ! unat ino) s offset (bytes_block (take BLOCK_SIZE data));
        if r < 0 then Some (block_respond BLOCK_ERROR [], s)
        else Some (block_respond BLOCK_OK [], s) })"

definition block_do_getsize :: "'s block_store_t list \<Rightarrow> u32 \<Rightarrow> 's \<Rightarrow> (u8 list \<times> 's) option" where
  "block_do_getsize inodes ino s =
     (if unat ino \<ge> MAX_INODES then Some (block_respond BLOCK_ERROR [], s)
      else if unat ino \<ge> length inodes then None
      else do {
        (n, s) \<leftarrow> bs_nblocks (inodes ! unat ino) s;
        Some (block_reply BLOCK_OK (word_of_int n) [], s) })"

definition block_do_setsize :: "'s block_store_t list \<Rightarrow> u32 \<Rightarrow> u32 \<Rightarrow> 's \<Rightarrow> (u8 list \<times> 's) option" where
  "block_do_setsize inodes ino nblocks s =
     (if unat ino \<ge> MAX_INODES then Some (block_respond BLOCK_ERROR [], s)
      else if unat ino \<ge> length inodes then None
      else do {
        (r, s) \<leftarrow> bs_setsize (inodes ! unat ino) s nblocks;
        if r < 0 then Some (block_respond BLOCK_ERROR [], s)
        else Some (block_respond BLOCK_OK [], s) })"

text \<open>
  One turn of the loop of \<open>block_proc\<close> for the message \<open>msg\<close>. The receive buffer has
  \<open>sizeof(req) + PAGESIZE\<close> bytes, where \<open>req\<close> is a pointer.
\<close>

definition block_proc :: "'s block_store_t list \<Rightarrow> u8 list \<Rightarrow> 's \<Rightarrow> (u8 list \<times> 's) option" where
  "block_proc inodes msg s = (let req = take (8 + 4096) msg in
     if length req < 12 then None
     else case num_block_type (get32 req 0) of
       Some BLOCK_READ \<Rightarrow> block_do_read inodes (get32 req 4) (get32 req 8) s
     | Some BLOCK_WRITE \<Rightarrow> block_do_write inodes (get32 req 4) (get32 req 8) (drop 12 req)
                           ((length req - 12) div BLOCK_SIZE) s
     | Some BLOCK_GETSIZE \<Rightarrow> block_do_getsize inodes (get32 req 4) s
     | Some BLOCK_SETSIZE \<Rightarrow> block_do_setsize inodes (get32 req 4) (get32 req 8) s
     | _ \<Rightarrow> None)"

section \<open>The clients\<close>

text \<open>
  \<open>sys_rpc\<close> as its caller sees it: the request and the size of the reply buffer, the size of the
  reply (or \<open>-1\<close>) and its contents. Over a server that answers every request it is \<open>rpc_to\<close>.
\<close>

type_synonym 's rpc = "u8 list \<Rightarrow> nat \<Rightarrow> 's \<Rightarrow> ((int \<times> u8 list) \<times> 's) option"

definition rpc_to :: "(u8 list \<Rightarrow> 's \<Rightarrow> (u8 list \<times> 's) option) \<Rightarrow> 's rpc" where
  "rpc_to server req psize s = do {
     (rep, s) \<leftarrow> server req s;
     Some ((int (length (take psize rep)), take psize rep), s) }"

definition block_read :: "'s rpc \<Rightarrow> u32 \<Rightarrow> u32 \<Rightarrow> 's \<Rightarrow> (block option \<times> 's) option" where
  "block_read rpc ino offset s = (let reply_size = 8 + BLOCK_SIZE in do {
     ((n, reply), s) \<leftarrow> rpc (block_request BLOCK_READ ino offset []) reply_size s;
     if n < int reply_size then Some (None, s)
     else if get32 reply 0 \<noteq> block_status_num BLOCK_OK then Some (None, s)
     else Some (Some (bytes_block (take BLOCK_SIZE (drop 8 reply))), s) })"

definition block_write :: "'s rpc \<Rightarrow> u32 \<Rightarrow> u32 \<Rightarrow> block \<Rightarrow> 's \<Rightarrow> (bool \<times> 's) option" where
  "block_write rpc ino offset b s = do {
     ((n, reply), s) \<leftarrow> rpc (block_request BLOCK_WRITE ino offset (block_bytes b)) 8 s;
     Some (\<not> (n < 8 \<or> get32 reply 0 \<noteq> block_status_num BLOCK_OK), s) }"

text \<open>The size is written to \<open>*psize\<close> even when the status is not \<open>BLOCK_OK\<close>.\<close>

definition block_getsize :: "'s rpc \<Rightarrow> u32 \<Rightarrow> 's \<Rightarrow> ((bool \<times> u32 option) \<times> 's) option" where
  "block_getsize rpc ino s = do {
     ((n, reply), s) \<leftarrow> rpc (block_request BLOCK_GETSIZE ino 0 []) 8 s;
     if n < 8 then Some ((False, None), s)
     else Some ((get32 reply 0 = block_status_num BLOCK_OK, Some (get32 reply 4)), s) }"

definition block_setsize :: "'s rpc \<Rightarrow> u32 \<Rightarrow> u32 \<Rightarrow> 's \<Rightarrow> (bool \<times> 's) option" where
  "block_setsize rpc ino nblocks s = do {
     ((n, reply), s) \<leftarrow> rpc (block_request BLOCK_SETSIZE ino nblocks []) 8 s;
     if n < 8 then Some (False, s)
     else Some (get32 reply 0 = block_status_num BLOCK_OK, s) }"

section \<open>protdisk\<close>

definition protdisk_nblocks :: "'s rpc \<Rightarrow> u32 \<Rightarrow> 's \<Rightarrow> (int \<times> 's) option" where
  "protdisk_nblocks rpc ino s = do {
     ((r, n), s) \<leftarrow> block_getsize rpc ino s;
     if r then (case n of None \<Rightarrow> None | Some nblocks \<Rightarrow> Some (sint nblocks, s)) else None }"

definition protdisk_setsize :: "'s \<Rightarrow> block_no \<Rightarrow> (int \<times> 's) option" where
  "protdisk_setsize s nblocks = None"

definition protdisk_read :: "'s rpc \<Rightarrow> u32 \<Rightarrow> 's \<Rightarrow> block_no \<Rightarrow> (block option \<times> 's) option" where
  "protdisk_read rpc ino s offset = block_read rpc ino offset s"

definition protdisk_write :: "'s rpc \<Rightarrow> u32 \<Rightarrow> 's \<Rightarrow> block_no \<Rightarrow> block \<Rightarrow> (int \<times> 's) option" where
  "protdisk_write rpc ino s offset block = do {
     (r, s) \<leftarrow> block_write rpc ino offset block s;
     Some (if r then 0 else - 1, s) }"

definition protdisk_init :: "'s rpc \<Rightarrow> u32 \<Rightarrow> 's block_store_t" where
  "protdisk_init rpc ino = \<lparr>bs_nblocks = protdisk_nblocks rpc ino, bs_read = protdisk_read rpc ino,
     bs_write = protdisk_write rpc ino, bs_setsize = protdisk_setsize\<rparr>"

lemma protdisk_init_simps [simp]:
  "bs_nblocks (protdisk_init rpc ino) = protdisk_nblocks rpc ino"
  "bs_read (protdisk_init rpc ino) = protdisk_read rpc ino"
  "bs_write (protdisk_init rpc ino) = protdisk_write rpc ino"
  "bs_setsize (protdisk_init rpc ino) = protdisk_setsize"
  by (simp_all add: protdisk_init_def)

section \<open>Calls over the server\<close>

text \<open>
  A client that talks to a server calls the store behind the inode, and nothing else happens.
\<close>

definition serves :: "'s block_store_t list \<Rightarrow> u32 \<Rightarrow> bool" where
  "serves inodes ino \<longleftrightarrow> unat ino < length inodes \<and> length inodes \<le> MAX_INODES"

lemma serves_ino: "serves inodes ino \<Longrightarrow> unat ino < MAX_INODES \<and> unat ino < length inodes"
  by (simp add: serves_def)

lemma block_proc_request:
  assumes "length d \<le> 4092"
  shows "block_proc inodes (block_request t ino off d) s = (case t of
      BLOCK_UNUSED \<Rightarrow> None
    | BLOCK_READ \<Rightarrow> block_do_read inodes ino off s
    | BLOCK_WRITE \<Rightarrow> block_do_write inodes ino off d (length d div BLOCK_SIZE) s
    | BLOCK_GETSIZE \<Rightarrow> block_do_getsize inodes ino s
    | BLOCK_SETSIZE \<Rightarrow> block_do_setsize inodes ino off s)"
proof -
  have "take (8 + 4096) (block_request t ino off d) = block_request t ino off d" using assms by simp
  then show ?thesis by (cases t) (simp_all add: block_proc_def Let_def num_block_type_def)
qed

lemma block_read_rpc:
  assumes "serves inodes ino"
  shows "block_read (rpc_to (block_proc inodes)) ino off s = bs_read (inodes ! unat ino) s off"
proof -
  note i = serves_ino [OF assms]
  show ?thesis
  proof (cases "bs_read (inodes ! unat ino) s off")
    case None
    with i show ?thesis by (simp add: block_read_def rpc_to_def Let_def block_proc_request block_do_read_def)
  next
    case (Some p)
    obtain r t where p: "p = (r, t)" by (cases p)
    show ?thesis
    proof (cases r)
      case None
      with Some p i show ?thesis
        by (simp add: block_read_def rpc_to_def Let_def block_proc_request block_do_read_def block_respond_def
            BLOCK_SIZE_def)
    next
      case (Some b)
      with \<open>bs_read (inodes ! unat ino) s off = Some p\<close> p i show ?thesis
        by (simp add: block_read_def rpc_to_def Let_def block_proc_request block_do_read_def BLOCK_SIZE_def)
    qed
  qed
qed

lemma block_write_rpc:
  assumes "serves inodes ino"
  shows "block_write (rpc_to (block_proc inodes)) ino off b s =
    map_option (\<lambda>(r, s). (r \<ge> 0, s)) (bs_write (inodes ! unat ino) s off b)"
  using serves_ino [OF assms]
  by (cases "bs_write (inodes ! unat ino) s off b")
    (auto simp: block_write_def rpc_to_def Let_def block_proc_request block_do_write_def block_respond_def
      BLOCK_SIZE_def)

lemma block_getsize_rpc:
  assumes "serves inodes ino"
  shows "block_getsize (rpc_to (block_proc inodes)) ino s =
    map_option (\<lambda>(n, s). ((True, Some (word_of_int n)), s)) (bs_nblocks (inodes ! unat ino) s)"
  using serves_ino [OF assms]
  by (cases "bs_nblocks (inodes ! unat ino) s")
    (auto simp: block_getsize_def rpc_to_def Let_def block_proc_request block_do_getsize_def)

lemma block_setsize_rpc:
  assumes "serves inodes ino"
  shows "block_setsize (rpc_to (block_proc inodes)) ino n s =
    map_option (\<lambda>(r, s). (r \<ge> 0, s)) (bs_setsize (inodes ! unat ino) s n)"
  using serves_ino [OF assms]
  by (cases "bs_setsize (inodes ! unat ino) s n")
    (auto simp: block_setsize_def rpc_to_def Let_def block_proc_request block_do_setsize_def block_respond_def)

text \<open>A remote store keeps the contract of the store behind it.\<close>

locale served_store = block_store "inodes ! unat ino" ok img
  for inodes :: "'s block_store_t list" and ino :: u32 and ok img +
  assumes served: "serves inodes ino"

sublocale served_store \<subseteq> remote: block_store "protdisk_init (rpc_to (block_proc inodes)) ino" ok img
proof (unfold_locales, goal_cases)
  case (1 s)
  from nblocks_sim [OF 1] obtain t where
    "bs_nblocks (inodes ! unat ino) s = Some (int (length (img s)), t)" "ok t" "img t = img s"
    by (auto simp: sim_def img_nblocks_def)
  with img_small [OF 1] show ?case
    by (simp add: protdisk_nblocks_def block_getsize_rpc [OF served] sim_def img_nblocks_def
        sint32_small unat32_of_nat)
next
  case (2 s off)
  with read_sim [OF 2] show ?case by (simp add: protdisk_read_def block_read_rpc [OF served])
next
  case (3 s off b)
  show ?case
  proof (cases "unat off < length (img s)")
    case True
    with write_in [OF 3 True, of b] show ?thesis
      by (auto simp: protdisk_write_def block_write_rpc [OF served] sim_def img_write_def)
  next
    case False
    with write_out [OF 3 False, of b] show ?thesis
      by (auto simp: protdisk_write_def block_write_rpc [OF served] sim_def img_write_def)
  qed
qed (rule img_small)

context served_store
begin

lemma remote_store: "block_store (protdisk_init (rpc_to (block_proc inodes)) ino) ok img"
  by (rule remote.block_store_axioms)

end

interpretation served_ram: served_store "[ramdisk_store]" 0 ramdisk_ok ramdisk_img
  by (intro served_store.intro served_store_axioms.intro)
    (simp_all add: serves_def MAX_INODES_def ram.block_store_axioms)

section \<open>Properties\<close>

text \<open>C24: Calls to a block server are transparent: reading, writing and asking for the size through
  \<open>protdisk\<close>, that is by encoding a request, letting the server decode it, call its store and
  encode a reply, and decoding the reply, is the same as calling the store behind the inode
  directly, with the error values of the store reduced to \<open>-1\<close>. It stops the kernel only if the
  store itself does.\<close>
theorem protdisk_transparent:
  assumes "unat ino < length inodes" "length inodes \<le> MAX_INODES"
  shows "protdisk_read (rpc_to (block_proc inodes)) ino s off = bs_read (inodes ! unat ino) s off \<and>
    protdisk_write (rpc_to (block_proc inodes)) ino s off b =
      map_option (\<lambda>(r, s). (if r \<ge> 0 then 0 else - 1, s)) (bs_write (inodes ! unat ino) s off b) \<and>
    protdisk_nblocks (rpc_to (block_proc inodes)) ino s =
      map_option (\<lambda>(n, s). (sint (word_of_int n :: u32), s)) (bs_nblocks (inodes ! unat ino) s)"
proof -
  have served: "serves inodes ino" using assms by (simp add: serves_def)
  have "protdisk_write (rpc_to (block_proc inodes)) ino s off b =
      map_option (\<lambda>(r, s). (if r \<ge> 0 then 0 else - 1, s)) (bs_write (inodes ! unat ino) s off b)"
    by (cases "bs_write (inodes ! unat ino) s off b")
      (auto simp: protdisk_write_def block_write_rpc [OF served])
  moreover have "protdisk_nblocks (rpc_to (block_proc inodes)) ino s =
      map_option (\<lambda>(n, s). (sint (word_of_int n :: u32), s)) (bs_nblocks (inodes ! unat ino) s)"
    by (cases "bs_nblocks (inodes ! unat ino) s")
      (auto simp: protdisk_nblocks_def block_getsize_rpc [OF served])
  ultimately show ?thesis by (simp add: protdisk_read_def block_read_rpc [OF served])
qed

theorem protdisk_transparent_witness:
  "protdisk_read (rpc_to (block_proc [ramdisk_store])) 0 (ramdisk_init [7, 8] 2) 1 =
   Some (Some 8, ramdisk_init [7, 8] 2)"
  using protdisk_transparent [of 0 "[ramdisk_store]" "ramdisk_init [7, 8] 2" 1]
  by (simp add: MAX_INODES_def ramdisk_init_def ramdisk_read_def word_le_nat_alt)

end
