(* ===== verification/PhysSvr.thy ===== *)
theory PhysSvr
  imports BlockSvr
begin

text \<open>
  The physical block server (\<open>block_init("phys", below)\<close> in \<open>egos/grass/blocksvr.c\<close>): one disk,
  reached through a server below, cut into a paging partition (inode 0) and a file partition
  (inode 1). The two partitions share the state of the disk.
\<close>

definition PG_DEV_BLOCKS :: nat where
  "PG_DEV_BLOCKS = (1024 * 4096) div BLOCK_SIZE"

definition DISK_SIZE :: nat where
  "DISK_SIZE = 16 * 1024"

definition on_part :: "nat \<Rightarrow> (partdisk_state \<times> 's \<Rightarrow> ('a \<times> partdisk_state \<times> 's) option) \<Rightarrow>
    partdisk_state list \<times> 's \<Rightarrow> ('a \<times> partdisk_state list \<times> 's) option" where
  "on_part i f = (\<lambda>(ps, s). do { (r, p, s) \<leftarrow> f (ps ! i, s); Some (r, ps[i := p], s) })"

definition part_inode :: "'s block_store_t \<Rightarrow> nat \<Rightarrow> (partdisk_state list \<times> 's) block_store_t" where
  "part_inode below i = \<lparr>bs_nblocks = on_part i partdisk_nblocks,
     bs_read = (\<lambda>s offset. on_part i (\<lambda>s. partdisk_read below s offset) s),
     bs_write = (\<lambda>s offset block. on_part i (\<lambda>s. partdisk_write below s offset block) s),
     bs_setsize = (\<lambda>s nblocks. on_part i (\<lambda>s. partdisk_setsize s nblocks) s)\<rparr>"

text \<open>The array of inodes and the state of its partitions; \<open>physdisk\<close> is \<open>protdisk_init below 0\<close>.\<close>

definition block_init_phys :: "'s block_store_t \<Rightarrow>
    (partdisk_state list \<times> 's) block_store_t list \<times> partdisk_state list" where
  "block_init_phys physdisk = ([part_inode physdisk 0, part_inode physdisk 1],
     [partdisk_init 0 (of_nat PG_DEV_BLOCKS),
      partdisk_init (of_nat PG_DEV_BLOCKS) (of_nat (DISK_SIZE - PG_DEV_BLOCKS))])"

definition disjoint_parts :: "partdisk_state \<Rightarrow> partdisk_state \<Rightarrow> bool" where
  "disjoint_parts p q \<longleftrightarrow> unat (ps_delta p) + unat (ps_nblocks p) \<le> unat (ps_delta q) \<or>
     unat (ps_delta q) + unat (ps_nblocks q) \<le> unat (ps_delta p)"

definition phys_ok :: "('s \<Rightarrow> bool) \<Rightarrow> ('s \<Rightarrow> block list) \<Rightarrow> partdisk_state list \<times> 's \<Rightarrow> bool" where
  "phys_ok ok img = (\<lambda>(ps, s). length ps = 2 \<and> part_ok ok img (ps ! 0, s) \<and> part_ok ok img (ps ! 1, s) \<and>
     disjoint_parts (ps ! 0) (ps ! 1))"

text \<open>What the requests other than \<open>BLOCK_SETSIZE\<close> do to the partition they do not name.\<close>

locale phys_on = partdisk_on
begin

lemma on_part_keeps:
  assumes "phys_ok ok img (ps, s)" "i < 2" "j < 2" "j \<noteq> i"
    and "on_part i f (ps, s) = Some (r, ps', s')"
    and "\<And>r p' s'. f (ps ! i, s) = Some (r, p', s') \<Longrightarrow> p' = ps ! i \<and>
      part_ok ok img (ps ! i, s') \<and> part_ok ok img (ps ! j, s') \<and> part_img img (ps ! j, s') = part_img img (ps ! j, s)"
  shows "phys_ok ok img (ps', s') \<and> part_img img (ps' ! j, s') = part_img img (ps ! j, s)"
proof -
  from assms(5) obtain p' where f: "f (ps ! i, s) = Some (r, p', s')" "ps' = ps[i := p']"
    by (auto simp: on_part_def split: bind_splits)
  from assms(6) [OF f(1)] f(2) assms(1-4) show ?thesis
    by (auto simp: phys_ok_def less_2_cases_iff)
qed

lemma parts:
  assumes "phys_ok ok img (ps, s)" "i < 2" "j < 2" "j \<noteq> i"
  shows "part_ok ok img (ps ! i, s)" "part_ok ok img (ps ! j, s)" "disjoint_parts (ps ! i) (ps ! j)"
  using assms by (auto simp: phys_ok_def less_2_cases_iff disjoint_parts_def)

lemma part_other:
  "part_ok ok img (p, s') \<longleftrightarrow> ok s' \<and> unat (ps_delta p) + unat (ps_nblocks p) \<le> length (img s')"
  "img s' = img s \<Longrightarrow> part_img img (p, s') = part_img img (p, s)"
  by (simp_all add: part_ok_def part_img_def)

lemma inode_read:
  assumes "phys_ok ok img (ps, s)" "i < 2" "j < 2" "j \<noteq> i"
    "bs_read (part_inode bs i) (ps, s) off = Some (r, ps', s')"
  shows "phys_ok ok img (ps', s') \<and> part_img img (ps' ! j, s') = part_img img (ps ! j, s)"
proof (rule on_part_keeps [OF assms(1-4)])
  show "on_part i (\<lambda>s. partdisk_read bs s off) (ps, s) = Some (r, ps', s')"
    using assms(5) by (simp add: part_inode_def)
  fix r p' s' assume r: "partdisk_read bs (ps ! i, s) off = Some (r, p', s')"
  note p = parts [OF assms(1-4)]
  have "ok s' \<and> img s' = img s \<and> p' = ps ! i"
  proof (cases "off \<ge> ps_nblocks (ps ! i)")
    case True
    with r p(1) show ?thesis by (simp add: part_other(1))
  next
    case False
    then have lt: "unat off < unat (ps_nblocks (ps ! i))" by (simp add: word_le_nat_alt)
    from p(1) have "ok s" by (simp add: part_other(1))
    from read_in [OF this, of "ps_delta (ps ! i) + off"] part_offset [OF p(1) lt] obtain v t where
      t: "bs_read bs s (ps_delta (ps ! i) + off) = Some (v, t)" "ok t" "img t = img s" by auto
    have "partdisk_read bs (ps ! i, s) off = Some (v, ps ! i, t)" using False t(1) by simp
    from trans [OF sym [OF this] r] have "s' = t \<and> p' = ps ! i" by blast
    with t(2,3) show ?thesis by blast
  qed
  with p show "p' = ps ! i \<and> part_ok ok img (ps ! i, s') \<and> part_ok ok img (ps ! j, s') \<and>
      part_img img (ps ! j, s') = part_img img (ps ! j, s)"
    by (simp add: part_other(1) part_other(2) [of s' s])
qed

lemma inode_write:
  assumes "phys_ok ok img (ps, s)" "i < 2" "j < 2" "j \<noteq> i"
    "bs_write (part_inode bs i) (ps, s) off b = Some (r, ps', s')"
  shows "phys_ok ok img (ps', s') \<and> part_img img (ps' ! j, s') = part_img img (ps ! j, s)"
proof (rule on_part_keeps [OF assms(1-4)])
  show "on_part i (\<lambda>s. partdisk_write bs s off b) (ps, s) = Some (r, ps', s')"
    using assms(5) by (simp add: part_inode_def)
  fix r p' s' assume w: "partdisk_write bs (ps ! i, s) off b = Some (r, p', s')"
  note p = parts [OF assms(1-4)]
  have "p' = ps ! i" using w by (auto split: if_splits bind_splits)
  moreover have "part_ok ok img (ps ! i, s')"
    using part_write [OF p(1), of off b] w \<open>p' = ps ! i\<close> by (auto simp: sim_def split: option.splits)
  ultimately show "p' = ps ! i \<and> part_ok ok img (ps ! i, s') \<and> part_ok ok img (ps ! j, s') \<and>
      part_img img (ps ! j, s') = part_img img (ps ! j, s)"
    using part_isolated [OF p(1,2) p(3) [unfolded disjoint_parts_def] w] by simp
qed

lemma inode_nblocks:
  assumes "bs_nblocks (part_inode bs i) (ps, s) = Some (r, ps', s')"
  shows "ps' = ps \<and> s' = s"
  using assms by (auto simp: part_inode_def on_part_def)

lemma phys_inode_cases:
  assumes "\<not> length (fst (block_init_phys bs)) \<le> unat ino"
  shows "unat ino < 2 \<and> fst (block_init_phys bs) ! unat ino = part_inode bs (unat ino)"
proof -
  from assms have "unat ino < 2" by (simp add: block_init_phys_def)
  then have "unat ino = 0 \<or> unat ino = 1" by linarith
  then show ?thesis by (auto simp: block_init_phys_def)
qed

lemma phys_request:
  assumes "phys_ok ok img (ps, s)" "block_proc (fst (block_init_phys bs)) msg (ps, s) = Some (rep, ps', s')"
    "get32 msg 0 \<noteq> 4" "j < 2" "j \<noteq> unat (get32 msg 4)"
  shows "phys_ok ok img (ps', s') \<and> part_img img (ps' ! j, s') = part_img img (ps ! j, s)"
proof -
  let ?ino = "get32 msg 4" and ?is = "fst (block_init_phys bs)" and ?off = "get32 msg 8"
  let ?d = "drop 12 (take 4104 msg)" and ?n = "(min (length msg) 4104 - 12) div BLOCK_SIZE"
  have r: "get32 (take 4104 msg) 0 = get32 msg 0" "get32 (take 4104 msg) 4 = ?ino"
    "get32 (take 4104 msg) 8 = ?off" by (simp_all add: get32_take)
  have "block_do_read ?is ?ino ?off (ps, s) = Some (rep, ps', s') \<or>
      block_do_write ?is ?ino ?off ?d ?n (ps, s) = Some (rep, ps', s') \<or>
      block_do_getsize ?is ?ino (ps, s) = Some (rep, ps', s')"
    using assms(2,3) by (auto simp: block_proc_def Let_def num_block_type_def r split: if_splits)
  then show ?thesis
  proof (elim disjE)
    assume h: "block_do_read ?is ?ino ?off (ps, s) = Some (rep, ps', s')"
    show ?thesis
    proof (cases "MAX_INODES \<le> unat ?ino \<or> length ?is \<le> unat ?ino")
      case True
      with h assms(1) show ?thesis by (auto simp: block_do_read_def split: if_splits)
    next
      case False
      with h obtain r where "bs_read (?is ! unat ?ino) (ps, s) ?off = Some (r, ps', s')"
        by (auto simp: block_do_read_def split: bind_splits option.splits)
      with False phys_inode_cases [of ?ino] inode_read [OF assms(1) _ assms(4,5)] show ?thesis by auto
    qed
  next
    assume h: "block_do_write ?is ?ino ?off ?d ?n (ps, s) = Some (rep, ps', s')"
    show ?thesis
    proof (cases "MAX_INODES \<le> unat ?ino \<or> ?n \<noteq> 1 \<or> length ?is \<le> unat ?ino")
      case True
      with h assms(1) show ?thesis by (auto simp: block_do_write_def split: if_splits)
    next
      case False
      with h obtain r b where "bs_write (?is ! unat ?ino) (ps, s) ?off b = Some (r, ps', s')"
        by (auto simp: block_do_write_def split: bind_splits if_splits)
      with False phys_inode_cases [of ?ino] inode_write [OF assms(1) _ assms(4,5)] show ?thesis by auto
    qed
  next
    assume h: "block_do_getsize ?is ?ino (ps, s) = Some (rep, ps', s')"
    show ?thesis
    proof (cases "MAX_INODES \<le> unat ?ino \<or> length ?is \<le> unat ?ino")
      case True
      with h assms(1) show ?thesis by (auto simp: block_do_getsize_def split: if_splits)
    next
      case False
      with h obtain r where "bs_nblocks (?is ! unat ?ino) (ps, s) = Some (r, ps', s')"
        by (auto simp: block_do_getsize_def split: bind_splits)
      then have "bs_nblocks (part_inode bs (unat ?ino)) (ps, s) = Some (r, ps', s')"
        using False phys_inode_cases [of ?ino] by simp
      from inode_nblocks [OF this] assms(1) show ?thesis by simp
    qed
  qed
qed

end

text \<open>Each partition, behind its inode, keeps the contract of block stores.\<close>

definition part_view :: "('s \<Rightarrow> block list) \<Rightarrow> nat \<Rightarrow> partdisk_state list \<times> 's \<Rightarrow> block list" where
  "part_view img i = (\<lambda>(ps, s). part_img img (ps ! i, s))"

context phys_on
begin

lemma on_part_sim:
  assumes "phys_ok ok img (ps, s)" "i < 2" "sim (part_ok ok img) (part_img img) (f (ps ! i, s)) m"
    and "\<And>r ps' s'. on_part i f (ps, s) = Some (r, ps', s') \<Longrightarrow> phys_ok ok img (ps', s')"
  shows "sim (phys_ok ok img) (part_view img i) (on_part i f (ps, s)) m"
  using assms by (auto simp: sim_def on_part_def part_view_def phys_ok_def split: option.splits)

lemma part_inode_contract:
  assumes "i < 2"
  shows "block_store (part_inode bs i) (phys_ok ok img) (part_view img i)"
proof (unfold_locales, goal_cases)
  have j: "1 - i < 2" "1 - i \<noteq> i" using assms by arith+
  case (1 st)
  obtain ps s where st: "st = (ps, s)" by (cases st)
  note p = parts [OF 1 [unfolded st] assms, of "1 - i"]
  have "sim (part_ok ok img) (part_img img) (partdisk_nblocks (ps ! i, s)) (img_nblocks (part_img img (ps ! i, s)))"
    using part.nblocks_sim [OF p(1) [OF j]] by (simp del: partdisk_nblocks.simps)
  from on_part_sim [where f = partdisk_nblocks, OF 1 [unfolded st] assms this] 1 inode_nblocks [of i ps s] show ?case unfolding st
    by (auto simp: part_inode_def part_view_def simp del: partdisk_nblocks.simps)
next
  have j: "1 - i < 2" "1 - i \<noteq> i" using assms by arith+
  case (2 st off)
  obtain ps s where st: "st = (ps, s)" by (cases st)
  note p = parts [OF 2 [unfolded st] assms, of "1 - i"]
  from on_part_sim [where f = "\<lambda>s. partdisk_read bs s off", OF 2 [unfolded st] assms part_read [OF p(1) [OF j]]]
    inode_read [OF 2 [unfolded st] assms j, of off] show ?case unfolding st
    by (auto simp: part_inode_def part_view_def simp del: partdisk_read.simps)
next
  have j: "1 - i < 2" "1 - i \<noteq> i" using assms by arith+
  case (3 st off b)
  obtain ps s where st: "st = (ps, s)" by (cases st)
  note p = parts [OF 3 [unfolded st] assms, of "1 - i"]
  from on_part_sim [where f = "\<lambda>s. partdisk_write bs s off b", OF 3 [unfolded st] assms part_write [OF p(1) [OF j]]]
    inode_write [OF 3 [unfolded st] assms j, of off b] show ?case unfolding st
    by (auto simp: part_inode_def part_view_def simp del: partdisk_write.simps)
next
  have j: "1 - i < 2" "1 - i \<noteq> i" using assms by arith+
  case (4 st)
  obtain ps s where st: "st = (ps, s)" by (cases st)
  note p = parts [OF 4 [unfolded st] assms, of "1 - i"]
  from part.img_small [OF p(1) [OF j]] show ?case by (simp add: st part_view_def)
qed

text \<open>The server on top of it, as its clients see it through \<open>protdisk\<close>.\<close>

lemma served_part: "i < 2 \<Longrightarrow> served_store (fst (block_init_phys bs)) (of_nat i) (phys_ok ok img) (part_view img i)"
  using part_inode_contract [of i]
  by (auto simp: served_store_def served_store_axioms_def block_init_phys_def serves_def MAX_INODES_def less_2_cases_iff)

end

sublocale phys_on \<subseteq> file_part: served_store "fst (block_init_phys bs)" 1 "phys_ok ok img" "part_view img 1"
  using served_part [of 1] by simp

interpretation ram_phys: phys_on ramdisk_store ramdisk_ok ramdisk_img
  by unfold_locales

section \<open>Properties\<close>



text \<open>A \<open>BLOCK_SETSIZE\<close> request breaks the separation of the partitions: on a freshly
  initialised physical block server, two requests to the paging inode, one that sets its size to
  the whole disk and one that writes block \<open>PG_DEV_BLOCKS\<close>, overwrite the first block of the file
  partition. No check stands in the way.\<close>
theorem phys_setsize_overlap:
  assumes "block_store below ok img" "ok s" "length (img s) = DISK_SIZE"
    and "(inodes, ps) = block_init_phys below"
  shows "\<exists>rep ps1 s1 rep' ps2 s2. block_proc inodes (block_request BLOCK_SETSIZE 0 16384 []) (ps, s) = Some (rep, ps1, s1) \<and>
    block_proc inodes (block_request BLOCK_WRITE 0 4096 (block_bytes b)) (ps1, s1) = Some (rep', ps2, s2) \<and>
    part_img img (ps ! 1, s2) ! 0 = b"
proof -
  from assms(4) have inodes: "inodes = [part_inode below 0, part_inode below 1]"
    and ps: "ps = [partdisk_init 0 4096, partdisk_init 4096 12288]"
    by (simp_all add: block_init_phys_def PG_DEV_BLOCKS_def DISK_SIZE_def BLOCK_SIZE_def)
  let ?ps1 = "[partdisk_init 0 16384, partdisk_init 4096 12288]"
  have "block_proc inodes (block_request BLOCK_SETSIZE 0 16384 []) (ps, s) = Some (block_respond BLOCK_OK [], ?ps1, s)"
    by (simp add: block_proc_request block_do_setsize_def inodes ps MAX_INODES_def part_inode_def on_part_def
        partdisk_init_def sint32_small)
  moreover from block_store.write_in [OF assms(1,2), of 4096 b] assms(3) obtain s2 where
    w: "bs_write below s 4096 b = Some (0, s2)" "img s2 = (img s)[4096 := b]"
    by (auto simp: DISK_SIZE_def)
  then have "block_proc inodes (block_request BLOCK_WRITE 0 4096 (block_bytes b)) (?ps1, s) =
      Some (block_respond BLOCK_OK [], ?ps1, s2)"
    by (simp add: block_proc_request block_do_write_def inodes MAX_INODES_def part_inode_def on_part_def
        partdisk_init_def BLOCK_SIZE_def word_le_nat_alt)
  moreover have "part_img img (ps ! 1, s2) ! 0 = b"
    using w(2) assms(3) by (simp add: ps part_img_def partdisk_init_def DISK_SIZE_def)
  ultimately show ?thesis by blast
qed

theorem phys_setsize_overlap_witness:
  "\<exists>rep ps1 s1 rep' ps2 s2. block_proc (fst (block_init_phys ramdisk_store)) (block_request BLOCK_SETSIZE 0 16384 [])
      (snd (block_init_phys ramdisk_store), ramdisk_init (replicate 16384 0) 16384) = Some (rep, ps1, s1) \<and>
    block_proc (fst (block_init_phys ramdisk_store)) (block_request BLOCK_WRITE 0 4096 (block_bytes 5)) (ps1, s1) =
      Some (rep', ps2, s2) \<and>
    part_img ramdisk_img (snd (block_init_phys ramdisk_store) ! 1, s2) ! 0 = 5"
  by (rule phys_setsize_overlap [OF ram.block_store_axioms])
    (simp_all add: ramdisk_ok_def ramdisk_img_def ramdisk_init_def DISK_SIZE_def)

end
