(* ===== verification/FileSvr.thy ===== *)
theory FileSvr
  imports BlockSvr
begin

text \<open>
  Requests and replies of the file servers and their clients (\<open>egos/shared/file.h\<close>,
  \<open>egos/shared/file.c\<close>), and the permission checks the two servers share. The headers of messages
  are records, the data that follows them is a list of bytes. A server may send several replies
  to one request (theory \<open>BlkFileSvr\<close>); \<open>file_rpc_to\<close> is a client that gets the first of them.
\<close>

section \<open>Messages\<close>

datatype file_op = FILE_UNUSED | FILE_CREATE | FILE_CHOWN | FILE_CHMOD | FILE_READ | FILE_WRITE | FILE_STAT
  | FILE_SETSIZE | FILE_DELETE | FILE_SET_FLAGS

datatype file_status = FILE_OK | FILE_ERROR

record file_stat =
  st_alloc :: bool
  st_size :: u64
  st_uid :: u32
  st_mode :: u32

record file_request =
  fq_type :: file_op
  fq_ino :: u32
  fq_offset :: u64
  fq_size :: u32
  fq_uid :: u32
  fq_mode :: u32

record file_reply =
  fp_status :: file_status
  fp_ino :: u32
  fp_op :: file_op
  fp_stat :: file_stat

definition zero_stat :: file_stat where
  "zero_stat = \<lparr>st_alloc = False, st_size = 0, st_uid = 0, st_mode = 0\<rparr>"

definition zero_request :: "file_op \<Rightarrow> u32 \<Rightarrow> file_request" where
  "zero_request t ino = \<lparr>fq_type = t, fq_ino = ino, fq_offset = 0, fq_size = 0, fq_uid = 0, fq_mode = 0\<rparr>"

definition zero_reply :: "file_status \<Rightarrow> file_reply" where
  "zero_reply status = \<lparr>fp_status = status, fp_ino = 0, fp_op = FILE_UNUSED, fp_stat = zero_stat\<rparr>"

type_synonym fmsg = "file_request \<times> u8 list"
type_synonym freply = "file_reply \<times> u8 list"

section \<open>Permissions\<close>

definition P_FILE_OTHER_READ :: u32 where "P_FILE_OTHER_READ = 0x1"
definition P_FILE_OTHER_WRITE :: u32 where "P_FILE_OTHER_WRITE = 0x2"
definition P_FILE_OWNER_READ :: u32 where "P_FILE_OWNER_READ = 0x4"
definition P_FILE_OWNER_WRITE :: u32 where "P_FILE_OWNER_WRITE = 0x8"

definition P_FILE_DEFAULT :: u32 where
  "P_FILE_DEFAULT = (P_FILE_OWNER_READ OR P_FILE_OWNER_WRITE OR P_FILE_OTHER_READ)"

definition P_FILE_ALL :: u32 where
  "P_FILE_ALL = (P_FILE_OWNER_READ OR P_FILE_OWNER_WRITE OR P_FILE_OTHER_READ OR P_FILE_OTHER_WRITE)"

text \<open>
  The argument \<open>uid\<close> is the user of the process that sent the request. In the handlers it is
  \<open>proc_find(src)->uid\<close>, which stops the kernel when the process is gone.
\<close>

definition read_allowed :: "file_stat \<Rightarrow> u32 \<Rightarrow> bool" where
  "read_allowed stat uid =
     (if uid = 0 then True
      else if uid = st_uid stat then st_mode stat AND P_FILE_OWNER_READ \<noteq> 0
      else st_mode stat AND P_FILE_OTHER_READ \<noteq> 0)"

definition write_allowed :: "file_stat \<Rightarrow> u32 \<Rightarrow> bool" where
  "write_allowed stat uid =
     (if uid = 0 then True
      else if uid = st_uid stat then st_mode stat AND P_FILE_OWNER_WRITE \<noteq> 0
      else st_mode stat AND P_FILE_OTHER_WRITE \<noteq> 0)"

section \<open>Clients\<close>

text \<open>
  \<open>sys_rpc\<close> for a request: the reply, or \<open>None\<close> when it returns less than a header. The number is
  the room for data behind the header of the reply.
\<close>

type_synonym 's file_rpc = "fmsg \<Rightarrow> nat \<Rightarrow> 's \<Rightarrow> (freply option \<times> 's) option"

definition file_rpc_to :: "(fmsg \<Rightarrow> 's \<Rightarrow> (freply list \<times> 's) option) \<Rightarrow> 's file_rpc" where
  "file_rpc_to server msg room s = do {
     (reps, s) \<leftarrow> server msg s;
     Some (case reps of [] \<Rightarrow> None | (rep, data) # _ \<Rightarrow> Some (rep, take room data), s) }"

definition file_create :: "'s file_rpc \<Rightarrow> u32 \<Rightarrow> 's \<Rightarrow> ((bool \<times> u32 option) \<times> 's) option" where
  "file_create rpc mode s = do {
     (r, s) \<leftarrow> rpc ((zero_request FILE_CREATE 0)\<lparr>fq_mode := mode\<rparr>, []) 0 s;
     Some (case r of None \<Rightarrow> (False, None) | Some (rep, _) \<Rightarrow> (fp_status rep = FILE_OK, Some (fp_ino rep)), s) }"

definition file_status_call :: "'s file_rpc \<Rightarrow> fmsg \<Rightarrow> 's \<Rightarrow> (bool \<times> 's) option" where
  "file_status_call rpc msg s = do {
     (r, s) \<leftarrow> rpc msg 0 s;
     Some (case r of None \<Rightarrow> False | Some (rep, _) \<Rightarrow> fp_status rep = FILE_OK, s) }"

definition file_chown :: "'s file_rpc \<Rightarrow> u32 \<Rightarrow> u32 \<Rightarrow> 's \<Rightarrow> (bool \<times> 's) option" where
  "file_chown rpc ino uid = file_status_call rpc ((zero_request FILE_CHOWN ino)\<lparr>fq_uid := uid\<rparr>, [])"

definition file_chmod :: "'s file_rpc \<Rightarrow> u32 \<Rightarrow> u32 \<Rightarrow> 's \<Rightarrow> (bool \<times> 's) option" where
  "file_chmod rpc ino mode = file_status_call rpc ((zero_request FILE_CHMOD ino)\<lparr>fq_mode := mode\<rparr>, [])"

definition file_read :: "'s file_rpc \<Rightarrow> u32 \<Rightarrow> u64 \<Rightarrow> nat \<Rightarrow> 's \<Rightarrow> (u8 list option \<times> 's) option" where
  "file_read rpc ino offset psize s = do {
     (r, s) \<leftarrow> rpc ((zero_request FILE_READ ino)\<lparr>fq_offset := offset, fq_size := of_nat psize\<rparr>, []) psize s;
     Some (case r of None \<Rightarrow> None
       | Some (rep, data) \<Rightarrow> if fp_status rep \<noteq> FILE_OK then None else Some data, s) }"

definition file_write :: "'s file_rpc \<Rightarrow> u32 \<Rightarrow> u64 \<Rightarrow> u8 list \<Rightarrow> 's \<Rightarrow> (bool \<times> 's) option" where
  "file_write rpc ino offset data = file_status_call rpc
     ((zero_request FILE_WRITE ino)\<lparr>fq_offset := offset, fq_size := of_nat (length data)\<rparr>, data)"

definition file_stat_of :: "'s file_rpc \<Rightarrow> u32 \<Rightarrow> 's \<Rightarrow> ((bool \<times> file_stat option) \<times> 's) option" where
  "file_stat_of rpc ino s = do {
     (r, s) \<leftarrow> rpc (zero_request FILE_STAT ino, []) 0 s;
     Some (case r of None \<Rightarrow> (False, None) | Some (rep, _) \<Rightarrow> (fp_status rep = FILE_OK, Some (fp_stat rep)), s) }"

definition file_setsize :: "'s file_rpc \<Rightarrow> u32 \<Rightarrow> u64 \<Rightarrow> 's \<Rightarrow> (bool \<times> 's) option" where
  "file_setsize rpc ino sz = file_status_call rpc ((zero_request FILE_SETSIZE ino)\<lparr>fq_offset := sz\<rparr>, [])"

definition file_delete :: "'s file_rpc \<Rightarrow> u32 \<Rightarrow> 's \<Rightarrow> (bool \<times> 's) option" where
  "file_delete rpc ino = file_status_call rpc (zero_request FILE_DELETE ino, [])"

definition file_set_flags :: "'s file_rpc \<Rightarrow> u32 \<Rightarrow> u64 \<Rightarrow> 's \<Rightarrow> (bool \<times> 's) option" where
  "file_set_flags rpc ino flags = file_status_call rpc ((zero_request FILE_SET_FLAGS ino)\<lparr>fq_offset := flags\<rparr>, [])"

definition file_exist :: "'s file_rpc \<Rightarrow> u32 \<Rightarrow> 's \<Rightarrow> (bool \<times> 's) option" where
  "file_exist rpc ino s = do { (r, s) \<leftarrow> file_read rpc ino 0 0 s; Some (r \<noteq> None, s) }"

section \<open>Byte ranges\<close>

text \<open>What a read of \<open>n\<close> bytes returns, and what a write leaves; the gap, if any, holds \<open>gap\<close>.\<close>

definition range_read :: "nat \<Rightarrow> nat \<Rightarrow> 'a list \<Rightarrow> 'a list" where
  "range_read off n xs = take n (drop off xs)"

definition range_write :: "nat \<Rightarrow> 'a list \<Rightarrow> 'a list \<Rightarrow> 'a list" where
  "range_write off ys xs = take off xs @ ys @ drop (off + length ys) xs"

lemma length_range_write: "off \<le> length xs \<Longrightarrow> length (range_write off ys xs) = max (length xs) (off + length ys)"
  by (simp add: range_write_def)

lemma range_read_write: "off \<le> length xs \<Longrightarrow> range_read off (length ys) (range_write off ys xs) = ys"
  by (simp add: range_read_def range_write_def)

lemma nth_range_write:
  "off \<le> length xs \<Longrightarrow> i < length (range_write off ys xs) \<Longrightarrow>
     range_write off ys xs ! i = (if off \<le> i \<and> i < off + length ys then ys ! (i - off) else xs ! i)"
  by (auto simp: range_write_def nth_append)

section \<open>The contract of file servers\<close>

text \<open>
  What a client with the rights it needs may rely on. \<open>contents s ino\<close> are the bytes of the file, \<open>None\<close>
  when there is none. Messages carry at most a page of data.
\<close>

locale file_store =
  fixes rpc :: "'s file_rpc" and ok :: "'s \<Rightarrow> bool" and contents :: "'s \<Rightarrow> u32 \<Rightarrow> u8 list option"
  assumes read_law: "ok s \<Longrightarrow> contents s ino = Some xs \<Longrightarrow> length xs < 4294967296 \<Longrightarrow> n \<le> 4096 \<Longrightarrow>
      \<exists>s'. file_read rpc ino off n s = Some (Some (range_read (unat off) n xs), s') \<and> ok s' \<and> contents s' = contents s"
    and write_law: "ok s \<Longrightarrow> contents s ino = Some xs \<Longrightarrow> length xs < 4294967296 \<Longrightarrow> unat off \<le> length xs \<Longrightarrow>
      length data \<le> 4096 \<Longrightarrow> file_write rpc ino off data s = Some (r, s') \<Longrightarrow>
      r \<and> ok s' \<and> contents s' = (contents s)(ino \<mapsto> range_write (unat off) data xs)"
begin

lemma read_after_write:
  assumes "ok s" "contents s ino = Some xs" "length xs + length data < 4294967296" "unat off \<le> length xs"
    "length data \<le> 4096" "file_write rpc ino off data s = Some (r, s')"
  shows "\<exists>s''. file_read rpc ino off (length data) s' = Some (Some data, s'')"
proof -
  have xs: "length xs < 4294967296" using assms(3) by simp
  from write_law [OF assms(1,2) xs assms(4-6)] have
    s': "ok s'" "contents s' ino = Some (range_write (unat off) data xs)" by auto
  have "length (range_write (unat off) data xs) < 4294967296"
    using assms(3,4) by (simp add: length_range_write)
  from read_law [OF s' this assms(5), of off] assms(4) show ?thesis by (auto simp: range_read_write)
qed

end

end
