(* ===== verification/BlkFileSvr.thy ===== *)
theory BlkFileSvr
  imports FileSvr
begin

text \<open>
  The file server on a block server (\<open>egos/grass/blkfilesvr.c\<close>): file \<open>ino\<close> is inode \<open>ino\<close> of the block
  server, its attributes are in an array kept in inode 0. The state is the array \<open>stat_cache\<close> and the
  state of the block server below, which the server calls through \<open>rpc\<close>. \<open>user\<close> is the user of the
  process that sent the request, \<open>None\<close> when it is gone. The result of a handler is the list of
  replies it sends.
\<close>

section \<open>Several blocks\<close>

fun read_blocks :: "nat \<Rightarrow> 'd rpc \<Rightarrow> u32 \<Rightarrow> u32 \<Rightarrow> 'd \<Rightarrow> (u8 list \<times> 'd) option" where
  "read_blocks 0 rpc ino offset d = Some ([], d)"
| "read_blocks (Suc n) rpc ino offset d = do {
     (r, d) \<leftarrow> block_read rpc ino offset d;
     (case r of
        None \<Rightarrow> Some ([], d)
      | Some b \<Rightarrow> do { (bs, d) \<leftarrow> read_blocks n rpc ino (offset + 1) d; Some (block_bytes b @ bs, d) }) }"

text \<open>The bytes read are a multiple of the block size, of which \<open>*p_nblocks\<close> counts the blocks.\<close>

definition multiblock_read :: "'d rpc \<Rightarrow> u32 \<Rightarrow> u32 \<Rightarrow> nat \<Rightarrow> 'd \<Rightarrow> (u8 list option \<times> 'd) option" where
  "multiblock_read rpc ino offset nblocks d = do {
     (bs, d) \<leftarrow> read_blocks nblocks rpc ino offset d;
     Some (if bs = [] \<and> nblocks \<noteq> 0 then None else Some bs, d) }"

fun multiblock_write :: "nat \<Rightarrow> 'd rpc \<Rightarrow> u32 \<Rightarrow> u32 \<Rightarrow> u8 list \<Rightarrow> 'd \<Rightarrow> (bool \<times> 'd) option" where
  "multiblock_write 0 rpc ino offset bs d = Some (True, d)"
| "multiblock_write (Suc n) rpc ino offset bs d = do {
     (r, d) \<leftarrow> block_write rpc ino offset (bytes_block (take BLOCK_SIZE bs)) d;
     if \<not> r then Some (False, d)
     else multiblock_write n rpc ino (offset + 1) (drop BLOCK_SIZE bs) d }"

section \<open>The attributes\<close>

text \<open>A \<open>struct file_stat\<close> has 24 bytes, with padding after \<open>st_alloc\<close>.\<close>

definition stat_bytes :: "file_stat \<Rightarrow> u8 list" where
  "stat_bytes st = le32 (if st_alloc st then 1 else 0) @ [0, 0, 0, 0] @ le64 (st_size st) @
     le32 (st_uid st) @ le32 (st_mode st)"

definition bytes_stat :: "u8 list \<Rightarrow> file_stat" where
  "bytes_stat bs = \<lparr>st_alloc = (get32 bs 0 \<noteq> 0), st_size = get64 bs 8, st_uid = get32 bs 16, st_mode = get32 bs 20\<rparr>"

definition SIZEOF_STAT :: nat where
  "SIZEOF_STAT = 24"

definition STATS_PER_BLOCK :: nat where
  "STATS_PER_BLOCK = BLOCK_SIZE div SIZEOF_STAT"

fun cache_bytes :: "file_stat list \<Rightarrow> u8 list" where
  "cache_bytes [] = []"
| "cache_bytes (st # sts) = stat_bytes st @ cache_bytes sts"

fun bytes_cache :: "nat \<Rightarrow> u8 list \<Rightarrow> file_stat list" where
  "bytes_cache 0 bs = []"
| "bytes_cache (Suc n) bs = bytes_stat (take SIZEOF_STAT bs) # bytes_cache n (drop SIZEOF_STAT bs)"

type_synonym 'd blkfiles = "file_stat list \<times> 'd"

definition CACHE_BLOCKS :: nat where
  "CACHE_BLOCKS = (MAX_INODES * SIZEOF_STAT - 1) div BLOCK_SIZE + 1"

text \<open>A failure of \<open>flush_stat_cache\<close> is only printed.\<close>

definition flush_stat_cache :: "'d rpc \<Rightarrow> 'd blkfiles \<Rightarrow> 'd blkfiles option" where
  "flush_stat_cache rpc = (\<lambda>(cache, d). do {
     (_, d) \<leftarrow> multiblock_write CACHE_BLOCKS rpc 0 0 (cache_bytes cache) d;
     Some (cache, d) })"

text \<open>The bytes that a short read does not fill are the zeros of the allocation.\<close>

definition load_stat_cache :: "'d rpc \<Rightarrow> 'd \<Rightarrow> (file_stat list option \<times> 'd) option" where
  "load_stat_cache rpc d = do {
     ((_, psize), d) \<leftarrow> block_getsize rpc 0 d;
     let nblocks = (case psize of None \<Rightarrow> 0 | Some n \<Rightarrow> unat n);
     if nblocks = 0 then Some (None, d)
     else if nblocks \<noteq> CACHE_BLOCKS then Some (None, d)
     else do {
       (bs, d) \<leftarrow> read_blocks CACHE_BLOCKS rpc 0 0 d;
       Some (Some (bytes_cache MAX_INODES (take (MAX_INODES * SIZEOF_STAT) (bs @ replicate (MAX_INODES * SIZEOF_STAT) 0))), d) } }"

text \<open>The start of \<open>blkfile_proc\<close>.\<close>

definition blkfile_start :: "'d rpc \<Rightarrow> 'd \<Rightarrow> 'd blkfiles option" where
  "blkfile_start rpc d = do {
     (r, d) \<leftarrow> load_stat_cache rpc d;
     (case r of
        Some cache \<Rightarrow> Some (cache, d)
      | None \<Rightarrow> flush_stat_cache rpc ((replicate MAX_INODES zero_stat)
          [0 := zero_stat\<lparr>st_alloc := True, st_size := of_nat (MAX_INODES div STATS_PER_BLOCK)\<rparr>], d)) }"

definition blkfile_respond :: "file_status \<Rightarrow> freply" where
  "blkfile_respond status = (zero_reply status, [])"

section \<open>Handlers\<close>

fun free_stat :: "nat \<Rightarrow> file_stat list \<Rightarrow> nat" where
  "free_stat i [] = i"
| "free_stat i (st # sts) = (if \<not> st_alloc st then i else free_stat (i + 1) sts)"

definition blkfile_do_create :: "'d rpc \<Rightarrow> u32 option \<Rightarrow> file_request \<Rightarrow> 'd blkfiles \<Rightarrow> (freply list \<times> 'd blkfiles) option" where
  "blkfile_do_create rpc user req = (\<lambda>(cache, d). let ino = free_stat 1 (tl cache) in
     if ino = MAX_INODES then Some ([blkfile_respond FILE_ERROR], cache, d)
     else (case user of
         None \<Rightarrow> None
       | Some uid \<Rightarrow> do {
           fss \<leftarrow> flush_stat_cache rpc
             (cache[ino := (cache ! ino)\<lparr>st_alloc := True, st_mode := fq_mode req, st_uid := uid\<rparr>], d);
           Some ([((zero_reply FILE_OK)\<lparr>fp_ino := of_nat ino\<rparr>, [])], fss) }))"

definition blkfile_do_delete :: "'d rpc \<Rightarrow> u32 option \<Rightarrow> file_request \<Rightarrow> 'd blkfiles \<Rightarrow> (freply list \<times> 'd blkfiles) option" where
  "blkfile_do_delete rpc user req = (\<lambda>(cache, d). let ino = unat (fq_ino req) in
     if ino > MAX_INODES then Some ([blkfile_respond FILE_ERROR], cache, d)
     else if ino \<ge> length cache then None
     else (case user of
         None \<Rightarrow> None
       | Some uid \<Rightarrow>
           if \<not> write_allowed (cache ! ino) uid then Some ([blkfile_respond FILE_ERROR], cache, d)
           else if \<not> st_alloc (cache ! ino) then Some ([(zero_reply FILE_OK, [])], cache, d)
           else do {
             (cache, d) \<leftarrow> flush_stat_cache rpc (cache[ino := (cache ! ino)\<lparr>st_alloc := False\<rparr>], d);
             (r, d) \<leftarrow> block_setsize rpc (fq_ino req) 0 d;
             Some ((if r then [] else [blkfile_respond FILE_ERROR]) @ [(zero_reply FILE_OK, [])], cache, d) }))"

definition blkfile_do_chown :: "'d rpc \<Rightarrow> u32 option \<Rightarrow> file_request \<Rightarrow> 'd blkfiles \<Rightarrow> (freply list \<times> 'd blkfiles) option" where
  "blkfile_do_chown rpc user req = (\<lambda>(cache, d). let ino = unat (fq_ino req) in
     if ino \<ge> MAX_INODES \<or> \<not> st_alloc (cache ! ino) then Some ([blkfile_respond FILE_ERROR], cache, d)
     else (case user of
         None \<Rightarrow> None
       | Some uid \<Rightarrow>
           if uid \<noteq> 0 then Some ([blkfile_respond FILE_ERROR], cache, d)
           else do {
             fss \<leftarrow> flush_stat_cache rpc (cache[ino := (cache ! ino)\<lparr>st_uid := fq_uid req\<rparr>], d);
             Some ([(zero_reply FILE_OK, [])], fss) }))"

definition blkfile_do_chmod :: "'d rpc \<Rightarrow> u32 option \<Rightarrow> file_request \<Rightarrow> 'd blkfiles \<Rightarrow> (freply list \<times> 'd blkfiles) option" where
  "blkfile_do_chmod rpc user req = (\<lambda>(cache, d). let ino = unat (fq_ino req) in
     if ino \<ge> MAX_INODES \<or> \<not> st_alloc (cache ! ino) then Some ([blkfile_respond FILE_ERROR], cache, d)
     else (case user of
         None \<Rightarrow> None
       | Some uid \<Rightarrow>
           if uid \<noteq> 0 \<and> uid \<noteq> st_uid (cache ! ino) then Some ([blkfile_respond FILE_ERROR], cache, d)
           else do {
             fss \<leftarrow> flush_stat_cache rpc (cache[ino := (cache ! ino)\<lparr>st_mode := fq_mode req\<rparr>], d);
             Some ([(zero_reply FILE_OK, [])], fss) }))"

text \<open>
  The buffer has \<open>psize_nblock * BLOCK_SIZE\<close> bytes, computed in 32 bits; when that wraps, the read
  overruns it.
\<close>

definition blkfile_do_read :: "'d rpc \<Rightarrow> u32 option \<Rightarrow> file_request \<Rightarrow> 'd blkfiles \<Rightarrow> (freply list \<times> 'd blkfiles) option" where
  "blkfile_do_read rpc user req = (\<lambda>(cache, d). let ino = unat (fq_ino req); st = cache ! ino;
       reply = (\<lambda>n. (zero_reply FILE_OK)\<lparr>fp_op := FILE_READ, fp_stat := zero_stat\<lparr>st_size := n\<rparr>\<rparr>) in
     if ino \<ge> MAX_INODES \<or> \<not> st_alloc st then Some ([blkfile_respond FILE_ERROR], cache, d)
     else (case user of
         None \<Rightarrow> None
       | Some uid \<Rightarrow>
           if \<not> read_allowed st uid then Some ([blkfile_respond FILE_ERROR], cache, d)
           else if fq_size req = 0 then Some ([(reply 0, [])], cache, d)
           else if fq_offset req < st_size st then
             let n = min (ucast (st_size st - fq_offset req)) (fq_size req) :: u32;
                 start_block_no = ucast (fq_offset req div of_nat BLOCK_SIZE) :: u32;
                 end_block_no = ucast ((fq_offset req + ucast n) div of_nat BLOCK_SIZE) :: u32;
                 nblocks = unat (end_block_no - start_block_no + 1)
             in if nblocks * BLOCK_SIZE \<ge> 2 ^ 32 then None
                else do {
                  (r, d) \<leftarrow> multiblock_read rpc (fq_ino req) start_block_no nblocks d;
                  (case r of
                     None \<Rightarrow> Some ([blkfile_respond FILE_ERROR], cache, d)
                   | Some bs \<Rightarrow>
                       if length bs \<noteq> nblocks * BLOCK_SIZE then Some ([blkfile_respond FILE_ERROR], cache, d)
                       else Some ([(reply (ucast n), take (unat n) (drop (unat (fq_offset req mod of_nat BLOCK_SIZE)) bs))],
                                  cache, d)) }
           else Some ([(reply 0, [])], cache, d)))"

text \<open>
  \<open>blkfile_put\<close>; the result is 0 or \<open>-1\<close>. The block numbers are 64 bits wide. When the end of the
  write wraps around, the end block lies before the start block, and the allocation of the buffer
  fails.
\<close>

definition blkfile_put :: "'d rpc \<Rightarrow> u32 \<Rightarrow> u64 \<Rightarrow> u8 list \<Rightarrow> 'd blkfiles \<Rightarrow> (int \<times> 'd blkfiles) option" where
  "blkfile_put rpc ino offset data = (\<lambda>(cache, d).
     let file_size = st_size (cache ! unat ino); bsz = of_nat BLOCK_SIZE;
         start_block_no = offset div bsz;
         write_end = offset + of_nat (length data);
         final_size = (if write_end > file_size then write_end else file_size);
         end_block_no = write_end div bsz;
         psize_nblock = ucast ((if write_end > file_size then file_size div bsz else end_block_no) - start_block_no + 1) :: u32;
         nblocks = unat (end_block_no - start_block_no + 1)
     in if end_block_no < start_block_no then None
        else do {
          (r, d) \<leftarrow> (if start_block_no > file_size div bsz \<or> file_size = 0 then Some (Some [], d)
                    else multiblock_read rpc ino (ucast start_block_no) (unat psize_nblock) d);
          (case r of
             None \<Rightarrow> Some (- 1, cache, d)
           | Some bs \<Rightarrow>
               let contents = range_write (unat (offset mod bsz)) data (bs @ replicate (nblocks * BLOCK_SIZE - length bs) 0)
               in do {
                 (w, d) \<leftarrow> multiblock_write (unat (ucast (end_block_no - start_block_no + 1) :: u32)) rpc ino
                             (ucast start_block_no) contents d;
                 if \<not> w then Some (- 1, cache, d)
                 else do {
                   fss \<leftarrow> flush_stat_cache rpc (cache[unat ino := (cache ! unat ino)\<lparr>st_size := final_size\<rparr>], d);
                   Some (0, fss) } }) })"

definition blkfile_do_write :: "'d rpc \<Rightarrow> u32 option \<Rightarrow> file_request \<Rightarrow> u8 list \<Rightarrow> 'd blkfiles \<Rightarrow>
    (freply list \<times> 'd blkfiles) option" where
  "blkfile_do_write rpc user req data = (\<lambda>(cache, d). let ino = unat (fq_ino req) in
     if ino \<ge> MAX_INODES \<or> \<not> st_alloc (cache ! ino) then Some ([blkfile_respond FILE_ERROR], cache, d)
     else if fq_size req \<noteq> of_nat (length data) then Some ([blkfile_respond FILE_ERROR], cache, d)
     else (case user of
         None \<Rightarrow> None
       | Some uid \<Rightarrow>
           if \<not> write_allowed (cache ! ino) uid then Some ([blkfile_respond FILE_ERROR], cache, d)
           else do {
             (r, fss) \<leftarrow> blkfile_put rpc (fq_ino req) (fq_offset req) data (cache, d);
             Some ([blkfile_respond (if r = 0 then FILE_OK else FILE_ERROR)], fss) }))"

definition blkfile_do_stat :: "u32 option \<Rightarrow> file_request \<Rightarrow> 'd blkfiles \<Rightarrow> (freply list \<times> 'd blkfiles) option" where
  "blkfile_do_stat user req = (\<lambda>(cache, d). let ino = unat (fq_ino req) in
     if ino \<ge> MAX_INODES \<or> \<not> st_alloc (cache ! ino) then Some ([blkfile_respond FILE_ERROR], cache, d)
     else (case user of
         None \<Rightarrow> None
       | Some uid \<Rightarrow>
           if \<not> read_allowed (cache ! ino) uid then Some ([blkfile_respond FILE_ERROR], cache, d)
           else Some ([((zero_reply FILE_OK)\<lparr>fp_op := FILE_STAT, fp_stat := cache ! ino\<rparr>, [])], cache, d)))"

text \<open>When the block server refuses, an error is sent and the handler goes on.\<close>

definition blkfile_do_setsize :: "'d rpc \<Rightarrow> u32 option \<Rightarrow> file_request \<Rightarrow> 'd blkfiles \<Rightarrow> (freply list \<times> 'd blkfiles) option" where
  "blkfile_do_setsize rpc user req = (\<lambda>(cache, d). let ino = unat (fq_ino req) in
     if ino \<ge> MAX_INODES \<or> \<not> st_alloc (cache ! ino) then Some ([blkfile_respond FILE_ERROR], cache, d)
     else if fq_offset req > st_size (cache ! ino) then Some ([blkfile_respond FILE_ERROR], cache, d)
     else (case user of
         None \<Rightarrow> None
       | Some uid \<Rightarrow>
           if \<not> write_allowed (cache ! ino) uid then Some ([blkfile_respond FILE_ERROR], cache, d)
           else do {
             let final_nblock = (if fq_offset req = 0 then 0 else ucast (1 + fq_offset req div of_nat BLOCK_SIZE) :: u32);
             (r, d) \<leftarrow> block_setsize rpc (fq_ino req) final_nblock d;
             fss \<leftarrow> flush_stat_cache rpc (cache[ino := (cache ! ino)\<lparr>st_size := fq_offset req\<rparr>], d);
             Some ((if r then [] else [blkfile_respond FILE_ERROR]) @ [blkfile_respond FILE_OK], fss) }))"

text \<open>One turn of the loop of \<open>blkfile_proc\<close>.\<close>

definition blkfile_proc :: "'d rpc \<Rightarrow> u32 option \<Rightarrow> fmsg \<Rightarrow> 'd blkfiles \<Rightarrow> (freply list \<times> 'd blkfiles) option" where
  "blkfile_proc rpc user msg fss = (case msg of (req, data) \<Rightarrow> (case fq_type req of
       FILE_CREATE \<Rightarrow> blkfile_do_create rpc user req fss
     | FILE_DELETE \<Rightarrow> blkfile_do_delete rpc user req fss
     | FILE_CHOWN \<Rightarrow> blkfile_do_chown rpc user req fss
     | FILE_CHMOD \<Rightarrow> blkfile_do_chmod rpc user req fss
     | FILE_READ \<Rightarrow> blkfile_do_read rpc user req fss
     | FILE_WRITE \<Rightarrow> blkfile_do_write rpc user req (take 4096 data) fss
     | FILE_STAT \<Rightarrow> blkfile_do_stat user req fss
     | FILE_SETSIZE \<Rightarrow> blkfile_do_setsize rpc user req fss
     | _ \<Rightarrow> None))"

end
