(* ===== verification/BlkFileInv.thy ===== *)
theory BlkFileInv
  imports BlkFileSvr InodeStore
begin

text \<open>
  The file server on a block server keeps the contract of file servers (locale \<open>file_store\<close>): with the
  rights of the superuser, a read returns the bytes of the file and a write within it or at its
  end changes exactly the bytes it names. Below it stands a block server whose inodes behave as
  the file layers promise (locale \<open>inode_client\<close>).
\<close>

section \<open>Files as bytes\<close>

text \<open>Byte \<open>i\<close> of a file with the blocks \<open>dat\<close>.\<close>

definition fbyte :: "(block_no \<Rightarrow> block) \<Rightarrow> nat \<Rightarrow> u8" where
  "fbyte dat i = block_bytes (dat (of_nat (i div 1024))) ! (i mod 1024)"

lemma block_as_bytes: "block_bytes (dat (of_nat k)) = map (fbyte dat) [k * 1024..<(k + 1) * 1024]"
proof (rule nth_equalityI)
  show "length (block_bytes (dat (of_nat k))) = length (map (fbyte dat) [k * 1024..<(k + 1) * 1024])" by simp
  fix i assume i: "i < length (block_bytes (dat (of_nat k)))"
  then have "(k * 1024 + i) div 1024 = k" "(k * 1024 + i) mod 1024 = i" by simp_all
  with i show "block_bytes (dat (of_nat k)) ! i = map (fbyte dat) [k * 1024..<(k + 1) * 1024] ! i"
    by (simp add: fbyte_def)
qed

lemma length_cache_bytes: "length (cache_bytes sts) = 24 * length sts"
  by (induction sts) (simp_all add: stat_bytes_def)

lemma cache_blocks: "CACHE_BLOCKS = 3"
  by (simp add: CACHE_BLOCKS_def MAX_INODES_def SIZEOF_STAT_def BLOCK_SIZE_def)

lemma word_diff1:
  assumes "unat b \<le> unat a" "unat a < 4294967296"
  shows "unat (a - b + 1 :: u64) = unat a - unat b + 1" "unat (ucast (a - b + 1 :: u64) :: u32) = (unat a - unat b + 1) mod 4294967296"
proof -
  have "unat (a - b) = unat a - unat b" using assms(1) by (simp add: unat_sub word_le_nat_alt)
  then show e: "unat (a - b + 1 :: u64) = unat a - unat b + 1" using assms by (simp add: unat_word_ariths)
  show "unat (ucast (a - b + 1 :: u64) :: u32) = (unat a - unat b + 1) mod 4294967296"
    by (simp add: unsigned_ucast_eq take_bit_eq_mod e)
qed

lemma of_nat_not_last: "off < 4294967295 \<Longrightarrow> (of_nat off :: u32) \<noteq> - 1"
proof
  assume off: "off < 4294967295" "(of_nat off :: u32) = - 1"
  then have "unat (of_nat off :: u32) = off" by (intro unat32_of_nat) simp
  with off unat32_minus_one show False by simp
qed

section \<open>The block server below\<close>

text \<open>
  \<open>room d\<close> is the number of free blocks. A write to a file of at most 256 blocks takes at most 257 of
  them, its whole tree, and returns when there are more than 8.
\<close>

locale inode_client =
  fixes rpc :: "'d rpc" and ok :: "'d \<Rightarrow> bool" and files :: "'d \<Rightarrow> u32 file_view" and room :: "'d \<Rightarrow> nat"
  assumes client_sz: "ok d \<Longrightarrow> files d ino = Some (n, dat) \<Longrightarrow>
      \<exists>w d'. block_getsize rpc ino d = Some ((True, Some w), d') \<and> unat w = n \<and> ok d' \<and> files d' = files d \<and> room d' = room d"
    and client_rd: "ok d \<Longrightarrow> files d ino = Some (n, dat) \<Longrightarrow>
      \<exists>d'. block_read rpc ino off d = Some (if unat off < n then Some (dat off) else None, d') \<and>
        ok d' \<and> files d' = files d \<and> room d' = room d"
    and client_wr: "ok d \<Longrightarrow> files d ino = Some (n, dat) \<Longrightarrow> off \<noteq> - 1 \<Longrightarrow> block_write rpc ino off b d = Some (r, d') \<Longrightarrow>
      r \<and> ok d' \<and> files d' = (files d)(ino \<mapsto> (max n (Suc (unat off)), dat(off := b)))"
    and client_room: "ok d \<Longrightarrow> files d ino = Some (n, dat) \<Longrightarrow> max n (Suc (unat off)) \<le> 256 \<Longrightarrow> 8 < room d \<Longrightarrow>
      \<exists>r d'. block_write rpc ino off b d = Some (r, d') \<and> room d \<le> room d' + 257"
begin

lemma read_blocks_ok:
  assumes "ok d" "files d ino = Some (n, dat)" "off + k \<le> n" "off + k < 4294967296"
  shows "\<exists>d'. read_blocks k rpc ino (of_nat off) d = Some (map (fbyte dat) [off * 1024..<(off + k) * 1024], d') \<and>
    ok d' \<and> files d' = files d \<and> room d' = room d"
  using assms
proof (induction k arbitrary: off d)
  case (Suc k)
  have u: "unat (of_nat off :: u32) = off" using Suc.prems(4) by (intro unat32_of_nat) simp
  from client_rd [OF Suc.prems(1,2), of "of_nat off"] u Suc.prems(3) obtain d1 where
    d1: "block_read rpc ino (of_nat off) d = Some (Some (dat (of_nat off)), d1)" "ok d1" "files d1 = files d" "room d1 = room d" by auto
  have "files d1 ino = Some (n, dat)" "Suc off + k \<le> n" "Suc off + k < 4294967296"
    using d1(3) Suc.prems by simp_all
  from Suc.IH [OF d1(2) this] obtain d2 where
    d2: "read_blocks k rpc ino (of_nat (Suc off)) d1 = Some (map (fbyte dat) [Suc off * 1024..<(Suc off + k) * 1024], d2)"
      "ok d2" "files d2 = files d1" "room d2 = room d1" by blast
  have w: "(of_nat off :: u32) + 1 = of_nat (Suc off)" by simp
  have "[off * 1024..<(off + 1) * 1024] @ [Suc off * 1024..<(Suc off + k) * 1024] = [off * 1024..<(off + Suc k) * 1024]"
    using upt_add_eq_append [of "off * 1024" "(off + 1) * 1024" "k * 1024"] by (simp add: algebra_simps)
  then have "block_bytes (dat (of_nat off)) @ map (fbyte dat) [Suc off * 1024..<(Suc off + k) * 1024] =
      map (fbyte dat) [off * 1024..<(off + Suc k) * 1024]"
    unfolding block_as_bytes by (simp only: map_append [symmetric])
  with d1 d2 show ?case by (simp add: w del: of_nat_Suc)
qed simp

lemma multiblock_read_ok:
  assumes "ok d" "files d ino = Some (n, dat)" "off + k \<le> n" "off + k < 4294967296"
  shows "\<exists>d'. multiblock_read rpc ino (of_nat off) k d = Some (Some (map (fbyte dat) [off * 1024..<(off + k) * 1024]), d') \<and>
    ok d' \<and> files d' = files d \<and> room d' = room d"
proof -
  from read_blocks_ok [OF assms] obtain d' where
    "read_blocks k rpc ino (of_nat off) d = Some (map (fbyte dat) [off * 1024..<(off + k) * 1024], d')" "ok d'" "files d' = files d" "room d' = room d"
    by blast
  moreover have "k \<noteq> 0 \<Longrightarrow> map (fbyte dat) [off * 1024..<(off + k) * 1024] \<noteq> []" by simp
  ultimately show ?thesis by (auto simp: multiblock_read_def)
qed

lemma multiblock_write_ok:
  assumes "ok d" "files d ino = Some (m, dat)" "length bs = k * 1024" "off + k < 4294967295" "k \<noteq> 0"
    "multiblock_write k rpc ino (of_nat off) bs d = Some (r, d')"
  shows "\<exists>dat'. r \<and> ok d' \<and> files d' = (files d)(ino \<mapsto> (max m (off + k), dat')) \<and>
    (\<forall>i<4398046511104. fbyte dat' i = (if off * 1024 \<le> i \<and> i < (off + k) * 1024 then bs ! (i - off * 1024) else fbyte dat i))"
  using assms
proof (induction k arbitrary: off bs d m dat)
  case (Suc k)
  have u: "unat (of_nat off :: u32) = off" using Suc.prems(4) by (intro unat32_of_nat) simp
  have ne: "(of_nat off :: u32) \<noteq> - 1" using Suc.prems(4) by (intro of_nat_not_last) simp
  let ?b = "bytes_block (take BLOCK_SIZE bs)"
  from Suc.prems(6) obtain r1 d1 where w: "block_write rpc ino (of_nat off) ?b d = Some (r1, d1)"
    by (auto split: bind_splits)
  define dat1 where "dat1 = dat(of_nat off := ?b)"
  from client_wr [OF Suc.prems(1,2) ne w] u have d1: "r1" "ok d1" "files d1 = (files d)(ino \<mapsto> (max m (Suc off), dat1))"
    by (auto simp: dat1_def)
  have b: "block_bytes ?b = take 1024 bs" using Suc.prems(3) by (simp add: BLOCK_SIZE_def)
  have f1: "fbyte dat1 i = (if off * 1024 \<le> i \<and> i < (off + 1) * 1024 then bs ! (i - off * 1024) else fbyte dat i)"
    if "i < 4398046511104" for i
  proof -
    have "i div 1024 < 4294967296" using that by simp
    then have "unat (of_nat (i div 1024) :: u32) = i div 1024" by (rule unat32_of_nat)
    with u have "(of_nat (i div 1024) :: u32) = of_nat off \<longleftrightarrow> i div 1024 = off" by (metis unat32_inject)
    moreover have "i div 1024 = off \<longleftrightarrow> off * 1024 \<le> i \<and> i < (off + 1) * 1024" by auto
    moreover have "i - off * 1024 = i mod 1024" if "i div 1024 = off" using that by (simp add: modulo_nat_def mult.commute)
    ultimately show ?thesis by (auto simp: fbyte_def b dat1_def)
  qed
  have rest: "multiblock_write k rpc ino (of_nat (Suc off)) (drop 1024 bs) d1 = Some (r, d')"
    using Suc.prems(6) w d1(1) by (simp add: BLOCK_SIZE_def add.commute)
  show ?case
  proof (cases "k = 0")
    case True
    with rest d1 f1 show ?thesis by (intro exI [of _ dat1]) auto
  next
    case False
    have "files d1 ino = Some (max m (Suc off), dat1)" using d1(3) by simp
    moreover have "length (drop 1024 bs) = k * 1024" "Suc off + k < 4294967295" using Suc.prems(3,4) by simp_all
    ultimately obtain dat' where
      I: "r" "ok d'" "files d' = (files d1)(ino \<mapsto> (max (max m (Suc off)) (Suc off + k), dat'))"
        "\<forall>i<4398046511104. fbyte dat' i =
          (if Suc off * 1024 \<le> i \<and> i < (Suc off + k) * 1024 then drop 1024 bs ! (i - Suc off * 1024) else fbyte dat1 i)"
      using Suc.IH [OF d1(2) _ _ _ False rest] by blast
    have "fbyte dat' i = (if off * 1024 \<le> i \<and> i < (off + Suc k) * 1024 then bs ! (i - off * 1024) else fbyte dat i)"
      if i: "i < 4398046511104" for i
    proof (cases "Suc off * 1024 \<le> i \<and> i < (Suc off + k) * 1024")
      case True
      then have "drop 1024 bs ! (i - Suc off * 1024) = bs ! (i - off * 1024)" using Suc.prems(3) by (simp add: algebra_simps)
      with True mp [OF spec [OF I(4)] i] show ?thesis by simp
    next
      case F: False
      then have e: "off * 1024 \<le> i \<and> i < (off + Suc k) * 1024 \<longleftrightarrow> off * 1024 \<le> i \<and> i < (off + 1) * 1024" by auto
      have "fbyte dat' i = fbyte dat1 i" using mp [OF spec [OF I(4)] i] unfolding if_not_P [OF F] .
      then show ?thesis unfolding e f1 [OF i] .
    qed
    moreover have "files d' = (files d)(ino \<mapsto> (max m (off + Suc k), dat'))" by (simp add: I(3) d1(3) max.assoc)
    ultimately show ?thesis using I(1,2) by blast
  qed
qed simp

lemma multiblock_write_returns:
  assumes "ok d" "files d ino = Some (m, dat)" "m \<le> 256" "off + k \<le> 256" "257 * k + 8 < room d"
  shows "\<exists>r d'. multiblock_write k rpc ino (of_nat off) bs d = Some (r, d') \<and> room d \<le> room d' + 257 * k"
  using assms
proof (induction k arbitrary: off bs d m dat)
  case (Suc k)
  let ?b = "bytes_block (take BLOCK_SIZE bs)"
  have u: "unat (of_nat off :: u32) = off" using Suc.prems(4) by (intro unat32_of_nat) simp
  have ne: "(of_nat off :: u32) \<noteq> - 1" using Suc.prems(4) by (intro of_nat_not_last) simp
  from client_room [OF Suc.prems(1,2), of "of_nat off" ?b] Suc.prems(3-5) u obtain r1 d1 where
    w: "block_write rpc ino (of_nat off) ?b d = Some (r1, d1)" "room d \<le> room d1 + 257" by auto
  from client_wr [OF Suc.prems(1,2) ne w(1)] u have
    d1: r1 "ok d1" "files d1 ino = Some (max m (Suc off), dat(of_nat off := ?b))" by simp_all
  have "max m (Suc off) \<le> 256" "Suc off + k \<le> 256" "257 * k + 8 < room d1" using Suc.prems(3-5) w(2) by simp_all
  from Suc.IH [OF d1(2,3) this, of "drop BLOCK_SIZE bs"] w d1(1) show ?case
    by (auto simp: add.commute)
qed (auto intro: exI [of _ True])

lemma flush_ok:
  assumes "ok d" "files d 0 = Some (n, dat)" "length cache = 128" "flush_stat_cache rpc (cache, d) = Some (cache', d')"
  shows "cache' = cache \<and> ok d' \<and> (\<exists>dat'. files d' = (files d)(0 \<mapsto> (max n 3, dat')))"
proof -
  from assms(4) obtain r where w: "multiblock_write CACHE_BLOCKS rpc 0 0 (cache_bytes cache) d = Some (r, d')" "cache' = cache"
    by (auto simp: flush_stat_cache_def split: bind_splits)
  have "length (cache_bytes cache) = 3 * 1024" using length_cache_bytes [of cache] assms(3) by simp
  from multiblock_write_ok [OF assms(1,2) this, of 0] w show ?thesis by (auto simp: cache_blocks)
qed

end

section \<open>The contract\<close>

definition blkfiles_ok :: "('d \<Rightarrow> bool) \<Rightarrow> ('d \<Rightarrow> u32 file_view) \<Rightarrow> 'd blkfiles \<Rightarrow> bool" where
  "blkfiles_ok ok files = (\<lambda>(cache, d). ok d \<and> length cache = 128 \<and> files d 0 \<noteq> None \<and>
     (\<forall>i. 1 \<le> i \<and> i < 128 \<and> st_alloc (cache ! i) \<longrightarrow>
        (\<exists>n dat. files d (of_nat i) = Some (n, dat) \<and> (st_size (cache ! i) = 0 \<or> unat (st_size (cache ! i)) div 1024 < n))))"

definition blk_contents :: "('d \<Rightarrow> u32 file_view) \<Rightarrow> 'd blkfiles \<Rightarrow> u32 \<Rightarrow> u8 list option" where
  "blk_contents files = (\<lambda>(cache, d) ino.
     if 1 \<le> unat ino \<and> unat ino < 128 \<and> st_alloc (cache ! unat ino)
     then map_option (\<lambda>(n, dat). map (fbyte dat) [0..<unat (st_size (cache ! unat ino))]) (files d ino) else None)"

lemma blk_contents_Some:
  assumes "blkfiles_ok ok files (cache, d)" "blk_contents files (cache, d) ino = Some xs"
  obtains n dat where "1 \<le> unat ino" "unat ino < 128" "st_alloc (cache ! unat ino)" "files d ino = Some (n, dat)"
    "xs = map (fbyte dat) [0..<unat (st_size (cache ! unat ino))]" "length xs = unat (st_size (cache ! unat ino))"
    "length xs = 0 \<or> length xs div 1024 < n"
proof -
  from assms(2) have i: "1 \<le> unat ino" "unat ino < 128" "st_alloc (cache ! unat ino)"
    by (auto simp: blk_contents_def split: if_splits)
  with assms(2) obtain n dat where f: "files d ino = Some (n, dat)" "xs = map (fbyte dat) [0..<unat (st_size (cache ! unat ino))]"
    by (auto simp: blk_contents_def)
  from assms(1) i f(1) have "st_size (cache ! unat ino) = 0 \<or> unat (st_size (cache ! unat ino)) div 1024 < n"
    by (auto simp: blkfiles_ok_def dest: spec [of _ "unat ino"])
  with i f show thesis by (intro that [of n dat]) auto
qed

text \<open>
  The blocks that \<open>blkfile_put\<close> writes: \<open>s\<close> and \<open>e\<close> are the first and the last, \<open>S\<close> the size of the file, and
  \<open>bs\<close> what was read of them before. Put in their place they give the written file.
\<close>

lemma put_file_blocks:
  fixes data :: "u8 list" and f :: "nat \<Rightarrow> u8"
  assumes "o' \<le> S" and s: "s = o' div 1024" and e: "e = (o' + length data) div 1024"
    and P: "P = (if S < o' + length data then S div 1024 else e) - s + 1" and N: "N = e - s + 1"
    and bs: "bs = (if S = 0 then [] else map f [s * 1024..<(s + P) * 1024])"
    and C: "C = range_write (o' mod 1024) data (bs @ replicate (N * 1024 - length bs) 0)"
  shows "length C = N * 1024" (is ?len)
    and "i < max S (o' + length data) \<Longrightarrow>
      (if s * 1024 \<le> i \<and> i < (s + N) * 1024 then C ! (i - s * 1024) else f i) = range_write o' data (map f [0..<S]) ! i"
proof -
  have se: "s \<le> e" "s \<le> S div 1024" using assms(1) by (simp_all add: s e div_le_mono)
  have "S div 1024 \<le> e" if "S < o' + length data" using that unfolding e by (intro div_le_mono) simp
  then have PN: "P \<le> N" by (simp add: P N diff_le_mono)
  define pad where "pad = bs @ replicate (N * 1024 - length bs) 0"
  have pad: "length pad = N * 1024" using PN by (simp add: bs pad_def)
  have om: "s * 1024 + o' mod 1024 = o'" unfolding s by simp
  have fit: "o' + length data < (s + N) * 1024" using se(1) unfolding N by (simp add: e) 
  with om have fit': "o' mod 1024 + length data \<le> N * 1024" by (simp add: algebra_simps)
  then show len: ?len using pad by (simp add: C length_range_write flip: pad_def)
  assume i: "i < max S (o' + length data)"
  show "(if s * 1024 \<le> i \<and> i < (s + N) * 1024 then C ! (i - s * 1024) else f i) = range_write o' data (map f [0..<S]) ! i"
  proof (cases "o' \<le> i \<and> i < o' + length data")
    case True
    with om fit have k: "s * 1024 \<le> i" "i < (s + N) * 1024" "i - s * 1024 < N * 1024" "o' mod 1024 \<le> i - s * 1024"
      "i - s * 1024 < o' mod 1024 + length data" "i - s * 1024 - o' mod 1024 = i - o'" by (auto simp: algebra_simps)
    then have "C ! (i - s * 1024) = data ! (i - o')"
      using fit' nth_range_write [of "o' mod 1024" pad "i - s * 1024" data] len by (simp add: C pad flip: pad_def)
    with k(1,2) True nth_range_write [of o' "map f [0..<S]" i data] i assms(1) show ?thesis by (simp add: length_range_write)
  next
    case False
    with i assms(1) have iS: "i < S" by auto
    with False nth_range_write [of o' "map f [0..<S]" i data] i assms(1)
    have r: "range_write o' data (map f [0..<S]) ! i = f i" by (auto simp: length_range_write)
    have "C ! (i - s * 1024) = f i" if k: "s * 1024 \<le> i" "i < (s + N) * 1024"
    proof -
      have "i < (s + P) * 1024"
      proof (cases "S < o' + length data")
        case True
        have "i < (S div 1024 + 1) * 1024" using iS by simp
        with True se(2) show ?thesis by (simp add: P)
      next
        case F: False
        with k(2) show ?thesis by (simp add: P N)
      qed
      with k(1) iS have b: "i - s * 1024 < length bs" "bs ! (i - s * 1024) = f i" by (auto simp: bs algebra_simps)
      from False om k(1) have "\<not> (o' mod 1024 \<le> i - s * 1024 \<and> i - s * 1024 < o' mod 1024 + length data)" by (auto simp: algebra_simps)
      with fit' nth_range_write [of "o' mod 1024" pad "i - s * 1024" data] len k have "C ! (i - s * 1024) = pad ! (i - s * 1024)"
        by (auto simp: C pad simp flip: pad_def)
      with b show ?thesis by (simp add: pad_def nth_append)
    qed
    with r show ?thesis by simp
  qed
qed

text \<open>The same function over natural numbers, where nothing wraps around.\<close>

lemma blkfile_put_nat:
  assumes "unat (st_size (cache ! unat ino)) = S" "unat off = o'" "o' \<le> S" "S < 4294967296" "length data \<le> 4096"
    "s = o' div 1024" "e = (o' + length data) div 1024"
    "P = (if S < o' + length data then S div 1024 else e) - s + 1" "N = e - s + 1"
  shows "blkfile_put rpc ino off data (cache, d) = do {
    (r, d) \<leftarrow> (if S = 0 then Some (Some [], d) else multiblock_read rpc ino (of_nat s) P d);
    (case r of None \<Rightarrow> Some (- 1, cache, d)
     | Some bs \<Rightarrow> do {
         (w, d) \<leftarrow> multiblock_write N rpc ino (of_nat s) (range_write (o' mod 1024) data (bs @ replicate (N * 1024 - length bs) 0)) d;
         if \<not> w then Some (- 1, cache, d)
         else do {
           fss \<leftarrow> flush_stat_cache rpc (cache[unat ino := (cache ! unat ino)\<lparr>st_size := of_nat (max S (o' + length data))\<rparr>], d);
           Some (0, fss) } }) }"
proof -
  let ?sz = "st_size (cache ! unat ino)" and ?we = "off + of_nat (length data) :: u64"
  have we: "unat ?we = o' + length data" using assms(2-5) by (simp add: unat_word_ariths unat_of_nat)
  have B: "unat (of_nat BLOCK_SIZE :: u64) = 1024" by (simp add: BLOCK_SIZE_def)
  have u: "unat (off div of_nat BLOCK_SIZE) = s" "unat (?we div of_nat BLOCK_SIZE) = e"
    "unat (?sz div of_nat BLOCK_SIZE) = S div 1024" "unat (off mod of_nat BLOCK_SIZE) = o' mod 1024"
    by (simp_all add: unat_div unat_mod B we) (simp_all add: assms(1,2,6,7))
  have se: "s \<le> e" "s \<le> S div 1024" "e < 4294967294" "S div 1024 < 4294967294"
    using assms(3-5) by (auto simp: assms(6,7) intro!: div_le_mono)
  have grow: "?we > ?sz \<longleftrightarrow> S < o' + length data" by (simp add: word_less_nat_alt we assms(1))
  have nb: "unat (?we div of_nat BLOCK_SIZE - off div of_nat BLOCK_SIZE + 1) = N"
    "unat (ucast (?we div of_nat BLOCK_SIZE - off div of_nat BLOCK_SIZE + 1) :: u32) = N"
    using word_diff1 [of "off div of_nat BLOCK_SIZE" "?we div of_nat BLOCK_SIZE"] se by (simp_all add: u assms(9))
  have pb: "unat (ucast ((if ?we > ?sz then ?sz div of_nat BLOCK_SIZE else ?we div of_nat BLOCK_SIZE) - off div of_nat BLOCK_SIZE + 1) :: u32) = P"
    using word_diff1 [of "off div of_nat BLOCK_SIZE" "?sz div of_nat BLOCK_SIZE"]
      word_diff1 [of "off div of_nat BLOCK_SIZE" "?we div of_nat BLOCK_SIZE"] se by (simp add: grow u assms(8))
  have start: "ucast (off div of_nat BLOCK_SIZE) = (of_nat s :: u32)"
    by (rule word_unat_eq_iff [THEN iffD2]) (use se in \<open>simp add: unsigned_ucast_eq take_bit_eq_mod u unat_of_nat\<close>)
  have guard: "off div of_nat BLOCK_SIZE > ?sz div of_nat BLOCK_SIZE \<or> ?sz = 0 \<longleftrightarrow> S = 0"
    using se(2) assms(1) by (auto simp: word_less_nat_alt u unat_eq_0)
  have nowrap: "\<not> ?we div of_nat BLOCK_SIZE < off div of_nat BLOCK_SIZE" using se(1) by (simp add: word_less_nat_alt u)
  have m: "unat (if ?we > ?sz then ?we else ?sz) = max S (o' + length data)" by (simp add: grow we assms(1) max_def)
  have final: "(if ?we > ?sz then ?we else ?sz) = of_nat (max S (o' + length data))"
    using arg_cong [OF m, of "of_nat :: nat \<Rightarrow> u64"] by (simp only: of_nat_unat ucast_id)

  show ?thesis
    unfolding blkfile_put_def Let_def prod.case if_not_P [OF nowrap] guard nb pb start final u
    unfolding BLOCK_SIZE_def by (rule refl)
qed

text \<open>What \<open>blk_contents\<close> and \<open>blkfiles_ok\<close> are after the attributes and the data of one file have changed.\<close>

lemma blkfiles_update:
  assumes "blkfiles_ok ok files (cache, d)" "blk_contents files (cache, d) ino = Some xs"
    "ok d'" "files d' = (files d)(ino \<mapsto> (n, dat), 0 \<mapsto> x)"
    "cache' = cache[unat ino := (cache ! unat ino)\<lparr>st_size := sz\<rparr>]" "unat sz div 1024 < n"
  shows "blkfiles_ok ok files (cache', d')"
    "blk_contents files (cache', d') = (blk_contents files (cache, d))(ino \<mapsto> map (fbyte dat) [0..<unat sz])"
proof -
  from assms(1) have ok: "length cache = 128" "files d 0 \<noteq> None"
    and al: "\<And>i. 1 \<le> i \<Longrightarrow> i < 128 \<Longrightarrow> st_alloc (cache ! i) \<Longrightarrow>
      \<exists>n dat. files d (of_nat i) = Some (n, dat) \<and> (st_size (cache ! i) = 0 \<or> unat (st_size (cache ! i)) div 1024 < n)"
    by (auto simp: blkfiles_ok_def)
  from assms(1,2) have ino: "1 \<le> unat ino" "unat ino < 128" "st_alloc (cache ! unat ino)" by (auto elim: blk_contents_Some)
  then have ino0: "ino \<noteq> 0" by (auto simp: unat_eq_0)
  have same: "(of_nat i :: u32) = ino \<longleftrightarrow> i = unat ino" if "i < 128" for i
    using unat32_of_nat [of i] that by auto
  have nz: "(of_nat i :: u32) \<noteq> 0" if "1 \<le> i" "i < 128" for i
    using unat32_of_nat [of i] that by (auto simp: unat_eq_0)
  show "blkfiles_ok ok files (cache', d')"
    unfolding blkfiles_ok_def prod.case
  proof (intro conjI allI impI)
    fix i assume i: "1 \<le> i \<and> i < 128 \<and> st_alloc (cache' ! i)"
    show "\<exists>n dat. files d' (of_nat i) = Some (n, dat) \<and> (st_size (cache' ! i) = 0 \<or> unat (st_size (cache' ! i)) div 1024 < n)"
    proof (cases "i = unat ino")
      case True
      then show ?thesis using i ok(1) assms(6) ino0 by (simp add: assms(4,5))
    next
      case False
      then show ?thesis using i al [of i] same [of i] nz [of i] by (simp add: assms(4,5))
    qed
  qed (use ok assms(3) in \<open>simp_all add: assms(4,5)\<close>)
  show "blk_contents files (cache', d') = (blk_contents files (cache, d))(ino \<mapsto> map (fbyte dat) [0..<unat sz])"
  proof
    fix j
    show "blk_contents files (cache', d') j = ((blk_contents files (cache, d))(ino \<mapsto> map (fbyte dat) [0..<unat sz])) j"
    proof (cases "j = ino")
      case True
      with ino ino0 ok(1) show ?thesis by (simp add: blk_contents_def assms(4,5))
    next
      case False
      then have "unat j \<noteq> unat ino" by (simp add: unat32_inject)
      with False show ?thesis by (auto simp: blk_contents_def assms(4,5))
    qed
  qed
qed

text \<open>The same for reads.\<close>

lemma blkfile_do_read_nat:
  assumes "unat (fq_ino req) < 128" "st_alloc (cache ! unat (fq_ino req))" "unat (st_size (cache ! unat (fq_ino req))) = S"
    "unat (fq_offset req) = o'" "unat (fq_size req) = n" "S < 4294967296" "o' < S" "0 < n" "n \<le> 4096"
    "m = min (S - o') n" "k = (o' + m) div 1024 - o' div 1024 + 1"
  shows "blkfile_do_read rpc (Some 0) req (cache, d) = do {
    (r, d) \<leftarrow> multiblock_read rpc (fq_ino req) (of_nat (o' div 1024)) k d;
    (case r of None \<Rightarrow> Some ([blkfile_respond FILE_ERROR], cache, d)
     | Some bs \<Rightarrow> if length bs \<noteq> k * 1024 then Some ([blkfile_respond FILE_ERROR], cache, d)
         else Some ([((zero_reply FILE_OK)\<lparr>fp_op := FILE_READ, fp_stat := zero_stat\<lparr>st_size := of_nat m\<rparr>\<rparr>,
                      take m (drop (o' mod 1024) bs))], cache, d)) }"
proof -
  let ?st = "cache ! unat (fq_ino req)"
  let ?n = "min (ucast (st_size ?st - fq_offset req)) (fq_size req) :: u32"
  have B: "unat (of_nat BLOCK_SIZE :: u64) = 1024" by (simp add: BLOCK_SIZE_def)
  have "unat (st_size ?st - fq_offset req) = S - o'"
    using assms(3,4,7) by (simp add: unat_sub word_le_nat_alt)
  then have "unat (ucast (st_size ?st - fq_offset req) :: u32) = S - o'"
    using assms(6) by (simp add: unsigned_ucast_eq take_bit_eq_mod)
  then have n: "unat ?n = m" by (simp add: assms(5,10) min_def word_le_nat_alt)
  have "m \<le> 4096" using assms(9,10) by simp
  with n have n64: "unat (ucast ?n :: u64) = m" by (simp add: unsigned_ucast_eq take_bit_eq_mod)
  then have sum: "unat (fq_offset req + ucast ?n) = o' + m" using assms(4,6,7,10) by (simp add: unat_word_ariths)
  have u: "unat (fq_offset req div of_nat BLOCK_SIZE) = o' div 1024" "unat (fq_offset req mod of_nat BLOCK_SIZE) = o' mod 1024"
    "unat ((fq_offset req + ucast ?n) div of_nat BLOCK_SIZE) = (o' + m) div 1024"
    by (simp_all add: unat_div unat_mod B assms(4) sum)
  have le: "o' div 1024 \<le> (o' + m) div 1024" "(o' + m) div 1024 < 4294967294" "k * 1024 < 2 ^ 32"
    using assms(6,7,9,10) by (auto simp: assms(11) intro!: div_le_mono)
  have s: "ucast (fq_offset req div of_nat BLOCK_SIZE) = (of_nat (o' div 1024) :: u32)"
    "ucast ((fq_offset req + ucast ?n) div of_nat BLOCK_SIZE) = (of_nat ((o' + m) div 1024) :: u32)"
    by (rule word_unat_eq_iff [THEN iffD2], use le in \<open>simp add: unsigned_ucast_eq take_bit_eq_mod u unat_of_nat\<close>)+
  have nb: "unat (of_nat ((o' + m) div 1024) - of_nat (o' div 1024) + 1 :: u32) = k"
  proof -
    have "(of_nat ((o' + m) div 1024) - of_nat (o' div 1024) + 1 :: u32) = of_nat k" using le(1) by (simp add: assms(11))
    with le(3) show ?thesis by (simp add: unat32_of_nat)
  qed
  have lt: "fq_offset req < st_size ?st" by (simp add: word_less_nat_alt assms(3,4,7))
  have nz: "fq_size req \<noteq> 0" using assms(5,8) by auto
  have m: "ucast ?n = (of_nat m :: u64)" using n64 by (metis of_nat_unat ucast_id)
  have g: "\<not> (unat (fq_ino req) \<ge> MAX_INODES \<or> \<not> st_alloc ?st)" using assms(1,2) by (simp add: MAX_INODES_def)
  have ra: "\<not> \<not> read_allowed ?st 0" by (simp add: read_allowed_def)
  have kk: "\<not> k * BLOCK_SIZE \<ge> 2 ^ 32" using le(3) by (simp add: BLOCK_SIZE_def)
  show ?thesis
    unfolding blkfile_do_read_def Let_def prod.case if_not_P [OF g] option.case if_not_P [OF ra] if_not_P [OF nz] if_P [OF lt]
      n m u [unfolded m] s [unfolded m] nb if_not_P [OF kk]
    unfolding BLOCK_SIZE_def by (rule refl)
qed

lemma slice_map_upt:
  assumes "a \<le> b" "b + m \<le> c"
  shows "take m (drop (b - a) (map f [a..<c])) = map f [b..<b + m]"
  using assms by (simp add: take_map drop_map)

text \<open>The attributes of a new file system.\<close>

definition fresh_cache :: "file_stat list" where
  "fresh_cache = (replicate MAX_INODES zero_stat)[0 := zero_stat\<lparr>st_alloc := True, st_size := of_nat (MAX_INODES div STATS_PER_BLOCK)\<rparr>]"

lemma fresh_cache: "length fresh_cache = 128" "0 < i \<Longrightarrow> i < 128 \<Longrightarrow> fresh_cache ! i = zero_stat"
    "tl fresh_cache = zero_stat # replicate 126 zero_stat"
proof -
  have "replicate 128 zero_stat = zero_stat # zero_stat # replicate 126 zero_stat" by (simp flip: replicate_Suc)
  then show "tl fresh_cache = zero_stat # replicate 126 zero_stat" by (simp add: fresh_cache_def MAX_INODES_def)
qed (simp_all add: fresh_cache_def MAX_INODES_def)

locale blkfile_on = inode_client
begin

text \<open>What a write does after it has read the old blocks, \<open>s\<close>, \<open>N\<close> and \<open>C\<close> being as in \<open>put_file_blocks\<close>.\<close>

lemma blkfile_put_eq:
  assumes "blkfiles_ok ok files (cache, d)" "blk_contents files (cache, d) ino = Some xs" "files d ino = Some (n, dat)"
    and "length xs < 4294967296" "unat off \<le> length xs" "length data \<le> 4096"
    and s: "s = unat off div 1024" "e = (unat off + length data) div 1024"
      "P = (if length xs < unat off + length data then length xs div 1024 else e) - s + 1" "N = e - s + 1"
    and bs: "bs = (if length xs = 0 then [] else map (fbyte dat) [s * 1024..<(s + P) * 1024])"
    and C: "C = range_write (unat off mod 1024) data (bs @ replicate (N * 1024 - length bs) 0)"
  shows "\<exists>d1. ok d1 \<and> files d1 = files d \<and> room d1 = room d \<and> blkfile_put rpc ino off data (cache, d) = do {
    (w, d) \<leftarrow> multiblock_write N rpc ino (of_nat s) C d1;
    if \<not> w then Some (- 1, cache, d)
    else do {
      fss \<leftarrow> flush_stat_cache rpc (cache[unat ino := (cache ! unat ino)\<lparr>st_size := of_nat (max (length xs) (unat off + length data))\<rparr>], d);
      Some (0, fss) } }"
proof -
  from assms(1-3) have f: "length xs = unat (st_size (cache ! unat ino))" "length xs = 0 \<or> length xs div 1024 < n"
    by (auto elim: blk_contents_Some)
  have okd: "ok d" using assms(1) by (auto simp: blkfiles_ok_def)
  have se: "s \<le> e" "s \<le> length xs div 1024" "length xs div 1024 < 4294967294" "e < 4294967294"
    using assms(4-6) by (auto simp: s(1,2) intro!: div_le_mono)
  note put = blkfile_put_nat [OF f(1) [symmetric] refl assms(5,4,6) s, of rpc d, folded f(1)]
  show ?thesis
  proof (cases "length xs = 0")
    case True
    with okd put show ?thesis by (intro exI [of _ d]) (simp add: bs C)
  next
    case False
    have "e \<le> length xs div 1024" if "\<not> length xs < unat off + length data" using that unfolding s(2) by (intro div_le_mono) simp
    then have "s + P \<le> n" "s + P < 4294967296" using f(2) False se by (auto simp: s(3))
    from multiblock_read_ok [OF okd assms(3) this] obtain d1 where d1: "ok d1" "files d1 = files d" "room d1 = room d"
      "multiblock_read rpc ino (of_nat s) P d = Some (Some bs, d1)" using False by (auto simp: bs)
    with put False show ?thesis by (intro exI [of _ d1]) (simp add: C)
  qed
qed

lemma blkfile_put_ok:
  assumes "blkfiles_ok ok files (cache, d)" "blk_contents files (cache, d) ino = Some xs" "length xs < 4294967296"
    "unat off \<le> length xs" "length data \<le> 4096" "blkfile_put rpc ino off data (cache, d) = Some (r, cache', d')"
  shows "r = 0 \<and> blkfiles_ok ok files (cache', d') \<and>
    blk_contents files (cache', d') = (blk_contents files (cache, d))(ino \<mapsto> range_write (unat off) data xs)"
proof -
  from assms(1,2) obtain n dat where f: "1 \<le> unat ino" "files d ino = Some (n, dat)"
    "xs = map (fbyte dat) [0..<unat (st_size (cache ! unat ino))]"
    "length xs = unat (st_size (cache ! unat ino))" "length xs = 0 \<or> length xs div 1024 < n"
    by (rule blk_contents_Some)
  have okd: "ok d" "length cache = 128" using assms(1) by (auto simp: blkfiles_ok_def)
  have ino0: "ino \<noteq> 0" using f(1) by (auto simp: unat_eq_0)
  define S s e where "S = length xs" and "s = unat off div 1024" and "e = (unat off + length data) div 1024"
  define P N where "P = (if S < unat off + length data then S div 1024 else e) - s + 1" and "N = e - s + 1"
  define bs where "bs = (if S = 0 then [] else map (fbyte dat) [s * 1024..<(s + P) * 1024])"
  define C where "C = range_write (unat off mod 1024) data (bs @ replicate (N * 1024 - length bs) 0)"
  define M where "M = max S (unat off + length data)"
  note B = put_file_blocks [OF assms(4) s_def e_def P_def [unfolded S_def] N_def bs_def [unfolded S_def] C_def]
  note put = blkfile_put_eq [OF assms(1,2) f(2) assms(3-5) s_def e_def P_def [unfolded S_def] N_def bs_def [unfolded S_def] C_def]
  have se: "s + N < 4294967295" "s + N = e + 1" using assms(3-5) by (auto simp: s_def e_def N_def intro!: div_le_mono)
  define c2 where "c2 = cache[unat ino := (cache ! unat ino)\<lparr>st_size := of_nat M\<rparr>]"
  from put obtain d1 where d1: "ok d1" "files d1 = files d" and eq: "blkfile_put rpc ino off data (cache, d) = do {
      (w, d) \<leftarrow> multiblock_write N rpc ino (of_nat s) C d1;
      if \<not> w then Some (- 1, cache, d) else do { fss \<leftarrow> flush_stat_cache rpc (c2, d); Some (0, fss) } }"
    unfolding c2_def M_def S_def by blast
  from assms(6) eq obtain w d2 where w: "multiblock_write N rpc ino (of_nat s) C d1 = Some (w, d2)"
    by (auto split: bind_splits)
  have "files d1 ino = Some (n, dat)" "N \<noteq> 0" using f(2) d1(2) by (simp_all add: N_def)
  from multiblock_write_ok [OF d1(1) this(1) B(1) se(1) this(2) w] obtain dat' where
    w2: "w" "ok d2" "files d2 = (files d)(ino \<mapsto> (max n (e + 1), dat'))"
    "\<forall>i<4398046511104. fbyte dat' i = (if s * 1024 \<le> i \<and> i < (s + N) * 1024 then C ! (i - s * 1024) else fbyte dat i)"
    unfolding se(2) d1(2) by blast
  from assms(6) eq w w2(1) have fl: "flush_stat_cache rpc (c2, d2) = Some (cache', d')" "r = 0"
    by (auto split: bind_splits)
  from assms(1) obtain n0 dat0 where "files d 0 = Some (n0, dat0)" by (auto simp: blkfiles_ok_def)
  then have "files d2 0 = Some (n0, dat0)" using w2(3) ino0 by simp
  from flush_ok [OF w2(2) this _ fl(1)] okd(2) obtain x where
    x: "cache' = c2" "ok d'" "files d' = (files d)(ino \<mapsto> (max n (e + 1), dat'), 0 \<mapsto> x)" by (auto simp: c2_def w2(3))
  have uM: "unat (of_nat M :: u64) = M" using assms(3-5) by (simp add: unat_of_nat M_def S_def)
  have "map (fbyte dat') [0..<M] = range_write (unat off) data xs"
  proof (rule nth_equalityI)
    show "length (map (fbyte dat') [0..<M]) = length (range_write (unat off) data xs)"
      using assms(4) by (simp add: length_range_write M_def S_def)
    fix i assume "i < length (map (fbyte dat') [0..<M])"
    then have "i < M" "i < 4398046511104" using assms(3-5) by (auto simp: M_def S_def)
    with B(2) [of i] w2(4) f(3,4) show "map (fbyte dat') [0..<M] ! i = range_write (unat off) data xs ! i"
      by (simp add: M_def S_def)
  qed
  moreover have "M div 1024 < max n (e + 1)"
    using f(5) by (cases "S < unat off + length data") (auto simp: M_def S_def e_def)
  ultimately show ?thesis
    using blkfiles_update [OF assms(1,2) x(2,3) x(1) [unfolded c2_def], unfolded uM] fl(2) by simp
qed

lemma blkfile_read_ok:
  assumes "blkfiles_ok ok files (cache, d)" "blk_contents files (cache, d) ino = Some xs" "length xs < 4294967296" "n \<le> 4096"
  shows "\<exists>d' rep. fp_status rep = FILE_OK \<and>
    blkfile_do_read rpc (Some 0) ((zero_request FILE_READ ino)\<lparr>fq_offset := off, fq_size := of_nat n\<rparr>) (cache, d) =
      Some ([(rep, range_read (unat off) n xs)], cache, d') \<and> ok d' \<and> files d' = files d \<and> room d' = room d"
proof -
  let ?req = "(zero_request FILE_READ ino)\<lparr>fq_offset := off, fq_size := of_nat n\<rparr>"
  from assms(1,2) obtain nb dat where f: "1 \<le> unat ino" "unat ino < 128" "st_alloc (cache ! unat ino)"
    "files d ino = Some (nb, dat)" "xs = map (fbyte dat) [0..<unat (st_size (cache ! unat ino))]"
    "length xs = unat (st_size (cache ! unat ino))" "length xs = 0 \<or> length xs div 1024 < nb"
    by (rule blk_contents_Some)
  have okd: "ok d" using assms(1) by (auto simp: blkfiles_ok_def)
  have un: "unat (of_nat n :: u32) = n" using assms(4) by (intro unat32_of_nat) simp
  consider "n = 0" | "0 < n" "length xs \<le> unat off" | "0 < n" "unat off < length xs" by linarith
  then show ?thesis
  proof cases
    case 3
    define m k where "m = min (length xs - unat off) n" and "k = (unat off + m) div 1024 - unat off div 1024 + 1"
    have le: "unat off div 1024 \<le> (unat off + m) div 1024" by (intro div_le_mono) simp
    have "(unat off + m) div 1024 \<le> length xs div 1024" using 3(2) by (intro div_le_mono) (simp add: m_def)
    with f(7) 3(2) le assms(3) have "unat off div 1024 + k \<le> nb" "unat off div 1024 + k < 4294967296"
      by (auto simp: k_def)
    from multiblock_read_ok [OF okd f(4) this] obtain d' where
      d': "multiblock_read rpc ino (of_nat (unat off div 1024)) k d =
          Some (Some (map (fbyte dat) [unat off div 1024 * 1024..<(unat off div 1024 + k) * 1024]), d')" "ok d'" "files d' = files d" "room d' = room d"
      by blast
    have "unat off + m \<le> (unat off div 1024 + k) * 1024" using le by (simp add: k_def)
    then have "take m (drop (unat off mod 1024) (map (fbyte dat) [unat off div 1024 * 1024..<(unat off div 1024 + k) * 1024])) =
        map (fbyte dat) [unat off..<unat off + m]"
      using slice_map_upt [of "unat off div 1024 * 1024" "unat off" m "(unat off div 1024 + k) * 1024" "fbyte dat"]
      by (simp add: minus_div_mult_eq_mod)
    moreover have "range_read (unat off) n xs = map (fbyte dat) [unat off..<unat off + m]"
      using le_add_diff_inverse [OF less_imp_le [OF 3(2)]]
      by (subst f(5)) (simp add: range_read_def m_def drop_map take_map f(6) min_def)
    moreover have "length (map (fbyte dat) [unat off div 1024 * 1024..<(unat off div 1024 + k) * 1024]) = k * 1024"
      by (simp add: algebra_simps)
    moreover have req: "fq_ino ?req = ino" "fq_offset ?req = off" "unat (fq_size ?req) = n" using un by (simp_all add: zero_request_def)
    moreover note blkfile_do_read_nat [of ?req cache "length xs" "unat off" n m k rpc d, unfolded req, OF f(2,3) f(6) [symmetric] refl refl assms(3) 3(2,1) assms(4)
        m_def k_def]
    ultimately have "blkfile_do_read rpc (Some 0) ?req (cache, d) =
        Some ([((zero_reply FILE_OK)\<lparr>fp_op := FILE_READ, fp_stat := zero_stat\<lparr>st_size := of_nat m\<rparr>\<rparr>, range_read (unat off) n xs)], cache, d')"
      by (simp only: d'(1) bind.bind_lunit prod.case option.case if_False simp_thms)
    with d'(2-4) show ?thesis by (auto simp: zero_reply_def)
  next
    case 1
    with okd f(2,3) show ?thesis
      by (simp add: blkfile_do_read_def zero_request_def zero_reply_def read_allowed_def range_read_def MAX_INODES_def)
  next
    case 2
    then have "(of_nat n :: u32) \<noteq> 0" using un by (auto simp: unat_eq_0)
    with 2 okd f(2,3,6) show ?thesis
      by (simp add: blkfile_do_read_def zero_request_def zero_reply_def read_allowed_def range_read_def MAX_INODES_def word_less_nat_alt)
  qed
qed

lemma flush_returns:
  assumes "ok d" "files d 0 = Some (n, dat)" "n \<le> 256" "779 < room d"
  shows "\<exists>d'. flush_stat_cache rpc (cache, d) = Some (cache, d') \<and> room d \<le> room d' + 771"
  using multiblock_write_returns [OF assms(1-3), of 0 3 "cache_bytes cache"] assms(4)
  by (auto simp: flush_stat_cache_def cache_blocks)

lemma blkfile_put_returns:
  assumes "blkfiles_ok ok files (cache, d)" "blk_contents files (cache, d) ino = Some xs" "length xs + length data < 200 * 1024"
    "unat off \<le> length xs" "length data \<le> 4096" "files d ino = Some (n, dat)" "n \<le> 256" "files d 0 = Some (n0, dat0)" "n0 \<le> 256"
    "2100 < room d"
  shows "\<exists>r cache' d'. blkfile_put rpc ino off data (cache, d) = Some (r, cache', d') \<and> room d \<le> room d' + 2056"
proof -
  have len: "length xs < 4294967296" using assms(3) by simp
  have ino0: "ino \<noteq> 0" using assms(1,2) by (auto elim!: blk_contents_Some simp: unat_eq_0)
  define s e where "s = unat off div 1024" and "e = (unat off + length data) div 1024"
  define P N where "P = (if length xs < unat off + length data then length xs div 1024 else e) - s + 1" and "N = e - s + 1"
  define bs where "bs = (if length xs = 0 then [] else map (fbyte dat) [s * 1024..<(s + P) * 1024])"
  define C where "C = range_write (unat off mod 1024) data (bs @ replicate (N * 1024 - length bs) 0)"
  note B = put_file_blocks [OF assms(4) s_def e_def P_def N_def bs_def C_def]
  from blkfile_put_eq [OF assms(1,2,6) len assms(4,5) s_def e_def P_def N_def bs_def C_def] obtain d1 c2 where
    d1: "ok d1" "files d1 = files d" "room d1 = room d" and eq: "blkfile_put rpc ino off data (cache, d) = do {
      (w, d) \<leftarrow> multiblock_write N rpc ino (of_nat s) C d1;
      if \<not> w then Some (- 1, cache, d) else do { fss \<leftarrow> flush_stat_cache rpc (c2, d); Some (0, fss) } }" by blast
  have N: "s + N \<le> 256" "N \<le> 5" "s + N < 4294967295" "N \<noteq> 0" using assms(3-5) by (auto simp: s_def e_def N_def intro!: div_le_mono)
  have f1: "files d1 ino = Some (n, dat)" using assms(6) d1(2) by simp
  from multiblock_write_returns [OF d1(1) f1 assms(7) N(1), of C] N(2) assms(10) d1(3) obtain w d2 where
    w: "multiblock_write N rpc ino (of_nat s) C d1 = Some (w, d2)" "room d \<le> room d2 + 257 * N" by auto
  from multiblock_write_ok [OF d1(1) f1 B(1) N(3,4) w(1)] assms(8) d1(2) ino0 have
    w2: w "ok d2" "files d2 0 = Some (n0, dat0)" by auto
  from flush_returns [OF w2(2,3) assms(9), of c2] w(2) N(2) assms(10) obtain d' where
    "flush_stat_cache rpc (c2, d2) = Some (c2, d')" "room d2 \<le> room d' + 771" by auto
  with eq w w2(1) N(2) show ?thesis by simp
qed

lemma blkfile_start_ok:
  assumes "ok d" "files d 0 = Some (0, dat)" "779 < room d"
  shows "\<exists>d' dat'. blkfile_start rpc d = Some (fresh_cache, d') \<and> blkfiles_ok ok files (fresh_cache, d') \<and>
    files d' = (files d)(0 \<mapsto> (3, dat')) \<and> room d \<le> room d' + 771"
proof -
  from client_sz [OF assms(1,2)] obtain w d1 where
    d1: "block_getsize rpc 0 d = Some ((True, Some w), d1)" "unat w = 0" "ok d1" "files d1 = files d" "room d1 = room d" by blast
  have f1: "files d1 0 = Some (0, dat)" using d1(4) assms(2) by simp
  from flush_returns [OF d1(3) f1, of fresh_cache] assms(3) d1(5) obtain d2 where
    d2: "flush_stat_cache rpc (fresh_cache, d1) = Some (fresh_cache, d2)" "room d1 \<le> room d2 + 771" by auto
  from flush_ok [OF d1(3) f1 fresh_cache(1) d2(1)] obtain dat' where "ok d2" "files d2 = (files d)(0 \<mapsto> (3, dat'))"
    by (auto simp: d1(4))
  moreover have "blkfile_start rpc d = Some (fresh_cache, d2)"
    using d1(1,2) d2(1) by (simp add: blkfile_start_def load_stat_cache_def fresh_cache_def)
  ultimately show ?thesis using d2(2) d1(5) fresh_cache by (auto simp: blkfiles_ok_def zero_stat_def)
qed

lemma blkfile_create_ok:
  assumes "blkfiles_ok ok files (cache, d)" "1 \<le> ino" "ino < 128" "free_stat 1 (tl cache) = ino" "st_size (cache ! ino) = 0"
    "files d (of_nat ino) = Some (n, dat)" "files d 0 = Some (n0, dat0)" "n0 \<le> 256" "779 < room d"
  shows "\<exists>cache' d' dat'. blkfile_do_create rpc (Some uid) req (cache, d) =
      Some ([((zero_reply FILE_OK)\<lparr>fp_ino := of_nat ino\<rparr>, [])], cache', d') \<and> blkfiles_ok ok files (cache', d') \<and>
    blk_contents files (cache', d') = (blk_contents files (cache, d))(of_nat ino \<mapsto> []) \<and>
    files d' = (files d)(0 \<mapsto> (max n0 3, dat')) \<and> room d \<le> room d' + 771"
proof -
  define cache' where "cache' = cache[ino := (cache ! ino)\<lparr>st_alloc := True, st_mode := fq_mode req, st_uid := uid\<rparr>]"
  from assms(1) have ok: "ok d" "length cache = 128" by (simp_all add: blkfiles_ok_def)
  have nz: "(of_nat i :: u32) \<noteq> 0" "unat (of_nat i :: u32) = i" if "1 \<le> i" "i < 128" for i
    using unat32_of_nat [of i] that by (auto simp: unat_eq_0)
  from flush_returns [OF ok(1) assms(7-9), of cache'] obtain d' where
    d': "flush_stat_cache rpc (cache', d) = Some (cache', d')" "room d \<le> room d' + 771" by blast
  have "length cache' = 128" using ok(2) by (simp add: cache'_def)
  from flush_ok [OF ok(1) assms(7) this d'(1)] obtain dat' where
    f: "ok d'" "files d' = (files d)(0 \<mapsto> (max n0 3, dat'))" by blast
  have run: "blkfile_do_create rpc (Some uid) req (cache, d) =
      Some ([((zero_reply FILE_OK)\<lparr>fp_ino := of_nat ino\<rparr>, [])], cache', d')"
    using assms(3,4) d'(1) by (simp add: blkfile_do_create_def Let_def MAX_INODES_def cache'_def)
  have "blkfiles_ok ok files (cache', d')"
    unfolding blkfiles_ok_def prod.case
  proof (intro conjI allI impI)
    fix i assume i: "1 \<le> i \<and> i < 128 \<and> st_alloc (cache' ! i)"
    show "\<exists>n dat. files d' (of_nat i) = Some (n, dat) \<and> (st_size (cache' ! i) = 0 \<or> unat (st_size (cache' ! i)) div 1024 < n)"
    proof (cases "i = ino")
      case True
      then show ?thesis using i ok(2) assms(5,6) nz [of ino] by (simp add: f(2) cache'_def)
    next
      case False
      then show ?thesis using i assms(1) nz [of i] by (simp add: blkfiles_ok_def f(2) cache'_def)
    qed
  qed (use ok f in \<open>simp_all add: cache'_def\<close>)
  moreover have "blk_contents files (cache', d') = (blk_contents files (cache, d))(of_nat ino \<mapsto> [])"
  proof
    fix j
    show "blk_contents files (cache', d') j = ((blk_contents files (cache, d))(of_nat ino \<mapsto> [])) j"
    proof (cases "j = of_nat ino")
      case True
      with assms(2,3,5,6) ok(2) nz [of ino] show ?thesis by (simp add: blk_contents_def f(2) cache'_def)
    next
      case False
      then have "unat j \<noteq> ino" using nz(2) [OF assms(2,3)] by (auto simp: unat32_inject [symmetric])
      with False show ?thesis by (auto simp: blk_contents_def f(2) cache'_def)
    qed
  qed
  ultimately show ?thesis using run f(2) d'(2) by blast
qed

lemma blkfile_rpc:
  assumes "length data \<le> 4096"
  shows "file_write (file_rpc_to (blkfile_proc rpc user)) ino off data fss = map_option (\<lambda>(reps, fss).
      (case reps of [] \<Rightarrow> False | rep # _ \<Rightarrow> fp_status (fst rep) = FILE_OK, fss))
      (blkfile_do_write rpc user ((zero_request FILE_WRITE ino)\<lparr>fq_offset := off, fq_size := of_nat (length data)\<rparr>) data fss)"
    "file_read (file_rpc_to (blkfile_proc rpc user)) ino off n fss = map_option (\<lambda>(reps, fss).
      (case reps of [] \<Rightarrow> None | (rep, bs) # _ \<Rightarrow> if fp_status rep \<noteq> FILE_OK then None else Some (take n bs), fss))
      (blkfile_do_read rpc user ((zero_request FILE_READ ino)\<lparr>fq_offset := off, fq_size := of_nat n\<rparr>) fss)"
  using assms
  by (cases "blkfile_do_write rpc user ((zero_request FILE_WRITE ino)\<lparr>fq_offset := off, fq_size := of_nat (length data)\<rparr>) data fss";
      cases "blkfile_do_read rpc user ((zero_request FILE_READ ino)\<lparr>fq_offset := off, fq_size := of_nat n\<rparr>) fss";
      auto simp: file_write_def file_read_def file_status_call_def file_rpc_to_def blkfile_proc_def zero_request_def
        split: list.splits)+

lemma blkfile_do_write_put:
  assumes "blkfiles_ok ok files (cache, d)" "blk_contents files (cache, d) ino = Some xs"
  shows "blkfile_do_write rpc (Some 0) ((zero_request FILE_WRITE ino)\<lparr>fq_offset := off, fq_size := of_nat (length data)\<rparr>) data (cache, d) =
    map_option (\<lambda>(r, fss). ([blkfile_respond (if r = 0 then FILE_OK else FILE_ERROR)], fss)) (blkfile_put rpc ino off data (cache, d))"
  using assms by (cases "blkfile_put rpc ino off data (cache, d)")
    (auto elim!: blk_contents_Some simp: blkfile_do_write_def zero_request_def MAX_INODES_def write_allowed_def)

end

sublocale blkfile_on \<subseteq> store: file_store "file_rpc_to (blkfile_proc rpc (Some 0))" "blkfiles_ok ok files" "blk_contents files"
proof (unfold_locales, goal_cases)
  case (1 fss ino xs n off)
  obtain cache d where fss: "fss = (cache, d)" by (cases fss)
  from blkfile_read_ok [OF 1(1,2) [unfolded fss] 1(3,4), of off] obtain d' rep where
    r: "fp_status rep = FILE_OK" "blkfile_do_read rpc (Some 0) ((zero_request FILE_READ ino)\<lparr>fq_offset := off, fq_size := of_nat n\<rparr>) (cache, d) =
      Some ([(rep, range_read (unat off) n xs)], cache, d')" "ok d'" "files d' = files d" by blast
  with 1(1) show ?case
    by (auto simp: fss blkfile_rpc(2) [where data = "[]"] range_read_def blkfiles_ok_def blk_contents_def fun_eq_iff)
next
  case (2 fss ino xs off data r fss')
  obtain cache d where fss: "fss = (cache, d)" by (cases fss)
  note a = 2(1,2) [unfolded fss]
  from 2(6) obtain rc cache' d' where "blkfile_put rpc ino off data (cache, d) = Some (rc, cache', d')" "r \<longleftrightarrow> rc = 0" "fss' = (cache', d')"
    by (auto simp: fss blkfile_rpc(1) [OF 2(5)] blkfile_do_write_put [OF a] blkfile_respond_def zero_reply_def split: if_splits)
  with blkfile_put_ok [OF a 2(3-5)] show ?case by (auto simp: fss)
qed

end
