(* ===== verification/VirtSvr.thy ===== *)
theory VirtSvr
  imports TreeDiskStore PhysSvr BlkFileInv
begin

text \<open>
  The virtual block server (\<open>block_init("virt", below)\<close> in \<open>egos/grass/blocksvr.c\<close>): a cache on a
  partition of the physical server, on it a tree file system, whose inodes are the inodes of the
  server. It keeps what the file server needs (locale \<open>inode_client\<close>).
\<close>

section \<open>Starting the server\<close>

definition NCACHE_BLOCKS :: nat where
  "NCACHE_BLOCKS = 20"

definition tree_inode :: "'s block_store_t \<Rightarrow> u32 \<Rightarrow> 's block_store_t" where
  "tree_inode below ino = \<lparr>bs_nblocks = treedisk_nblocks below ino, bs_read = treedisk_read below ino,
     bs_write = treedisk_write below ino, bs_setsize = treedisk_setsize below ino\<rparr>"

text \<open>The methods of a null pointer, which \<open>treedisk_init\<close> returns when there is no such inode.\<close>

definition null_store :: "'s block_store_t" where
  "null_store = \<lparr>bs_nblocks = (\<lambda>s. None), bs_read = (\<lambda>s offset. None), bs_write = (\<lambda>s offset block. None),
     bs_setsize = (\<lambda>s nblocks. None)\<rparr>"

fun init_inodes :: "'s block_store_t \<Rightarrow> nat \<Rightarrow> u32 \<Rightarrow> 's \<Rightarrow> ('s block_store_t list \<times> 's) option" where
  "init_inodes below 0 inode s = Some ([], s)"
| "init_inodes below (Suc n) inode s = do {
     (r, s) \<leftarrow> treedisk_init below s inode;
     (bss, s) \<leftarrow> init_inodes below n (inode + 1) s;
     Some ((case r of None \<Rightarrow> null_store | Some ino \<Rightarrow> tree_inode below ino) # bss, s) }"

text \<open>
  The inodes and the state of the cache and the disk; \<open>physdisk\<close> is \<open>protdisk_init below FILE_PARTITION\<close>,
  \<open>cache\<close> the blocks of the uninitialised memory of the cache.
\<close>

definition block_init_virt :: "'s block_store_t \<Rightarrow> block list \<Rightarrow> 's \<Rightarrow>
    ((clockdisk_state \<times> 's) block_store_t list \<times> clockdisk_state \<times> 's) option" where
  "block_init_virt physdisk cache s = do {
     (r, s) \<leftarrow> treedisk_create (clockdisk_store physdisk) (clockdisk_init cache (of_nat NCACHE_BLOCKS), s) (of_nat MAX_INODES);
     if r < 0 then None
     else init_inodes (clockdisk_store physdisk) MAX_INODES 0 s }"

section \<open>Sizes of trees\<close>

lemma size_sum: "finite A \<Longrightarrow> size (sum f A :: 'b multiset) = (\<Sum>a\<in>A. size (f a))"
  by (induction rule: finite_induct) simp_all

text \<open>The most blocks in a tree with \<open>n\<close> levels above the data.\<close>

primrec tree_cap :: "nat \<Rightarrow> nat" where
  "tree_cap 0 = 1"
| "tree_cap (Suc n) = 1 + 256 * tree_cap n"

lemma size_tree: "size (tree_mset D n b) \<le> tree_cap n"
proof (induction n arbitrary: b)
  case 0
  then show ?case by (simp add: opt_ref_def)
next
  case (Suc n)
  have "(\<Sum>i<256. size (tree_mset D n (rd32 (D ! unat b) i))) \<le> (\<Sum>i<256::nat. tree_cap n)"
    by (rule sum_mono) (rule Suc)
  then have "(\<Sum>i<256. size (tree_mset D n (rd32 (D ! unat b) i))) \<le> 256 * tree_cap n" by simp
  then show ?case unfolding tree_mset.simps(2) by (simp add: size_sum)
qed

definition file_cap :: "u32 \<Rightarrow> nat" where
  "file_cap n = (if n = 0 then 0 else tree_cap (tree_levels n))"

definition disk_cap :: "block list \<Rightarrow> nat" where
  "disk_cap D = (\<Sum>i<n_inodes_of D. file_cap (f_size D i))"

lemma file_cap_small: "unat n \<le> 256 \<Longrightarrow> file_cap n \<le> 257"
proof -
  assume "unat n \<le> 256"
  then have "tree_levels n \<le> 1" by (intro tree_levels_least) simp
  then consider "tree_levels n = 0" | "tree_levels n = 1" by linarith
  then show ?thesis by cases (simp_all add: file_cap_def)
qed

lemma size_all_blocks: "fs_wf D F \<Longrightarrow> size (all_blocks D) \<le> disk_cap D"
proof -
  assume wf: "fs_wf D F"
  have "size (f_blocks D i) \<le> file_cap (f_size D i)" if i: "i < n_inodes_of D" for i
    using wf i size_tree [of D "tree_levels (f_size D i)" "f_root D i"] by (auto simp: fs_wf_def file_cap_def f_blocks_def)
  then show ?thesis unfolding all_blocks_def disk_cap_def by (subst size_sum) (auto intro: sum_mono)
qed

text \<open>What a write to a small file may take.\<close>

lemma disk_cap_write:
  assumes "others_same i D D'" "i < n_inodes_of D" "unat (f_size D' i) \<le> 256"
  shows "disk_cap D' \<le> disk_cap D + 257"
proof -
  have n: "n_inodes_of D' = n_inodes_of D" using assms(1) by (simp add: others_same_def)
  have e: "disk_cap E = file_cap (f_size E i) + (\<Sum>j\<in>{..<n_inodes_of D} - {i}. file_cap (f_size E j))"
    if "n_inodes_of E = n_inodes_of D" for E
    using that assms(2) by (simp add: disk_cap_def sum.remove)
  have "(\<Sum>j\<in>{..<n_inodes_of D} - {i}. file_cap (f_size D' j)) = (\<Sum>j\<in>{..<n_inodes_of D} - {i}. file_cap (f_size D j))"
    using assms(1) by (intro sum.cong) (auto simp: others_same_def)
  with e [OF refl] e [OF n] file_cap_small [OF assms(3)] show ?thesis by simp
qed

section \<open>The server as its clients see it\<close>

text \<open>\<open>tot\<close> is the number of blocks in the trees and on the free list, which no write changes.\<close>

definition virt_ok :: "nat \<Rightarrow> ('s \<Rightarrow> bool) \<Rightarrow> ('s \<Rightarrow> block list) \<Rightarrow> 's \<Rightarrow> bool" where
  "virt_ok tot ok img s \<longleftrightarrow> ok s \<and> (\<exists>F. fs_wf (img s) F \<and> size (all_blocks (img s)) + size F = tot)"

definition virt_files :: "('s \<Rightarrow> block list) \<Rightarrow> 's \<Rightarrow> u32 file_view" where
  "virt_files img s ino = (if unat ino < 128 then tree_files img s ino else None)"

definition virt_room :: "nat \<Rightarrow> ('s \<Rightarrow> block list) \<Rightarrow> 's \<Rightarrow> nat" where
  "virt_room tot img s = tot - disk_cap (img s)"

definition tree_inodes :: "'s block_store_t \<Rightarrow> 's block_store_t list" where
  "tree_inodes below = map (\<lambda>i. tree_inode below (of_nat i)) [0..<MAX_INODES]"

lemma tree_inodes_nth: "unat ino < 128 \<Longrightarrow> tree_inodes below ! unat ino = tree_inode below ino"
  by (simp add: tree_inodes_def MAX_INODES_def)

lemma tree_inodes_serves: "unat ino < 128 \<Longrightarrow> serves (tree_inodes below) ino"
  by (simp add: serves_def tree_inodes_def MAX_INODES_def)

locale virt_on = treedisk_on bs ok img for bs :: "'s block_store_t" and ok img +
  fixes tot :: nat
begin

lemma virt_filesD:
  assumes "virt_files img s ino = Some (n, dat)"
  shows "unat ino < 128" "unat ino < n_inodes_of (img s)" "n = unat (f_size (img s) (unat ino))" "dat = f_data (img s) (unat ino)"
  using assms by (auto simp: virt_files_def tree_files_def split: if_splits)

lemma virt_nblocks:
  assumes "virt_ok tot ok img s" "virt_files img s ino = Some (n, dat)"
  shows "\<exists>s'. treedisk_nblocks bs ino s = Some (sint (f_size (img s) (unat ino)), s') \<and> ok s' \<and> img s' = img s"
proof -
  from assms(1) obtain F where s: "ok s" "fs_wf (img s) F" by (auto simp: virt_ok_def)
  with get_snapshot_sim [OF s(1), of ino] get_snapshot_img [OF s(2), of ino] virt_filesD(2) [OF assms(2)]
  show ?thesis by (auto simp: treedisk_nblocks_def snap_def sim_def sn_nblocks_def f_size_def)
qed

end

sublocale virt_on \<subseteq> virt: inode_client "rpc_to (block_proc (tree_inodes bs))" "virt_ok tot ok img" "virt_files img"
    "virt_room tot img"
proof (unfold_locales, goal_cases)
  case (1 s ino n dat)
  note i = virt_filesD [OF 1(2)]
  from virt_nblocks [OF 1] obtain s' where "treedisk_nblocks bs ino s = Some (sint (f_size (img s) (unat ino)), s')" "ok s'" "img s' = img s"
    by blast
  with 1(1) i show ?case
    by (auto simp: block_getsize_rpc [OF tree_inodes_serves] tree_inodes_nth tree_inode_def virt_ok_def virt_files_def
        tree_files_def virt_room_def fun_eq_iff)
next
  case (2 s ino n dat off)
  note i = virt_filesD [OF 2(2)]
  from 2(1) obtain F where s: "ok s" "fs_wf (img s) F" by (auto simp: virt_ok_def)
  from tree_read [OF s, of ino off] i obtain s' where
    "treedisk_read bs ino s off = Some (if unat off < n then Some (dat off) else None, s')" "ok s'" "img s' = img s"
    by (auto simp: word_less_nat_alt)
  with 2(1) i show ?case
    by (auto simp: block_read_rpc [OF tree_inodes_serves] tree_inodes_nth tree_inode_def virt_ok_def virt_files_def
        tree_files_def virt_room_def fun_eq_iff)
next
  case (3 s ino n dat off b r s')
  note i = virt_filesD [OF 3(2)]
  from 3(1) obtain F where s: "ok s" "fs_wf (img s) F" "size (all_blocks (img s)) + size F = tot" by (auto simp: virt_ok_def)
  from 3(4) i(1) obtain rc where w: "treedisk_write bs ino s off b = Some (rc, s')" "r \<longleftrightarrow> rc \<ge> 0"
    by (auto simp: block_write_rpc [OF tree_inodes_serves] tree_inodes_nth tree_inode_def)
  from tree_write [OF s(1,2) i(2) 3(3), of b] w(1) obtain F' where t: "rc = 0" "ok s'" "fs_wf (img s') F'"
    "f_size (img s') (unat ino) = max (f_size (img s) (unat ino)) (off + 1)"
    "f_data (img s') (unat ino) = (f_data (img s) (unat ino))(off := b)"
    "others_same (unat ino) (img s) (img s')" "all_blocks (img s') + F' = all_blocks (img s) + F" by auto
  have "virt_ok tot ok img s'" using t(2,3) s(3) arg_cong [OF t(7), of size] by (auto simp: virt_ok_def)
  moreover have "tree_files img s' = (tree_files img s)(ino \<mapsto> (max n (Suc (unat off)), dat(off := b)))"
    using tree_files_update [of ino img, OF t(6) i(2)] unat_max_extend [OF 3(3)] i(3,4) t(4,5) by simp
  ultimately show ?case using w(2) t(1) i(1) by (auto simp: virt_files_def fun_eq_iff)
next
  case (4 s ino n dat off b)
  note i = virt_filesD [OF 4(2)]
  from 4(1) obtain F where s: "ok s" "fs_wf (img s) F" "size (all_blocks (img s)) + size F = tot" by (auto simp: virt_ok_def)
  from size_all_blocks [OF s(2)] s(3) 4(4) have F: "8 < size F" by (simp add: virt_room_def)
  have off: "off \<noteq> - 1" using 4(3) unat32_minus_one by auto
  from tree_write [OF s(1,2) i(2) off, of b] F obtain s' where t: "treedisk_write bs ino s off b = Some (0, s')"
    "f_size (img s') (unat ino) = max (f_size (img s) (unat ino)) (off + 1)" "others_same (unat ino) (img s) (img s')" by auto
  have "unat (f_size (img s') (unat ino)) \<le> 256" using 4(3) unat_max_extend [OF off] t(2) i(3) by simp
  from disk_cap_write [OF t(3) i(2) this] t(1) i(1) show ?case
    by (auto simp: block_write_rpc [OF tree_inodes_serves] tree_inodes_nth tree_inode_def virt_room_def)
qed


context virt_on
begin

lemma virt_contract:
  "inode_client (rpc_to (block_proc (tree_inodes bs))) (virt_ok tot ok img) (virt_files img) (virt_room tot img)"
  by (rule virt.inode_client_axioms)

end

context treedisk_on
begin

lemma init_inodes_ok:
  assumes "ok s" "fs_wf (img s) F" "k + n \<le> n_inodes_of (img s)" "k + n < 4294967296"
  shows "\<exists>s'. init_inodes bs n (of_nat k) s = Some (map (\<lambda>i. tree_inode bs (of_nat i)) [k..<k + n], s') \<and> ok s' \<and> img s' = img s"
  using assms
proof (induction n arbitrary: k s)
  case (Suc n)
  have "unat (of_nat k :: u32) < n_inodes_of (img s)" using Suc.prems(3,4) unat32_of_nat [of k] by simp
  with get_snapshot_sim [OF Suc.prems(1), of "of_nat k"] get_snapshot_img [OF Suc.prems(2), of "of_nat k"] obtain s1 where
    s1: "treedisk_init bs s (of_nat k) = Some (Some (of_nat k), s1)" "ok s1" "img s1 = img s"
    by (auto simp: treedisk_init_def sim_def)
  from Suc.IH [OF s1(2), of "Suc k"] Suc.prems s1(3) obtain s' where
    s': "init_inodes bs n (of_nat (Suc k)) s1 = Some (map (\<lambda>i. tree_inode bs (of_nat i)) [Suc k..<Suc k + n], s')" "ok s'" "img s' = img s"
    by auto
  have "(of_nat k + 1 :: u32) = of_nat (Suc k)" by simp
  with s1(1) s' show ?case by (simp add: upt_conv_Cons del: of_nat_Suc upt_Suc)
qed simp

lemma tree_start:
  assumes "ok s" "super_n_inodeblocks (img s ! 0) = 0" "3 \<le> length (img s)"
  shows "\<exists>s1 s2. treedisk_create bs s 128 = Some (0, s1) \<and> init_inodes bs 128 0 s1 = Some (tree_inodes bs, s2) \<and>
    virt_ok (length (img s) - 2) ok img s2 \<and> virt_room (length (img s) - 2) img s2 = length (img s) - 2 \<and>
    (\<forall>ino. unat ino < 128 \<longrightarrow> (\<exists>dat. virt_files img s2 ino = Some (0, dat)))"
proof -
  have n: "inode_blocks_for 128 = 1" by (simp add: inode_blocks_for_def)
  from tree_create [OF assms(1), of 128] assms(2,3) obtain s1 where
    s1: "treedisk_create bs s 128 = Some (0, s1)" "ok s1" "fs_wf (img s1) (rng 2 (length (img s)))" "n_inodes_of (img s1) = 128"
      "\<forall>i<128. f_size (img s1) i = 0" by (auto simp: n numeral_2_eq_2)
  from init_inodes_ok [OF s1(2,3), of 0 128] s1(4) obtain s2 where
    s2: "init_inodes bs 128 0 s1 = Some (tree_inodes bs, s2)" "ok s2" "img s2 = img s1"
    by (auto simp: tree_inodes_def MAX_INODES_def)
  have cap: "disk_cap (img s1) = 0" by (simp add: disk_cap_def s1(4,5) file_cap_def)
  with size_all_blocks [OF s1(3)] have "virt_ok (length (img s) - 2) ok img s2"
    using s1(3) s2(2,3) by (auto simp: virt_ok_def rng_size intro!: exI [of _ "rng 2 (length (img s))"])
  moreover have "\<exists>dat. virt_files img s2 ino = Some (0, dat)" if "unat ino < 128" for ino
    using that s1(4,5) by (simp add: virt_files_def tree_files_def s2(3))
  ultimately show ?thesis using s1(1) s2(1,3) cap by (auto simp: virt_room_def)
qed

end

interpretation ram_virt: virt_on ramdisk_store ramdisk_ok ramdisk_img tot for tot
  by unfold_locales

interpretation ram_blkfile: blkfile_on "rpc_to (block_proc (tree_inodes ramdisk_store))" "virt_ok tot ramdisk_ok ramdisk_img"
    "virt_files ramdisk_img" "virt_room tot ramdisk_img" for tot
  by (intro blkfile_on.intro ram_virt.virt_contract)

end
