(* ===== verification/FileStack.thy ===== *)
theory FileStack
  imports VirtSvr
begin

text \<open>
  The storage stack that \<open>main.c\<close> builds: the file server, on the virtual block server, on the
  physical block server, on the disk. The servers below the file server are seen through their
  clients, so every step encodes a message and decodes the reply.
\<close>

section \<open>A first file on an empty file server\<close>

context blkfile_on
begin

lemma file_session:
  assumes "ok d" "\<forall>ino. unat ino < 128 \<longrightarrow> (\<exists>dat. files d ino = Some (0, dat))" "5000 < room d" "length data \<le> 4096"
  defines "F \<equiv> file_rpc_to (blkfile_proc rpc (Some 0))"
  shows "\<exists>fss1 fss2 fss3 fss4. blkfile_start rpc d = Some fss1 \<and> file_create F mode fss1 = Some ((True, Some 1), fss2) \<and>
    file_write F 1 0 data fss2 = Some (True, fss3) \<and> file_read F 1 0 (length data) fss3 = Some (Some data, fss4)"
proof -
  from spec [OF assms(2), of 0] obtain dat0 where f0: "files d 0 = Some (0, dat0)" by auto
  from spec [OF assms(2), of 1] obtain dat1 where f1: "files d 1 = Some (0, dat1)" by auto
  from blkfile_start_ok [OF assms(1) f0] assms(3) obtain d1 x1 where
    d1: "blkfile_start rpc d = Some (fresh_cache, d1)" "blkfiles_ok ok files (fresh_cache, d1)"
      "files d1 = (files d)(0 \<mapsto> (3, x1))" "room d \<le> room d1 + 771" by auto
  let ?req = "(zero_request FILE_CREATE 0)\<lparr>fq_mode := mode\<rparr>"
  have "free_stat 1 (tl fresh_cache) = 1" "st_size (fresh_cache ! 1) = 0"
    using fresh_cache(2) [of 1] by (simp_all add: fresh_cache(3) zero_stat_def)
  from blkfile_create_ok [OF d1(2) _ _ this, of 0 dat1 3 x1 0 ?req] d1(3,4) f1 assms(3) obtain c2 d2 x2 where
    d2: "blkfile_do_create rpc (Some 0) ?req (fresh_cache, d1) = Some ([((zero_reply FILE_OK)\<lparr>fp_ino := 1\<rparr>, [])], c2, d2)"
      "blkfiles_ok ok files (c2, d2)" "blk_contents files (c2, d2) = (blk_contents files (fresh_cache, d1))(1 \<mapsto> [])"
      "files d2 = (files d1)(0 \<mapsto> (3, x2))" "room d1 \<le> room d2 + 771" by auto
  have create: "file_create F mode (fresh_cache, d1) = Some ((True, Some 1), c2, d2)"
    using d2(1) by (simp add: file_create_def F_def file_rpc_to_def blkfile_proc_def zero_request_def zero_reply_def)
  have c2: "blk_contents files (c2, d2) 1 = Some []" by (simp add: d2(3))
  have "files d2 1 = Some (0, dat1)" "files d2 0 = Some (3, x2)" using f1 by (simp_all add: d2(4) d1(3))
  with blkfile_put_returns [OF d2(2) c2, of data 0 0 dat1 3 x2] assms(3,4) d1(4) d2(5) obtain rc c3 d3 where
    p: "blkfile_put rpc 1 0 data (c2, d2) = Some (rc, c3, d3)" by auto
  have w: "\<exists>r. file_write F 1 0 data (c2, d2) = Some (r, c3, d3)"
    unfolding F_def blkfile_rpc(1) [OF assms(4)] blkfile_do_write_put [OF d2(2) c2] p by simp
  then obtain r where w: "file_write F 1 0 data (c2, d2) = Some (r, c3, d3)" by blast
  have "0 \<le> length ([] :: u8 list)" by simp
  with store.write_law [OF d2(2) c2 _ _ assms(4) w [unfolded F_def]] have r by simp
  with w have "file_write F 1 0 data (c2, d2) = Some (True, c3, d3)" by simp
  moreover have "\<exists>fss4. file_read F 1 0 (length data) (c3, d3) = Some (Some data, fss4)"
    using store.read_after_write [OF d2(2) c2 _ _ assms(4) w [unfolded F_def]] assms(4) by (simp add: F_def)
  ultimately show ?thesis using d1(1) create by blast
qed

end

section \<open>The stack\<close>

context clock_over
begin

lemma virt_start:
  assumes "ok s" "length cache = 20" "super_n_inodeblocks (img s ! 0) = 0" "3 \<le> length (img s)"
  shows "\<exists>st. block_init_virt bs cache s = Some (tree_inodes (clockdisk_store bs), st) \<and>
    virt_ok (length (img s) - 2) (clock_ok ok img) (clock_img img) st \<and>
    virt_room (length (img s) - 2) (clock_img img) st = length (img s) - 2 \<and>
    (\<forall>ino. unat ino < 128 \<longrightarrow> (\<exists>dat. virt_files (clock_img img) st ino = Some (0, dat)))"
proof -
  have "clock_ok ok img (clockdisk_init cache 20, s)"
    using assms(1,2) by (simp add: clock_init_wf clock_init_coherent)
  from treedisk_on.tree_start [OF treedisk_on_intro [OF cached.block_store_axioms] this] assms(3,4) show ?thesis
    by (auto simp: block_init_virt_def NCACHE_BLOCKS_def MAX_INODES_def)
qed

end

lemma phys_init_ok:
  assumes "block_store disk ok img" "ok s" "length (img s) = DISK_SIZE"
  shows "phys_ok ok img (snd (block_init_phys disk), s)"
    "part_view img 1 (snd (block_init_phys disk), s) = drop PG_DEV_BLOCKS (img s)"
  using assms(2,3) by (simp_all add: block_init_phys_def phys_ok_def part_ok_def disjoint_parts_def partdisk_init_def
      part_view_def part_img_def PG_DEV_BLOCKS_def DISK_SIZE_def BLOCK_SIZE_def)

text \<open>The store below the virtual block server.\<close>

definition phys_client :: "'s block_store_t \<Rightarrow> (partdisk_state list \<times> 's) block_store_t" where
  "phys_client disk = protdisk_init (rpc_to (block_proc (fst (block_init_phys disk)))) 1"

lemma phys_client_over:
  assumes "block_store disk ok img"
  shows "clock_over (phys_client disk) (phys_ok ok img) (part_view img 1)"
proof -
  have "phys_on disk ok img" using assms by (simp add: phys_on_def partdisk_on_def)
  from phys_on.served_part [OF this, of 1] show ?thesis
    by (auto simp: clock_over_def phys_client_def dest: served_store.remote_store)
qed

section \<open>Properties\<close>



end
