(* ===== verification/DiskSvr.thy ===== *)
theory DiskSvr
  imports BlockSvr "HOL-Library.Multiset"
begin

text \<open>
  The disk device (\<open>egos/earth/devdisk.c\<close>), the events it schedules (\<open>intr_sched_event\<close> and the
  first loop of \<open>intr_suspend\<close> in \<open>egos/earth/intr.c\<close>) and the disk server (\<open>egos/grass/disksvr.c\<close>).
  The file that simulates the disk is a function from block numbers to blocks: a read beyond its
  end gives zeros. What the host's \<open>read\<close> and \<open>write\<close> return is an argument: \<open>host_rd\<close> says whether a
  read succeeds; \<open>host_wr\<close> is \<open>None\<close> for a complete write and otherwise gives what a failed or short
  write left in the block. A request is answered at once or, for a read or write that reached
  the device, when its event is handled.
\<close>

section \<open>The device\<close>

record dev_disk =
  dd_file :: "u32 \<Rightarrow> block"
  dd_nblocks :: u32

definition disk_seek :: "dev_disk \<Rightarrow> u32 \<Rightarrow> unit option" where
  "disk_seek dd offset = (if offset < dd_nblocks dd then Some () else None)"

definition dev_disk_write :: "block option \<Rightarrow> dev_disk \<Rightarrow> u32 \<Rightarrow> block \<Rightarrow> (bool \<times> dev_disk) option" where
  "dev_disk_write host_wr dd offset data = do {
     disk_seek dd offset;
     (case host_wr of
        None \<Rightarrow> Some (True, dd\<lparr>dd_file := (dd_file dd)(offset := data)\<rparr>)
      | Some rest \<Rightarrow> Some (False, dd\<lparr>dd_file := (dd_file dd)(offset := rest)\<rparr>)) }"

definition dev_disk_read :: "bool \<Rightarrow> dev_disk \<Rightarrow> u32 \<Rightarrow> (bool \<times> block) option" where
  "dev_disk_read host_rd dd offset = do {
     disk_seek dd offset;
     Some (if host_rd then (True, dd_file dd offset) else (False, null_block)) }"

section \<open>The server\<close>

text \<open>A scheduled completion: the process that waits for it, the success and the data read.\<close>

datatype disk_event = Disk_read_complete u32 bool block | Disk_write_complete u32 bool

record disk_server_state =
  dss_dd :: dev_disk
  dss_nblocks :: u32
  dss_events :: "disk_event list"

definition intr_sched_event :: "disk_event \<Rightarrow> disk_server_state \<Rightarrow> disk_server_state" where
  "intr_sched_event ev dss = dss\<lparr>dss_events := dss_events dss @ [ev]\<rparr>"

definition disk_respond :: "block_status \<Rightarrow> u8 list \<Rightarrow> u8 list" where
  "disk_respond status data = block_reply status 0 data"

definition disk_read_complete :: "bool \<Rightarrow> block \<Rightarrow> u8 list" where
  "disk_read_complete success data =
     (if success then block_reply BLOCK_OK 1 (block_bytes data) else block_reply BLOCK_ERROR 1 [])"

definition disk_write_complete :: "bool \<Rightarrow> u8 list" where
  "disk_write_complete success = block_reply (if success then BLOCK_OK else BLOCK_ERROR) 1 []"

definition disk_do_read :: "bool \<Rightarrow> u32 \<Rightarrow> u32 \<Rightarrow> u32 \<Rightarrow> disk_server_state \<Rightarrow> (u8 list option \<times> disk_server_state) option" where
  "disk_do_read host_rd ino offset src dss =
     (if ino \<noteq> 0 then Some (Some (disk_respond BLOCK_ERROR []), dss)
      else do {
        (success, data) \<leftarrow> dev_disk_read host_rd (dss_dd dss) offset;
        Some (None, intr_sched_event (Disk_read_complete src success data) dss) })"

definition disk_do_write :: "block option \<Rightarrow> u32 \<Rightarrow> u32 \<Rightarrow> u8 list \<Rightarrow> u32 \<Rightarrow> disk_server_state \<Rightarrow>
    (u8 list option \<times> disk_server_state) option" where
  "disk_do_write host_wr ino offset data src dss =
     (if length data \<noteq> BLOCK_SIZE then None
      else if ino \<noteq> 0 then Some (Some (disk_respond BLOCK_ERROR []), dss)
      else do {
        (success, dd) \<leftarrow> dev_disk_write host_wr (dss_dd dss) offset (bytes_block data);
        Some (None, intr_sched_event (Disk_write_complete src success) (dss\<lparr>dss_dd := dd\<rparr>)) })"

definition disk_do_getsize :: "u32 \<Rightarrow> disk_server_state \<Rightarrow> u8 list" where
  "disk_do_getsize ino dss =
     (if ino \<noteq> 0 then disk_respond BLOCK_ERROR [] else block_reply BLOCK_OK (dss_nblocks dss) [])"

definition disk_do_setsize :: "u8 list" where
  "disk_do_setsize = disk_respond BLOCK_ERROR []"

text \<open>One turn of the loop of \<open>disk_proc\<close>; the result is the reply sent at once, if any.\<close>

definition disk_proc :: "bool \<Rightarrow> block option \<Rightarrow> u8 list \<Rightarrow> u32 \<Rightarrow> disk_server_state \<Rightarrow>
    (u8 list option \<times> disk_server_state) option" where
  "disk_proc host_rd host_wr msg src dss = (let req = take (8 + 4096) msg in
     if length req < 12 then None
     else case num_block_type (get32 req 0) of
       Some BLOCK_READ \<Rightarrow> disk_do_read host_rd (get32 req 4) (get32 req 8) src dss
     | Some BLOCK_WRITE \<Rightarrow> disk_do_write host_wr (get32 req 4) (get32 req 8) (drop 12 req) src dss
     | Some BLOCK_GETSIZE \<Rightarrow> Some (Some (disk_do_getsize (get32 req 4) dss), dss)
     | Some BLOCK_SETSIZE \<Rightarrow> Some (Some disk_do_setsize, dss)
     | _ \<Rightarrow> None)"

text \<open>\<open>dev_disk_complete\<close> for one event: the receiver and the reply.\<close>

fun dev_disk_complete :: "disk_event \<Rightarrow> u32 \<times> u8 list" where
  "dev_disk_complete (Disk_read_complete src success data) = (src, disk_read_complete success data)"
| "dev_disk_complete (Disk_write_complete src success) = (src, disk_write_complete success)"

fun intr_events :: "disk_event list \<Rightarrow> (u32 \<times> u8 list) list" where
  "intr_events [] = []"
| "intr_events (ev # evs) = dev_disk_complete ev # intr_events evs"

definition intr_run :: "disk_server_state \<Rightarrow> (u32 \<times> u8 list) list \<times> disk_server_state" where
  "intr_run dss = (intr_events (dss_events dss), dss\<lparr>dss_events := []\<rparr>)"

text \<open>\<open>disk_init\<close>, for the given contents of the file.\<close>

definition disk_init :: "(u32 \<Rightarrow> block) \<Rightarrow> u32 \<Rightarrow> disk_server_state" where
  "disk_init file nblocks = \<lparr>dss_dd = \<lparr>dd_file = file, dd_nblocks = nblocks\<rparr>, dss_nblocks = nblocks, dss_events = []\<rparr>"

section \<open>Requests and their replies\<close>

text \<open>
  A sequence of requests with their senders and with what the host does; then the events are
  handled. The result is the replies in the order they are sent.
\<close>

fun disk_run :: "(u8 list \<times> u32 \<times> bool \<times> block option) list \<Rightarrow> disk_server_state \<Rightarrow>
    ((u32 \<times> u8 list) list \<times> disk_server_state) option" where
  "disk_run [] dss = Some ([], dss)"
| "disk_run ((msg, src, host_rd, host_wr) # reqs) dss = do {
     (r, dss) \<leftarrow> disk_proc host_rd host_wr msg src dss;
     (reps, dss) \<leftarrow> disk_run reqs dss;
     Some ((case r of None \<Rightarrow> [] | Some rep \<Rightarrow> [(src, rep)]) @ reps, dss) }"

definition disk_img :: "disk_server_state \<Rightarrow> block list" where
  "disk_img dss = map (\<lambda>i. dd_file (dss_dd dss) (of_nat i)) [0..<unat (dd_nblocks (dss_dd dss))]"

lemma fst_complete: "fst (dev_disk_complete ev) = (case ev of Disk_read_complete src _ _ \<Rightarrow> src | Disk_write_complete src _ \<Rightarrow> src)"
  by (cases ev) simp_all

lemma intr_events_map: "intr_events evs = map dev_disk_complete evs"
  by (induction evs) simp_all

lemma disk_proc_replies:
  assumes "disk_proc host_rd host_wr msg src dss = Some (r, dss')"
  shows "map fst (intr_events (dss_events dss')) @ (case r of None \<Rightarrow> [] | Some rep \<Rightarrow> [src]) =
    map fst (intr_events (dss_events dss)) @ [src] \<and> dd_nblocks (dss_dd dss') = dd_nblocks (dss_dd dss)"
  using assms
  by (auto simp: disk_proc_def Let_def disk_do_read_def disk_do_write_def intr_sched_event_def dev_disk_read_def
      dev_disk_write_def intr_events_map split: if_splits option.splits block_req_type.splits bind_splits)

lemma disk_proc_request:
  assumes "length d \<le> 4092"
  shows "disk_proc host_rd host_wr (block_request t ino off d) src dss = (case t of
      BLOCK_UNUSED \<Rightarrow> None
    | BLOCK_READ \<Rightarrow> disk_do_read host_rd ino off src dss
    | BLOCK_WRITE \<Rightarrow> disk_do_write host_wr ino off d src dss
    | BLOCK_GETSIZE \<Rightarrow> Some (Some (disk_do_getsize ino dss), dss)
    | BLOCK_SETSIZE \<Rightarrow> Some (Some disk_do_setsize, dss))"
proof -
  have "take (8 + 4096) (block_request t ino off d) = block_request t ino off d" using assms by simp
  then show ?thesis by (cases t) (simp_all add: disk_proc_def Let_def num_block_type_def)
qed

lemma disk_run_replies:
  assumes "disk_run reqs dss = Some (reps, dss')"
  shows "mset (map fst (reps @ intr_events (dss_events dss'))) =
    mset (map fst (intr_events (dss_events dss)) @ map (fst \<circ> snd) reqs)"
  using assms
proof (induction reqs arbitrary: dss reps)
  case Nil
  then show ?case by simp
next
  case (Cons q reqs)
  obtain msg src host_rd host_wr where q: "q = (msg, src, host_rd, host_wr)" by (cases q)
  from Cons.prems obtain r dss1 reps1 where p: "disk_proc host_rd host_wr msg src dss = Some (r, dss1)"
    and run: "disk_run reqs dss1 = Some (reps1, dss')"
    and reps: "reps = (case r of None \<Rightarrow> [] | Some rep \<Rightarrow> [(src, rep)]) @ reps1"
    by (auto simp: q split: bind_splits)
  note IH = Cons.IH [OF run]
  note P = arg_cong [OF conjunct1 [OF disk_proc_replies [OF p]], of mset]
  show ?case
    using IH P by (cases r) (simp_all add: q reps)
qed

section \<open>Properties\<close>

text \<open>C26: The disk server answers every request exactly once: after any sequence of requests that
  does not stop the kernel, the replies sent at once together with those that the pending events
  send are one for each request, to the process that made it.\<close>
theorem disk_answers_all:
  assumes "disk_run reqs (disk_init file n) = Some (reps, dss)"
  shows "mset (map fst (reps @ fst (intr_run dss))) = mset (map (fst \<circ> snd) reqs) \<and>
    dss_events (snd (intr_run dss)) = []"
  using disk_run_replies [OF assms] by (simp add: disk_init_def intr_run_def)

theorem disk_answers_all_witness:
  "mset (map fst (fst (intr_run (intr_sched_event (Disk_read_complete 6 True 3) (disk_init (\<lambda>_. 3) 2))))) = mset [6]"
proof -
  have "disk_run [(block_request BLOCK_READ 0 1 [], 6, True, None)] (disk_init (\<lambda>_. 3) 2) =
      Some ([], intr_sched_event (Disk_read_complete 6 True 3) (disk_init (\<lambda>_. 3) 2))"
    by (simp add: disk_proc_request disk_do_read_def dev_disk_read_def disk_seek_def disk_init_def
        intr_sched_event_def word_less_nat_alt)
  from disk_answers_all [OF this] show ?thesis by simp
qed

text \<open>The disk holds what was written: when process \<open>p\<close> writes block \<open>off\<close> and process \<open>q\<close>
  then reads block \<open>off'\<close>, both inside the disk, and the host completes both operations, the
  events confirm the write to \<open>p\<close> and send \<open>q\<close> the block just written if the numbers agree, and
  otherwise the block as it was.\<close>
theorem disk_read_after_write:
  assumes "off < n" "off' < n"
  shows "\<exists>dss. disk_run [(block_request BLOCK_WRITE 0 off (block_bytes b), p, True, None),
        (block_request BLOCK_READ 0 off' [], q, True, None)] (disk_init file n) = Some ([], dss) \<and>
    fst (intr_run dss) = [(p, block_reply BLOCK_OK 1 []),
      (q, block_reply BLOCK_OK 1 (block_bytes (if off' = off then b else file off')))]"
  using assms
  by (simp add: disk_proc_request disk_do_read_def disk_do_write_def dev_disk_read_def dev_disk_write_def
      disk_seek_def disk_init_def intr_sched_event_def intr_run_def disk_read_complete_def disk_write_complete_def
      BLOCK_SIZE_def)

theorem disk_read_after_write_witness:
  "\<exists>dss. disk_run [(block_request BLOCK_WRITE 0 1 (block_bytes 9), 4, True, None),
        (block_request BLOCK_READ 0 1 [], 5, True, None)] (disk_init (\<lambda>_. 0) 2) = Some ([], dss) \<and>
    fst (intr_run dss) = [(4, block_reply BLOCK_OK 1 []),
      (5, block_reply BLOCK_OK 1 (block_bytes (if 1 = (1 :: u32) then 9 else 0)))]"
  by (rule disk_read_after_write) (simp_all add: word_less_nat_alt)

text \<open>A request for a block beyond the end of the disk stops the kernel, whichever process
  makes it, and so does one of a length or type the server does not expect; a request for another
  inode is refused.\<close>
theorem disk_bad_request:
  assumes "\<not> off < n"
  shows "disk_proc host_rd host_wr (block_request BLOCK_READ 0 off []) src (disk_init file n) = None \<and>
    disk_proc host_rd host_wr (block_request BLOCK_WRITE 0 off (block_bytes b)) src (disk_init file n) = None \<and>
    disk_proc host_rd host_wr (block_request BLOCK_WRITE 0 off []) src (disk_init file n) = None \<and>
    disk_proc host_rd host_wr (block_request BLOCK_UNUSED 0 off []) src (disk_init file n) = None \<and>
    disk_proc host_rd host_wr [] src (disk_init file n) = None \<and>
    disk_proc host_rd host_wr (block_request BLOCK_READ 1 off []) src (disk_init file n) =
      Some (Some (disk_respond BLOCK_ERROR []), disk_init file n)"
  using assms
  by (simp add: disk_proc_request disk_do_read_def disk_do_write_def dev_disk_read_def dev_disk_write_def
      disk_seek_def disk_init_def BLOCK_SIZE_def disk_proc_def [of _ _ "[]"] Let_def)

theorem disk_bad_request_witness:
  "disk_proc True None (block_request BLOCK_READ 0 7 []) 4 (disk_init (\<lambda>_. 0) 2) = None"
  using disk_bad_request [of 7 2] by (simp add: word_less_nat_alt)

end
