(* ===== verification/Tlb.thy ===== *)
theory Tlb
  imports Prelude
begin

text \<open>
  The software TLB (\<open>egos/earth/tlb.c\<close>, \<open>egos/earth/prot.c\<close>, \<open>egos/earth/mem.c\<close>). The machine is the
  array of TLB entries, the physical frames, and the virtual address space: the bytes of each of
  its pages and the protection the host enforces on it. A physical address is the number of a
  frame (\<open>None\<close> is the null pointer). A copy from a page that the host does not let read, to one
  it does not let write, or to memory outside the address space or the frames, stops the run.
\<close>

section \<open>The machine\<close>

definition PAGESIZE :: nat where
  "PAGESIZE = 4096"

definition VIRT_BASE :: u64 where
  "VIRT_BASE = 0x10000000"

definition VIRT_TOP :: u64 where
  "VIRT_TOP = VIRT_BASE + 0x100 * 4096"

definition P_READ :: u32 where "P_READ = 1"
definition P_WRITE :: u32 where "P_WRITE = 2"
definition P_EXEC :: u32 where "P_EXEC = 4"

definition PROT_READ :: u32 where "PROT_READ = 1"
definition PROT_WRITE :: u32 where "PROT_WRITE = 2"
definition PROT_EXEC :: u32 where "PROT_EXEC = 4"

record tlb_entry =
  te_virt :: u32
  te_phys :: "nat option"
  te_prot :: u32

record machine =
  tlb :: "tlb_entry list"
  frames :: "u8 list list"
  vmem :: "u32 \<Rightarrow> u8 list"
  vprot :: "u32 \<Rightarrow> u32"

definition vpage :: "u32 \<Rightarrow> bool" where
  "vpage v \<longleftrightarrow> 0x10000 \<le> unat v \<and> unat v < 0x10100"

definition prot_cvt :: "u32 \<Rightarrow> u32" where
  "prot_cvt p = (if p AND P_READ \<noteq> 0 then PROT_READ else 0) OR
     (if p AND P_WRITE \<noteq> 0 then PROT_WRITE else 0) OR (if p AND P_EXEC \<noteq> 0 then PROT_EXEC else 0)"

definition mprotect :: "u32 \<Rightarrow> u32 \<Rightarrow> machine \<Rightarrow> machine" where
  "mprotect v p m = (if vpage v then m\<lparr>vprot := (vprot m)(v := p)\<rparr> else m)"

text \<open>The two uses of \<open>memcpy\<close>: a page to a frame, a frame to a page.\<close>

definition page_to_frame :: "u32 \<Rightarrow> nat option \<Rightarrow> machine \<Rightarrow> machine option" where
  "page_to_frame v f m = (case f of
     None \<Rightarrow> None
   | Some f \<Rightarrow> if vpage v \<and> vprot m v AND PROT_READ \<noteq> 0 \<and> f < length (frames m)
              then Some (m\<lparr>frames := (frames m)[f := vmem m v]\<rparr>) else None)"

definition frame_to_page :: "nat option \<Rightarrow> u32 \<Rightarrow> machine \<Rightarrow> machine option" where
  "frame_to_page f v m = (case f of
     None \<Rightarrow> None
   | Some f \<Rightarrow> if vpage v \<and> vprot m v AND PROT_WRITE \<noteq> 0 \<and> f < length (frames m)
              then Some (m\<lparr>vmem := (vmem m)(v := frames m ! f)\<rparr>) else None)"

section \<open>Operations\<close>

fun tlb_find :: "u32 \<Rightarrow> tlb_entry list \<Rightarrow> nat \<Rightarrow> int" where
  "tlb_find v [] i = - 1"
| "tlb_find v (te # tes) i = (if te_virt te = v \<and> te_phys te \<noteq> None then int i else tlb_find v tes (i + 1))"

definition tlb_get_entry :: "u32 \<Rightarrow> machine \<Rightarrow> int" where
  "tlb_get_entry v m = tlb_find v (tlb m) 0"

definition tlb_sync_entry :: "tlb_entry \<Rightarrow> machine \<Rightarrow> machine option" where
  "tlb_sync_entry te m =
     (if te_prot te AND P_WRITE \<noteq> 0 then
        (let m = (if te_prot te AND P_READ = 0 then mprotect (te_virt te) PROT_READ m else m)
         in page_to_frame (te_virt te) (te_phys te) m)
      else Some m)"

definition unused_entry :: tlb_entry where
  "unused_entry = \<lparr>te_virt = 0, te_phys = None, te_prot = 0\<rparr>"

text \<open>The argument of \<open>tlb_flush_entry\<close> is the index of the entry.\<close>

definition tlb_flush_entry :: "nat \<Rightarrow> machine \<Rightarrow> machine option" where
  "tlb_flush_entry i m = (let te = tlb m ! i in
     if te_phys te = None then Some m
     else do {
       m \<leftarrow> tlb_sync_entry te m;
       let m = mprotect (te_virt te) 0 m;
       Some (m\<lparr>tlb := (tlb m)[i := unused_entry]\<rparr>) })"

fun tlb_unmap_from :: "nat list \<Rightarrow> u32 \<Rightarrow> machine \<Rightarrow> machine option" where
  "tlb_unmap_from [] v m = Some m"
| "tlb_unmap_from (i # is) v m = do {
     m \<leftarrow> (if te_virt (tlb m ! i) = v then tlb_flush_entry i m else Some m);
     tlb_unmap_from is v m }"

definition tlb_unmap :: "u32 \<Rightarrow> machine \<Rightarrow> machine option" where
  "tlb_unmap v m = tlb_unmap_from [0..<length (tlb m)] v m"

definition tlb_get :: "nat \<Rightarrow> machine \<Rightarrow> tlb_entry option" where
  "tlb_get i m = (if i \<ge> length (tlb m) then None else Some (tlb m ! i))"

text \<open>The result 0 of \<open>tlb_map\<close> is \<open>False\<close>.\<close>

definition tlb_map :: "nat \<Rightarrow> u32 \<Rightarrow> nat option \<Rightarrow> u32 \<Rightarrow> machine \<Rightarrow> (bool \<times> machine) option" where
  "tlb_map i v phys prot m =
     (if i \<ge> length (tlb m) then Some (False, m)
      else do {
        m \<leftarrow> (if te_phys (tlb m ! i) \<noteq> None then tlb_flush_entry i m else Some m);
        let m = m\<lparr>tlb := (tlb m)[i := \<lparr>te_virt = v, te_phys = phys, te_prot = prot\<rparr>]\<rparr>;
        let m = (if prot AND P_WRITE = 0 then mprotect v PROT_WRITE m else mprotect v (prot_cvt prot) m);
        m \<leftarrow> frame_to_page phys v m;
        Some (True, if prot AND P_WRITE = 0 then mprotect v (prot_cvt prot) m else m) })"

fun tlb_flush_from :: "nat list \<Rightarrow> machine \<Rightarrow> machine option" where
  "tlb_flush_from [] m = Some m"
| "tlb_flush_from (i # is) m = do { m \<leftarrow> tlb_flush_entry i m; tlb_flush_from is m }"

definition tlb_flush :: "machine \<Rightarrow> machine option" where
  "tlb_flush m = tlb_flush_from [0..<length (tlb m)] m"

fun tlb_sync_from :: "nat list \<Rightarrow> machine \<Rightarrow> machine option" where
  "tlb_sync_from [] m = Some m"
| "tlb_sync_from (i # is) m = do {
     m \<leftarrow> (if te_phys (tlb m ! i) \<noteq> None then tlb_sync_entry (tlb m ! i) m else Some m);
     tlb_sync_from is m }"

definition tlb_sync :: "machine \<Rightarrow> machine option" where
  "tlb_sync m = tlb_sync_from [0..<length (tlb m)] m"

text \<open>\<open>tlb_initialize\<close>, over the zeroed anonymous mappings of \<open>mmap\<close>, and \<open>mem_initialize\<close>.\<close>

definition mem_initialize :: "nat \<Rightarrow> u8 list list" where
  "mem_initialize nframes = replicate nframes (replicate PAGESIZE 0)"

definition tlb_initialize :: "nat \<Rightarrow> u8 list list \<Rightarrow> machine" where
  "tlb_initialize nentries fs = \<lparr>tlb = replicate nentries unused_entry, frames = fs,
     vmem = (\<lambda>_. replicate PAGESIZE 0), vprot = (\<lambda>_. 0)\<rparr>"

text \<open>What a process can do to a byte of its address space; \<open>None\<close> is a fault.\<close>

definition user_load :: "u32 \<Rightarrow> nat \<Rightarrow> machine \<Rightarrow> u8 option" where
  "user_load v i m = (if vpage v \<and> vprot m v AND PROT_READ \<noteq> 0 then Some (vmem m v ! i) else None)"

definition user_store :: "u32 \<Rightarrow> nat \<Rightarrow> u8 \<Rightarrow> machine \<Rightarrow> machine option" where
  "user_store v i x m = (if vpage v \<and> vprot m v AND PROT_WRITE \<noteq> 0
     then Some (m\<lparr>vmem := (vmem m)(v := (vmem m v)[i := x])\<rparr>) else None)"

section \<open>Coherence\<close>

definition mapped :: "machine \<Rightarrow> nat \<Rightarrow> bool" where
  "mapped m i \<longleftrightarrow> i < length (tlb m) \<and> te_phys (tlb m ! i) \<noteq> None"

text \<open>
  The invariant: mapped entries map different pages to different frames, are readable (as all
  mappings of the kernel are), and the host protects each page as its entry says and every
  other page completely. A page that is mapped read-only agrees with its frame.
\<close>

definition tlb_ok :: "machine \<Rightarrow> bool" where
  "tlb_ok m \<longleftrightarrow>
     (\<forall>i. mapped m i \<longrightarrow> vpage (te_virt (tlb m ! i)) \<and> the (te_phys (tlb m ! i)) < length (frames m) \<and>
        te_prot (tlb m ! i) AND P_READ \<noteq> 0 \<and> vprot m (te_virt (tlb m ! i)) = prot_cvt (te_prot (tlb m ! i)) \<and>
        (te_prot (tlb m ! i) AND P_WRITE = 0 \<longrightarrow>
           vmem m (te_virt (tlb m ! i)) = frames m ! the (te_phys (tlb m ! i)))) \<and>
     (\<forall>i j. mapped m i \<and> mapped m j \<and> i \<noteq> j \<longrightarrow> te_virt (tlb m ! i) \<noteq> te_virt (tlb m ! j) \<and>
        te_phys (tlb m ! i) \<noteq> te_phys (tlb m ! j)) \<and>
     (\<forall>v. vpage v \<and> (\<forall>i. mapped m i \<longrightarrow> te_virt (tlb m ! i) \<noteq> v) \<longrightarrow> vprot m v = 0)"

text \<open>What the frames hold once every page is written back.\<close>

definition view :: "machine \<Rightarrow> nat \<Rightarrow> u8 list" where
  "view m f = (case List.find (\<lambda>te. te_phys te = Some f) (tlb m) of
     None \<Rightarrow> frames m ! f | Some te \<Rightarrow> vmem m (te_virt te))"


lemma prot_cvt_bits [simp]:
  "(prot_cvt p AND PROT_READ = 0) = (p AND P_READ = 0)" "(prot_cvt p AND PROT_WRITE = 0) = (p AND P_WRITE = 0)"
  by (simp_all add: prot_cvt_def PROT_READ_def PROT_WRITE_def PROT_EXEC_def)

lemma prot_write_bits [simp]: "PROT_WRITE \<noteq> 0" "(0 :: u32) AND x = 0"
  by (simp_all add: PROT_WRITE_def)

lemma tlb_okD:
  assumes "tlb_ok m" "mapped m i"
  shows "vpage (te_virt (tlb m ! i))" "the (te_phys (tlb m ! i)) < length (frames m)"
    "te_prot (tlb m ! i) AND P_READ \<noteq> 0" "vprot m (te_virt (tlb m ! i)) = prot_cvt (te_prot (tlb m ! i))"
    "te_prot (tlb m ! i) AND P_WRITE = 0 \<Longrightarrow> vmem m (te_virt (tlb m ! i)) = frames m ! the (te_phys (tlb m ! i))"
    "mapped m j \<Longrightarrow> i \<noteq> j \<Longrightarrow> te_virt (tlb m ! i) \<noteq> te_virt (tlb m ! j) \<and> te_phys (tlb m ! i) \<noteq> te_phys (tlb m ! j)"
  using assms unfolding tlb_ok_def by blast+

lemma tlb_ok_unmapped: "tlb_ok m \<Longrightarrow> vpage v \<Longrightarrow> (\<And>i. mapped m i \<Longrightarrow> te_virt (tlb m ! i) \<noteq> v) \<Longrightarrow> vprot m v = 0"
  unfolding tlb_ok_def by blast

lemma view_mapped:
  assumes "tlb_ok m" "mapped m i" "te_phys (tlb m ! i) = Some f"
  shows "view m f = vmem m (te_virt (tlb m ! i))"
proof -
  have len: "i < length (tlb m)" using assms(2) by (simp add: mapped_def)
  have "List.find (\<lambda>te. te_phys te = Some f) (tlb m) = Some (tlb m ! i)"
    unfolding find_Some_iff
  proof (intro exI [of _ i] conjI allI impI)
    fix j assume "j < i"
    then have "te_phys (tlb m ! j) = None \<or> mapped m j" using len by (auto simp: mapped_def)
    then show "te_phys (tlb m ! j) \<noteq> Some f" using tlb_okD(6) [OF assms(1,2), of j] assms(3) \<open>j < i\<close> by auto
  qed (use len assms(3) in auto)
  then show ?thesis by (simp add: view_def)
qed

lemma view_unmapped:
  assumes "\<And>i. mapped m i \<Longrightarrow> te_phys (tlb m ! i) \<noteq> Some f"
  shows "view m f = frames m ! f"
proof -
  have "List.find (\<lambda>te. te_phys te = Some f) (tlb m) = None"
    using assms by (auto simp: find_None_iff in_set_conv_nth mapped_def)
  then show ?thesis by (simp add: view_def)
qed

text \<open>Flushing an entry writes its page back.\<close>

lemma flush_entry_eq:
  assumes "tlb_ok m" "mapped m i" "te_phys (tlb m ! i) = Some f" "te_virt (tlb m ! i) = v"
  shows "tlb_flush_entry i m = Some (m\<lparr>frames := (frames m)[f := vmem m v], vprot := (vprot m)(v := 0),
     tlb := (tlb m)[i := unused_entry]\<rparr>)"
proof -
  note d = tlb_okD [OF assms(1,2), unfolded assms(3,4)]
  have "tlb_sync_entry (tlb m ! i) m = Some (m\<lparr>frames := (frames m)[f := vmem m v]\<rparr>)"
  proof (cases "te_prot (tlb m ! i) AND P_WRITE = 0")
    case True
    with d(5) show ?thesis by (simp add: tlb_sync_entry_def)
  next
    case False
    with d(1-4) show ?thesis by (simp add: tlb_sync_entry_def page_to_frame_def assms(3,4))
  qed
  with d(1) show ?thesis by (simp add: tlb_flush_entry_def Let_def assms(3,4) mprotect_def)
qed

lemma flush_entry_unmapped: "te_phys (tlb m ! i) = None \<Longrightarrow> tlb_flush_entry i m = Some m"
  by (simp add: tlb_flush_entry_def)

lemma mapped_update:
  "i < length (tlb m) \<Longrightarrow> mapped (m\<lparr>frames := fs, vprot := vp, tlb := (tlb m)[i := unused_entry]\<rparr>) j \<longleftrightarrow> j \<noteq> i \<and> mapped m j"
  by (auto simp: mapped_def unused_entry_def nth_list_update_if)

lemma flush_entry_ok:
  assumes "tlb_ok m" "i < length (tlb m)"
  shows "\<exists>m'. tlb_flush_entry i m = Some m' \<and> tlb_ok m' \<and> vmem m' = vmem m \<and> length (tlb m') = length (tlb m) \<and>
    length (frames m') = length (frames m) \<and> (\<forall>f. view m' f = view m f) \<and> \<not> mapped m' i \<and>
    (\<forall>j. j \<noteq> i \<longrightarrow> tlb m' ! j = tlb m ! j)"
proof (cases "te_phys (tlb m ! i)")
  case None
  with assms show ?thesis by (intro exI [of _ m]) (simp add: flush_entry_unmapped mapped_def)
next
  case (Some f)
  let ?v = "te_virt (tlb m ! i)"
  let ?m = "m\<lparr>frames := (frames m)[f := vmem m ?v], vprot := (vprot m)(?v := 0), tlb := (tlb m)[i := unused_entry]\<rparr>"
  have mi: "mapped m i" using Some assms(2) by (simp add: mapped_def)
  note map = mapped_update [OF assms(2), where fs = "(frames m)[f := vmem m ?v]" and vp = "(vprot m)(?v := 0)"]
  have fl: "f < length (frames m)" using tlb_okD(2) [OF assms(1) mi] Some by simp
  have ok: "tlb_ok ?m"
    unfolding tlb_ok_def
  proof (intro conjI allI impI)
    fix j assume "mapped ?m j"
    then have j: "mapped m j" "j \<noteq> i" by (simp_all add: map)
    note d = tlb_okD [OF assms(1) j(1)]
    have o: "te_virt (tlb m ! j) \<noteq> ?v" "the (te_phys (tlb m ! j)) \<noteq> f"
      using d(6) [OF mi j(2)] j(1) Some by (auto simp: mapped_def)
    show "vmem ?m (te_virt (tlb ?m ! j)) = frames ?m ! the (te_phys (tlb ?m ! j))"
      if "te_prot (tlb ?m ! j) AND P_WRITE = 0"
      using d(5) j(2) o that by (simp add: nth_list_update_neq)
    show "vpage (te_virt (tlb ?m ! j))" "the (te_phys (tlb ?m ! j)) < length (frames ?m)"
      "te_prot (tlb ?m ! j) AND P_READ \<noteq> 0" "vprot ?m (te_virt (tlb ?m ! j)) = prot_cvt (te_prot (tlb ?m ! j))"
      using d(1-4) j(2) o by (simp_all add: nth_list_update_neq)
  next
    fix j l assume "mapped ?m j \<and> mapped ?m l \<and> j \<noteq> l"
    then show "te_virt (tlb ?m ! j) \<noteq> te_virt (tlb ?m ! l)" "te_phys (tlb ?m ! j) \<noteq> te_phys (tlb ?m ! l)"
      using tlb_okD(6) [OF assms(1), of j l] by (auto simp: map nth_list_update_neq)
  next
    fix v assume v: "vpage v \<and> (\<forall>j. mapped ?m j \<longrightarrow> te_virt (tlb ?m ! j) \<noteq> v)"
    show "vprot ?m v = 0"
    proof (cases "v = ?v")
      case False
      have "te_virt (tlb m ! j) \<noteq> v" if "mapped m j" for j
        using v False that by (cases "j = i") (auto simp: map)
      with v tlb_ok_unmapped [OF assms(1)] False show ?thesis by simp
    qed simp
  qed
  moreover have "view ?m g = view m g" for g
  proof (cases "\<exists>j. mapped ?m j \<and> te_phys (tlb ?m ! j) = Some g")
    case True
    then obtain j where j: "mapped ?m j" "te_phys (tlb ?m ! j) = Some g" by blast
    then have j': "mapped m j" "j \<noteq> i" "te_phys (tlb m ! j) = Some g" by (simp_all add: map)
    from view_mapped [OF ok j] view_mapped [OF assms(1) j'(1,3)] j'(2) show ?thesis by simp
  next
    case False
    then have u: "view ?m g = frames ?m ! g" by (intro view_unmapped) blast
    show ?thesis
    proof (cases "g = f")
      case True
      with u fl view_mapped [OF assms(1) mi] Some show ?thesis by simp
    next
      case ng: False
      have "te_phys (tlb m ! j) \<noteq> Some g" if "mapped m j" for j
        using False that ng Some by (cases "j = i") (auto simp: map)
      then have "view m g = frames m ! g" by (rule view_unmapped)
      with u ng show ?thesis by simp
    qed
  qed
  moreover have "\<not> mapped ?m i" by (simp add: map)
  ultimately show ?thesis
    using flush_entry_eq [OF assms(1) mi Some refl] by (intro exI [of _ ?m]) simp
qed

lemma flush_from_ok:
  assumes "tlb_ok m" "set is \<subseteq> {..<length (tlb m)}"
  shows "\<exists>m'. tlb_flush_from is m = Some m' \<and> tlb_ok m' \<and> vmem m' = vmem m \<and> length (tlb m') = length (tlb m) \<and>
    length (frames m') = length (frames m) \<and> (\<forall>f. view m' f = view m f) \<and>
    (\<forall>j. mapped m' j \<longrightarrow> mapped m j \<and> j \<notin> set is)"
  using assms
proof (induction "is" arbitrary: m)
  case Nil
  then show ?case by simp
next
  case (Cons i "is")
  from flush_entry_ok [OF Cons.prems(1), of i] Cons.prems(2) obtain m1 where
    m1: "tlb_flush_entry i m = Some m1" "tlb_ok m1" "vmem m1 = vmem m" "length (tlb m1) = length (tlb m)"
      "length (frames m1) = length (frames m)" "\<forall>f. view m1 f = view m f" "\<not> mapped m1 i"
      "\<forall>j. j \<noteq> i \<longrightarrow> tlb m1 ! j = tlb m ! j"
    by auto
  from Cons.IH [OF m1(2)] Cons.prems(2) m1(4) obtain m2 where
    m2: "tlb_flush_from is m1 = Some m2" "tlb_ok m2" "vmem m2 = vmem m1" "length (tlb m2) = length (tlb m1)"
      "length (frames m2) = length (frames m1)" "\<forall>f. view m2 f = view m1 f"
      "\<forall>j. mapped m2 j \<longrightarrow> mapped m1 j \<and> j \<notin> set is"
    by auto
  have "mapped m j \<and> j \<notin> set (i # is)" if "mapped m2 j" for j
    using m2(7) that m1(4,7,8) by (cases "j = i") (auto simp: mapped_def)
  with m1 m2 show ?case by simp
qed

lemma tlb_flush_ok:
  assumes "tlb_ok m"
  shows "\<exists>m'. tlb_flush m = Some m' \<and> tlb_ok m' \<and> vmem m' = vmem m \<and> length (tlb m') = length (tlb m) \<and>
    frames m' = map (view m) [0..<length (frames m)] \<and> (\<forall>j. \<not> mapped m' j)"
proof -
  have "set [0..<length (tlb m)] \<subseteq> {..<length (tlb m)}" by auto
  from flush_from_ok [OF assms this] obtain m' where
    m': "tlb_flush m = Some m'" "tlb_ok m'" "vmem m' = vmem m" "length (tlb m') = length (tlb m)"
      "length (frames m') = length (frames m)" "\<forall>f. view m' f = view m f"
      "\<forall>j. mapped m' j \<longrightarrow> mapped m j \<and> j \<notin> set [0..<length (tlb m)]"
    unfolding tlb_flush_def by blast
  have none: "\<not> mapped m' j" for j using spec [OF m'(7), of j] m'(4) by (auto simp: mapped_def)
  have "frames m' = map (view m) [0..<length (frames m)]"
  proof (rule nth_equalityI)
    fix f assume "f < length (frames m')"
    moreover have "frames m' ! f = view m' f" by (rule view_unmapped [symmetric]) (simp add: none)
    ultimately show "frames m' ! f = map (view m) [0..<length (frames m)] ! f" using m'(5,6) by simp
  qed (simp add: m'(5))
  with m' none show ?thesis by blast
qed

text \<open>Mapping a page: the entry it replaces is written back first.\<close>

lemma tlb_map_ok:
  assumes "tlb_ok m" "i < length (tlb m)" "vpage v" "f < length (frames m)" "prot AND P_READ \<noteq> 0"
    and free: "\<And>j. mapped m j \<Longrightarrow> j \<noteq> i \<Longrightarrow> te_virt (tlb m ! j) \<noteq> v \<and> te_phys (tlb m ! j) \<noteq> Some f"
  shows "\<exists>m'. tlb_map i v (Some f) prot m = Some (True, m') \<and> tlb_ok m' \<and> vmem m' = (vmem m)(v := view m f) \<and>
    length (tlb m') = length (tlb m) \<and> length (frames m') = length (frames m) \<and> (\<forall>g. view m' g = view m g) \<and>
    (\<forall>j. j \<noteq> i \<longrightarrow> tlb m' ! j = tlb m ! j) \<and> tlb m' ! i = \<lparr>te_virt = v, te_phys = Some f, te_prot = prot\<rparr> \<and>
    vprot m' v = prot_cvt prot"
proof -
  obtain m1 where m1: "(if te_phys (tlb m ! i) \<noteq> None then tlb_flush_entry i m else Some m) = Some m1" "tlb_ok m1"
      "vmem m1 = vmem m" "length (tlb m1) = length (tlb m)" "length (frames m1) = length (frames m)"
      "\<And>f. view m1 f = view m f" "\<not> mapped m1 i" "\<And>j. j \<noteq> i \<Longrightarrow> tlb m1 ! j = tlb m ! j"
  proof -
    have "(if te_phys (tlb m ! i) \<noteq> None then tlb_flush_entry i m else Some m) = tlb_flush_entry i m"
      by (simp add: flush_entry_unmapped)
    with flush_entry_ok [OF assms(1,2)] show thesis using that by metis
  qed
  let ?e = "\<lparr>te_virt = v, te_phys = Some f, te_prot = prot\<rparr>"
  let ?m = "m1\<lparr>vprot := (vprot m1)(v := prot_cvt prot), vmem := (vmem m1)(v := frames m1 ! f), tlb := (tlb m1)[i := ?e]\<rparr>"
  have free1: "te_virt (tlb m1 ! j) \<noteq> v" "te_phys (tlb m1 ! j) \<noteq> Some f" if "mapped m1 j" for j
  proof -
    from that m1(4,7) have ji: "j \<noteq> i" by auto
    then have "mapped m j" using that m1(4,8) by (simp add: mapped_def)
    with ji free [of j] m1(8) show "te_virt (tlb m1 ! j) \<noteq> v" "te_phys (tlb m1 ! j) \<noteq> Some f" by auto
  qed
  have fv: "frames m1 ! f = view m1 f" using view_unmapped [of m1 f] free1(2) by simp
  have len: "i < length (tlb m1)" using assms(2) m1(4) by simp
  have run: "tlb_map i v (Some f) prot m = Some (True, ?m)"
    using assms(2-4) m1(1,5) unfolding tlb_map_def
    by (simp add: Let_def frame_to_page_def mprotect_def)
  have map: "mapped ?m j \<longleftrightarrow> j = i \<or> mapped m1 j" for j
    using len by (auto simp: mapped_def nth_list_update_if)
  have at: "tlb ?m ! j = (if j = i then ?e else tlb m1 ! j)" for j using len by (auto simp: nth_list_update_if)
  have ok: "tlb_ok ?m"
    unfolding tlb_ok_def
  proof (intro conjI allI impI)
    fix j assume j: "mapped ?m j"
    show "vpage (te_virt (tlb ?m ! j))" "the (te_phys (tlb ?m ! j)) < length (frames ?m)"
      "te_prot (tlb ?m ! j) AND P_READ \<noteq> 0" "vprot ?m (te_virt (tlb ?m ! j)) = prot_cvt (te_prot (tlb ?m ! j))"
      using j tlb_okD(1-4) [OF m1(2), of j] free1 [of j] assms(3-5) m1(5) unfolding map at by auto
    show "vmem ?m (te_virt (tlb ?m ! j)) = frames ?m ! the (te_phys (tlb ?m ! j))"
      if "te_prot (tlb ?m ! j) AND P_WRITE = 0"
      using that j tlb_okD(5) [OF m1(2), of j] free1 [of j] unfolding map at by auto
  next
    fix j l assume "mapped ?m j \<and> mapped ?m l \<and> j \<noteq> l"
    then show "te_virt (tlb ?m ! j) \<noteq> te_virt (tlb ?m ! l)" "te_phys (tlb ?m ! j) \<noteq> te_phys (tlb ?m ! l)"
      using tlb_okD(6) [OF m1(2), of j l] free1 [of j] free1 [of l] unfolding map at by auto
  next
    fix u assume u: "vpage u \<and> (\<forall>j. mapped ?m j \<longrightarrow> te_virt (tlb ?m ! j) \<noteq> u)"
    then have "u \<noteq> v" using map [of i] at [of i] by auto
    moreover have "te_virt (tlb m1 ! j) \<noteq> u" if "mapped m1 j" for j
      using spec [OF conjunct2 [OF u], of j] that m1(7) unfolding map at by (cases "j = i") auto
    ultimately show "vprot ?m u = 0" using tlb_ok_unmapped [OF m1(2), of u] u by simp
  qed
  have "view ?m g = view m1 g" for g
  proof (cases "g = f")
    case True
    with view_mapped [OF ok, of i f] map [of i] at [of i] fv show ?thesis by simp
  next
    case gf: False
    show ?thesis
    proof (cases "\<exists>j. mapped m1 j \<and> te_phys (tlb m1 ! j) = Some g")
      case True
      then obtain j where j: "mapped m1 j" "te_phys (tlb m1 ! j) = Some g" by blast
      with m1(7) have "j \<noteq> i" by auto
      with view_mapped [OF ok, of j g] view_mapped [OF m1(2) j] j free1(1) [OF j(1)]
      show ?thesis by (simp add: map at)
    next
      case False
      then have "view m1 g = frames m1 ! g" by (intro view_unmapped) blast
      moreover have "te_phys (tlb ?m ! j) \<noteq> Some g" if "mapped ?m j" for j
        using False gf that unfolding map at by auto
      then have "view ?m g = frames ?m ! g" by (rule view_unmapped)
      ultimately show ?thesis by simp
    qed
  qed
  with run ok m1(3-6,8) fv at show ?thesis by (intro exI [of _ ?m]) simp
qed

lemma user_store_ok:
  assumes "tlb_ok m" "user_store v n x m = Some m'"
  shows "tlb_ok m' \<and> tlb m' = tlb m \<and> frames m' = frames m \<and>
    (\<exists>i f. mapped m i \<and> te_virt (tlb m ! i) = v \<and> te_phys (tlb m ! i) = Some f \<and>
       view m' f = (view m f)[n := x] \<and> (\<forall>g. g \<noteq> f \<longrightarrow> view m' g = view m g))"
proof -
  from assms(2) have v: "vpage v" "vprot m v AND PROT_WRITE \<noteq> 0"
    and m': "m' = m\<lparr>vmem := (vmem m)(v := (vmem m v)[n := x])\<rparr>"
    by (auto simp: user_store_def split: if_splits)
  have "\<exists>i. mapped m i \<and> te_virt (tlb m ! i) = v"
  proof (rule ccontr)
    assume "\<not> ?thesis"
    with tlb_ok_unmapped [OF assms(1) v(1)] have "vprot m v = 0" by blast
    with v(2) show False by simp
  qed
  then obtain i where i: "mapped m i" "te_virt (tlb m ! i) = v" by blast
  then obtain f where f: "te_phys (tlb m ! i) = Some f" by (auto simp: mapped_def)
  note d = tlb_okD [OF assms(1) i(1), unfolded i(2)]
  have w: "te_prot (tlb m ! i) AND P_WRITE \<noteq> 0" using d(4) v(2) by simp
  have same: "tlb m' = tlb m" "frames m' = frames m" "vprot m' = vprot m" "mapped m' = mapped m"
    by (auto simp: m' mapped_def)
  have other: "te_virt (tlb m ! j) \<noteq> v" if "mapped m j" "j \<noteq> i" for j
    using d(6) [of j] that by auto
  have ok: "tlb_ok m'" unfolding tlb_ok_def same
  proof (intro conjI allI impI)
    fix j assume j: "mapped m j" and p: "te_prot (tlb m ! j) AND P_WRITE = 0"
    then have "j \<noteq> i" using w by auto
    with other [OF j] tlb_okD(5) [OF assms(1) j p] show "vmem m' (te_virt (tlb m ! j)) = frames m ! the (te_phys (tlb m ! j))"
      by (simp add: m')
  qed (use tlb_okD [OF assms(1)] tlb_ok_unmapped [OF assms(1)] in blast)+
  have "view m' f = (view m f)[n := x]"
    using view_mapped [OF ok, of i f] view_mapped [OF assms(1) i(1) f] i f unfolding same by (simp add: m')
  moreover have "view m' g = view m g" if "g \<noteq> f" for g
  proof (cases "\<exists>j. mapped m j \<and> te_phys (tlb m ! j) = Some g")
    case True
    then obtain j where j: "mapped m j" "te_phys (tlb m ! j) = Some g" by blast
    with that f have "j \<noteq> i" by auto
    with view_mapped [OF ok, of j g] view_mapped [OF assms(1) j] j other [OF j(1)] show ?thesis
      unfolding same by (simp add: m')
  next
    case False
    then have "view m' g = frames m' ! g" "view m g = frames m ! g"
      by (intro view_unmapped; auto simp: same)+
    then show ?thesis by (simp add: same)
  qed
  ultimately show ?thesis using ok same i f by blast
qed

lemma tlb_init_ok: "tlb_ok (tlb_initialize n fs)" "mapped (tlb_initialize n fs) i = False"
  by (auto simp: tlb_ok_def tlb_initialize_def mapped_def unused_entry_def)

lemma tlb_find_ge: "tlb_find v tes i \<ge> 0 \<longleftrightarrow> (\<exists>te\<in>set tes. te_virt te = v \<and> te_phys te \<noteq> None)"
  by (induction tes arbitrary: i) auto

lemma tlb_get_entry_ge: "tlb_get_entry v m \<ge> 0 \<longleftrightarrow> (\<exists>i. mapped m i \<and> te_virt (tlb m ! i) = v)"
  by (fastforce simp: tlb_get_entry_def tlb_find_ge mapped_def in_set_conv_nth)

section \<open>Properties\<close>

text \<open>Flushing the TLB loses nothing and hides everything: on a coherent machine it never faults,
  every frame then holds what the page mapped to it held (and is unchanged if no page was), no
  entry is mapped, and every access of a process to its address space faults.\<close>
theorem tlb_flush_saves:
  assumes "tlb_ok m"
  shows "\<exists>m'. tlb_flush m = Some m' \<and> tlb_ok m' \<and> frames m' = map (view m) [0..<length (frames m)] \<and>
    length (tlb m') = length (tlb m) \<and> (\<forall>j. \<not> mapped m' j) \<and>
    (\<forall>v n x. user_load v n m' = None \<and> user_store v n x m' = None)"
proof -
  from tlb_flush_ok [OF assms] obtain m' where m': "tlb_flush m = Some m'" "tlb_ok m'"
      "length (tlb m') = length (tlb m)" "frames m' = map (view m) [0..<length (frames m)]" "\<And>j. \<not> mapped m' j"
    by blast
  have "vprot m' v = 0" if "vpage v" for v using tlb_ok_unmapped [OF m'(2) that] m'(5) by blast
  then have "user_load v n m' = None \<and> user_store v n x m' = None" for v n x
    by (simp add: user_load_def user_store_def)
  with m' show ?thesis by blast
qed

theorem tlb_flush_saves_witness:
  "\<exists>m'. tlb_flush (tlb_initialize 2 (mem_initialize 3)) = Some m' \<and>
     user_load 0x10000 0 m' = None"
  using tlb_flush_saves [OF tlb_init_ok(1), of 2 "mem_initialize 3"] by blast

text \<open>Mapping a page gives the process the contents of the frame: on a coherent machine, mapping a
  frame and a page that no other entry maps, with a protection that allows reading, succeeds and
  keeps the machine coherent; the page then reads as the latest contents of the frame, even if
  the entry it replaces had mapped that frame and the page was not yet written back; no frame
  loses its latest contents.\<close>
theorem tlb_map_shows_frame:
  assumes "tlb_ok m" "i < length (tlb m)" "vpage v" "f < length (frames m)" "prot AND P_READ \<noteq> 0"
    and "\<And>j. mapped m j \<Longrightarrow> j \<noteq> i \<Longrightarrow> te_virt (tlb m ! j) \<noteq> v \<and> te_phys (tlb m ! j) \<noteq> Some f"
  shows "\<exists>m'. tlb_map i v (Some f) prot m = Some (True, m') \<and> tlb_ok m' \<and>
    tlb_get_entry v m' \<ge> 0 \<and> tlb_get i m' = Some \<lparr>te_virt = v, te_phys = Some f, te_prot = prot\<rparr> \<and>
    (\<forall>n. user_load v n m' = Some (view m f ! n)) \<and> (\<forall>g. view m' g = view m g)"
proof -
  from tlb_map_ok [OF assms] obtain m' where m': "tlb_map i v (Some f) prot m = Some (True, m')" "tlb_ok m'"
      "vmem m' = (vmem m)(v := view m f)" "length (tlb m') = length (tlb m)" "\<forall>g. view m' g = view m g"
      "tlb m' ! i = \<lparr>te_virt = v, te_phys = Some f, te_prot = prot\<rparr>" "vprot m' v = prot_cvt prot"
    by blast
  have "mapped m' i" using m'(4,6) assms(2) by (simp add: mapped_def)
  then have "tlb_get_entry v m' \<ge> 0" using m'(6) by (auto simp: tlb_get_entry_ge intro: exI [of _ i])
  with m' assms(2,3,5) show ?thesis by (intro exI [of _ m']) (simp add: user_load_def tlb_get_def)
qed

theorem tlb_map_shows_frame_witness:
  "\<exists>m'. tlb_map 1 0x10002 (Some 2) P_READ (tlb_initialize 2 (mem_initialize 3)) = Some (True, m') \<and> tlb_ok m'"
proof -
  have "\<exists>m'. tlb_map 1 0x10002 (Some 2) P_READ (tlb_initialize 2 (mem_initialize 3)) = Some (True, m') \<and> tlb_ok m' \<and>
    tlb_get_entry 0x10002 m' \<ge> 0 \<and> tlb_get 1 m' = Some \<lparr>te_virt = 0x10002, te_phys = Some 2, te_prot = P_READ\<rparr> \<and>
    (\<forall>n. user_load 0x10002 n m' = Some (view (tlb_initialize 2 (mem_initialize 3)) 2 ! n)) \<and>
    (\<forall>g. view m' g = view (tlb_initialize 2 (mem_initialize 3)) g)"
    by (rule tlb_map_shows_frame [OF tlb_init_ok(1)])
      (simp_all add: tlb_initialize_def mem_initialize_def vpage_def P_READ_def mapped_def unused_entry_def less_2_cases_iff)
  then show ?thesis by blast
qed

text \<open>A process writes to its page and to nothing else: when a store succeeds on a coherent machine,
  some entry maps the page, the latest contents of its frame change in that byte, those of every
  other frame stay, and the machine stays coherent, so that the next flush saves the byte.\<close>
theorem user_store_isolated:
  assumes "tlb_ok m" "user_store v n x m = Some m'"
  shows "tlb_ok m' \<and> (\<exists>i f. tlb_get i m = tlb_get i m' \<and> map_option te_virt (tlb_get i m) = Some v \<and>
    map_option te_phys (tlb_get i m) = Some (Some f) \<and> view m' f = (view m f)[n := x] \<and>
    (\<forall>g. g = f \<or> view m' g = view m g))"
proof -
  from user_store_ok [OF assms] obtain i f where i: "tlb_ok m'" "tlb m' = tlb m" "mapped m i"
      "te_virt (tlb m ! i) = v" "te_phys (tlb m ! i) = Some f" "view m' f = (view m f)[n := x]"
      "\<forall>g. g \<noteq> f \<longrightarrow> view m' g = view m g" by blast
  then show ?thesis
    by (intro conjI exI [of _ i] exI [of _ f]) (auto simp: tlb_get_def mapped_def)
qed

theorem user_store_isolated_witness:
  "\<exists>m m'. user_store 0x10002 5 7 m = Some m' \<and> tlb_ok m'"
proof -
  let ?m = "tlb_initialize 2 (mem_initialize 3)"
  have "\<exists>m'. tlb_map 1 0x10002 (Some 2) (P_READ OR P_WRITE) ?m = Some (True, m') \<and> tlb_ok m' \<and>
      vmem m' = (vmem ?m)(0x10002 := view ?m 2) \<and> length (tlb m') = length (tlb ?m) \<and>
      length (frames m') = length (frames ?m) \<and> (\<forall>g. view m' g = view ?m g) \<and> (\<forall>j. j \<noteq> 1 \<longrightarrow> tlb m' ! j = tlb ?m ! j) \<and>
      tlb m' ! 1 = \<lparr>te_virt = 0x10002, te_phys = Some 2, te_prot = P_READ OR P_WRITE\<rparr> \<and>
      vprot m' 0x10002 = prot_cvt (P_READ OR P_WRITE)"
    by (rule tlb_map_ok [OF tlb_init_ok(1)])
      (simp_all add: tlb_initialize_def mem_initialize_def vpage_def P_READ_def P_WRITE_def mapped_def unused_entry_def
        less_2_cases_iff)
  then obtain m where m: "tlb_ok m" "vprot m 0x10002 = prot_cvt (P_READ OR P_WRITE)" by blast
  have "vpage 0x10002" "P_READ OR P_WRITE = 3" "(3 :: u32) AND P_WRITE \<noteq> 0"
    by (simp_all add: vpage_def P_READ_def P_WRITE_def)
  then obtain m' where m': "user_store 0x10002 5 7 m = Some m'" using m(2) by (simp add: user_store_def)
  with user_store_isolated [OF m(1) m'] show ?thesis by blast
qed

end
