(* ===== verification/Paging.thy ===== *)
theory Paging
  imports ProcessProps BlockSvr Tlb
begin

text \<open>
  Demand paging (\<open>egos/grass/process.c\<close>): the clock algorithm of \<open>proc_frame_alloc\<close>, the transfer of
  frames to and from the paging device, and the page fault handler. The state \<open>vm\<close> joins the kernel
  (theory \<open>Process\<close>), the machine (theory \<open>Tlb\<close>), the state of the block server that holds the paging
  device (theory \<open>BlockSvr\<close>) and the static \<open>tlb_index\<close>. The clock hand is part of the kernel.

  \<open>proc_frame_alloc\<close> waits for the paging device in the middle, so it is cut there: \<open>frame_alloc_start\<close>
  ends with the frame pinned, \<open>frame_alloc_finish\<close> goes on from whatever state the kernel is in then.
  While a call to the paging device waits, the kernel runs other processes, and each switch
  flushes the TLB; the transfers below flush it after every block, and the page fault handler is
  composed for the case that no other process faults in the meantime.
\<close>

section \<open>Frames\<close>

text \<open>A page is a process and the index of the page in it.\<close>

type_synonym page = "nat \<times> nat"

definition set_page :: "page \<Rightarrow> page_info \<Rightarrow> kernel \<Rightarrow> kernel" where
  "set_page pg x = upd_proc (fst pg) (\<lambda>p. p\<lparr>p_pages := (p_pages p)[snd pg := x]\<rparr>)"

definition set_frame :: "nat \<Rightarrow> fi_status \<Rightarrow> page option \<Rightarrow> kernel \<Rightarrow> kernel" where
  "set_frame f s pg k = k\<lparr>k_frame_info := (k_frame_info k)[f := \<lparr>fi_state = s, fi_pi = pg\<rparr>]\<rparr>"

text \<open>The loop of the clock algorithm, with the number of turns left; it stops at the victim.\<close>

fun clock_scan :: "nat \<Rightarrow> kernel \<Rightarrow> kernel option" where
  "clock_scan 0 k = None"
| "clock_scan (Suc n) k = (let fi = k_frame_info k ! k_clock_hand k;
       next_hand = (k_clock_hand k + 1) mod PHYS_FRAMES
     in case fi_state fi of
       FI_PINNED \<Rightarrow> clock_scan n (k\<lparr>k_clock_hand := next_hand\<rparr>)
     | FI_REF \<Rightarrow> if fi_pi fi = None then None
                else clock_scan n ((set_frame (k_clock_hand k) FI_UNREF (fi_pi fi) k)\<lparr>k_clock_hand := next_hand\<rparr>)
     | FI_UNREF \<Rightarrow> Some k
     | FI_FREE \<Rightarrow> None)"

datatype frame_alloc = Frame_done kernel | Frame_evict nat u32 kernel

definition frame_alloc_start :: "page \<Rightarrow> kernel \<Rightarrow> frame_alloc option" where
  "frame_alloc_start pg k = (case k_freeframes k of
     f # fs \<Rightarrow> do {
       assert (fi_state (k_frame_info k ! unat f) = FI_FREE);
       Some (Frame_done (set_page pg (PI_VALID f) (set_frame (unat f) FI_REF (Some pg) (k\<lparr>k_freeframes := fs\<rparr>)))) }
   | [] \<Rightarrow> do {
       k \<leftarrow> clock_scan (2 * PHYS_FRAMES) k;
       (case k_freeblocks k of
          [] \<Rightarrow> None
        | b # bs \<Rightarrow> (case fi_pi (k_frame_info k ! k_clock_hand k) of
              None \<Rightarrow> None
            | Some owner \<Rightarrow>
                let k = set_page owner (PI_ONDISK b) (k\<lparr>k_freeblocks := bs\<rparr>)
                in Some (Frame_evict (k_clock_hand k) b (set_frame (k_clock_hand k) FI_PINNED (Some owner) k)))) })"

text \<open>The rest, after \<open>frame_write(clock_hand, block)\<close>: it reads \<open>clock_hand\<close> again.\<close>

definition frame_alloc_finish :: "page \<Rightarrow> kernel \<Rightarrow> kernel" where
  "frame_alloc_finish pg k = (let h = k_clock_hand k;
     k = set_page pg (PI_VALID (of_nat h)) (set_frame h FI_REF (Some pg) k)
   in k\<lparr>k_clock_hand := (h + 1) mod PHYS_FRAMES\<rparr>)"

section \<open>The paging device\<close>

definition BLOCKS_PER_PAGE :: nat where
  "BLOCKS_PER_PAGE = PAGESIZE div BLOCK_SIZE"

fun frame_write_from :: "nat list \<Rightarrow> 'd rpc \<Rightarrow> u32 \<Rightarrow> nat \<Rightarrow> u32 \<Rightarrow> machine \<times> 'd \<Rightarrow> (machine \<times> 'd) option" where
  "frame_write_from [] rpc ino f offset s = Some s"
| "frame_write_from (i # is) rpc ino f offset (m, dev) = do {
     (success, dev) \<leftarrow> block_write rpc ino offset
        (bytes_block (take BLOCK_SIZE (drop (i * BLOCK_SIZE) (frames m ! f)))) dev;
     m \<leftarrow> tlb_flush m;
     assert success;
     frame_write_from is rpc ino f (offset + 1) (m, dev) }"

definition frame_write :: "'d rpc \<Rightarrow> u32 \<Rightarrow> nat \<Rightarrow> u32 \<Rightarrow> machine \<times> 'd \<Rightarrow> (machine \<times> 'd) option" where
  "frame_write rpc ino f block s =
     (if f \<ge> length (frames (fst s)) then None
      else frame_write_from [0..<BLOCKS_PER_PAGE] rpc ino f (block * of_nat BLOCKS_PER_PAGE) s)"

definition store_block :: "nat \<Rightarrow> nat \<Rightarrow> block \<Rightarrow> machine \<Rightarrow> machine" where
  "store_block f i b m = m\<lparr>frames := (frames m)[f := take (i * BLOCK_SIZE) (frames m ! f) @ block_bytes b @
     drop ((i + 1) * BLOCK_SIZE) (frames m ! f)]\<rparr>"

fun frame_read_from :: "nat list \<Rightarrow> 'd rpc \<Rightarrow> u32 \<Rightarrow> nat \<Rightarrow> u32 \<Rightarrow> machine \<times> 'd \<Rightarrow> (machine \<times> 'd) option" where
  "frame_read_from [] rpc ino f offset s = Some s"
| "frame_read_from (i # is) rpc ino f offset (m, dev) = do {
     (r, dev) \<leftarrow> block_read rpc ino offset dev;
     m \<leftarrow> tlb_flush m;
     (case r of
        None \<Rightarrow> None
      | Some b \<Rightarrow> frame_read_from is rpc ino f (offset + 1) (store_block f i b m, dev)) }"

definition frame_read :: "'d rpc \<Rightarrow> u32 \<Rightarrow> nat \<Rightarrow> u32 \<Rightarrow> machine \<times> 'd \<Rightarrow> (machine \<times> 'd) option" where
  "frame_read rpc ino f block s =
     (if f \<ge> length (frames (fst s)) then None
      else frame_read_from [0..<BLOCKS_PER_PAGE] rpc ino f (block * of_nat BLOCKS_PER_PAGE) s)"

section \<open>Page faults\<close>

record 'd vm =
  vm_kernel :: kernel
  vm_mach :: machine
  vm_dev :: 'd
  vm_tlb_index :: nat

record exec_header =
  eh_base :: u32
  eh_offset :: u32
  eh_size :: u32

definition TLB_SIZE :: nat where
  "TLB_SIZE = 16"

definition proc_frame_alloc :: "'d rpc \<Rightarrow> u32 \<Rightarrow> page \<Rightarrow> 'd vm \<Rightarrow> 'd vm option" where
  "proc_frame_alloc rpc ino pg v = do {
     r \<leftarrow> frame_alloc_start pg (vm_kernel v);
     (case r of
        Frame_done k \<Rightarrow> Some (v\<lparr>vm_kernel := k\<rparr>)
      | Frame_evict h b k \<Rightarrow> do {
          (m, dev) \<leftarrow> frame_write rpc ino h b (vm_mach v, vm_dev v);
          Some (v\<lparr>vm_kernel := frame_alloc_finish pg k, vm_mach := m, vm_dev := dev\<rparr>) }) }"

text \<open>
  \<open>file_read\<close> on the executable: the bytes read, or \<open>None\<close> for a failure. \<open>frame_init\<close> fills a frame
  for the given absolute page number.
\<close>

type_synonym exec_read = "u32 \<Rightarrow> nat \<Rightarrow> u8 list option"

definition frame_init :: "exec_header \<Rightarrow> exec_read \<Rightarrow> nat \<Rightarrow> u32 \<Rightarrow> machine \<Rightarrow> machine option" where
  "frame_init eh fread f abs_page m =
     (if f \<ge> length (frames m) then None
      else if eh_base eh \<le> abs_page \<and> abs_page < eh_base eh + eh_size eh then do {
        m \<leftarrow> tlb_flush m;
        (case fread ((eh_offset eh + (abs_page - eh_base eh)) * of_nat PAGESIZE) PAGESIZE of
           None \<Rightarrow> None
         | Some bs \<Rightarrow>
             if length bs \<le> PAGESIZE then Some (m\<lparr>frames := (frames m)[f := bs @ replicate (PAGESIZE - length bs) 0]\<rparr>)
             else None) }
      else Some (m\<lparr>frames := (frames m)[f := replicate PAGESIZE 0]\<rparr>))"

definition valid_frame :: "page_info \<Rightarrow> nat option" where
  "valid_frame p = (case p of PI_VALID f \<Rightarrow> Some (unat f) | _ \<Rightarrow> None)"

text \<open>The switch of \<open>proc_pagefault\<close>: afterwards the page is in memory.\<close>

definition page_in :: "'d rpc \<Rightarrow> u32 \<Rightarrow> exec_header \<Rightarrow> exec_read \<Rightarrow> page \<Rightarrow> u32 \<Rightarrow> 'd vm \<Rightarrow> 'd vm option" where
  "page_in rpc ino eh fread pg abs_page v = (let k = vm_kernel v in
     case p_pages (pr k (fst pg)) ! snd pg of
       PI_UNINIT \<Rightarrow> do {
         v \<leftarrow> proc_frame_alloc rpc ino pg v;
         f \<leftarrow> valid_frame (p_pages (pr (vm_kernel v) (fst pg)) ! snd pg);
         m \<leftarrow> frame_init eh fread f abs_page (vm_mach v);
         Some (v\<lparr>vm_mach := m\<rparr>) }
     | PI_VALID f \<Rightarrow> do {
         assert (fi_state (k_frame_info k ! unat f) \<noteq> FI_FREE);
         assert (fi_pi (k_frame_info k ! unat f) = Some pg);
         Some (v\<lparr>vm_kernel := set_frame (unat f) FI_REF (Some pg) k\<rparr>) }
     | PI_ONDISK b \<Rightarrow> do {
         v \<leftarrow> proc_frame_alloc rpc ino pg v;
         f \<leftarrow> valid_frame (p_pages (pr (vm_kernel v) (fst pg)) ! snd pg);
         (m, dev) \<leftarrow> frame_read rpc ino f b (vm_mach v, vm_dev v);
         Some (v\<lparr>vm_mach := m, vm_dev := dev\<rparr>) })"

text \<open>
  \<open>proc_pagefault\<close>. For an illegal address it ends at its \<open>proc_yield\<close>, which does not come back.
\<close>

datatype fault = Fault_mapped | Fault_illegal

definition proc_pagefault :: "'d rpc \<Rightarrow> u32 \<Rightarrow> exec_header \<Rightarrow> exec_read \<Rightarrow> u64 \<Rightarrow> 'd vm \<Rightarrow> (fault \<times> 'd vm) option" where
  "proc_pagefault rpc ino eh fread virt v = (let i = k_current (vm_kernel v) in do {
     assert (p_state (pr (vm_kernel v) i) = PROC_RUNNABLE);
     if virt < VIRT_BASE \<or> virt \<ge> VIRT_TOP then do {
       k \<leftarrow> proc_term i (- 1) (vm_kernel v);
       Some (Fault_illegal, v\<lparr>vm_kernel := k\<rparr>) }
     else do {
       let rel_page = unat ((virt - VIRT_BASE) div of_nat PAGESIZE);
       let abs_page = ucast (virt div of_nat PAGESIZE);
       assert (tlb_get_entry abs_page (vm_mach v) < 0);
       v \<leftarrow> page_in rpc ino eh fread (i, rel_page) abs_page v;
       f \<leftarrow> valid_frame (p_pages (pr (vm_kernel v) i) ! rel_page);
       (_, m) \<leftarrow> tlb_map (vm_tlb_index v) abs_page (Some f) (P_READ OR P_WRITE OR P_EXEC) (vm_mach v);
       Some (Fault_mapped, v\<lparr>vm_mach := m, vm_tlb_index := (vm_tlb_index v + 1) mod TLB_SIZE\<rparr>) } })"

end
