(* ===== verification/PagingDev.thy ===== *)
theory PagingDev
  imports Paging
begin

text \<open>
  Page-out and page-in (\<open>frame_write\<close> and \<open>frame_read\<close> of theory \<open>Paging\<close>) over a paging device that
  satisfies the contract of block stores through its clients.
\<close>

section \<open>The device behind its clients\<close>

locale paging_device = block_store "protdisk_init rpc ino" ok img
  for rpc :: "'d rpc" and ino :: u32 and ok img
begin

lemma client_write:
  assumes "ok d" "unat off < length (img d)"
  shows "\<exists>d'. block_write rpc ino off b d = Some (True, d') \<and> ok d' \<and> img d' = (img d)[unat off := b]"
proof -
  from write_in [OF assms, of b] obtain d' where
    w: "protdisk_write rpc ino d off b = Some (0, d')" "ok d'" "img d' = (img d)[unat off := b]" by auto
  then show ?thesis
    by (cases "block_write rpc ino off b d") (auto simp: protdisk_write_def split: if_splits)
qed

lemma client_read:
  assumes "ok d" "unat off < length (img d)"
  shows "\<exists>d'. block_read rpc ino off d = Some (Some (img d ! unat off), d') \<and> ok d' \<and> img d' = img d"
  using read_in [OF assms] by (simp add: protdisk_read_def)

end

section \<open>Pages as blocks\<close>

definition page_block :: "u8 list \<Rightarrow> nat \<Rightarrow> block" where
  "page_block p i = bytes_block (take BLOCK_SIZE (drop (i * BLOCK_SIZE) p))"

lemma blocks_per_page: "[0..<BLOCKS_PER_PAGE] = [0, 1, 2, 3]" "BLOCKS_PER_PAGE = 4"
proof -
  show b: "BLOCKS_PER_PAGE = 4" by (simp add: BLOCKS_PER_PAGE_def PAGESIZE_def BLOCK_SIZE_def)
  show "[0..<BLOCKS_PER_PAGE] = [0, 1, 2, 3]" unfolding b by (simp add: upt_rec)
qed

lemma page_block_bytes: "length p = 4096 \<Longrightarrow> i < 4 \<Longrightarrow> block_bytes (page_block p i) = take 1024 (drop (i * 1024) p)"
  unfolding page_block_def BLOCK_SIZE_def by (rule block_bytes_block) simp

lemma page_offsets:
  assumes "4 * unat b + 4 \<le> n" "n < 2147483648" "i < 4"
  shows "unat (b * 4 + of_nat i :: u32) = 4 * unat b + i"
proof -
  have "unat (b * 4 :: u32) = unat b * 4" using assms by (simp add: unat_word_ariths)
  moreover have "unat (of_nat i :: u32) = i" using assms(3) by (intro unat32_of_nat) simp
  ultimately show ?thesis using assms unat32_add [of "b * 4" "of_nat i"] by simp
qed

lemma page_pieces:
  "length p = 4096 \<Longrightarrow> take 1024 (drop 1024 p) @ take 1024 (drop 2048 p) @ take 1024 (drop 3072 p) = drop 1024 p"
  by (rule nth_equalityI) (auto simp: nth_append)

text \<open>A flushed machine stays the same when it is flushed again.\<close>

lemma flush_quiet:
  assumes "\<And>j. \<not> mapped m j"
  shows "tlb_flush m = Some m"
proof -
  have "tlb_flush_from is m = Some m" if "set is \<subseteq> {..<length (tlb m)}" for "is"
    using that
  proof (induction "is")
    case (Cons i "is")
    have "te_phys (tlb m ! i) = None" using assms [of i] Cons.prems by (auto simp: mapped_def)
    with Cons show ?case by (simp add: flush_entry_unmapped)
  qed simp
  from this [of "[0..<length (tlb m)]"] show ?thesis by (simp add: tlb_flush_def atLeast0LessThan)
qed

lemma flush_twice:
  assumes "tlb_ok m" "tlb_flush m = Some m'"
  shows "tlb_flush m' = Some m'" "tlb_ok m'" "frames m' = map (view m) [0..<length (frames m)]" "\<And>g. view m' g = frames m' ! g"
proof -
  from tlb_flush_ok [OF assms(1)] assms(2) have
    m': "tlb_ok m'" "frames m' = map (view m) [0..<length (frames m)]" "\<forall>j. \<not> mapped m' j" by auto
  show "tlb_flush m' = Some m'" using m'(3) by (intro flush_quiet) blast
  show "tlb_ok m'" "frames m' = map (view m) [0..<length (frames m)]" by fact+
  show "view m' g = frames m' ! g" for g using m'(3) by (intro view_unmapped) blast
qed

definition store_page :: "block list \<Rightarrow> nat \<Rightarrow> block list \<Rightarrow> block list" where
  "store_page D b bs = D[4 * b := bs ! 0, 4 * b + 1 := bs ! 1, 4 * b + 2 := bs ! 2, 4 * b + 3 := bs ! 3]"

lemma store_page_nth:
  "length (store_page D b bs) = length D"
  "4 * b + 4 \<le> length D \<Longrightarrow> i < 4 \<Longrightarrow> store_page D b bs ! (4 * b + i) = bs ! i"
  "j < 4 * b \<or> 4 * b + 4 \<le> j \<Longrightarrow> store_page D b bs ! j = D ! j"
proof -
  show "length (store_page D b bs) = length D" by (simp add: store_page_def)
  assume "4 * b + 4 \<le> length D" "i < 4"
  moreover from this(2) have "i = 0 \<or> i = 1 \<or> i = 2 \<or> i = 3" by arith
  ultimately show "store_page D b bs ! (4 * b + i) = bs ! i" by (auto simp: store_page_def)
qed (auto simp: store_page_def)

text \<open>
  What page-out saves: the first block as the frame is when the transfer starts, the others as
  the page is, because the first wait writes it back.
\<close>

definition saved_blocks :: "machine \<Rightarrow> nat \<Rightarrow> block list" where
  "saved_blocks m f = [page_block (frames m ! f) 0, page_block (view m f) 1, page_block (view m f) 2, page_block (view m f) 3]"

context paging_device begin

lemma frame_write_ok:
  assumes "tlb_ok m" "f < length (frames m)" "ok d" "4 * unat b + 4 \<le> length (img d)"
  shows "\<exists>m' d'. frame_write rpc ino f b (m, d) = Some (m', d') \<and> tlb_flush m = Some m' \<and> ok d' \<and>
    img d' = store_page (img d) (unat b) (saved_blocks m f)"
proof -
  from tlb_flush_ok [OF assms(1)] obtain m' where m': "tlb_flush m = Some m'" by blast
  note fl = flush_twice [OF assms(1) m']
  have fr: "frames m' ! f = view m f" using assms(2) by (simp add: fl(3))
  have off: "unat (b * 4) = 4 * unat b" "unat (b * 4 + 1) = 4 * unat b + 1" "unat (b * 4 + 1 + 1) = 4 * unat b + 2"
    "unat (b * 4 + 1 + 1 + 1) = 4 * unat b + 3"
    using page_offsets [OF assms(4) img_small [OF assms(3)], of 0] page_offsets [OF assms(4) img_small [OF assms(3)], of 1]
      page_offsets [OF assms(4) img_small [OF assms(3)], of 2] page_offsets [OF assms(4) img_small [OF assms(3)], of 3]
    by (simp_all add: add.assoc)
  from client_write [OF assms(3), of "b * 4" "page_block (frames m ! f) 0"] assms(4) off(1) obtain d0 where
    d0: "block_write rpc ino (b * 4) (page_block (frames m ! f) 0) d = Some (True, d0)" "ok d0"
      "img d0 = (img d)[4 * unat b := page_block (frames m ! f) 0]" by auto
  from client_write [OF d0(2), of "b * 4 + 1" "page_block (view m f) 1"] assms(4) off(2) d0(3) obtain d1 where
    d1: "block_write rpc ino (b * 4 + 1) (page_block (view m f) 1) d0 = Some (True, d1)" "ok d1"
      "img d1 = (img d0)[4 * unat b + 1 := page_block (view m f) 1]" by auto
  from client_write [OF d1(2), of "b * 4 + 1 + 1" "page_block (view m f) 2"] assms(4) off(3) d0(3) d1(3) obtain d2 where
    d2: "block_write rpc ino (b * 4 + 1 + 1) (page_block (view m f) 2) d1 = Some (True, d2)" "ok d2"
      "img d2 = (img d1)[4 * unat b + 2 := page_block (view m f) 2]" by auto
  from client_write [OF d2(2), of "b * 4 + 1 + 1 + 1" "page_block (view m f) 3"] assms(4) off(4) d0(3) d1(3) d2(3) obtain d3 where
    d3: "block_write rpc ino (b * 4 + 1 + 1 + 1) (page_block (view m f) 3) d2 = Some (True, d3)" "ok d3"
      "img d3 = (img d2)[4 * unat b + 3 := page_block (view m f) 3]" by auto
  have "frame_write rpc ino f b (m, d) = Some (m', d3)"
    using assms(2) d0(1) d1(1) d2(1) d3(1) m' fl(1)
    unfolding frame_write_def blocks_per_page(1) page_block_def [abs_def]
    by (simp add: fr assert_def blocks_per_page(2))
  moreover have "img d3 = store_page (img d) (unat b) (saved_blocks m f)"
    by (simp add: d0(3) d1(3) d2(3) d3(3) store_page_def saved_blocks_def)
  ultimately show ?thesis using m' d3(2) by blast
qed

lemma frame_read_ok:
  assumes "tlb_ok m" "g < length (frames m)" "length (view m g) = 4096" "ok d" "4 * unat b + 4 \<le> length (img d)"
  shows "\<exists>m' d'. frame_read rpc ino g b (m, d) = Some (m', d') \<and> ok d' \<and> img d' = img d \<and> (\<forall>j. \<not> mapped m' j) \<and>
    frames m' = (map (view m) [0..<length (frames m)])
      [g := concat (map (\<lambda>i. block_bytes (img d ! (4 * unat b + i))) [0, 1, 2, 3])]"
proof -
  from tlb_flush_ok [OF assms(1)] obtain m1 where m1: "tlb_flush m = Some m1" "\<forall>j. \<not> mapped m1 j"
      "frames m1 = map (view m) [0..<length (frames m)]" by blast
  have off: "unat (b * 4) = 4 * unat b" "unat (b * 4 + 1) = 4 * unat b + 1" "unat (b * 4 + 1 + 1) = 4 * unat b + 2"
    "unat (b * 4 + 1 + 1 + 1) = 4 * unat b + 3"
    using page_offsets [OF assms(5) img_small [OF assms(4)], of 0] page_offsets [OF assms(5) img_small [OF assms(4)], of 1]
      page_offsets [OF assms(5) img_small [OF assms(4)], of 2] page_offsets [OF assms(5) img_small [OF assms(4)], of 3]
    by (simp_all add: add.assoc)
  define bl where "bl i = img d ! (4 * unat b + i)" for i
  from client_read [OF assms(4), of "b * 4"] assms(5) off(1) obtain d0 where
    d0: "block_read rpc ino (b * 4) d = Some (Some (bl 0), d0)" "ok d0" "img d0 = img d" by (auto simp: bl_def)
  from client_read [OF d0(2), of "b * 4 + 1"] assms(5) off(2) d0(3) obtain d1 where
    d1: "block_read rpc ino (b * 4 + 1) d0 = Some (Some (bl 1), d1)" "ok d1" "img d1 = img d" by (auto simp: bl_def)
  from client_read [OF d1(2), of "b * 4 + 1 + 1"] assms(5) off(3) d1(3) obtain d2 where
    d2: "block_read rpc ino (b * 4 + 1 + 1) d1 = Some (Some (bl 2), d2)" "ok d2" "img d2 = img d" by (auto simp: bl_def)
  from client_read [OF d2(2), of "b * 4 + 1 + 1 + 1"] assms(5) off(4) d2(3) obtain d3 where
    d3: "block_read rpc ino (b * 4 + 1 + 1 + 1) d2 = Some (Some (bl 3), d3)" "ok d3" "img d3 = img d" by (auto simp: bl_def)
  define s0 where "s0 = store_block g 0 (bl 0) m1"
  define s1 where "s1 = store_block g (Suc 0) (bl (Suc 0)) s0"
  define s2 where "s2 = store_block g 2 (bl 2) s1"
  define s3 where "s3 = store_block g 3 (bl 3) s2"
  have q: "\<not> mapped m1 j" "\<not> mapped s0 j" "\<not> mapped s1 j" "\<not> mapped s2 j" "\<not> mapped s3 j" for j
    using m1(2) by (simp_all add: s0_def s1_def s2_def s3_def store_block_def mapped_def)
  have fl: "tlb_flush s0 = Some s0" "tlb_flush s1 = Some s1" "tlb_flush s2 = Some s2"
    by (auto intro!: flush_quiet q)
  have "frame_read rpc ino g b (m, d) = Some (s3, d3)"
    using assms(2) d0(1) d1(1) d2(1) d3(1) m1(1) fl
    unfolding frame_read_def blocks_per_page(1)
    by (simp add: blocks_per_page(2) flip: s0_def s1_def s2_def s3_def)
  moreover have "frames s3 = (map (view m) [0..<length (frames m)])
      [g := concat (map (\<lambda>i. block_bytes (img d ! (4 * unat b + i))) [0, 1, 2, 3])]"
    using assms(2,3) by (simp add: s0_def s1_def s2_def s3_def store_block_def m1(3) BLOCK_SIZE_def bl_def)
  ultimately show ?thesis using d3(2,3) q(5) by blast
qed

end

lemma served_ram_store:
  "block_store (protdisk_init (rpc_to (block_proc [ramdisk_store])) 0) ramdisk_ok ramdisk_img"
  by (rule served_ram.remote.block_store_axioms)

interpretation ram_paging: paging_device "rpc_to (block_proc [ramdisk_store])" 0 ramdisk_ok ramdisk_img
  by (rule paging_device.intro [OF served_ram_store])

section \<open>Properties\<close>

text \<open>C23: What page-out saves and page-in restores: when a frame is written to a paging block that lies on
  the device and the block is then read into a frame, both succeed, and that frame holds the
  latest contents of the page, but for its first kilobyte: there it holds what the frame held when
  the transfer started, because that part is handed to the block server before the switch to it
  flushes the TLB. A process that wrote to the first kilobyte of its page since the page was
  mapped loses those writes when its own fault evicts the page. No other frame is touched.\<close>
theorem page_out_in:
  assumes "block_store (protdisk_init rpc ino) ok img" "ok d" "4 * unat b + 4 \<le> length (img d)"
    and "tlb_ok m" "f < length (frames m)" "g < length (frames m)"
    and "length (frames m ! f) = 4096" "length (view m f) = 4096" "length (view m g) = 4096"
  shows "\<exists>m1 d1 m2 d2. frame_write rpc ino f b (m, d) = Some (m1, d1) \<and>
    frame_read rpc ino g b (m1, d1) = Some (m2, d2) \<and>
    frames m2 = (map (view m) [0..<length (frames m)])[g := take 1024 (frames m ! f) @ drop 1024 (view m f)]"
proof -
  note pd = paging_device.intro [OF assms(1)]
  from paging_device.frame_write_ok [OF pd assms(4,5,2,3)] obtain m1 d1 where
    w: "frame_write rpc ino f b (m, d) = Some (m1, d1)" "tlb_flush m = Some m1" "ok d1"
      "img d1 = store_page (img d) (unat b) (saved_blocks m f)" by blast
  note fl = flush_twice [OF assms(4) w(2)]
  have n: "length (frames m1) = length (frames m)" "view m1 g = view m g" using assms(6) by (simp_all add: fl(3,4))
  from paging_device.frame_read_ok [OF pd fl(2), of g d1 b] assms(3,6,9) n w(3,4) obtain m2 d2 where
    r: "frame_read rpc ino g b (m1, d1) = Some (m2, d2)"
      "frames m2 = (map (view m1) [0..<length (frames m1)])
        [g := concat (map (\<lambda>i. block_bytes (img d1 ! (4 * unat b + i))) [0, 1, 2, 3])]"
    by (auto simp: store_page_nth(1))
  have "map (view m1) [0..<length (frames m1)] = map (view m) [0..<length (frames m)]"
    by (simp add: n fl(3,4) cong: map_cong)
  moreover have "concat (map (\<lambda>i. block_bytes (img d1 ! (4 * unat b + i))) [0, 1, 2, 3]) =
      concat (map (\<lambda>i. block_bytes (saved_blocks m f ! i)) [0, 1, 2, 3])"
  proof (intro arg_cong [of _ _ concat] map_cong refl)
    fix i :: nat assume "i \<in> set [0, 1, 2, 3]"
    then have "i < 4" by auto
    then show "block_bytes (img d1 ! (4 * unat b + i)) = block_bytes (saved_blocks m f ! i)"
      by (simp only: w(4) store_page_nth(2) [OF assms(3)])
  qed
  moreover have "\<dots> = take 1024 (frames m ! f) @ drop 1024 (view m f)"
    using assms(7,8) page_pieces [OF assms(8)]
    by (simp add: saved_blocks_def page_block_bytes numeral_2_eq_2 numeral_3_eq_3)
  ultimately show ?thesis using w(1) r by auto
qed

theorem page_out_in_witness:
  "\<exists>m1 d1 m2 d2. frame_write (rpc_to (block_proc [ramdisk_store])) 0 0 1
      (tlb_initialize 2 (mem_initialize 3), ramdisk_init (replicate 8 0) 8) = Some (m1, d1) \<and>
    frame_read (rpc_to (block_proc [ramdisk_store])) 0 2 1 (m1, d1) = Some (m2, d2) \<and> length (frames m2 ! 2) = 4096"
proof -
  let ?m = "tlb_initialize 2 (mem_initialize 3)"
  have fr: "frames ?m = replicate 3 (replicate 4096 0)" by (simp add: tlb_initialize_def mem_initialize_def PAGESIZE_def)
  have v: "view ?m f = frames ?m ! f" for f by (rule view_unmapped) (simp add: tlb_init_ok(2))
  have len: "length (frames ?m ! 0) = 4096" "length (frames ?m ! 2) = 4096" "length (frames ?m) = 3"
    unfolding fr by simp_all
  have "\<exists>m1 d1 m2 d2. frame_write (rpc_to (block_proc [ramdisk_store])) 0 0 1 (?m, ramdisk_init (replicate 8 0) 8) = Some (m1, d1) \<and>
    frame_read (rpc_to (block_proc [ramdisk_store])) 0 2 1 (m1, d1) = Some (m2, d2) \<and>
    frames m2 = (map (view ?m) [0..<length (frames ?m)])[2 := take 1024 (frames ?m ! 0) @ drop 1024 (view ?m 0)]"
    by (rule page_out_in [OF served_ram_store _ _ tlb_init_ok(1)])
      (simp_all only: v len, simp_all add: ramdisk_ok_def ramdisk_img_def ramdisk_init_def)
  then show ?thesis using len unfolding v by (elim exE conjE) simp
qed

end
