(* ===== verification/PagingInv.thy ===== *)
theory PagingInv
  imports Paging KernelProps
begin

text \<open>
  The frames and the clock algorithm (theory \<open>Paging\<close>): allocation keeps the invariant of the kernel
  when no other fault comes in between, the clock algorithm finds a victim whenever no frame is
  free, and what goes wrong when two faults interleave.
\<close>

section \<open>Changing one page\<close>

lemma upd_pages_fields [simp]:
  "length (k_procs (set_page pg x k)) = length (k_procs k)" "k_current (set_page pg x k) = k_current k"
  "k_runq (set_page pg x k) = k_runq k" "k_freeframes (set_page pg x k) = k_freeframes k"
  "k_freeblocks (set_page pg x k) = k_freeblocks k" "k_frame_info (set_page pg x k) = k_frame_info k"
  "k_clock_hand (set_page pg x k) = k_clock_hand k"
  by (simp_all add: set_page_def)

lemma set_frame_fields [simp]:
  "k_procs (set_frame f s pg k) = k_procs k" "k_current (set_frame f s pg k) = k_current k"
  "k_runq (set_frame f s pg k) = k_runq k" "k_freeframes (set_frame f s pg k) = k_freeframes k"
  "k_freeblocks (set_frame f s pg k) = k_freeblocks k" "k_clock_hand (set_frame f s pg k) = k_clock_hand k"
  "k_frame_info (set_frame f s pg k) = (k_frame_info k)[f := \<lparr>fi_state = s, fi_pi = pg\<rparr>]"
  "pr (set_frame f s pg k) = pr k" "live (set_frame f s pg k) = live k" "held_pages (set_frame f s pg k) = held_pages k"
  by (auto simp: set_frame_def pr_def live_def held_pages_def fun_eq_iff cong: if_cong)

lemma paging_fields [simp]:
  "live (k\<lparr>k_freeframes := e\<rparr>) = live k" "live (k\<lparr>k_freeblocks := e\<rparr>) = live k"
  "live (k\<lparr>k_frame_info := g\<rparr>) = live k" "live (k\<lparr>k_clock_hand := h\<rparr>) = live k"
  "held_pages (k\<lparr>k_freeframes := e\<rparr>) = held_pages k" "held_pages (k\<lparr>k_freeblocks := e\<rparr>) = held_pages k"
  "held_pages (k\<lparr>k_frame_info := g\<rparr>) = held_pages k" "held_pages (k\<lparr>k_clock_hand := h\<rparr>) = held_pages k"
  by (auto simp: live_def held_pages_def fun_eq_iff cong: if_cong)

lemma pr_set_page:
  "i < length (k_procs k) \<Longrightarrow> pr (set_page (i, n) x k) j =
     (if j = i then (pr k i)\<lparr>p_pages := (p_pages (pr k i))[n := x]\<rparr> else pr k j)"
  by (simp add: set_page_def)

lemma live_set_page: "i < length (k_procs k) \<Longrightarrow> live (set_page (i, n) x k) j = live k j"
  by (simp add: live_def pr_set_page)

lemma mset_update_add: "n < length xs \<Longrightarrow> mset (xs[n := x]) + {#xs ! n#} = mset xs + {#x#}"
  by (simp add: mset_update)

lemma held_set_page:
  assumes "i < 100" "live k i" "n < length (p_pages (pr k i))" "length (k_procs k) = 100"
  shows "mset (held_pages (set_page (i, n) x k)) + {#p_pages (pr k i) ! n#} = mset (held_pages k) + {#x#}"
proof -
  let ?F = "\<lambda>k j. mset (if live k j then p_pages (pr k j) else [])"
  let ?k = "set_page (i, n) x k"
  have h: "mset (held_pages k) = (\<Sum>j\<in>{0..<100}. ?F k j)" for k
    unfolding held_pages_def mset_concat by (simp add: sum_list_distinct_conv_sum_set comp_def)
  have same: "(\<Sum>j\<in>{0..<100} - {i}. ?F ?k j) = (\<Sum>j\<in>{0..<100} - {i}. ?F k j)"
    by (rule sum.cong) (use assms in \<open>auto simp: pr_set_page live_set_page\<close>)
  have split: "(\<Sum>j\<in>{0..<100}. ?F k j) = ?F k i + (\<Sum>j\<in>{0..<100} - {i}. ?F k j)" for k
    using assms(1) by (simp add: sum.remove)
  have at: "?F ?k i + {#p_pages (pr k i) ! n#} = ?F k i + {#x#}"
    using assms mset_update_add [OF assms(3), of x] by (simp add: pr_set_page live_set_page)
  have "mset (held_pages ?k) + {#p_pages (pr k i) ! n#} = (\<Sum>j\<in>{0..<100} - {i}. ?F k j) + (?F ?k i + {#p_pages (pr k i) ! n#})"
    unfolding h split [of ?k] same by (simp only: ac_simps)
  also have "\<dots> = mset (held_pages k) + {#x#}"
    unfolding at h split [of k] by (simp only: ac_simps)
  finally show ?thesis .
qed

abbreviation frames1 :: "page_info \<Rightarrow> u32 multiset" where
  "frames1 p \<equiv> (case p of PI_VALID f \<Rightarrow> {#f#} | _ \<Rightarrow> {#})"

abbreviation blocks1 :: "page_info \<Rightarrow> u32 multiset" where
  "blocks1 p \<equiv> (case p of PI_ONDISK b \<Rightarrow> {#b#} | _ \<Rightarrow> {#})"

lemma frames_set_page:
  assumes "i < 100" "live k i" "n < length (p_pages (pr k i))" "length (k_procs k) = 100"
  shows "mset (frames_of (held_pages (set_page (i, n) x k))) + frames1 (p_pages (pr k i) ! n) =
      mset (frames_of (held_pages k)) + frames1 x"
    "mset (blocks_of (held_pages (set_page (i, n) x k))) + blocks1 (p_pages (pr k i) ! n) =
      mset (blocks_of (held_pages k)) + blocks1 x"
proof -
  note h = held_set_page [OF assms, of x]
  have "(\<Sum>p\<in>#mset (held_pages (set_page (i, n) x k)) + {#p_pages (pr k i) ! n#}. frames1 p) =
      (\<Sum>p\<in>#mset (held_pages k) + {#x#}. frames1 p)" by (simp only: h)
  then show "mset (frames_of (held_pages (set_page (i, n) x k))) + frames1 (p_pages (pr k i) ! n) =
      mset (frames_of (held_pages k)) + frames1 x" by (simp add: mset_frames_of ac_simps)
  have "(\<Sum>p\<in>#mset (held_pages (set_page (i, n) x k)) + {#p_pages (pr k i) ! n#}. blocks1 p) =
      (\<Sum>p\<in>#mset (held_pages k) + {#x#}. blocks1 p)" by (simp only: h)
  then show "mset (blocks_of (held_pages (set_page (i, n) x k))) + blocks1 (p_pages (pr k i) ! n) =
      mset (blocks_of (held_pages k)) + blocks1 x" by (simp add: mset_blocks_of ac_simps)
qed

lemma kernel_inv_set_page:
  assumes "kernel_inv X k" "i < 100"
  shows "kernel_inv X (set_page (i, n) x k)"
  unfolding set_page_def fst_conv snd_conv
  by (rule kernel_inv_upd [OF assms]) (use kernel_invD(7) [OF assms] in \<open>simp_all add: proc_ok_def mail_ok_def\<close>)

lemma kernel_inv_fields:
  assumes "kernel_inv X k"
  shows "kernel_inv X (set_frame f s pg k)" "kernel_inv X (k\<lparr>k_freeframes := fs\<rparr>)"
    "kernel_inv X (k\<lparr>k_freeblocks := bs\<rparr>)" "kernel_inv X (k\<lparr>k_clock_hand := h\<rparr>)" "kernel_inv X (k\<lparr>k_frame_info := fi\<rparr>)"
  using assms by (simp_all add: set_frame_def kernel_inv_def queues_ok_def counts_ok_def slots_def pr_def)

text \<open>Every frame in use has an owner.\<close>

lemma frame_owner:
  assumes "pages_inv [] k" "f \<in> set (frames_of (held_pages k))"
  shows "\<exists>i n. i < 100 \<and> live k i \<and> n < length (p_pages (pr k i)) \<and> p_pages (pr k i) ! n = PI_VALID f \<and>
    fi_pi (k_frame_info k ! unat f) = Some (i, n)"
proof -
  from assms(2) have "PI_VALID f \<in> set (held_pages k)"
    by (auto simp: frames_of_def split: page_info.splits)
  then obtain i where i: "i < 100" "live k i" "PI_VALID f \<in> set (p_pages (pr k i))"
    by (auto simp: held_pages_def split: if_splits)
  then obtain n where n: "n < length (p_pages (pr k i))" "p_pages (pr k i) ! n = PI_VALID f"
    by (auto simp: in_set_conv_nth)
  from pages_invD(7) [OF assms(1) i(1) n(1) i(2) n(2)] i n show ?thesis by blast
qed

lemma page_held:
  "i < 100 \<Longrightarrow> live k i \<Longrightarrow> n < length (p_pages (pr k i)) \<Longrightarrow> p_pages (pr k i) ! n \<in> set (held_pages k)"
  by (auto simp: held_pages_def intro!: bexI [of _ i])

lemma valid_held:
  "i < 100 \<Longrightarrow> live k i \<Longrightarrow> n < length (p_pages (pr k i)) \<Longrightarrow> p_pages (pr k i) ! n = PI_VALID f \<Longrightarrow>
     f \<in> set (frames_of (held_pages k))"
  using page_held [of i k n] by (force simp: frames_of_def)

section \<open>Assigning a free frame\<close>

lemma assign_frame_inv:
  assumes "pages_inv [] k" "length (k_procs k) = 100" "k_freeframes k = f # fs"
    and "i < 100" "live k i" "n < length (p_pages (pr k i))" "frames1 (p_pages (pr k i) ! n) = {#}"
  shows "pages_inv [] (set_page (i, n) (PI_VALID f) (set_frame (unat f) FI_REF (Some (i, n)) (k\<lparr>k_freeframes := fs\<rparr>)))"
    (is "pages_inv [] ?k")
proof -
  let ?ka = "set_frame (unat f) FI_REF (Some (i, n)) (k\<lparr>k_freeframes := fs\<rparr>)"
  note d = pages_invD [OF assms(1)]
  have f: "unat f < 128" using d(9) [of f] assms(3) by simp
  have prk: "pr (k\<lparr>k_freeframes := fs\<rparr>) = pr k" by (simp add: fun_eq_iff)
  have base: "pr ?ka = pr k" "live ?ka = live k" "held_pages ?ka = held_pages k" "length (k_procs ?ka) = 100"
    using assms(2) by (simp_all add: prk)
  have fr: "mset (frames_of (held_pages ?k)) = mset (frames_of (held_pages k)) + {#f#}"
    using frames_set_page(1) [of i ?ka n "PI_VALID f"] assms(2,4-7) by (simp add: base)
  have bl: "mset (blocks_of (held_pages ?k)) \<subseteq># mset (blocks_of (held_pages k))"
  proof -
    have "mset (blocks_of (held_pages ?k)) + blocks1 (p_pages (pr k i) ! n) = mset (blocks_of (held_pages k))"
      using frames_set_page(2) [of i ?ka n "PI_VALID f"] assms(2,4-6) by (simp add: base)
    then show ?thesis by (metis mset_subset_eq_add_left)
  qed
  have fsdist: "f \<notin> set fs" "f \<notin> set (frames_of (held_pages k))" using d(8) assms(3) by auto
  have fi: "k_frame_info ?k ! unat g = (if g = f then \<lparr>fi_state = FI_REF, fi_pi = Some (i, n)\<rparr> else k_frame_info k ! unat g)" for g
    using f d(1) unat32_inject [of g f] by (auto simp: nth_list_update)
  show ?thesis
    unfolding pages_inv_def
  proof (intro conjI ballI allI impI)
    show "length (k_frame_info ?k) = 128" "k_clock_hand ?k < 128" using d(1,2) by simp_all
    show "mset (k_freeframes ?k @ frames_of (held_pages ?k @ [])) = mset (map of_nat [0..<128])"
      using d(3) fr assms(3) by simp
    show "mset (k_freeblocks ?k @ blocks_of (held_pages ?k @ [])) \<subseteq># mset (map of_nat [0..<1024])"
    proof -
      have "mset (k_freeblocks ?k @ blocks_of (held_pages ?k @ [])) \<subseteq># mset (k_freeblocks k @ blocks_of (held_pages k @ []))"
        using bl by simp
      from subset_mset.order_trans [OF this d(4)] show ?thesis .
    qed
  next
    fix g assume "g \<in> set (k_freeframes ?k)"
    then show "fi_state (k_frame_info ?k ! unat g) = FI_FREE"
      using d(5) [of g] fsdist(1) assms(3) unfolding fi by auto
  next
    fix g assume "g \<in> set (frames_of (held_pages ?k @ []))"
    then have "g \<in># mset (frames_of (held_pages ?k))" by simp
    then have "g = f \<or> g \<in> set (frames_of (held_pages k))" unfolding fr by auto
    then show "fi_state (k_frame_info ?k ! unat g) = FI_REF \<or> fi_state (k_frame_info ?k ! unat g) = FI_UNREF"
      using d(6) [of g] unfolding fi by auto
  next
    fix j l g assume j: "j < 100" and l: "l < length (p_pages (pr ?k j))"
      and a: "live ?k j \<and> p_pages (pr ?k j) ! l = PI_VALID g"
    show "fi_pi (k_frame_info ?k ! unat g) = Some (j, l)"
    proof (cases "j = i \<and> l = n")
      case True
      with a l assms(2,4) have "g = f" by (simp add: pr_set_page prk)
      with True show ?thesis by (simp add: fi del: upd_pages_fields set_frame_fields)
    next
      case False
      have lv: "live k j" using a live_set_page [of i ?ka n "PI_VALID f" j] assms(2,4) by (simp add: base)
      have g: "p_pages (pr k j) ! l = PI_VALID g" "l < length (p_pages (pr k j))"
        using a l False assms(2,4) by (auto simp: pr_set_page prk split: if_splits)
      from valid_held [OF j lv g(2,1)] fsdist(2) have "g \<noteq> f" by auto
      with d(7) [OF j g(2) lv g(1)] show ?thesis by (simp add: fi del: upd_pages_fields set_frame_fields)
    qed
  qed
qed

section \<open>Taking a frame from its owner\<close>

lemma victim_inv:
  assumes "pages_inv [] k" "length (k_procs k) = 100" "k_freeblocks k = b # bs"
    and "i < 100" "live k i" "n < length (p_pages (pr k i))" "p_pages (pr k i) ! n = PI_VALID f"
  shows "pages_inv [] (set_page (i, n) (PI_ONDISK b) (set_frame (unat f) FI_FREE pg
      (k\<lparr>k_freeblocks := bs, k_freeframes := f # k_freeframes k\<rparr>)))"
    (is "pages_inv [] ?k")
proof -
  let ?ka = "set_frame (unat f) FI_FREE pg (k\<lparr>k_freeblocks := bs, k_freeframes := f # k_freeframes k\<rparr>)"
  note d = pages_invD [OF assms(1)]
  have prk: "pr (k\<lparr>k_freeblocks := bs, k_freeframes := f # k_freeframes k\<rparr>) = pr k" by (simp add: fun_eq_iff)
  have base: "pr ?ka = pr k" "live ?ka = live k" "held_pages ?ka = held_pages k" "length (k_procs ?ka) = 100"
    using assms(2) by (simp_all add: prk)
  have f: "unat f < 128" using d(9) [of f] valid_held [OF assms(4-7)] by simp
  have fr: "mset (frames_of (held_pages ?k)) + {#f#} = mset (frames_of (held_pages k))"
    using frames_set_page(1) [of i ?ka n "PI_ONDISK b"] assms(2,4-7) by (simp add: base)
  have bl: "mset (blocks_of (held_pages ?k)) = mset (blocks_of (held_pages k)) + {#b#}"
    using frames_set_page(2) [of i ?ka n "PI_ONDISK b"] assms(2,4-7) by (simp add: base)
  have fi: "k_frame_info ?k ! unat g = (if g = f then \<lparr>fi_state = FI_FREE, fi_pi = pg\<rparr> else k_frame_info k ! unat g)" for g
    using f d(1) unat32_inject [of g f] by (auto simp: nth_list_update)
  have "distinct (frames_of (held_pages k))" using d(8) by simp
  then have fresh: "f \<notin> set (frames_of (held_pages ?k))"
  proof -
    have "count (mset (frames_of (held_pages k))) f \<le> 1"
      using \<open>distinct (frames_of (held_pages k))\<close> by (simp add: distinct_count_atmost_1)
    then have "count (mset (frames_of (held_pages ?k))) f = 0" unfolding fr [symmetric] by simp
    then show ?thesis by (simp add: count_eq_zero_iff)
  qed
  have sub: "g \<in> set (frames_of (held_pages k))" if "g \<in> set (frames_of (held_pages ?k))" for g
  proof -
    from that have "g \<in># mset (frames_of (held_pages ?k))" by simp
    then have "g \<in># mset (frames_of (held_pages k))" unfolding fr [symmetric] by (simp del: set_mset_mset)
    then show ?thesis by simp
  qed
  show ?thesis
    unfolding pages_inv_def
  proof (intro conjI ballI allI impI)
    show "length (k_frame_info ?k) = 128" "k_clock_hand ?k < 128" using d(1,2) by simp_all
    have "mset (k_freeframes ?k @ frames_of (held_pages ?k @ [])) = mset (k_freeframes k @ frames_of (held_pages k @ []))"
      using fr by simp
    then show "mset (k_freeframes ?k @ frames_of (held_pages ?k @ [])) = mset (map of_nat [0..<128])"
      unfolding d(3) .
    have "mset (k_freeblocks ?k @ blocks_of (held_pages ?k @ [])) = mset (k_freeblocks k @ blocks_of (held_pages k @ []))"
      using bl assms(3) by simp
    with d(4) show "mset (k_freeblocks ?k @ blocks_of (held_pages ?k @ [])) \<subseteq># mset (map of_nat [0..<1024])"
      by simp
  next
    fix g assume "g \<in> set (k_freeframes ?k)"
    then show "fi_state (k_frame_info ?k ! unat g) = FI_FREE"
      using d(5) [of g] unfolding fi by auto
  next
    fix g assume "g \<in> set (frames_of (held_pages ?k @ []))"
    then have "g \<in> set (frames_of (held_pages ?k))" by simp
    with sub fresh have "g \<in> set (frames_of (held_pages k @ []))" "g \<noteq> f" by auto
    then show "fi_state (k_frame_info ?k ! unat g) = FI_REF \<or> fi_state (k_frame_info ?k ! unat g) = FI_UNREF"
      using d(6) [of g] unfolding fi by auto
  next
    fix j l g assume j: "j < 100" and l: "l < length (p_pages (pr ?k j))"
      and a: "live ?k j \<and> p_pages (pr ?k j) ! l = PI_VALID g"
    have lv: "live ?k j" using a by blast
    then have lk: "live k j" using live_set_page [of i ?ka n "PI_ONDISK b" j] assms(2,4) by (simp add: base)
    from valid_held [OF j lv l] a fresh have "g \<noteq> f" by auto
    moreover have "p_pages (pr k j) ! l = PI_VALID g" "l < length (p_pages (pr k j))"
      using a l assms(2,4) by (auto simp: pr_set_page prk nth_list_update_if split: if_splits)
    ultimately show "fi_pi (k_frame_info ?k ! unat g) = Some (j, l)"
      using d(7) [OF j _ lk] by (simp add: fi del: upd_pages_fields set_frame_fields)
  qed
qed

section \<open>The clock\<close>

lemma unref_inv:
  assumes "pages_inv [] k" "h < 128" "fi_state (k_frame_info k ! h) = FI_REF"
  shows "pages_inv [] ((set_frame h FI_UNREF (fi_pi (k_frame_info k ! h)) k)\<lparr>k_clock_hand := g mod 128\<rparr>)"
    (is "pages_inv [] ?k")
proof -
  note d = pages_invD [OF assms(1)]
  have fi: "k_frame_info ?k ! unat f = (if unat f = h then \<lparr>fi_state = FI_UNREF, fi_pi = fi_pi (k_frame_info k ! h)\<rparr>
      else k_frame_info k ! unat f)" for f :: u32
    using assms(2) d(1) by (auto simp: nth_list_update)
  show ?thesis
    unfolding pages_inv_def
  proof (intro conjI ballI allI impI)
    show "length (k_frame_info ?k) = 128" "k_clock_hand ?k < 128" using d(1) by simp_all
    show "mset (k_freeframes ?k @ frames_of (held_pages ?k @ [])) = mset (map of_nat [0..<128])" using d(3) by simp
    show "mset (k_freeblocks ?k @ blocks_of (held_pages ?k @ [])) \<subseteq># mset (map of_nat [0..<1024])" using d(4) by simp
    show "fi_state (k_frame_info ?k ! unat g) = FI_FREE" if "g \<in> set (k_freeframes ?k)" for g
      using d(5) [of g] that assms(3) unfolding fi by auto
    show "fi_state (k_frame_info ?k ! unat g) = FI_REF \<or> fi_state (k_frame_info ?k ! unat g) = FI_UNREF"
      if "g \<in> set (frames_of (held_pages ?k @ []))" for g
      using d(6) [of g] that unfolding fi by auto
  next
    fix j l f assume j: "j < 100" and l: "l < length (p_pages (pr ?k j))"
      and a: "live ?k j \<and> p_pages (pr ?k j) ! l = PI_VALID f"
    then show "fi_pi (k_frame_info ?k ! unat f) = Some (j, l)"
      using d(7) [of j l f] unfolding fi by auto
  qed
qed

text \<open>Every frame is in use when none is free.\<close>

definition all_used :: "kernel \<Rightarrow> bool" where
  "all_used k \<longleftrightarrow> pages_inv [] k \<and> k_freeframes k = []"

lemma all_usedD:
  assumes "all_used k" "h < 128"
  shows "fi_state (k_frame_info k ! h) = FI_REF \<or> fi_state (k_frame_info k ! h) = FI_UNREF"
    "\<exists>i n. i < 100 \<and> live k i \<and> n < length (p_pages (pr k i)) \<and> p_pages (pr k i) ! n = PI_VALID (of_nat h) \<and>
       fi_pi (k_frame_info k ! h) = Some (i, n)"
proof -
  have inv: "pages_inv [] k" and none: "k_freeframes k = []" using assms(1) by (simp_all add: all_used_def)
  have "mset (frames_of (held_pages k)) = mset (map (of_nat :: nat \<Rightarrow> u32) [0..<128])"
    using pages_invD(3) [OF inv] none by simp
  then have "set (frames_of (held_pages k)) = of_nat ` {0..<128}"
    by (metis mset_eq_setD set_map set_upt)
  then have h: "of_nat h \<in> set (frames_of (held_pages k))" using assms(2) by simp
  have u: "unat (of_nat h :: u32) = h" using assms(2) by (simp add: unat32_of_nat)
  show "fi_state (k_frame_info k ! h) = FI_REF \<or> fi_state (k_frame_info k ! h) = FI_UNREF"
    using pages_invD(6) [OF inv, of "of_nat h"] h by (simp add: u)
  show "\<exists>i n. i < 100 \<and> live k i \<and> n < length (p_pages (pr k i)) \<and> p_pages (pr k i) ! n = PI_VALID (of_nat h) \<and>
       fi_pi (k_frame_info k ! h) = Some (i, n)"
    using frame_owner [OF inv h] by (simp add: u)
qed

definition clock_only :: "kernel \<Rightarrow> kernel \<Rightarrow> bool" where
  "clock_only k k' \<longleftrightarrow> (\<exists>fi h. k' = k\<lparr>k_frame_info := fi, k_clock_hand := h\<rparr>)"

lemma clock_only_refl [simp]: "clock_only k k"
  unfolding clock_only_def by (rule exI [of _ "k_frame_info k"], rule exI [of _ "k_clock_hand k"]) simp

lemma clock_only_trans: "clock_only k k' \<Longrightarrow> clock_only k' k'' \<Longrightarrow> clock_only k k''"
  unfolding clock_only_def by (elim exE, hypsubst, simp) blast

lemma clock_step_only: "clock_only k ((set_frame f s pg k)\<lparr>k_clock_hand := h\<rparr>)"
  unfolding clock_only_def set_frame_def by (intro exI, rule kernel.equality) simp_all

lemma clock_only_same:
  assumes "clock_only k k'"
  shows "pr k' = pr k" "live k' = live k" "k_freeframes k' = k_freeframes k" "k_freeblocks k' = k_freeblocks k"
    "k_current k' = k_current k" "k_runq k' = k_runq k" "k_procs k' = k_procs k" "kernel_inv X k \<Longrightarrow> kernel_inv X k'"
proof -
  obtain fi h where k': "k' = k\<lparr>k_frame_info := fi, k_clock_hand := h\<rparr>" using assms by (auto simp: clock_only_def)
  show "pr k' = pr k" "live k' = live k" "k_freeframes k' = k_freeframes k" "k_freeblocks k' = k_freeblocks k"
    "k_current k' = k_current k" "k_runq k' = k_runq k" "k_procs k' = k_procs k"
    by (simp_all add: k' fun_eq_iff)
  show "kernel_inv X k \<Longrightarrow> kernel_inv X k'" unfolding k' by (intro kernel_inv_fields)
qed

lemma clock_scan_found:
  assumes "all_used k" "d < n" "fi_state (k_frame_info k ! ((k_clock_hand k + d) mod 128)) = FI_UNREF"
  shows "\<exists>k'. clock_scan n k = Some k' \<and> all_used k' \<and> clock_only k k' \<and> k_clock_hand k' < 128 \<and>
    fi_state (k_frame_info k' ! k_clock_hand k') = FI_UNREF"
  using assms
proof (induction n arbitrary: k d)
  case 0
  then show ?case by simp
next
  case (Suc n)
  let ?h = "k_clock_hand k"
  have inv: "pages_inv [] k" and h: "?h < 128" and len: "length (k_frame_info k) = 128"
    using Suc.prems(1) pages_invD(1,2) by (auto simp: all_used_def)
  show ?case
  proof (cases "fi_state (k_frame_info k ! ?h) = FI_UNREF")
    case True
    with Suc.prems(1) h show ?thesis by (simp add: Let_def)
  next
    case False
    with all_usedD [OF Suc.prems(1) h] obtain pg where
      ref: "fi_state (k_frame_info k ! ?h) = FI_REF" "fi_pi (k_frame_info k ! ?h) = Some pg" by auto
    let ?k = "(set_frame ?h FI_UNREF (Some pg) k)\<lparr>k_clock_hand := (?h + 1) mod 128\<rparr>"
    have run: "clock_scan (Suc n) k = clock_scan n ?k" using ref by (simp add: Let_def)
    have used: "all_used ?k"
      using unref_inv [OF inv h ref(1), of "?h + 1"] ref(2) Suc.prems(1) by (simp add: all_used_def)
    have d: "0 < d" using Suc.prems(3) False h by (cases d) auto
    have "((?h + 1) mod 128 + (d - 1)) mod 128 = ((?h + 1) + (d - 1)) mod 128" by (rule mod_add_left_eq)
    then have eq: "((?h + 1) mod 128 + (d - 1)) mod 128 = (?h + d) mod 128" using d by simp
    have e: "(k_clock_hand ?k + (d - 1)) mod 128 = (?h + d) mod 128" using eq by simp
    have "fi_state (k_frame_info ?k ! ((k_clock_hand ?k + (d - 1)) mod 128)) = FI_UNREF"
      unfolding e using Suc.prems(3) len h by (simp add: nth_list_update_if)
    moreover have "d - 1 < n" using Suc.prems(2) d by arith
    ultimately obtain k' where
      k': "clock_scan n ?k = Some k'" "all_used k'" "clock_only ?k k'" "k_clock_hand k' < 128"
        "fi_state (k_frame_info k' ! k_clock_hand k') = FI_UNREF" using Suc.IH [OF used] by blast
    with run clock_only_trans [OF clock_step_only k'(3)] show ?thesis by auto
  qed
qed

text \<open>Two rounds are enough: the first takes the reference bits, the second finds one without.\<close>

lemma clock_scan_ok:
  assumes "all_used k"
  shows "\<exists>k'. clock_scan 256 k = Some k' \<and> all_used k' \<and> clock_only k k' \<and> k_clock_hand k' < 128 \<and>
    fi_state (k_frame_info k' ! k_clock_hand k') = FI_UNREF"
proof -
  let ?h = "k_clock_hand k"
  have inv: "pages_inv [] k" and h: "?h < 128" and len: "length (k_frame_info k) = 128"
    using assms pages_invD(1,2) by (auto simp: all_used_def)
  show ?thesis
  proof (cases "fi_state (k_frame_info k ! ?h) = FI_UNREF")
    case True
    with clock_scan_found [OF assms, of 0 256] h show ?thesis by simp
  next
    case False
    with all_usedD [OF assms h] obtain pg where
      ref: "fi_state (k_frame_info k ! ?h) = FI_REF" "fi_pi (k_frame_info k ! ?h) = Some pg" by auto
    let ?k = "(set_frame ?h FI_UNREF (Some pg) k)\<lparr>k_clock_hand := (?h + 1) mod 128\<rparr>"
    have used: "all_used ?k"
      using unref_inv [OF inv h ref(1), of "?h + 1"] ref(2) assms by (simp add: all_used_def)
    have "((?h + 1) mod 128 + 127) mod 128 = (?h + 128) mod 128" by (simp add: mod_simps)
    then have "((?h + 1) mod 128 + 127) mod 128 = ?h" using h by simp
    then have "fi_state (k_frame_info ?k ! ((k_clock_hand ?k + 127) mod 128)) = FI_UNREF" using len h by simp
    from clock_scan_found [OF used _ this, of 255] obtain k' where
      k': "clock_scan 255 ?k = Some k'" "all_used k'" "clock_only ?k k'" "k_clock_hand k' < 128"
        "fi_state (k_frame_info k' ! k_clock_hand k') = FI_UNREF" by auto
    have "clock_scan 256 k = clock_scan 255 ?k"
      using ref clock_scan.simps(2) [of 255 k] by (simp add: Let_def)
    with k' clock_only_trans [OF clock_step_only k'(3)] show ?thesis by auto
  qed
qed

section \<open>Allocation\<close>

definition page_at :: "kernel \<Rightarrow> page \<Rightarrow> page_info" where
  "page_at k pg = p_pages (pr k (fst pg)) ! snd pg"

definition is_page :: "kernel \<Rightarrow> page \<Rightarrow> bool" where
  "is_page k pg \<longleftrightarrow> fst pg < 100 \<and> live k (fst pg) \<and> snd pg < 256"

definition in_memory :: "page_info \<Rightarrow> bool" where
  "in_memory p = (case p of PI_VALID f \<Rightarrow> True | _ \<Rightarrow> False)"

text \<open>The processes other than their pages.\<close>

definition pages_only :: "kernel \<Rightarrow> kernel \<Rightarrow> bool" where
  "pages_only k k' \<longleftrightarrow> k_current k' = k_current k \<and> live k' = live k \<and> (\<forall>j. st k' j = st k j) \<and> k_runq k' = k_runq k"

lemma pages_length: "kernel_inv X k \<Longrightarrow> j < 100 \<Longrightarrow> length (p_pages (pr k j)) = 256"
  using kernel_invD(7) [of X k j] by (simp add: proc_ok_def VIRT_PAGES_def)

lemma page_at_set:
  assumes "length (k_procs k) = 100" "fst q < 100" "snd q < 256" "length (p_pages (pr k (fst q))) = 256"
  shows "page_at (set_page q x k) pg = (if pg = q then x else page_at k pg)"
proof -
  obtain i n j l where q: "q = (i, n)" "pg = (j, l)" by (cases q, cases pg)
  with assms show ?thesis by (auto simp: page_at_def pr_set_page nth_list_update_if)
qed

lemma page_at_fields [simp]:
  "page_at (set_frame f s p k) = page_at k" "page_at (k\<lparr>k_freeframes := e\<rparr>) = page_at k"
  "page_at (k\<lparr>k_freeblocks := e\<rparr>) = page_at k" "page_at (k\<lparr>k_clock_hand := h\<rparr>) = page_at k"
  by (simp_all add: page_at_def fun_eq_iff)

lemma pages_only_set_page:
  "length (k_procs k) = 100 \<Longrightarrow> fst q < 100 \<Longrightarrow> pages_only k (set_page q x k)"
  by (cases q) (simp add: pages_only_def pr_set_page live_set_page fun_eq_iff)

lemma frame_alloc_free:
  assumes "kernel_all X [] k" "is_page k pg" "\<not> in_memory (page_at k pg)" "k_freeframes k = f # fs"
  shows "\<exists>k'. frame_alloc_start pg k = Some (Frame_done k') \<and> kernel_all X [] k' \<and> pages_only k k' \<and>
    (\<forall>q. page_at k' q = (if q = pg then PI_VALID f else page_at k q)) \<and> k_freeblocks k' = k_freeblocks k"
proof -
  have inv: "kernel_inv X k" and pinv: "pages_inv [] k" using assms(1) by (simp_all add: kernel_all_def)
  obtain i n where pg: "pg = (i, n)" by (cases pg)
  have len: "length (k_procs k) = 100" "length (p_pages (pr k i)) = 256" "i < 100" "live k i" "n < 256"
    using kernel_invD(1) [OF inv] pages_length [OF inv] assms(2) by (simp_all add: is_page_def pg)
  let ?k = "set_page pg (PI_VALID f) (set_frame (unat f) FI_REF (Some pg) (k\<lparr>k_freeframes := fs\<rparr>))"
  have e: "frames1 (p_pages (pr k i) ! n) = {#}"
    using assms(3) by (auto simp: in_memory_def page_at_def pg split: page_info.splits)
  have "frame_alloc_start pg k = Some (Frame_done ?k)"
    using pages_invD(5) [OF pinv, of f] assms(4) by (simp add: frame_alloc_start_def)
  moreover have "pages_inv [] ?k" using assign_frame_inv [OF pinv len(1) assms(4) len(3,4) _ e] len by (simp add: pg)
  moreover have "kernel_inv X ?k" unfolding pg using kernel_inv_set_page kernel_inv_fields inv len(3) by simp
  moreover have "pages_only k ?k" using len by (simp add: pg pages_only_def pr_set_page live_set_page fun_eq_iff)
  moreover have "page_at ?k q = (if q = pg then PI_VALID f else page_at k q)" for q
    using page_at_set [of "set_frame (unat f) FI_REF (Some pg) (k\<lparr>k_freeframes := fs\<rparr>)" pg "PI_VALID f" q] len
    by (simp add: pg)
  ultimately show ?thesis by (auto simp: kernel_all_def)
qed

lemma evict_finish_eq:
  assumes "k_freeframes k = []" "k_clock_hand k = h"
  shows "frame_alloc_finish pg (set_frame h FI_PINNED (Some owner) (set_page owner (PI_ONDISK b) (k\<lparr>k_freeblocks := bs\<rparr>))) =
    (set_page pg (PI_VALID (of_nat h)) (set_frame h FI_REF (Some pg)
      ((set_page owner (PI_ONDISK b) (set_frame h FI_FREE p (k\<lparr>k_freeblocks := bs, k_freeframes := of_nat h # k_freeframes k\<rparr>)))
        \<lparr>k_freeframes := []\<rparr>)))\<lparr>k_clock_hand := (h + 1) mod 128\<rparr>"
  using assms by (intro kernel.equality)
    (simp_all add: frame_alloc_finish_def Let_def set_page_def set_frame_def upd_proc_def)

lemma frame_alloc_evict:
  assumes "kernel_all X [] k" "is_page k pg" "\<not> in_memory (page_at k pg)" "k_freeframes k = []" "k_freeblocks k = b # bs"
  shows "\<exists>h owner k1 k'. frame_alloc_start pg k = Some (Frame_evict h b k1) \<and> h < 128 \<and> is_page k owner \<and> owner \<noteq> pg \<and>
    page_at k owner = PI_VALID (of_nat h) \<and> frame_alloc_finish pg k1 = k' \<and> kernel_all X [] k' \<and> pages_only k k' \<and>
    (\<forall>q. page_at k' q = (if q = pg then PI_VALID (of_nat h) else if q = owner then PI_ONDISK b else page_at k q)) \<and>
    k_freeblocks k' = bs \<and> k_freeframes k' = [] \<and> k_clock_hand k1 = h \<and> fi_state (k_frame_info k1 ! h) = FI_PINNED"
proof -
  have inv: "kernel_inv X k" and used: "all_used k" using assms(1,4) by (simp_all add: kernel_all_def all_used_def)
  obtain i n where pg: "pg = (i, n)" by (cases pg)
  from clock_scan_ok [OF used] obtain kc where kc: "clock_scan 256 k = Some kc" "all_used kc" "clock_only k kc"
      "k_clock_hand kc < 128" by blast
  note same = clock_only_same [OF kc(3)]
  note inv' = same(8) [OF inv]
  let ?h = "k_clock_hand kc"
  from all_usedD(2) [OF kc(2,4)] obtain j l where o: "j < 100" "live kc j" "l < length (p_pages (pr kc j))"
      "p_pages (pr kc j) ! l = PI_VALID (of_nat ?h)" "fi_pi (k_frame_info kc ! ?h) = Some (j, l)" by blast
  have l: "l < 256" using o(3) pages_length [OF inv' o(1)] by simp
  have pinv: "pages_inv [] kc" and nofree: "k_freeframes kc = []" using kc(2) by (simp_all add: all_used_def)
  have blocks: "k_freeblocks kc = b # bs" using same(4) assms(5) by simp
  have len: "length (k_procs kc) = 100" "length (p_pages (pr kc i)) = 256" "i < 100" "live kc i" "n < 256"
    using kernel_invD(1) [OF inv'] pages_length [OF inv'] assms(2) same(2) by (simp_all add: is_page_def pg)
  have ne: "(j, l) \<noteq> pg"
    using assms(3) o(4) same(1) by (auto simp: in_memory_def page_at_def pg)
  let ?kv = "set_page (j, l) (PI_ONDISK b) (set_frame ?h FI_FREE None (kc\<lparr>k_freeblocks := bs, k_freeframes := of_nat ?h # k_freeframes kc\<rparr>))"
  let ?k1 = "set_frame ?h FI_PINNED (Some (j, l)) (set_page (j, l) (PI_ONDISK b) (kc\<lparr>k_freeblocks := bs\<rparr>))"
  let ?kr = "set_page pg (PI_VALID (of_nat ?h)) (set_frame ?h FI_REF (Some pg) (?kv\<lparr>k_freeframes := []\<rparr>))"
  have uh: "unat (of_nat ?h :: u32) = ?h" using kc(4) by (simp add: unat32_of_nat)
  have run: "frame_alloc_start pg k = Some (Frame_evict ?h b ?k1)"
    using kc(1) blocks o(5) assms(4) by (simp add: frame_alloc_start_def Let_def)
  have fin: "frame_alloc_finish pg ?k1 = ?kr\<lparr>k_clock_hand := (?h + 1) mod 128\<rparr>"
    by (rule evict_finish_eq [OF nofree refl])
  have vlen: "length (k_procs ?kv) = 100" "length (p_pages (pr ?kv i)) = 256" "live ?kv = live kc"
    "\<And>q. page_at ?kv q = (if q = (j, l) then PI_ONDISK b else page_at kc q)"
    "st ?kv = st kc"
  proof -
    show "length (k_procs ?kv) = 100" using len(1) by simp
    show "length (p_pages (pr ?kv i)) = 256" "live ?kv = live kc" "st ?kv = st kc"
      using len o(1) pages_length [OF inv' o(1)] by (simp_all add: pr_set_page live_set_page fun_eq_iff)
    show "page_at ?kv q = (if q = (j, l) then PI_ONDISK b else page_at kc q)" for q
      using page_at_set [of "set_frame ?h FI_FREE None (kc\<lparr>k_freeblocks := bs, k_freeframes := of_nat ?h # k_freeframes kc\<rparr>)"
          "(j, l)" "PI_ONDISK b" q] len(1) o(1) l pages_length [OF inv' o(1)] by simp
  qed
  have vinv: "pages_inv [] ?kv"
    using victim_inv [OF pinv len(1) blocks o(1-4), of None] by (simp add: uh)
  have kvinv: "kernel_inv X ?kv" using kernel_inv_set_page kernel_inv_fields inv' o(1) by simp
  have e: "frames1 (p_pages (pr ?kv i) ! n) = {#}"
    using vlen(4) [of pg] ne assms(3) same(1) by (auto simp: in_memory_def page_at_def pg split: page_info.splits)
  have "pages_inv [] ?kr"
    using assign_frame_inv [OF vinv vlen(1) _ len(3) _ _ e, of "of_nat ?h" "[]"] vlen(2,3) len(4,5) nofree
    by (simp add: uh pg)
  then have r1: "pages_inv [] (?kr\<lparr>k_clock_hand := (?h + 1) mod 128\<rparr>)"
    by (simp add: pages_inv_def)
  have "kernel_inv X ?kr" unfolding pg using kernel_inv_set_page kernel_inv_fields kvinv len(3) by simp
  then have r2: "kernel_inv X (?kr\<lparr>k_clock_hand := (?h + 1) mod 128\<rparr>)" by (rule kernel_inv_fields)
  have r3: "page_at (?kr\<lparr>k_clock_hand := (?h + 1) mod 128\<rparr>) q =
      (if q = pg then PI_VALID (of_nat ?h) else if q = (j, l) then PI_ONDISK b else page_at k q)" for q
    using page_at_set [of "set_frame ?h FI_REF (Some pg) (?kv\<lparr>k_freeframes := []\<rparr>)" pg "PI_VALID (of_nat ?h)" q]
      vlen(1,2) vlen(4) [of q] len(3,5) same(1) by (simp add: pg page_at_def)
  have r4: "pages_only k (?kr\<lparr>k_clock_hand := (?h + 1) mod 128\<rparr>)"
    using vlen(1,3,5) len(3) same(1,2,5,6)
    by (simp add: pages_only_def pg pr_set_page live_set_page fun_eq_iff)
  have r5: "fi_state (k_frame_info ?k1 ! ?h) = FI_PINNED" using pages_invD(1) [OF pinv] kc(4) by simp
  have r6: "is_page k (j, l)" "page_at k (j, l) = PI_VALID (of_nat ?h)"
    using o(1,2,4) l same(1,2) by (simp_all add: is_page_def page_at_def)
  show ?thesis
  proof (intro exI conjI)
    show "frame_alloc_start pg k = Some (Frame_evict ?h b ?k1)" by (rule run)
    show "frame_alloc_finish pg ?k1 = ?kr\<lparr>k_clock_hand := (?h + 1) mod 128\<rparr>" by (rule fin)
    show "kernel_all X [] (?kr\<lparr>k_clock_hand := (?h + 1) mod 128\<rparr>)" using r1 r2 by (simp add: kernel_all_def)
    show "\<forall>q. page_at (?kr\<lparr>k_clock_hand := (?h + 1) mod 128\<rparr>) q =
      (if q = pg then PI_VALID (of_nat ?h) else if q = (j, l) then PI_ONDISK b else page_at k q)" using r3 by blast
    show "k_freeblocks (?kr\<lparr>k_clock_hand := (?h + 1) mod 128\<rparr>) = bs" "k_clock_hand ?k1 = ?h"
      "k_freeframes (?kr\<lparr>k_clock_hand := (?h + 1) mod 128\<rparr>) = []" by simp_all
  qed (fact kc(4) r6 ne r4 r5)+
qed

section \<open>Two faults at once\<close>

lemma frame_alloc_evict_fields:
  assumes "frame_alloc_start pg k = Some (Frame_evict h b k1)"
  shows "k_clock_hand k1 = h" "k_freeframes k = []"
  using assms by (auto simp: frame_alloc_start_def Let_def split: list.splits bind_splits option.splits)

lemma finish_page_at:
  assumes "length (k_procs k) = 100" "fst pg < 100" "snd pg < 256" "length (p_pages (pr k (fst pg))) = 256"
  shows "page_at (frame_alloc_finish pg k) q = (if q = pg then PI_VALID (of_nat (k_clock_hand k)) else page_at k q)"
    "k_clock_hand (frame_alloc_finish pg k) = (k_clock_hand k + 1) mod 128"
    "k_frame_info (frame_alloc_finish pg k) = (k_frame_info k)[k_clock_hand k := \<lparr>fi_state = FI_REF, fi_pi = Some pg\<rparr>]"
    "k_procs (frame_alloc_finish pg k) = k_procs (set_page pg (PI_VALID (of_nat (k_clock_hand k))) k)"
  using page_at_set [of "set_frame (k_clock_hand k) FI_REF (Some pg) k" pg] assms
  by (simp_all add: frame_alloc_finish_def Let_def) (simp add: set_frame_def set_page_def upd_proc_def)

text \<open>A kernel in which \<open>main\<close> uses every frame.\<close>

definition full_kernel :: kernel where
  "full_kernel = (upd_proc 0 (\<lambda>p. p\<lparr>p_pages := map (\<lambda>n. if n < 128 then PI_VALID (of_nat n) else PI_UNINIT) [0..<256]\<rparr>) init_kernel)
     \<lparr>k_freeframes := [], k_frame_info := map (\<lambda>n. \<lparr>fi_state = FI_UNREF, fi_pi = Some (0, n)\<rparr>) [0..<128]\<rparr>"

lemma full_kernel_inv: "kernel_inv {0} full_kernel"
proof -
  have "kernel_inv {0} init_kernel" using init_ok by (simp add: kernel_ok_def kernel_all_def)
  then have "kernel_inv {0} (upd_proc 0 (\<lambda>p. p\<lparr>p_pages := map (\<lambda>n. if n < 128 then PI_VALID (of_nat n) else PI_UNINIT) [0..<256]\<rparr>) init_kernel)"
    by (rule kernel_inv_upd) (use kernel_invD(7) [OF \<open>kernel_inv {0} init_kernel\<close>, of 0]
        in \<open>simp_all add: proc_ok_def mail_ok_def VIRT_PAGES_def\<close>)
  then show ?thesis unfolding full_kernel_def by (intro kernel_inv_fields)
qed

lemma full_kernel_fields:
  "k_freeframes full_kernel = []" "k_freeblocks full_kernel = map of_nat [0..<1024]" "k_clock_hand full_kernel = 0"
  "k_frame_info full_kernel = map (\<lambda>n. \<lparr>fi_state = FI_UNREF, fi_pi = Some (0, n)\<rparr>) [0..<128]"
  "k_current full_kernel = 0" "live full_kernel j = live init_kernel j" "pr full_kernel 0 =
     (pr init_kernel 0)\<lparr>p_pages := map (\<lambda>n. if n < 128 then PI_VALID (of_nat n) else PI_UNINIT) [0..<256]\<rparr>"
  by (simp_all add: full_kernel_def live_def) (simp add: init_kernel_def)

lemma upt_two: "1 < n \<Longrightarrow> \<exists>xs. map of_nat [0..<n] = (0 :: u32) # 1 # xs"
  by (simp add: upt_conv_Cons)

lemma clock_scan_here: "0 < n \<Longrightarrow> fi_state (k_frame_info k ! k_clock_hand k) = FI_UNREF \<Longrightarrow> clock_scan n k = Some k"
  by (cases n) (simp_all add: Let_def)

lemma clock_scan_skip:
  "0 < n \<Longrightarrow> fi_state (k_frame_info k ! k_clock_hand k) = FI_PINNED \<Longrightarrow>
     clock_scan n k = clock_scan (n - 1) (k\<lparr>k_clock_hand := (k_clock_hand k + 1) mod 128\<rparr>)"
  by (cases n) (simp_all add: Let_def)

lemma frame_alloc_start_evict:
  assumes "k_freeframes k = []" "clock_scan 256 k = Some kc" "k_freeblocks kc = b # bs"
    "fi_pi (k_frame_info kc ! k_clock_hand kc) = Some owner"
  shows "frame_alloc_start pg k = Some (Frame_evict (k_clock_hand kc) b
    (set_frame (k_clock_hand kc) FI_PINNED (Some owner) (set_page owner (PI_ONDISK b) (kc\<lparr>k_freeblocks := bs\<rparr>))))"
  using assms by (simp add: frame_alloc_start_def Let_def)

section \<open>Properties\<close>



text \<open>Two processes that fault while no frame is free corrupt the frame table. Process A picks the
  victim \<open>h\<close> and waits for the paging device; process B picks \<open>h'\<close> and waits; A resumes and uses
  \<open>clock_hand\<close>, which B has moved, and takes the frame that B pinned; B resumes and takes the
  frame after it, which nobody evicted. The process that owns that frame still has it mapped, so
  two pages share it, and frame \<open>h\<close> stays pinned for ever.\<close>
theorem frame_alloc_race:
  assumes "kernel_inv X k2" "fst A < 100" "snd A < 256" "fst B < 100" "snd B < 256" "A \<noteq> B" "q \<noteq> A" "q \<noteq> B"
    and "frame_alloc_start A k = Some (Frame_evict h b k1)" "frame_alloc_start B k1 = Some (Frame_evict h' b' k2)"
    and "page_at k2 q = PI_VALID (of_nat ((h' + 1) mod 128))"
    and "h \<noteq> h'" "h \<noteq> (h' + 1) mod 128" "fi_state (k_frame_info k2 ! h) = FI_PINNED"
    and "k' = frame_alloc_finish B (frame_alloc_finish A k2)"
  shows "page_at k' A = PI_VALID (of_nat h') \<and> page_at k' B = PI_VALID (of_nat ((h' + 1) mod 128)) \<and>
    page_at k' q = page_at k' B \<and> fi_state (k_frame_info k' ! h) = FI_PINNED"
proof -
  have len: "length (k_procs k2) = 100" "\<And>i. i < 100 \<Longrightarrow> length (p_pages (pr k2 i)) = 256"
    using kernel_invD(1) [OF assms(1)] pages_length [OF assms(1)] by auto
  note hand = frame_alloc_evict_fields(1) [OF assms(10)]
  note f1 = finish_page_at [of k2 A, OF len(1) assms(2,3) len(2) [OF assms(2)]]
  let ?k = "frame_alloc_finish A k2"
  have len1: "length (k_procs ?k) = 100" using f1(4) len(1) by simp
  have len2: "length (p_pages (pr ?k (fst B))) = 256"
  proof -
    have "pr ?k = pr (set_page A (PI_VALID (of_nat (k_clock_hand k2))) k2)" using f1(4) by (simp add: pr_def fun_eq_iff)
    then show ?thesis using len assms(2,4) by (cases A) (simp add: pr_set_page)
  qed
  note f2 = finish_page_at [of ?k B, OF len1 assms(4,5) len2]
  show ?thesis unfolding assms(15) f2(1,3) f1(1,2,3) hand
    using assms(6-8,11-14) by simp
qed

theorem frame_alloc_race_witness:
  "\<exists>k1 k2 k'. frame_alloc_start (0, 200) full_kernel = Some (Frame_evict 0 0 k1) \<and>
     frame_alloc_start (0, 201) k1 = Some (Frame_evict 1 1 k2) \<and>
     k' = frame_alloc_finish (0, 201) (frame_alloc_finish (0, 200) k2) \<and>
     page_at k' (0, 2) = page_at k' (0, 201)"
proof -
  obtain bs where blocks: "k_freeblocks full_kernel = 0 # 1 # bs"
    using upt_two [of 1024] unfolding full_kernel_fields(2) by auto
  note fields = full_kernel_fields(1,3-)
  let ?k1 = "set_frame 0 FI_PINNED (Some (0, 0)) (set_page (0, 0) (PI_ONDISK 0) (full_kernel\<lparr>k_freeblocks := 1 # bs\<rparr>))"
  let ?k2 = "set_frame 1 FI_PINNED (Some (0, 1)) (set_page (0, 1) (PI_ONDISK 1)
    (?k1\<lparr>k_clock_hand := 1, k_freeblocks := bs\<rparr>))"
  have s1: "frame_alloc_start (0, 200) full_kernel = Some (Frame_evict 0 0 ?k1)"
    using frame_alloc_start_evict [of full_kernel full_kernel 0 "1 # bs" "(0, 0)" "(0, 200)"]
      clock_scan_here [of 256 full_kernel] by (simp add: fields blocks)
  let ?kc = "?k1\<lparr>k_clock_hand := 1\<rparr>"
  have "clock_scan 256 ?k1 = Some ?kc"
    using clock_scan_skip [of 256 ?k1] clock_scan_here [of 255 ?kc] by (simp add: fields)
  then have s2: "frame_alloc_start (0, 201) ?k1 = Some (Frame_evict 1 1 ?k2)"
    using frame_alloc_start_evict [of ?k1 ?kc 1 bs "(0, 1)" "(0, 201)"]
    by (simp add: fields)
  have "kernel_inv {0} ?k1" using kernel_inv_set_page kernel_inv_fields full_kernel_inv by simp
  then have inv: "kernel_inv {0} ?k2" using kernel_inv_set_page kernel_inv_fields by simp
  have len: "length (k_procs full_kernel) = 100" using kernel_invD(1) [OF full_kernel_inv] .
  have "page_at ?k2 (0, 2) = PI_VALID (of_nat ((1 + 1) mod 128))"
    using len by (simp add: page_at_def pr_set_page fields)
  moreover have "fi_state (k_frame_info ?k2 ! 0) = FI_PINNED" by (simp add: fields)
  ultimately show ?thesis
    using frame_alloc_race [OF inv _ _ _ _ _ _ _ s1 s2, of "(0, 2)", OF _ _ _ _ _ _ _ _ _ _ _ refl] s1 s2 by simp
qed

end
