(* ===== verification/RamFileSvr.thy ===== *)
theory RamFileSvr
  imports FileSvr
begin

text \<open>
  The memory file server (\<open>egos/grass/ramfilesvr.c\<close>). Its state is the array of files. The argument
  \<open>user\<close> of a handler is the user of the process that sent the request, \<open>None\<close> when that process is
  gone (\<open>proc_find\<close> returns null and the server dereferences it). \<open>junk\<close> is what \<open>realloc\<close> leaves in
  new memory. An access outside the array or the contents stops the kernel.
\<close>

section \<open>State\<close>

definition MAX_FILES :: nat where
  "MAX_FILES = 100"

record ram_file =
  f_stat :: file_stat
  f_contents :: "u8 list"

type_synonym ramfiles = "ram_file list"

definition ramfile_respond :: "file_status \<Rightarrow> freply list" where
  "ramfile_respond status = [(zero_reply status, [])]"

section \<open>Handlers\<close>

text \<open>The first free inode from 1 on, or \<open>MAX_FILES\<close>.\<close>

fun free_ino :: "nat \<Rightarrow> file_stat list \<Rightarrow> nat" where
  "free_ino i [] = i"
| "free_ino i (st # sts) = (if \<not> st_alloc st then i else free_ino (i + 1) sts)"

definition first_free :: "ramfiles \<Rightarrow> nat" where
  "first_free files = free_ino 1 (map f_stat (tl files))"

definition ramfile_do_create :: "u32 option \<Rightarrow> file_request \<Rightarrow> ramfiles \<Rightarrow> (freply list \<times> ramfiles) option" where
  "ramfile_do_create user req files = (let ino = first_free files in
     if ino = MAX_FILES then Some (ramfile_respond FILE_ERROR, files)
     else (case user of
         None \<Rightarrow> None
       | Some uid \<Rightarrow>
           let st = (f_stat (files ! ino))\<lparr>st_alloc := True, st_mode := fq_mode req, st_uid := uid\<rparr>
           in Some ([((zero_reply FILE_OK)\<lparr>fp_ino := of_nat ino\<rparr>, [])], files[ino := (files ! ino)\<lparr>f_stat := st\<rparr>])))"

definition ramfile_do_read :: "u32 option \<Rightarrow> file_request \<Rightarrow> ramfiles \<Rightarrow> (freply list \<times> ramfiles) option" where
  "ramfile_do_read user req files = (let ino = unat (fq_ino req) in
     if ino \<ge> length files then None
     else if \<not> st_alloc (f_stat (files ! ino)) then Some (ramfile_respond FILE_ERROR, files)
     else (case user of
         None \<Rightarrow> None
       | Some uid \<Rightarrow>
           let f = files ! ino; st = f_stat f in
           if \<not> read_allowed st uid then Some (ramfile_respond FILE_ERROR, files)
           else
             let n = (if fq_offset req < st_size st
                      then min (ucast (st_size st - fq_offset req)) (fq_size req) else 0 :: u32);
                 rep = (zero_reply FILE_OK)\<lparr>fp_op := FILE_READ, fp_stat := zero_stat\<lparr>st_size := ucast n\<rparr>\<rparr>
             in Some ([(rep, take (unat n) (drop (unat (fq_offset req)) (f_contents f)))], files)))"

text \<open>The size is extended by \<open>realloc\<close>; the copy must stay inside the contents.\<close>

definition ramfile_put :: "(nat \<Rightarrow> u8) \<Rightarrow> u64 \<Rightarrow> u8 list \<Rightarrow> ram_file \<Rightarrow> ram_file option" where
  "ramfile_put junk offset data f = (let end_pos = offset + of_nat (length data);
       f = (if end_pos > st_size (f_stat f)
            then f\<lparr>f_contents := f_contents f @ map junk [length (f_contents f)..<unat end_pos],
                   f_stat := (f_stat f)\<lparr>st_size := end_pos\<rparr>\<rparr>
            else f)
     in if unat offset + length data \<le> length (f_contents f)
        then Some (f\<lparr>f_contents := range_write (unat offset) data (f_contents f)\<rparr>)
        else None)"

definition ramfile_do_write :: "(nat \<Rightarrow> u8) \<Rightarrow> u32 option \<Rightarrow> file_request \<Rightarrow> u8 list \<Rightarrow> ramfiles \<Rightarrow>
    (freply list \<times> ramfiles) option" where
  "ramfile_do_write junk user req data files = (let ino = unat (fq_ino req) in
     if ino \<ge> MAX_FILES \<or> \<not> st_alloc (f_stat (files ! ino)) then Some (ramfile_respond FILE_ERROR, files)
     else if fq_size req \<noteq> of_nat (length data) then Some (ramfile_respond FILE_ERROR, files)
     else (case user of
         None \<Rightarrow> None
       | Some uid \<Rightarrow>
           if \<not> write_allowed (f_stat (files ! ino)) uid then Some (ramfile_respond FILE_ERROR, files)
           else do {
             f \<leftarrow> ramfile_put junk (fq_offset req) data (files ! ino);
             Some (ramfile_respond FILE_OK, files[ino := f]) }))"

definition ramfile_do_stat :: "u32 option \<Rightarrow> file_request \<Rightarrow> ramfiles \<Rightarrow> (freply list \<times> ramfiles) option" where
  "ramfile_do_stat user req files = (let ino = unat (fq_ino req) in
     if ino \<ge> length files then None
     else if \<not> st_alloc (f_stat (files ! ino)) then Some (ramfile_respond FILE_ERROR, files)
     else (case user of
         None \<Rightarrow> None
       | Some uid \<Rightarrow>
           if \<not> read_allowed (f_stat (files ! ino)) uid then Some (ramfile_respond FILE_ERROR, files)
           else Some ([((zero_reply FILE_OK)\<lparr>fp_op := FILE_STAT, fp_stat := f_stat (files ! ino)\<rparr>, [])], files)))"

definition ramfile_do_setsize :: "u32 option \<Rightarrow> file_request \<Rightarrow> ramfiles \<Rightarrow> (freply list \<times> ramfiles) option" where
  "ramfile_do_setsize user req files = (let ino = unat (fq_ino req) in
     if ino \<ge> MAX_FILES \<or> \<not> st_alloc (f_stat (files ! ino)) then Some (ramfile_respond FILE_ERROR, files)
     else if fq_offset req > st_size (f_stat (files ! ino)) then Some (ramfile_respond FILE_ERROR, files)
     else (case user of
         None \<Rightarrow> None
       | Some uid \<Rightarrow>
           if \<not> write_allowed (f_stat (files ! ino)) uid then Some (ramfile_respond FILE_ERROR, files)
           else Some (ramfile_respond FILE_OK, files[ino := (files ! ino)
             \<lparr>f_stat := (f_stat (files ! ino))\<lparr>st_size := fq_offset req\<rparr>,
              f_contents := take (unat (fq_offset req)) (f_contents (files ! ino))\<rparr>])))"

definition ramfile_do_chown :: "u32 option \<Rightarrow> file_request \<Rightarrow> ramfiles \<Rightarrow> (freply list \<times> ramfiles) option" where
  "ramfile_do_chown user req files = (let ino = unat (fq_ino req) in
     if ino \<ge> MAX_FILES \<or> \<not> st_alloc (f_stat (files ! ino)) then Some (ramfile_respond FILE_ERROR, files)
     else (case user of
         None \<Rightarrow> None
       | Some uid \<Rightarrow>
           if uid \<noteq> 0 then Some (ramfile_respond FILE_ERROR, files)
           else Some (ramfile_respond FILE_OK,
             files[ino := (files ! ino)\<lparr>f_stat := (f_stat (files ! ino))\<lparr>st_uid := fq_uid req\<rparr>\<rparr>])))"

definition ramfile_do_chmod :: "u32 option \<Rightarrow> file_request \<Rightarrow> ramfiles \<Rightarrow> (freply list \<times> ramfiles) option" where
  "ramfile_do_chmod user req files = (let ino = unat (fq_ino req) in
     if ino \<ge> MAX_FILES \<or> \<not> st_alloc (f_stat (files ! ino)) then Some (ramfile_respond FILE_ERROR, files)
     else (case user of
         None \<Rightarrow> None
       | Some uid \<Rightarrow>
           if uid \<noteq> 0 \<and> uid \<noteq> st_uid (f_stat (files ! ino)) then Some (ramfile_respond FILE_ERROR, files)
           else Some (ramfile_respond FILE_OK,
             files[ino := (files ! ino)\<lparr>f_stat := (f_stat (files ! ino))\<lparr>st_mode := fq_mode req\<rparr>\<rparr>])))"

text \<open>One turn of the loop of \<open>ramfile_proc\<close>; the receive buffer has room for \<open>PAGESIZE\<close> bytes of data.\<close>

definition ramfile_proc :: "(nat \<Rightarrow> u8) \<Rightarrow> u32 option \<Rightarrow> fmsg \<Rightarrow> ramfiles \<Rightarrow> (freply list \<times> ramfiles) option" where
  "ramfile_proc junk user msg files = (case msg of (req, data) \<Rightarrow> (case fq_type req of
       FILE_CREATE \<Rightarrow> ramfile_do_create user req files
     | FILE_CHOWN \<Rightarrow> ramfile_do_chown user req files
     | FILE_CHMOD \<Rightarrow> ramfile_do_chmod user req files
     | FILE_READ \<Rightarrow> ramfile_do_read user req files
     | FILE_WRITE \<Rightarrow> ramfile_do_write junk user req (take 4096 data) files
     | FILE_STAT \<Rightarrow> ramfile_do_stat user req files
     | FILE_SETSIZE \<Rightarrow> ramfile_do_setsize user req files
     | _ \<Rightarrow> None))"

definition ramfile_init :: ramfiles where
  "ramfile_init = (replicate MAX_FILES \<lparr>f_stat = zero_stat, f_contents = []\<rparr>)
     [0 := \<lparr>f_stat = zero_stat\<lparr>st_alloc := True\<rparr>, f_contents = []\<rparr>]"

section \<open>Invariant\<close>

definition ramfiles_ok :: "ramfiles \<Rightarrow> bool" where
  "ramfiles_ok files \<longleftrightarrow> length files = MAX_FILES \<and> (\<forall>f\<in>set files. unat (st_size (f_stat f)) = length (f_contents f))"

lemma ramfiles_okD:
  assumes "ramfiles_ok files"
  shows "length files = 100" "i < 100 \<Longrightarrow> unat (st_size (f_stat (files ! i))) = length (f_contents (files ! i))"
  using assms by (simp_all add: ramfiles_ok_def MAX_FILES_def)

lemma ramfiles_ok_update:
  "ramfiles_ok files \<Longrightarrow> unat (st_size (f_stat f)) = length (f_contents f) \<Longrightarrow> ramfiles_ok (files[i := f])"
  by (auto simp: ramfiles_ok_def dest!: set_update_subset_insert [THEN subsetD])

lemma ramfile_init_ok: "ramfiles_ok ramfile_init"
  by (auto simp: ramfiles_ok_def ramfile_init_def zero_stat_def MAX_FILES_def dest!: set_update_subset_insert [THEN subsetD])

lemma free_ino_bounds: "i \<le> free_ino i sts \<and> free_ino i sts \<le> i + length sts"
proof (induction sts arbitrary: i)
  case (Cons st sts)
  from Cons [of "i + 1"] show ?case by auto
qed simp

lemma free_ino_free:
  "free_ino i sts < i + length sts \<Longrightarrow> \<not> st_alloc (sts ! (free_ino i sts - i))"
proof (induction sts arbitrary: i)
  case (Cons st sts)
  show ?case
  proof (cases "st_alloc st")
    case True
    then have e: "free_ino i (st # sts) = free_ino (Suc i) sts" by simp
    have "Suc i \<le> free_ino (Suc i) sts" using free_ino_bounds [of "Suc i" sts] by simp
    then have "free_ino (Suc i) sts - i = Suc (free_ino (Suc i) sts - Suc i)" by simp
    with Cons e show ?thesis by simp
  qed simp
qed simp

lemma ramfile_put_ok:
  assumes "unat (st_size (f_stat f)) = length (f_contents f)" "ramfile_put junk off data f = Some f'" "length data \<le> 4096"
  shows "unat (st_size (f_stat f')) = length (f_contents f')"
proof -
  let ?e = "off + of_nat (length data)"
  show ?thesis
  proof (cases "?e > st_size (f_stat f)")
    case True
    then have "length (f_contents f) \<le> unat ?e" using assms(1) by (simp add: word_less_nat_alt)
    with True assms(1,2) show ?thesis
      by (auto simp: ramfile_put_def Let_def length_range_write split: if_splits)
  next
    case False
    with assms(1,2) show ?thesis
      by (auto simp: ramfile_put_def Let_def length_range_write split: if_splits)
  qed
qed

lemma first_free_bounds:
  assumes "length files = 100"
  shows "1 \<le> first_free files" "first_free files \<le> 100" "first_free files < 100 \<Longrightarrow> \<not> st_alloc (f_stat (files ! first_free files))"
proof -
  let ?sts = "map f_stat (tl files)"
  show b: "1 \<le> first_free files" "first_free files \<le> 100"
    using free_ino_bounds [of 1 ?sts] assms by (simp_all add: first_free_def)
  show "\<not> st_alloc (f_stat (files ! first_free files))" if "first_free files < 100"
  proof -
    have "\<not> st_alloc (?sts ! (first_free files - 1))"
      using free_ino_free [of 1 ?sts] that assms by (simp add: first_free_def)
    moreover have "?sts ! (first_free files - 1) = f_stat (files ! first_free files)"
      using that b assms by (simp add: nth_tl)
    ultimately show ?thesis by simp
  qed
qed

text \<open>One request changes at most one file, and in one of these ways.\<close>

definition ramfile_change :: "file_request \<Rightarrow> u32 \<Rightarrow> ram_file \<Rightarrow> ram_file \<Rightarrow> bool" where
  "ramfile_change req uid f f' \<longleftrightarrow>
     (\<not> st_alloc (f_stat f) \<and> st_uid (f_stat f') = uid \<and> fq_type req = FILE_CREATE) \<or>
     (write_allowed (f_stat f) uid \<and> st_uid (f_stat f') = st_uid (f_stat f) \<and> st_mode (f_stat f') = st_mode (f_stat f) \<and>
        fq_type req \<in> {FILE_WRITE, FILE_SETSIZE}) \<or>
     (uid = 0 \<and> f_contents f' = f_contents f \<and> fq_type req = FILE_CHOWN) \<or>
     ((uid = 0 \<or> uid = st_uid (f_stat f)) \<and> f_contents f' = f_contents f \<and> st_uid (f_stat f') = st_uid (f_stat f) \<and>
        fq_type req = FILE_CHMOD)"

lemma ramfile_put_stat: "ramfile_put junk off data f = Some f' \<Longrightarrow>
    st_uid (f_stat f') = st_uid (f_stat f) \<and> st_mode (f_stat f') = st_mode (f_stat f)"
  by (auto simp: ramfile_put_def Let_def split: if_splits)

lemma ramfile_step:
  assumes "ramfiles_ok files" "ramfile_proc junk (Some uid) (req, data) files = Some (reps, files')"
  shows "files' = files \<or> (\<exists>i f'. i < 100 \<and> files' = files[i := f'] \<and>
    unat (st_size (f_stat f')) = length (f_contents f') \<and> ramfile_change req uid (files ! i) f')"
proof -
  note d = ramfiles_okD [OF assms(1)]
  let ?i = "unat (fq_ino req)"
  show ?thesis
  proof (cases "fq_type req")
    case FILE_CREATE
    let ?ino = "first_free files"
    note c = first_free_bounds [OF d(1)]
    show ?thesis
    proof (cases "?ino = 100")
      case True
      with assms(2) FILE_CREATE show ?thesis by (simp add: ramfile_proc_def ramfile_do_create_def MAX_FILES_def)
    next
      case False
      with c(2) have lt: "?ino < 100" by simp
      let ?f = "(files ! ?ino)\<lparr>f_stat := (f_stat (files ! ?ino))\<lparr>st_alloc := True, st_mode := fq_mode req, st_uid := uid\<rparr>\<rparr>"
      have "files' = files[?ino := ?f]"
        using assms(2) FILE_CREATE False by (simp add: ramfile_proc_def ramfile_do_create_def Let_def MAX_FILES_def)
      with lt c(3) [OF lt] d(2) [OF lt] FILE_CREATE show ?thesis
        by (intro disjI2 exI [of _ ?ino] exI [of _ ?f]) (simp add: ramfile_change_def)
    qed
  next
    case FILE_WRITE
    show ?thesis
    proof (cases "files' = files")
      case False
      with assms(2) FILE_WRITE obtain f where f: "?i < 100" "write_allowed (f_stat (files ! ?i)) uid"
        "ramfile_put junk (fq_offset req) (take 4096 data) (files ! ?i) = Some f" "files' = files[?i := f]"
        by (auto simp: ramfile_proc_def ramfile_do_write_def Let_def MAX_FILES_def split: if_splits bind_splits)
      from ramfile_put_ok [OF d(2) [OF f(1)] f(3)] ramfile_put_stat [OF f(3)] f FILE_WRITE show ?thesis
        by (intro disjI2 exI [of _ ?i]) (auto simp: ramfile_change_def)
    qed simp
  next
    case FILE_SETSIZE
    show ?thesis
    proof (cases "files' = files")
      case False
      with assms(2) FILE_SETSIZE have f: "?i < 100" "write_allowed (f_stat (files ! ?i)) uid"
        "fq_offset req \<le> st_size (f_stat (files ! ?i))"
        "files' = files[?i := (files ! ?i)\<lparr>f_stat := (f_stat (files ! ?i))\<lparr>st_size := fq_offset req\<rparr>,
              f_contents := take (unat (fq_offset req)) (f_contents (files ! ?i))\<rparr>]"
        by (auto simp: ramfile_proc_def ramfile_do_setsize_def Let_def MAX_FILES_def split: if_splits)
      from f(3) d(2) [OF f(1)] have "unat (fq_offset req) \<le> length (f_contents (files ! ?i))"
        by (simp add: word_le_nat_alt)
      with f FILE_SETSIZE show ?thesis
        by (intro disjI2 exI [of _ ?i]) (auto simp: ramfile_change_def)
    qed simp
  next
    case FILE_CHOWN
    with assms(2) d(2) [of ?i] show ?thesis
      by (auto simp: ramfile_proc_def ramfile_do_chown_def Let_def MAX_FILES_def ramfile_change_def
          split: if_splits intro!: exI [of _ ?i])
  next
    case FILE_CHMOD
    with assms(2) d(2) [of ?i] show ?thesis
      by (auto simp: ramfile_proc_def ramfile_do_chmod_def Let_def MAX_FILES_def ramfile_change_def
          split: if_splits intro!: exI [of _ ?i])
  qed (use assms(2) in \<open>auto simp: ramfile_proc_def ramfile_do_read_def ramfile_do_stat_def Let_def split: if_splits\<close>)
qed

section \<open>The contract\<close>

definition ramfile_contents :: "ramfiles \<Rightarrow> u32 \<Rightarrow> u8 list option" where
  "ramfile_contents files ino =
     (if unat ino < 100 \<and> st_alloc (f_stat (files ! unat ino)) then Some (f_contents (files ! unat ino)) else None)"

lemma ramfile_contents_Some:
  assumes "ramfile_contents files ino = Some xs"
  shows "unat ino < 100" "st_alloc (f_stat (files ! unat ino))" "f_contents (files ! unat ino) = xs"
  using assms by (auto simp: ramfile_contents_def split: if_splits)

lemma read_amount:
  assumes "unat (sz :: u64) = length xs" "length xs < 4294967296" "n \<le> 4096"
  shows "take (unat (if off < sz then min (ucast (sz - off)) (of_nat n) else 0 :: u32)) (drop (unat off) xs) =
    range_read (unat off) n xs"
proof (cases "off < sz")
  case True
  then have le: "unat off < length xs" using assms(1) by (simp add: word_less_nat_alt)
  have "unat (sz - off) = length xs - unat off"
    using True assms(1) by (simp add: unat_sub order_less_imp_le)
  then have "unat (ucast (sz - off) :: u32) = length xs - unat off"
    using assms(2) by (simp add: unsigned_ucast_eq take_bit_eq_mod)
  moreover have "unat (of_nat n :: u32) = n" using assms(3) by (intro unat32_of_nat) simp
  ultimately have "unat (min (ucast (sz - off)) (of_nat n) :: u32) = min (length xs - unat off) n"
    by (simp add: min_def word_le_nat_alt)
  moreover have "take (min (length xs - unat off) n) (drop (unat off) xs) = take n (drop (unat off) xs)"
    by (cases "length xs - unat off \<le> n") (simp_all add: min_def)
  ultimately show ?thesis using True by (simp add: range_read_def)
next
  case False
  then have "length xs \<le> unat off" using assms(1) by (simp add: word_less_nat_alt)
  with False show ?thesis by (simp add: range_read_def)
qed

lemma ramfile_read:
  assumes "ramfiles_ok files" "ramfile_contents files ino = Some xs" "read_allowed (f_stat (files ! unat ino)) uid"
    "length xs < 4294967296" "n \<le> 4096"
  shows "\<exists>rep. ramfile_proc junk (Some uid) ((zero_request FILE_READ ino)\<lparr>fq_offset := off, fq_size := of_nat n\<rparr>, []) files =
    Some ([(rep, range_read (unat off) n xs)], files) \<and> fp_status rep = FILE_OK"
proof -
  note c = ramfile_contents_Some [OF assms(2)]
  note d = ramfiles_okD [OF assms(1)]
  have sz: "unat (st_size (f_stat (files ! unat ino))) = length xs" using d(2) [OF c(1)] c(3) by simp
  show ?thesis
    using c d(1) assms(3) read_amount [OF sz assms(4,5), of off]
    by (cases "off < st_size (f_stat (files ! unat ino))")
      (simp_all add: ramfile_proc_def ramfile_do_read_def Let_def zero_request_def zero_reply_def)
qed

lemma ramfile_write:
  assumes "ramfiles_ok files" "ramfile_contents files ino = Some xs" "write_allowed (f_stat (files ! unat ino)) uid"
    "length xs < 4294967296" "unat off \<le> length xs" "length data \<le> 4096"
  shows "\<exists>f. ramfile_proc junk (Some uid)
      ((zero_request FILE_WRITE ino)\<lparr>fq_offset := off, fq_size := of_nat (length data)\<rparr>, data) files =
      Some (ramfile_respond FILE_OK, files[unat ino := f]) \<and> f_contents f = range_write (unat off) data xs \<and>
    st_alloc (f_stat f) \<and> unat (st_size (f_stat f)) = length (f_contents f) \<and>
    st_uid (f_stat f) = st_uid (f_stat (files ! unat ino)) \<and> st_mode (f_stat f) = st_mode (f_stat (files ! unat ino))"
proof -
  note c = ramfile_contents_Some [OF assms(2)]
  note d = ramfiles_okD [OF assms(1)]
  let ?f = "files ! unat ino" and ?e = "off + of_nat (length data)"
  have sz: "unat (st_size (f_stat ?f)) = length xs" using d(2) [OF c(1)] c(3) by simp
  have len: "unat (of_nat (length data) :: u64) = length data" using assms(6) by (simp add: unat_of_nat)
  have e: "unat ?e = unat off + length data"
    using assms(4-6) len by (simp add: unat_word_ariths)
  have grow: "?e > st_size (f_stat ?f) \<longleftrightarrow> length xs < unat off + length data" by (simp add: word_less_nat_alt e sz)
  have "\<exists>f. ramfile_put junk off data ?f = Some f \<and> f_contents f = range_write (unat off) data xs \<and> st_alloc (f_stat f)"
  proof (cases "length xs < unat off + length data")
    case True
    then show ?thesis using c assms(5) by (simp add: ramfile_put_def Let_def grow e range_write_def)
  next
    case False
    then show ?thesis using c by (simp add: ramfile_put_def Let_def grow)
  qed
  then obtain f where f: "ramfile_put junk off data ?f = Some f" "f_contents f = range_write (unat off) data xs"
    "st_alloc (f_stat f)" by blast
  with c assms(3,6) ramfile_put_ok [OF d(2) [OF c(1)] f(1) assms(6)] ramfile_put_stat [OF f(1)] show ?thesis
    by (intro exI [of _ f]) (simp add: ramfile_proc_def ramfile_do_write_def Let_def zero_request_def MAX_FILES_def)
qed

interpretation ramfile: file_store "file_rpc_to (ramfile_proc junk (Some 0))" ramfiles_ok ramfile_contents for junk
proof (unfold_locales, goal_cases)
  case (1 s ino xs n off)
  from ramfile_read [OF 1(1,2) _ 1(3,4), of 0 junk off] obtain rep where
    r: "ramfile_proc junk (Some 0) ((zero_request FILE_READ ino)\<lparr>fq_offset := off, fq_size := of_nat n\<rparr>, []) s =
      Some ([(rep, range_read (unat off) n xs)], s)" "fp_status rep = FILE_OK"
    by (auto simp: read_allowed_def)
  have "take n (range_read (unat off) n xs) = range_read (unat off) n xs" by (simp add: range_read_def)
  with r 1 show ?case by (simp add: file_read_def file_rpc_to_def)
next
  case (2 s ino xs off data r s')
  from ramfile_write [OF 2(1,2) _ 2(3-5), of 0 junk] obtain f where
    f: "ramfile_proc junk (Some 0) ((zero_request FILE_WRITE ino)\<lparr>fq_offset := off, fq_size := of_nat (length data)\<rparr>, data) s =
      Some (ramfile_respond FILE_OK, s[unat ino := f])" "f_contents f = range_write (unat off) data xs" "st_alloc (f_stat f)"
      "unat (st_size (f_stat f)) = length (f_contents f)"
    by (auto simp: write_allowed_def)
  note c = ramfile_contents_Some [OF 2(2)]
  have s': "s' = s[unat ino := f]" "r"
    using 2(6) f(1) by (auto simp: file_write_def file_status_call_def file_rpc_to_def ramfile_respond_def zero_reply_def)
  have "ramfile_contents s' j = ((ramfile_contents s)(ino \<mapsto> range_write (unat off) data xs)) j" for j
    using c ramfiles_okD(1) [OF 2(1)] f(2,3) unat32_inject [of ino j]
    by (auto simp: ramfile_contents_def s'(1) nth_list_update_if)
  then have "ramfile_contents s' = (ramfile_contents s)(ino \<mapsto> range_write (unat off) data xs)" by (rule ext)
  with s' ramfiles_ok_update [OF 2(1) f(4)] show ?case by simp
qed

section \<open>Properties\<close>



text \<open>Bytes written to the memory file server are read back: a process that may read and write a
  file, and writes at most a page at an offset within it, is told that this succeeded, and a
  read of the same range then returns the same bytes; the file grows as needed, and the bytes
  outside the range and all other files are as they were.\<close>
theorem ramfile_write_read:
  assumes "ramfiles_ok files" "ramfile_contents files ino = Some xs"
    and "read_allowed (f_stat (files ! unat ino)) uid" "write_allowed (f_stat (files ! unat ino)) uid"
    and "length xs + 4096 < 4294967296" "unat off \<le> length xs" "length data \<le> 4096"
  shows "\<exists>files' rep. ramfile_proc junk (Some uid)
      ((zero_request FILE_WRITE ino)\<lparr>fq_offset := off, fq_size := of_nat (length data)\<rparr>, data) files =
      Some (ramfile_respond FILE_OK, files') \<and>
    ramfile_contents files' = (ramfile_contents files)(ino \<mapsto> range_write (unat off) data xs) \<and>
    ramfile_proc junk (Some uid)
      ((zero_request FILE_READ ino)\<lparr>fq_offset := off, fq_size := of_nat (length data)\<rparr>, []) files' =
      Some ([(rep, data)], files') \<and> fp_status rep = FILE_OK"
proof -
  have xs: "length xs < 4294967296" using assms(5) by simp
  note c = ramfile_contents_Some [OF assms(2)]
  note d = ramfiles_okD(1) [OF assms(1)]
  from ramfile_write [OF assms(1,2,4) xs assms(6,7)] obtain f where
    f: "ramfile_proc junk (Some uid) ((zero_request FILE_WRITE ino)\<lparr>fq_offset := off, fq_size := of_nat (length data)\<rparr>, data) files =
      Some (ramfile_respond FILE_OK, files[unat ino := f])" "f_contents f = range_write (unat off) data xs"
      "st_alloc (f_stat f)" "unat (st_size (f_stat f)) = length (f_contents f)"
      "st_uid (f_stat f) = st_uid (f_stat (files ! unat ino))" "st_mode (f_stat f) = st_mode (f_stat (files ! unat ino))"
    by blast
  let ?files = "files[unat ino := f]"
  have cont: "ramfile_contents ?files = (ramfile_contents files)(ino \<mapsto> range_write (unat off) data xs)"
    using c d f(2,3) by (auto simp: ramfile_contents_def nth_list_update_if unat32_inject fun_eq_iff)
  have len: "length (range_write (unat off) data xs) < 4294967296" using assms(5-7) by (simp add: length_range_write)
  have al: "read_allowed (f_stat (?files ! unat ino)) uid" using assms(3) c(1) d f(5,6) by (simp add: read_allowed_def)
  have ok: "ramfiles_ok ?files" using ramfiles_ok_update [OF assms(1) f(4)] .
  have "ramfile_contents ?files ino = Some (range_write (unat off) data xs)" by (simp add: cont)
  from ramfile_read [OF ok this al len assms(7), of junk off] obtain rep where
    "ramfile_proc junk (Some uid) ((zero_request FILE_READ ino)\<lparr>fq_offset := off, fq_size := of_nat (length data)\<rparr>, []) ?files =
      Some ([(rep, data)], ?files)" "fp_status rep = FILE_OK"
    using assms(6) by (auto simp: range_read_write)
  with f(1) cont show ?thesis by blast
qed

theorem ramfile_write_read_witness:
  "\<exists>files' rep. ramfile_proc (\<lambda>_. 0) (Some 0)
      ((zero_request FILE_WRITE 0)\<lparr>fq_offset := 0, fq_size := of_nat (length [1, 2, 3 :: u8])\<rparr>, [1, 2, 3]) ramfile_init =
      Some (ramfile_respond FILE_OK, files') \<and>
    ramfile_proc (\<lambda>_. 0) (Some 0)
      ((zero_request FILE_READ 0)\<lparr>fq_offset := 0, fq_size := of_nat (length [1, 2, 3 :: u8])\<rparr>, []) files' =
      Some ([(rep, [1, 2, 3])], files')"
proof -
  have "ramfile_contents ramfile_init 0 = Some []"
    by (simp add: ramfile_contents_def ramfile_init_def zero_stat_def MAX_FILES_def)
  moreover have "read_allowed (f_stat (ramfile_init ! unat 0)) 0" "write_allowed (f_stat (ramfile_init ! unat 0)) 0"
    by (simp_all add: read_allowed_def write_allowed_def)
  ultimately show ?thesis
    using ramfile_write_read [OF ramfile_init_ok, of 0 "[]" 0 0 "[1, 2, 3]" "\<lambda>_. 0"] by auto
qed

text \<open>Three kinds of requests that any process can make stop the kernel: deleting a file of the
  memory file server, reading or asking about an inode outside its array (the check comes after
  the access), and any accepted request of a process that is gone when its turn comes.\<close>
theorem ramfile_stops_kernel:
  assumes "length files = MAX_FILES" "unat ino \<ge> MAX_FILES" "st_alloc (f_stat (files ! 0))"
  shows "ramfile_proc junk user (zero_request FILE_DELETE ino', data) files = None \<and>
    ramfile_proc junk user ((zero_request FILE_READ ino)\<lparr>fq_offset := off, fq_size := n\<rparr>, data) files = None \<and>
    ramfile_proc junk user (zero_request FILE_STAT ino, data) files = None \<and>
    ramfile_proc junk None (zero_request FILE_STAT 0, data) files = None"
  using assms by (simp add: ramfile_proc_def ramfile_do_read_def ramfile_do_stat_def zero_request_def Let_def MAX_FILES_def)

theorem ramfile_stops_kernel_witness:
  "ramfile_proc (\<lambda>_. 0) (Some 7) (zero_request FILE_DELETE 3, []) ramfile_init = None"
  using ramfile_stops_kernel [of ramfile_init 100 "\<lambda>_. 0" "Some 7" 3 "[]"]
  by (simp add: ramfile_init_def MAX_FILES_def zero_stat_def)

end
