(* ===== verification/Threads.thy ===== *)
theory Threads
  imports Prelude
begin

text \<open>
  Threads and semaphores in user space (\<open>egos/apps/mt.c\<close>). Threads are cooperative: control changes
  only in \<open>thread_schedule\<close>. The stack of a thread, which \<open>ctx_switch\<close> saves and \<open>ctx_start\<close> sets up,
  is the code that the thread has yet to run; \<open>None\<close> is a function that has returned. Queues are
  lists (theory \<open>Queue\<close>), allocation succeeds, and the address of a thread is its \<open>id\<close>.
\<close>

section \<open>Threads and the monitor\<close>

datatype thread_state = READY | RUNNING | STOPPED | TERMINATED | BLOCKED

record 'c thread =
  th_state :: thread_state
  th_code :: "'c option"
  th_stack :: bool  \<comment> \<open>the stack pointer is initialised\<close>

record 'c monitor =
  mo_current :: nat
  mo_next :: nat
  mo_ready :: "nat list"
  mo_exited :: "nat list"
  mo_threads :: "nat \<Rightarrow> 'c thread option"  \<comment> \<open>\<open>None\<close>: not allocated, or freed\<close>
  mo_id :: nat

text \<open>A call returns in the thread that is current then, ends the process, or is undefined.\<close>

datatype 'a outcome = Running 'a | Sys_exit int | Undefined

definition state_of :: "'c monitor \<Rightarrow> nat \<Rightarrow> thread_state option" where
  "state_of m t = map_option th_state (mo_threads m t)"

definition set_state :: "nat \<Rightarrow> thread_state \<Rightarrow> 'c monitor \<Rightarrow> 'c monitor" where
  "set_state t st m = m\<lparr>mo_threads := (mo_threads m)(t := map_option (\<lambda>th. th\<lparr>th_state := st\<rparr>) (mo_threads m t))\<rparr>"

definition waits :: "thread_state option \<Rightarrow> bool" where
  "waits st \<longleftrightarrow> st = Some BLOCKED \<or> st = Some TERMINATED"

section \<open>The scheduler\<close>

text \<open>The state of the first thread is not initialised; it is the argument \<open>st\<close>.\<close>

definition thread_init :: "thread_state \<Rightarrow> 'c \<Rightarrow> 'c monitor" where
  "thread_init st main = \<lparr>mo_current = 0, mo_next = 0, mo_ready = [], mo_exited = [],
     mo_threads = [0 \<mapsto> \<lparr>th_state = st, th_code = Some main, th_stack = False\<rparr>], mo_id = 0\<rparr>"

definition findRunnable :: "'c monitor \<Rightarrow> (nat \<times> 'c monitor) outcome" where
  "findRunnable m = (case mo_ready m of
       [] \<Rightarrow> if \<not> waits (state_of m (mo_current m)) then Running (mo_current m, m) else Sys_exit 1
     | t # ts \<Rightarrow> Running (t, m\<lparr>mo_ready := ts\<rparr>))"

text \<open>\<open>ctx_entry\<close> up to the call of the thread's function.\<close>

definition ctx_entry :: "'c monitor \<Rightarrow> 'c monitor" where
  "ctx_entry m = (let m = set_state (mo_current m) STOPPED m;
                      m = m\<lparr>mo_ready := mo_ready m @ [mo_current m]\<rparr>;
                      m = m\<lparr>mo_current := mo_next m\<rparr>
                  in set_state (mo_current m) RUNNING m)"

definition thread_schedule :: "'c monitor \<Rightarrow> 'c monitor outcome" where
  "thread_schedule m = (let old = mo_current m in
     case findRunnable m of
       Running (next, m) \<Rightarrow>
         let m = m\<lparr>mo_next := next\<rparr> in
         if old = next then Running m
         else (case state_of m next of
             None \<Rightarrow> Undefined
           | Some READY \<Rightarrow> Running (ctx_entry m)
           | Some STOPPED \<Rightarrow>
               let m = (if \<not> waits (state_of m old)
                        then (set_state old STOPPED m)\<lparr>mo_ready := mo_ready m @ [old]\<rparr> else m);
                   m = set_state next RUNNING m
               in Running (m\<lparr>mo_current := next\<rparr>)
           | Some _ \<Rightarrow> Running m)
     | Sys_exit n \<Rightarrow> Sys_exit n
     | Undefined \<Rightarrow> Undefined)"

text \<open>Freeing the threads that have exited.\<close>

fun free_exited :: "nat list \<Rightarrow> 'c monitor \<Rightarrow> 'c monitor outcome" where
  "free_exited [] m = Running (m\<lparr>mo_exited := []\<rparr>)"
| "free_exited (t # ts) m = (case mo_threads m t of
       None \<Rightarrow> Undefined
     | Some th \<Rightarrow> if \<not> th_stack th then Undefined
                 else free_exited ts (m\<lparr>mo_threads := (mo_threads m)(t := None)\<rparr>))"

definition thread_yield :: "'c monitor \<Rightarrow> 'c monitor outcome" where
  "thread_yield m =
     (if mo_ready m = [] then
        if waits (state_of m (mo_current m)) then Sys_exit 1 else Running m
      else
        case (if \<not> waits (state_of m (mo_current m)) then free_exited (mo_exited m) m else Running m) of
          Running m \<Rightarrow> thread_schedule m
        | Sys_exit n \<Rightarrow> Sys_exit n
        | Undefined \<Rightarrow> Undefined)"

definition thread_exit :: "'c monitor \<Rightarrow> 'c monitor outcome" where
  "thread_exit m = (let m = set_state (mo_current m) TERMINATED m
     in thread_yield (m\<lparr>mo_exited := mo_exited m @ [mo_current m]\<rparr>))"

definition thread_create :: "'c \<Rightarrow> 'c monitor \<Rightarrow> 'c monitor outcome" where
  "thread_create f m = (let t = mo_id m + 1; m = m\<lparr>mo_id := t\<rparr>;
       m = m\<lparr>mo_threads := (mo_threads m)(t \<mapsto> \<lparr>th_state = READY, th_code = Some f, th_stack = True\<rparr>),
             mo_ready := mo_ready m @ [t]\<rparr>
     in thread_schedule m)"

section \<open>Semaphores\<close>

record sema =
  s_count :: int
  s_wait :: "nat list"

definition sema_init :: "u32 \<Rightarrow> sema" where
  "sema_init count = \<lparr>s_count = sint count, s_wait = []\<rparr>"

definition sema_dec :: "sema \<Rightarrow> 'c monitor \<Rightarrow> (sema \<times> 'c monitor outcome)" where
  "sema_dec s m =
     (if s_count s = 0 then
        (s\<lparr>s_wait := s_wait s @ [mo_current m]\<rparr>, thread_yield (set_state (mo_current m) BLOCKED m))
      else (s\<lparr>s_count := s_count s - 1\<rparr>, Running m))"

definition sema_inc :: "sema \<Rightarrow> 'c monitor \<Rightarrow> sema \<times> 'c monitor outcome" where
  "sema_inc s m = (case s_wait s of
       t # ts \<Rightarrow> if mo_threads m t = None then (s, Undefined)
                else (let m = set_state t STOPPED m
                      in (s\<lparr>s_wait := ts\<rparr>, Running (m\<lparr>mo_ready := mo_ready m @ [t]\<rparr>)))
     | [] \<Rightarrow> (s\<lparr>s_count := s_count s + 1\<rparr>, Running m))"

section \<open>Programs\<close>

text \<open>
  The code of a thread, given by a function \<open>next_call\<close>: from where the thread is and the global
  variables, the next call of the package it makes, where it continues, and the globals after the
  statements before the call. \<open>Return\<close> ends the thread's function, \<open>Exit\<close> the program (\<open>main\<close> returns).
\<close>

datatype 'c call = Yield | Create 'c | Dec nat | Inc nat | Return | Exit int

type_synonym ('c, 'g) program = "'c \<Rightarrow> 'g \<Rightarrow> 'c call \<times> 'c \<times> 'g"

record ('c, 'g) mt =
  mt_mon :: "'c monitor"
  mt_sema :: "nat \<Rightarrow> sema"
  mt_glob :: 'g

definition put_mon :: "('c, 'g) mt \<Rightarrow> 'c monitor outcome \<Rightarrow> ('c, 'g) mt outcome" where
  "put_mon s r = (case r of Running m \<Rightarrow> Running (s\<lparr>mt_mon := m\<rparr>) | Sys_exit n \<Rightarrow> Sys_exit n | Undefined \<Rightarrow> Undefined)"

definition put_sema :: "('c, 'g) mt \<Rightarrow> nat \<Rightarrow> sema \<times> 'c monitor outcome \<Rightarrow> ('c, 'g) mt outcome" where
  "put_sema s i r = put_mon (s\<lparr>mt_sema := (mt_sema s)(i := fst r)\<rparr>) (snd r)"

text \<open>The current thread runs up to the end of its next call.\<close>

definition mt_step :: "('c, 'g) program \<Rightarrow> ('c, 'g) mt \<Rightarrow> ('c, 'g) mt outcome" where
  "mt_step next_call s = (let m = mt_mon s in
     case mo_threads m (mo_current m) of
       None \<Rightarrow> Undefined
     | Some th \<Rightarrow> (case th_code th of
           None \<Rightarrow> Undefined
         | Some c \<Rightarrow> (case next_call c (mt_glob s) of (call, c', g) \<Rightarrow>
             let code = (if call = Return then None else Some c');
                 m = m\<lparr>mo_threads := (mo_threads m)(mo_current m \<mapsto> th\<lparr>th_code := code\<rparr>)\<rparr>;
                 s = s\<lparr>mt_mon := m, mt_glob := g\<rparr>
             in (case call of
                   Yield \<Rightarrow> put_mon s (thread_yield m)
                 | Create f \<Rightarrow> put_mon s (thread_create f m)
                 | Dec i \<Rightarrow> put_sema s i (sema_dec (mt_sema s i) m)
                 | Inc i \<Rightarrow> put_sema s i (sema_inc (mt_sema s i) m)
                 | Return \<Rightarrow> put_mon s (thread_exit m)
                 | Exit n \<Rightarrow> Sys_exit n))))"

text \<open>At most \<open>n\<close> steps; \<open>Running\<close> is the state that is reached then.\<close>

fun mt_run :: "nat \<Rightarrow> ('c, 'g) program \<Rightarrow> ('c, 'g) mt \<Rightarrow> ('c, 'g) mt outcome" where
  "mt_run 0 next_call s = Running s"
| "mt_run (Suc n) next_call s = (case mt_step next_call s of Running s \<Rightarrow> mt_run n next_call s | r \<Rightarrow> r)"

end
