(* ===== verification/ThreadTests.thy ===== *)
theory ThreadTests
  imports Threads
begin

text \<open>
  The test programs of \<open>egos/apps/mt.c\<close>. A line of a thread is the program counter at a call of the
  package; what is printed is not modelled. \<open>main\<close> runs the last thread of each test itself.
\<close>

section \<open>Producer and consumer\<close>

definition NSLOTS :: nat where
  "NSLOTS = 3"

record slots =
  sl_in :: nat
  sl_out :: nat
  sl_slots :: "string list"
  sl_got :: "string list"  \<comment> \<open>what the consumers have printed\<close>

datatype pc_code = Consumer nat nat | Producer string nat | Test_producer

definition "s_lock = (0 :: nat)"
definition "s_full = (1 :: nat)"
definition "s_empty = (2 :: nat)"

fun producer_consumer :: "(pc_code, slots) program" where
  "producer_consumer Test_producer g = (Create (Consumer 0 0), Producer ''producer 1'' 0, g)"
| "producer_consumer (Consumer i pc) g =
     (if pc = 0 then (if i < 5 then (Dec s_full, Consumer i 1, g) else (Return, Consumer i 0, g))
      else if pc = 1 then (Dec s_lock, Consumer i 2, g)
      else if pc = 2 then
        (let x = sl_slots g ! sl_out g; out = sl_out g + 1
         in (Inc s_lock, Consumer i 3, g\<lparr>sl_out := (if out = NSLOTS then 0 else out), sl_got := sl_got g @ [x]\<rparr>))
      else (Inc s_empty, Consumer (i + 1) 0, g))"
| "producer_consumer (Producer arg pc) g =
     (if pc = 0 then (Dec s_empty, Producer arg 1, g)
      else if pc = 1 then (Dec s_lock, Producer arg 2, g)
      else if pc = 2 then
        (let i = sl_in g + 1
         in (Inc s_lock, Producer arg 3, g\<lparr>sl_slots := (sl_slots g)[sl_in g := arg], sl_in := (if i = NSLOTS then 0 else i)\<rparr>))
      else (Inc s_full, Producer arg 0, g))"

definition test_producer :: "thread_state \<Rightarrow> (pc_code, slots) mt" where
  "test_producer st = \<lparr>mt_mon = thread_init st Test_producer,
     mt_sema = (\<lambda>_. sema_init 0)(s_lock := sema_init 1, s_full := sema_init 0, s_empty := sema_init (of_nat NSLOTS)),
     mt_glob = \<lparr>sl_in = 0, sl_out = 0, sl_slots = replicate NSLOTS [], sl_got = []\<rparr>\<rparr>"

section \<open>Readers and writer\<close>

record rw =
  rw_rcount :: nat
  rw_times :: nat

datatype rw_code = Reader nat nat | Writer nat nat | Test_rw nat

definition "rcount_mutex = (0 :: nat)"
definition "readWrite_lock = (1 :: nat)"

fun readers_writer :: "(rw_code, rw) program" where
  "readers_writer (Test_rw n) g =
     (if n < 7 then (Create (Reader 0 0), Test_rw (n + 1), g)
      else (if 0 < rw_times g then (Dec readWrite_lock, Writer 0 1, g) else (Exit 0, Writer 0 0, g)))"
| "readers_writer (Reader i pc) g =
     (if pc = 0 then (if i < rw_times g then (Dec rcount_mutex, Reader i 1, g) else (Return, Reader i 0, g))
      else if pc = 1 then
        (let n = rw_rcount g + 1; g = g\<lparr>rw_rcount := n\<rparr>
         in if n = 1 then (Dec readWrite_lock, Reader i 2, g) else (Inc rcount_mutex, Reader i 3, g))
      else if pc = 2 then (Inc rcount_mutex, Reader i 3, g)
      else if pc = 3 then (Dec rcount_mutex, Reader i 4, g)
      else if pc = 4 then
        (let n = rw_rcount g - 1; g = g\<lparr>rw_rcount := n\<rparr>
         in if n = 0 then (Inc rcount_mutex, Reader i 5, g) else (Inc rcount_mutex, Reader (i + 1) 0, g))
      else if pc = 5 then (Inc readWrite_lock, Reader i 6, g)
      else (Yield, Reader (i + 1) 0, g))"
| "readers_writer (Writer i pc) g =
     (if pc = 0 then (if i < rw_times g then (Dec readWrite_lock, Writer i 1, g) else (Exit 0, Writer i 0, g))
      else if pc = 1 then (Inc readWrite_lock, Writer i 2, g)
      else (Yield, Writer (i + 1) 0, g))"

definition test_readWriteLock :: "thread_state \<Rightarrow> (rw_code, rw) mt" where
  "test_readWriteLock st = \<lparr>mt_mon = thread_init st (Test_rw 0), mt_sema = (\<lambda>_. sema_init 1),
     mt_glob = \<lparr>rw_rcount = 0, rw_times = 5\<rparr>\<rparr>"

section \<open>Dining philosophers\<close>

definition number :: nat where
  "number = 5"

datatype ph_code = Eat_think nat nat nat | Test_dining nat

definition eat_think :: "nat \<Rightarrow> nat \<Rightarrow> nat \<Rightarrow> nat \<Rightarrow> ph_code call \<times> ph_code \<times> nat" where
  "eat_think num i pc k =
     (let right = (num + 1) mod number; a = (if num = number - 1 then right else num); b = (if num = number - 1 then num else right)
      in if pc = 0 then
           (if i < k then (Dec a, Eat_think num i 1, k)
            else (if num = number - 1 then Exit 0 else Return, Eat_think num i 0, k))
         else if pc = 1 then (Dec b, Eat_think num i 2, k)
         else if pc = 2 then (Inc a, Eat_think num i 3, k)
         else if pc = 3 then (Inc b, Eat_think num i 4, k)
         else (Yield, Eat_think num (i + 1) 0, k))"

fun dining :: "(ph_code, nat) program" where
  "dining (Test_dining n) k =
     (if n < number - 1 then (Create (Eat_think n 0 0), Test_dining (n + 1), k) else eat_think n 0 0 k)"
| "dining (Eat_think num i pc) k = eat_think num i pc k"

definition test_diningPhilosopher :: "thread_state \<Rightarrow> (ph_code, nat) mt" where
  "test_diningPhilosopher st = \<lparr>mt_mon = thread_init st (Test_dining 0), mt_sema = (\<lambda>_. sema_init 1), mt_glob = 5\<rparr>"

section \<open>The tests end\<close>

definition exits_with :: "int \<Rightarrow> 'a outcome \<Rightarrow> bool" where
  "exits_with n r = (case r of Sys_exit k \<Rightarrow> k = n | _ \<Rightarrow> False)"

text \<open>The first call creates a thread, and \<open>ctx_entry\<close> sets the state of the first one.\<close>

lemma mt_step_start:
  assumes "fst (p main g) = Create f"
  shows "mt_step p \<lparr>mt_mon = thread_init st main, mt_sema = S, mt_glob = g\<rparr> =
    mt_step p \<lparr>mt_mon = thread_init st' main, mt_sema = S, mt_glob = g\<rparr>"
proof -
  obtain c' g' where "p main g = (Create f, c', g')" using assms by (cases "p main g") auto
  then show ?thesis
    by (simp add: mt_step_def thread_init_def put_mon_def thread_create_def thread_schedule_def findRunnable_def
        state_of_def ctx_entry_def set_state_def fun_upd_twist)
qed

lemma run_producer: "exits_with 1 (mt_run 55 producer_consumer (test_producer RUNNING))"
  by code_simp

lemma run_dining: "exits_with 0 (mt_run 200 dining (test_diningPhilosopher RUNNING))"
  by code_simp

lemma run_rw: "exits_with 0 (mt_run 280 readers_writer (test_readWriteLock RUNNING))"
  by code_simp

lemma mt_run_start:
  assumes "fst (p main g) = Create f"
  shows "mt_run (Suc n) p \<lparr>mt_mon = thread_init st main, mt_sema = S, mt_glob = g\<rparr> =
    mt_run (Suc n) p \<lparr>mt_mon = thread_init RUNNING main, mt_sema = S, mt_glob = g\<rparr>"
  using mt_step_start [where p = p and main = main and g = g and f = f, OF assms, of st S RUNNING] by simp


end
