(* ===== verification/ThreadsInv.thy ===== *)
theory ThreadsInv
  imports Threads
begin

text \<open>
  What the thread package guarantees. Every thread is where its state says it is, no thread is lost
  and a semaphore is a counter of permits, as long as no thread blocks or exits while a thread that
  has never run is next in the ready queue: then \<open>ctx_entry\<close> puts the blocked thread back into the
  ready queue, and the guarantees fail.
\<close>

section \<open>The invariant\<close>

definition placed :: "'c monitor \<Rightarrow> (nat \<Rightarrow> nat list) \<Rightarrow> nat \<Rightarrow> bool" where
  "placed m W t = (case mo_threads m t of
       None \<Rightarrow> t \<notin> set (mo_ready m) \<and> t \<notin> set (mo_exited m) \<and> (\<forall>i. t \<notin> set (W i))
     | Some th \<Rightarrow> t \<le> mo_id m \<and> (t \<noteq> 0 \<longrightarrow> th_stack th) \<and> (th_code th = None \<longleftrightarrow> th_state th = TERMINATED) \<and>
         (t \<in> set (mo_ready m) \<longleftrightarrow> th_state th = READY \<or> th_state th = STOPPED) \<and>
         (t \<in> set (mo_exited m) \<longleftrightarrow> th_state th = TERMINATED) \<and>
         ((\<exists>i. t \<in> set (W i)) \<longleftrightarrow> th_state th = BLOCKED) \<and>
         (th_state th = RUNNING \<longrightarrow> t = mo_current m))"

text \<open>Between the calls of the scheduler the current thread may be about to wait.\<close>

definition mon_pre :: "'c monitor \<Rightarrow> (nat \<Rightarrow> nat list) \<Rightarrow> bool" where
  "mon_pre m W \<longleftrightarrow> (\<forall>t. placed m W t) \<and> distinct (mo_ready m) \<and> distinct (mo_exited m) \<and>
     (\<forall>i. distinct (W i)) \<and> (\<forall>i j t. t \<in> set (W i) \<longrightarrow> t \<in> set (W j) \<longrightarrow> i = j) \<and>
     mo_threads m (mo_current m) \<noteq> None \<and> 0 \<notin> set (mo_exited m)"

definition mon_inv :: "'c monitor \<Rightarrow> (nat \<Rightarrow> nat list) \<Rightarrow> bool" where
  "mon_inv m W \<longleftrightarrow> mon_pre m W \<and> state_of m (mo_current m) = Some RUNNING"

text \<open>What a thread has yet to run.\<close>

definition code_of :: "'c monitor \<Rightarrow> nat \<Rightarrow> 'c option" where
  "code_of m t = Option.bind (mo_threads m t) th_code"

lemma mon_preD:
  assumes "mon_pre m W"
  shows "placed m W t" "distinct (mo_ready m)" "distinct (mo_exited m)" "distinct (W i)"
    "t \<in> set (W i) \<Longrightarrow> t \<in> set (W j) \<Longrightarrow> i = j" "mo_threads m (mo_current m) \<noteq> None" "0 \<notin> set (mo_exited m)"
  using assms by (auto simp: mon_pre_def)

lemma placedD:
  assumes "mon_pre m W" "mo_threads m t = Some th"
  shows "t \<le> mo_id m" "t \<noteq> 0 \<Longrightarrow> th_stack th" "th_code th = None \<longleftrightarrow> th_state th = TERMINATED"
    "t \<in> set (mo_ready m) \<longleftrightarrow> th_state th = READY \<or> th_state th = STOPPED"
    "t \<in> set (mo_exited m) \<longleftrightarrow> th_state th = TERMINATED"
    "(\<exists>i. t \<in> set (W i)) \<longleftrightarrow> th_state th = BLOCKED" "th_state th = RUNNING \<Longrightarrow> t = mo_current m"
  using mon_preD(1) [OF assms(1), of t] assms(2) by (auto simp: placed_def)

lemma ready_alloc:
  assumes "mon_pre m W" "t \<in> set (mo_ready m) \<or> t \<in> set (mo_exited m) \<or> t \<in> set (W i)"
  shows "\<exists>th. mo_threads m t = Some th"
  using mon_preD(1) [OF assms(1), of t] assms(2) by (auto simp: placed_def split: option.splits)

text \<open>What the scheduler does when the thread \<open>t\<close> is next.\<close>

definition switch_to :: "nat \<Rightarrow> nat list \<Rightarrow> 'c monitor \<Rightarrow> 'c monitor" where
  "switch_to t ts m = (let w = waits (state_of m (mo_current m)) in
     m\<lparr>mo_current := t, mo_next := t, mo_ready := ts @ (if w then [] else [mo_current m]),
       mo_threads := mo_threads (set_state t RUNNING (if w then m else set_state (mo_current m) STOPPED m))\<rparr>)"

lemma thread_schedule_switch:
  assumes "mo_ready m = t # ts" "mo_threads m t \<noteq> None" "t \<noteq> mo_current m"
    "state_of m t = Some STOPPED \<or> (state_of m t = Some READY \<and> \<not> waits (state_of m (mo_current m)))"
  shows "thread_schedule m = Running (switch_to t ts m)"
  using assms by (auto simp: thread_schedule_def findRunnable_def ctx_entry_def switch_to_def Let_def set_state_def
      state_of_def waits_def)

lemma switch_inv:
  assumes pre: "mon_pre m W" and ready: "mo_ready m = t # ts"
    and run: "\<not> waits (state_of m (mo_current m)) \<Longrightarrow> state_of m (mo_current m) = Some RUNNING"
  shows "mon_inv (switch_to t ts m) W" "code_of (switch_to t ts m) = code_of m" "t \<noteq> mo_current m"
proof -
  from ready_alloc [OF pre, of t] ready obtain th where th: "mo_threads m t = Some th" by auto
  from mon_preD(6) [OF pre] obtain tc where tc: "mo_threads m (mo_current m) = Some tc" by auto
  have st: "th_state th = READY \<or> th_state th = STOPPED" using placedD(4) [OF pre th] ready by simp
  show ne: "t \<noteq> mo_current m"
    using st th run by (cases "waits (state_of m (mo_current m))") (auto simp: state_of_def waits_def)
  show "code_of (switch_to t ts m) = code_of m"
    using ne by (auto simp: switch_to_def Let_def code_of_def set_state_def th tc fun_eq_iff)
  have d: "distinct (t # ts)" using mon_preD(2) [OF pre] ready by simp
  have other: "placed (switch_to t ts m) W u" for u
    using mon_preD(1) [OF pre, of u] placedD [OF pre th] placedD [OF pre tc] st ne run d ready th tc
    by (cases "u = t"; cases "u = mo_current m"; cases "waits (state_of m (mo_current m))")
      (auto simp: placed_def switch_to_def Let_def set_state_def state_of_def waits_def split: option.splits)
  have cr: "\<not> waits (state_of m (mo_current m)) \<Longrightarrow> mo_current m \<notin> set (t # ts)"
    using placedD(4) [OF pre tc] run tc ready by (auto simp: state_of_def)
  show "mon_inv (switch_to t ts m) W"
    using other mon_preD(3,4,5,7) [OF pre] d cr th
    by (auto simp: mon_inv_def mon_pre_def switch_to_def Let_def set_state_def state_of_def)
qed

lemma schedule_inv:
  assumes pre: "mon_pre m W" and ready: "mo_ready m = t # ts"
    and cur: "waits (state_of m (mo_current m)) \<Longrightarrow> state_of m t \<noteq> Some READY"
    and run: "\<not> waits (state_of m (mo_current m)) \<Longrightarrow> state_of m (mo_current m) = Some RUNNING"
  shows "\<exists>m'. thread_schedule m = Running m' \<and> mon_inv m' W \<and> code_of m' = code_of m \<and> mo_current m' = t"
proof -
  from ready_alloc [OF pre, of t] ready obtain th where th: "mo_threads m t = Some th" by auto
  have st: "state_of m t = Some READY \<or> state_of m t = Some STOPPED"
    using placedD(4) [OF pre th] ready th by (auto simp: state_of_def)
  note s = switch_inv [OF pre ready run]
  have "thread_schedule m = Running (switch_to t ts m)"
    by (rule thread_schedule_switch [OF ready _ s(3)]) (use th st cur in auto)
  with s(1,2) show ?thesis by (simp add: switch_to_def Let_def)
qed

lemma free_exited_all:
  assumes "distinct ts" "\<forall>t\<in>set ts. \<exists>th. mo_threads m t = Some th \<and> th_stack th"
  shows "free_exited ts m = Running (m\<lparr>mo_exited := [], mo_threads := (\<lambda>t. if t \<in> set ts then None else mo_threads m t)\<rparr>)"
  using assms
proof (induction ts arbitrary: m)
  case (Cons t ts)
  then obtain th where th: "mo_threads m t = Some th" "th_stack th" by auto
  have "\<forall>u\<in>set ts. \<exists>th. mo_threads (m\<lparr>mo_threads := (mo_threads m)(t := None)\<rparr>) u = Some th \<and> th_stack th"
    using Cons.prems by auto
  from Cons.IH [OF _ this] Cons.prems(1) th show ?case by (auto intro!: monitor.equality)
qed simp

lemma free_exited_inv:
  assumes pre: "mon_pre m W" and cur: "state_of m (mo_current m) = Some RUNNING"
  shows "\<exists>m'. free_exited (mo_exited m) m = Running m' \<and> mon_pre m' W \<and> code_of m' = code_of m \<and> mo_current m' = mo_current m \<and>
    mo_ready m' = mo_ready m \<and> (\<forall>t. t \<notin> set (mo_exited m) \<longrightarrow> state_of m' t = state_of m t)"
proof -
  define m' where "m' = m\<lparr>mo_exited := [], mo_threads := (\<lambda>t. if t \<in> set (mo_exited m) then None else mo_threads m t)\<rparr>"
  have "\<exists>th. mo_threads m t = Some th \<and> th_stack th" if t: "t \<in> set (mo_exited m)" for t
  proof -
    from ready_alloc [OF pre, of t] t obtain th where "mo_threads m t = Some th" by auto
    with placedD(2) [OF pre this] t mon_preD(7) [OF pre] show ?thesis by metis
  qed
  then have run: "free_exited (mo_exited m) m = Running m'"
    using free_exited_all [OF mon_preD(3) [OF pre], of m] by (simp add: m'_def)
  have "placed m' W t" for t
    using mon_preD(1) [OF pre, of t] by (auto simp: placed_def m'_def split: option.splits)
  moreover have "mo_current m \<notin> set (mo_exited m)"
    using cur placedD(5) [OF pre] by (auto simp: state_of_def)
  moreover have "code_of m' t = code_of m t" for t
    using mon_preD(1) [OF pre, of t] by (auto simp: placed_def m'_def code_of_def split: option.splits)
  ultimately show ?thesis
    using run mon_preD [OF pre] by (auto simp: mon_pre_def m'_def state_of_def fun_eq_iff)
qed

lemma yield_inv:
  assumes pre: "mon_pre m W"
    and cur: "waits (state_of m (mo_current m)) \<Longrightarrow> mo_ready m = [] \<or> state_of m (hd (mo_ready m)) \<noteq> Some READY"
    and run: "\<not> waits (state_of m (mo_current m)) \<Longrightarrow> state_of m (mo_current m) = Some RUNNING"
  shows "thread_yield m = Sys_exit 1 \<and> mo_ready m = [] \<and> waits (state_of m (mo_current m)) \<or>
    (\<exists>m'. thread_yield m = Running m' \<and> mon_inv m' W \<and> code_of m' = code_of m)"
proof (cases "mo_ready m")
  case Nil
  with pre run show ?thesis by (auto simp: thread_yield_def mon_inv_def)
next
  case (Cons t ts)
  show ?thesis
  proof (cases "waits (state_of m (mo_current m))")
    case True
    with schedule_inv [OF pre Cons] cur Cons show ?thesis by (auto simp: thread_yield_def)
  next
    case False
    from free_exited_inv [OF pre run [OF False]] obtain m1 where
      m1: "free_exited (mo_exited m) m = Running m1" "mon_pre m1 W" "code_of m1 = code_of m" "mo_current m1 = mo_current m"
        "mo_ready m1 = mo_ready m" "\<forall>t. t \<notin> set (mo_exited m) \<longrightarrow> state_of m1 t = state_of m t" by blast
    have "mo_current m \<notin> set (mo_exited m)"
      using run [OF False] placedD(5) [OF pre] by (auto simp: state_of_def)
    with m1 False run have "\<not> waits (state_of m1 (mo_current m1))" "state_of m1 (mo_current m1) = Some RUNNING" by auto
    with schedule_inv [OF m1(2), of t ts] m1 Cons False show ?thesis by (auto simp: thread_yield_def)
  qed
qed

section \<open>The calls of the package\<close>

definition unstarted_next :: "'c monitor \<Rightarrow> bool" where
  "unstarted_next m \<longleftrightarrow> mo_ready m \<noteq> [] \<and> state_of m (hd (mo_ready m)) = Some READY"

definition put_code :: "'c option \<Rightarrow> 'c monitor \<Rightarrow> 'c monitor" where
  "put_code c m = m\<lparr>mo_threads := (mo_threads m)(mo_current m := map_option (\<lambda>th. th\<lparr>th_code := c\<rparr>) (mo_threads m (mo_current m)))\<rparr>"

lemma mon_invD: "mon_inv m W \<Longrightarrow> mon_pre m W" "mon_inv m W \<Longrightarrow> state_of m (mo_current m) = Some RUNNING"
  by (simp_all add: mon_inv_def)

lemma running:
  assumes "mon_inv m W"
  obtains th where "mo_threads m (mo_current m) = Some th" "th_state th = RUNNING" "th_code th \<noteq> None"
    "mo_current m \<notin> set (mo_ready m)" "mo_current m \<notin> set (mo_exited m)" "\<And>i. mo_current m \<notin> set (W i)"
    "mo_current m \<le> mo_id m"
proof -
  from mon_invD(2) [OF assms] obtain th where th: "mo_threads m (mo_current m) = Some th" "th_state th = RUNNING"
    by (auto simp: state_of_def)
  with placedD [OF mon_invD(1) [OF assms] th(1)] show thesis by (intro that [of th]) auto
qed

lemma put_code_inv:
  assumes "mon_inv m W"
  shows "mon_inv (put_code (Some c) m) W" "code_of (put_code c' m) = (code_of m)(mo_current m := c')"
proof -
  from running [OF assms] obtain th where th: "mo_threads m (mo_current m) = Some th" "th_state th = RUNNING" "th_code th \<noteq> None"
    by metis
  have "placed (put_code (Some c) m) W t" for t
    using mon_preD(1) [OF mon_invD(1) [OF assms], of t] th
    by (cases "t = mo_current m") (auto simp: placed_def put_code_def split: option.splits)
  with assms th show "mon_inv (put_code (Some c) m) W"
    by (auto simp: mon_inv_def mon_pre_def put_code_def state_of_def)
  show "code_of (put_code c' m) = (code_of m)(mo_current m := c')"
    by (auto simp: code_of_def put_code_def th fun_eq_iff)
qed

lemma ex_upd: "(\<exists>j. P ((f(i := x)) j)) \<longleftrightarrow> P x \<or> (\<exists>j. j \<noteq> i \<and> P (f j))"
  by (metis fun_upd_apply)

lemma create_inv:
  assumes "mon_inv m W"
  shows "\<exists>m'. thread_create f m = Running m' \<and> mon_inv m' W \<and> code_of m' = (code_of m)(mo_id m + 1 \<mapsto> f)"
proof -
  define t where "t = mo_id m + 1"
  define m1 where "m1 = m\<lparr>mo_id := t, mo_threads := (mo_threads m)(t \<mapsto> \<lparr>th_state = READY, th_code = Some f, th_stack = True\<rparr>),
    mo_ready := mo_ready m @ [t]\<rparr>"
  note pre = mon_invD(1) [OF assms]
  from running [OF assms] obtain th where th: "mo_threads m (mo_current m) = Some th" "th_state th = RUNNING" "mo_current m \<le> mo_id m"
    by metis
  have new: "mo_threads m t = None" using placedD(1) [OF pre, of t] by (cases "mo_threads m t") (auto simp: t_def)
  with mon_preD(1) [OF pre, of t] have fresh: "t \<notin> set (mo_ready m)" "t \<notin> set (mo_exited m)" "\<And>i. t \<notin> set (W i)"
    by (auto simp: placed_def)
  have "placed m1 W u" for u
    using mon_preD(1) [OF pre, of u] fresh th(3)
    by (cases "u = t") (auto simp: placed_def m1_def t_def split: option.splits)
  then have pre1: "mon_pre m1 W" using mon_preD(2-) [OF pre] fresh th(1,3) by (auto simp: mon_pre_def m1_def t_def)
  have run: "state_of m1 (mo_current m1) = Some RUNNING" using th by (simp add: m1_def state_of_def t_def)
  obtain u us where u: "mo_ready m1 = u # us" by (cases "mo_ready m1") (auto simp: m1_def)
  have nw: "\<not> waits (state_of m1 (mo_current m1))" using run by (simp add: waits_def)
  from schedule_inv [OF pre1 u] nw run obtain m' where "thread_schedule m1 = Running m'" "mon_inv m' W" "code_of m' = code_of m1"
    by blast
  moreover have "code_of m1 = (code_of m)(mo_id m + 1 \<mapsto> f)" by (auto simp: m1_def code_of_def t_def fun_eq_iff)
  moreover have "thread_create f m = thread_schedule m1" by (simp add: thread_create_def Let_def m1_def t_def)
  ultimately show ?thesis by simp
qed

lemma dec_inv:
  assumes inv: "mon_inv m W" "W i = s_wait s" and clean: "s_count s = 0 \<Longrightarrow> \<not> unstarted_next m"
  shows "snd (sema_dec s m) = Sys_exit 1 \<or>
    (\<exists>m'. snd (sema_dec s m) = Running m' \<and> mon_inv m' (W(i := s_wait (fst (sema_dec s m)))) \<and> code_of m' = code_of m)"
proof (cases "s_count s = 0")
  case False
  with inv show ?thesis by (simp add: sema_dec_def fun_upd_idem)
next
  case True
  define m1 where "m1 = set_state (mo_current m) BLOCKED m"
  define W1 where "W1 = W(i := W i @ [mo_current m])"
  note pre = mon_invD(1) [OF inv(1)]
  from running [OF inv(1)] obtain th where th: "mo_threads m (mo_current m) = Some th" "th_state th = RUNNING" "th_code th \<noteq> None"
    "mo_current m \<notin> set (mo_ready m)" "mo_current m \<notin> set (mo_exited m)" "\<And>i. mo_current m \<notin> set (W i)" by metis
  have ex: "(\<exists>j. t \<in> set (W1 j)) \<longleftrightarrow> (\<exists>j. t \<in> set (W j)) \<or> t = mo_current m" for t
    unfolding W1_def ex_upd by auto
  have "placed m1 W1 t" for t
    using mon_preD(1) [OF pre, of t] th ex [of t]
    by (cases "t = mo_current m") (auto simp: placed_def m1_def set_state_def split: option.splits)
  then have pre1: "mon_pre m1 W1" using mon_preD(2-) [OF pre] th by (auto simp: mon_pre_def m1_def set_state_def W1_def)
  have st: "state_of m1 (mo_current m1) = Some BLOCKED" using th(1) by (simp add: m1_def set_state_def state_of_def)
  have "mo_ready m1 = [] \<or> state_of m1 (hd (mo_ready m1)) \<noteq> Some READY"
    using clean [OF True] th(4) by (auto simp: unstarted_next_def m1_def set_state_def state_of_def hd_in_set)
  moreover have "code_of m1 = code_of m" by (auto simp: code_of_def m1_def set_state_def th(1) fun_eq_iff)
  moreover have "sema_dec s m = (s\<lparr>s_wait := W i @ [mo_current m]\<rparr>, thread_yield m1)" using True inv(2) by (simp add: sema_dec_def m1_def)
  ultimately show ?thesis using yield_inv [OF pre1] st by (auto simp: waits_def W1_def)
qed

lemma inc_inv:
  assumes inv: "mon_inv m W" "W i = s_wait s"
  shows "\<exists>m'. snd (sema_inc s m) = Running m' \<and> mon_inv m' (W(i := s_wait (fst (sema_inc s m)))) \<and> code_of m' = code_of m"
proof (cases "W i")
  case Nil
  with inv show ?thesis by (simp add: sema_inc_def fun_upd_idem)
next
  case (Cons t ts)
  note pre = mon_invD(1) [OF inv(1)]
  from ready_alloc [OF pre, of t i] Cons obtain th where th: "mo_threads m t = Some th" by auto
  from placedD(6) [OF pre th] Cons have b: "th_state th = BLOCKED" by (metis list.set_intros(1))
  from running [OF inv(1)] obtain tc where tc: "mo_threads m (mo_current m) = Some tc" "th_state tc = RUNNING" "mo_current m \<notin> set (W i)"
    by metis
  have ne: "t \<noteq> mo_current m" using tc(3) Cons by auto
  define m1 where "m1 = (set_state t STOPPED m)\<lparr>mo_ready := mo_ready m @ [t]\<rparr>"
  define W1 where "W1 = W(i := ts)"
  have t: "t \<notin> set ts" "\<And>j. t \<in> set (W j) \<Longrightarrow> j = i" "t \<notin> set (mo_ready m)" "\<And>j. set (W1 j) \<subseteq> set (W j)" "\<And>j. distinct (W1 j)"
    using mon_preD(4) [OF pre, of i] mon_preD(4) [OF pre] mon_preD(5) [OF pre, of t _ i] Cons placedD(4) [OF pre th] b
    by (auto simp: W1_def)
  have W1: "t \<notin> set (W1 j)" for j using t(1) t(2) [of j] t(4) [of j] by (cases "j = i") (auto simp: W1_def)
  have "placed m1 W1 u" for u
  proof (cases "u = t")
    case True
    then show ?thesis using placedD [OF pre th] th b W1 by (auto simp: placed_def m1_def set_state_def)
  next
    case False
    have "(\<exists>j. u \<in> set (W1 j)) \<longleftrightarrow> (\<exists>j. u \<in> set (W j))"
      using Cons False ex_upd [of "\<lambda>xs. u \<in> set xs" W i ts] by (metis W1_def set_ConsD list.set_intros(2))
    then show ?thesis using mon_preD(1) [OF pre, of u] False by (auto simp: placed_def m1_def set_state_def split: option.splits)
  qed
  moreover have "a = b" if "x \<in> set (W1 a)" "x \<in> set (W1 b)" for a b x
    using mon_preD(5) [OF pre] t(4) that by blast
  ultimately have "mon_pre m1 W1" using mon_preD(2,3,7) [OF pre] t tc(1) ne
    by (auto simp: mon_pre_def m1_def set_state_def)
  then have "mon_inv m1 W1" using tc ne by (simp add: mon_inv_def m1_def set_state_def state_of_def)
  moreover have "code_of m1 = code_of m" by (auto simp: code_of_def m1_def set_state_def th fun_eq_iff)
  moreover have "sema_inc s m = (s\<lparr>s_wait := ts\<rparr>, Running m1)" using Cons th inv(2) by (simp add: sema_inc_def Let_def m1_def set_state_def)
  ultimately show ?thesis by (simp add: W1_def)
qed

lemma exit_inv:
  assumes inv: "mon_inv m W" and clean: "\<not> unstarted_next m" "mo_current m \<noteq> 0"
  shows "thread_exit (put_code None m) = Sys_exit 1 \<or>
    (\<exists>m'. thread_exit (put_code None m) = Running m' \<and> mon_inv m' W \<and> code_of m' = (code_of m)(mo_current m := None))"
proof -
  define m1 where "m1 = (set_state (mo_current m) TERMINATED (put_code None m))\<lparr>mo_exited := mo_exited m @ [mo_current m]\<rparr>"
  note pre = mon_invD(1) [OF inv]
  from running [OF inv] obtain th where th: "mo_threads m (mo_current m) = Some th" "th_state th = RUNNING"
    "mo_current m \<notin> set (mo_ready m)" "mo_current m \<notin> set (mo_exited m)" "\<And>i. mo_current m \<notin> set (W i)" by metis
  have "placed m1 W t" for t
    using mon_preD(1) [OF pre, of t] th
    by (cases "t = mo_current m") (auto simp: placed_def m1_def set_state_def put_code_def split: option.splits)
  then have pre1: "mon_pre m1 W" using mon_preD(2-) [OF pre] th clean(2) by (auto simp: mon_pre_def m1_def set_state_def put_code_def)
  have st: "state_of m1 (mo_current m1) = Some TERMINATED" using th(1) by (simp add: m1_def set_state_def put_code_def state_of_def)
  have "mo_ready m1 = [] \<or> state_of m1 (hd (mo_ready m1)) \<noteq> Some READY"
    using clean(1) th(3) by (auto simp: unstarted_next_def m1_def set_state_def put_code_def state_of_def hd_in_set)
  moreover have "code_of m1 = (code_of m)(mo_current m := None)"
    by (auto simp: code_of_def m1_def set_state_def put_code_def th(1) fun_eq_iff)
  moreover have "thread_exit (put_code None m) = thread_yield m1"
    by (simp add: thread_exit_def m1_def set_state_def put_code_def Let_def)
  ultimately show ?thesis using yield_inv [OF pre1] st by (auto simp: waits_def)
qed

section \<open>Steps\<close>

definition sema_ok :: "sema \<Rightarrow> bool" where
  "sema_ok s \<longleftrightarrow> 0 \<le> s_count s \<and> (s_count s \<noteq> 0 \<longrightarrow> s_wait s = [])"

definition mt_inv :: "('c, 'g) mt \<Rightarrow> bool" where
  "mt_inv s \<longleftrightarrow> mon_inv (mt_mon s) (\<lambda>i. s_wait (mt_sema s i)) \<and> (\<forall>i. sema_ok (mt_sema s i))"

text \<open>
  The current thread does not block or exit while a thread that has never run is next. The first
  thread, whose stack is that of the process, never returns.
\<close>

definition clean_step :: "('c, 'g) program \<Rightarrow> ('c, 'g) mt \<Rightarrow> bool" where
  "clean_step p s = (case code_of (mt_mon s) (mo_current (mt_mon s)) of
       None \<Rightarrow> True
     | Some c \<Rightarrow> (case fst (p c (mt_glob s)) of
           Return \<Rightarrow> mo_current (mt_mon s) \<noteq> 0 \<and> \<not> unstarted_next (mt_mon s)
         | Dec i \<Rightarrow> s_count (mt_sema s i) = 0 \<longrightarrow> \<not> unstarted_next (mt_mon s)
         | _ \<Rightarrow> True))"

definition sema_after :: "'c call \<Rightarrow> nat \<Rightarrow> (nat \<Rightarrow> sema) \<Rightarrow> nat \<Rightarrow> sema" where
  "sema_after call t S = (case call of
       Dec i \<Rightarrow> S(i := if s_count (S i) = 0 then (S i)\<lparr>s_wait := s_wait (S i) @ [t]\<rparr> else (S i)\<lparr>s_count := s_count (S i) - 1\<rparr>)
     | Inc i \<Rightarrow> S(i := if s_wait (S i) = [] then (S i)\<lparr>s_count := s_count (S i) + 1\<rparr> else (S i)\<lparr>s_wait := tl (s_wait (S i))\<rparr>)
     | _ \<Rightarrow> S)"

definition code_after :: "'c call \<Rightarrow> 'c \<Rightarrow> 'c monitor \<Rightarrow> nat \<Rightarrow> 'c option" where
  "code_after call c m = (let f = (code_of m)(mo_current m := (if call = Return then None else Some c)) in
     case call of Create g \<Rightarrow> f(mo_id m + 1 \<mapsto> g) | _ \<Rightarrow> f)"

lemma fst_sema_dec: "fst (sema_dec s m) = (if s_count s = 0 then s\<lparr>s_wait := s_wait s @ [mo_current m]\<rparr> else s\<lparr>s_count := s_count s - 1\<rparr>)"
  by (simp add: sema_dec_def)

lemma fst_sema_inc:
  "(\<And>t. t \<in> set (s_wait s) \<Longrightarrow> mo_threads m t \<noteq> None) \<Longrightarrow>
   fst (sema_inc s m) = (if s_wait s = [] then s\<lparr>s_count := s_count s + 1\<rparr> else s\<lparr>s_wait := tl (s_wait s)\<rparr>)"
  by (auto simp: sema_inc_def Let_def split: list.split)

lemma sema_after_ok: "(\<And>i. sema_ok (S i)) \<Longrightarrow> sema_ok (sema_after call t S i)"
  by (cases call) (auto simp: sema_after_def sema_ok_def, force+)

lemma put_sema_run:
  assumes "snd r = Running m'"
  shows "put_sema s i r = Running (s\<lparr>mt_mon := m', mt_sema := (mt_sema s)(i := fst r)\<rparr>)"
  using assms by (simp add: put_sema_def put_mon_def)

lemma put_sema_exit: "snd r = Sys_exit n \<Longrightarrow> put_sema s i r = Sys_exit n"
  by (simp add: put_sema_def put_mon_def)

lemma wait_upd: "(\<lambda>j. s_wait (S j))(i := s_wait x) = (\<lambda>j. s_wait ((S(i := x)) j))"
  by auto

lemma step_safe:
  assumes inv: "mt_inv s" and clean: "clean_step p s"
  obtains n where "mt_step p s = Sys_exit n"
  | s' c call c' g where "mt_step p s = Running s'" "mt_inv s'" "code_of (mt_mon s) (mo_current (mt_mon s)) = Some c"
      "p c (mt_glob s) = (call, c', g)" "code_of (mt_mon s') = code_after call c' (mt_mon s)"
      "mt_sema s' = sema_after call (mo_current (mt_mon s)) (mt_sema s)"
proof -
  define m W where "m = mt_mon s" and "W = (\<lambda>i. s_wait (mt_sema s i))"
  from inv have mi: "mon_inv m W" and so: "\<And>i. sema_ok (mt_sema s i)" by (simp_all add: mt_inv_def m_def W_def)
  from running [OF mi] obtain th c where th: "mo_threads m (mo_current m) = Some th" "th_code th = Some c" by (metis option.exhaust)
  obtain call c' g where p: "p c (mt_glob s) = (call, c', g)" by (metis prod_cases3)
  have c: "code_of m (mo_current m) = Some c" using th by (simp add: code_of_def)
  define m1 where "m1 = put_code (if call = Return then None else Some c') m"
  define s1 where "s1 = s\<lparr>mt_mon := m1, mt_glob := g\<rparr>"
  have step: "mt_step p s = (case call of Yield \<Rightarrow> put_mon s1 (thread_yield m1) | Create f \<Rightarrow> put_mon s1 (thread_create f m1)
      | Dec i \<Rightarrow> put_sema s1 i (sema_dec (mt_sema s i) m1) | Inc i \<Rightarrow> put_sema s1 i (sema_inc (mt_sema s i) m1)
      | Return \<Rightarrow> put_mon s1 (thread_exit m1) | Exit n \<Rightarrow> Sys_exit n)"
    using th p by (cases call) (simp_all add: mt_step_def m_def [symmetric] s1_def m1_def put_code_def Let_def)
  have cur: "mo_current m1 = mo_current m" "mo_id m1 = mo_id m" "mo_ready m1 = mo_ready m" by (simp_all add: m1_def put_code_def)
  have code1: "code_of m1 = (code_of m)(mo_current m := (if call = Return then None else Some c'))"
    using put_code_inv(2) [OF mi] by (simp add: m1_def)
  have st1: "state_of m1 = state_of m" by (auto simp: m1_def put_code_def state_of_def th(1) fun_eq_iff)
  have un: "unstarted_next m1 = unstarted_next m" by (simp add: unstarted_next_def st1 cur)
  have m1: "mon_inv m1 W" if "call \<noteq> Return" using put_code_inv(1) [OF mi] that by (simp add: m1_def)
  note finish = that(2) [OF _ _ c [unfolded m_def] p]
  show thesis
  proof (cases call)
    case Yield
    have pre: "mon_pre m1 W" and rn: "state_of m1 (mo_current m1) = Some RUNNING" using mon_invD [OF m1] Yield by simp_all
    have nw: "\<not> waits (state_of m1 (mo_current m1))" using rn by (simp add: waits_def)
    from yield_inv [OF pre] nw rn obtain m' where "thread_yield m1 = Running m'" "mon_inv m' W" "code_of m' = code_of m1"
      by blast
    with Yield show thesis by (intro finish [of "s1\<lparr>mt_mon := m'\<rparr>"])
      (simp_all add: step put_mon_def mt_inv_def so s1_def W_def code_after_def sema_after_def code1 m_def)
  next
    case (Create f)
    with create_inv [OF m1, of f] obtain m' where "thread_create f m1 = Running m'" "mon_inv m' W" "code_of m' = (code_of m1)(mo_id m1 + 1 \<mapsto> f)"
      by auto
    with Create show thesis by (intro finish [of "s1\<lparr>mt_mon := m'\<rparr>"])
      (simp_all add: step put_mon_def mt_inv_def so s1_def W_def code_after_def sema_after_def code1 cur m_def Let_def)
  next
    case (Dec i)
    have "s_count (mt_sema s i) = 0 \<Longrightarrow> \<not> unstarted_next m1"
      using clean Dec p c un by (simp add: clean_step_def m_def)
    from dec_inv [OF m1 _ this, of i] Dec consider "snd (sema_dec (mt_sema s i) m1) = Sys_exit 1"
      | m' where "snd (sema_dec (mt_sema s i) m1) = Running m'" "mon_inv m' (W(i := s_wait (fst (sema_dec (mt_sema s i) m1))))" "code_of m' = code_of m1"
      by (auto simp: W_def)
    then show thesis
    proof cases
      case 1
      with Dec show thesis by (intro that(1) [of 1]) (simp add: step put_sema_exit)
    next
      case 2
      have "(mt_sema s)(i := fst (sema_dec (mt_sema s i) m1)) = sema_after call (mo_current m) (mt_sema s)"
        using Dec by (simp add: sema_after_def fst_sema_dec cur)
      with 2 Dec so show thesis
        by (intro finish [of "s1\<lparr>mt_mon := m', mt_sema := (mt_sema s)(i := fst (sema_dec (mt_sema s i) m1))\<rparr>"])
          (simp_all add: step put_sema_run mt_inv_def s1_def W_def wait_upd sema_after_ok code_after_def code1 Let_def m_def)
    qed
  next
    case (Inc i)
    from inc_inv [OF m1, of i "mt_sema s i"] Inc obtain m' where m': "snd (sema_inc (mt_sema s i) m1) = Running m'"
      "mon_inv m' (W(i := s_wait (fst (sema_inc (mt_sema s i) m1))))" "code_of m' = code_of m1" by (auto simp: W_def)
    have "mo_threads m1 t \<noteq> None" if "t \<in> set (s_wait (mt_sema s i))" for t
      using ready_alloc [OF mon_invD(1) [OF m1], of t i] Inc that by (auto simp: W_def)
    then have "(mt_sema s)(i := fst (sema_inc (mt_sema s i) m1)) = sema_after call (mo_current m) (mt_sema s)"
      using Inc by (simp add: sema_after_def fst_sema_inc)
    with m' Inc so show thesis
      by (intro finish [of "s1\<lparr>mt_mon := m', mt_sema := (mt_sema s)(i := fst (sema_inc (mt_sema s i) m1))\<rparr>"])
        (simp_all add: step put_sema_run mt_inv_def s1_def W_def wait_upd sema_after_ok code_after_def code1 Let_def m_def)
  next
    case Return
    have "\<not> unstarted_next m" "mo_current m \<noteq> 0" using clean Return p c by (simp_all add: clean_step_def m_def)
    note e = exit_inv [OF mi this]
    have m1R: "put_code None m = m1" and c1: "(code_of m)(mo_current m := None) = code_of m1"
      using Return code1 by (simp_all add: m1_def)
    from e [unfolded m1R c1] consider "thread_exit m1 = Sys_exit 1"
      | m' where "thread_exit m1 = Running m'" "mon_inv m' W" "code_of m' = code_of m1" by blast
    then show thesis
    proof cases
      case 1
      with Return show thesis by (intro that(1) [of 1]) (simp add: step put_mon_def)
    next
      case 2
      with Return show thesis by (intro finish [of "s1\<lparr>mt_mon := m'\<rparr>"])
        (simp_all add: step put_mon_def mt_inv_def so s1_def W_def code_after_def sema_after_def code1 m_def)
    qed
  next
    case (Exit n)
    then show thesis by (intro that(1) [of n]) (simp add: step)
  qed
qed

end
