(* ===== verification/ThreadProps.thy ===== *)
theory ThreadProps
  imports ThreadsInv
begin

text \<open>
  Properties of the thread package: no thread is lost, semaphores give mutual exclusion, and the
  schedules in which \<open>ctx_entry\<close> breaks both.
\<close>

section \<open>Runs\<close>

inductive mt_reach :: "('c, 'g) program \<Rightarrow> ('c, 'g) mt \<Rightarrow> ('c, 'g) mt \<Rightarrow> bool"
  for p :: "('c, 'g) program" and s0 :: "('c, 'g) mt" where
  mt_start: "mt_reach p s0 s0"
| mt_next: "mt_reach p s0 s \<Longrightarrow> clean_step p s \<Longrightarrow> mt_step p s = Running s' \<Longrightarrow> mt_reach p s0 s'"

inductive_simps mt_reach_simps: "mt_reach p s0 s"

text \<open>The start of a program whose first call creates a thread.\<close>

lemma mt_inv_start:
  assumes "p main g = (Create f, c', g')" "\<And>i. s_wait (S i) = []" "\<And>i. 0 \<le> s_count (S i)"
  shows "\<exists>s'. mt_step p \<lparr>mt_mon = thread_init st main, mt_sema = S, mt_glob = g\<rparr> = Running s' \<and> mt_inv s' \<and>
    mt_sema s' = S \<and> code_of (mt_mon s') = [0 \<mapsto> c', 1 \<mapsto> f]"
  using assms
  by (auto simp: mt_step_def thread_init_def put_mon_def thread_create_def thread_schedule_def findRunnable_def
      state_of_def ctx_entry_def set_state_def mt_inv_def mon_inv_def mon_pre_def placed_def sema_ok_def code_of_def fun_eq_iff)

section \<open>Mutual exclusion\<close>

text \<open>
  \<open>inside c\<close>: the code \<open>c\<close> lies between a \<open>sema_dec\<close> and the next \<open>sema_inc\<close> of semaphore \<open>i\<close>.
\<close>

definition bracketed :: "('c, 'g) program \<Rightarrow> ('c \<Rightarrow> bool) \<Rightarrow> nat \<Rightarrow> bool" where
  "bracketed p inside i \<longleftrightarrow> (\<forall>c g call c' g'. p c g = (call, c', g') \<longrightarrow> (case call of
       Dec j \<Rightarrow> if j = i then \<not> inside c \<and> inside c' else inside c' = inside c
     | Inc j \<Rightarrow> if j = i then inside c \<and> \<not> inside c' else inside c' = inside c
     | Create f \<Rightarrow> \<not> inside f \<and> inside c' = inside c
     | Yield \<Rightarrow> inside c' = inside c
     | Return \<Rightarrow> \<not> inside c
     | Exit n \<Rightarrow> True))"

definition in_section :: "('c \<Rightarrow> bool) \<Rightarrow> nat \<Rightarrow> ('c, 'g) mt \<Rightarrow> nat set" where
  "in_section inside i s = {t. \<exists>c. code_of (mt_mon s) t = Some c \<and> inside c \<and> t \<notin> set (s_wait (mt_sema s i))}"

definition mutex_inv :: "('c \<Rightarrow> bool) \<Rightarrow> nat \<Rightarrow> nat \<Rightarrow> ('c, 'g) mt \<Rightarrow> bool" where
  "mutex_inv inside i n s \<longleftrightarrow> mt_inv s \<and>
     (\<forall>t\<in>set (s_wait (mt_sema s i)). \<exists>c. code_of (mt_mon s) t = Some c \<and> inside c) \<and>
     int (card (in_section inside i s)) + s_count (mt_sema s i) = int n"

lemma finite_section: "mt_inv s \<Longrightarrow> finite (in_section inside i s)"
proof (rule finite_subset)
  assume "mt_inv s"
  then have pre: "mon_pre (mt_mon s) (\<lambda>i. s_wait (mt_sema s i))" by (simp add: mt_inv_def mon_inv_def)
  show "in_section inside i s \<subseteq> {..mo_id (mt_mon s)}"
    using placedD(1) [OF pre] by (auto simp: in_section_def code_of_def split: Option.bind_splits)
qed simp

lemma mutex_step:
  assumes br: "bracketed p inside i" and inv: "mutex_inv inside i n s" and clean: "clean_step p s" and run: "mt_step p s = Running s'"
  shows "mutex_inv inside i n s'"
proof -
  have mi: "mt_inv s" using inv by (simp add: mutex_inv_def)
  define m where "m = mt_mon s"
  define cur where "cur = mo_current m"
  define W where "W = s_wait (mt_sema s i)"
  from step_safe [OF mi clean] run obtain c call c' g where
    st: "mt_inv s'" "code_of m cur = Some c" "p c (mt_glob s) = (call, c', g)" "code_of (mt_mon s') = code_after call c' m"
      "mt_sema s' = sema_after call cur (mt_sema s)" unfolding m_def cur_def by (metis outcome.distinct(1) outcome.inject(1))
  have mon: "mon_inv m (\<lambda>i. s_wait (mt_sema s i))" using mi by (simp add: mt_inv_def m_def)
  have cw: "cur \<notin> set W" using running [OF mon] by (auto simp: cur_def W_def)
  have new: "code_of m (mo_id m + 1) = None" "mo_id m + 1 \<notin> set W" "cur \<noteq> mo_id m + 1"
  proof -
    note pre = mon_invD(1) [OF mon]
    have "mo_threads m (mo_id m + 1) = None" using placedD(1) [OF pre, of "mo_id m + 1"] by (cases "mo_threads m (mo_id m + 1)") auto
    then show "code_of m (mo_id m + 1) = None" "mo_id m + 1 \<notin> set W" "cur \<noteq> mo_id m + 1"
      using ready_alloc [OF pre, of "mo_id m + 1" i] mon_preD(6) [OF pre] by (auto simp: code_of_def W_def cur_def)
  qed
  have fin: "finite (in_section inside i s)" by (rule finite_section [OF mi])
  have sec: "in_section inside i s = {t. \<exists>c. code_of m t = Some c \<and> inside c \<and> t \<notin> set W}" by (simp add: in_section_def m_def W_def)
  have sec': "in_section inside i s' =
      {t. \<exists>c. code_after call c' m t = Some c \<and> inside c \<and> t \<notin> set (s_wait (sema_after call cur (mt_sema s) i))}"
    by (simp add: in_section_def st(4,5))
  from inv have w: "\<And>t. t \<in> set W \<Longrightarrow> \<exists>c. code_of m t = Some c \<and> inside c"
    and card: "int (card (in_section inside i s)) + s_count (mt_sema s i) = int n"
    by (auto simp: mutex_inv_def m_def W_def)
  note b = br [unfolded bracketed_def, rule_format, OF st(3)]
  note upd = code_after_def sema_after_def Let_def cur_def [symmetric]
  have goal: "mutex_inv inside i n s'"
    if "\<And>t. t \<in> set (s_wait (sema_after call cur (mt_sema s) i)) \<Longrightarrow> \<exists>c. code_after call c' m t = Some c \<and> inside c"
      "int (card (in_section inside i s')) + s_count (sema_after call cur (mt_sema s) i) = int n"
    using that st(1) by (auto simp: mutex_inv_def st(4,5))
  have same: "mutex_inv inside i n s'"
    if "sema_after call cur (mt_sema s) i = mt_sema s i" "in_section inside i s' = in_section inside i s"
      "\<And>t. t \<in> set W \<Longrightarrow> code_after call c' m t = code_of m t"
    using that w card by (intro goal) (auto simp: W_def)
  show ?thesis
  proof (cases call)
    case Yield
    with b st(2) cw show ?thesis by (intro same) (auto simp: sec sec' upd W_def)
  next
    case (Create f)
    with b st(2) cw new show ?thesis by (intro same) (auto simp: sec sec' upd W_def)
  next
    case Return
    with b st(2) cw show ?thesis by (intro same) (auto simp: sec sec' upd W_def)
  next
    case (Exit k)
    with run st(2,3) show ?thesis by (auto simp: mt_step_def code_of_def m_def cur_def Let_def split: option.splits Option.bind_splits)
  next
    case (Dec j)
    show ?thesis
    proof (cases "j = i")
      case False
      with Dec b st(2) cw show ?thesis by (intro same) (auto simp: sec sec' upd W_def)
    next
      case True
      note ins = b [unfolded Dec, simplified, unfolded if_P [OF True]]
      show ?thesis
      proof (cases "s_count (mt_sema s i) = 0")
        case z: True
        have "in_section inside i s' = in_section inside i s" using Dec True z ins st(2) cw by (auto simp: sec sec' upd W_def)
        with z True Dec w card ins show ?thesis by (intro goal) (auto simp: upd W_def)
      next
        case nz: False
        have "in_section inside i s' = insert cur (in_section inside i s)" "cur \<notin> in_section inside i s"
          using Dec True nz ins st(2) cw by (auto simp: sec sec' upd W_def)
        with nz True Dec w card ins fin cw show ?thesis by (intro goal) (auto simp: upd W_def)
      qed
    qed
  next
    case (Inc j)
    show ?thesis
    proof (cases "j = i")
      case False
      with Inc b st(2) cw show ?thesis by (intro same) (auto simp: sec sec' upd W_def)
    next
      case True
      note ins = b [unfolded Inc, simplified, unfolded if_P [OF True]]
      have curin: "cur \<in> in_section inside i s" using ins st(2) cw by (auto simp: sec)
      show ?thesis
      proof (cases W)
        case Nil
        have "in_section inside i s' = in_section inside i s - {cur}" using Inc True Nil ins st(2) by (auto simp: sec sec' upd W_def)
        moreover have "card (in_section inside i s - {cur}) + 1 = card (in_section inside i s)"
          using card.remove [OF fin curin] by linarith
        ultimately show ?thesis using Nil True Inc w card by (intro goal) (auto simp: upd W_def)
      next
        case (Cons t ts)
        from w [of t] Cons obtain ct where ct: "code_of m t = Some ct" "inside ct" by auto
        have "distinct W" using mon_preD(4) [OF mon_invD(1) [OF mon], of i] by (simp add: W_def)
        with Cons have d: "t \<notin> set ts" by simp
        have ne: "t \<noteq> cur" using cw Cons by auto
        have "in_section inside i s' = insert t (in_section inside i s - {cur})" "t \<notin> in_section inside i s"
          using Inc True Cons ins st(2) ct d ne by (auto simp: sec sec' upd W_def)
        moreover have "card (in_section inside i s - {cur}) + 1 = card (in_section inside i s)"
          using card.remove [OF fin curin] by linarith
        ultimately show ?thesis using Cons True Inc w card fin cw by (intro goal) (auto simp: upd W_def)
      qed
    qed
  qed
qed

section \<open>Properties\<close>

text \<open>The state in which the program starts, before its first call has created a thread.\<close>

definition mt_init :: "thread_state \<Rightarrow> 'c \<Rightarrow> (nat \<Rightarrow> sema) \<Rightarrow> 'g \<Rightarrow> ('c, 'g) mt" where
  "mt_init st main S g = \<lparr>mt_mon = thread_init st main, mt_sema = S, mt_glob = g\<rparr>"

lemma reach_inv:
  assumes "mt_reach p s0 s" "I s0" "\<And>s s'. I s \<Longrightarrow> clean_step p s \<Longrightarrow> mt_step p s = Running s' \<Longrightarrow> I s'"
  shows "I s"
  using assms by (induction rule: mt_reach.induct) auto

lemma mt_inv_step: "mt_inv s \<Longrightarrow> clean_step p s \<Longrightarrow> mt_step p s = Running s' \<Longrightarrow> mt_inv s'"
  by (erule (1) step_safe [of s p]) simp_all

lemma sema_init_waits [simp]: "s_wait (sema_init c) = []" "s_count (sema_init c) = sint c"
  by (simp_all add: sema_init_def)

text \<open>A program of two threads that take the lock in turn, for the witnesses.\<close>

fun turns :: "(nat, unit) program" where
  "turns c g = (if c = 0 then Create 10 else if c = 1 \<or> c = 10 then Dec 0 else if c = 3 \<or> c = 12 then Inc 0 else Yield, c + 1, g)"

definition turns_start :: "(nat, unit) mt" where
  "turns_start = \<lparr>mt_mon = \<lparr>mo_current = 1, mo_next = 1, mo_ready = [0], mo_exited = [],
     mo_threads = [0 \<mapsto> \<lparr>th_state = STOPPED, th_code = Some 1, th_stack = False\<rparr>,
                   1 \<mapsto> \<lparr>th_state = RUNNING, th_code = Some 10, th_stack = True\<rparr>], mo_id = 1\<rparr>,
     mt_sema = (\<lambda>i. sema_init 1), mt_glob = ()\<rparr>"

lemma turns_run:
  "mt_step turns (mt_init RUNNING 0 (\<lambda>i. sema_init 1) ()) = Running turns_start"
  "\<exists>s. mt_reach turns turns_start s \<and> clean_step turns s \<and> code_of (mt_mon s) 1 = Some 11 \<and>
    s_wait (mt_sema s 0) = [] \<and> s_count (mt_sema s 0) = 0"
proof -
  show "mt_step turns (mt_init RUNNING 0 (\<lambda>i. sema_init 1) ()) = Running turns_start"
    by (simp add: turns_start_def mt_init_def mt_step_def thread_init_def put_mon_def thread_create_def thread_schedule_def
        findRunnable_def state_of_def ctx_entry_def set_state_def fun_upd_twist)
  define s where "s = turns_start\<lparr>mt_mon := (mt_mon turns_start)\<lparr>mo_threads := (mo_threads (mt_mon turns_start))(1 \<mapsto>
      \<lparr>th_state = RUNNING, th_code = Some 11, th_stack = True\<rparr>)\<rparr>, mt_sema := (\<lambda>i. sema_init 1)(0 := \<lparr>s_count = 0, s_wait = []\<rparr>)\<rparr>"
  have "mt_step turns turns_start = Running s"
    by (simp add: s_def turns_start_def mt_step_def put_sema_def put_mon_def sema_dec_def sema_init_def)
  moreover have "clean_step turns turns_start" by (simp add: clean_step_def turns_start_def code_of_def sema_init_def)
  ultimately have "mt_reach turns turns_start s" using mt_next mt_start by fast
  moreover have "clean_step turns s" "code_of (mt_mon s) 1 = Some 11" "s_wait (mt_sema s 0) = []" "s_count (mt_sema s 0) = 0"
    by (simp_all add: clean_step_def s_def turns_start_def code_of_def)
  ultimately show "\<exists>s. mt_reach turns turns_start s \<and> clean_step turns s \<and> code_of (mt_mon s) 1 = Some 11 \<and>
    s_wait (mt_sema s 0) = [] \<and> s_count (mt_sema s 0) = 0" by blast
qed

lemma turns_call: "turns 0 () = (Create 10, 1, ())"
  by simp

definition turns_inside :: "nat \<Rightarrow> bool" where
  "turns_inside c \<longleftrightarrow> c \<in> {2, 3, 11, 12}"

lemma turns_bracketed: "bracketed turns turns_inside 0" "\<not> turns_inside 0"
  by (auto simp: bracketed_def turns_inside_def)

text \<open>C27: No thread is ever lost and nothing undefined happens. A program starts with a call of
  \<open>thread_create\<close>, its semaphores initialised to non-negative counts; from then on, along every run
  in which no thread blocks or exits while a thread that has never run is at the head of the ready
  queue, every thread is where its state says it is: in the ready queue if it is ready or stopped,
  in the queue of exactly one semaphore if it is blocked, among the exited threads if it is
  terminated, and the current thread runs. The next step never touches a freed thread and never
  switches to one that cannot run: it ends the program or keeps all of this.\<close>
theorem threads_never_lost:
  assumes "p main g = (Create f, c', g')" "\<And>i. 0 \<le> sint (n i)"
    "mt_step p (mt_init st main (\<lambda>i. sema_init (n i)) g) = Running s0" "mt_reach p s0 s" "clean_step p s"
  shows "mt_inv s \<and> ((\<exists>k. mt_step p s = Sys_exit k) \<or> (\<exists>s'. mt_step p s = Running s' \<and> mt_inv s'))"
proof -
  have "mt_inv s0"
    using mt_inv_start [where p = p and main = main and g = g and S = "\<lambda>i. sema_init (n i)" and st = st, OF assms(1)] assms(2,3) by (auto simp: mt_init_def)
  from reach_inv [where I = mt_inv, OF assms(4) this mt_inv_step] have inv: "mt_inv s" by simp
  show ?thesis using step_safe [OF inv assms(5)] inv by metis
qed

theorem threads_never_lost_witness:
  "\<exists>s. code_of (mt_mon s) 1 = Some 11 \<and> mt_inv s \<and>
    ((\<exists>k. mt_step turns s = Sys_exit k) \<or> (\<exists>s'. mt_step turns s = Running s' \<and> mt_inv s'))"
proof -
  obtain s where s: "mt_reach turns turns_start s" "clean_step turns s" "code_of (mt_mon s) 1 = Some 11" using turns_run(2) by blast
  show ?thesis
    using threads_never_lost [where p = turns and main = 0 and g = "()" and n = "\<lambda>i. 1", OF turns_call _ turns_run(1) s(1,2)] s(3)
    by auto
qed

text \<open>C28: A semaphore that starts at \<open>n\<close> admits at most \<open>n\<close> threads: in a program that brackets
  its sections with \<open>sema_dec\<close> and \<open>sema_inc\<close>, at every point of every run in which no thread blocks
  or exits while a thread that has never run is at the head of the ready queue, the threads in a
  section that do not wait for it and the permits that are left add up to \<open>n\<close>.\<close>
theorem sema_mutual_exclusion:
  assumes "p main g = (Create f, c', g')" "\<And>i. 0 \<le> sint (n i)" "bracketed p inside i" "\<not> inside main"
    "mt_step p (mt_init st main (\<lambda>i. sema_init (n i)) g) = Running s0" "mt_reach p s0 s"
  shows "card (in_section inside i s) \<le> unat (n i) \<and>
    int (card (in_section inside i s)) + s_count (mt_sema s i) = sint (n i)"
proof -
  define k where "k = nat (sint (n i))"
  have k: "int k = sint (n i)" using assms(2) [of i] by (simp add: k_def)
  obtain s1 where s1: "mt_step p (mt_init st main (\<lambda>i. sema_init (n i)) g) = Running s1" "mt_inv s1"
    "mt_sema s1 = (\<lambda>i. sema_init (n i))" "code_of (mt_mon s1) = [0 \<mapsto> c', 1 \<mapsto> f]"
    using mt_inv_start [where p = p and main = main and g = g and S = "\<lambda>i. sema_init (n i)" and st = st, OF assms(1)] assms(2) by (auto simp: mt_init_def)
  then have [simp]: "s1 = s0" using assms(5) by simp
  have "\<not> inside c' \<and> \<not> inside f"
    using assms(3) [unfolded bracketed_def, rule_format, OF assms(1)] assms(4) by simp
  then have "in_section inside i s0 = {}" using s1(4) by (auto simp: in_section_def)
  then have "mutex_inv inside i k s0" using s1(2,3) k by (simp add: mutex_inv_def)
  from reach_inv [where I = "mutex_inv inside i k", OF assms(6) this mutex_step [OF assms(3)]]
  have inv: "mutex_inv inside i k s" by simp
  then have "0 \<le> s_count (mt_sema s i)" by (simp add: mutex_inv_def mt_inv_def sema_ok_def)
  moreover have "k \<le> unat (n i)"
  proof -
    have "uint (word_of_int (sint (n i)) :: u32) = sint (n i)"
      using assms(2) [of i] sint_less [of "n i"] by (simp add: unsigned_of_int take_bit_eq_mod del: of_int_sint)
    then have "int k = uint (n i)" using k by simp
    then show ?thesis by (metis nat_int order_refl unat_eq_nat_uint)
  qed
  ultimately show ?thesis using inv k by (simp add: mutex_inv_def)
qed

theorem sema_mutual_exclusion_witness:
  "\<exists>s :: (nat, unit) mt. 1 \<in> in_section turns_inside 0 s \<and> card (in_section turns_inside 0 s) \<le> 1 \<and> s_count (mt_sema s 0) = 0"
proof -
  obtain s where s: "mt_reach turns turns_start s" "clean_step turns s" "code_of (mt_mon s) 1 = Some 11" "s_wait (mt_sema s 0) = []"
    "s_count (mt_sema s 0) = 0" using turns_run(2) by blast
  have "1 \<in> in_section turns_inside 0 s" using s by (simp add: in_section_def turns_inside_def)
  moreover have "card (in_section turns_inside 0 s) \<le> unat (1 :: u32)"
    using sema_mutual_exclusion [where p = turns and main = 0 and g = "()" and n = "\<lambda>i. 1" and inside = turns_inside and i = 0,
      OF turns_call _ turns_bracketed turns_run(1) s(1)] by auto
  ultimately show ?thesis using s(5) by (intro exI [of _ s]) simp
qed

section \<open>A program that loses its lock\<close>

text \<open>
  The main thread takes the lock, creates a thread that takes it too and one that does not use it,
  and yields while it holds the lock.
\<close>

fun lock_program :: "(nat, unit) program" where
  "lock_program c g =
     (if c = 0 then Dec 0 else if c = 1 then Create 10 else if c = 2 then Create 20 else if c = 3 then Yield
      else if c = 4 then Inc 0 else if c = 10 then Yield else if c = 11 then Dec 0 else if c = 12 then Inc 0
      else if c = 20 then Yield else Return, c + 1, g)"

definition lock_inside :: "nat \<Rightarrow> bool" where
  "lock_inside c \<longleftrightarrow> c \<in> {1, 2, 3, 4, 12}"

text \<open>A thread that waits for a semaphore can run on without it. When the thread at the head of
  the ready queue has never run, \<open>ctx_entry\<close> marks the thread that has just blocked as stopped and
  puts it into the ready queue, although it is still queued at the semaphore. In a program that
  brackets its section, the main thread holds the lock, the second thread has blocked on it with a
  new thread at the head of the ready queue, and after seven calls the second thread is in the
  section as well, for any initial state of the first thread.\<close>
theorem blocked_thread_runs:
  "bracketed lock_program lock_inside 0 \<and>
   (case mt_run 7 lock_program (mt_init st 0 (\<lambda>_. sema_init 1) ()) of
      Running s \<Rightarrow> s_wait (mt_sema s 0) = [1] \<and> mo_current (mt_mon s) = 1 \<and>
        (\<exists>c. code_of (mt_mon s) 1 = Some c \<and> lock_inside c) \<and> (\<exists>c. code_of (mt_mon s) 0 = Some c \<and> lock_inside c)
    | _ \<Rightarrow> False)"
proof
  show "bracketed lock_program lock_inside 0" by (auto simp: bracketed_def lock_inside_def)
next
  show "case mt_run 7 lock_program (mt_init st 0 (\<lambda>_. sema_init 1) ()) of
      Running s \<Rightarrow> s_wait (mt_sema s 0) = [1] \<and> mo_current (mt_mon s) = 1 \<and>
        (\<exists>c. code_of (mt_mon s) 1 = Some c \<and> lock_inside c) \<and> (\<exists>c. code_of (mt_mon s) 0 = Some c \<and> lock_inside c)
    | _ \<Rightarrow> False"
    by (cases st) (simp_all add: eval_nat_numeral mt_init_def mt_step_def thread_init_def put_mon_def put_sema_def thread_create_def
      thread_yield_def sema_dec_def thread_schedule_def findRunnable_def state_of_def ctx_entry_def set_state_def waits_def
      sema_init_def code_of_def lock_inside_def Let_def)
qed

end
