(* ===== verification/TtySvr.thy ===== *)
theory TtySvr
  imports FileSvr
begin

text \<open>
  The terminal server (\<open>egos/grass/ttysvr.c\<close>): a file server for the keyboard (inode 0) and the screen
  (inodes 1 and 2). It runs on requests of processes and on the interrupts of the keyboard. What it
  does to others is a list of outputs: the replies it sends, in order, the bytes it prints, and the
  calls of the kernel. Allocation succeeds.
\<close>

section \<open>State\<close>

definition FILE_ECHO :: u64 where "FILE_ECHO = 1"

record tty_request =
  tr_src :: u32
  tr_size :: u32

record tty_state =
  ts_buf :: "u8 list"
  ts_requests :: "tty_request list"
  ts_inputs :: "u8 list list"
  ts_flags :: u64

datatype tty_out =
    Tty_reply u32 freply
  | Tty_print "u8 list"
  | Tty_write u32 "u8 list"
  | Tty_interrupt  \<comment> \<open>\<open>proc_kill(ts->pid, 0, STAT_INTR)\<close>\<close>
  | Tty_dump
  | Tty_shut_down

definition tty_init_state :: tty_state where
  "tty_init_state = \<lparr>ts_buf = [], ts_requests = [], ts_inputs = [], ts_flags = 0\<rparr>"

section \<open>Input\<close>

definition tty_respond :: "u32 \<Rightarrow> file_status \<Rightarrow> u8 list \<Rightarrow> tty_out" where
  "tty_respond src status data = Tty_reply src
     ((zero_reply status)\<lparr>fp_stat := zero_stat\<lparr>st_size := of_nat (length data)\<rparr>\<rparr>, data)"

definition tty_handle :: "tty_request \<Rightarrow> u8 list \<Rightarrow> tty_state \<Rightarrow> tty_out list \<times> tty_state" where
  "tty_handle tr buf ts =
     (let n = (if length buf > unat (tr_size tr) then unat (tr_size tr) else length buf);
          out = Tty_reply (tr_src tr) (zero_reply FILE_OK, take n buf)
      in if n < length buf then ([out], ts\<lparr>ts_inputs := drop n buf # ts_inputs ts\<rparr>)
         else ([out], ts))"

text \<open>One byte of the keyboard.\<close>

definition tty_char :: "u8 \<Rightarrow> tty_state \<Rightarrow> tty_out list \<times> tty_state" where
  "tty_char c ts =
     (if c = 3 then ([Tty_print (map of_char ''<ctrl>C''), Tty_print [10], Tty_interrupt], ts)
      else if c = 4 then ([], ts\<lparr>ts_inputs := ts_inputs ts @ [ts_buf ts], ts_buf := []\<rparr>)
      else if c = 8 \<or> c = 0x7F then
        (if length (ts_buf ts) > 0 then ([Tty_print [8, 32, 8]], ts\<lparr>ts_buf := butlast (ts_buf ts)\<rparr>) else ([], ts))
      else if c = 12 then ([Tty_dump], ts)
      else if c = 17 then ([Tty_shut_down], ts)
      else
        (let c = (if c = 13 then 10 else c);
             echo = (if ts_flags ts AND FILE_ECHO \<noteq> 0 then [Tty_print [c]] else []);
             cr = (if c = 10 then [Tty_print [13]] else []);
             ts = ts\<lparr>ts_buf := ts_buf ts @ [c]\<rparr>
         in (echo @ cr, if c = 10 then ts\<lparr>ts_inputs := ts_inputs ts @ [ts_buf ts], ts_buf := []\<rparr> else ts)))"

fun tty_chars :: "u8 list \<Rightarrow> tty_state \<Rightarrow> tty_out list \<times> tty_state" where
  "tty_chars [] ts = ([], ts)"
| "tty_chars (c # cs) ts = (let (out, ts) = tty_char c ts; (outs, ts) = tty_chars cs ts in (out @ outs, ts))"

text \<open>The first request is answered with the first input, if there are both.\<close>

definition tty_answer :: "tty_state \<Rightarrow> tty_out list \<times> tty_state" where
  "tty_answer ts = (case (ts_inputs ts, ts_requests ts) of
       (buf # inputs, tr # requests) \<Rightarrow> tty_handle tr buf (ts\<lparr>ts_inputs := inputs, ts_requests := requests\<rparr>)
     | _ \<Rightarrow> ([], ts))"

definition tty_deliver :: "u8 list \<Rightarrow> tty_state \<Rightarrow> tty_out list \<times> tty_state" where
  "tty_deliver buf ts = (let (outs, ts) = tty_chars buf ts; (outs', ts) = tty_answer ts in (outs @ outs', ts))"

section \<open>Requests\<close>

definition tty_read :: "file_request \<Rightarrow> u32 \<Rightarrow> tty_state \<Rightarrow> tty_out list \<times> tty_state" where
  "tty_read req src ts =
     (if fq_ino req \<noteq> 0 then ([tty_respond src FILE_ERROR []], ts)
      else tty_answer (ts\<lparr>ts_requests := ts_requests ts @ [\<lparr>tr_src = src, tr_size = fq_size req\<rparr>]\<rparr>))"

definition tty_write :: "file_request \<Rightarrow> u32 \<Rightarrow> u8 list \<Rightarrow> tty_state \<Rightarrow> tty_out list \<times> tty_state" where
  "tty_write req src data ts =
     (if fq_ino req \<noteq> 1 \<and> fq_ino req \<noteq> 2 then ([tty_respond src FILE_ERROR []], ts)
      else if unat (fq_size req) \<noteq> length data then ([tty_respond src FILE_ERROR []], ts)
      else ([Tty_write (fq_ino req) (concat (map (\<lambda>c. if c = 10 then [c, 13] else [c]) data)), tty_respond src FILE_OK []], ts))"

definition tty_do_stat :: "u32 \<Rightarrow> tty_state \<Rightarrow> tty_out list \<times> tty_state" where
  "tty_do_stat src ts = ([Tty_reply src ((zero_reply FILE_OK)\<lparr>fp_op := FILE_STAT, fp_stat := zero_stat\<lparr>st_mode := P_FILE_ALL\<rparr>\<rparr>, [])], ts)"

definition tty_set_flags :: "file_request \<Rightarrow> u32 \<Rightarrow> tty_state \<Rightarrow> tty_out list \<times> tty_state" where
  "tty_set_flags req src ts = ([tty_respond src FILE_OK []], ts\<lparr>ts_flags := fq_offset req\<rparr>)"

text \<open>One request of the server's loop; a command it does not know stops the kernel.\<close>

definition tty_proc :: "u32 \<Rightarrow> fmsg \<Rightarrow> tty_state \<Rightarrow> (tty_out list \<times> tty_state) option" where
  "tty_proc src msg ts = (case msg of (req, data) \<Rightarrow>
     (case fq_type req of
        FILE_READ \<Rightarrow> Some (tty_read req src ts)
      | FILE_WRITE \<Rightarrow> Some (tty_write req src data ts)
      | FILE_STAT \<Rightarrow> Some (tty_do_stat src ts)
      | FILE_SET_FLAGS \<Rightarrow> Some (tty_set_flags req src ts)
      | _ \<Rightarrow> None))"

section \<open>Runs\<close>

datatype tty_event = Key "u8 list" | Request u32 fmsg

definition tty_step :: "tty_event \<Rightarrow> tty_state \<Rightarrow> (tty_out list \<times> tty_state) option" where
  "tty_step e ts = (case e of Key bs \<Rightarrow> Some (tty_deliver bs ts) | Request src msg \<Rightarrow> tty_proc src msg ts)"

fun tty_run :: "tty_event list \<Rightarrow> tty_state \<Rightarrow> (tty_out list \<times> tty_state) option" where
  "tty_run [] ts = Some ([], ts)"
| "tty_run (e # es) ts = do { (out, ts) \<leftarrow> tty_step e ts; (outs, ts) \<leftarrow> tty_run es ts; Some (out @ outs, ts) }"

section \<open>What is read is what was typed\<close>

text \<open>Line editing, independent of the server's queues: the finished lines, and the current one.\<close>

fun edit :: "u8 list \<Rightarrow> u8 list \<times> u8 list \<Rightarrow> u8 list \<times> u8 list" where
  "edit [] (fin, line) = (fin, line)"
| "edit (c # cs) (fin, line) = edit cs
     (if c = 3 \<or> c = 12 \<or> c = 17 then (fin, line)
      else if c = 4 then (fin @ line, [])
      else if c = 8 \<or> c = 0x7F then (fin, butlast line)
      else if c = 10 \<or> c = 13 then (fin @ line @ [10], [])
      else (fin, line @ [c]))"

definition typed :: "tty_event list \<Rightarrow> u8 list" where
  "typed es = concat (map (\<lambda>e. case e of Key bs \<Rightarrow> bs | Request src msg \<Rightarrow> []) es)"

text \<open>The read requests for the keyboard among the events, and the replies among the outputs.\<close>

definition reads :: "tty_event list \<Rightarrow> tty_request list" where
  "reads es = concat (map (\<lambda>e. case e of
       Request src (req, data) \<Rightarrow> if fq_type req = FILE_READ \<and> fq_ino req = 0 then [\<lparr>tr_src = src, tr_size = fq_size req\<rparr>] else []
     | Key bs \<Rightarrow> []) es)"

definition replies :: "tty_out list \<Rightarrow> (u32 \<times> freply) list" where
  "replies outs = concat (map (\<lambda>out. case out of Tty_reply dst rep \<Rightarrow> [(dst, rep)] | _ \<Rightarrow> []) outs)"

definition with_data :: "(u32 \<times> freply) list \<Rightarrow> (u32 \<times> freply) list" where
  "with_data rs = filter (\<lambda>(dst, rep). snd rep \<noteq> []) rs"

definition answer :: "tty_request \<times> u8 list \<Rightarrow> u32 \<times> freply" where
  "answer a = (tr_src (fst a), (zero_reply FILE_OK, snd a))"

lemma typed_simps [simp]:
  "typed [] = []" "typed (Key bs # es) = bs @ typed es" "typed (Request src msg # es) = typed es"
  by (simp_all add: typed_def)

lemma reads_simps [simp]: "reads [] = []" "reads (Key bs # es) = reads es"
  "reads (Request src msg # es) = reads [Request src msg] @ reads es"
  by (simp_all add: reads_def)

lemma replies_append [simp]: "replies (a @ b) = replies a @ replies b"
  by (simp add: replies_def)

lemma replies_simps [simp]: "replies [] = []" "replies (Tty_reply dst rep # outs) = (dst, rep) # replies outs"
  "replies (Tty_print bs # outs) = replies outs" "replies (Tty_write ino bs # outs) = replies outs"
  "replies (Tty_interrupt # outs) = replies outs" "replies (Tty_dump # outs) = replies outs"
  "replies (Tty_shut_down # outs) = replies outs"
  by (simp_all add: replies_def)

lemma with_data_append [simp]: "with_data (a @ b) = with_data a @ with_data b"
  by (simp add: with_data_def)

lemma with_data_Nil [simp]: "with_data [] = []"
  by (simp add: with_data_def)

lemma edit_prefix: "edit cs (p @ fin, line) = (p @ fst (edit cs (fin, line)), snd (edit cs (fin, line)))"
  by (induction cs arbitrary: fin line) simp_all

lemma edit_append: "edit (a @ b) s = edit b (edit a s)"
proof (induction a arbitrary: s)
  case (Cons c cs)
  show ?case by (cases s) (simp add: Cons.IH)
next
  case Nil
  show ?case by (cases s) simp
qed

lemma tty_char_edit:
  assumes "tty_char c ts = (out, ts')"
  shows "(concat (ts_inputs ts'), ts_buf ts') = edit [c] (concat (ts_inputs ts), ts_buf ts)
    \<and> ts_requests ts' = ts_requests ts \<and> replies out = []"
  using assms by (auto simp: tty_char_def Let_def split: if_splits)

lemma tty_chars_edit:
  "tty_chars cs ts = (out, ts') \<Longrightarrow> (concat (ts_inputs ts'), ts_buf ts') = edit cs (concat (ts_inputs ts), ts_buf ts)
    \<and> ts_requests ts' = ts_requests ts \<and> replies out = []"
proof (induction cs arbitrary: ts out)
  case (Cons c cs)
  obtain o1 t1 where c: "tty_char c ts = (o1, t1)" by (cases "tty_char c ts")
  obtain o2 where cs: "tty_chars cs t1 = (o2, ts')" and out: "out = o1 @ o2"
    using Cons.prems by (auto simp: c split: prod.splits)
  note h = tty_char_edit [OF c] and t = Cons.IH [OF cs]
  show ?case
    using h t edit_append [of "[c]" cs] by (simp del: edit.simps add: out)
qed simp

text \<open>What a part of a run does: the reads it answers, in the order of the queue, with what data.\<close>

definition served :: "tty_state \<Rightarrow> u8 list \<Rightarrow> tty_request list \<Rightarrow> tty_out list \<Rightarrow> tty_state \<Rightarrow> (tty_request \<times> u8 list) list \<Rightarrow> bool" where
  "served ts keys reqs outs ts' ans =
     (ts_requests ts @ reqs = map fst ans @ ts_requests ts'
    \<and> (concat (map snd ans) @ concat (ts_inputs ts'), ts_buf ts') = edit keys (concat (ts_inputs ts), ts_buf ts)
    \<and> (\<forall>(tr, data) \<in> set ans. length data \<le> unat (tr_size tr))
    \<and> with_data (replies outs) = with_data (map answer ans))"

lemma served_trans:
  assumes a: "served ts keys reqs outs ts1 ans" and b: "served ts1 keys' reqs' outs' ts' ans'"
  shows "served ts (keys @ keys') (reqs @ reqs') (outs @ outs') ts' (ans @ ans')"
proof -
  have keys: "edit (keys @ keys') (concat (ts_inputs ts), ts_buf ts)
    = (concat (map snd (ans @ ans')) @ concat (ts_inputs ts'), ts_buf ts')"
    using a b edit_prefix [of keys' "concat (map snd ans)" "concat (ts_inputs ts1)" "ts_buf ts1"]
    unfolding edit_append served_def by (metis append.assoc concat_append fst_conv map_append snd_conv)
  have "ts_requests ts @ reqs @ reqs' = map fst (ans @ ans') @ ts_requests ts'"
    using a b unfolding served_def by (metis append.assoc map_append)
  with a b keys show ?thesis unfolding served_def by auto
qed

lemma tty_answer_served:
  assumes "tty_answer ts = (out, ts')"
  shows "\<exists>ans. served ts [] [] out ts' ans"
proof (cases "ts_inputs ts = [] \<or> ts_requests ts = []")
  case True
  then have "served ts [] [] out ts' []"
    using assms by (auto simp: tty_answer_def served_def split: list.splits)
  then show ?thesis ..
next
  case False
  then obtain buf inputs tr requests where i: "ts_inputs ts = buf # inputs" and r: "ts_requests ts = tr # requests"
    by (meson list.exhaust)
  have "served ts [] [] out ts' [(tr, take (unat (tr_size tr)) buf)]"
    using assms
    by (auto simp: tty_answer_def served_def i r tty_handle_def Let_def answer_def min_def split: if_splits)
  then show ?thesis ..
qed

lemma tty_step_served:
  assumes "tty_step e ts = Some (out, ts')"
  shows "\<exists>ans. served ts (typed [e]) (reads [e]) out ts' ans"
proof (cases e)
  case (Key bs)
  obtain o1 t1 where c: "tty_chars bs ts = (o1, t1)" by (cases "tty_chars bs ts")
  obtain o2 where a: "tty_answer t1 = (o2, ts')" and out: "out = o1 @ o2"
    using assms by (auto simp: tty_step_def Key tty_deliver_def c split: prod.splits)
  have "served ts bs [] o1 t1 []" using tty_chars_edit [OF c] by (simp add: served_def)
  with tty_answer_served [OF a] served_trans [of ts bs "[]" o1 t1 "[]" "[]" "[]" o2 ts']
  show ?thesis by (auto simp: Key out)
next
  case (Request src msg)
  obtain req data where m: "msg = (req, data)" by (cases msg)
  show ?thesis
  proof (cases "fq_type req = FILE_READ \<and> fq_ino req = 0")
    case True
    let ?tr = "\<lparr>tr_src = src, tr_size = fq_size req\<rparr>"
    let ?t = "ts\<lparr>ts_requests := ts_requests ts @ [?tr]\<rparr>"
    have a: "tty_answer ?t = (out, ts')"
      using assms True by (simp add: tty_step_def Request m tty_proc_def tty_read_def)
    have "served ts [] [?tr] [] ?t []" by (simp add: served_def)
    with tty_answer_served [OF a] served_trans [of ts "[]" "[?tr]" "[]" ?t "[]" "[]" "[]" out ts'] True
    show ?thesis by (auto simp: Request m reads_def)
  next
    case False
    then have "served ts [] [] out ts' []"
      using assms
      by (auto simp: tty_step_def Request m tty_proc_def tty_read_def tty_write_def tty_do_stat_def
          tty_set_flags_def tty_respond_def served_def with_data_def split: file_op.splits if_splits)
    with False show ?thesis by (auto simp: Request m reads_def)
  qed
qed

lemma tty_run_served:
  "tty_run es ts = Some (outs, ts') \<Longrightarrow> \<exists>ans. served ts (typed es) (reads es) outs ts' ans"
proof (induction es arbitrary: ts outs)
  case Nil
  then have "served ts [] [] outs ts' []" by (simp add: served_def)
  then show ?case by auto
next
  case (Cons e es)
  obtain o1 t1 o2 where s: "tty_step e ts = Some (o1, t1)" and r: "tty_run es t1 = Some (o2, ts')" and out: "outs = o1 @ o2"
    using Cons.prems by (auto split: Option.bind_splits prod.splits)
  have t: "typed (e # es) = typed [e] @ typed es" "reads (e # es) = reads [e] @ reads es"
    by (simp_all add: typed_def reads_def)
  obtain a1 a2 where "served ts (typed [e]) (reads [e]) o1 t1 a1" "served t1 (typed es) (reads es) o2 ts' a2"
    using tty_step_served [OF s] Cons.IH [OF r] by auto
  from served_trans [OF this] show ?case unfolding t out ..
qed


text \<open>Two processes wait, then \<open>hi\<close> with an erased letter and two line ends arrive, then the first reads again.\<close>

definition tty_example :: "tty_event list" where
  "tty_example = [Request 7 ((zero_request FILE_READ 0)\<lparr>fq_size := 2\<rparr>, []),
     Request 8 ((zero_request FILE_READ 0)\<lparr>fq_size := 9\<rparr>, []),
     Key [104, 120, 8, 105, 13, 10],
     Request 7 ((zero_request FILE_READ 0)\<lparr>fq_size := 4\<rparr>, [])]"

lemma tty_example_run: "tty_run tty_example tty_init_state = Some
    ([Tty_print [8, 32, 8], Tty_print [13], Tty_print [13],
      Tty_reply 7 (zero_reply FILE_OK, [104, 105]), Tty_reply 8 (zero_reply FILE_OK, [10])],
     \<lparr>ts_buf = [], ts_requests = [\<lparr>tr_src = 7, tr_size = 4\<rparr>], ts_inputs = [[10]], ts_flags = 0\<rparr>)"
  by code_simp


text \<open>One delivery of keys answers one request however many lines it holds: in the run above two lines
  arrive while two processes wait, and at its end a request and a line are both still queued.\<close>

theorem tty_answers_once:
  "map_option (\<lambda>(outs, ts). (length (ts_requests ts), length (ts_inputs ts))) (tty_run tty_example tty_init_state) = Some (1, 1)"
  by (simp add: tty_example_run)

end
