(* ===== verification/CMemory.thy ===== *)
theory CMemory
  imports Bytes
begin

text \<open>
  The memory of a process: bytes by address, 32-bit words in it (little-endian), and the copying and
  filling of byte ranges. A pointer is its address, a null pointer is 0.
\<close>

type_synonym mem = "nat \<Rightarrow> u8"

definition mem_bytes :: "mem \<Rightarrow> nat \<Rightarrow> nat \<Rightarrow> u8 list" where
  "mem_bytes m a n = map (\<lambda>i. m (a + i)) [0..<n]"

definition put_bytes :: "mem \<Rightarrow> nat \<Rightarrow> u8 list \<Rightarrow> mem" where
  "put_bytes m a bs = (\<lambda>x. if a \<le> x \<and> x < a + length bs then bs ! (x - a) else m x)"

definition mem32 :: "mem \<Rightarrow> nat \<Rightarrow> u32" where
  "mem32 m a = bytes_word (mem_bytes m a 4)"

definition put32 :: "mem \<Rightarrow> nat \<Rightarrow> u32 \<Rightarrow> mem" where
  "put32 m a w = put_bytes m a (le32 w)"

lemma length_mem_bytes [simp]: "length (mem_bytes m a n) = n"
  by (simp add: mem_bytes_def)

lemma nth_mem_bytes [simp]: "i < n \<Longrightarrow> mem_bytes m a n ! i = m (a + i)"
  by (simp add: mem_bytes_def)

lemma mem_bytes_cong: "(\<And>i. i < n \<Longrightarrow> m (a + i) = m' (b + i)) \<Longrightarrow> mem_bytes m a n = mem_bytes m' b n"
  by (simp add: mem_bytes_def)

lemma mem_bytes_add: "mem_bytes m a (i + j) = mem_bytes m a i @ mem_bytes m (a + i) j"
  by (rule nth_equalityI) (auto simp: nth_append add.assoc)

lemma mem_bytes_cut: "mem_bytes m a n = xs @ ys @ zs \<Longrightarrow> mem_bytes m (a + length xs) (length ys) = ys"
proof -
  assume a: "mem_bytes m a n = xs @ ys @ zs"
  have "n = length xs + (length ys + length zs)" using arg_cong [OF a, of length] by simp
  with a show ?thesis by (simp add: mem_bytes_add add.assoc)
qed

lemma put_bytes_out: "x < a \<or> a + length bs \<le> x \<Longrightarrow> put_bytes m a bs x = m x"
  by (auto simp: put_bytes_def)

lemma put_bytes_in: "i < length bs \<Longrightarrow> put_bytes m a bs (a + i) = bs ! i"
  by (simp add: put_bytes_def)

lemma mem_put_bytes [simp]: "length bs = n \<Longrightarrow> mem_bytes (put_bytes m a bs) a n = bs"
  by (rule nth_equalityI) (simp_all add: put_bytes_in)

lemma mem_put_bytes_out: "b + n \<le> a \<or> a + length bs \<le> b \<Longrightarrow> mem_bytes (put_bytes m a bs) b n = mem_bytes m b n"
  by (rule mem_bytes_cong) (auto simp: put_bytes_out)

lemma put_mem_bytes: "put_bytes m a (mem_bytes m a n) = m"
  by (auto simp: put_bytes_def fun_eq_iff)

lemma put32_out: "x < a \<or> a + 4 \<le> x \<Longrightarrow> put32 m a w x = m x"
  by (simp add: put32_def put_bytes_out)

lemma mem32_put32 [simp]: "mem32 (put32 m a w) a = w"
  by (simp add: mem32_def put32_def le32_word_bytes bytes_word_bytes)

lemma mem32_put32_out: "b + 4 \<le> a \<or> a + 4 \<le> b \<Longrightarrow> mem32 (put32 m a w) b = mem32 m b"
  by (simp add: mem32_def put32_def mem_put_bytes_out)

lemma mem32_cong: "(\<And>i. i < 4 \<Longrightarrow> m (a + i) = m' (a + i)) \<Longrightarrow> mem32 m a = mem32 m' a"
  by (simp add: mem32_def mem_bytes_cong [of 4 m a m' a])

end
