(* ===== verification/Malloc.thy ===== *)
theory Malloc
  imports CMemory Tlb
begin

text \<open>
  The heap of a process (\<open>egos/lib/malloc.c\<close>): the allocator's headers and the blocks are bytes of one
  memory. The address of a header is a number; a header has 16 bytes.
\<close>

section \<open>Headers\<close>

abbreviation "HDR \<equiv> 16 :: nat"  \<comment> \<open>\<open>sizeof(struct m_hdr)\<close>\<close>

definition M_LAST :: u32 where "M_LAST = 0"
definition M_FREE :: u32 where "M_FREE = 1"
definition M_INUSE :: u32 where "M_INUSE = 2"

definition mh_size :: "mem \<Rightarrow> nat \<Rightarrow> u32" where "mh_size m a = mem32 m a"
definition mh_prev :: "mem \<Rightarrow> nat \<Rightarrow> u32" where "mh_prev m a = mem32 m (a + 4)"
definition mh_status :: "mem \<Rightarrow> nat \<Rightarrow> u32" where "mh_status m a = mem32 m (a + 8)"

definition set_mh_size :: "nat \<Rightarrow> u32 \<Rightarrow> mem \<Rightarrow> mem" where "set_mh_size a w m = put32 m a w"
definition set_mh_prev :: "nat \<Rightarrow> u32 \<Rightarrow> mem \<Rightarrow> mem" where "set_mh_prev a w m = put32 m (a + 4) w"
definition set_mh_status :: "nat \<Rightarrow> u32 \<Rightarrow> mem \<Rightarrow> mem" where "set_mh_status a w m = put32 m (a + 8) w"

definition next_hdr :: "mem \<Rightarrow> nat \<Rightarrow> nat" where
  "next_hdr m mh = mh + HDR + unat (mh_size m mh)"

definition prev_hdr :: "mem \<Rightarrow> nat \<Rightarrow> nat" where
  "prev_hdr m mh = mh - unat (mh_prev m mh) - HDR"

section \<open>Allocation\<close>

record heap =
  h_mem :: mem
  h_base :: nat
  h_initialized :: bool

text \<open>The first call; \<open>end\<close> is the address behind the program's data, \<open>end_get() + 1\<close>.\<close>

definition heap_setup :: "nat \<Rightarrow> heap \<Rightarrow> heap" where
  "heap_setup end_addr h =
     (let base = (end_addr + 15) div 16 * 16; next = base + PAGESIZE;
          m = set_mh_size base (of_nat PAGESIZE - 16) (h_mem h);
          m = set_mh_prev base 0 m;
          m = set_mh_status base M_FREE m;
          m = set_mh_size next 0 m;
          m = set_mh_prev next (of_nat PAGESIZE - 16) m;
          m = set_mh_status next M_LAST m
      in h\<lparr>h_mem := m, h_base := base, h_initialized := True\<rparr>)"

text \<open>The case \<open>M_LAST\<close>: the free block that the heap is extended by.\<close>

definition heap_extend :: "nat \<Rightarrow> nat \<Rightarrow> nat \<Rightarrow> mem \<Rightarrow> nat \<times> mem" where
  "heap_extend base n mh m =
     (let other = prev_hdr m mh;
          mh = (if mh \<noteq> base \<and> mh_status m other = M_FREE then other else mh);
          prev = (if mh = base then 0 else mh_size m (prev_hdr m mh));
          m = set_mh_size mh (of_nat n + of_nat PAGESIZE - 16) m;
          m = set_mh_prev mh prev m;
          m = set_mh_status mh M_FREE m;
          next = next_hdr m mh;
          m = set_mh_size next 0 m;
          m = set_mh_prev next (mh_size m mh) m;
          m = set_mh_status next M_LAST m
      in (mh, m))"

text \<open>The case \<open>M_FREE\<close>: take the block, or split it; \<open>None\<close> if it is too small.\<close>

definition heap_grab :: "nat \<Rightarrow> nat \<Rightarrow> mem \<Rightarrow> mem option" where
  "heap_grab n mh m =
     (if unat (mh_size m mh) = n then Some (set_mh_status mh M_INUSE m)
      else if unat (mh_size m mh) \<ge> n + HDR then
        (let next = next_hdr m mh; other = mh + HDR + n;
             m = set_mh_size other (mh_size m mh - of_nat n - 16) m;
             m = set_mh_prev other (of_nat n) m;
             m = set_mh_status other M_FREE m;
             m = set_mh_prev next (mh_size m other) m;
             m = set_mh_size mh (of_nat n) m
         in Some (set_mh_status mh M_INUSE m))
      else None)"

text \<open>The loop. \<open>None\<close> is a bad status, or a search that does not end.\<close>

partial_function (option) heap_search :: "nat \<Rightarrow> nat \<Rightarrow> nat \<Rightarrow> mem \<Rightarrow> (nat \<times> mem) option" where
  "heap_search base n mh m =
     (let (mh, m) = (if mh_status m mh = M_LAST then heap_extend base n mh m else (mh, m)) in
      if mh_status m mh = M_FREE then
        (case heap_grab n mh m of
           Some m \<Rightarrow> Some (mh + HDR, m)
         | None \<Rightarrow> heap_search base n (next_hdr m mh) m)
      else if mh_status m mh = M_INUSE then heap_search base n (next_hdr m mh) m
      else None)"

text \<open>A size that is not positive, or too large, stores to an invalid address.\<close>

definition m_alloc :: "nat \<Rightarrow> int \<Rightarrow> heap \<Rightarrow> (nat \<times> heap) option" where
  "m_alloc end_addr sz h =
     (if sz \<le> 0 \<or> sz > 10000000 then None
      else
        let h = (if h_initialized h then h else heap_setup end_addr h);
            n = (nat sz + 15) div 16 * 16
        in case heap_search (h_base h) n (h_base h) (h_mem h) of
             None \<Rightarrow> None
           | Some (p, m) \<Rightarrow> Some (p, h\<lparr>h_mem := m\<rparr>))"

section \<open>Release\<close>

definition m_free :: "nat \<Rightarrow> heap \<Rightarrow> heap" where
  "m_free ptr h =
     (if ptr = 0 then h
      else
        let mh = ptr - HDR; m = h_mem h;
            next = ptr + unat (mh_size m mh);
            (m, next) =
              (if mh_status m next = M_FREE then
                 (let other = next_hdr m next;
                      m = set_mh_size mh (mh_size m mh + (16 + mh_size m next)) m
                  in (set_mh_prev other (mh_size m mh) m, other))
               else (m, next))
        in if mh \<noteq> h_base h \<and> mh_status m (prev_hdr m mh) = M_FREE then
             (let other = prev_hdr m mh;
                  m = set_mh_size other (mh_size m other + (mh_size m mh + 16)) m
              in h\<lparr>h_mem := set_mh_prev next (mh_size m other) m\<rparr>)
           else h\<lparr>h_mem := set_mh_status mh M_FREE m\<rparr>)"

section \<open>Cleared and moved blocks\<close>

fun clear_loop :: "nat \<Rightarrow> nat \<Rightarrow> mem \<Rightarrow> mem" where
  "clear_loop q 0 m = m"
| "clear_loop q (Suc n) m = clear_loop (q + 1) n (m(q := 0))"

fun copy_loop :: "nat \<Rightarrow> nat \<Rightarrow> nat \<Rightarrow> mem \<Rightarrow> mem" where
  "copy_loop r q 0 m = m"
| "copy_loop r q (Suc n) m = copy_loop (r + 1) (q + 1) n (m(r := m q))"

text \<open>\<open>size *= nitems\<close> is undefined if it overflows.\<close>

definition m_calloc :: "nat \<Rightarrow> int \<Rightarrow> int \<Rightarrow> heap \<Rightarrow> (nat \<times> heap) option" where
  "m_calloc end_addr nitems sz h =
     (let sz = sz * nitems in
      if sz < - (2 ^ 31) \<or> 2 ^ 31 \<le> sz then None
      else case m_alloc end_addr sz h of
          None \<Rightarrow> None
        | Some (p, h) \<Rightarrow> Some (p, h\<lparr>h_mem := clear_loop p (nat sz) (h_mem h)\<rparr>))"

definition m_realloc :: "nat \<Rightarrow> nat \<Rightarrow> int \<Rightarrow> heap \<Rightarrow> (nat \<times> heap) option" where
  "m_realloc end_addr ptr sz h =
     (case m_alloc end_addr sz h of
        None \<Rightarrow> None
      | Some (p, h) \<Rightarrow>
          if ptr = 0 then Some (p, h)
          else
            (let old = unat (mh_size (h_mem h) (ptr - HDR)); n = (if nat sz > old then old else nat sz)
             in Some (p, m_free ptr (h\<lparr>h_mem := copy_loop p ptr n (h_mem h)\<rparr>))))"

end
