(* ===== verification/MallocInv.thy ===== *)
theory MallocInv
  imports Malloc
begin

text \<open>
  The headers of the heap describe a list of blocks: whether each is in use, and its size. What the
  operations do to that list, and that they leave the bytes of the blocks in use alone.
\<close>

section \<open>The list of blocks\<close>

type_synonym blocks = "(bool \<times> nat) list"

definition hdr_is :: "mem \<Rightarrow> nat \<Rightarrow> nat \<Rightarrow> bool \<Rightarrow> nat \<Rightarrow> bool" where
  "hdr_is m a p u n \<longleftrightarrow> unat (mh_size m a) = n \<and> unat (mh_prev m a) = p \<and>
     mh_status m a = (if u then M_INUSE else M_FREE) \<and> n mod 16 = 0"

definition last_is :: "mem \<Rightarrow> nat \<Rightarrow> nat \<Rightarrow> bool" where
  "last_is m a p \<longleftrightarrow> mh_size m a = 0 \<and> unat (mh_prev m a) = p \<and> mh_status m a = M_LAST"

fun blen :: "blocks \<Rightarrow> nat" where
  "blen [] = 0"
| "blen ((u, n) # bs) = HDR + n + blen bs"

fun lastsz :: "nat \<Rightarrow> blocks \<Rightarrow> nat" where
  "lastsz p [] = p"
| "lastsz p ((u, n) # bs) = lastsz n bs"

fun seg :: "mem \<Rightarrow> nat \<Rightarrow> nat \<Rightarrow> blocks \<Rightarrow> bool" where
  "seg m a p [] \<longleftrightarrow> True"
| "seg m a p ((u, n) # bs) \<longleftrightarrow> hdr_is m a p u n \<and> seg m (a + (HDR + n)) n bs"

definition chain :: "mem \<Rightarrow> nat \<Rightarrow> nat \<Rightarrow> blocks \<Rightarrow> bool" where
  "chain m a p bs \<longleftrightarrow> seg m a p bs \<and> last_is m (a + blen bs) (lastsz p bs)"

text \<open>The blocks in use: the address and the size of each.\<close>

fun live :: "nat \<Rightarrow> blocks \<Rightarrow> (nat \<times> nat) set" where
  "live a [] = {}"
| "live a ((u, n) # bs) = (if u then {(a + HDR, n)} else {}) \<union> live (a + (HDR + n)) bs"

lemma blen_append [simp]: "blen (xs @ ys) = blen xs + blen ys"
  by (induction xs rule: blen.induct) auto

lemma lastsz_append [simp]: "lastsz p (xs @ ys) = lastsz (lastsz p xs) ys"
  by (induction p xs rule: lastsz.induct) auto

lemma seg_append [simp]: "seg m a p (xs @ ys) \<longleftrightarrow> seg m a p xs \<and> seg m (a + blen xs) (lastsz p xs) ys"
  by (induction m a p xs rule: seg.induct) (auto simp: add.assoc)

lemma live_append [simp]: "live a (xs @ ys) = live a xs \<union> live (a + blen xs) ys"
  by (induction a xs rule: live.induct) (auto simp: add.assoc)

lemma heap_chain_append: "chain m a p (xs @ ys) \<longleftrightarrow> seg m a p xs \<and> chain m (a + blen xs) (lastsz p xs) ys"
  by (auto simp: chain_def add.assoc)

lemma chain_Cons: "chain m a p ((u, n) # bs) \<longleftrightarrow> hdr_is m a p u n \<and> chain m (a + (HDR + n)) n bs"
  by (auto simp: chain_def add.assoc)

lemma chain_Nil: "chain m a p [] \<longleftrightarrow> last_is m a p"
  by (simp add: chain_def)

lemma live_range: "(q, k) \<in> live a bs \<Longrightarrow> a + HDR \<le> q \<and> q + k \<le> a + blen bs"
  by (induction a bs rule: live.induct) (force split: if_splits)+

lemma live_disjoint:
  "(q, k) \<in> live a bs \<Longrightarrow> (q', k') \<in> live a bs \<Longrightarrow> (q, k) \<noteq> (q', k') \<Longrightarrow> q + k + HDR \<le> q' \<or> q' + k' + HDR \<le> q"
proof (induction a bs rule: live.induct)
  case (2 a u n bs)
  then show ?case using live_range [of q k "a + (HDR + n)" bs] live_range [of q' k' "a + (HDR + n)" bs]
    by (auto split: if_splits)
qed simp

lemma live_mod: "(q, k) \<in> live a bs \<Longrightarrow> seg m a p bs \<Longrightarrow> a mod 16 = 0 \<Longrightarrow> q mod 16 = 0 \<and> k mod 16 = 0"
proof (induction a bs arbitrary: p rule: live.induct)
  case (2 a u n bs)
  then have "n mod 16 = 0" by (simp add: hdr_is_def)
  with "2.prems"(3) have "(a + (HDR + n)) mod 16 = 0" by presburger
  with 2 \<open>n mod 16 = 0\<close> show ?case by (auto split: if_splits)
qed simp

lemma live_split:
  assumes "(q, k) \<in> live a bs"
  obtains xs ys where "bs = xs @ (True, k) # ys" "q = a + blen xs + HDR"
  using assms
proof (induction a bs arbitrary: thesis rule: live.induct)
  case (2 a u n bs)
  show ?case
  proof (cases "u \<and> (q, k) = (a + HDR, n)")
    case True
    then show ?thesis using "2.prems"(1) [of "[]" bs] by simp
  next
    case False
    with "2.prems"(2) have "(q, k) \<in> live (a + (HDR + n)) bs" by (auto split: if_splits)
    from "2.IH" [OF _ this] obtain xs ys where "bs = xs @ (True, k) # ys" "q = a + (HDR + n) + blen xs + HDR" by metis
    then show ?thesis using "2.prems"(1) [of "(u, n) # xs" ys] by simp
  qed
qed simp

section \<open>Frames\<close>

lemma fields_cong:
  assumes "\<And>x. a \<le> x \<Longrightarrow> x < a + 12 \<Longrightarrow> m' x = m x"
  shows "mh_size m' a = mh_size m a" "mh_prev m' a = mh_prev m a" "mh_status m' a = mh_status m a"
  using assms by (auto simp: mh_size_def mh_prev_def mh_status_def intro!: mem32_cong)

lemma seg_frame:
  "seg m a p bs \<Longrightarrow> (\<And>x. a \<le> x \<Longrightarrow> x < a + blen bs \<Longrightarrow> m' x = m x) \<Longrightarrow> seg m' a p bs"
proof (induction m a p bs rule: seg.induct)
  case (2 m a p u n bs)
  have "m' x = m x" if "a \<le> x" "x < a + 12" for x using "2.prems"(2) that by simp
  note f = fields_cong [where m = m and m' = m' and a = a, OF this]
  have "seg m' (a + (HDR + n)) n bs" using 2 by auto
  with "2.prems"(1) show ?case by (simp add: hdr_is_def f)
qed simp

lemma last_frame:
  assumes "last_is m a p" "\<And>x. a \<le> x \<Longrightarrow> x < a + 12 \<Longrightarrow> m' x = m x"
  shows "last_is m' a p"
  using assms(1) fields_cong [where m = m and m' = m' and a = a, OF assms(2)] by (simp add: last_is_def)

lemma chain_prev: "chain m a p bs \<Longrightarrow> unat (mh_prev m a) = p"
  by (cases bs) (auto simp: chain_def hdr_is_def last_is_def)

text \<open>The part of the heap behind a header that changes: only the size before it is different.\<close>

lemma heap_chain_frame:
  assumes ch: "chain m a p bs" and same: "\<And>x. a \<le> x \<Longrightarrow> x < a + 4 \<or> a + 8 \<le> x \<Longrightarrow> m' x = m x" and q: "unat (mh_prev m' a) = q"
  shows "chain m' a q bs"
proof -
  have sz: "mh_size m' a = mh_size m a" "mh_status m' a = mh_status m a"
    using same by (auto simp: mh_size_def mh_status_def intro!: mem32_cong)
  show ?thesis
  proof (cases bs)
    case Nil
    with ch sz q show ?thesis by (simp add: chain_def last_is_def)
  next
    case (Cons b cs)
    obtain u n where b: "b = (u, n)" by (cases b)
    from ch have h: "hdr_is m a p u n" "seg m (a + (HDR + n)) n cs" "last_is m (a + (HDR + n) + blen cs) (lastsz n cs)"
      by (simp_all add: Cons b chain_def add.assoc)
    have "seg m' (a + (HDR + n)) n cs" by (rule seg_frame [OF h(2)]) (simp add: same)
    moreover have "last_is m' (a + (HDR + n) + blen cs) (lastsz n cs)" by (rule last_frame [OF h(3)]) (simp add: same)
    moreover have "hdr_is m' a q u n" using h(1) sz q by (simp add: hdr_is_def)
    ultimately show ?thesis by (simp add: Cons b chain_def add.assoc)
  qed
qed

lemmas set_mh_defs = set_mh_size_def set_mh_prev_def set_mh_status_def
lemmas mh_defs = mh_size_def mh_prev_def mh_status_def

lemma mem32_put32_before: "b + 4 \<le> a \<Longrightarrow> mem32 (put32 m a w) b = mem32 m b"
  by (simp add: mem32_put32_out)

lemma mem32_put32_after: "a + 4 \<le> b \<Longrightarrow> mem32 (put32 m a w) b = mem32 m b"
  by (simp add: mem32_put32_out)

lemma put32_before: "x < a \<Longrightarrow> put32 m a w x = m x"
  by (simp add: put32_out)

lemma put32_after: "a + 4 \<le> x \<Longrightarrow> put32 m a w x = m x"
  by (simp add: put32_out)

lemmas mem_simps = set_mh_defs mh_defs mem32_put32_before mem32_put32_after put32_before put32_after

lemma status_distinct [simp]:
  "M_LAST \<noteq> M_FREE" "M_FREE \<noteq> M_LAST" "M_LAST \<noteq> M_INUSE" "M_INUSE \<noteq> M_LAST" "M_FREE \<noteq> M_INUSE" "M_INUSE \<noteq> M_FREE"
  by (simp_all add: M_LAST_def M_FREE_def M_INUSE_def)

section \<open>Taking a block\<close>

lemma unat32_sub: "n + 16 \<le> unat (w :: u32) \<Longrightarrow> unat (w - of_nat n - 16) = unat w - n - 16"
proof -
  assume a: "n + 16 \<le> unat w"
  then have n: "n < 4294967296" using unat32_less [of w] by simp
  then have un: "unat (of_nat n :: u32) = n" by (rule unat32_of_nat)
  then have "unat (w - of_nat n) = unat w - n" using a by (simp add: unat_sub word_le_nat_alt)
  moreover have "(16 :: u32) \<le> w - of_nat n" using a calculation by (simp add: word_le_nat_alt)
  ultimately show ?thesis by (simp add: unat_sub)
qed

lemma grab_chain:
  assumes ch: "chain m mh p ((False, k) # zs)" and n: "n mod 16 = 0" and fit: "k = n \<or> n + HDR \<le> k"
  shows "\<exists>m'. heap_grab n mh m = Some m' \<and> chain m' mh p ((True, n) # (if k = n then zs else (False, k - n - HDR) # zs)) \<and>
    (\<forall>x. x < mh \<or> mh + HDR + k + 8 \<le> x \<longrightarrow> m' x = m x)"
proof -
  have h: "unat (mh_size m mh) = k" "unat (mh_prev m mh) = p" "mh_status m mh = M_FREE" "k mod 16 = 0"
    and rest: "chain m (mh + (HDR + k)) k zs"
    using ch by (simp_all add: chain_Cons hdr_is_def)
  show ?thesis
  proof (cases "k = n")
    case True
    define m' where "m' = set_mh_status mh M_INUSE m"
    have "chain m' (mh + (HDR + k)) k zs"
      by (rule heap_chain_frame [OF rest]) (use chain_prev [OF rest] in \<open>simp_all add: m'_def mem_simps\<close>)
    moreover have "hdr_is m' mh p True k" using h by (simp add: m'_def hdr_is_def mem_simps)
    ultimately show ?thesis using True h(1) by (simp add: heap_grab_def m'_def chain_Cons mem_simps)
  next
    case False
    define other nxt where "other = mh + HDR + n" and "nxt = mh + HDR + k"
    define w where "w = mh_size m mh - of_nat n - 16"
    have le: "n + 16 \<le> k" using fit False by simp
    then have w: "unat w = k - n - 16" using h(1) by (simp add: w_def unat32_sub)
    have n32: "unat (of_nat n :: u32) = n" using le h(1) unat32_less [of "mh_size m mh"] by (intro unat32_of_nat) simp
    define m1 where "m1 = set_mh_status other M_FREE (set_mh_prev other (of_nat n) (set_mh_size other w m))"
    define m' where "m' = set_mh_status mh M_INUSE (set_mh_size mh (of_nat n) (set_mh_prev nxt w m1))"
    have pos: "mh + 16 \<le> other" "other + 16 \<le> nxt" using le by (simp_all add: other_def nxt_def)
    have wo: "mh_size m1 other = w" by (simp add: m1_def mem_simps)
    have run: "heap_grab n mh m = Some m'"
      using h(1) False le wo by (simp add: heap_grab_def Let_def next_hdr_def m'_def m1_def w_def other_def nxt_def)
    have "chain m' nxt (unat w) zs"
    proof (rule heap_chain_frame)
      show "chain m nxt k zs" using rest by (simp add: nxt_def add.assoc)
      show "m' x = m x" if "nxt \<le> x" "x < nxt + 4 \<or> nxt + 8 \<le> x" for x
        using that pos by (auto simp: m'_def m1_def mem_simps)
      show "unat (mh_prev m' nxt) = unat w" using pos by (simp add: m'_def m1_def mem_simps)
    qed
    moreover have "(k - n - 16) mod 16 = 0" using h(4) n by (simp add: mod_eq_0_iff_dvd)
    then have "hdr_is m' other n False (unat w)" using pos n32 w by (simp add: hdr_is_def m'_def m1_def mem_simps)
    moreover have "hdr_is m' mh p True n" using pos n32 n h(2) by (simp add: hdr_is_def m'_def m1_def mem_simps)
    moreover have "other + (16 + unat w) = nxt" using w le by (simp add: other_def nxt_def)
    moreover have "m' x = m x" if "x < mh \<or> nxt + 8 \<le> x" for x
      using that pos by (auto simp: m'_def m1_def mem_simps)
    ultimately show ?thesis using run False w by (auto simp: chain_Cons other_def nxt_def add.assoc)
  qed
qed

section \<open>Extending the heap\<close>

lemma prev_last:
  assumes "seg m base 0 (ys @ [(u, k)])" "unat (mh_prev m (base + blen (ys @ [(u, k)]))) = k"
  shows "prev_hdr m (base + blen (ys @ [(u, k)])) = base + blen ys"
    "mh_status m (base + blen ys) = (if u then M_INUSE else M_FREE)" "unat (mh_size m (base + blen ys)) = k"
  using assms by (simp_all add: prev_hdr_def hdr_is_def)

definition free_tail :: "blocks \<Rightarrow> blocks" where
  "free_tail xs = (if xs \<noteq> [] \<and> \<not> fst (last xs) then butlast xs else xs)"

lemma extend_start:
  assumes ch: "chain m base 0 xs"
  shows "(if base + blen xs \<noteq> base \<and> mh_status m (prev_hdr m (base + blen xs)) = M_FREE then prev_hdr m (base + blen xs) else base + blen xs) =
      base + blen (free_tail xs)"
    and "unat (mh_prev m (base + blen (free_tail xs))) = lastsz 0 (free_tail xs)" "seg m base 0 (free_tail xs)"
proof -
  have sg: "seg m base 0 xs" and pv: "unat (mh_prev m (base + blen xs)) = lastsz 0 xs"
    using ch by (simp_all add: chain_def last_is_def)
  have "(if base + blen xs \<noteq> base \<and> mh_status m (prev_hdr m (base + blen xs)) = M_FREE then prev_hdr m (base + blen xs) else base + blen xs) =
      base + blen (free_tail xs) \<and>
    unat (mh_prev m (base + blen (free_tail xs))) = lastsz 0 (free_tail xs) \<and> seg m base 0 (free_tail xs)"
  proof (cases xs rule: rev_cases)
    case Nil
    with sg pv show ?thesis by (simp add: free_tail_def)
  next
    case (snoc ys b)
    obtain u k where b: "b = (u, k)" by (cases b)
    have sg': "seg m base 0 (ys @ [(u, k)])" and pv': "unat (mh_prev m (base + blen (ys @ [(u, k)]))) = k"
      using sg pv by (simp_all add: snoc b)
    note pl = prev_last [OF sg' pv']
    have "seg m base 0 ys" "hdr_is m (base + blen ys) (lastsz 0 ys) u k" using sg' by simp_all
    then show ?thesis using pl sg' pv' by (cases u) (simp_all add: snoc b free_tail_def hdr_is_def)
  qed
  then show "(if base + blen xs \<noteq> base \<and> mh_status m (prev_hdr m (base + blen xs)) = M_FREE then prev_hdr m (base + blen xs) else base + blen xs) =
      base + blen (free_tail xs)"
    and "unat (mh_prev m (base + blen (free_tail xs))) = lastsz 0 (free_tail xs)" "seg m base 0 (free_tail xs)"
    by blast+
qed

lemma free_tail_prev:
  assumes "seg m base 0 xs" "unat (mh_prev m (base + blen xs)) = lastsz 0 xs"
  shows "unat (if base + blen xs = base then 0 else mh_size m (prev_hdr m (base + blen xs))) = lastsz 0 xs"
  using assms prev_last [of m base] by (cases xs rule: rev_cases) auto

lemma extend_chain:
  assumes ch: "chain m base 0 xs" and n: "n mod 16 = 0" "n \<le> 20000000"
  shows "\<exists>m'. heap_extend base n (base + blen xs) m = (base + blen (free_tail xs), m') \<and>
    chain m' base 0 (free_tail xs @ [(False, n + 4080)]) \<and> (\<forall>x < base + blen (free_tail xs). m' x = m x)"
proof -
  note st = extend_start [OF ch]
  define mh where "mh = base + blen (free_tail xs)"
  define p where "p = (if mh = base then 0 else mh_size m (prev_hdr m mh))"
  have p: "unat p = lastsz 0 (free_tail xs)" unfolding p_def mh_def by (rule free_tail_prev [OF st(3,2)])
  define w where "w = (of_nat n + of_nat PAGESIZE - 16 :: u32)"
  have w: "unat w = n + 4080"
  proof -
    have "w = of_nat (n + 4080)" by (simp add: w_def PAGESIZE_def)
    moreover have "unat (of_nat (n + 4080) :: u32) = n + 4080" by (rule unat32_of_nat) (use n(2) in simp)
    ultimately show ?thesis by simp
  qed
  define m1 where "m1 = set_mh_status mh M_FREE (set_mh_prev mh p (set_mh_size mh w m))"
  define nxt where "nxt = mh + HDR + (n + 4080)"
  define m' where "m' = set_mh_status nxt M_LAST (set_mh_prev nxt w (set_mh_size nxt 0 m1))"
  have pos: "mh + 16 \<le> nxt" by (simp add: nxt_def)
  have wm: "mh_size m1 mh = w" "mh_size (set_mh_size nxt 0 m1) mh = w" using pos by (simp_all add: m1_def mem_simps)
  then have nx: "next_hdr m1 mh = nxt" by (simp add: next_hdr_def nxt_def w)
  have run: "heap_extend base n (base + blen xs) m = (mh, m')"
    unfolding heap_extend_def Let_def st(1) mh_def [symmetric] p_def [symmetric] w_def [symmetric] m1_def [symmetric] nx
    by (simp add: wm m'_def)
  have out: "m' x = m x" if "x < mh" for x using that pos by (simp add: m'_def m1_def mem_simps)
  have "seg m' base 0 (free_tail xs)" by (rule seg_frame [OF st(3)]) (simp add: out mh_def)
  moreover have "hdr_is m' mh (lastsz 0 (free_tail xs)) False (n + 4080)"
  proof -
    have "(n + 4080) mod 16 = 0" using n(1) by presburger
    then show ?thesis using pos w p by (simp add: hdr_is_def m'_def m1_def mem_simps)
  qed
  moreover have "last_is m' nxt (n + 4080)" using w by (simp add: last_is_def m'_def mem_simps)
  ultimately have "chain m' base 0 (free_tail xs @ [(False, n + 4080)])"
    by (simp add: heap_chain_append chain_Cons chain_Nil mh_def nxt_def add.assoc)
  with run out show ?thesis by (auto simp: mh_def)
qed

section \<open>The search\<close>

definition fits :: "nat \<Rightarrow> bool \<times> nat \<Rightarrow> bool" where
  "fits n b \<longleftrightarrow> \<not> fst b \<and> (snd b = n \<or> n + HDR \<le> snd b)"

text \<open>First fit: the blocks before the new one, and those behind it.\<close>

definition place :: "nat \<Rightarrow> blocks \<Rightarrow> blocks \<times> blocks" where
  "place n bs = (let xs = takeWhile (\<lambda>b. \<not> fits n b) bs in
     case dropWhile (\<lambda>b. \<not> fits n b) bs of
       (_, k) # zs \<Rightarrow> (xs, if k = n then zs else (False, k - n - HDR) # zs)
     | [] \<Rightarrow> (free_tail xs, [(False, 4064)]))"

lemma grab_at:
  assumes ch: "chain m base 0 (xs @ (False, k) # zs)" and n: "n mod 16 = 0" and fit: "k = n \<or> n + HDR \<le> k"
  shows "\<exists>m'. heap_grab n (base + blen xs) m = Some m' \<and>
    chain m' base 0 (xs @ (True, n) # (if k = n then zs else (False, k - n - HDR) # zs)) \<and>
    (\<forall>x. x < base + blen xs \<or> base + blen xs + HDR + k + 8 \<le> x \<longrightarrow> m' x = m x)"
proof -
  from ch have c: "seg m base 0 xs" "chain m (base + blen xs) (lastsz 0 xs) ((False, k) # zs)" by (simp_all add: heap_chain_append)
  from grab_chain [OF c(2) n fit] obtain m' where m': "heap_grab n (base + blen xs) m = Some m'"
    "chain m' (base + blen xs) (lastsz 0 xs) ((True, n) # (if k = n then zs else (False, k - n - HDR) # zs))"
    "\<forall>x. x < base + blen xs \<or> base + blen xs + HDR + k + 8 \<le> x \<longrightarrow> m' x = m x" by blast
  have "seg m' base 0 xs" by (rule seg_frame [OF c(1)]) (simp add: m'(3))
  with m' show ?thesis by (simp add: heap_chain_append)
qed

lemma search_chain:
  assumes "chain m base 0 (xs @ ys)" "\<forall>b\<in>set xs. \<not> fits n b" "n mod 16 = 0" "n \<le> 20000000"
  shows "\<exists>m'. heap_search base n (base + blen xs) m = Some (base + blen (fst (place n (xs @ ys))) + HDR, m') \<and>
    chain m' base 0 (fst (place n (xs @ ys)) @ (True, n) # snd (place n (xs @ ys))) \<and>
    (\<forall>(q, k) \<in> live base (xs @ ys). \<forall>x. q \<le> x \<and> x < q + k \<longrightarrow> m' x = m x)"
  using assms(1,2)
proof (induction ys arbitrary: xs)
  case Nil
  have ch: "chain m base 0 xs" using Nil.prems(1) by simp
  from extend_chain [OF ch assms(3,4)] obtain m1 where m1: "heap_extend base n (base + blen xs) m = (base + blen (free_tail xs), m1)"
    "chain m1 base 0 (free_tail xs @ [(False, n + 4080)])" "\<forall>x < base + blen (free_tail xs). m1 x = m x" by blast
  have "n + 4080 = n \<or> n + HDR \<le> n + 4080" by simp
  from grab_at [OF m1(2) assms(3) this] obtain m' where m': "heap_grab n (base + blen (free_tail xs)) m1 = Some m'"
    "chain m' base 0 (free_tail xs @ (True, n) # [(False, 4064)])" "\<forall>x. x < base + blen (free_tail xs) \<longrightarrow> m' x = m1 x" by auto
  have st: "mh_status m (base + blen xs) = M_LAST" "mh_status m1 (base + blen (free_tail xs)) = M_FREE"
    using ch m1(2) by (simp_all add: chain_def last_is_def hdr_is_def)
  have "takeWhile (\<lambda>b. \<not> fits n b) xs = xs" "dropWhile (\<lambda>b. \<not> fits n b) xs = []" using Nil.prems(2) by simp_all
  then have pl: "place n (xs @ []) = (free_tail xs, [(False, 4064)])"
    by (simp only: place_def Let_def append_Nil2 list.case)
  have lv: "live base xs = live base (free_tail xs)"
    by (cases xs rule: rev_cases) (auto simp: free_tail_def)
  have "m' x = m x" if "(q, k) \<in> live base xs" "q \<le> x" "x < q + k" for q k x
    using live_range [of q k base "free_tail xs"] that m'(3) m1(3) lv by auto
  with m' m1 st pl show ?case by (subst heap_search.simps) auto
next
  case (Cons b ys)
  obtain u k where b: "b = (u, k)" by (cases b)
  have ch: "chain m base 0 (xs @ (u, k) # ys)" using Cons.prems(1) b by simp
  have h: "mh_status m (base + blen xs) = (if u then M_INUSE else M_FREE)" "unat (mh_size m (base + blen xs)) = k"
    using ch by (simp_all add: heap_chain_append chain_Cons hdr_is_def)
  show ?case
  proof (cases "fits n b")
    case True
    then have fit: "\<not> u" "k = n \<or> n + HDR \<le> k" by (simp_all add: fits_def b)
    with ch have ch': "chain m base 0 (xs @ (False, k) # ys)" by simp
    from grab_at [OF ch' assms(3) fit(2)] obtain m' where m': "heap_grab n (base + blen xs) m = Some m'"
      "chain m' base 0 (xs @ (True, n) # (if k = n then ys else (False, k - n - HDR) # ys))"
      "\<forall>x. x < base + blen xs \<or> base + blen xs + HDR + k + 8 \<le> x \<longrightarrow> m' x = m x" by blast
    have "takeWhile (\<lambda>b. \<not> fits n b) (xs @ b # ys) = xs" "dropWhile (\<lambda>b. \<not> fits n b) (xs @ b # ys) = b # ys"
      using Cons.prems(2) True by (simp_all add: takeWhile_append dropWhile_append)
    then have pl: "place n (xs @ b # ys) = (xs, if k = n then ys else (False, k - n - HDR) # ys)" by (simp add: place_def b)
    have "m' x = m x" if "(q, j) \<in> live base (xs @ b # ys)" "q \<le> x" "x < q + j" for q j x
    proof -
      have "(q, j) \<in> live base xs \<or> (q, j) \<in> live (base + blen xs + (HDR + k)) ys" using that(1) fit(1) by (simp add: b)
      then have "x < base + blen xs \<or> base + blen xs + HDR + k + 8 \<le> x"
        using live_range [of q j base xs] live_range [of q j "base + blen xs + (HDR + k)" ys] that(2,3) by auto
      then show ?thesis using m'(3) by blast
    qed
    with m' h fit pl show ?thesis by (subst heap_search.simps) auto
  next
    case False
    have "\<forall>b\<in>set (xs @ [b]). \<not> fits n b" using Cons.prems(2) False by auto
    with Cons.IH [of "xs @ [b]"] Cons.prems(1) have ih: "\<exists>m'. heap_search base n (base + blen (xs @ [b])) m =
        Some (base + blen (fst (place n (xs @ b # ys))) + HDR, m') \<and>
      chain m' base 0 (fst (place n (xs @ b # ys)) @ (True, n) # snd (place n (xs @ b # ys))) \<and>
      (\<forall>(q, k) \<in> live base (xs @ b # ys). \<forall>x. q \<le> x \<and> x < q + k \<longrightarrow> m' x = m x)" by simp
    have "heap_grab n (base + blen xs) m = None" if "\<not> u" using False that h(2) by (auto simp: fits_def b heap_grab_def)
    then have "heap_search base n (base + blen xs) m = heap_search base n (base + blen (xs @ [b])) m"
      using h by (subst heap_search.simps) (auto simp: next_hdr_def b add.assoc)
    with ih show ?thesis by simp
  qed
qed

section \<open>Release\<close>

definition merge_next :: "nat \<Rightarrow> blocks \<Rightarrow> nat \<times> blocks" where
  "merge_next k ys = (case ys of (False, j) # zs \<Rightarrow> (k + (HDR + j), zs) | _ \<Rightarrow> (k, ys))"

definition merge_prev :: "blocks \<Rightarrow> nat \<Rightarrow> nat" where
  "merge_prev xs k = (if free_tail xs = xs then k else snd (last xs) + (k + HDR))"

definition release :: "blocks \<Rightarrow> nat \<Rightarrow> blocks \<Rightarrow> blocks" where
  "release xs k ys = (case merge_next k ys of (k, zs) \<Rightarrow> free_tail xs @ (False, merge_prev xs k) # zs)"

lemma merge_next_len: "merge_next k ys = (k', zs) \<Longrightarrow> k' + blen zs = k + blen ys \<and> k \<le> k'"
  by (auto simp: merge_next_def split: list.splits prod.splits bool.splits)

lemma unat32_merge:
  "unat (a :: u32) + 16 + unat b < 4294967296 \<Longrightarrow> unat (a + (16 + b)) = unat a + (16 + unat b)"
  by (simp add: unat32_add)

lemma mod16_add: "a mod 16 = (0 :: nat) \<Longrightarrow> b mod 16 = 0 \<Longrightarrow> (a + (16 + b)) mod 16 = 0"
  by presburger

text \<open>Both merges set a size, and the size before the next header.\<close>

lemma merge_chain:
  assumes sg: "seg m base 0 xs" and h: "unat (mh_prev m (base + blen xs)) = lastsz 0 xs"
    "mh_status m (base + blen xs) = (if u then M_INUSE else M_FREE)" "unat w = k" "k mod 16 = 0"
    and ch: "chain m (base + blen xs + (HDR + k)) j zs"
    and m': "m' = set_mh_prev (base + blen xs + (HDR + k)) w (set_mh_size (base + blen xs) w m)"
  shows "chain m' base 0 (xs @ (u, k) # zs)"
    "\<And>x. x < base + blen xs \<or> base + blen xs + (HDR + k) + 8 \<le> x \<Longrightarrow> m' x = m x"
proof -
  define mh nxt where "mh = base + blen xs" and "nxt = base + blen xs + (HDR + k)"
  have pos: "mh + 16 \<le> nxt" by (simp add: mh_def nxt_def)
  have m2: "m' = set_mh_prev nxt w (set_mh_size mh w m)" by (simp add: m' mh_def nxt_def)
  show out: "m' x = m x" if "x < base + blen xs \<or> base + blen xs + (HDR + k) + 8 \<le> x" for x
    using that pos by (auto simp: m' mem_simps)
  have "seg m' base 0 xs" by (rule seg_frame [OF sg]) (simp add: out)
  moreover have "hdr_is m' mh (lastsz 0 xs) u k" using h pos by (simp add: hdr_is_def m2 mem_simps mh_def)
  moreover have "chain m' nxt k zs"
    by (rule heap_chain_frame [OF ch [folded nxt_def]]) (use pos h(3) in \<open>auto simp: m2 mem_simps\<close>)
  ultimately show "chain m' base 0 (xs @ (u, k) # zs)" by (simp add: heap_chain_append chain_Cons mh_def nxt_def)
qed

lemma free_chain:
  assumes ch: "chain (h_mem h) (h_base h) 0 (xs @ (True, k) # ys)" and len: "blen (xs @ (True, k) # ys) < 4294967296"
    and base: "0 < h_base h" and ptr: "ptr = h_base h + blen xs + HDR"
  shows "\<exists>m'. m_free ptr h = h\<lparr>h_mem := m'\<rparr> \<and> chain m' (h_base h) 0 (release xs k ys) \<and>
    (\<forall>(q, j) \<in> live (h_base h) xs \<union> live (ptr + k) ys. \<forall>x. q \<le> x \<and> x < q + j \<longrightarrow> m' x = h_mem h x)"
proof -
  define m base mh where "m = h_mem h" and "base = h_base h" and "mh = base + blen xs"
  obtain k1 zs where mn: "merge_next k ys = (k1, zs)" by (cases "merge_next k ys")
  note len1 = merge_next_len [OF mn]
  from ch have sg: "seg m base 0 xs" and h: "hdr_is m mh (lastsz 0 xs) True k" and rest: "chain m (mh + (HDR + k)) k ys"
    by (simp_all add: heap_chain_append chain_Cons m_def base_def mh_def)
  define nxt where "nxt = mh + (HDR + k1)"
  have "\<exists>m1. (if mh_status m (ptr + unat (mh_size m mh)) = M_FREE then
        (set_mh_prev (next_hdr m (ptr + unat (mh_size m mh))) (mh_size (set_mh_size mh (mh_size m mh + (16 + mh_size m (ptr + unat (mh_size m mh)))) m) mh)
           (set_mh_size mh (mh_size m mh + (16 + mh_size m (ptr + unat (mh_size m mh)))) m), next_hdr m (ptr + unat (mh_size m mh)))
        else (m, ptr + unat (mh_size m mh))) = (m1, nxt) \<and> chain m1 base 0 (xs @ (True, k1) # zs) \<and>
      (\<forall>x. x < mh \<or> nxt + 8 \<le> x \<longrightarrow> m1 x = m x)"
  proof (cases "\<exists>j vs. ys = (False, j) # vs")
    case True
    then obtain j vs where ys: "ys = (False, j) # vs" by blast
    then have e: "k1 = k + (HDR + j)" "zs = vs" using mn by (simp_all add: merge_next_def)
    have n: "hdr_is m (mh + (HDR + k)) k False j" and vs: "chain m (base + blen xs + (HDR + k1)) j vs"
      using rest by (simp_all add: ys chain_Cons e mh_def add.assoc)
    define w where "w = mh_size m mh + (16 + mh_size m (ptr + k))"
    have pk1: "ptr + k = mh + (HDR + k)" by (simp add: ptr mh_def base_def)
    have pk: "ptr + k = mh + (HDR + k)" "unat (mh_size m mh) = k" "unat (mh_size m (ptr + k)) = j"
      using n h by (simp_all add: pk1 hdr_is_def)
    have "unat w = k + (16 + j)" using unat32_merge [of "mh_size m mh" "mh_size m (ptr + k)"] len by (simp add: w_def pk(2,3) ys)
    then have w: "unat w = k1" by (simp add: e)
    have k16: "k1 mod 16 = 0" using h n by (simp add: hdr_is_def e mod16_add)
    note mc = merge_chain [where m = m and u = True and w = w, OF sg _ _ w k16 vs refl]
    have "next_hdr m (ptr + k) = nxt" unfolding next_hdr_def pk(3) by (simp add: nxt_def e pk(1))
    moreover have "mh_status m (ptr + k) = M_FREE" using n unfolding pk1 by (simp add: hdr_is_def)
    moreover have "mh_size (set_mh_size mh w m) mh = w" by (simp add: mem_simps)
    moreover note mc [folded mh_def, folded nxt_def] h
    ultimately show ?thesis using e(2) by (simp add: pk(2) w_def [symmetric] hdr_is_def)
  next
    case False
    then have e: "k1 = k" "zs = ys" using mn by (auto simp: merge_next_def split: list.splits prod.splits bool.splits)
    have "mh_status m (mh + (HDR + k)) \<noteq> M_FREE"
    proof (cases ys)
      case Nil
      then show ?thesis using rest by (simp add: chain_Nil last_is_def)
    next
      case (Cons b vs)
      with False obtain j where "b = (True, j)" by (cases b) (metis (full_types))
      with Cons rest show ?thesis by (simp add: chain_Cons hdr_is_def)
    qed
    moreover have "ptr + unat (mh_size m mh) = mh + (HDR + k)" using h by (simp add: hdr_is_def ptr mh_def base_def add_ac)
    moreover have "chain m base 0 (xs @ (True, k) # ys)" using ch by (simp add: m_def base_def)
    ultimately show ?thesis using e by (simp add: nxt_def)
  qed
  then obtain m1 where m1: "(if mh_status m (ptr + unat (mh_size m mh)) = M_FREE then
        (set_mh_prev (next_hdr m (ptr + unat (mh_size m mh))) (mh_size (set_mh_size mh (mh_size m mh + (16 + mh_size m (ptr + unat (mh_size m mh)))) m) mh)
           (set_mh_size mh (mh_size m mh + (16 + mh_size m (ptr + unat (mh_size m mh)))) m), next_hdr m (ptr + unat (mh_size m mh)))
        else (m, ptr + unat (mh_size m mh))) = (m1, nxt)" "chain m1 base 0 (xs @ (True, k1) # zs)"
      "\<forall>x. x < mh \<or> nxt + 8 \<le> x \<longrightarrow> m1 x = m x" by blast
  have p0: "ptr \<noteq> 0" "ptr - HDR = mh" by (simp_all add: ptr mh_def base_def)
  have run: "m_free ptr h = (if mh \<noteq> base \<and> mh_status m1 (prev_hdr m1 mh) = M_FREE then
      (let other = prev_hdr m1 mh; m2 = set_mh_size other (mh_size m1 other + (mh_size m1 mh + 16)) m1
       in h\<lparr>h_mem := set_mh_prev nxt (mh_size m2 other) m2\<rparr>) else h\<lparr>h_mem := set_mh_status mh M_FREE m1\<rparr>)"
    unfolding m_free_def Let_def p0(2) m_def [symmetric] base_def [symmetric] m1(1) if_not_P [OF p0(1)] by simp
  from m1(2) have sg1: "seg m1 base 0 xs" and h1: "hdr_is m1 mh (lastsz 0 xs) True k1" and rest1: "chain m1 nxt k1 zs"
    by (simp_all add: heap_chain_append chain_Cons mh_def nxt_def)
  have pv: "unat (mh_prev m1 (base + blen xs)) = lastsz 0 xs" using h1 by (simp add: hdr_is_def mh_def)
  have "\<exists>m'. m_free ptr h = h\<lparr>h_mem := m'\<rparr> \<and> chain m' base 0 (release xs k ys) \<and>
    (\<forall>x. x < base + blen (free_tail xs) \<or> nxt + 8 \<le> x \<longrightarrow> m' x = m1 x)"
  proof (cases "\<exists>vs j. xs = vs @ [(False, j)]")
    case True
    then obtain vs j where xs: "xs = vs @ [(False, j)]" by blast
    then have ft: "free_tail xs = vs" "free_tail xs \<noteq> xs" by (simp_all add: free_tail_def)
    have mp: "merge_prev xs k1 = j + (k1 + HDR)" using ft(2) by (simp add: merge_prev_def xs)
    have pv': "unat (mh_prev m1 (base + blen (vs @ [(False, j)]))) = j" using pv by (simp add: xs)
    note pl = prev_last [OF sg1 [unfolded xs] pv', folded xs, folded mh_def]
    define other w where "other = base + blen vs" and "w = mh_size m1 other + (mh_size m1 mh + 16)"
    have o: "prev_hdr m1 mh = other" "mh_status m1 other = M_FREE" "unat (mh_size m1 other) = j" "mh \<noteq> base"
      using pl by (simp_all add: other_def mh_def xs)
    have k1: "unat (mh_size m1 mh) = k1" using h1 by (simp add: hdr_is_def)
    have w': "w = mh_size m1 other + (16 + mh_size m1 mh)" by (simp add: w_def add.commute)
    have "unat w = j + (k1 + HDR)"
      using unat32_merge [of "mh_size m1 other" "mh_size m1 mh"] len len1 by (simp add: w' o(3) k1 xs)
    moreover have "(j + (k1 + HDR)) mod 16 = 0" using sg1 h1 mod16_add [of j k1] by (simp add: xs hdr_is_def add.commute [of k1])
    moreover have "seg m1 base 0 vs" "unat (mh_prev m1 (base + blen vs)) = lastsz 0 vs" using sg1 by (simp_all add: xs hdr_is_def)
    moreover have nx: "nxt = base + blen vs + (HDR + (j + (k1 + HDR)))" by (simp add: nxt_def mh_def xs)
    ultimately have "chain (set_mh_prev nxt w (set_mh_size other w m1)) base 0 (vs @ (False, j + (k1 + HDR)) # zs)"
      "\<forall>x. x < base + blen vs \<or> nxt + 8 \<le> x \<longrightarrow> set_mh_prev nxt w (set_mh_size other w m1) x = m1 x"
      using merge_chain [where m = m1 and u = False and w = w and k = "j + (k1 + HDR)" and xs = vs and base = base and zs = zs and j = k1,
        OF _ _ _ _ _ _ refl] o(2) rest1 by (simp_all add: other_def)
    moreover have "m_free ptr h = h\<lparr>h_mem := set_mh_prev nxt w (set_mh_size other w m1)\<rparr>"
      using run o by (simp add: Let_def w_def mem_simps)
    ultimately show ?thesis by (auto simp: release_def mn ft mp)
  next
    case False
    have ft: "free_tail xs = xs"
    proof (cases xs rule: rev_cases)
      case (snoc vs b)
      with False have "fst b" by (cases b) auto
      with snoc show ?thesis by (simp add: free_tail_def)
    qed (simp add: free_tail_def)
    have no: "\<not> (mh \<noteq> base \<and> mh_status m1 (prev_hdr m1 mh) = M_FREE)"
    proof (cases xs rule: rev_cases)
      case Nil
      then show ?thesis by (simp add: mh_def)
    next
      case (snoc vs b)
      with False obtain k2 where b: "b = (True, k2)" by (cases b) (metis (full_types))
      have "seg m1 base 0 (vs @ [(True, k2)])" "unat (mh_prev m1 (base + blen (vs @ [(True, k2)]))) = k2"
        using sg1 pv by (simp_all add: snoc b)
      note pl = prev_last [OF this]
      have "mh = base + blen (vs @ [(True, k2)])" by (simp add: mh_def snoc b)
      then show ?thesis using pl by simp
    qed
    define m' where "m' = set_mh_status mh M_FREE m1"
    have run': "m_free ptr h = h\<lparr>h_mem := m'\<rparr>" using run unfolding if_not_P [OF no] m'_def .
    have out: "m' x = m1 x" if "x < mh \<or> nxt \<le> x" for x using that by (auto simp: m'_def nxt_def mem_simps)
    have "seg m' base 0 xs" by (rule seg_frame [OF sg1]) (simp add: out mh_def)
    moreover have "hdr_is m' mh (lastsz 0 xs) False k1" using h1 by (simp add: hdr_is_def m'_def mem_simps)
    moreover have "chain m' nxt k1 zs"
    proof (rule heap_chain_frame [OF rest1])
      show "m' x = m1 x" if "nxt \<le> x" for x using out that by simp
      have "mh + 8 + 4 \<le> nxt + 4" by (simp add: nxt_def)
      then show "unat (mh_prev m' nxt) = k1" using chain_prev [OF rest1] by (simp add: m'_def mem_simps)
    qed
    ultimately have "chain m' base 0 (release xs k ys)"
      by (simp add: release_def mn ft merge_prev_def heap_chain_append chain_Cons mh_def nxt_def)
    moreover have "\<forall>x. x < base + blen (free_tail xs) \<or> nxt + 8 \<le> x \<longrightarrow> m' x = m1 x" using out by (auto simp: ft mh_def)
    ultimately show ?thesis using run' by blast
  qed
  then obtain m' where m': "m_free ptr h = h\<lparr>h_mem := m'\<rparr>" "chain m' base 0 (release xs k ys)"
    "\<forall>x. x < base + blen (free_tail xs) \<or> nxt + 8 \<le> x \<longrightarrow> m' x = m1 x" by blast
  have "m' x = m x" if "(q, j) \<in> live base xs \<union> live (ptr + k) ys" "q \<le> x" "x < q + j" for q j x
  proof -
    have "live base xs = live base (free_tail xs)" by (cases xs rule: rev_cases) (auto simp: free_tail_def)
    moreover have "live (ptr + k) ys = live nxt zs" using mn
      by (auto simp: merge_next_def nxt_def ptr mh_def base_def add_ac split: list.splits prod.splits bool.splits)
    ultimately have "x < base + blen (free_tail xs) \<or> nxt + 16 \<le> x"
      using that live_range [of q j base "free_tail xs"] live_range [of q j nxt zs] by auto
    moreover have "blen (free_tail xs) \<le> blen xs" by (cases xs rule: rev_cases) (auto simp: free_tail_def)
    ultimately show ?thesis using m'(3) m1(3) by (auto simp: mh_def)
  qed
  then show ?thesis using m'(1,2) unfolding m_def base_def by (intro exI [of _ m']) blast
qed

end
