(* ===== verification/MallocProps.thy ===== *)
theory MallocProps
  imports MallocInv
begin

text \<open>
  The allocator keeps a list of disjoint blocks: what the four functions of \<open>egos/lib/malloc.c\<close> do to it.
\<close>

section \<open>The heap\<close>

definition heap_ok :: "heap \<Rightarrow> blocks \<Rightarrow> bool" where
  "heap_ok h bs \<longleftrightarrow> (if h_initialized h then chain (h_mem h) (h_base h) 0 bs \<and> successively (\<lambda>a b. fst a \<or> fst b) bs \<and>
     h_base h mod 16 = 0 \<and> 0 < h_base h \<and> blen bs < 2 ^ 32 else bs = [])"

definition live_blocks :: "heap \<Rightarrow> blocks \<Rightarrow> (nat \<times> nat) set" where
  "live_blocks h bs = live (h_base h) bs"

lemma setup_ok:
  assumes "0 < e"
  shows "heap_ok (heap_setup e h) [(False, 4080)]" "h_initialized (heap_setup e h)"
proof -
  define base where "base = (e + 15) div 16 * 16"
  have b: "0 < base" "base mod 16 = 0" using assms by (simp_all add: base_def)
  have "unat (of_nat PAGESIZE - 16 :: u32) = 4080" by (simp add: PAGESIZE_def)
  moreover have "base + HDR \<le> base + PAGESIZE" by (simp add: PAGESIZE_def)
  ultimately have "chain (h_mem (heap_setup e h)) base 0 [(False, 4080)]"
    by (simp add: chain_Cons chain_Nil hdr_is_def last_is_def heap_setup_def base_def [symmetric] Let_def mem_simps PAGESIZE_def add.assoc)
  with b show "heap_ok (heap_setup e h) [(False, 4080)]"
    by (simp add: heap_ok_def heap_setup_def base_def [symmetric] Let_def)
  show "h_initialized (heap_setup e h)" by (simp add: heap_setup_def Let_def)
qed

section \<open>Placing a block\<close>

lemma place_cases:
  assumes "place n bs = (xs, rest)"
  obtains (fit) k zs where "bs = xs @ (False, k) # zs" "k = n \<and> rest = zs \<or> n + HDR \<le> k \<and> rest = (False, k - n - HDR) # zs"
  | (grow) "xs = free_tail bs" "rest = [(False, 4064)]" "\<forall>b\<in>set bs. \<not> fits n b"
proof (cases "dropWhile (\<lambda>b. \<not> fits n b) bs")
  case Nil
  then have no: "\<forall>b\<in>set bs. \<not> fits n b" by simp
  then have "takeWhile (\<lambda>b. \<not> fits n b) bs = bs" by simp
  with Nil assms have "xs = free_tail bs" "rest = [(False, 4064)]" by (simp_all only: place_def Let_def list.case prod.inject)
  with no show ?thesis by (rule grow [rotated 2])
next
  case (Cons b zs)
  obtain u k where b: "b = (u, k)" by (cases b)
  have "fits n b" using Cons by (metis dropWhile_eq_Cons_conv)
  then have f: "\<not> u" "k = n \<or> n + HDR \<le> k" by (simp_all add: fits_def b)
  have "bs = takeWhile (\<lambda>b. \<not> fits n b) bs @ b # zs" by (metis Cons takeWhile_dropWhile_id)
  moreover have "xs = takeWhile (\<lambda>b. \<not> fits n b) bs" "rest = (if k = n then zs else (False, k - n - HDR) # zs)"
    using assms Cons by (simp_all only: place_def Let_def list.case prod.case prod.inject b)
  ultimately show ?thesis using f b by (intro fit [of k zs]) auto
qed

lemma free_tail_ok:
  assumes "successively (\<lambda>a b. fst a \<or> fst b) bs"
  shows "successively (\<lambda>a b. fst a \<or> fst b) (free_tail bs)" "free_tail bs \<noteq> [] \<Longrightarrow> fst (last (free_tail bs))"
    "live a (free_tail bs) = live a bs" "blen (free_tail bs) \<le> blen bs"
  using assms by (cases bs rule: rev_cases; auto simp: free_tail_def successively_append_iff)+

lemma place_live:
  assumes "place n bs = (xs, rest)"
  shows "live a (xs @ (True, n) # rest) = insert (a + blen xs + HDR, n) (live a bs)"
  using assms
proof (cases rule: place_cases)
  case (fit k zs)
  then show ?thesis by (auto simp: algebra_simps)
next
  case grow
  have "live a (free_tail bs) = live a bs" by (cases bs rule: rev_cases) (auto simp: free_tail_def)
  with grow show ?thesis by simp
qed

lemma place_ok:
  assumes "place n bs = (xs, rest)" "successively (\<lambda>a b. fst a \<or> fst b) bs"
  shows "successively (\<lambda>a b. fst a \<or> fst b) (xs @ (True, n) # rest)" "blen (xs @ (True, n) # rest) \<le> blen bs + n + PAGESIZE"
    "b \<in> set bs \<Longrightarrow> fits n b \<Longrightarrow> blen (xs @ (True, n) # rest) = blen bs"
proof -
  have "successively (\<lambda>a b. fst a \<or> fst b) (xs @ (True, n) # rest) \<and> blen (xs @ (True, n) # rest) \<le> blen bs + n + PAGESIZE \<and>
    (b \<in> set bs \<and> fits n b \<longrightarrow> blen (xs @ (True, n) # rest) = blen bs)"
    using assms(1)
  proof (cases rule: place_cases)
    case (fit k zs)
    with assms(2) show ?thesis by (cases zs) (auto simp: successively_append_iff successively_Cons)
  next
    case grow
    with free_tail_ok [OF assms(2)] show ?thesis by (auto simp: successively_append_iff PAGESIZE_def)
  qed
  then show "successively (\<lambda>a b. fst a \<or> fst b) (xs @ (True, n) # rest)" "blen (xs @ (True, n) # rest) \<le> blen bs + n + PAGESIZE"
    "b \<in> set bs \<Longrightarrow> fits n b \<Longrightarrow> blen (xs @ (True, n) # rest) = blen bs" by blast+
qed

section \<open>Allocation\<close>

definition round16 :: "int \<Rightarrow> nat" where
  "round16 sz = (nat sz + 15) div 16 * 16"

lemma round16: "round16 sz mod 16 = 0" "nat sz \<le> round16 sz" "round16 sz < nat sz + 16"
  by (simp_all add: round16_def)

lemma alloc_ok:
  assumes h: "heap_ok h bs" and sz: "0 < sz" "sz \<le> 10000000" and e: "0 < e" and room: "blen bs + nat sz + 3 * PAGESIZE < 2 ^ 32"
  shows "\<exists>p h' bs'. m_alloc e sz h = Some (p, h') \<and> heap_ok h' bs' \<and> h_initialized h' \<and> HDR \<le> p \<and>
    live_blocks h' bs' = insert (p, round16 sz) (live_blocks h bs) \<and> (p, round16 sz) \<notin> live_blocks h bs \<and>
    blen bs' \<le> max (blen bs) PAGESIZE + round16 sz + PAGESIZE \<and> (\<forall>b\<in>set bs. fits (round16 sz) b \<longrightarrow> blen bs' = blen bs) \<and>
    (\<forall>(q, k) \<in> live_blocks h bs. \<forall>x. q \<le> x \<and> x < q + k \<longrightarrow> h_mem h' x = h_mem h x)"
proof -
  define g where "g = (if h_initialized h then h else heap_setup e h)"
  define cs where "cs = (if h_initialized h then bs else [(False, 4080)])"
  have init: "h_initialized g" using setup_ok(2) [OF e] by (simp add: g_def)
  have ok: "heap_ok g cs" using h setup_ok(1) [OF e] by (simp add: g_def cs_def)
  then have g: "chain (h_mem g) (h_base g) 0 cs" "successively (\<lambda>a b. fst a \<or> fst b) cs" "h_base g mod 16 = 0" "0 < h_base g"
    using init by (simp_all add: heap_ok_def)
  define n where "n = round16 sz"
  have n: "n mod 16 = 0" "n \<le> 20000000" using round16 [of sz] sz by (simp_all add: n_def)
  obtain xs rest where pl: "place n cs = (xs, rest)" by (cases "place n cs")
  from search_chain [where xs = "[]" and ys = cs, OF _ _ n, of "h_mem g" "h_base g"] g(1) obtain m' where
    m': "heap_search (h_base g) n (h_base g) (h_mem g) = Some (h_base g + blen xs + HDR, m')"
      "chain m' (h_base g) 0 (xs @ (True, n) # rest)"
      "\<forall>(q, k) \<in> live (h_base g) cs. \<forall>x. q \<le> x \<and> x < q + k \<longrightarrow> m' x = h_mem g x" by (auto simp: pl)
  define p where "p = h_base g + blen xs + HDR"
  define h' where "h' = g\<lparr>h_mem := m'\<rparr>"
  have run: "m_alloc e sz h = Some (p, h')"
    using sz m'(1) by (simp add: m_alloc_def g_def [symmetric] round16_def [symmetric] n_def [symmetric] p_def h'_def Let_def)
  have lv: "live_blocks h bs = live (h_base g) cs" using h by (auto simp: live_blocks_def g_def cs_def heap_ok_def)
  have len: "blen cs \<le> max (blen bs) PAGESIZE" using h by (auto simp: cs_def heap_ok_def PAGESIZE_def)
  have bound: "blen (xs @ (True, n) # rest) \<le> max (blen bs) PAGESIZE + n + PAGESIZE" using place_ok(2) [OF pl g(2)] len by simp
  then have "blen (xs @ (True, n) # rest) < 2 ^ 32" using room round16(3) [of sz] by (auto simp: n_def PAGESIZE_def)
  then have ok': "heap_ok h' (xs @ (True, n) # rest)"
    using m'(2) g init place_ok(1) [OF pl g(2)] by (simp add: heap_ok_def h'_def)
  have lv': "live_blocks h' (xs @ (True, n) # rest) = insert (p, n) (live_blocks h bs)"
  proof -
    have "live_blocks h' (xs @ (True, n) # rest) = live (h_base g) (xs @ (True, n) # rest)" by (simp add: live_blocks_def h'_def del: live_append)
    then show ?thesis unfolding place_live [OF pl] lv p_def .
  qed
  have new: "(p, n) \<notin> live_blocks h bs"
    using pl
  proof (cases rule: place_cases)
    case (fit k zs)
    then show ?thesis using live_range [of p n "h_base g" xs] live_range [of p n "h_base g + blen xs + (HDR + k)" zs]
      by (auto simp: lv p_def algebra_simps)
  next
    case grow
    then show ?thesis using live_range [of p n "h_base g" xs] free_tail_ok(3) [OF g(2), of "h_base g"] by (auto simp: lv p_def)
  qed
  have same: "\<forall>(q, k) \<in> live_blocks h bs. \<forall>x. q \<le> x \<and> x < q + k \<longrightarrow> h_mem h' x = h_mem h x"
  proof (cases "h_initialized h")
    case True
    then show ?thesis using m'(3) by (simp add: lv h'_def g_def)
  next
    case False
    with h have "live_blocks h bs = {}" by (simp add: heap_ok_def live_blocks_def)
    then show ?thesis by simp
  qed
  have reuse: "\<forall>b\<in>set bs. fits n b \<longrightarrow> blen (xs @ (True, n) # rest) = blen bs"
    using place_ok(3) [OF pl g(2)] h by (auto simp: cs_def heap_ok_def split: if_splits)
  have "HDR \<le> p" "h_initialized h'" using init by (simp_all add: p_def h'_def)
  with run ok' lv' new bound same reuse show ?thesis unfolding n_def [symmetric] by (intro exI conjI) assumption+
qed

section \<open>Release\<close>

lemma release_live:
  "live a (release xs k ys) = live a xs \<union> live (a + blen xs + (HDR + k)) ys"
proof -
  obtain k1 zs where mn: "merge_next k ys = (k1, zs)" by (cases "merge_next k ys")
  then have 1: "live (a + blen xs + (HDR + k1)) zs = live (a + blen xs + (HDR + k)) ys"
    by (auto simp: merge_next_def add.assoc split: list.splits prod.splits bool.splits)
  have "live a (free_tail xs) = live a xs" by (cases xs rule: rev_cases) (auto simp: free_tail_def)
  moreover have e: "a + blen (free_tail xs) + (HDR + merge_prev xs k1) = a + blen xs + (HDR + k1)"
    by (cases xs rule: rev_cases) (auto simp: free_tail_def merge_prev_def)
  ultimately show ?thesis unfolding release_def mn prod.case live_append live.simps e 1 by simp
qed

lemma release_ok:
  assumes "successively (\<lambda>a b. fst a \<or> fst b) (xs @ (True, k) # ys)"
  shows "successively (\<lambda>a b. fst a \<or> fst b) (release xs k ys)" "blen (release xs k ys) = blen (xs @ (True, k) # ys)"
proof -
  obtain k1 zs where mn: "merge_next k ys = (k1, zs)" by (cases "merge_next k ys")
  have x: "successively (\<lambda>a b. fst a \<or> fst b) xs" and y: "successively (\<lambda>a b. fst a \<or> fst b) ys"
    using assms by (auto simp: successively_append_iff successively_Cons)
  have z: "successively (\<lambda>a b. fst a \<or> fst b) zs \<and> (zs \<noteq> [] \<longrightarrow> fst (hd zs))"
    using mn y by (auto simp: merge_next_def successively_Cons split: list.splits prod.splits bool.splits)
  from free_tail_ok(1,2) [OF x] z show "successively (\<lambda>a b. fst a \<or> fst b) (release xs k ys)"
    by (auto simp: release_def mn successively_append_iff successively_Cons)
  have "blen (free_tail xs) + (HDR + merge_prev xs k1) = blen xs + (HDR + k1)"
    by (cases xs rule: rev_cases) (auto simp: free_tail_def merge_prev_def)
  with merge_next_len [OF mn] show "blen (release xs k ys) = blen (xs @ (True, k) # ys)"
    by (simp add: release_def mn)
qed

lemma free_ok:
  assumes h: "heap_ok h bs" "h_initialized h" and p: "(p, k) \<in> live_blocks h bs"
  shows "\<exists>bs'. heap_ok (m_free p h) bs' \<and> live_blocks (m_free p h) bs' = live_blocks h bs - {(p, k)} \<and> blen bs' = blen bs \<and>
    h_initialized (m_free p h) \<and>
    (\<forall>(q, j) \<in> live_blocks h bs - {(p, k)}. \<forall>x. q \<le> x \<and> x < q + j \<longrightarrow> h_mem (m_free p h) x = h_mem h x)"
proof -
  from p obtain xs ys where bs: "bs = xs @ (True, k) # ys" and pq: "p = h_base h + blen xs + HDR"
    unfolding live_blocks_def by (rule live_split)
  have ok: "chain (h_mem h) (h_base h) 0 (xs @ (True, k) # ys)" "blen (xs @ (True, k) # ys) < 4294967296" "0 < h_base h"
    "successively (\<lambda>a b. fst a \<or> fst b) (xs @ (True, k) # ys)" "h_base h mod 16 = 0"
    using h by (simp_all add: heap_ok_def bs)
  from free_chain [OF ok(1-3) pq] obtain m' where m': "m_free p h = h\<lparr>h_mem := m'\<rparr>" "chain m' (h_base h) 0 (release xs k ys)"
    "\<forall>(q, j) \<in> live (h_base h) xs \<union> live (p + k) ys. \<forall>x. q \<le> x \<and> x < q + j \<longrightarrow> m' x = h_mem h x" by blast
  have ok': "heap_ok (m_free p h) (release xs k ys)" "blen (release xs k ys) = blen bs"
    using m'(1,2) release_ok [OF ok(4)] ok h(2) by (simp_all add: heap_ok_def bs)
  have pk: "p + k = h_base h + blen xs + (HDR + k)" by (simp add: pq)
  have "(p, k) \<notin> live (h_base h) xs \<union> live (p + k) ys"
    using live_range [of p k "h_base h" xs] live_range [of p k "p + k" ys] by (auto simp: pq)
  moreover have "live_blocks h bs = insert (p, k) (live (h_base h) xs \<union> live (p + k) ys)"
    by (auto simp: live_blocks_def bs pq add.assoc)
  ultimately have lv: "live_blocks h bs - {(p, k)} = live (h_base h) xs \<union> live (p + k) ys" by blast
  have "live_blocks (m_free p h) (release xs k ys) = live (h_base h) xs \<union> live (p + k) ys"
    using release_live [of "h_base h" xs k ys] m'(1) by (simp add: live_blocks_def pk)
  with ok' lv m'(1,3) h(2) show ?thesis by (intro exI [of _ "release xs k ys"]) simp
qed

section \<open>Writing to a block\<close>

lemma poke_chain:
  assumes ch: "chain m a pv bs" and p: "(p, k) \<in> live a bs" and same: "\<And>x. x < p \<or> p + k \<le> x \<Longrightarrow> m' x = m x"
  shows "chain m' a pv bs"
proof -
  from p obtain xs ys where bs: "bs = xs @ (True, k) # ys" and pq: "p = a + blen xs + HDR" by (rule live_split)
  from ch have c: "seg m a pv xs" "hdr_is m (a + blen xs) (lastsz pv xs) True k" "chain m (p + k) k ys"
    by (simp_all add: bs heap_chain_append chain_Cons pq add.assoc)
  have "seg m' a pv xs" by (rule seg_frame [OF c(1)]) (simp add: same pq)
  moreover have "m' x = m x" if "a + blen xs \<le> x" "x < a + blen xs + 12" for x using that by (intro same) (simp add: pq)
  from fields_cong [where m = m and m' = m' and a = "a + blen xs", OF this] c(2) have "hdr_is m' (a + blen xs) (lastsz pv xs) True k"
    by (simp add: hdr_is_def)
  moreover have "chain m' (p + k) k ys"
  proof (rule heap_chain_frame [OF c(3)])
    show "m' x = m x" if "p + k \<le> x" for x using that by (simp add: same)
    have "m' x = m x" if "p + k \<le> x" "x < p + k + 12" for x using that by (simp add: same)
    from fields_cong(2) [where m = m and m' = m' and a = "p + k", OF this] chain_prev [OF c(3)] show "unat (mh_prev m' (p + k)) = k" by simp
  qed
  ultimately show ?thesis by (simp add: bs heap_chain_append chain_Cons pq add.assoc)
qed

lemma poke_ok:
  assumes "heap_ok h bs" "h_initialized h" "(p, k) \<in> live_blocks h bs" "\<And>x. x < p \<or> p + k \<le> x \<Longrightarrow> m' x = h_mem h x"
  shows "heap_ok (h\<lparr>h_mem := m'\<rparr>) bs" "live_blocks (h\<lparr>h_mem := m'\<rparr>) bs = live_blocks h bs"
  using assms poke_chain [of "h_mem h" "h_base h" 0 bs p k m'] by (simp_all add: heap_ok_def live_blocks_def)

lemma live_blocks_disjoint:
  assumes "(q, k) \<in> live_blocks h bs" "(q', k') \<in> live_blocks h bs" "(q, k) \<noteq> (q', k')"
  shows "q + k \<le> q' \<or> q' + k' \<le> q"
  using live_disjoint [of q k "h_base h" bs q' k'] assms unfolding live_blocks_def by linarith

lemma live_blocks_16:
  assumes "heap_ok h bs" "h_initialized h" "(q, k) \<in> live_blocks h bs"
  shows "q mod 16 = 0" "k mod 16 = 0" "HDR \<le> q"
  using assms live_mod [of q k "h_base h" bs "h_mem h" 0] live_range [of q k "h_base h" bs]
  by (auto simp: heap_ok_def chain_def live_blocks_def)

lemma live_size:
  assumes "heap_ok h bs" "h_initialized h" "(p, k) \<in> live_blocks h bs"
  shows "unat (mh_size (h_mem h) (p - HDR)) = k"
proof -
  from assms(3) obtain xs ys where bs: "bs = xs @ (True, k) # ys" and pq: "p = h_base h + blen xs + HDR"
    unfolding live_blocks_def by (rule live_split)
  with assms(1,2) show ?thesis by (simp add: heap_ok_def heap_chain_append chain_Cons hdr_is_def)
qed

lemma clear_loop: "clear_loop q n m x = (if q \<le> x \<and> x < q + n then 0 else m x)"
  by (induction n arbitrary: q m) auto

lemma copy_loop:
  "r + n \<le> q \<or> q + n \<le> r \<Longrightarrow> copy_loop r q n m x = (if r \<le> x \<and> x < r + n then m (q + (x - r)) else m x)"
proof (induction n arbitrary: r q m)
  case (Suc n)
  define m1 where "m1 = m(r := m q)"
  have "Suc r + n \<le> Suc q \<or> Suc q + n \<le> Suc r" using Suc.prems by auto
  note ih = Suc.IH [OF this, of m1]
  have step: "copy_loop r q (Suc n) m x = copy_loop (Suc r) (Suc q) n m1 x" by (simp add: m1_def)
  show ?case
  proof (cases "r < x \<and> x < r + Suc n")
    case True
    then have "Suc q + (x - Suc r) = q + (x - r)" "q + (x - r) \<noteq> r" using Suc.prems by auto
    with True show ?thesis unfolding step ih by (auto simp: m1_def)
  next
    case False
    then show ?thesis unfolding step ih by (auto simp: m1_def)
  qed
qed auto

lemma move_ok:
  assumes g: "heap_ok g cs" "h_initialized g" and new: "(p, n) \<in> live_blocks g cs" and old: "(q, k) \<in> live_blocks g cs"
    and ne: "(q, k) \<noteq> (p, n)" and i: "i \<le> k" "i \<le> n" and g': "g' = m_free q (g\<lparr>h_mem := copy_loop p q i (h_mem g)\<rparr>)"
  shows "\<exists>bs'. heap_ok g' bs' \<and> live_blocks g' bs' = live_blocks g cs - {(q, k)} \<and> (\<forall>x<i. h_mem g' (p + x) = h_mem g (q + x)) \<and>
    (\<forall>r j x. (r, j) \<in> live_blocks g cs - {(q, k), (p, n)} \<longrightarrow> r \<le> x \<longrightarrow> x < r + j \<longrightarrow> h_mem g' x = h_mem g x)"
proof -
  have dis: "q + k \<le> p \<or> p + n \<le> q" by (rule live_blocks_disjoint [OF old new ne])
  define m where "m = copy_loop p q i (h_mem g)"
  have cp: "m x = (if p \<le> x \<and> x < p + i then h_mem g (q + (x - p)) else h_mem g x)" for x
    unfolding m_def by (rule copy_loop) (use dis i in auto)
  have out: "m x = h_mem g x" if "x < p \<or> p + n \<le> x" for x using that i by (auto simp: cp)
  define f where "f = g\<lparr>h_mem := m\<rparr>"
  have f: "heap_ok f cs" "live_blocks f cs = live_blocks g cs" "h_initialized f" "h_mem f = m" "g' = m_free q f"
    using poke_ok [OF g new, of m] out g(2) by (simp_all add: f_def g' m_def)
  from free_ok [OF f(1,3), unfolded f(2,4), OF old] obtain bs' where b: "heap_ok g' bs'" "live_blocks g' bs' = live_blocks g cs - {(q, k)}"
    "\<forall>(r, j) \<in> live_blocks g cs - {(q, k)}. \<forall>x. r \<le> x \<and> x < r + j \<longrightarrow> h_mem g' x = m x" unfolding f(5) by blast
  have kept: "h_mem g' x = m x" if "(r, j) \<in> live_blocks g cs" "(r, j) \<noteq> (q, k)" "r \<le> x" "x < r + j" for r j x
    using b(3) that by blast
  have "h_mem g' (p + x) = h_mem g (q + x)" if "x < i" for x
    using kept [of p n "p + x"] new ne i that by (auto simp: cp)
  moreover have "h_mem g' x = h_mem g x" if r: "(r, j) \<in> live_blocks g cs" "(r, j) \<noteq> (q, k)" "(r, j) \<noteq> (p, n)" "r \<le> x" "x < r + j" for r j x
  proof -
    have "r + j \<le> p \<or> p + n \<le> r" by (rule live_blocks_disjoint [OF r(1) new r(3)])
    then show ?thesis using kept [OF r(1,2,4,5)] out [of x] r(4,5) by auto
  qed
  ultimately show ?thesis using b(1,2) by (intro exI [of _ bs']) blast
qed

text \<open>A cleared block.\<close>

lemma m_calloc_zero:
  assumes "heap_ok h bs" "0 < sz * nitems" "sz * nitems \<le> 10000000" "0 < e" "blen bs + nat (sz * nitems) + 3 * PAGESIZE < 2 ^ 32"
  shows "\<exists>p h' bs'. m_calloc e nitems sz h = Some (p, h') \<and> heap_ok h' bs' \<and>
    live_blocks h' bs' = insert (p, round16 (sz * nitems)) (live_blocks h bs) \<and>
    mem_bytes (h_mem h') p (nat (sz * nitems)) = replicate (nat (sz * nitems)) 0"
proof -
  define n where "n = nat (sz * nitems)"
  from alloc_ok [OF assms] obtain p g cs where a: "m_alloc e (sz * nitems) h = Some (p, g)" "heap_ok g cs" "h_initialized g"
    "live_blocks g cs = insert (p, round16 (sz * nitems)) (live_blocks h bs)" by blast
  have new: "(p, round16 (sz * nitems)) \<in> live_blocks g cs" by (simp add: a(4))
  define f where "f = g\<lparr>h_mem := clear_loop p n (h_mem g)\<rparr>"
  have "clear_loop p n (h_mem g) x = h_mem g x" if "x < p \<or> p + round16 (sz * nitems) \<le> x" for x
    using that round16(2) [of "sz * nitems"] by (auto simp: clear_loop n_def)
  then have f: "heap_ok f cs" "live_blocks f cs = live_blocks g cs"
    using poke_ok [OF a(2,3) new] unfolding f_def by blast+
  have "mem_bytes (h_mem f) p n = replicate n 0" by (rule nth_equalityI) (simp_all add: f_def clear_loop)
  moreover have "m_calloc e nitems sz h = Some (p, f)" using assms(2,3) a(1) by (simp add: m_calloc_def Let_def f_def n_def)
  ultimately show ?thesis using f a(4) unfolding n_def by blast
qed

section \<open>Properties\<close>

lemma same_mem_bytes: "\<forall>x. q \<le> x \<and> x < q + k \<longrightarrow> m' x = m x \<Longrightarrow> mem_bytes m' q k = mem_bytes m q k"
  by (rule mem_bytes_cong) simp

text \<open>For the witnesses: a process before its first allocation, and one with a single page of heap.\<close>

definition fresh_heap :: heap where
  "fresh_heap = \<lparr>h_mem = (\<lambda>_. 0), h_base = 0, h_initialized = False\<rparr>"

lemma fresh_heap_ok: "heap_ok fresh_heap []" "live_blocks fresh_heap [] = {}"
  by (simp_all add: heap_ok_def live_blocks_def fresh_heap_def)

lemma fresh_alloc: "\<exists>h bs p. m_alloc 5001 100 fresh_heap = Some (p, h) \<and> heap_ok h bs \<and> live_blocks h bs = {(p, 112)} \<and> blen bs \<le> 8304"
proof -
  have "round16 100 = 112" by (simp add: round16_def)
  then show ?thesis using alloc_ok [OF fresh_heap_ok(1), of 100 5001] fresh_heap_ok(2) by (auto simp: PAGESIZE_def)
qed

lemma one_page: "heap_ok (heap_setup 5001 fresh_heap) [(False, 4080)]" "h_initialized (heap_setup 5001 fresh_heap)"
  using setup_ok [of 5001 fresh_heap] by simp_all

text \<open>C31: \<open>m_alloc\<close> returns a new block: aligned to 16 bytes, at least as large as asked for, and
  disjoint from every block in use; the blocks in use are those before and the new one, and their
  bytes are unchanged. The headers still describe the heap, and the search ends. The size must be
  positive and at most ten million, and the heap must stay below 4 gigabytes.\<close>
theorem m_alloc_correct:
  assumes "heap_ok h bs" "0 < sz" "sz \<le> 10000000" "0 < e" "blen bs + nat sz + 3 * PAGESIZE < 2 ^ 32"
  shows "\<exists>p h' bs' n. m_alloc e sz h = Some (p, h') \<and> heap_ok h' bs' \<and> p \<noteq> 0 \<and> p mod 16 = 0 \<and> sz \<le> int n \<and>
    live_blocks h' bs' = insert (p, n) (live_blocks h bs) \<and>
    (\<forall>(q, k) \<in> live_blocks h bs. (q + k \<le> p \<or> p + n \<le> q) \<and> mem_bytes (h_mem h') q k = mem_bytes (h_mem h) q k)"
proof -
  from alloc_ok [OF assms] obtain p h' bs' where a: "m_alloc e sz h = Some (p, h')" "heap_ok h' bs'" "h_initialized h'" "HDR \<le> p"
    "live_blocks h' bs' = insert (p, round16 sz) (live_blocks h bs)" "(p, round16 sz) \<notin> live_blocks h bs"
    "\<forall>(q, k) \<in> live_blocks h bs. \<forall>x. q \<le> x \<and> x < q + k \<longrightarrow> h_mem h' x = h_mem h x" by blast
  have in': "(p, round16 sz) \<in> live_blocks h' bs'" by (simp add: a(5))
  have dis: "q + k \<le> p \<or> p + round16 sz \<le> q" if "(q, k) \<in> live_blocks h bs" for q k
  proof -
    have "(q, k) \<in> live_blocks h' bs'" "(q, k) \<noteq> (p, round16 sz)" using that a(5,6) by auto
    from live_blocks_disjoint [OF this(1) in' this(2)] show ?thesis .
  qed
  have "mem_bytes (h_mem h') q k = mem_bytes (h_mem h) q k" if "(q, k) \<in> live_blocks h bs" for q k
    using a(7) that by (intro same_mem_bytes) auto
  with dis a live_blocks_16(1) [OF a(2,3) in'] round16(2) [of sz] show ?thesis
    by (intro exI [of _ p] exI [of _ h'] exI [of _ bs'] exI [of _ "round16 sz"]) auto
qed

theorem m_alloc_correct_witness:
  "\<exists>p h' bs' n. m_alloc 5001 100 fresh_heap = Some (p, h') \<and> heap_ok h' bs' \<and> p \<noteq> 0 \<and> p mod 16 = 0 \<and> 100 \<le> int n \<and>
    live_blocks h' bs' = {(p, n)}"
  using m_alloc_correct [OF fresh_heap_ok(1), of 100 5001] by (auto simp: PAGESIZE_def fresh_heap_ok(2))

text \<open>C32: \<open>m_free\<close> gives up exactly the block it is called with: the blocks in use are the others,
  at the same addresses and with the same bytes. The freed memory is merged with the free blocks
  before and behind it, so that no two neighbours are free, and the heap keeps its size.\<close>
theorem m_free_correct:
  assumes "heap_ok h bs" "(p, k) \<in> live_blocks h bs"
  shows "\<exists>bs'. heap_ok (m_free p h) bs' \<and> live_blocks (m_free p h) bs' = live_blocks h bs - {(p, k)} \<and> blen bs' = blen bs \<and>
    successively (\<lambda>a b. fst a \<or> fst b) bs' \<and>
    (\<forall>(q, j) \<in> live_blocks h bs - {(p, k)}. mem_bytes (h_mem (m_free p h)) q j = mem_bytes (h_mem h) q j)"
proof -
  have init: "h_initialized h" using assms by (auto simp: heap_ok_def live_blocks_def split: if_splits)
  from free_ok [OF assms(1) init assms(2)] obtain bs' where f: "heap_ok (m_free p h) bs'"
    "live_blocks (m_free p h) bs' = live_blocks h bs - {(p, k)}" "blen bs' = blen bs" "h_initialized (m_free p h)"
    "\<forall>(q, j) \<in> live_blocks h bs - {(p, k)}. \<forall>x. q \<le> x \<and> x < q + j \<longrightarrow> h_mem (m_free p h) x = h_mem h x" by blast
  have "mem_bytes (h_mem (m_free p h)) q j = mem_bytes (h_mem h) q j" if "(q, j) \<in> live_blocks h bs - {(p, k)}" for q j
    using f(5) that by (intro same_mem_bytes) auto
  with f show ?thesis by (intro exI [of _ bs']) (auto simp: heap_ok_def)
qed

theorem m_free_correct_witness:
  "\<exists>p h bs'. m_alloc 5001 100 fresh_heap = Some (p, h) \<and> heap_ok (m_free p h) bs' \<and> live_blocks (m_free p h) bs' = {}"
proof -
  obtain h bs p where a: "m_alloc 5001 100 fresh_heap = Some (p, h)" "heap_ok h bs" "live_blocks h bs = {(p, 112)}" using fresh_alloc by blast
  then show ?thesis using m_free_correct [OF a(2), of p 112] by auto
qed

text \<open>\<open>m_realloc\<close> moves a block: the new one is as large as asked for and starts with the bytes
  of the old one, as many as fit; the old block is free, and all other blocks and their bytes are
  as before.\<close>
theorem m_realloc_correct:
  assumes "heap_ok h bs" "(q, k) \<in> live_blocks h bs" "0 < sz" "sz \<le> 10000000" "0 < e" "blen bs + nat sz + 3 * PAGESIZE < 2 ^ 32"
  shows "\<exists>p h' bs' n. m_realloc e q sz h = Some (p, h') \<and> heap_ok h' bs' \<and> sz \<le> int n \<and>
    live_blocks h' bs' = insert (p, n) (live_blocks h bs - {(q, k)}) \<and>
    mem_bytes (h_mem h') p (min (nat sz) k) = mem_bytes (h_mem h) q (min (nat sz) k) \<and>
    (\<forall>(r, j) \<in> live_blocks h bs - {(q, k)}. mem_bytes (h_mem h') r j = mem_bytes (h_mem h) r j)"
proof -
  from alloc_ok [OF assms(1,3-6)] obtain p g cs where a: "m_alloc e sz h = Some (p, g)" "heap_ok g cs" "h_initialized g" "HDR \<le> p"
    "live_blocks g cs = insert (p, round16 sz) (live_blocks h bs)" "(p, round16 sz) \<notin> live_blocks h bs"
    "\<forall>(q, k) \<in> live_blocks h bs. \<forall>x. q \<le> x \<and> x < q + k \<longrightarrow> h_mem g x = h_mem h x" by blast
  define n where "n = round16 sz"
  have new: "(p, n) \<in> live_blocks g cs" and old: "(q, k) \<in> live_blocks g cs" and ne: "(q, k) \<noteq> (p, n)"
    using a(5,6) assms(2) by (auto simp: n_def)
  define i where "i = min (nat sz) k"
  have i: "i \<le> k" "i \<le> n" using round16(2) [of sz] by (auto simp: i_def n_def)
  define g' where "g' = m_free q (g\<lparr>h_mem := copy_loop p q i (h_mem g)\<rparr>)"
  from move_ok [OF a(2,3) new old ne i g'_def] obtain bs' where b: "heap_ok g' bs'" "live_blocks g' bs' = live_blocks g cs - {(q, k)}"
    "\<forall>x<i. h_mem g' (p + x) = h_mem g (q + x)"
    "\<forall>r j x. (r, j) \<in> live_blocks g cs - {(q, k), (p, n)} \<longrightarrow> r \<le> x \<longrightarrow> x < r + j \<longrightarrow> h_mem g' x = h_mem g x" by blast
  have keep: "h_mem g x = h_mem h x" if "(r, j) \<in> live_blocks h bs" "r \<le> x" "x < r + j" for r j x
    using a(7) that by blast
  have "unat (mh_size (h_mem g) (q - HDR)) = k" "HDR \<le> q" by (rule live_size [OF a(2,3) old], rule live_blocks_16(3) [OF a(2,3) old])
  then have run: "m_realloc e q sz h = Some (p, g')"
    using a(1) by (simp add: m_realloc_def Let_def i_def min_def g'_def)
  have copied: "mem_bytes (h_mem g') p i = mem_bytes (h_mem h) q i"
    by (rule mem_bytes_cong) (use b(3) keep [OF assms(2)] i in simp)
  have "mem_bytes (h_mem g') r j = mem_bytes (h_mem h) r j" if r: "(r, j) \<in> live_blocks h bs - {(q, k)}" for r j
  proof (rule same_mem_bytes, intro allI impI)
    fix x assume x: "r \<le> x \<and> x < r + j"
    have "(r, j) \<in> live_blocks g cs - {(q, k), (p, n)}" using r a(5,6) by (auto simp: n_def)
    then show "h_mem g' x = h_mem h x" using b(4) keep [of r j x] r x by auto
  qed
  moreover have "live_blocks g' bs' = insert (p, n) (live_blocks h bs - {(q, k)})" using a(5) ne b(2) by (auto simp: n_def)
  moreover have "sz \<le> int n" using round16(2) [of sz] by (simp add: n_def)
  ultimately show ?thesis using run b(1) copied unfolding i_def by blast
qed

theorem m_realloc_correct_witness:
  "\<exists>q h p h' bs' n. m_alloc 5001 100 fresh_heap = Some (q, h) \<and> m_realloc 5001 q 50 h = Some (p, h') \<and>
    live_blocks h' bs' = {(p, n)} \<and> mem_bytes (h_mem h') p 50 = mem_bytes (h_mem h) q 50"
proof -
  obtain h bs q where a: "m_alloc 5001 100 fresh_heap = Some (q, h)" "heap_ok h bs" "live_blocks h bs = {(q, 112)}" "blen bs \<le> 8304"
    using fresh_alloc by blast
  then show ?thesis using m_realloc_correct [OF a(2), of q 112 50 5001] by (auto simp: PAGESIZE_def)
qed

text \<open>The heap grows only when it must: when a free block is large enough, exactly or with room
  for a header, \<open>m_alloc\<close> leaves the end of the heap where it is; otherwise the heap grows by at most
  the rounded size and one page.\<close>
theorem m_alloc_bounds:
  assumes "heap_ok h bs" "h_initialized h" "0 < sz" "sz \<le> 10000000" "0 < e" "blen bs + nat sz + 3 * PAGESIZE < 2 ^ 32" "PAGESIZE \<le> blen bs"
  shows "\<exists>p h' bs'. m_alloc e sz h = Some (p, h') \<and> heap_ok h' bs' \<and> blen bs' \<le> blen bs + nat sz + 16 + PAGESIZE \<and>
    ((\<exists>k. (False, k) \<in> set bs \<and> (k = (nat sz + 15) div 16 * 16 \<or> (nat sz + 15) div 16 * 16 + 16 \<le> k)) \<longrightarrow> blen bs' = blen bs)"
proof -
  from alloc_ok [OF assms(1,3-6)] obtain p h' bs' where a: "m_alloc e sz h = Some (p, h')" "heap_ok h' bs'"
    "blen bs' \<le> max (blen bs) PAGESIZE + round16 sz + PAGESIZE" "\<forall>b\<in>set bs. fits (round16 sz) b \<longrightarrow> blen bs' = blen bs" by blast
  have "blen bs' = blen bs" if "(False, k) \<in> set bs" "k = round16 sz \<or> round16 sz + 16 \<le> k" for k
    using a(4) that by (force simp: fits_def)
  with a(1-3) assms(7) round16(3) [of sz] show ?thesis
    by (intro exI [of _ p] exI [of _ h'] exI [of _ bs']) (auto simp: round16_def)
qed

theorem m_alloc_bounds_witness:
  "\<exists>p h' bs'. m_alloc 5001 100 (heap_setup 5001 fresh_heap) = Some (p, h') \<and> heap_ok h' bs' \<and> blen bs' = 4096"
proof -
  have "(False, 4080) \<in> set [(False, 4080 :: nat)]" by simp
  then show ?thesis using m_alloc_bounds [OF one_page, of 100 5001] by (force simp: PAGESIZE_def)
qed

end
