(* ===== verification/CString.thy ===== *)
theory CString
  imports CMemory
begin

text \<open>
  The string functions of user programs (\<open>egos/lib/string.c\<close>) on the bytes of memory. A loop that
  runs to the terminator of a string is \<open>None\<close> if there is none.
\<close>

section \<open>Byte ranges\<close>

fun memchr :: "mem \<Rightarrow> nat \<Rightarrow> int \<Rightarrow> nat \<Rightarrow> nat" where
  "memchr m s c 0 = 0"
| "memchr m s c (Suc n) = (if int (unat (m s)) = c then s else memchr m (s + 1) c n)"

fun memcmp :: "mem \<Rightarrow> nat \<Rightarrow> nat \<Rightarrow> nat \<Rightarrow> int" where
  "memcmp m u1 u2 0 = 0"
| "memcmp m u1 u2 (Suc n) = (if m u1 \<noteq> m u2 then int (unat (m u1)) - int (unat (m u2)) else memcmp m (u1 + 1) (u2 + 1) n)"

fun memset_loop :: "mem \<Rightarrow> nat \<Rightarrow> u8 \<Rightarrow> nat \<Rightarrow> mem" where
  "memset_loop m s c 0 = m"
| "memset_loop m s c (Suc n) = memset_loop (m(s := c)) (s + 1) c n"

definition memset :: "mem \<Rightarrow> nat \<Rightarrow> int \<Rightarrow> nat \<Rightarrow> mem" where
  "memset m b c len = memset_loop m b (word_of_int (c AND 0xFF)) len"

fun copy_up :: "mem \<Rightarrow> nat \<Rightarrow> nat \<Rightarrow> nat \<Rightarrow> mem" where
  "copy_up m d s 0 = m"
| "copy_up m d s (Suc n) = copy_up (m(d := m s)) (d + 1) (s + 1) n"

fun copy_down :: "mem \<Rightarrow> nat \<Rightarrow> nat \<Rightarrow> nat \<Rightarrow> mem" where
  "copy_down m d s 0 = m"
| "copy_down m d s (Suc n) = copy_down (m(d - 1 := m (s - 1))) (d - 1) (s - 1) n"

definition memmove :: "mem \<Rightarrow> nat \<Rightarrow> nat \<Rightarrow> nat \<Rightarrow> mem" where
  "memmove m dst src n = (if dst < src then copy_up m dst src n else copy_down m (dst + n) (src + n) n)"

definition memcpy :: "mem \<Rightarrow> nat \<Rightarrow> nat \<Rightarrow> nat \<Rightarrow> mem" where
  "memcpy m dst src n = memmove m dst src n"

section \<open>Strings\<close>

partial_function (option) strlen_loop :: "mem \<Rightarrow> nat \<Rightarrow> nat \<Rightarrow> nat option" where
  "strlen_loop m s n = (if m s \<noteq> 0 then strlen_loop m (s + 1) (n + 1) else Some n)"

definition strlen :: "mem \<Rightarrow> nat \<Rightarrow> nat option" where
  "strlen m s = strlen_loop m s 0"

fun strnlen_loop :: "mem \<Rightarrow> nat \<Rightarrow> nat \<Rightarrow> nat \<Rightarrow> nat" where
  "strnlen_loop m s n 0 = n"
| "strnlen_loop m s n (Suc k) = (if m s \<noteq> 0 then strnlen_loop m (s + 1) (n + 1) k else n)"

definition strnlen :: "mem \<Rightarrow> nat \<Rightarrow> nat \<Rightarrow> nat" where
  "strnlen m s maxlen = strnlen_loop m s 0 maxlen"

text \<open>The address of the terminator.\<close>

partial_function (option) str_end :: "mem \<Rightarrow> nat \<Rightarrow> nat option" where
  "str_end m s = (if m s \<noteq> 0 then str_end m (s + 1) else Some s)"

partial_function (option) strcpy_loop :: "mem \<Rightarrow> nat \<Rightarrow> nat \<Rightarrow> mem option" where
  "strcpy_loop m dst src = (let c = m src; m = m(dst := c) in if c \<noteq> 0 then strcpy_loop m (dst + 1) (src + 1) else Some m)"

definition strcpy :: "mem \<Rightarrow> nat \<Rightarrow> nat \<Rightarrow> (nat \<times> mem) option" where
  "strcpy m dst src = map_option (Pair dst) (strcpy_loop m dst src)"

definition strcat :: "mem \<Rightarrow> nat \<Rightarrow> nat \<Rightarrow> (nat \<times> mem) option" where
  "strcat m s1 s2 = do { e \<leftarrow> str_end m s1; m \<leftarrow> strcpy_loop m e s2; Some (s1, m) }"

fun strncat_loop :: "mem \<Rightarrow> nat \<Rightarrow> nat \<Rightarrow> nat \<Rightarrow> mem" where
  "strncat_loop m s1 s2 0 = m(s1 := 0)"
| "strncat_loop m s1 s2 (Suc n) =
     (let m' = m(s1 := m s2) in if m' s2 = 0 then m' else strncat_loop m' (s1 + 1) (s2 + 1) n)"

definition strncat :: "mem \<Rightarrow> nat \<Rightarrow> nat \<Rightarrow> nat \<Rightarrow> (nat \<times> mem) option" where
  "strncat m s1 s2 n = do { e \<leftarrow> str_end m s1; Some (s1, strncat_loop m e s2 n) }"

fun strncpy_loop :: "mem \<Rightarrow> nat \<Rightarrow> nat \<Rightarrow> nat \<Rightarrow> mem" where
  "strncpy_loop m dst src 0 = m"
| "strncpy_loop m dst src (Suc n) =
     (let c = m src; m = m(dst := c)
      in if c = 0 then memset_loop m (dst + 1) 0 n else strncpy_loop m (dst + 1) (src + 1) n)"

definition strncpy :: "mem \<Rightarrow> nat \<Rightarrow> nat \<Rightarrow> nat \<Rightarrow> nat \<times> mem" where
  "strncpy m dst src n = (dst, strncpy_loop m dst src n)"

partial_function (option) strcmp :: "mem \<Rightarrow> nat \<Rightarrow> nat \<Rightarrow> int option" where
  "strcmp m u1 u2 =
     (if m u1 \<noteq> 0 \<and> m u2 \<noteq> 0 then
        (if m u1 \<noteq> m u2 then Some (int (unat (m u1)) - int (unat (m u2))) else strcmp m (u1 + 1) (u2 + 1))
      else if m u1 = 0 \<and> m u2 = 0 then Some 0
      else Some (if m u1 = 0 then - 1 else 1))"

fun strncmp :: "mem \<Rightarrow> nat \<Rightarrow> nat \<Rightarrow> nat \<Rightarrow> int" where
  "strncmp m u1 u2 0 = 0"
| "strncmp m u1 u2 (Suc n) =
     (if m u1 = 0 \<and> m u2 = 0 then 0
      else if m u1 = 0 then 1
      else if m u2 = 0 then - 1
      else if m u1 < m u2 then - 1
      else if m u1 > m u2 then 1
      else strncmp m (u1 + 1) (u2 + 1) n)"

text \<open>Searching; the character is compared with a signed \<open>char\<close>.\<close>

partial_function (option) strchr :: "mem \<Rightarrow> nat \<Rightarrow> int \<Rightarrow> nat option" where
  "strchr m s c = (if m s \<noteq> 0 then (if sint (m s) = c then Some s else strchr m (s + 1) c) else Some 0)"

partial_function (option) strstr_loop :: "mem \<Rightarrow> nat \<Rightarrow> nat \<Rightarrow> nat \<Rightarrow> nat option" where
  "strstr_loop m s1 s2 n =
     (if m s1 \<noteq> 0 then (if strncmp m s1 s2 n = 0 then Some s1 else strstr_loop m (s1 + 1) s2 n) else Some 0)"

definition strstr :: "mem \<Rightarrow> nat \<Rightarrow> nat \<Rightarrow> nat option" where
  "strstr m s1 s2 = do { n \<leftarrow> strlen m s2; strstr_loop m s1 s2 n }"

partial_function (option) index :: "mem \<Rightarrow> nat \<Rightarrow> int \<Rightarrow> nat option" where
  "index m p c = (if m p \<noteq> 0 then (if sint (m p) = c then Some p else index m (p + 1) c) else Some (if c = 0 then p else 0))"

partial_function (option) rindex_loop :: "mem \<Rightarrow> nat \<Rightarrow> int \<Rightarrow> nat \<Rightarrow> nat option" where
  "rindex_loop m p c found =
     (if m p \<noteq> 0 then rindex_loop m (p + 1) c (if sint (m p) = c then p else found) else Some (if c = 0 then p else found))"

definition rindex :: "mem \<Rightarrow> nat \<Rightarrow> int \<Rightarrow> nat option" where
  "rindex m s c = rindex_loop m s c 0"

section \<open>Numbers\<close>

text \<open>\<open>lim\<close> is \<open>2 ^ 31\<close> for \<open>atoi\<close> and \<open>2 ^ 63\<close> for \<open>atol\<close>: a sum that overflows is undefined.\<close>

partial_function (option) skip_blanks :: "mem \<Rightarrow> nat \<Rightarrow> nat option" where
  "skip_blanks m s = (if m s = 32 \<or> m s = 9 then skip_blanks m (s + 1) else Some s)"

partial_function (option) digits_loop :: "int \<Rightarrow> mem \<Rightarrow> nat \<Rightarrow> int \<Rightarrow> int option" where
  "digits_loop lim m s tot =
     (if 48 \<le> sint (m s) \<and> sint (m s) \<le> 57 then
        (if tot * 10 \<ge> lim \<or> tot * 10 + (sint (m s) - 48) \<ge> lim then None
         else digits_loop lim m (s + 1) (tot * 10 + (sint (m s) - 48)))
      else Some tot)"

definition ato_int :: "int \<Rightarrow> mem \<Rightarrow> nat \<Rightarrow> int option" where
  "ato_int lim m s = do {
     s \<leftarrow> skip_blanks m s;
     let minus = (m s = 45);
     let s = (if m s = 45 \<or> m s = 43 then s + 1 else s);
     tot \<leftarrow> digits_loop lim m s 0;
     Some (if minus then - tot else tot) }"

definition atoi :: "mem \<Rightarrow> nat \<Rightarrow> int option" where
  "atoi = ato_int (2 ^ 31)"

definition atol :: "mem \<Rightarrow> nat \<Rightarrow> int option" where
  "atol = ato_int (2 ^ 63)"

section \<open>Lemmas on byte ranges\<close>

text \<open>A string in memory: its bytes, none of them 0, and the terminator.\<close>

definition cstr :: "mem \<Rightarrow> nat \<Rightarrow> u8 list \<Rightarrow> bool" where
  "cstr m s bs \<longleftrightarrow> 0 \<notin> set bs \<and> mem_bytes m s (length bs) = bs \<and> m (s + length bs) = 0"

lemma mem_bytes_0 [simp]: "mem_bytes m s 0 = []"
  by (simp add: mem_bytes_def)

lemmas upd_fold = fun_upd_def [symmetric]

lemma mem_bytes_Suc: "mem_bytes m s (Suc n) = m s # mem_bytes m (s + 1) n"
  by (rule nth_equalityI) (auto simp: nth_Cons split: nat.split)

lemma cstr_Nil [simp]: "cstr m s [] \<longleftrightarrow> m s = 0"
  by (simp add: cstr_def)

lemma cstr_Cons [simp]: "cstr m s (b # bs) \<longleftrightarrow> m s = b \<and> b \<noteq> 0 \<and> cstr m (s + 1) bs"
  by (auto simp: cstr_def mem_bytes_Suc)

lemma cstr_cong: "cstr m s bs \<Longrightarrow> (\<And>i. i \<le> length bs \<Longrightarrow> m' (s + i) = m (s + i)) \<Longrightarrow> cstr m' s bs"
  by (auto simp: cstr_def intro: trans [OF mem_bytes_cong])

lemma put_bytes_Cons: "put_bytes m a (b # bs) = put_bytes (m(a := b)) (a + 1) bs"
  by (auto simp: put_bytes_def fun_eq_iff nth_Cons')

lemma put_bytes_Nil [simp]: "put_bytes m a [] = m"
  by (auto simp: put_bytes_def fun_eq_iff)

lemma put_bytes_snoc: "put_bytes m a (bs @ [b]) = (put_bytes m a bs)(a + length bs := b)"
  by (auto simp: put_bytes_def fun_eq_iff nth_append)

lemma put_bytes_first: "put_bytes (m(a + length bs := b)) a bs = put_bytes m a (bs @ [b])"
  by (auto simp: put_bytes_def fun_eq_iff nth_append)

lemma memset_loop: "memset_loop m s c n = put_bytes m s (replicate n c)"
  by (induction m s c n rule: memset_loop.induct) (simp_all add: put_bytes_Cons upd_fold)

lemma copy_up:
  assumes "d \<le> s \<or> s + n \<le> d"
  shows "copy_up m d s n = put_bytes m d (mem_bytes m s n)"
  using assms
proof (induction n arbitrary: m d s)
  case (Suc n)
  have "mem_bytes (m(d := m s)) (s + 1) n = mem_bytes m (s + 1) n" by (rule mem_bytes_cong) (use Suc.prems in auto)
  with Suc.IH [of "d + 1" "s + 1" "m(d := m s)"] Suc.prems show ?case by (auto simp: mem_bytes_Suc put_bytes_Cons upd_fold)
qed simp

lemma mem_bytes_snoc: "mem_bytes m s (Suc n) = mem_bytes m s n @ [m (s + n)]"
  by (simp add: mem_bytes_def)

lemma copy_down:
  assumes "s \<le> d"
  shows "copy_down m (d + n) (s + n) n = put_bytes m d (mem_bytes m s n)"
  using assms
proof (induction n arbitrary: m)
  case (Suc n)
  have "mem_bytes (m(d + n := m (s + n))) s n = mem_bytes m s n" by (rule mem_bytes_cong) (use Suc.prems in auto)
  with Suc.IH [OF Suc.prems, of "m(d + n := m (s + n))"] show ?case
    using put_bytes_first [of m d "mem_bytes m s n" "m (s + n)"] by (simp add: mem_bytes_snoc upd_fold)
qed simp

section \<open>Lemmas on strings\<close>

lemma strlen_loop: "cstr m s bs \<Longrightarrow> strlen_loop m s n = Some (n + length bs)"
  by (induction bs arbitrary: s n) (simp_all add: strlen_loop.simps)

lemma strlen: "cstr m s bs \<Longrightarrow> strlen m s = Some (length bs)"
  by (simp add: strlen_def strlen_loop)

lemma str_end: "cstr m s bs \<Longrightarrow> str_end m s = Some (s + length bs)"
  by (induction bs arbitrary: s) (simp_all add: str_end.simps)

lemma strcpy_loop:
  assumes "cstr m src bs" "dst \<le> src \<or> src + length bs < dst"
  shows "strcpy_loop m dst src = Some (put_bytes m dst (bs @ [0]))"
  using assms
proof (induction bs arbitrary: m dst src)
  case Nil
  then show ?case by (subst strcpy_loop.simps) (simp add: put_bytes_Cons Let_def)
next
  case (Cons b bs)
  have "cstr (m(dst := b)) (src + 1) bs" by (rule cstr_cong [of m]) (use Cons.prems in auto)
  then have "strcpy_loop (m(dst := b)) (dst + 1) (src + 1) = Some (put_bytes (m(dst := b)) (dst + 1) (bs @ [0]))"
    using Cons.prems by (intro Cons.IH) (auto simp: upd_fold)
  with Cons.prems show ?case by (subst strcpy_loop.simps) (simp add: put_bytes_Cons)
qed

lemma strncpy_loop:
  assumes "cstr m src bs" "dst + n \<le> src \<or> src + length bs < dst"
  shows "strncpy_loop m dst src n = put_bytes m dst (take n (bs @ replicate n 0))"
  using assms
proof (induction n arbitrary: m dst src bs)
  case (Suc n)
  show ?case
  proof (cases bs)
    case Nil
    with Suc.prems show ?thesis by (simp add: memset_loop put_bytes_Cons)
  next
    case (Cons b cs)
    have "cstr (m(dst := b)) (src + 1) cs" by (rule cstr_cong [of m]) (use Suc.prems Cons in auto)
    then have "strncpy_loop (m(dst := b)) (dst + 1) (src + 1) n = put_bytes (m(dst := b)) (dst + 1) (take n (cs @ replicate n 0))"
      using Suc.prems Cons by (intro Suc.IH) (auto simp: upd_fold)
    moreover have "take n (cs @ 0 # replicate n 0) = take n (cs @ replicate n (0 :: u8))"
      by (rule nth_equalityI) (auto simp: nth_append nth_Cons')
    ultimately show ?thesis using Suc.prems Cons by (simp add: put_bytes_Cons Let_def upd_fold del: take_append)
  qed
qed simp

lemma strncmp_eq:
  assumes "cstr m a xs" "cstr m b ys"
  shows "strncmp m a b n = 0 \<longleftrightarrow> take n xs = take n ys"
  using assms
proof (induction n arbitrary: a b xs ys)
  case (Suc n)
  then show ?case by (cases xs; cases ys) (auto dest: not_less_iff_gr_or_eq [THEN iffD1])
qed simp

lemma strcmp_lexord:
  assumes "cstr m a xs" "cstr m b ys"
  shows "\<exists>r. strcmp m a b = Some r \<and> (r < 0 \<longleftrightarrow> (xs, ys) \<in> lexord {(u, v). u < v}) \<and> (r = 0 \<longleftrightarrow> xs = ys)"
  using assms
proof (induction xs arbitrary: a b ys)
  case Nil
  then show ?case by (cases ys) (auto simp: strcmp.simps [of m a b])
next
  case (Cons x xs)
  show ?case
  proof (cases ys)
    case Nil
    with Cons.prems show ?thesis by (auto simp: strcmp.simps [of m a b])
  next
    case (Cons y zs)
    show ?thesis
    proof (cases "x = y")
      case True
      with Cons Cons.prems Cons.IH [of "a + 1" "b + 1" zs] show ?thesis by (auto simp: strcmp.simps [of m a b])
    next
      case False
      define r where "r = int (unat x) - int (unat y)"
      have "strcmp m a b = Some r" using Cons Cons.prems False by (simp add: strcmp.simps [of m a b] r_def)
      moreover have "r < 0 \<longleftrightarrow> x < y" unfolding r_def word_less_nat_alt by linarith
      moreover have "r \<noteq> 0" using False unfolding r_def word_unat_eq_iff by linarith
      ultimately show ?thesis using False Cons by auto
    qed
  qed
qed

lemma strstr_loop:
  assumes "cstr m s xs" "cstr m t ps" "ps \<noteq> []"
  shows "\<exists>r. strstr_loop m s t (length ps) = Some r \<and>
    ((\<exists>i. r = s + i \<and> take (length ps) (drop i xs) = ps \<and> (\<forall>j<i. take (length ps) (drop j xs) \<noteq> ps)) \<or>
     (r = 0 \<and> (\<forall>i. take (length ps) (drop i xs) \<noteq> ps)))"
  using assms(1)
proof (induction xs arbitrary: s)
  case Nil
  with assms(3) show ?case by (simp add: strstr_loop.simps [of m s])
next
  case (Cons x xs)
  have e: "strncmp m s t (length ps) = 0 \<longleftrightarrow> take (length ps) (x # xs) = ps"
    using strncmp_eq [OF Cons.prems assms(2)] by simp
  show ?case
  proof (cases "take (length ps) (x # xs) = ps")
    case True
    with e Cons.prems show ?thesis by (auto simp: strstr_loop.simps [of m s] intro!: exI [of _ 0])
  next
    case False
    from Cons.IH [of "s + 1"] Cons.prems obtain r where r: "strstr_loop m (s + 1) t (length ps) = Some r"
      "(\<exists>i. r = s + 1 + i \<and> take (length ps) (drop i xs) = ps \<and> (\<forall>j<i. take (length ps) (drop j xs) \<noteq> ps)) \<or>
       (r = 0 \<and> (\<forall>i. take (length ps) (drop i xs) \<noteq> ps))" by auto
    have run: "strstr_loop m s t (length ps) = Some r" using False e Cons.prems r(1) by (simp add: strstr_loop.simps [of m s])
    from r(2) show ?thesis
    proof (elim disjE exE conjE)
      fix i assume i: "r = s + 1 + i" "take (length ps) (drop i xs) = ps" "\<forall>j<i. take (length ps) (drop j xs) \<noteq> ps"
      have "take (length ps) (drop j (x # xs)) \<noteq> ps" if "j < Suc i" for j using that i(3) False by (cases j) auto
      with i run show ?thesis by (intro exI [of _ r] conjI disjI1 exI [of _ "Suc i"]) auto
    next
      assume i: "r = 0" "\<forall>i. take (length ps) (drop i xs) \<noteq> ps"
      have "take (length ps) (drop j (x # xs)) \<noteq> ps" for j using i(2) False by (cases j) auto
      with i run show ?thesis by blast
    qed
  qed
qed

section \<open>Properties\<close>

text \<open>For the witnesses: the strings \<open>ab\<close> and \<open>a\<close>.\<close>

definition two_strings :: mem where
  "two_strings = (\<lambda>_. 0)(100 := 97, 101 := 98, 200 := 97)"

lemma two_strings: "cstr two_strings 100 [97, 98]" "cstr two_strings 200 [97]"
  by (simp_all add: two_strings_def)

text \<open>C34: \<open>memmove\<close> and \<open>memcpy\<close> copy a range of bytes to another address as if all of it were read
  before any of it is written, whether or not the two ranges overlap; every other byte stays.\<close>
theorem memmove_correct:
  "memmove m dst src n = put_bytes m dst (mem_bytes m src n) \<and> memcpy m dst src n = memmove m dst src n"
  using copy_up [of dst src n m] copy_down [of src dst m n] by (simp add: memmove_def memcpy_def)

text \<open>\<open>strcmp\<close> returns on any two strings, and orders them lexicographically by their bytes: the
  result is negative exactly if the first string is the smaller, and 0 exactly if they are equal.\<close>
theorem strcmp_correct:
  assumes "cstr m a xs" "cstr m b ys"
  shows "\<exists>r. strcmp m a b = Some r \<and> (r < 0 \<longleftrightarrow> (xs, ys) \<in> lexord {(u, v). u < v}) \<and> (r = 0 \<longleftrightarrow> xs = ys)"
  by (rule strcmp_lexord [OF assms])

theorem strcmp_correct_witness:
  "\<exists>r. strcmp two_strings 200 100 = Some r \<and> r < 0"
  using strcmp_correct [OF two_strings(2,1)] by auto

text \<open>\<open>strncmp\<close> orders a string after the strings it is a proper prefix of, where \<open>strcmp\<close> orders
  it before them.\<close>
theorem strncmp_prefix:
  assumes "cstr m a xs" "cstr m b (xs @ y # ys)" "length xs < n"
  shows "strcmp m a b = Some (- 1) \<and> strncmp m a b n = 1"
  using assms
proof (induction xs arbitrary: a b n)
  case Nil
  then show ?case by (cases n) (auto simp: strcmp.simps [of m a b])
next
  case (Cons x xs)
  then show ?case by (cases n) (auto simp: strcmp.simps [of m a b])
qed

theorem strncmp_prefix_witness:
  "strcmp two_strings 200 100 = Some (- 1) \<and> strncmp two_strings 200 100 2 = 1"
  using strncmp_prefix [OF two_strings(2), of 100 98 "[]" 2] two_strings(1) by simp

text \<open>\<open>strstr\<close> returns the first place where a (not empty) string occurs in another, and the null
  pointer if it does not occur.\<close>
theorem strstr_correct:
  assumes "cstr m s xs" "cstr m t ps" "ps \<noteq> []"
  shows "\<exists>r. strstr m s t = Some r \<and>
    ((\<exists>i. r = s + i \<and> take (length ps) (drop i xs) = ps \<and> (\<forall>j<i. take (length ps) (drop j xs) \<noteq> ps)) \<or>
     (r = 0 \<and> (\<forall>i. take (length ps) (drop i xs) \<noteq> ps)))"
  using strstr_loop [OF assms] by (simp add: strstr_def strlen [OF assms(2)])

theorem strstr_correct_witness:
  "strstr two_strings 100 200 = Some 100"
proof -
  define xs ps where "xs = [97, 98 :: u8]" and "ps = [97 :: u8]"
  have "cstr two_strings 100 xs" "cstr two_strings 200 ps" "ps \<noteq> []" using two_strings by (simp_all only: xs_def ps_def list.distinct) simp
  from strstr_correct [OF this] obtain r where r: "strstr two_strings 100 200 = Some r"
    "(\<exists>i. r = 100 + i \<and> take (length ps) (drop i xs) = ps \<and> (\<forall>j<i. take (length ps) (drop j xs) \<noteq> ps)) \<or>
     (r = 0 \<and> (\<forall>i. take (length ps) (drop i xs) \<noteq> ps))" by blast
  have "take (length ps) (drop 0 xs) = ps" by (simp add: xs_def ps_def)
  with r(2) have "r = 100" by (metis add.right_neutral gr_zeroI)
  with r(1) show ?thesis by simp
qed

end
