(* ===== verification/MemChan.thy ===== *)
theory MemChan
  imports CString
begin

text \<open>
  Formatted output: memory channels (\<open>egos/lib/memchan.c\<close>), the buffers that grow as text is
  appended, and the functions of \<open>egos/lib/print.c\<close> that print to a string. The machine is the 64-bit
  one: \<open>int_t\<close> has 64 bits.
\<close>

section \<open>Memory channels\<close>

record mem_chan =
  mc_buf :: "u8 list"
  mc_size :: u32
  mc_offset :: u32

definition mc_alloc :: mem_chan where
  "mc_alloc = \<lparr>mc_buf = [], mc_size = 0, mc_offset = 0\<rparr>"

text \<open>The bytes of a buffer that \<open>realloc\<close> has made larger are those of the memory it got, \<open>g\<close>.\<close>

definition realloc_buf :: "(nat \<Rightarrow> u8) \<Rightarrow> u8 list \<Rightarrow> nat \<Rightarrow> u8 list" where
  "realloc_buf g buf n = take n buf @ map g [length buf..<n]"

text \<open>\<open>None\<close>: bytes are written behind the end of the buffer.\<close>

definition mc_put :: "(nat \<Rightarrow> u8) \<Rightarrow> mem_chan \<Rightarrow> u8 list \<Rightarrow> mem_chan option" where
  "mc_put g mc bs =
     (let n = of_nat (length bs);
          mc = (if mc_offset mc + n > mc_size mc then
                  (let sz = mc_size mc * 2; sz = (if mc_offset mc + n > sz then mc_offset mc + n else sz)
                   in mc\<lparr>mc_size := sz, mc_buf := realloc_buf g (mc_buf mc) (unat sz)\<rparr>)
                else mc);
          off = unat (mc_offset mc)
      in if off + length bs \<le> length (mc_buf mc) then
           Some (mc\<lparr>mc_buf := take off (mc_buf mc) @ bs @ drop (off + length bs) (mc_buf mc), mc_offset := mc_offset mc + n\<rparr>)
         else None)"

definition mc_putc :: "(nat \<Rightarrow> u8) \<Rightarrow> mem_chan \<Rightarrow> u8 \<Rightarrow> mem_chan option" where
  "mc_putc g mc c = mc_put g mc [c]"

fun mc_puts :: "(nat \<Rightarrow> u8) \<Rightarrow> mem_chan \<Rightarrow> u8 list \<Rightarrow> mem_chan option" where
  "mc_puts g mc [] = Some mc"
| "mc_puts g mc (c # s) = do { mc \<leftarrow> mc_putc g mc c; mc_puts g mc s }"

section \<open>Numbers\<close>

definition ascii :: "string \<Rightarrow> u8 list" where
  "ascii s = map of_char s"

definition hex_chars :: "bool \<Rightarrow> u8 list" where
  "hex_chars caps = (if caps then ascii ''0123456789ABCDEF'' else ascii ''0123456789abcdef'')"

text \<open>The digits are written from the end of the buffer; \<open>None\<close>: before its start.\<close>

fun mc_digits :: "u8 list \<Rightarrow> nat \<Rightarrow> nat \<Rightarrow> u8 list \<Rightarrow> nat \<Rightarrow> (u8 list \<times> nat) option" where
  "mc_digits chars base d buf p =
     (if d = 0 then Some (buf, p)
      else if p = 0 then None
      else mc_digits chars base (d div base) (buf[p - 1 := chars ! (d mod base)]) (p - 1))"

definition mc_number :: "(nat \<Rightarrow> u8) \<Rightarrow> mem_chan \<Rightarrow> nat \<Rightarrow> nat \<Rightarrow> bool \<Rightarrow> mem_chan option" where
  "mc_number g mc d base caps =
     (let buf = (map g [0..<64])[63 := 0] in do {
        (buf, p) \<leftarrow> mc_digits (hex_chars caps) base d buf 63;
        mc_puts g mc (takeWhile (\<lambda>c. c \<noteq> 0) (drop p buf)) })"

definition mc_unsigned_int :: "(nat \<Rightarrow> u8) \<Rightarrow> mem_chan \<Rightarrow> u64 \<Rightarrow> nat \<Rightarrow> bool \<Rightarrow> mem_chan option" where
  "mc_unsigned_int g mc d base caps =
     (if base < 2 \<or> base > 16 then mc_puts g mc (ascii ''<bad base>'')
      else if d = 0 then mc_putc g mc 48
      else mc_number g mc (unat d) base caps)"

text \<open>The negation of the least 64-bit number is undefined.\<close>

definition mc_signed_int :: "(nat \<Rightarrow> u8) \<Rightarrow> mem_chan \<Rightarrow> int \<Rightarrow> nat \<Rightarrow> bool \<Rightarrow> mem_chan option" where
  "mc_signed_int g mc d base caps =
     (if base < 2 \<or> base > 16 then mc_puts g mc (ascii ''<bad base>'')
      else if d = 0 then mc_putc g mc 48
      else if d < 0 then
        (if d = - (2 ^ 63) then None
         else do { mc \<leftarrow> mc_putc g mc 45; mc_number g mc (nat (- d)) base caps })
      else mc_number g mc (nat d) base caps)"

section \<open>Formats\<close>

text \<open>
  The arguments behind the format. One that is missing, or of another type than the format asks for,
  is undefined. A string is the bytes before its terminator.
\<close>

datatype fmt_arg = Arg_int u32 | Arg_uint u32 | Arg_ulong u64 | Arg_str "u8 list"

fun mc_vprintf :: "(nat \<Rightarrow> u8) \<Rightarrow> mem_chan \<Rightarrow> u8 list \<Rightarrow> fmt_arg list \<Rightarrow> mem_chan option" where
  "mc_vprintf g mc [] ap = Some mc"
| "mc_vprintf g mc (c # fmt) ap =
     (if c \<noteq> of_char CHR ''%'' then do { mc \<leftarrow> mc_putc g mc c; mc_vprintf g mc fmt ap }
      else (case fmt of
          [] \<Rightarrow> Some mc
        | f # fmt \<Rightarrow>
            if f = of_char CHR ''c'' then
              (case ap of Arg_int i # ap \<Rightarrow> do { mc \<leftarrow> mc_putc g mc (ucast i); mc_vprintf g mc fmt ap } | _ \<Rightarrow> None)
            else if f = of_char CHR ''d'' \<or> f = of_char CHR ''i'' then
              (case ap of Arg_int i # ap \<Rightarrow> do { mc \<leftarrow> mc_signed_int g mc (sint i) 10 False; mc_vprintf g mc fmt ap } | _ \<Rightarrow> None)
            else if f = of_char CHR ''s'' then
              (case ap of Arg_str s # ap \<Rightarrow> do { mc \<leftarrow> mc_puts g mc s; mc_vprintf g mc fmt ap } | _ \<Rightarrow> None)
            else if f = of_char CHR ''u'' then
              (case ap of Arg_uint i # ap \<Rightarrow> do { mc \<leftarrow> mc_unsigned_int g mc (ucast i) 10 False; mc_vprintf g mc fmt ap } | _ \<Rightarrow> None)
            else if f = of_char CHR ''x'' then
              (case ap of Arg_uint i # ap \<Rightarrow> do { mc \<leftarrow> mc_unsigned_int g mc (ucast i) 16 False; mc_vprintf g mc fmt ap } | _ \<Rightarrow> None)
            else if f = of_char CHR ''X'' then
              (case ap of Arg_ulong i # ap \<Rightarrow> do { mc \<leftarrow> mc_unsigned_int g mc i 16 True; mc_vprintf g mc fmt ap } | _ \<Rightarrow> None)
            else do { mc \<leftarrow> mc_putc g mc f; mc_vprintf g mc fmt ap }))"

section \<open>Printing to a string\<close>

definition vsnprintf :: "(nat \<Rightarrow> u8) \<Rightarrow> mem \<Rightarrow> nat \<Rightarrow> nat \<Rightarrow> u8 list \<Rightarrow> fmt_arg list \<Rightarrow> (int \<times> mem) option" where
  "vsnprintf g m str n fmt ap = do {
     mc \<leftarrow> mc_vprintf g mc_alloc fmt ap;
     let tot = sint (mc_offset mc);
     if n > 0 then
       (let k = n - 1; k = (if k > unat (mc_offset mc) then unat (mc_offset mc) else k); m = put_bytes m str (take k (mc_buf mc))
        in Some (tot, m(str + k := 0)))
     else Some (tot, m) }"

definition vsprintf :: "(nat \<Rightarrow> u8) \<Rightarrow> mem \<Rightarrow> nat \<Rightarrow> u8 list \<Rightarrow> fmt_arg list \<Rightarrow> (int \<times> mem) option" where
  "vsprintf g m str fmt ap = do {
     mc \<leftarrow> mc_vprintf g mc_alloc fmt ap;
     let n = sint (mc_offset mc);
     mc \<leftarrow> mc_putc g mc 0;
     Some (n, put_bytes m str (takeWhile (\<lambda>c. c \<noteq> 0) (mc_buf mc) @ [0])) }"

text \<open>\<open>vasprintf\<close> gets the address of its string from \<open>malloc\<close>.\<close>

definition vasprintf :: "(nat \<Rightarrow> u8) \<Rightarrow> mem \<Rightarrow> nat \<Rightarrow> u8 list \<Rightarrow> fmt_arg list \<Rightarrow> (int \<times> mem) option" where
  "vasprintf g m strp fmt ap = vsprintf g m strp fmt ap"

definition sprintf :: "(nat \<Rightarrow> u8) \<Rightarrow> mem \<Rightarrow> nat \<Rightarrow> u8 list \<Rightarrow> fmt_arg list \<Rightarrow> (int \<times> mem) option" where
  "sprintf g m str fmt ap = vsprintf g m str fmt ap"

definition snprintf :: "(nat \<Rightarrow> u8) \<Rightarrow> mem \<Rightarrow> nat \<Rightarrow> nat \<Rightarrow> u8 list \<Rightarrow> fmt_arg list \<Rightarrow> (int \<times> mem) option" where
  "snprintf g m str n fmt ap = vsnprintf g m str n fmt ap"

end
