(* ===== verification/MemChanProps.thy ===== *)
theory MemChanProps
  imports MemChan
begin

text \<open>
  What a memory channel holds, the text that a format stands for, and that the functions of
  \<open>egos/lib/print.c\<close> print it within the bounds they are given.
\<close>

section \<open>The contents of a channel\<close>

definition mc_ok :: "mem_chan \<Rightarrow> u8 list \<Rightarrow> bool" where
  "mc_ok mc out \<longleftrightarrow> length (mc_buf mc) = unat (mc_size mc) \<and> unat (mc_offset mc) = length out \<and>
     length out \<le> length (mc_buf mc) \<and> take (length out) (mc_buf mc) = out"

lemma mc_alloc_ok: "mc_ok mc_alloc []"
  by (simp add: mc_ok_def mc_alloc_def)

lemma length_realloc_buf [simp]: "length (realloc_buf g buf n) = n"
  by (simp add: realloc_buf_def)

lemma take_realloc_buf: "k \<le> length buf \<Longrightarrow> k \<le> n \<Longrightarrow> take k (realloc_buf g buf n) = take k buf"
  by (simp add: realloc_buf_def min_def)

lemma mc_put_ok:
  assumes ok: "mc_ok mc out" and len: "length out + length bs < 2 ^ 32"
  shows "\<exists>mc'. mc_put g mc bs = Some mc' \<and> mc_ok mc' (out @ bs)"
proof -
  define n where "n = (of_nat (length bs) :: u32)"
  have n: "unat n = length bs" using len by (simp add: n_def unat32_of_nat)
  have off: "unat (mc_offset mc) = length out" using ok by (simp add: mc_ok_def)
  have sum: "unat (mc_offset mc + n) = length out + length bs" using len off n by (simp add: unat32_add)
  define mc1 where "mc1 = (if mc_offset mc + n > mc_size mc then
      (let sz = mc_size mc * 2; sz = (if mc_offset mc + n > sz then mc_offset mc + n else sz)
       in mc\<lparr>mc_size := sz, mc_buf := realloc_buf g (mc_buf mc) (unat sz)\<rparr>) else mc)"
  have m1: "mc_ok mc1 out" "length out + length bs \<le> length (mc_buf mc1)" "mc_offset mc1 = mc_offset mc"
  proof -
    show "mc_offset mc1 = mc_offset mc" by (simp add: mc1_def Let_def)
    show "length out + length bs \<le> length (mc_buf mc1)"
      using sum ok by (auto simp: mc1_def Let_def word_less_nat_alt mc_ok_def not_less)
    with ok off show "mc_ok mc1 out" by (auto simp: mc_ok_def mc1_def Let_def take_realloc_buf)
  qed
  define mc2 where "mc2 = mc1\<lparr>mc_buf := take (length out) (mc_buf mc1) @ bs @ drop (length out + length bs) (mc_buf mc1),
    mc_offset := mc_offset mc + n\<rparr>"
  have "mc_put g mc bs = Some mc2"
    using m1 off unfolding mc_put_def Let_def n_def [symmetric] mc1_def [unfolded Let_def, symmetric] by (simp add: mc2_def)
  moreover have "mc_ok mc2 (out @ bs)" using m1(1,2) sum by (simp add: mc2_def mc_ok_def)
  ultimately show ?thesis by blast
qed

lemma mc_putc_ok:
  assumes "mc_ok mc out" "length out + 1 < 2 ^ 32"
  shows "\<exists>mc'. mc_putc g mc c = Some mc' \<and> mc_ok mc' (out @ [c])"
  using mc_put_ok [of mc out "[c]" g] assms by (simp add: mc_putc_def)

lemma mc_puts_ok:
  assumes "mc_ok mc out" "length out + length s < 2 ^ 32"
  shows "\<exists>mc'. mc_puts g mc s = Some mc' \<and> mc_ok mc' (out @ s)"
  using assms
proof (induction s arbitrary: mc out)
  case (Cons c s)
  from mc_putc_ok [OF Cons.prems(1), of g c] Cons.prems(2) obtain mc' where m: "mc_putc g mc c = Some mc'" "mc_ok mc' (out @ [c])" by auto
  with Cons.IH [OF m(2)] Cons.prems(2) show ?case by simp
qed simp

section \<open>Digits\<close>

fun digits :: "nat \<Rightarrow> nat \<Rightarrow> nat list" where
  "digits b n = (if n = 0 \<or> b < 2 then [] else n mod b # digits b (n div b))"

declare digits.simps [simp del] mc_digits.simps [simp del]

lemma digits_less: "0 < n \<Longrightarrow> 2 \<le> b \<Longrightarrow> digits b n = n mod b # digits b (n div b)"
  by (simp add: digits.simps [of b n])

lemma digits_0 [simp]: "digits b 0 = []"
  by (simp add: digits.simps [of b 0])

lemma digits_range: "c \<in> set (digits b n) \<Longrightarrow> c < b"
proof (induction b n rule: digits.induct)
  case (1 b n)
  then show ?case by (auto simp: digits.simps [of b n] split: if_splits)
qed

lemma length_digits: "2 \<le> b \<Longrightarrow> n < b ^ k \<Longrightarrow> length (digits b n) \<le> k"
proof (induction k arbitrary: n)
  case (Suc k)
  show ?case
  proof (cases "n = 0")
    case False
    have "n div b < b ^ k" using Suc.prems by (simp add: div_less_iff_less_mult mult.commute)
    with Suc False show ?thesis by (simp add: digits_less)
  qed simp
qed simp

lemma mc_digits:
  assumes "2 \<le> base" "length (digits base d) \<le> p" "p \<le> length buf"
  shows "mc_digits chars base d buf p =
    Some (take (p - length (digits base d)) buf @ map ((!) chars) (rev (digits base d)) @ drop p buf, p - length (digits base d))"
  using assms(2,3)
proof (induction p arbitrary: d buf)
  case 0
  then show ?case by (cases "d = 0") (simp_all add: mc_digits.simps digits_less assms(1))
next
  case (Suc p)
  show ?case
  proof (cases "d = 0")
    case True
    then show ?thesis using Suc.prems by (simp add: mc_digits.simps)
  next
    case False
    define k where "k = length (digits base (d div base))"
    have k: "length (digits base d) = Suc k" "digits base d = d mod base # digits base (d div base)"
      using False assms(1) by (simp_all add: digits_less k_def)
    define buf' where "buf' = buf[p := chars ! (d mod base)]"
    have "k \<le> p" "p \<le> length buf'" using Suc.prems k(1) by (simp_all add: buf'_def)
    with Suc.IH [of "d div base" buf'] have "mc_digits chars base (d div base) buf' p =
      Some (take (p - k) buf' @ map ((!) chars) (rev (digits base (d div base))) @ drop p buf', p - k)" by (simp add: k_def)
    moreover have "take (p - k) buf' = take (p - k) buf" by (simp add: buf'_def)
    moreover have "drop p buf' = chars ! (d mod base) # drop (Suc p) buf"
      using Suc.prems(2) by (simp add: buf'_def Cons_nth_drop_Suc [symmetric])
    ultimately show ?thesis using False by (simp add: mc_digits.simps [of chars base d] k buf'_def flip: k_def)
  qed
qed

section \<open>The text of a format\<close>

definition num_text :: "bool \<Rightarrow> nat \<Rightarrow> nat \<Rightarrow> u8 list" where
  "num_text caps base n = (if n = 0 then [48] else map ((!) (hex_chars caps)) (rev (digits base n)))"

definition int_text :: "bool \<Rightarrow> nat \<Rightarrow> int \<Rightarrow> u8 list" where
  "int_text caps base d = (if d < 0 then 45 # num_text caps base (nat (- d)) else num_text caps base (nat d))"

lemma hex_chars_nonzero: "i < 16 \<Longrightarrow> hex_chars caps ! i \<noteq> 0"
proof -
  assume "i < 16"
  then have "i \<in> set [0..<16]" by simp
  moreover have "\<forall>i \<in> set [0..<16]. \<forall>c \<in> {True, False}. hex_chars c ! i \<noteq> 0" by (simp add: hex_chars_def ascii_def upt_rec)
  ultimately show ?thesis by (cases caps) blast+
qed

lemma mc_number_ok:
  assumes ok: "mc_ok mc out" and base: "2 \<le> base" "base \<le> 16" and d: "0 < d" "length (digits base d) \<le> 63"
    and len: "length out + length (num_text caps base d) < 2 ^ 32"
  shows "\<exists>mc'. mc_number g mc d base caps = Some mc' \<and> mc_ok mc' (out @ num_text caps base d)"
proof -
  define buf where "buf = (map g [0..<64])[63 := 0]"
  have len64: "length buf = 64" by (simp add: buf_def)
  then have "drop 63 buf = buf ! 63 # drop (Suc 63) buf" by (intro Cons_nth_drop_Suc [symmetric]) simp
  moreover have "buf ! 63 = 0" "drop (Suc 63) buf = []" by (simp_all add: buf_def)
  ultimately have buf: "length buf = 64" "drop 63 buf = [0]" using len64 by simp_all
  define tx where "tx = map ((!) (hex_chars caps)) (rev (digits base d))"
  define k where "k = length (digits base d)"
  have run: "mc_digits (hex_chars caps) base d buf 63 = Some (take (63 - k) buf @ tx @ [0], 63 - k)"
    using mc_digits [OF base(1) d(2), of buf "hex_chars caps"] buf by (simp add: tx_def k_def)
  have "0 \<notin> set tx"
  proof
    assume "0 \<in> set tx"
    then obtain i where "i \<in> set (digits base d)" "hex_chars caps ! i = 0" by (auto simp: tx_def)
    then show False using digits_range [of i base d] hex_chars_nonzero [of i caps] base(2) by simp
  qed
  then have "takeWhile (\<lambda>c. c \<noteq> 0) (tx @ [0]) = tx" by (subst takeWhile_append2) auto
  moreover have "tx = num_text caps base d" using d(1) by (simp add: tx_def num_text_def)
  moreover have "drop (63 - k) (take (63 - k) buf @ tx @ [0]) = tx @ [0]" using buf by simp
  ultimately have "mc_number g mc d base caps = mc_puts g mc (num_text caps base d)"
    by (simp add: mc_number_def Let_def run buf_def [symmetric] del: drop_append)
  with mc_puts_ok [OF ok len] show ?thesis by simp
qed

text \<open>One conversion: its text, and the arguments behind the one it takes.\<close>

definition conv :: "u8 \<Rightarrow> fmt_arg list \<Rightarrow> (u8 list \<times> fmt_arg list) option" where
  "conv f ap =
     (if f = of_char CHR ''c'' then (case ap of Arg_int i # ap \<Rightarrow> Some ([ucast i], ap) | _ \<Rightarrow> None)
      else if f = of_char CHR ''d'' \<or> f = of_char CHR ''i'' then (case ap of Arg_int i # ap \<Rightarrow> Some (int_text False 10 (sint i), ap) | _ \<Rightarrow> None)
      else if f = of_char CHR ''s'' then (case ap of Arg_str s # ap \<Rightarrow> Some (s, ap) | _ \<Rightarrow> None)
      else if f = of_char CHR ''u'' then (case ap of Arg_uint i # ap \<Rightarrow> Some (num_text False 10 (unat i), ap) | _ \<Rightarrow> None)
      else if f = of_char CHR ''x'' then (case ap of Arg_uint i # ap \<Rightarrow> Some (num_text False 16 (unat i), ap) | _ \<Rightarrow> None)
      else if f = of_char CHR ''X'' then (case ap of Arg_ulong i # ap \<Rightarrow> Some (num_text True 16 (unat i), ap) | _ \<Rightarrow> None)
      else Some ([f], ap))"

fun fmt_text :: "u8 list \<Rightarrow> fmt_arg list \<Rightarrow> u8 list option" where
  "fmt_text [] ap = Some []"
| "fmt_text [c] ap = Some (if c = of_char CHR ''%'' then [] else [c])"
| "fmt_text (c # f # fmt) ap =
     (if c \<noteq> of_char CHR ''%'' then map_option (Cons c) (fmt_text (f # fmt) ap)
      else (case conv f ap of None \<Rightarrow> None | Some (t, ap) \<Rightarrow> map_option (append t) (fmt_text fmt ap)))"

lemma num_digits:
  assumes "n < 2 ^ 64" "base = 10 \<or> base = 16"
  shows "length (digits base n) \<le> 20"
proof -
  have "(2 :: nat) ^ 64 \<le> 10 ^ 20" "(2 :: nat) ^ 64 \<le> 16 ^ 20" by simp_all
  with assms have "n < base ^ 20" by auto
  then show ?thesis by (rule length_digits [rotated]) (use assms(2) in auto)
qed

lemma num_text_length:
  assumes "n < 2 ^ 64" "base = 10 \<or> base = 16"
  shows "length (num_text caps base n) \<le> 20"
  using num_digits [OF assms] by (simp add: num_text_def)

lemma mc_unsigned_int_ok:
  assumes "mc_ok mc out" "base = 10 \<or> base = 16" "length out + length (num_text caps base (unat d)) < 2 ^ 32"
  shows "\<exists>mc'. mc_unsigned_int g mc d base caps = Some mc' \<and> mc_ok mc' (out @ num_text caps base (unat d))"
proof (cases "d = 0")
  case True
  with assms mc_putc_ok [OF assms(1), of g 48] show ?thesis by (auto simp: mc_unsigned_int_def num_text_def)
next
  case False
  have lt: "unat d < 2 ^ 64" using unsigned_less [of d] by simp
  have pos: "0 < unat d" using False by (simp add: unat_gt_0)
  have b: "2 \<le> base" "base \<le> 16" "\<not> (base < 2 \<or> base > 16)" using assms(2) by auto
  have "length (digits base (unat d)) \<le> 63" using num_digits [OF lt assms(2)] by simp
  from mc_number_ok [OF assms(1) b(1,2) pos this assms(3)] b(3) False show ?thesis
    unfolding mc_unsigned_int_def by simp
qed

lemma mc_signed_int_ok:
  assumes ok: "mc_ok mc out" and base: "base = 10 \<or> base = 16" and d: "\<bar>d\<bar> < 2 ^ 63"
    and len: "length out + length (int_text caps base d) < 2 ^ 32"
  shows "\<exists>mc'. mc_signed_int g mc d base caps = Some mc' \<and> mc_ok mc' (out @ int_text caps base d)"
proof -
  have b: "2 \<le> base" "base \<le> 16" "\<not> (base < 2 \<or> base > 16)" using base by auto
  have dg: "length (digits base (nat \<bar>d\<bar>)) \<le> 63"
  proof -
    have "nat \<bar>d\<bar> < 2 ^ 64" using d by (simp add: nat_less_iff)
    from num_digits [OF this base] show ?thesis by simp
  qed
  consider "d = 0" | "0 < d" | "d < 0" by linarith
  then show ?thesis
  proof cases
    case 1
    with assms mc_putc_ok [OF ok, of g 48] b show ?thesis by (auto simp: mc_signed_int_def int_text_def num_text_def)
  next
    case 2
    with len have l: "length out + length (num_text caps base (nat d)) < 2 ^ 32" by (simp add: int_text_def)
    have "0 < nat d" "length (digits base (nat d)) \<le> 63" using 2 dg by simp_all
    from mc_number_ok [OF ok b(1,2) this l] 2 b(3) show ?thesis unfolding mc_signed_int_def int_text_def by simp
  next
    case 3
    with len have l: "length (out @ [45]) + length (num_text caps base (nat (- d))) < 2 ^ 32" by (simp add: int_text_def)
    then have "length out + 1 < 2 ^ 32" by simp
    from mc_putc_ok [OF ok this, of g 45] obtain mc1 where m1: "mc_putc g mc 45 = Some mc1" "mc_ok mc1 (out @ [45])" by blast
    have "0 < nat (- d)" "length (digits base (nat (- d))) \<le> 63" using 3 dg by simp_all
    from mc_number_ok [OF m1(2) b(1,2) this l, of g] obtain mc' where "mc_number g mc1 (nat (- d)) base caps = Some mc'"
      "mc_ok mc' ((out @ [45]) @ num_text caps base (nat (- d)))" by blast
    moreover have "d \<noteq> - (2 ^ 63)" using d by auto
    ultimately show ?thesis using 3 m1(1) b(3) unfolding mc_signed_int_def int_text_def by simp
  qed
qed

lemma sint32_abs: "\<bar>sint (i :: u32)\<bar> < 2 ^ 63"
  using sint_ge [of i] sint_less [of i] by (simp add: abs_less_iff)

lemma ucast_unat [simp]: "unat (ucast (i :: u32) :: u64) = unat i"
  using unat32_less [of i] by (simp add: unsigned_ucast_eq take_bit_eq_mod)

text \<open>A conversion prints its text.\<close>

lemma mc_conv:
  assumes cv: "conv f ap = Some (t, ap')" and ok: "mc_ok mc out" and len: "length out + length t < 2 ^ 32"
  shows "\<exists>mc'. mc_vprintf g mc (of_char CHR ''%'' # f # fmt) ap = mc_vprintf g mc' fmt ap' \<and> mc_ok mc' (out @ t)"
proof -
  have *: ?thesis if "mc_vprintf g mc (of_char CHR ''%'' # f # fmt) ap = do { mc \<leftarrow> r; mc_vprintf g mc fmt ap' }"
    "\<exists>mc'. r = Some mc' \<and> mc_ok mc' (out @ t)" for r using that by auto
  consider (c) i where "f = of_char CHR ''c''" "ap = Arg_int i # ap'" "t = [ucast i]"
    | (d) i where "f = of_char CHR ''d'' \<or> f = of_char CHR ''i''" "ap = Arg_int i # ap'" "t = int_text False 10 (sint i)"
    | (s) "f = of_char CHR ''s''" "ap = Arg_str t # ap'"
    | (u) i where "f = of_char CHR ''u''" "ap = Arg_uint i # ap'" "t = num_text False 10 (unat i)"
    | (x) i where "f = of_char CHR ''x''" "ap = Arg_uint i # ap'" "t = num_text False 16 (unat i)"
    | (X) i where "f = of_char CHR ''X''" "ap = Arg_ulong i # ap'" "t = num_text True 16 (unat i)"
    | (other) "f \<notin> of_char ` {CHR ''c'', CHR ''d'', CHR ''i'', CHR ''s'', CHR ''u'', CHR ''x'', CHR ''X''}" "ap = ap'" "t = [f]"
    using cv unfolding conv_def by (auto split: if_splits list.splits fmt_arg.splits)
  then show ?thesis
  proof cases
    case (c i)
    with mc_putc_ok [OF ok, of g "ucast i"] len show ?thesis by (intro * [of "mc_putc g mc (ucast i)"]) simp_all
  next
    case (d i)
    with mc_signed_int_ok [OF ok _ sint32_abs, of 10 False i g] len
    show ?thesis by (intro * [of "mc_signed_int g mc (sint i) 10 False"]) auto
  next
    case s
    with mc_puts_ok [OF ok len] show ?thesis by (intro * [of "mc_puts g mc t"]) simp_all
  next
    case (u i)
    with mc_unsigned_int_ok [OF ok, of 10 False "ucast i" g] len
    show ?thesis by (intro * [of "mc_unsigned_int g mc (ucast i) 10 False"]) simp_all
  next
    case (x i)
    with mc_unsigned_int_ok [OF ok, of 16 False "ucast i" g] len
    show ?thesis by (intro * [of "mc_unsigned_int g mc (ucast i) 16 False"]) simp_all
  next
    case (X i)
    with mc_unsigned_int_ok [OF ok, of 16 True i g] len
    show ?thesis by (intro * [of "mc_unsigned_int g mc i 16 True"]) simp_all
  next
    case other
    with mc_putc_ok [OF ok, of g f] len show ?thesis by (intro * [of "mc_putc g mc f"]) simp_all
  qed
qed

lemma vprintf_text:
  assumes "fmt_text fmt ap = Some tx" "mc_ok mc out" "length out + length tx < 2 ^ 32"
  shows "\<exists>mc'. mc_vprintf g mc fmt ap = Some mc' \<and> mc_ok mc' (out @ tx)"
  using assms
proof (induction fmt ap arbitrary: mc out tx rule: fmt_text.induct)
  case (1 ap)
  then show ?case by simp
next
  case (2 c ap)
  then show ?case using mc_putc_ok [of mc out g c] by (auto split: if_splits)
next
  case (3 c f fmt ap)
  show ?case
  proof (cases "c = of_char CHR ''%''")
    case False
    with "3.prems"(1) obtain t where t: "fmt_text (f # fmt) ap = Some t" "tx = c # t" by auto
    have "length out + 1 < 2 ^ 32" using "3.prems"(3) t(2) by simp
    from mc_putc_ok [OF "3.prems"(2) this, of g c] obtain mc1 where m1: "mc_putc g mc c = Some mc1" "mc_ok mc1 (out @ [c])" by blast
    from "3.IH"(1) [OF False t(1) m1(2)] "3.prems"(3) t(2) obtain mc' where
      "mc_vprintf g mc1 (f # fmt) ap = Some mc'" "mc_ok mc' ((out @ [c]) @ t)" by auto
    with m1 False t(2) show ?thesis by simp
  next
    case True
    with "3.prems"(1) obtain t ap' t2 where t: "conv f ap = Some (t, ap')" "fmt_text fmt ap' = Some t2" "tx = t @ t2"
      by (auto split: option.splits)
    have "length out + length t < 2 ^ 32" using "3.prems"(3) t(3) by simp
    from mc_conv [OF t(1) "3.prems"(2) this, of g fmt] obtain mc1 where
      m1: "mc_vprintf g mc (of_char CHR ''%'' # f # fmt) ap = mc_vprintf g mc1 fmt ap'" "mc_ok mc1 (out @ t)" by blast
    from "3.IH"(2) [OF _ t(1) refl t(2) m1(2)] True "3.prems"(3) t(3) obtain mc' where
      "mc_vprintf g mc1 fmt ap' = Some mc'" "mc_ok mc' ((out @ t) @ t2)" by auto
    with m1(1) t(3) True show ?thesis by simp
  qed
qed

section \<open>Reading a number back\<close>

definition value_of :: "int \<Rightarrow> nat list \<Rightarrow> int" where
  "value_of v ds = foldl (\<lambda>v c. v * 10 + int c) v ds"

lemma value_of_simps [simp]: "value_of v [] = v" "value_of v (c # ds) = value_of (v * 10 + int c) ds"
  by (simp_all add: value_of_def)

lemma value_of_append: "value_of v (ds @ [c]) = value_of v ds * 10 + int c"
  by (simp add: value_of_def)

lemma value_of_ge: "0 \<le> v \<Longrightarrow> v \<le> value_of v ds"
proof (induction ds arbitrary: v)
  case (Cons c ds)
  from Cons.IH [of "v * 10 + int c"] Cons.prems show ?case by simp
qed simp

lemma value_of_digits: "value_of 0 (rev (digits 10 n)) = int n"
proof (induction n rule: less_induct)
  case (less n)
  show ?case
  proof (cases "n = 0")
    case False
    then have "value_of 0 (rev (digits 10 (n div 10))) = int (n div 10)" by (intro less.IH) simp
    moreover have "int (n div 10) * 10 + int (n mod 10) = int n"
      by (metis div_mult_mod_eq of_nat_add of_nat_mult of_nat_numeral)
    ultimately show ?thesis using False by (simp add: digits_less value_of_append)
  qed simp
qed

definition digit :: "nat \<Rightarrow> u8" where
  "digit c = of_nat (48 + c)"

lemma digit: "c < 10 \<Longrightarrow> sint (digit c) = 48 + int c \<and> digit c \<noteq> 0 \<and> hex_chars False ! c = digit c"
proof -
  assume "c < 10"
  then have "c \<in> set [0..<10]" by simp
  moreover have "\<forall>c \<in> set [0..<10]. sint (digit c) = 48 + int c \<and> digit c \<noteq> 0 \<and> hex_chars False ! c = digit c"
    by (simp add: digit_def hex_chars_def ascii_def upt_rec)
  ultimately show ?thesis by blast
qed

lemma digits_loop:
  assumes "cstr m s (map digit ds)" "\<forall>c\<in>set ds. c < 10" "0 \<le> v" "v < lim"
  shows "digits_loop lim m s v = (if value_of v ds < lim then Some (value_of v ds) else None)"
  using assms
proof (induction ds arbitrary: s v)
  case Nil
  then show ?case by (simp add: digits_loop.simps)
next
  case (Cons c ds)
  have c: "sint (digit c) = 48 + int c" "m s = digit c" "c \<le> 9" using Cons.prems(1,2) digit [of c] by auto
  define v' where "v' = v * 10 + int c"
  show ?case
  proof (cases "v' < lim")
    case True
    with Cons.IH [of "s + 1" v'] Cons.prems show ?thesis
      by (subst digits_loop.simps) (simp add: c v'_def)
  next
    case False
    with value_of_ge [of v' ds] Cons.prems(3) have "\<not> value_of v' ds < lim" by (simp add: v'_def)
    with False show ?thesis by (subst digits_loop.simps) (simp add: c v'_def)
  qed
qed

lemma atoi_digits:
  assumes "cstr m s ((if neg then [45] else []) @ map digit ds)" "\<forall>c\<in>set ds. c < 10" "ds \<noteq> []"
  shows "atoi m s = (if value_of 0 ds < 2 ^ 31 then Some (if neg then - value_of 0 ds else value_of 0 ds) else None)"
proof -
  obtain c cs where ds: "ds = c # cs" using assms(3) by (cases ds) auto
  have c: "sint (digit c) = 48 + int c" "c < 10" using assms(2) digit [of c] by (simp_all add: ds)
  have "digit c \<notin> {32, 9, 45, 43}"
  proof
    assume "digit c \<in> {32, 9, 45, 43}"
    then have "sint (digit c) \<in> {32, 9, 45, 43}" by auto
    with c show False by auto
  qed
  then show ?thesis using assms digits_loop [of m "if neg then s + 1 else s" ds 0 "2 ^ 31"]
    by (cases neg) (auto simp: atoi_def ato_int_def skip_blanks.simps [of m s] ds)
qed

lemma num_text_digits: "num_text False 10 n = map digit (if n = 0 then [0] else rev (digits 10 n))"
  using digits_range [of _ 10 n] digit by (auto simp: num_text_def digit_def)

lemma vsnprintf_text:
  assumes "fmt_text fmt ap = Some tx" "length tx < 2 ^ 31"
  shows "vsnprintf g m str n fmt ap = Some (int (length tx), if n = 0 then m else put_bytes m str (take (n - 1) tx @ [0]))"
proof -
  have "length [] + length tx < 2 ^ 32" using assms(2) by simp
  from vprintf_text [OF assms(1) mc_alloc_ok this, of g] obtain mc where
    mc: "mc_vprintf g mc_alloc fmt ap = Some mc" "mc_ok mc tx" by auto
  have off: "unat (mc_offset mc) = length tx" and buf: "take (length tx) (mc_buf mc) = tx" "length tx \<le> length (mc_buf mc)"
    using mc(2) by (simp_all add: mc_ok_def)
  have tot: "sint (mc_offset mc) = int (length tx)" using sint32_small [of "mc_offset mc"] off assms(2) by simp
  show ?thesis
  proof (cases "n = 0")
    case True
    with mc(1) tot show ?thesis by (simp add: vsnprintf_def)
  next
    case False
    define k where "k = min (n - 1) (length tx)"
    have "take k (mc_buf mc) = take k tx" using buf(1) by (metis k_def min.cobounded2 min_def take_take)
    also have "take k tx = take (n - 1) tx" by (simp add: k_def min_def)
    finally have t: "take k (mc_buf mc) = take (n - 1) tx" .
    have len: "length (take (n - 1) tx) = k" by (simp add: k_def min.commute)
    have kk: "(if n - 1 > length tx then length tx else n - 1) = k" by (simp add: k_def)
    have "(put_bytes m str (take (n - 1) tx))(str + k := 0) = put_bytes m str (take (n - 1) tx @ [0])"
      using put_bytes_snoc [of m str "take (n - 1) tx" 0] len by simp
    with False mc(1) tot show ?thesis by (simp only: vsnprintf_def Option.bind.bind_lunit Let_def off kk t) simp
  qed
qed

section \<open>Properties\<close>

text \<open>C35: \<open>vsnprintf\<close> never writes more bytes than it is told to, and always terminates what it
  writes: of the text that the format and its arguments stand for, the string gets as many bytes as
  fit before the terminator, no other byte of memory changes, and the result is the length of the
  whole text. With size 0 nothing is written. The text must be shorter than 2 gigabytes.\<close>
theorem vsnprintf_bounds:
  assumes "fmt_text fmt ap = Some tx" "length tx < 2 ^ 31"
  shows "vsnprintf g m str n fmt ap = Some (int (length tx), if n = 0 then m else put_bytes m str (take (n - 1) tx @ [0]))"
  by (rule vsnprintf_text [OF assms])

theorem vsnprintf_bounds_witness:
  "vsnprintf (\<lambda>_. 0) (\<lambda>_. 0) 100 3 (ascii ''ab%sc'') [Arg_str (ascii ''xy'')] = Some (5, put_bytes (\<lambda>_. 0) 100 (ascii ''ab'' @ [0]))"
proof -
  have "fmt_text (ascii ''ab%sc'') [Arg_str (ascii ''xy'')] = Some (ascii ''abxyc'')" by (simp add: ascii_def conv_def)
  from vsnprintf_bounds [OF this, of "\<lambda>_. 0" "\<lambda>_. 0" 100 3] show ?thesis by (simp add: ascii_def)
qed

text \<open>\<open>atoi\<close> reads back what \<open>snprintf\<close> prints for an integer, except the least one: its absolute
  value overflows the sum, which is undefined.\<close>
theorem printf_atoi:
  assumes "12 \<le> n"
  shows "\<exists>k m'. snprintf g m str n (ascii ''%d'') [Arg_int d] = Some (k, m') \<and>
    atoi m' str = (if sint d = - (2 ^ 31) then None else Some (sint d))"
proof -
  define tx where "tx = int_text False 10 (sint d)"
  define a where "a = nat \<bar>sint d\<bar>"
  define ds where "ds = (if a = 0 then [0] else rev (digits 10 a))"
  have a31: "a \<le> 2 ^ 31" using sint_ge [of d] sint_less [of d] by (simp add: a_def abs_le_iff nat_le_iff)
  have tx: "tx = (if sint d < 0 then [45] else []) @ map digit ds"
    by (simp add: tx_def int_text_def num_text_digits ds_def a_def)
  have "a < 10 ^ 10" using a31 by simp
  then have "length (digits 10 a) \<le> 10" by (rule length_digits [rotated]) simp
  then have len: "length tx \<le> 11" by (simp add: tx ds_def)
  have dg: "\<forall>c\<in>set ds. c < 10" using digits_range [of _ 10 a] by (auto simp: ds_def)
  have f: "fmt_text (ascii ''%d'') [Arg_int d] = Some tx" by (simp add: ascii_def conv_def tx_def)
  then have run: "snprintf g m str n (ascii ''%d'') [Arg_int d] = Some (int (length tx), put_bytes m str (tx @ [0]))"
  proof -
    have "take (n - 1) tx = tx" "n \<noteq> 0" "length tx < 2 ^ 31" using assms len by simp_all
    with vsnprintf_text [OF f] show ?thesis by (simp add: snprintf_def)
  qed
  have "mem_bytes (put_bytes m str (tx @ [0])) str (length tx) = tx"
    by (rule nth_equalityI) (simp_all add: put_bytes_def nth_append)
  moreover have "0 \<notin> set tx" using dg digit by (fastforce simp: tx)
  ultimately have "cstr (put_bytes m str (tx @ [0])) str tx" by (simp add: cstr_def put_bytes_def nth_append)
  from atoi_digits [OF this [unfolded tx] dg] have "atoi (put_bytes m str (tx @ [0])) str =
      (if value_of 0 ds < 2 ^ 31 then Some (if sint d < 0 then - value_of 0 ds else value_of 0 ds) else None)"
    using digits_less [of a 10] by (auto simp: tx ds_def)
  moreover have "value_of 0 ds = int a" using value_of_digits [of a] by (simp add: ds_def)
  moreover have "int a < 2 ^ 31 \<longleftrightarrow> sint d \<noteq> - (2 ^ 31)" "int a = (if sint d < 0 then - sint d else sint d)"
    using sint_ge [of d] sint_less [of d] by (auto simp: a_def)
  ultimately show ?thesis using run by auto
qed

theorem printf_atoi_witness:
  "\<exists>k m'. snprintf (\<lambda>_. 0) (\<lambda>_. 0) 100 12 (ascii ''%d'') [Arg_int (- 42)] = Some (k, m') \<and> atoi m' 100 = Some (- 42)"
  using printf_atoi [of 12 "\<lambda>_. 0" "\<lambda>_. 0" 100 "- 42"] by simp

end
