(* ===== verification/DirSvr.thy ===== *)
theory DirSvr
  imports FileSvr Tlb
begin

text \<open>
  The directory server (\<open>egos/grass/dirsvr.c\<close>) and its clients (\<open>egos/shared/dir.c\<close>). A directory is a
  file of 32-byte entries on some file server. \<open>rpc\<close> gives the file server with a process number;
  \<open>strnlen\<close>, \<open>strncmp\<close> and \<open>strncpy\<close> are those of the host's C library, on lists of bytes.
\<close>

section \<open>Messages and entries\<close>

record fid =
  fid_server :: u32
  fid_ino :: u32

definition DIR_ENTRY_SIZE :: nat where "DIR_ENTRY_SIZE = 32"
definition DIR_NAME_SIZE :: nat where "DIR_NAME_SIZE = DIR_ENTRY_SIZE - 8"

datatype dir_op = DIR_UNUSED | DIR_LOOKUP | DIR_INSERT | DIR_REMOVE
datatype dir_status = DIR_OK | DIR_ERROR

record dir_request =
  dq_type :: dir_op
  dq_dir :: fid
  dq_fid :: fid
  dq_size :: u32

record dir_reply =
  dp_status :: dir_status
  dp_fid :: fid

definition zero_fid :: fid where
  "zero_fid = \<lparr>fid_server = 0, fid_ino = 0\<rparr>"

text \<open>\<open>struct dir_entry\<close>: the file identifier, then the name.\<close>

definition fid_bytes :: "fid \<Rightarrow> u8 list" where
  "fid_bytes f = le32 (fid_server f) @ le32 (fid_ino f)"

definition de_fid :: "u8 list \<Rightarrow> fid" where
  "de_fid de = \<lparr>fid_server = get32 de 0, fid_ino = get32 de 4\<rparr>"

definition de_name :: "u8 list \<Rightarrow> u8 list" where
  "de_name de = take DIR_NAME_SIZE (drop 8 de)"

definition strnlen_bytes :: "u8 list \<Rightarrow> nat \<Rightarrow> nat" where
  "strnlen_bytes s n = length (takeWhile (\<lambda>c. c \<noteq> 0) (take n s))"

definition strncmp_bytes :: "u8 list \<Rightarrow> u8 list \<Rightarrow> nat \<Rightarrow> bool" where
  "strncmp_bytes s t n \<longleftrightarrow> takeWhile (\<lambda>c. c \<noteq> 0) (take n s) = takeWhile (\<lambda>c. c \<noteq> 0) (take n t)"

definition name_cmp :: "u8 list \<Rightarrow> u8 list \<Rightarrow> bool" where
  "name_cmp de s = (if strnlen_bytes (de_name de) DIR_NAME_SIZE \<noteq> length s then False else strncmp_bytes (de_name de) s (length s))"

section \<open>Handlers\<close>

definition dir_respond :: "dir_status \<Rightarrow> fid option \<Rightarrow> dir_reply" where
  "dir_respond status f = \<lparr>dp_status = status, dp_fid = (case f of None \<Rightarrow> zero_fid | Some f \<Rightarrow> f)\<rparr>"

text \<open>The entries of one page.\<close>

fun lookup_page :: "u8 list \<Rightarrow> u8 list \<Rightarrow> fid option" where
  "lookup_page name buf =
     (if buf = [] then None
      else if name_cmp (take DIR_ENTRY_SIZE buf) name then Some (de_fid (take DIR_ENTRY_SIZE buf))
      else lookup_page name (drop (Suc 31) buf))"

partial_function (option) lookup_loop :: "'s file_rpc \<Rightarrow> u32 \<Rightarrow> u8 list \<Rightarrow> u64 \<Rightarrow> 's \<Rightarrow> (dir_reply \<times> 's) option" where
  "lookup_loop rpc ino name offset s = do {
     (r, s) \<leftarrow> file_read rpc ino offset PAGESIZE s;
     (case r of
        None \<Rightarrow> Some (dir_respond DIR_ERROR None, s)
      | Some buf \<Rightarrow>
          if buf = [] then Some (dir_respond DIR_ERROR None, s)
          else if length buf mod DIR_ENTRY_SIZE \<noteq> 0 then None
          else (case lookup_page name buf of
              Some f \<Rightarrow> Some (dir_respond DIR_OK (Some f), s)
            | None \<Rightarrow> lookup_loop rpc ino name (offset + of_nat (length buf)) s)) }"

definition dir_do_lookup :: "(u32 \<Rightarrow> 's file_rpc) \<Rightarrow> dir_request \<Rightarrow> u8 list \<Rightarrow> 's \<Rightarrow> (dir_reply \<times> 's) option" where
  "dir_do_lookup rpc req name s =
     (if length name > DIR_NAME_SIZE then Some (dir_respond DIR_ERROR None, s)
      else lookup_loop (rpc (fid_server (dq_dir req))) (fid_ino (dq_dir req)) name 0 s)"

text \<open>\<open>None\<close>: the name exists already. Otherwise the offset of the first free entry so far, if any.\<close>

fun insert_page :: "u8 list \<Rightarrow> u64 \<Rightarrow> u64 option \<Rightarrow> u8 list \<Rightarrow> u64 option option" where
  "insert_page name offset free buf =
     (if buf = [] then Some free
      else if buf ! 8 = 0 then
        insert_page name (offset + of_nat DIR_ENTRY_SIZE) (if free = None then Some offset else free) (drop (Suc 31) buf)
      else if name_cmp (take DIR_ENTRY_SIZE buf) name then None
      else insert_page name (offset + of_nat DIR_ENTRY_SIZE) free (drop (Suc 31) buf))"

text \<open>The search: \<open>Inl\<close> is an answer, \<open>Inr\<close> the offset for the new entry.\<close>

partial_function (option) insert_loop ::
  "'s file_rpc \<Rightarrow> u32 \<Rightarrow> u8 list \<Rightarrow> u64 \<Rightarrow> u64 option \<Rightarrow> 's \<Rightarrow> ((dir_reply + u64) \<times> 's) option" where
  "insert_loop rpc ino name offset free s = do {
     (r, s) \<leftarrow> file_read rpc ino offset PAGESIZE s;
     (case r of
        None \<Rightarrow> Some (Inl (dir_respond DIR_ERROR None), s)
      | Some buf \<Rightarrow>
          if buf = [] then Some (Inr (case free of None \<Rightarrow> offset | Some off \<Rightarrow> off), s)
          else if length buf mod DIR_ENTRY_SIZE \<noteq> 0 then None
          else (case insert_page name offset free buf of
              None \<Rightarrow> Some (Inl (dir_respond DIR_ERROR None), s)
            | Some free \<Rightarrow> insert_loop rpc ino name (offset + of_nat (length buf)) free s)) }"

definition new_entry :: "u8 list \<Rightarrow> fid \<Rightarrow> u8 list" where
  "new_entry name f = fid_bytes f @ take DIR_NAME_SIZE (takeWhile (\<lambda>c. c \<noteq> 0) name @ replicate DIR_NAME_SIZE 0)"

definition dir_do_insert :: "(u32 \<Rightarrow> 's file_rpc) \<Rightarrow> dir_request \<Rightarrow> u8 list \<Rightarrow> 's \<Rightarrow> (dir_reply \<times> 's) option" where
  "dir_do_insert rpc req name s =
     (if length name > DIR_NAME_SIZE then Some (dir_respond DIR_ERROR None, s)
      else do {
        (r, s) \<leftarrow> insert_loop (rpc (fid_server (dq_dir req))) (fid_ino (dq_dir req)) name 0 None s;
        (case r of
           Inl rep \<Rightarrow> Some (rep, s)
         | Inr offset \<Rightarrow> do {
             (wstatus, s) \<leftarrow> file_write (rpc (fid_server (dq_dir req))) (fid_ino (dq_dir req)) offset (new_entry name (dq_fid req)) s;
             Some (dir_respond (if wstatus then DIR_OK else DIR_ERROR) (Some (dq_fid req)), s) }) })"

text \<open>One request of the server's loop. A remove request gets no answer; any other stops the kernel.\<close>

definition dir_proc :: "(u32 \<Rightarrow> 's file_rpc) \<Rightarrow> dir_request \<times> u8 list \<Rightarrow> 's \<Rightarrow> (dir_reply option \<times> 's) option" where
  "dir_proc rpc msg s = (case msg of (req, name) \<Rightarrow>
     (case dq_type req of
        DIR_LOOKUP \<Rightarrow> map_option (apfst Some) (dir_do_lookup rpc req name s)
      | DIR_INSERT \<Rightarrow> map_option (apfst Some) (dir_do_insert rpc req name s)
      | DIR_REMOVE \<Rightarrow> Some (None, s)
      | DIR_UNUSED \<Rightarrow> None))"

section \<open>Clients\<close>

text \<open>\<open>sys_rpc\<close> to the directory server: \<open>None\<close> as a reply is a call that has not been answered.\<close>

type_synonym 's dir_rpc = "dir_request \<times> u8 list \<Rightarrow> 's \<Rightarrow> (dir_reply option \<times> 's) option"

definition dir_lookup :: "'s dir_rpc \<Rightarrow> fid \<Rightarrow> u8 list \<Rightarrow> 's \<Rightarrow> (fid option \<times> 's) option" where
  "dir_lookup drpc dir path s = do {
     (r, s) \<leftarrow> drpc (\<lparr>dq_type = DIR_LOOKUP, dq_dir = dir, dq_fid = zero_fid, dq_size = of_nat (length path)\<rparr>, path) s;
     Some (case r of None \<Rightarrow> None | Some rep \<Rightarrow> if dp_status rep \<noteq> DIR_OK then None else Some (dp_fid rep), s) }"

definition dir_insert :: "'s dir_rpc \<Rightarrow> fid \<Rightarrow> u8 list \<Rightarrow> fid \<Rightarrow> 's \<Rightarrow> (bool \<times> 's) option" where
  "dir_insert drpc dir path f s = do {
     (r, s) \<leftarrow> drpc (\<lparr>dq_type = DIR_INSERT, dq_dir = dir, dq_fid = f, dq_size = of_nat (length path)\<rparr>, path) s;
     Some (case r of None \<Rightarrow> False | Some rep \<Rightarrow> dp_status rep = DIR_OK, s) }"

text \<open>The names of the first two entries of a directory; \<open>junk\<close> is what the local variable holds.\<close>

definition dir_entry_of :: "fid \<Rightarrow> u8 list \<Rightarrow> u8 list \<Rightarrow> u8 list" where
  "dir_entry_of f name junk = fid_bytes f @ name @ [0] @ drop (length name + 1) junk"

definition dot_dir :: "u8 list" where "dot_dir = map of_char ''..dir''"
definition dotdot_dir :: "u8 list" where "dotdot_dir = map of_char ''...dir''"

definition dir_create2 :: "(u32 \<Rightarrow> 's file_rpc) \<Rightarrow> 's dir_rpc \<Rightarrow> u8 list \<Rightarrow> u32 \<Rightarrow> u32 \<Rightarrow> fid \<Rightarrow> u8 list \<Rightarrow> 's \<Rightarrow> (fid option \<times> 's) option" where
  "dir_create2 rpc drpc junk filesvr mode dir path s = do {
     ((ok, ino), s) \<leftarrow> file_create (rpc filesvr) mode s;
     (if \<not> ok then Some (None, s)
      else (case ino of
          None \<Rightarrow> Some (None, s)
        | Some ino \<Rightarrow>
            let f = \<lparr>fid_server = filesvr, fid_ino = ino\<rparr>; de = dir_entry_of f dot_dir junk in do {
              (_, s) \<leftarrow> file_write (rpc filesvr) ino 0 de s;
              (_, s) \<leftarrow> file_write (rpc filesvr) ino (of_nat DIR_ENTRY_SIZE) (dir_entry_of dir dotdot_dir (drop 8 de)) s;
              (_, s) \<leftarrow> dir_insert drpc dir path f s;
              Some (Some f, s) })) }"

definition dir_create :: "(u32 \<Rightarrow> 's file_rpc) \<Rightarrow> 's dir_rpc \<Rightarrow> u8 list \<Rightarrow> fid \<Rightarrow> u8 list \<Rightarrow> 's \<Rightarrow> (fid option \<times> 's) option" where
  "dir_create rpc drpc junk dir path = dir_create2 rpc drpc junk (fid_server dir) P_FILE_DEFAULT dir path"

end
