(* ===== verification/Stdio.thy ===== *)
theory Stdio
  imports DirSvr MemChan
begin

text \<open>
  The streams of user programs (\<open>egos/lib/stdio.c\<close>, \<open>grass_stdio.h\<close>) and the printing functions of
  \<open>egos/lib/print.c\<close> that use a file server. A stream is passed by value and returned updated; a string is
  the bytes before its terminator. What a program sees of the system is a record: the file servers and
  directory servers by process number, its environment, and what \<open>realloc\<close> leaves in new memory.
  Allocation succeeds.
\<close>

section \<open>Environment and streams\<close>

definition GPID_DIR :: nat where "GPID_DIR = 4"

record grass_env =
  ge_self :: u32
  ge_servers :: "u32 list"
  ge_argc :: u32
  ge_argv :: u64
  ge_envp :: u64
  ge_root :: fid
  ge_cwd :: fid
  ge_home :: fid
  ge_stdin :: fid
  ge_stdout :: fid
  ge_stderr :: fid
  ge_stdnull :: fid

record 's user_env =
  ue_file :: "u32 \<Rightarrow> 's file_rpc"
  ue_dir :: "u32 \<Rightarrow> 's dir_rpc"
  ue_env :: grass_env
  ue_mem :: "nat \<Rightarrow> u8"

record stream =
  sm_fid :: fid
  sm_pos :: u64
  sm_flags :: u32

definition F_READ :: u32 where "F_READ = 1"
definition F_WRITE :: u32 where "F_WRITE = 2"
definition F_APPEND :: u32 where "F_APPEND = 4"
definition F_EOF :: u32 where "F_EOF = 8"
definition F_ERROR :: u32 where "F_ERROR = 16"

definition SEEK_SET :: u32 where "SEEK_SET = 1"
definition SEEK_CUR :: u32 where "SEEK_CUR = 2"
definition SEEK_END :: u32 where "SEEK_END = 3"

definition EOF :: u32 where "EOF = - 1"

definition falloc :: "fid \<Rightarrow> u32 \<Rightarrow> stream" where
  "falloc f flags = \<lparr>sm_fid = f, sm_pos = 0, sm_flags = flags\<rparr>"

section \<open>Formatted output to the terminal\<close>

definition printf :: "'s user_env \<Rightarrow> u8 list \<Rightarrow> fmt_arg list \<Rightarrow> 's \<Rightarrow> (bool \<times> 's) option" where
  "printf G fmt ap s = do {
     mc \<leftarrow> mc_vprintf (ue_mem G) mc_alloc fmt ap;
     file_write (ue_file G (fid_server (ge_stdout (ue_env G)))) (fid_ino (ge_stdout (ue_env G))) 0 (take (unat (mc_offset mc)) (mc_buf mc)) s }"

text \<open>The stream that \<open>fprintf\<close> is given is not used.\<close>

definition fprintf :: "'s user_env \<Rightarrow> stream \<Rightarrow> u8 list \<Rightarrow> fmt_arg list \<Rightarrow> 's \<Rightarrow> (bool \<times> 's) option" where
  "fprintf G fp fmt ap s = do {
     mc \<leftarrow> mc_vprintf (ue_mem G) mc_alloc fmt ap;
     file_write (ue_file G (fid_server (ge_stderr (ue_env G)))) (fid_ino (ge_stderr (ue_env G))) 0 (take (unat (mc_offset mc)) (mc_buf mc)) s }"

definition stdio_finit :: "grass_env \<Rightarrow> stream \<times> stream \<times> stream" where
  "stdio_finit ge = (falloc (ge_stdin ge) F_READ, falloc (ge_stdout ge) (F_WRITE OR F_APPEND), falloc (ge_stderr ge) (F_WRITE OR F_APPEND))"

section \<open>Path names\<close>

definition dot_dir_suffix :: "u8 list" where "dot_dir_suffix = ascii ''.dir''"

text \<open>The walk through the components of a path. The result is whether it succeeded, and what it stores
  as the directory and as the file, if it stores something.\<close>

function flookup_walk :: "'s dir_rpc \<Rightarrow> bool \<Rightarrow> u8 list \<Rightarrow> fid \<Rightarrow> fid \<Rightarrow> 's \<Rightarrow> ((bool \<times> fid option \<times> fid option) \<times> 's) option" where
  "flookup_walk drpc is_dir path dir f s =
     (if path = [] then Some ((True, Some dir, Some f), s)
      else if 47 \<notin> set path then do {
        (r, s) \<leftarrow> dir_lookup drpc dir (if is_dir then path @ dot_dir_suffix else path) s;
        Some ((r \<noteq> None, Some dir, r), s) }
      else do {
        (r, s) \<leftarrow> dir_lookup drpc dir (takeWhile (\<lambda>c. c \<noteq> 47) path @ dot_dir_suffix) s;
        (case r of
           None \<Rightarrow> Some ((False, None, None), s)
         | Some f \<Rightarrow> flookup_walk drpc is_dir (tl (dropWhile (\<lambda>c. c \<noteq> 47) path)) f f s) })"
  by pat_completeness auto

termination
proof (relation "measure (\<lambda>(drpc, is_dir, path, dir, f, s). length path)", goal_cases)
  case (2 drpc is_dir path dir f s x a s' f')
  then show ?case using length_dropWhile_le [of "\<lambda>c. c \<noteq> 47" path] by (cases path) (auto simp: less_Suc_eq_le)
qed simp

declare flookup_walk.simps [simp del]

definition flookup :: "'s user_env \<Rightarrow> u8 list \<Rightarrow> bool \<Rightarrow> 's \<Rightarrow> ((bool \<times> fid option \<times> fid option) \<times> 's) option" where
  "flookup G path is_dir =
     (let ge = ue_env G; drpc = ue_dir G (ge_servers ge ! GPID_DIR) in
      if path \<noteq> [] \<and> hd path = 47
      then flookup_walk drpc is_dir (dropWhile (\<lambda>c. c = 47) path) (ge_root ge) (ge_root ge)
      else flookup_walk drpc is_dir path (ge_cwd ge) (ge_cwd ge))"

section \<open>Opening\<close>

text \<open>The flags for a mode, and whether the file is created and truncated; the branch of \<open>'a'\<close> runs on
  into the default branch.\<close>

definition char_at :: "u8 list \<Rightarrow> nat \<Rightarrow> u8" where
  "char_at s i = (if i < length s then s ! i else 0)"

definition fopen_mode :: "u8 list \<Rightarrow> (u32 \<times> bool) option" where
  "fopen_mode mode = (let plus = char_at mode 1 = of_char CHR ''+'' in
     if char_at mode 0 = of_char CHR ''r'' then Some (if plus then F_READ OR F_WRITE else F_READ, False)
     else if char_at mode 0 = of_char CHR ''w'' then Some (if plus then F_WRITE OR F_READ else F_WRITE, True)
     else None)"

definition after_last_slash :: "u8 list \<Rightarrow> u8 list" where
  "after_last_slash path = rev (takeWhile (\<lambda>c. c \<noteq> 47) (rev path))"

definition fopen_truncate :: "'s user_env \<Rightarrow> bool \<Rightarrow> u32 \<Rightarrow> fid \<Rightarrow> 's \<Rightarrow> (stream option \<times> 's) option" where
  "fopen_truncate G trunc flags f s = do {
     (_, s) \<leftarrow> (if trunc then file_setsize (ue_file G (fid_server f)) (fid_ino f) 0 s else Some (False, s));
     Some (Some (falloc f flags), s) }"

definition fopen :: "'s user_env \<Rightarrow> u8 list \<Rightarrow> u8 list \<Rightarrow> 's \<Rightarrow> (stream option \<times> 's) option" where
  "fopen G path mode s = (case fopen_mode mode of
     None \<Rightarrow> do {
       (_, s) \<leftarrow> fprintf G (falloc (ge_stderr (ue_env G)) 0) (ascii ''fopen: don't understand mode'' @ [10]) [] s;
       Some (None, s) }
   | Some (flags, create) \<Rightarrow> do {
       ((success, dir, f), s) \<leftarrow> flookup G path False s;
       (case if success then f else None of
          Some f \<Rightarrow> fopen_truncate G create flags f s
        | None \<Rightarrow>
          let dir = (case dir of None \<Rightarrow> zero_fid | Some dir \<Rightarrow> dir); name = after_last_slash path in
          if \<not> create \<or> fid_server dir = 0 then Some (None, s)
          else if 47 \<in> set path \<and> name = [] then Some (None, s)
          else do {
            ((ok, ino), s) \<leftarrow> file_create (ue_file G (fid_server dir)) P_FILE_DEFAULT s;
            (case if ok then ino else None of
               None \<Rightarrow> Some (None, s)
             | Some ino \<Rightarrow> let f = \<lparr>fid_server = fid_server dir, fid_ino = ino\<rparr> in do {
                 (ok, s) \<leftarrow> dir_insert (ue_dir G (ge_servers (ue_env G) ! GPID_DIR)) dir name f s;
                 (if \<not> ok then Some (None, s) else fopen_truncate G create flags f s) }) }) })"

section \<open>Reading and writing\<close>

text \<open>The number of items, and the bytes stored at \<open>ptr\<close>.\<close>

definition fread :: "'s user_env \<Rightarrow> u64 \<Rightarrow> u64 \<Rightarrow> stream \<Rightarrow> 's \<Rightarrow> ((u64 \<times> u8 list) \<times> stream \<times> 's) option" where
  "fread G sz nitems fp s =
     (if sm_flags fp AND (F_EOF OR F_ERROR) \<noteq> 0 then Some ((0, []), fp, s)
      else
        let n = ucast (sz * nitems) :: u32 in do {
        (r, s) \<leftarrow> file_read (ue_file G (fid_server (sm_fid fp))) (fid_ino (sm_fid fp)) (sm_pos fp) (unat n) s;
        (case r of
           None \<Rightarrow> do {
             (_, s) \<leftarrow> printf G (ascii ''fread: file_read returned an error'' @ [10]) [] s;
             Some ((0, []), fp\<lparr>sm_flags := sm_flags fp OR F_ERROR\<rparr>, s) }
         | Some data \<Rightarrow>
             let n = of_nat (length data) :: u64 in
             if n = 0 then Some ((0, []), fp\<lparr>sm_flags := sm_flags fp OR F_EOF\<rparr>, s)
             else if n mod sz \<noteq> 0 then do {
               (_, s) \<leftarrow> printf G (ascii ''fread: returned %d instead of %d * %d'' @ [10])
                  [Arg_int (ucast n), Arg_int (ucast sz), Arg_int (ucast nitems)] s;
               Some ((0, data), fp\<lparr>sm_flags := sm_flags fp OR F_ERROR\<rparr>, s) }
             else Some ((n div sz, data), fp\<lparr>sm_pos := sm_pos fp + n\<rparr>, s)) })"

text \<open>The result is the number of bytes, not of items. \<open>None\<close>: more bytes are read than there are at \<open>ptr\<close>.\<close>

definition fwrite :: "'s user_env \<Rightarrow> u8 list \<Rightarrow> u64 \<Rightarrow> u64 \<Rightarrow> stream \<Rightarrow> 's \<Rightarrow> (u64 \<times> stream \<times> 's) option" where
  "fwrite G ptr sz nitems fp s =
     (if sm_flags fp AND F_ERROR \<noteq> 0 then Some (0, fp, s)
      else
        let n = ucast (sz * nitems) :: u32 in
        if unat n > length ptr then None
        else do {
          (r, s) \<leftarrow> file_write (ue_file G (fid_server (sm_fid fp))) (fid_ino (sm_fid fp)) (sm_pos fp) (take (unat n) ptr) s;
          (if \<not> r then do {
             (_, s) \<leftarrow> printf G (ascii ''fwrite: file_write returned an error'' @ [10]) [] s;
             Some (0, fp\<lparr>sm_flags := sm_flags fp OR F_ERROR\<rparr>, s) }
           else Some (ucast n, fp\<lparr>sm_pos := sm_pos fp + ucast n\<rparr>, s)) })"

definition fgetc :: "'s user_env \<Rightarrow> stream \<Rightarrow> 's \<Rightarrow> (u32 \<times> stream \<times> 's) option" where
  "fgetc G fp s = do {
     ((n, data), fp, s) \<leftarrow> fread G 1 1 fp s;
     Some (if n = 0 then EOF else ucast (hd data), fp, s) }"

text \<open>At most \<open>n\<close> further bytes; the result is a null pointer or the string.\<close>

fun fgets_loop :: "'s user_env \<Rightarrow> nat \<Rightarrow> u8 list \<Rightarrow> stream \<Rightarrow> 's \<Rightarrow> (u8 list option \<times> stream \<times> 's) option" where
  "fgets_loop G 0 str fp s = Some (Some str, fp, s)"
| "fgets_loop G (Suc n) str fp s = do {
     (c, fp, s) \<leftarrow> fgetc G fp s;
     (if c = EOF then Some (if str = [] then None else Some str, fp, s)
      else if c = 10 then Some (Some (str @ [ucast c]), fp, s)
      else fgets_loop G n (str @ [ucast c]) fp s) }"

definition fgets :: "'s user_env \<Rightarrow> int \<Rightarrow> stream \<Rightarrow> 's \<Rightarrow> (u8 list option \<times> stream \<times> 's) option" where
  "fgets G sz fp s = fgets_loop G (nat (sz - 1)) [] fp s"

definition fputs :: "'s user_env \<Rightarrow> u8 list \<Rightarrow> stream \<Rightarrow> 's \<Rightarrow> (u32 \<times> stream \<times> 's) option" where
  "fputs G str fp s = do {
     (n, fp, s) \<leftarrow> fwrite G str 1 (scast (of_nat (length str) :: u32)) fp s;
     Some (ucast n, fp, s) }"

definition fputc :: "'s user_env \<Rightarrow> u32 \<Rightarrow> stream \<Rightarrow> 's \<Rightarrow> (u32 \<times> stream \<times> 's) option" where
  "fputc G c fp s = do {
     (n, fp, s) \<leftarrow> fwrite G (le32 c) 1 1 fp s;
     Some (if n = 1 then c else EOF, fp, s) }"

definition putchar :: "'s user_env \<Rightarrow> u32 \<Rightarrow> stream \<Rightarrow> 's \<Rightarrow> (u32 \<times> stream \<times> 's) option" where
  "putchar G c stdout s = fputc G c stdout s"

definition puts :: "'s user_env \<Rightarrow> u8 list \<Rightarrow> stream \<Rightarrow> 's \<Rightarrow> (u32 \<times> stream \<times> 's) option" where
  "puts G str stdout s = do {
     (r, stdout, s) \<leftarrow> fputs G str stdout s;
     (if sint r \<ge> 0 then putchar G 10 stdout s else Some (EOF, stdout, s)) }"

section \<open>Positions and flags\<close>

definition fgetpos :: "stream \<Rightarrow> u64" where "fgetpos fp = sm_pos fp"
definition fsetpos :: "stream \<Rightarrow> u64 \<Rightarrow> stream" where "fsetpos fp pos = fp\<lparr>sm_pos := pos\<rparr>"
definition ftell :: "stream \<Rightarrow> u64" where "ftell fp = sm_pos fp"
definition feof :: "stream \<Rightarrow> u32" where "feof fp = sm_flags fp AND F_EOF"
definition ferror :: "stream \<Rightarrow> u32" where "ferror fp = sm_flags fp AND F_ERROR"
definition clearerr :: "stream \<Rightarrow> stream" where "clearerr fp = fp\<lparr>sm_flags := sm_flags fp AND NOT (F_EOF OR F_ERROR)\<rparr>"

definition fseek :: "'s user_env \<Rightarrow> stream \<Rightarrow> u64 \<Rightarrow> u32 \<Rightarrow> 's \<Rightarrow> (u32 \<times> stream \<times> 's) option" where
  "fseek G fp offset whence s =
     (if whence = SEEK_SET then Some (0, fp\<lparr>sm_pos := offset, sm_flags := sm_flags fp AND NOT F_EOF\<rparr>, s)
      else if whence = SEEK_CUR then Some (0, fp\<lparr>sm_pos := sm_pos fp + offset, sm_flags := sm_flags fp AND NOT F_EOF\<rparr>, s)
      else if whence = SEEK_END then do {
        ((ok, st), s) \<leftarrow> file_stat_of (ue_file G (fid_server (sm_fid fp))) (fid_ino (sm_fid fp)) s;
        (case if ok then st else None of
           None \<Rightarrow> do {
             (_, s) \<leftarrow> fprintf G fp (ascii ''fseek: can't stat'' @ [10]) [] s;
             Some (- 1, fp, s) }
         | Some st \<Rightarrow> Some (0, fp\<lparr>sm_pos := st_size st + offset, sm_flags := sm_flags fp AND NOT F_EOF\<rparr>, s)) }
      else do {
        (_, s) \<leftarrow> fprintf G fp (ascii ''fseek: bad offset'' @ [10]) [] s;
        Some (- 1, fp\<lparr>sm_pos := sm_pos fp OR ucast F_ERROR\<rparr>, s) })"

definition rewind :: "'s user_env \<Rightarrow> stream \<Rightarrow> 's \<Rightarrow> (stream \<times> 's) option" where
  "rewind G fp s = map_option (\<lambda>(r, fp, s). (fp, s)) (fseek G fp 0 SEEK_SET s)"

end
