(* ===== verification/DirInv.thy ===== *)
theory DirInv
  imports DirSvr
begin

text \<open>
  The directory that a file holds, as a map from names to file identifiers, and what the handlers of
  the directory server do to it on any file server that keeps the contract of file servers.
\<close>

section \<open>Entries\<close>

fun chunks :: "u8 list \<Rightarrow> u8 list list" where
  "chunks xs = (if xs = [] then [] else take DIR_ENTRY_SIZE xs # chunks (drop (Suc 31) xs))"

declare chunks.simps [simp del] lookup_page.simps [simp del] insert_page.simps [simp del]

lemma chunks_Nil [simp]: "chunks [] = []"
  by (simp add: chunks.simps)

lemma chunks_step: "xs \<noteq> [] \<Longrightarrow> chunks xs = take 32 xs # chunks (drop 32 xs)"
  by (simp add: chunks.simps [of xs] DIR_ENTRY_SIZE_def)

definition dir_name :: "u8 list \<Rightarrow> u8 list" where
  "dir_name de = takeWhile (\<lambda>c. c \<noteq> 0) (de_name de)"

text \<open>The first entry of a name counts; the empty name is that of the free entries.\<close>

definition dir_map :: "u8 list \<Rightarrow> u8 list \<Rightarrow> fid option" where
  "dir_map xs = map_of (map (\<lambda>e. (dir_name e, de_fid e)) (chunks xs))"

definition dir_ok :: "u8 list \<Rightarrow> bool" where
  "dir_ok xs \<longleftrightarrow> length xs mod 32 = 0"

lemma length_chunks: "dir_ok xs \<Longrightarrow> length xs = 32 * length (chunks xs)"
proof (induction xs rule: chunks.induct)
  case (1 xs)
  show ?case
  proof (cases "xs = []")
    case False
    then have l: "32 \<le> length xs" using "1.prems" by (cases "length xs < 32") (auto simp: dir_ok_def)
    then have "dir_ok (drop 32 xs)" using "1.prems" by (simp add: dir_ok_def mod_diff_eq le_mod_geq [symmetric])
    with "1.IH" [OF False] l False show ?thesis by (simp add: chunks_step)
  qed simp
qed

lemma chunk_length: "dir_ok xs \<Longrightarrow> e \<in> set (chunks xs) \<Longrightarrow> length e = 32"
proof (induction xs rule: chunks.induct)
  case (1 xs)
  then have ne: "xs \<noteq> []" by auto
  then have l: "32 \<le> length xs" using "1.prems"(1) by (cases "length xs < 32") (auto simp: dir_ok_def)
  then have "dir_ok (drop 32 xs)" using "1.prems"(1) by (simp add: dir_ok_def le_mod_geq [symmetric])
  with 1 l ne show ?case by (auto simp: chunks_step [OF ne] min_def)
qed

lemma chunks_append: "dir_ok xs \<Longrightarrow> chunks (xs @ ys) = chunks xs @ chunks ys"
proof (induction xs rule: chunks.induct)
  case (1 xs)
  show ?case
  proof (cases "xs = []")
    case False
    then have l: "32 \<le> length xs" using "1.prems" by (cases "length xs < 32") (auto simp: dir_ok_def)
    then have "dir_ok (drop 32 xs)" using "1.prems" by (simp add: dir_ok_def le_mod_geq [symmetric])
    with "1.IH" [OF False] l False show ?thesis by (simp add: chunks_step)
  qed simp
qed

lemma chunks_single: "length e = 32 \<Longrightarrow> chunks e = [e]"
  by (cases "e = []") (simp_all add: chunks_step)

lemma takeWhile_take: "takeWhile p (take n xs) = take n (takeWhile p xs)"
  by (induction xs arbitrary: n) (auto simp: take_Cons')

lemma name_cmp:
  assumes "0 \<notin> set s" "length s \<le> 24"
  shows "name_cmp e s \<longleftrightarrow> dir_name e = s"
proof -
  have s: "takeWhile (\<lambda>c. c \<noteq> 0) s = s" using assms(1) by (auto simp: takeWhile_eq_all_conv)
  moreover have "length (dir_name e) \<le> 24"
    using length_takeWhile_le [of "\<lambda>c. c \<noteq> 0" "de_name e"] by (simp add: dir_name_def de_name_def DIR_NAME_SIZE_def DIR_ENTRY_SIZE_def)
  moreover have "strnlen_bytes (de_name e) DIR_NAME_SIZE = length (dir_name e)"
    by (simp add: strnlen_bytes_def dir_name_def de_name_def)
  ultimately show ?thesis
    by (auto simp: name_cmp_def strncmp_bytes_def takeWhile_take s simp flip: dir_name_def)
qed

lemma dir_map_append: "dir_ok xs \<Longrightarrow> dir_map (xs @ ys) n = (case dir_map xs n of None \<Rightarrow> dir_map ys n | Some f \<Rightarrow> Some f)"
  by (simp add: dir_map_def chunks_append map_add_def split: option.split)

lemma dir_map_step:
  "xs \<noteq> [] \<Longrightarrow> dir_map xs n = (if dir_name (take 32 xs) = n then Some (de_fid (take 32 xs)) else dir_map (drop 32 xs) n)"
  by (simp add: dir_map_def chunks_step)

lemma dir_map_Nil [simp]: "dir_map [] n = None"
  by (simp add: dir_map_def)

lemma lookup_page:
  assumes "0 \<notin> set s" "length s \<le> 24"
  shows "lookup_page s buf = dir_map buf s"
proof (induction buf rule: chunks.induct)
  case (1 buf)
  then show ?case
    by (cases "buf = []") (simp_all add: lookup_page.simps [of s buf] lookup_page.simps [of s "[]"] dir_map_step name_cmp [OF assms] DIR_ENTRY_SIZE_def)
qed

lemma dir_ok_parts:
  assumes "dir_ok xs" "n mod 32 = 0"
  shows "dir_ok (take n xs)" "dir_ok (drop n xs)"
  using assms by (auto simp: dir_ok_def min_def mod_diff_eq [symmetric] simp flip: le_mod_geq)

section \<open>The search for a name\<close>

context file_store
begin

text \<open>A read of the rest of a file, page by page.\<close>

lemma page_read:
  assumes "ok s" "contents s ino = Some xs" "length xs < 4294967296" "unat off \<le> length xs"
  obtains s' where "file_read rpc ino off PAGESIZE s = Some (Some (take 4096 (drop (unat off) xs)), s')" "ok s'" "contents s' = contents s"
    "unat (off + of_nat (length (take 4096 (drop (unat off) xs)))) = unat off + length (take 4096 (drop (unat off) xs))"
proof -
  from read_law [OF assms(1-3), of 4096 off] obtain s' where
    "file_read rpc ino off PAGESIZE s = Some (Some (take 4096 (drop (unat off) xs)), s')" "ok s'" "contents s' = contents s"
    by (auto simp: PAGESIZE_def range_read_def)
  moreover have "unat (off + of_nat (length (take 4096 (drop (unat off) xs)))) = unat off + length (take 4096 (drop (unat off) xs))"
  proof -
    define k where "k = length (take 4096 (drop (unat off) xs))"
    have k: "k < 2 ^ 64" "unat off + k < 2 ^ 64" using assms(3,4) by (auto simp: k_def)
    then have "unat (of_nat k :: u64) = k" by (simp add: unat_of_nat)
    with k(2) show ?thesis unfolding k_def [symmetric] by (simp add: unat_word_ariths)
  qed
  ultimately show thesis by (rule that)
qed

lemma page_split: "drop k xs = take n (drop k xs) @ drop (k + length (take n (drop k xs))) xs"
proof -
  have "drop n (drop k xs) = drop (k + length (take n (drop k xs))) xs"
    by (cases "n \<le> length xs - k") (simp_all add: min_def add.commute)
  then show ?thesis by (metis append_take_drop_id)
qed

lemma lookup_loop_ok:
  assumes name: "0 \<notin> set name" "length name \<le> 24" and dir: "dir_ok xs" "length xs < 4294967296"
    and s: "ok s" "contents s ino = Some xs" and off: "unat off \<le> length xs" "unat off mod 32 = 0"
  shows "\<exists>s'. lookup_loop rpc ino name off s = Some (case dir_map (drop (unat off) xs) name of
      None \<Rightarrow> dir_respond DIR_ERROR None | Some f \<Rightarrow> dir_respond DIR_OK (Some f), s') \<and> ok s' \<and> contents s' = contents s"
  using s off
proof (induction "length xs - unat off" arbitrary: off s rule: less_induct)
  case less
  define buf where "buf = take 4096 (drop (unat off) xs)"
  from page_read [OF less.prems(1,2) dir(2) less.prems(3)] obtain s1 where
    s1: "file_read rpc ino off PAGESIZE s = Some (Some buf, s1)" "ok s1" "contents s1 = contents s"
      "unat (off + of_nat (length buf)) = unat off + length buf" unfolding buf_def by blast
  have rest: "dir_ok (drop (unat off) xs)" by (rule dir_ok_parts(2) [OF dir(1) less.prems(4)])
  have bok: "dir_ok buf" unfolding buf_def by (rule dir_ok_parts(1) [OF rest]) simp
  have split: "drop (unat off) xs = buf @ drop (unat off + length buf) xs"
    unfolding buf_def by (rule page_split)
  show ?case
  proof (cases "buf = []")
    case True
    then have "drop (unat off) xs = []" by (auto simp: buf_def)
    with True s1 show ?thesis by (subst lookup_loop.simps) simp
  next
    case False
    have m: "length buf mod DIR_ENTRY_SIZE = 0" using bok by (simp add: dir_ok_def DIR_ENTRY_SIZE_def)
    show ?thesis
    proof (cases "dir_map buf name")
      case (Some f)
      then have "dir_map (drop (unat off) xs) name = Some f" by (subst split) (simp add: dir_map_append [OF bok])
      with Some s1 m False lookup_page [OF name, of buf] show ?thesis by (subst lookup_loop.simps) simp
    next
      case None
      define off' where "off' = off + of_nat (length buf)"
      have off': "unat off' = unat off + length buf" using s1(4) by (simp add: off'_def)
      have "length buf \<le> length xs - unat off" "0 < length buf" using False by (simp_all add: buf_def)
      then have lt: "length xs - unat off' < length xs - unat off" "unat off' \<le> length xs" unfolding off' by linarith+
      have "unat off' mod 32 = 0" using less.prems(4) m by (simp add: off' DIR_ENTRY_SIZE_def mod_add_eq [symmetric])
      with less.hyps [OF lt(1) s1(2) _ lt(2)] less.prems(2) s1(3) obtain s' where
        "lookup_loop rpc ino name off' s1 = Some (case dir_map (drop (unat off') xs) name of
          None \<Rightarrow> dir_respond DIR_ERROR None | Some f \<Rightarrow> dir_respond DIR_OK (Some f), s')" "ok s'" "contents s' = contents s" by auto
      moreover have "dir_map (drop (unat off) xs) name = dir_map (drop (unat off') xs) name"
        by (subst split) (simp add: dir_map_append [OF bok] None off')
      ultimately show ?thesis using None s1(1) m False lookup_page [OF name, of buf]
        by (subst lookup_loop.simps) (simp add: off'_def)
    qed
  qed
qed

end

section \<open>The search for a free entry\<close>

text \<open>The number of entries before the first free one.\<close>

definition used_entries :: "u8 list \<Rightarrow> nat" where
  "used_entries xs = length (takeWhile (\<lambda>e. e ! 8 \<noteq> 0) (chunks xs))"

lemma used_entries_Nil [simp]: "used_entries [] = 0"
  by (simp add: used_entries_def)

lemma dir_ok_drop: "dir_ok xs \<Longrightarrow> xs \<noteq> [] \<Longrightarrow> dir_ok (drop 32 xs) \<and> 32 \<le> length xs"
  by (cases "length xs < 32") (auto simp: dir_ok_def simp flip: le_mod_geq)

lemma used_entries_step:
  "xs \<noteq> [] \<Longrightarrow> dir_ok xs \<Longrightarrow> used_entries xs = (if xs ! 8 = 0 then 0 else Suc (used_entries (drop 32 xs)))"
  using dir_ok_drop [of xs] by (simp add: used_entries_def chunks_step)

lemma used_entries_le: "dir_ok xs \<Longrightarrow> 32 * used_entries xs \<le> length xs"
  using length_takeWhile_le [of "\<lambda>e. e ! 8 \<noteq> 0" "chunks xs"] by (simp add: used_entries_def length_chunks)

lemma takeWhile_less: "x \<in> set xs \<Longrightarrow> \<not> P x \<Longrightarrow> length (takeWhile P xs) < length xs"
  by (induction xs) auto

lemma used_entries_append:
  assumes "dir_ok xs"
  shows "used_entries (xs @ ys) = (if 32 * used_entries xs < length xs then used_entries xs else used_entries xs + used_entries ys)"
proof (cases "\<exists>e\<in>set (chunks xs). e ! 8 = 0")
  case True
  then obtain e where e: "e \<in> set (chunks xs)" "\<not> e ! 8 \<noteq> 0" by auto
  have "used_entries (xs @ ys) = used_entries xs"
    by (simp add: used_entries_def chunks_append [OF assms] takeWhile_append1 [where P = "\<lambda>e. e ! 8 \<noteq> 0", OF e])
  moreover have "used_entries xs \<noteq> length (chunks xs)"
    using takeWhile_less [where P = "\<lambda>e. e ! 8 \<noteq> 0", OF e] by (simp add: used_entries_def)
  ultimately show ?thesis using used_entries_le [OF assms] length_chunks [OF assms] by simp
next
  case False
  then have t: "takeWhile (\<lambda>e. e ! 8 \<noteq> 0) (chunks xs @ chunks ys) = chunks xs @ takeWhile (\<lambda>e. e ! 8 \<noteq> 0) (chunks ys)"
    "takeWhile (\<lambda>e. e ! 8 \<noteq> 0) (chunks xs) = chunks xs" by (auto simp: takeWhile_eq_all_conv)
  show ?thesis using length_chunks [OF assms] unfolding used_entries_def chunks_append [OF assms] t by simp
qed

lemma free_name: "32 \<le> length e \<Longrightarrow> e ! 8 = 0 \<longleftrightarrow> dir_name (take 32 e) = []"
proof -
  assume l: "32 \<le> length e"
  then have "de_name (take 32 e) = e ! 8 # drop 9 (take 32 e)"
    using Cons_nth_drop_Suc [of 8 "take 32 e"] by (simp add: de_name_def DIR_NAME_SIZE_def DIR_ENTRY_SIZE_def)
  then show ?thesis by (simp add: dir_name_def)
qed

lemma insert_page:
  assumes name: "name \<noteq> []" "0 \<notin> set name" "length name \<le> 24" and "dir_ok buf"
  shows "insert_page name off free buf = (case dir_map buf name of Some f \<Rightarrow> None
    | None \<Rightarrow> Some (case free of Some f \<Rightarrow> Some f
        | None \<Rightarrow> if 32 * used_entries buf < length buf then Some (off + of_nat (32 * used_entries buf)) else None))"
  using assms(4)
proof (induction buf arbitrary: off free rule: chunks.induct)
  case (1 buf)
  show ?case
  proof (cases "buf = []")
    case True
    then show ?thesis by (cases free) (simp_all add: insert_page.simps [of name off _ "[]"])
  next
    case False
    have s32: "Suc 31 = 32" by simp
    from dir_ok_drop [OF "1.prems" False] have d: "dir_ok (drop 32 buf)" "32 \<le> length buf" by simp_all
    have ih: "insert_page name (off + 32) fr (drop 32 buf) = (case dir_map (drop 32 buf) name of Some f \<Rightarrow> None
      | None \<Rightarrow> Some (case fr of Some f \<Rightarrow> Some f
          | None \<Rightarrow> if 32 * used_entries (drop 32 buf) < length (drop 32 buf)
              then Some (off + 32 + of_nat (32 * used_entries (drop 32 buf))) else None))" for fr
      using "1.IH" [OF False, of "off + 32" fr, unfolded s32] d(1) by blast
    have step: "insert_page name off free buf =
      (if buf ! 8 = 0 then insert_page name (off + 32) (if free = None then Some off else free) (drop 32 buf)
       else if dir_name (take 32 buf) = name then None else insert_page name (off + 32) free (drop 32 buf))"
      using False by (simp add: insert_page.simps [of name off free buf] name_cmp [OF name(2,3)] DIR_ENTRY_SIZE_def)
    have lt: "32 * Suc (used_entries (drop 32 buf)) < length buf \<longleftrightarrow> 32 * used_entries (drop 32 buf) < length (drop 32 buf)"
      using d(2) unfolding length_drop mult_Suc_right by linarith
    show ?thesis
    proof (cases "buf ! 8 = 0")
      case True
      then have "dir_map buf name = dir_map (drop 32 buf) name" "used_entries buf = 0" "0 < length buf"
        using name(1) free_name [OF d(2)] False used_entries_step [OF False "1.prems"] by (simp_all add: dir_map_step)
      with True show ?thesis unfolding step ih by (cases free) (auto split: option.split)
    next
      case False
      then have u: "used_entries buf = Suc (used_entries (drop 32 buf))" using used_entries_step [OF \<open>buf \<noteq> []\<close> "1.prems"] by simp
      have "off + of_nat (32 * Suc (used_entries (drop 32 buf))) = off + 32 + of_nat (32 * used_entries (drop 32 buf))" by simp
      with False show ?thesis unfolding step ih u lt
        by (auto simp: dir_map_step [OF \<open>buf \<noteq> []\<close>] split: option.split)
    qed
  qed
qed

section \<open>A new entry\<close>

lemma length_new_entry [simp]: "length (new_entry name f) = 32"
  by (simp add: new_entry_def fid_bytes_def DIR_NAME_SIZE_def DIR_ENTRY_SIZE_def)

lemma new_entry:
  assumes "0 \<notin> set name" "length name \<le> 24"
  shows "dir_name (new_entry name f) = name" "de_fid (new_entry name f) = f"
proof -
  have n: "takeWhile (\<lambda>c. c \<noteq> 0) name = name" using assms(1) by (auto simp: takeWhile_eq_all_conv)
  have "de_name (new_entry name f) = name @ replicate (24 - length name) 0"
    using assms(2) by (simp add: de_name_def new_entry_def n fid_bytes_def DIR_NAME_SIZE_def DIR_ENTRY_SIZE_def)
  moreover have "takeWhile (\<lambda>c. c \<noteq> 0) (name @ replicate k 0) = name" for k
    using assms(1) by (subst takeWhile_append2) (auto simp: takeWhile_replicate)
  ultimately show "dir_name (new_entry name f) = name" by (simp add: dir_name_def)
  have "get32 (new_entry name f) 0 = fid_server f" "get32 (new_entry name f) 4 = fid_ino f"
    using get32_at [of 0 "[]"] get32_at [of 4 "le32 (fid_server f)"] by (simp_all add: new_entry_def fid_bytes_def)
  then show "de_fid (new_entry name f) = f" by (simp add: de_fid_def)
qed

lemma range_write_entry:
  assumes "xs = as @ rest" "length as = 32 * k" "length e = 32"
  shows "range_write (32 * k) e xs = as @ e @ drop 32 rest"
  using assms by (simp add: range_write_def)

text \<open>Writing the entry of a new name to the first free place.\<close>

lemma dir_map_insert:
  fixes f :: fid
  assumes dir: "dir_ok xs" and name: "name \<noteq> []" "0 \<notin> set name" "length name \<le> 24" and new: "dir_map xs name = None"
  defines "xs' \<equiv> range_write (32 * used_entries xs) (new_entry name f) xs"
  shows "dir_ok xs'" "length xs' \<le> length xs + 32" "n \<noteq> [] \<Longrightarrow> dir_map xs' n = ((dir_map xs)(name \<mapsto> f)) n"
proof -
  define k where "k = used_entries xs"
  define as rest where "as = take (32 * k) xs" and "rest = drop (32 * k) xs"
  have k: "32 * k \<le> length xs" using used_entries_le [OF dir] by (simp add: k_def)
  have xs: "xs = as @ rest" "length as = 32 * k" using k by (simp_all add: as_def rest_def)
  have ok: "dir_ok as" "dir_ok rest" using dir_ok_parts [OF dir, of "32 * k"] by (simp_all add: as_def rest_def)
  have xs': "xs' = as @ new_entry name f @ drop 32 rest"
    unfolding xs'_def k_def [symmetric] by (rule range_write_entry [OF xs]) simp
  have dr: "dir_ok (drop 32 rest)" "rest \<noteq> [] \<Longrightarrow> 32 \<le> length rest" using dir_ok_drop [OF ok(2)] ok(2) by (cases "rest = []"; simp)+
  show "dir_ok xs'" "length xs' \<le> length xs + 32"
    using ok dr xs by (cases "rest = []"; simp add: xs' dir_ok_def; presburger)+
  have free: "dir_name (take 32 rest) = []" if "rest \<noteq> []"
  proof -
    have "\<not> 32 * used_entries as < length as"
    proof
      assume "32 * used_entries as < length as"
      with used_entries_append [OF ok(1), of rest] xs have "used_entries xs = used_entries as" by simp
      with \<open>32 * used_entries as < length as\<close> xs(2) show False by (simp add: k_def)
    qed
    with used_entries_append [OF ok(1), of rest] xs used_entries_le [OF ok(1)] have "used_entries rest = 0" by (simp add: k_def)
    then have "rest ! 8 = 0" using used_entries_step [OF that ok(2)] by (simp split: if_splits)
    with free_name [OF dr(2) [OF that]] show ?thesis by simp
  qed
  have ne: "dir_map (new_entry name f @ ys) n = (if n = name then Some f else dir_map ys n)" for ys n
  proof -
    have "new_entry name f \<noteq> []" using length_new_entry [of name f] by (metis list.size(3) zero_neq_numeral)
    then show ?thesis using new_entry [OF name(2,3), of f] dir_map_step [of "new_entry name f @ ys" n] by simp
  qed
  show "dir_map xs' n = ((dir_map xs)(name \<mapsto> f)) n" if n: "n \<noteq> []"
  proof -
    have r: "dir_map rest m = dir_map (drop 32 rest) m" if "m \<noteq> []" for m
      using free that by (cases "rest = []") (simp_all add: dir_map_step)
    have "dir_map as name = None" "dir_map rest name = None" using new xs dir_map_append [OF ok(1), of rest name] by (auto split: option.splits)
    then show ?thesis using r [OF n] dir_map_append [OF ok(1)] by (auto simp: xs' xs(1) ne split: option.split)
  qed
qed

section \<open>Insertion\<close>

context file_store
begin

lemma insert_loop_ok:
  assumes name: "name \<noteq> []" "0 \<notin> set name" "length name \<le> 24" and dir: "dir_ok xs" "length xs < 4294967296"
    and s: "ok s" "contents s ino = Some xs" and off: "unat off \<le> length xs" "unat off mod 32 = 0"
  shows "\<exists>s'. insert_loop rpc ino name off free s = Some (case dir_map (drop (unat off) xs) name of
      Some f \<Rightarrow> Inl (dir_respond DIR_ERROR None)
    | None \<Rightarrow> Inr (case free of Some f \<Rightarrow> f | None \<Rightarrow> off + of_nat (32 * used_entries (drop (unat off) xs))), s') \<and>
    ok s' \<and> contents s' = contents s"
  using s off
proof (induction "length xs - unat off" arbitrary: off s free rule: less_induct)
  case less
  define buf where "buf = take 4096 (drop (unat off) xs)"
  from page_read [OF less.prems(1,2) dir(2) less.prems(3)] obtain s1 where
    s1: "file_read rpc ino off PAGESIZE s = Some (Some buf, s1)" "ok s1" "contents s1 = contents s"
      "unat (off + of_nat (length buf)) = unat off + length buf" unfolding buf_def by blast
  have rest: "dir_ok (drop (unat off) xs)" by (rule dir_ok_parts(2) [OF dir(1) less.prems(4)])
  have bok: "dir_ok buf" unfolding buf_def by (rule dir_ok_parts(1) [OF rest]) simp
  define ys where "ys = drop (unat off + length buf) xs"
  have split: "drop (unat off) xs = buf @ ys" unfolding buf_def ys_def by (rule page_split)
  show ?case
  proof (cases "buf = []")
    case True
    then have "drop (unat off) xs = []" by (auto simp: buf_def)
    with True s1 show ?thesis by (subst insert_loop.simps) (cases free; simp)
  next
    case False
    have m: "length buf mod DIR_ENTRY_SIZE = 0" using bok by (simp add: dir_ok_def DIR_ENTRY_SIZE_def)
    show ?thesis
    proof (cases "dir_map buf name")
      case (Some f)
      then have "dir_map (drop (unat off) xs) name = Some f" by (simp add: split dir_map_append [OF bok])
      with Some s1 m False insert_page [OF name bok, of off free] show ?thesis by (subst insert_loop.simps) simp
    next
      case None
      define free' where "free' = (case free of Some f \<Rightarrow> Some f
        | None \<Rightarrow> if 32 * used_entries buf < length buf then Some (off + of_nat (32 * used_entries buf)) else None)"
      define off' where "off' = off + of_nat (length buf)"
      have off': "unat off' = unat off + length buf" using s1(4) by (simp add: off'_def)
      have "length buf \<le> length xs - unat off" "0 < length buf" using False by (simp_all add: buf_def)
      then have lt: "length xs - unat off' < length xs - unat off" "unat off' \<le> length xs" unfolding off' by linarith+
      have dr: "drop (unat off') xs = ys" by (simp add: off' ys_def)
      have "unat off' mod 32 = 0" using less.prems(4) m by (simp add: off' DIR_ENTRY_SIZE_def mod_add_eq [symmetric])
      with less.hyps [OF lt(1) s1(2) _ lt(2), of free'] less.prems(2) s1(3) obtain s' where
        s': "insert_loop rpc ino name off' free' s1 = Some (case dir_map ys name of
          Some f \<Rightarrow> Inl (dir_respond DIR_ERROR None)
        | None \<Rightarrow> Inr (case free' of Some f \<Rightarrow> f | None \<Rightarrow> off' + of_nat (32 * used_entries ys)), s')" "ok s'" "contents s' = contents s"
        unfolding dr by auto
      have e: "(case free' of Some f \<Rightarrow> f | None \<Rightarrow> off' + of_nat (32 * used_entries ys)) =
        (case free of Some f \<Rightarrow> f | None \<Rightarrow> off + of_nat (32 * used_entries (buf @ ys)))"
      proof (cases "32 * used_entries buf < length buf")
        case False
        with used_entries_le [OF bok] have "length buf = 32 * used_entries buf" by simp
        then show ?thesis by (cases free) (simp_all add: free'_def used_entries_append [OF bok] off'_def algebra_simps)
      qed (simp add: free'_def used_entries_append [OF bok] split: option.split)
      have dm: "dir_map (buf @ ys) name = dir_map ys name" by (simp add: dir_map_append [OF bok] None)
      have "insert_loop rpc ino name off free s = insert_loop rpc ino name off' free' s1"
        using s1(1) m False insert_page [OF name bok, of off free] None
        by (subst insert_loop.simps) (simp add: off'_def free'_def)
      with s' show ?thesis unfolding split dm e [symmetric] by auto
    qed
  qed
qed

end

section \<open>The handlers\<close>

lemma dir_lookup_contract:
  assumes store: "file_store (rpc (fid_server dir)) ok contents" and s: "ok s" "contents s (fid_ino dir) = Some xs"
    and dir: "dir_ok xs" "length xs < 4294967296" and name: "0 \<notin> set name" "length name \<le> 24"
  shows "\<exists>s'. dir_lookup (dir_proc rpc) dir name s = Some (dir_map xs name, s') \<and> ok s' \<and> contents s' = contents s"
proof -
  have "unat (0 :: u64) \<le> length xs" "unat (0 :: u64) mod 32 = 0" by simp_all
  from file_store.lookup_loop_ok [OF store name dir s this] obtain s' where
    "lookup_loop (rpc (fid_server dir)) (fid_ino dir) name 0 s = Some (case dir_map xs name of
      None \<Rightarrow> dir_respond DIR_ERROR None | Some f \<Rightarrow> dir_respond DIR_OK (Some f), s')" "ok s'" "contents s' = contents s" by auto
  then show ?thesis using name(2)
    by (cases "dir_map xs name") (simp_all add: dir_lookup_def dir_proc_def dir_do_lookup_def dir_respond_def DIR_NAME_SIZE_def DIR_ENTRY_SIZE_def)
qed

lemma dir_insert_exists:
  assumes store: "file_store (rpc (fid_server dir)) ok contents" and s: "ok s" "contents s (fid_ino dir) = Some xs"
    and dir: "dir_ok xs" "length xs < 4294967296" and name: "name \<noteq> []" "0 \<notin> set name" "length name \<le> 24"
    and ex: "dir_map xs name = Some g"
  shows "\<exists>s'. dir_insert (dir_proc rpc) dir name f s = Some (False, s') \<and> ok s' \<and> contents s' = contents s"
proof -
  have "unat (0 :: u64) \<le> length xs" "unat (0 :: u64) mod 32 = 0" by simp_all
  from file_store.insert_loop_ok [OF store name dir s this, of None] ex obtain s' where
    "insert_loop (rpc (fid_server dir)) (fid_ino dir) name 0 None s = Some (Inl (dir_respond DIR_ERROR None), s')" "ok s'"
    "contents s' = contents s" by auto
  then show ?thesis using name(3)
    by (simp add: dir_insert_def dir_proc_def dir_do_insert_def dir_respond_def DIR_NAME_SIZE_def DIR_ENTRY_SIZE_def)
qed

text \<open>The insertion of a new name is one write, of the entry, to the first free place.\<close>

lemma dir_insert_write:
  assumes store: "file_store (rpc (fid_server dir)) ok contents" and s: "ok s" "contents s (fid_ino dir) = Some xs"
    and dir: "dir_ok xs" "length xs < 4294967296" and name: "name \<noteq> []" "0 \<notin> set name" "length name \<le> 24"
    and new: "dir_map xs name = None"
  shows "\<exists>s1. ok s1 \<and> contents s1 = contents s \<and> dir_insert (dir_proc rpc) dir name f s =
    file_write (rpc (fid_server dir)) (fid_ino dir) (of_nat (32 * used_entries xs)) (new_entry name f) s1"
proof -
  have "unat (0 :: u64) \<le> length xs" "unat (0 :: u64) mod 32 = 0" by simp_all
  from file_store.insert_loop_ok [OF store name dir s this, of None] new obtain s1 where
    s1: "insert_loop (rpc (fid_server dir)) (fid_ino dir) name 0 None s = Some (Inr (of_nat (32 * used_entries xs)), s1)" "ok s1"
    "contents s1 = contents s" by auto
  moreover have "dir_insert (dir_proc rpc) dir name f s =
    file_write (rpc (fid_server dir)) (fid_ino dir) (of_nat (32 * used_entries xs)) (new_entry name f) s1"
    using s1(1) name(3)
    by (cases "file_write (rpc (fid_server dir)) (fid_ino dir) (of_nat (32 * used_entries xs)) (new_entry name f) s1")
      (auto simp: dir_insert_def dir_proc_def dir_do_insert_def dir_respond_def DIR_NAME_SIZE_def DIR_ENTRY_SIZE_def)
  ultimately show ?thesis by blast
qed

lemma dir_insert_contract:
  assumes store: "file_store (rpc (fid_server dir)) ok contents" and s: "ok s" "contents s (fid_ino dir) = Some xs"
    and dir: "dir_ok xs" "length xs < 4294967296" and name: "name \<noteq> []" "0 \<notin> set name" "length name \<le> 24"
    and new: "dir_map xs name = None" and run: "dir_insert (dir_proc rpc) dir name f s = Some (r, s')"
  shows "r \<and> ok s' \<and> (\<exists>xs'. contents s' = (contents s)(fid_ino dir \<mapsto> xs') \<and> dir_ok xs' \<and> length xs' \<le> length xs + 32 \<and>
    (\<forall>n. n \<noteq> [] \<longrightarrow> dir_map xs' n = ((dir_map xs)(name \<mapsto> f)) n))"
proof -
  from dir_insert_write [where rpc = rpc and f = f, OF store s dir name new] run obtain s1 where s1: "ok s1" "contents s1 = contents s"
    "file_write (rpc (fid_server dir)) (fid_ino dir) (of_nat (32 * used_entries xs)) (new_entry name f) s1 = Some (r, s')" by auto
  have le: "32 * used_entries xs \<le> length xs" by (rule used_entries_le [OF dir(1)])
  then have "32 * used_entries xs < 2 ^ 64" using dir(2) by simp
  then have "unat (of_nat (32 * used_entries xs) :: u64) = 32 * used_entries xs" unfolding unat_of_nat by simp
  with file_store.write_law [OF store s1(1) _ dir(2) _ _ s1(3)] s(2) s1(2) le
  have "r \<and> ok s' \<and> contents s' = (contents s)(fid_ino dir \<mapsto> range_write (32 * used_entries xs) (new_entry name f) xs)" by simp
  with dir_map_insert [where f = f, OF dir(1) name new] show ?thesis by auto
qed

end
