(* ===== verification/DirStack.thy ===== *)
theory DirStack
  imports DirInv RamFileSvr
begin

text \<open>The directory server on the memory file server.\<close>

section \<open>Writes return\<close>

lemma ramfile_write_returns:
  assumes "ramfiles_ok s" "ramfile_contents s ino = Some xs" "length xs < 4294967296" "unat off \<le> length xs" "length data \<le> 4096"
  shows "\<exists>r s'. file_write (file_rpc_to (ramfile_proc junk (Some 0))) ino off data s = Some (r, s')"
proof -
  have "write_allowed (f_stat (s ! unat ino)) 0" by (simp add: write_allowed_def)
  from ramfile_write [OF assms(1,2) this assms(3-5), of junk] show ?thesis
    by (auto simp: file_write_def file_status_call_def file_rpc_to_def)
qed

lemma ram_dir_insert:
  assumes "rpc (fid_server dir) = file_rpc_to (ramfile_proc junk (Some 0))"
    and "ramfiles_ok s" "ramfile_contents s (fid_ino dir) = Some xs" "dir_ok xs" "length xs + 32 < 4294967296"
    and "name \<noteq> []" "0 \<notin> set name" "length name \<le> 24" "dir_map xs name = None"
  shows "\<exists>s' xs'. dir_insert (dir_proc rpc) dir name f s = Some (True, s') \<and> ramfiles_ok s' \<and>
    ramfile_contents s' = (ramfile_contents s)(fid_ino dir \<mapsto> xs') \<and> dir_ok xs' \<and> length xs' \<le> length xs + 32 \<and>
    (\<forall>n. n \<noteq> [] \<longrightarrow> dir_map xs' n = ((dir_map xs)(name \<mapsto> f)) n)"
proof -
  have store: "file_store (rpc (fid_server dir)) ramfiles_ok ramfile_contents"
    unfolding assms(1) by (rule ramfile.file_store_axioms)
  have len: "length xs < 4294967296" using assms(5) by simp
  from dir_insert_write [where rpc = rpc and f = f, OF store assms(2-4) len assms(6-9)] obtain s1 where
    s1: "ramfiles_ok s1" "ramfile_contents s1 = ramfile_contents s" "dir_insert (dir_proc rpc) dir name f s =
      file_write (rpc (fid_server dir)) (fid_ino dir) (of_nat (32 * used_entries xs)) (new_entry name f) s1" by blast
  have le: "32 * used_entries xs \<le> length xs" by (rule used_entries_le [OF assms(4)])
  then have "32 * used_entries xs < 2 ^ 64" using len by simp
  then have "unat (of_nat (32 * used_entries xs) :: u64) \<le> length xs" unfolding unat_of_nat using le by simp
  with ramfile_write_returns [OF s1(1) _ len, of "fid_ino dir" "of_nat (32 * used_entries xs)" "new_entry name f" junk] assms(3) s1
  obtain r s' where run: "dir_insert (dir_proc rpc) dir name f s = Some (r, s')" by (auto simp: assms(1))
  from dir_insert_contract [where rpc = rpc and f = f, OF store assms(2-4) len assms(6-9) run] obtain xs' where
    r "ramfiles_ok s'" "ramfile_contents s' = (ramfile_contents s)(fid_ino dir \<mapsto> xs')" "dir_ok xs'" "length xs' \<le> length xs + 32"
    "\<forall>n. n \<noteq> [] \<longrightarrow> dir_map xs' n = ((dir_map xs)(name \<mapsto> f)) n" by blast
  with run show ?thesis by (intro exI [of _ s'] exI [of _ xs']) (simp only: simp_thms)
qed

section \<open>Properties\<close>



text \<open>A name is inserted only once: on every file server that keeps the contract, \<open>dir_insert\<close> of a
  name that is in the directory fails and changes no file.\<close>
theorem dir_insert_duplicate:
  assumes "file_store (rpc (fid_server dir)) ok contents" "ok s" "contents s (fid_ino dir) = Some xs"
    and "length xs mod DIR_ENTRY_SIZE = 0" "length xs < 4294967296"
    and "name \<noteq> []" "0 \<notin> set name" "length name \<le> DIR_NAME_SIZE" "dir_map xs name = Some g"
  shows "\<exists>s'. dir_insert (dir_proc rpc) dir name f s = Some (False, s') \<and> contents s' = contents s"
proof -
  have "dir_ok xs" "length name \<le> 24" using assms(4,8) by (simp_all add: dir_ok_def DIR_NAME_SIZE_def DIR_ENTRY_SIZE_def)
  from dir_insert_exists [where rpc = rpc and f = f, OF assms(1-3) this(1) assms(5-7) this(2) assms(9)] show ?thesis by blast
qed

theorem dir_insert_duplicate_witness:
  "\<exists>s s'. dir_insert (dir_proc (\<lambda>_. file_rpc_to (ramfile_proc (\<lambda>_. 0) (Some 0)))) \<lparr>fid_server = 7, fid_ino = 0\<rparr> [97]
      zero_fid s = Some (False, s') \<and> ramfile_contents s 0 = Some (new_entry [97] zero_fid)"
proof -
  define s where "s = ramfile_init[0 := \<lparr>f_stat = zero_stat\<lparr>st_alloc := True, st_size := 32\<rparr>, f_contents = new_entry [97] zero_fid\<rparr>]"
  have ok: "ramfiles_ok s" unfolding s_def by (rule ramfiles_ok_update [OF ramfile_init_ok]) simp
  have c: "ramfile_contents s 0 = Some (new_entry [97] zero_fid)"
    by (simp add: s_def ramfile_contents_def ramfile_init_def MAX_FILES_def)
  have "new_entry [97] zero_fid \<noteq> []" using length_new_entry [of "[97]" zero_fid] by (metis list.size(3) zero_neq_numeral)
  then have m: "dir_map (new_entry [97] zero_fid) [97] = Some zero_fid"
    using new_entry [of "[97]" zero_fid] by (simp add: dir_map_step)
  from dir_insert_duplicate [where rpc = "\<lambda>_. file_rpc_to (ramfile_proc (\<lambda>_. 0) (Some 0))" and dir = "\<lparr>fid_server = 7, fid_ino = 0\<rparr>"
      and f = zero_fid, OF ramfile.file_store_axioms ok _ _ _ _ _ _ m] c show ?thesis
    by (force simp: DIR_NAME_SIZE_def DIR_ENTRY_SIZE_def)
qed

end
