(* ===== verification/StdioInv.thy ===== *)
theory StdioInv
  imports Stdio DirStack
begin

text \<open>
  What the streams of \<open>Stdio\<close> do on a file server that keeps the contract of file servers, and what the
  walk of a path name finds in directories that answer lookups.
\<close>

section \<open>Reading\<close>

definition readable :: "stream \<Rightarrow> bool" where
  "readable fp \<longleftrightarrow> sm_flags fp AND (F_EOF OR F_ERROR) = 0"

lemma eof_set: "feof (fp\<lparr>sm_flags := sm_flags fp OR F_EOF\<rparr>) \<noteq> 0"
proof
  assume "feof (fp\<lparr>sm_flags := sm_flags fp OR F_EOF\<rparr>) = 0"
  then have "bit ((sm_flags fp OR F_EOF) AND F_EOF) 3 = bit (0 :: u32) 3" by (simp add: feof_def)
  then show False by (simp add: bit_simps F_EOF_def)
qed

lemma at_end_not_readable: "\<not> readable (fp\<lparr>sm_flags := sm_flags fp OR F_EOF\<rparr>)"
proof
  assume "readable (fp\<lparr>sm_flags := sm_flags fp OR F_EOF\<rparr>)"
  then have "bit ((sm_flags fp OR F_EOF) AND (F_EOF OR F_ERROR)) 3 = bit (0 :: u32) 3" by (simp add: readable_def)
  then show False by (simp add: bit_simps F_EOF_def F_ERROR_def)
qed

lemma small_u64: "n < 18446744073709551616 \<Longrightarrow> unat (of_nat n :: u64) = n"
  by (simp add: unsigned_of_nat take_bit_nat_eq_self)

lemma word_by_1: "(w :: u64) div 1 = w" "(w :: u64) mod 1 = 0"
  by (simp_all add: word_unat_eq_iff unat_div unat_mod)

lemma unat_pos_add:
  assumes "unat (pos :: u64) \<le> length xs" "length xs < 4294967296" "n \<le> length xs - unat pos"
  shows "unat (pos + of_nat n) = unat pos + n"
proof -
  have "unat (of_nat n :: u64) = n" by (rule small_u64) (use assms in linarith)
  moreover have "unat pos + n < 2 ^ 64" using assms by simp
  ultimately show ?thesis by (simp add: unat_word_ariths)
qed

lemma fread_ok:
  assumes store: "file_store (ue_file G (fid_server (sm_fid fp))) ok contents" and "ok s"
    and "contents s (fid_ino (sm_fid fp)) = Some xs" "length xs < 4294967296"
    and "readable fp" "0 < n" "n \<le> 4096"
  shows "\<exists>s'. ok s' \<and> contents s' = contents s \<and> fread G 1 (of_nat n) fp s =
    Some (let data = range_read (unat (sm_pos fp)) n xs in
      if data = [] then ((0, []), fp\<lparr>sm_flags := sm_flags fp OR F_EOF\<rparr>, s')
      else ((of_nat (length data), data), fp\<lparr>sm_pos := sm_pos fp + of_nat (length data)\<rparr>, s'))"
proof -
  have n: "unat (ucast (of_nat n :: u64) :: u32) = n" using assms(7)
    by (simp add: unsigned_ucast_eq unsigned_of_nat take_bit_nat_eq_self)
  define data where "data = range_read (unat (sm_pos fp)) n xs"
  from file_store.read_law [OF assms(1-4,7), of "sm_pos fp"] obtain s' where
    s': "file_read (ue_file G (fid_server (sm_fid fp))) (fid_ino (sm_fid fp)) (sm_pos fp) n s = Some (Some data, s')" "ok s'" "contents s' = contents s"
    by (auto simp: data_def)
  have len: "length data < 18446744073709551616" using assms(7) by (simp add: data_def range_read_def)
  have z: "(of_nat (length data) :: u64) = 0 \<longleftrightarrow> data = []"
    using small_u64 [OF len] by (cases "data = []") (auto simp del: word_of_nat_eq_0_iff)
  have r: "\<not> sm_flags fp AND (F_EOF OR F_ERROR) \<noteq> 0" using assms(5) by (simp add: readable_def)
  show ?thesis
    unfolding fread_def Let_def mult_1 n s'(1) data_def [symmetric] if_not_P [OF r]
    using s'(2,3) z by (cases "data = []") (simp_all add: word_by_1 del: word_of_nat_eq_0_iff)
qed

lemma fgetc_ok:
  assumes store: "file_store (ue_file G (fid_server (sm_fid fp))) ok contents" and "ok s"
    and "contents s (fid_ino (sm_fid fp)) = Some xs" "length xs < 4294967296"
    and "readable fp" "unat (sm_pos fp) \<le> length xs"
  shows "\<exists>s'. ok s' \<and> contents s' = contents s \<and> fgetc G fp s =
    Some (if unat (sm_pos fp) = length xs then (EOF, fp\<lparr>sm_flags := sm_flags fp OR F_EOF\<rparr>, s')
      else (ucast (xs ! unat (sm_pos fp)), fp\<lparr>sm_pos := sm_pos fp + 1\<rparr>, s'))"
proof -
  from fread_ok [OF assms(1-5), of 1] obtain s' where s': "ok s'" "contents s' = contents s" "fread G 1 1 fp s =
    Some (let data = range_read (unat (sm_pos fp)) 1 xs in
      if data = [] then ((0, []), fp\<lparr>sm_flags := sm_flags fp OR F_EOF\<rparr>, s')
      else ((of_nat (length data), data), fp\<lparr>sm_pos := sm_pos fp + of_nat (length data)\<rparr>, s'))" by auto
  show ?thesis
  proof (cases "unat (sm_pos fp) = length xs")
    case True
    then show ?thesis using s' by (auto simp: fgetc_def range_read_def)
  next
    case False
    then have "range_read (unat (sm_pos fp)) 1 xs = [xs ! unat (sm_pos fp)]"
      using assms(6) by (simp add: range_read_def take_Suc hd_drop_conv_nth)
    then show ?thesis using s' False by (auto simp: fgetc_def)
  qed
qed

section \<open>Lines\<close>

text \<open>The first line of a text, with its newline, cut after \<open>n\<close> bytes; and all lines.\<close>

fun first_line :: "nat \<Rightarrow> u8 list \<Rightarrow> u8 list" where
  "first_line 0 ys = []"
| "first_line (Suc n) [] = []"
| "first_line (Suc n) (c # ys) = c # (if c = 10 then [] else first_line n ys)"

lemma first_line_prefix: "first_line n ys = take (length (first_line n ys)) ys"
  by (induction n ys rule: first_line.induct) simp_all

lemma first_line_length: "length (first_line n ys) \<le> length ys"
  by (induction n ys rule: first_line.induct) simp_all

lemma first_line_max: "length (first_line n ys) \<le> n"
  by (induction n ys rule: first_line.induct) simp_all

lemma char_not_EOF: "(ucast (c :: u8) :: u32) \<noteq> EOF"
proof
  assume "(ucast c :: u32) = EOF"
  then have "bit (ucast c :: u32) 8 = bit EOF 8" by simp
  then show False by (auto simp: EOF_def bit_simps dest: bit_imp_le_length)
qed

lemma unat_char: "unat (ucast (c :: u8) :: u32) = unat c"
proof -
  have "unat c < 2 ^ LENGTH(8)" by (rule unsigned_less)
  then show ?thesis by (simp add: unsigned_ucast_eq take_bit_nat_eq_self)
qed

lemma char_back [simp]: "(ucast (ucast (c :: u8) :: u32) :: u8) = c"
proof -
  have "unat c < 2 ^ LENGTH(8)" by (rule unsigned_less)
  then show ?thesis by (simp add: word_unat_eq_iff unsigned_ucast_eq [of "ucast c :: u32"] unat_char take_bit_nat_eq_self)
qed

lemma char_newline: "(ucast (c :: u8) :: u32) = 10 \<longleftrightarrow> c = 10"
proof
  assume "(ucast c :: u32) = 10"
  then have "unat (ucast c :: u32) = 10" by simp
  with unat_char [of c] show "c = 10" by (simp add: word_unat_eq_iff)
qed simp

lemma fgets_loop_ok:
  assumes store: "file_store (ue_file G (fid_server (sm_fid fp))) ok contents" and "ok s"
    and "contents s (fid_ino (sm_fid fp)) = Some xs" "length xs < 4294967296"
    and "readable fp" "unat (sm_pos fp) \<le> length xs"
  shows "\<exists>s' flags. ok s' \<and> contents s' = contents s \<and>
    fgets_loop G n str fp s = Some (let line = str @ first_line n (drop (unat (sm_pos fp)) xs) in
      (if 0 < n \<and> line = [] then None else Some line,
       \<lparr>sm_fid = sm_fid fp, sm_pos = sm_pos fp + of_nat (length line - length str), sm_flags = flags\<rparr>, s')) \<and>
    (flags = sm_flags fp \<or> flags = sm_flags fp OR F_EOF \<and>
      sm_pos fp + of_nat (length (first_line n (drop (unat (sm_pos fp)) xs))) = of_nat (length xs))"
  using assms
proof (induction n arbitrary: str fp s)
  case 0
  then show ?case by (cases fp) (auto simp: Let_def)
next
  case (Suc n)
  let ?p = "unat (sm_pos fp)"
  from fgetc_ok [OF Suc.prems] obtain s1 where s1: "ok s1" "contents s1 = contents s" "fgetc G fp s =
    Some (if ?p = length xs then (EOF, fp\<lparr>sm_flags := sm_flags fp OR F_EOF\<rparr>, s1)
      else (ucast (xs ! ?p), fp\<lparr>sm_pos := sm_pos fp + 1\<rparr>, s1))" by blast
  show ?case
  proof (cases "?p = length xs")
    case True
    then have "sm_pos fp = of_nat (length xs)" by (metis of_nat_unat ucast_id)
    with True s1 show ?thesis by (cases fp) (auto simp: Let_def)
  next
    case False
    define c where "c = xs ! ?p"
    have d: "drop ?p xs = c # drop (Suc ?p) xs" using False Suc.prems(6) by (simp add: c_def Cons_nth_drop_Suc)
    show ?thesis
    proof (cases "c = 10")
      case True
      then have fl: "first_line (Suc n) (drop ?p xs) = [10]" by (simp add: d)
      have "fgetc G fp s = Some (10, fp\<lparr>sm_pos := sm_pos fp + 1\<rparr>, s1)" using s1(3) False True by (simp add: c_def)
      then have "fgets_loop G (Suc n) str fp s = Some (Some (str @ [10]), fp\<lparr>sm_pos := sm_pos fp + 1\<rparr>, s1)" by (simp add: EOF_def)
      with s1(1,2) show ?thesis unfolding fl by (cases fp) (auto simp: Let_def)
    next
      case nl: False
      let ?fp = "fp\<lparr>sm_pos := sm_pos fp + 1\<rparr>"
      have p: "unat (sm_pos ?fp) = Suc ?p"
        using unat_pos_add [OF Suc.prems(6,4), of 1] False Suc.prems(6) by simp
      have pre: "file_store (ue_file G (fid_server (sm_fid ?fp))) ok contents" "contents s1 (fid_ino (sm_fid ?fp)) = Some xs"
        "readable ?fp" "unat (sm_pos ?fp) \<le> length xs"
        using Suc.prems False s1(2) p by (auto simp: readable_def)
      from Suc.IH [OF pre(1) s1(1) pre(2) Suc.prems(4) pre(3,4), of "str @ [c]"] p obtain s2 flags where s2: "ok s2" "contents s2 = contents s1"
        "fgets_loop G n (str @ [c]) ?fp s1 = Some (let line = (str @ [c]) @ first_line n (drop (Suc ?p) xs) in
          (if 0 < n \<and> line = [] then None else Some line,
           \<lparr>sm_fid = sm_fid fp, sm_pos = sm_pos fp + 1 + of_nat (length line - length (str @ [c])), sm_flags = flags\<rparr>, s2))"
        "flags = sm_flags fp \<or> flags = sm_flags fp OR F_EOF \<and>
          sm_pos fp + 1 + of_nat (length (first_line n (drop (Suc ?p) xs))) = of_nat (length xs)"
        by auto
      have "fgets_loop G (Suc n) str fp s = fgets_loop G n (str @ [c]) ?fp s1"
        using s1(3) False nl by (simp add: c_def [symmetric] char_newline char_not_EOF)
      with s2 s1(2) show ?thesis
        by (intro exI [of _ s2] exI [of _ flags]) (auto simp: Let_def d nl add.assoc)
    qed
  qed
qed

lemma fgets_at_end: "\<not> readable fp \<Longrightarrow> 1 < n \<Longrightarrow> fgets G n fp s = Some (None, fp, s)"
  by (cases "nat (n - 1)") (simp_all add: fgets_def fgetc_def fread_def readable_def)

text \<open>The loop of a program that reads a file line by line, until \<open>fgets\<close> returns a null pointer.\<close>

partial_function (option) read_lines :: "'s user_env \<Rightarrow> int \<Rightarrow> stream \<Rightarrow> 's \<Rightarrow> (u8 list list \<times> stream \<times> 's) option" where
  "read_lines G n fp s = do {
     (r, fp, s) \<leftarrow> fgets G n fp s;
     (case r of
        None \<Rightarrow> Some ([], fp, s)
      | Some line \<Rightarrow> do {
          (lines, fp, s) \<leftarrow> read_lines G n fp s;
          Some (line # lines, fp, s) }) }"

text \<open>A text, split into its lines.\<close>

definition lines_of :: "nat \<Rightarrow> u8 list \<Rightarrow> u8 list list \<Rightarrow> bool" where
  "lines_of n ys ls \<longleftrightarrow> concat ls = ys \<and> (\<forall>l \<in> set ls. l \<noteq> [] \<and> length l \<le> n \<and> 10 \<notin> set (butlast l)) \<and>
     (\<forall>l \<in> set (butlast ls). last l = 10 \<or> length l = n)"

lemma first_line_butlast: "10 \<notin> set (butlast (first_line n ys))"
  by (induction n ys rule: first_line.induct) auto

lemma first_line_empty: "0 < n \<Longrightarrow> first_line n ys = [] \<longleftrightarrow> ys = []"
  by (cases n; cases ys) simp_all

lemma first_line_last:
  "first_line n ys \<noteq> [] \<Longrightarrow> length (first_line n ys) < length ys \<Longrightarrow> last (first_line n ys) = 10 \<or> length (first_line n ys) = n"
proof (induction n ys rule: first_line.induct)
  case (3 n c ys)
  then show ?case by (cases n) (auto simp: first_line_empty)
qed simp_all

lemma lines_of_first:
  assumes "lines_of n (drop (length (first_line n ys)) ys) ls" "0 < n" "ys \<noteq> []"
  shows "lines_of n ys (first_line n ys # ls)"
proof -
  let ?l = "first_line n ys"
  have ne: "?l \<noteq> []" using assms(2,3) by (simp add: first_line_empty)
  have "ys = take (length ?l) ys @ drop (length ?l) ys" by simp
  then have "concat (?l # ls) = ys" using assms(1) first_line_prefix [of n ys] by (simp add: lines_of_def)
  moreover have "last ?l = 10 \<or> length ?l = n" if more: "ls \<noteq> []"
  proof (rule first_line_last [OF ne])
    obtain k ks where ls: "ls = k # ks" using more by (cases ls) auto
    then have "k \<noteq> []" "concat ls = drop (length ?l) ys" using assms(1) by (auto simp: lines_of_def)
    then have "drop (length ?l) ys \<noteq> []" using ls by auto
    then show "length ?l < length ys" by simp
  qed
  ultimately show ?thesis using assms(1) ne first_line_max [of n ys] first_line_butlast [of n ys]
    by (auto simp: lines_of_def split: if_splits)
qed

lemma read_lines_ok:
  assumes store: "file_store (ue_file G (fid_server (sm_fid fp))) ok contents" and "ok s"
    and "contents s (fid_ino (sm_fid fp)) = Some xs" "length xs < 4294967296"
    and "readable fp \<or> unat (sm_pos fp) = length xs \<and> sm_flags fp AND F_EOF \<noteq> 0" "unat (sm_pos fp) \<le> length xs" "1 < n"
  shows "\<exists>s' fp' ls. ok s' \<and> contents s' = contents s \<and> read_lines G n fp s = Some (ls, fp', s') \<and>
    lines_of (nat (n - 1)) (drop (unat (sm_pos fp)) xs) ls \<and> feof fp' \<noteq> 0"
  using assms
proof (induction "length xs - unat (sm_pos fp)" arbitrary: fp s rule: less_induct)
  case less
  let ?p = "unat (sm_pos fp)"
  let ?n = "nat (n - 1)"
  have n: "0 < ?n" using assms(7) by simp
  show ?case
  proof (cases "readable fp")
    case False
    then have "drop ?p xs = []" "feof fp \<noteq> 0" using less.prems(5) by (simp_all add: feof_def)
    moreover have "read_lines G n fp s = Some ([], fp, s)"
      by (subst read_lines.simps) (simp add: fgets_at_end [OF False assms(7)])
    ultimately show ?thesis using less.prems(2) by (auto simp: lines_of_def)
  next
    case True
    show ?thesis
    proof (cases "?p = length xs")
      case end_of_file: True
      obtain k where k: "?n = Suc k" using n by (cases ?n) auto
      let ?fp = "fp\<lparr>sm_flags := sm_flags fp OR F_EOF\<rparr>"
      from fgetc_ok [OF less.prems(1-4) True less.prems(6)] end_of_file obtain s1 where
        "ok s1" "contents s1 = contents s" "fgetc G fp s = Some (EOF, ?fp, s1)" by auto
      moreover from this have "fgets G n fp s = Some (None, ?fp, s1)" by (simp add: fgets_def k)
      moreover from this have "read_lines G n fp s = Some ([], ?fp, s1)" by (subst read_lines.simps) simp
      moreover have "feof ?fp \<noteq> 0" by (rule eof_set)
      ultimately show ?thesis using end_of_file by (intro exI [of _ s1] exI [of _ ?fp] exI [of _ "[]"]) (simp add: lines_of_def)
    next
      case False
      define line where "line = first_line ?n (drop ?p xs)"
      have ne: "drop ?p xs \<noteq> []" "line \<noteq> []" using False less.prems(6) n by (simp_all add: line_def first_line_empty)
      from fgets_loop_ok [OF less.prems(1-4) True less.prems(6), of ?n "[]"] ne(2) n obtain s1 flags where s1:
        "ok s1" "contents s1 = contents s"
        "fgets G n fp s = Some (Some line, \<lparr>sm_fid = sm_fid fp, sm_pos = sm_pos fp + of_nat (length line), sm_flags = flags\<rparr>, s1)"
        "flags = sm_flags fp \<or> flags = sm_flags fp OR F_EOF \<and> sm_pos fp + of_nat (length line) = of_nat (length xs)"
        by (auto simp: Let_def line_def [symmetric] fgets_def)
      define fp1 where "fp1 = \<lparr>sm_fid = sm_fid fp, sm_pos = sm_pos fp + of_nat (length line), sm_flags = flags\<rparr>"
      have le: "length line \<le> length xs - ?p" unfolding line_def using first_line_length [of ?n "drop ?p xs"] by simp
      have p1: "unat (sm_pos fp1) = ?p + length line" unfolding fp1_def using unat_pos_add [OF less.prems(6,4) le] by simp
      have "0 < length line" using ne(2) by simp
      then have lt: "length xs - unat (sm_pos fp1) < length xs - ?p" "unat (sm_pos fp1) \<le> length xs" unfolding p1 using le by linarith+
      have "readable fp1 \<or> unat (sm_pos fp1) = length xs \<and> sm_flags fp1 AND F_EOF \<noteq> 0"
      proof (cases "flags = sm_flags fp")
        case True
        with \<open>readable fp\<close> show ?thesis by (simp add: readable_def fp1_def)
      next
        case False
        then have "flags = sm_flags fp OR F_EOF" "sm_pos fp1 = of_nat (length xs)" using s1(4) by (auto simp: fp1_def)
        moreover have "unat (of_nat (length xs) :: u64) = length xs" by (rule small_u64) (use less.prems(4) in simp)
        ultimately show ?thesis using eof_set [of fp] by (simp add: fp1_def feof_def)
      qed
      moreover have "contents s1 (fid_ino (sm_fid fp1)) = Some xs" "file_store (ue_file G (fid_server (sm_fid fp1))) ok contents"
        using less.prems(1,3) s1(2) by (simp_all add: fp1_def)
      ultimately obtain s2 fp2 ls where s2: "ok s2" "contents s2 = contents s1" "read_lines G n fp1 s1 = Some (ls, fp2, s2)"
        "lines_of ?n (drop (unat (sm_pos fp1)) xs) ls" "feof fp2 \<noteq> 0"
        using less.hyps [OF lt(1) _ s1(1) _ less.prems(4) _ lt(2) assms(7)] by blast
      have "drop (length line) (drop ?p xs) = drop (unat (sm_pos fp1)) xs" by (simp add: p1 add.commute)
      with s2(4) lines_of_first [OF _ n ne(1), of ls] have "lines_of ?n (drop ?p xs) (line # ls)" by (simp add: line_def)
      moreover have "read_lines G n fp s = Some (line # ls, fp2, s2)"
        using s1(3) s2(3) by (subst read_lines.simps) (simp add: fp1_def)
      ultimately show ?thesis using s2(1,2,5) s1(2) by auto
    qed
  qed
qed

section \<open>Path names\<close>

text \<open>
  \<open>D\<close> gives the directory behind a file identifier. A walk gives \<open>None\<close> when it meets something that is no
  directory, and \<open>Some None\<close> when a component is missing.
\<close>

type_synonym dirs = "fid \<Rightarrow> (u8 list \<Rightarrow> fid option) option"

fun walk :: "dirs \<Rightarrow> fid \<Rightarrow> u8 list list \<Rightarrow> fid option option" where
  "walk D d [] = Some (Some d)"
| "walk D d (c # cs) = (case D d of None \<Rightarrow> None | Some m \<Rightarrow>
     (case m (c @ dot_dir_suffix) of None \<Rightarrow> Some None | Some f \<Rightarrow> walk D f cs))"

text \<open>The path with these directories and this last component.\<close>

definition path_of :: "u8 list list \<Rightarrow> u8 list \<Rightarrow> u8 list" where
  "path_of cs base = concat (map (\<lambda>c. c @ [47]) cs) @ base"

definition components_ok :: "u8 list list \<Rightarrow> u8 list \<Rightarrow> bool" where
  "components_ok cs base \<longleftrightarrow> (\<forall>c \<in> set (base # cs). 0 \<notin> set c \<and> 47 \<notin> set c)"

lemma path_of_simps [simp]: "path_of [] base = base" "path_of (c # cs) base = c @ 47 # path_of cs base"
  by (simp_all add: path_of_def)

lemma components_ok_Cons [simp]: "components_ok (c # cs) base \<longleftrightarrow> 0 \<notin> set c \<and> 47 \<notin> set c \<and> components_ok cs base"
  by (auto simp: components_ok_def)

lemma flookup_walk_component:
  assumes "47 \<notin> set c"
  shows "flookup_walk drpc is_dir (c @ 47 # path) d f s = do {
    (r, s) \<leftarrow> dir_lookup drpc d (c @ dot_dir_suffix) s;
    (case r of None \<Rightarrow> Some ((False, None, None), s) | Some f \<Rightarrow> flookup_walk drpc is_dir path f f s) }"
proof -
  have "takeWhile (\<lambda>x. x \<noteq> 47) (c @ 47 # path) = c" "dropWhile (\<lambda>x. x \<noteq> 47) (c @ 47 # path) = 47 # path"
    using assms by (auto simp: takeWhile_append dropWhile_append takeWhile_eq_all_conv)
  then have "takeWhile (\<lambda>x. x \<noteq> 47) (c @ 47 # path) = c" "tl (dropWhile (\<lambda>x. x \<noteq> 47) (c @ 47 # path)) = path" by simp_all
  note split = this
  show ?thesis unfolding flookup_walk.simps [of drpc is_dir "c @ 47 # path"] split by simp
qed

lemma flookup_walk_last:
  assumes "47 \<notin> set base" "base \<noteq> []"
  shows "flookup_walk drpc is_dir base d f s = do {
    (r, s) \<leftarrow> dir_lookup drpc d (if is_dir then base @ dot_dir_suffix else base) s;
    Some ((r \<noteq> None, Some d, r), s) }"
  using assms by (subst flookup_walk.simps) simp

locale dir_service =
  fixes drpc :: "'s dir_rpc" and ok :: "'s \<Rightarrow> bool" and dirs :: "'s \<Rightarrow> dirs"
  assumes lookup_law: "ok s \<Longrightarrow> dirs s d = Some m \<Longrightarrow> 0 \<notin> set name \<Longrightarrow>
    \<exists>s'. dir_lookup drpc d name s = Some (m name, s') \<and> ok s' \<and> dirs s' = dirs s"
begin

lemma walk_missing:
  assumes "ok s" "components_ok cs base" "walk (dirs s) d cs = Some None"
  shows "\<exists>s'. ok s' \<and> dirs s' = dirs s \<and> flookup_walk drpc is_dir (path_of cs base) d f s = Some ((False, None, None), s')"
  using assms
proof (induction cs arbitrary: d f s)
  case (Cons c cs)
  then obtain m where m: "dirs s d = Some m" by (auto split: option.splits)
  have c: "0 \<notin> set (c @ dot_dir_suffix)" "47 \<notin> set c" using Cons.prems(2) by (simp_all add: dot_dir_suffix_def ascii_def)
  from lookup_law [OF Cons.prems(1) m c(1)] obtain s1 where s1:
    "dir_lookup drpc d (c @ dot_dir_suffix) s = Some (m (c @ dot_dir_suffix), s1)" "ok s1" "dirs s1 = dirs s" by blast
  show ?case
  proof (cases "m (c @ dot_dir_suffix)")
    case None
    with s1 show ?thesis by (simp add: flookup_walk_component [OF c(2)])
  next
    case (Some g)
    with Cons.prems(2,3) m have "components_ok cs base" "walk (dirs s1) g cs = Some None" by (simp_all add: s1(3))
    from Cons.IH [OF s1(2) this, of g] Some s1 show ?thesis by (simp add: flookup_walk_component [OF c(2)])
  qed
qed simp

lemma walk_found:
  assumes "ok s" "components_ok cs base" "walk (dirs s) d cs = Some (Some d')" "dirs s d' = Some m" "base \<noteq> []"
  shows "\<exists>s'. ok s' \<and> dirs s' = dirs s \<and> flookup_walk drpc is_dir (path_of cs base) d f s =
    Some (let r = m (if is_dir then base @ dot_dir_suffix else base) in ((r \<noteq> None, Some d', r), s'))"
  using assms(1-4)
proof (induction cs arbitrary: d f s)
  case Nil
  have b: "0 \<notin> set (if is_dir then base @ dot_dir_suffix else base)" "47 \<notin> set base"
    using Nil(2) by (simp_all add: components_ok_def dot_dir_suffix_def ascii_def)
  from lookup_law [OF Nil.prems(1,4) b(1)] Nil.prems(3) show ?case
    by (auto simp: flookup_walk_last [OF b(2) assms(5)] Let_def simp del: split_paired_Ex)
next
  case (Cons c cs)
  then obtain m' g where m': "dirs s d = Some m'" "m' (c @ dot_dir_suffix) = Some g" by (auto split: option.splits)
  have c: "0 \<notin> set (c @ dot_dir_suffix)" "47 \<notin> set c" using Cons.prems(2) by (simp_all add: dot_dir_suffix_def ascii_def)
  from lookup_law [OF Cons.prems(1) m'(1) c(1)] obtain s1 where s1:
    "dir_lookup drpc d (c @ dot_dir_suffix) s = Some (m' (c @ dot_dir_suffix), s1)" "ok s1" "dirs s1 = dirs s" by blast
  have "components_ok cs base" "walk (dirs s1) g cs = Some (Some d')" "dirs s1 d' = Some m"
    using Cons.prems m' by (simp_all add: s1(3))
  from Cons.IH [OF s1(2) this, of g] m'(2) s1 show ?case by (simp add: flookup_walk_component [OF c(2)])
qed

end

text \<open>More entries in the directories do not change a walk that succeeds.\<close>

lemma walk_mono:
  assumes "\<And>f m n g. D f = Some m \<Longrightarrow> m n = Some g \<Longrightarrow> n \<noteq> [] \<Longrightarrow> \<exists>m'. D' f = Some m' \<and> m' n = Some g"
  shows "walk D d cs = Some (Some d') \<Longrightarrow> walk D' d cs = Some (Some d')"
proof (induction cs arbitrary: d)
  case (Cons c cs)
  then obtain m g where m: "D d = Some m" "m (c @ dot_dir_suffix) = Some g" "walk D g cs = Some (Some d')"
    by (auto split: option.splits)
  have "c @ dot_dir_suffix \<noteq> []" by (simp add: dot_dir_suffix_def ascii_def)
  from assms [OF m(1,2) this] Cons.IH [OF m(3)] show ?case by auto
qed simp

section \<open>Directories on the memory file server\<close>

definition ram_dirs :: "u32 \<Rightarrow> ramfiles \<Rightarrow> dirs" where
  "ram_dirs srv s f = (if fid_server f \<noteq> srv then None else
     (case ramfile_contents s (fid_ino f) of None \<Rightarrow> None | Some xs \<Rightarrow>
        if dir_ok xs \<and> length xs < 4294967296 then Some (\<lambda>n. if length n \<le> DIR_NAME_SIZE then dir_map xs n else None) else None))"

lemma ram_dirs_Some:
  assumes "ram_dirs srv s d = Some m"
  obtains xs where "fid_server d = srv" "ramfile_contents s (fid_ino d) = Some xs" "dir_ok xs" "length xs < 4294967296"
    "\<And>n. m n = (if length n \<le> DIR_NAME_SIZE then dir_map xs n else None)"
  using assms by (auto simp: ram_dirs_def split: if_splits option.splits)

lemma dir_lookup_long:
  assumes "length name > DIR_NAME_SIZE"
  shows "dir_lookup (dir_proc rpc) d name s = Some (None, s)"
  using assms by (simp add: dir_lookup_def dir_proc_def dir_do_lookup_def dir_respond_def)

lemma ram_dir_service:
  assumes "rpc srv = file_rpc_to (ramfile_proc junk (Some 0))"
  shows "dir_service (dir_proc rpc) (\<lambda>s. ramfiles_ok s \<and> ramfile_contents s = C) (ram_dirs srv)"
proof
  fix s d m and name :: "u8 list"
  assume s: "ramfiles_ok s \<and> ramfile_contents s = C" and m: "ram_dirs srv s d = Some m" and name: "0 \<notin> set name"
  from ram_dirs_Some [OF m] obtain xs where xs: "fid_server d = srv" "ramfile_contents s (fid_ino d) = Some xs" "dir_ok xs"
    "length xs < 4294967296" "\<And>n. m n = (if length n \<le> DIR_NAME_SIZE then dir_map xs n else None)" by blast
  show "\<exists>s'. dir_lookup (dir_proc rpc) d name s = Some (m name, s') \<and> (ramfiles_ok s' \<and> ramfile_contents s' = C) \<and>
    ram_dirs srv s' = ram_dirs srv s"
  proof (cases "length name \<le> DIR_NAME_SIZE")
    case True
    have store: "file_store (rpc (fid_server d)) ramfiles_ok ramfile_contents"
      unfolding xs(1) assms by (rule ramfile.file_store_axioms)
    have "length name \<le> 24" using True by (simp add: DIR_NAME_SIZE_def DIR_ENTRY_SIZE_def)
    from dir_lookup_contract [where rpc = rpc, OF store _ xs(2-4) name this] s obtain s' where
      "dir_lookup (dir_proc rpc) d name s = Some (dir_map xs name, s')" "ramfiles_ok s'" "ramfile_contents s' = ramfile_contents s" by blast
    with True s xs(5) show ?thesis by (auto simp: ram_dirs_def fun_eq_iff)
  next
    case False
    with s xs(5) show ?thesis by (simp add: dir_lookup_long)
  qed
qed

interpretation ram_lookup: dir_service "dir_proc (\<lambda>srv. file_rpc_to (ramfile_proc junk (Some 0)))"
    "\<lambda>s. ramfiles_ok s \<and> ramfile_contents s = C" "ram_dirs srv" for junk C srv
  by (rule ram_dir_service) (rule refl)

end
