(* ===== verification/StdioProps.thy ===== *)
theory StdioProps
  imports StdioInv
begin

text \<open>Properties of path names and streams: on the memory file server, and on every file server that keeps the contract.\<close>

section \<open>Creating and truncating\<close>

abbreviation ram_rpc :: "(nat \<Rightarrow> u8) \<Rightarrow> ramfiles file_rpc" where
  "ram_rpc junk \<equiv> file_rpc_to (ramfile_proc junk (Some 0))"

lemma ram_create:
  assumes "ramfiles_ok s" "first_free s < MAX_FILES"
  shows "\<exists>ino s' xs. file_create (ram_rpc junk) mode s = Some ((True, Some ino), s') \<and> ramfiles_ok s' \<and>
    ramfile_contents s ino = None \<and> ramfile_contents s' = (ramfile_contents s)(ino \<mapsto> xs)"
proof -
  let ?i = "first_free s"
  let ?f = "s ! ?i"
  define f where "f = ?f\<lparr>f_stat := (f_stat ?f)\<lparr>st_alloc := True, st_mode := mode, st_uid := 0\<rparr>\<rparr>"
  have len: "length s = 100" by (rule ramfiles_okD(1) [OF assms(1)])
  have i: "1 \<le> ?i" "?i < 100" using free_ino_bounds [of 1 "map f_stat (tl s)"] assms(2)
    by (simp_all add: first_free_def MAX_FILES_def)
  have "\<not> st_alloc (map f_stat (tl s) ! (?i - 1))" unfolding first_free_def
    by (rule free_ino_free) (use i len in \<open>simp add: first_free_def\<close>)
  then have free: "\<not> st_alloc (f_stat ?f)" using i len by (simp add: nth_tl)
  have u: "unat (of_nat ?i :: u32) = ?i" using i(2) by (simp add: unsigned_of_nat take_bit_nat_eq_self)
  have "ramfiles_ok (s[?i := f])"
    using ramfiles_okD(2) [OF assms(1) i(2)] by (intro ramfiles_ok_update [OF assms(1)]) (simp add: f_def)
  moreover have "ramfile_contents (s[?i := f]) j = ((ramfile_contents s)(of_nat ?i \<mapsto> f_contents ?f)) j" for j
    using len i u unat32_inject [of "of_nat ?i" j] by (auto simp: ramfile_contents_def nth_list_update f_def)
  then have "ramfile_contents (s[?i := f]) = (ramfile_contents s)(of_nat ?i \<mapsto> f_contents ?f)" by (rule ext)
  moreover have "ramfile_contents s (of_nat ?i) = None" using free by (simp add: ramfile_contents_def u)
  moreover have "file_create (ram_rpc junk) mode s = Some ((True, Some (of_nat ?i)), s[?i := f])"
    using assms(2) by (simp add: file_create_def file_rpc_to_def ramfile_proc_def zero_request_def ramfile_do_create_def
        Let_def f_def zero_reply_def)
  ultimately show ?thesis by blast
qed

lemma ram_truncate:
  assumes "ramfiles_ok s" "ramfile_contents s ino = Some xs"
  shows "\<exists>s'. file_setsize (ram_rpc junk) ino 0 s = Some (True, s') \<and> ramfiles_ok s' \<and> ramfile_contents s' = (ramfile_contents s)(ino \<mapsto> [])"
proof -
  note c = ramfile_contents_Some [OF assms(2)] and len = ramfiles_okD(1) [OF assms(1)]
  let ?f = "s ! unat ino"
  define f where "f = ?f\<lparr>f_stat := (f_stat ?f)\<lparr>st_size := 0\<rparr>, f_contents := []\<rparr>"
  have "ramfiles_ok (s[unat ino := f])" by (rule ramfiles_ok_update [OF assms(1)]) (simp add: f_def)
  moreover have "ramfile_contents (s[unat ino := f]) j = ((ramfile_contents s)(ino \<mapsto> [])) j" for j
    using len c unat32_inject [of ino j] by (auto simp: ramfile_contents_def nth_list_update f_def)
  then have "ramfile_contents (s[unat ino := f]) = (ramfile_contents s)(ino \<mapsto> [])" by (rule ext)
  moreover have "file_setsize (ram_rpc junk) ino 0 s = Some (True, s[unat ino := f])"
    using c by (simp add: file_setsize_def file_status_call_def file_rpc_to_def ramfile_proc_def zero_request_def
        ramfile_do_setsize_def Let_def f_def MAX_FILES_def ramfile_respond_def zero_reply_def write_allowed_def)
  ultimately show ?thesis by blast
qed

section \<open>Whole paths\<close>

text \<open>A path: slashes in front of it if it is absolute, the directories, and the last component.\<close>

definition whole_path :: "nat \<Rightarrow> u8 list list \<Rightarrow> u8 list \<Rightarrow> u8 list" where
  "whole_path k cs base = replicate k 47 @ path_of cs base"

definition start_dir :: "grass_env \<Rightarrow> nat \<Rightarrow> fid" where
  "start_dir ge k = (if k = 0 then ge_cwd ge else ge_root ge)"

lemma path_of_hd:
  assumes "components_ok cs base" "base \<noteq> []" "[] \<notin> set cs"
  shows "path_of cs base \<noteq> [] \<and> hd (path_of cs base) \<noteq> 47"
proof (cases cs)
  case Nil
  have "hd base \<in> set base" using assms(2) by simp
  moreover have "47 \<notin> set base" using assms(1) by (simp add: components_ok_def)
  ultimately show ?thesis using assms(2) by (simp add: Nil) (metis hd_in_set)
next
  case (Cons c cs')
  then have "c \<noteq> []" using assms(3) by auto
  moreover from this have "hd c \<in> set c" by simp
  moreover have "47 \<notin> set c" using assms(1) by (simp add: Cons)
  ultimately have "c \<noteq> []" "hd c \<noteq> 47" by metis+
  then show ?thesis by (simp add: Cons)
qed

lemma flookup_whole:
  assumes "components_ok cs base" "base \<noteq> []" "[] \<notin> set cs"
  shows "flookup G (whole_path k cs base) is_dir = flookup_walk (ue_dir G (ge_servers (ue_env G) ! GPID_DIR)) is_dir
    (path_of cs base) (start_dir (ue_env G) k) (start_dir (ue_env G) k)"
proof -
  from path_of_hd [OF assms] obtain x p where p: "path_of cs base = x # p" "x \<noteq> 47" by (cases "path_of cs base") auto
  show ?thesis
  proof (cases k)
    case (Suc j)
    have "dropWhile (\<lambda>c. c = 47) (replicate k 47 @ x # p) = x # p" using p(2) by (induction k) auto
    with Suc p show ?thesis by (simp add: flookup_def whole_path_def start_dir_def Let_def)
  qed (simp add: flookup_def whole_path_def start_dir_def Let_def p)
qed

lemma after_last_slash_path:
  assumes "components_ok cs base"
  shows "after_last_slash (whole_path k cs base) = base"
proof -
  have b: "47 \<notin> set (rev base)" using assms by (simp add: components_ok_def)
  then have t: "takeWhile (\<lambda>c. c \<noteq> 47) (rev base) = rev base" unfolding takeWhile_eq_all_conv by auto
  have "after_last_slash (front @ [47] @ base) = base" for front
    using b unfolding after_last_slash_def by (auto simp: takeWhile_append t)
  moreover have "after_last_slash base = base"
    unfolding after_last_slash_def by (simp add: t)
  moreover have "whole_path k cs base = base \<or> (\<exists>front. whole_path k cs base = front @ [47] @ base)"
  proof (cases cs rule: rev_cases)
    case Nil
    then show ?thesis by (cases k rule: nat.exhaust) (auto simp: whole_path_def simp flip: replicate_append_same)
  next
    case (snoc cs' c)
    then have "whole_path k cs base = (replicate k 47 @ concat (map (\<lambda>c. c @ [47]) cs') @ c) @ [47] @ base"
      by (simp add: whole_path_def path_of_def)
    then show ?thesis by blast
  qed
  ultimately show ?thesis by metis
qed

lemma flookup_ram:
  assumes "ue_file G srv = ram_rpc junk" "ue_dir G (ge_servers (ue_env G) ! GPID_DIR) = dir_proc (ue_file G)"
    and "ramfiles_ok s" "components_ok cs base" "base \<noteq> []" "[] \<notin> set cs"
    and "walk (ram_dirs srv s) (start_dir (ue_env G) k) cs = Some r"
    and "\<And>d. r = Some d \<Longrightarrow> ram_dirs srv s d = Some (m d)"
  shows "\<exists>s'. ramfiles_ok s' \<and> ramfile_contents s' = ramfile_contents s \<and>
    flookup G (whole_path k cs base) False s = Some (case r of
        None \<Rightarrow> (False, None, None)
      | Some d \<Rightarrow> (m d base \<noteq> None, Some d, m d base), s')"
proof -
  let ?d = "start_dir (ue_env G) k"
  note ds = ram_dir_service [of "ue_file G", OF assms(1), where C = "ramfile_contents s"]
  have s: "ramfiles_ok s \<and> ramfile_contents s = ramfile_contents s" using assms(3) by simp
  show ?thesis
  proof (cases r)
    case None
    from dir_service.walk_missing [OF ds s assms(4), of ?d False ?d] assms(7) None
    show ?thesis unfolding flookup_whole [OF assms(4-6)] assms(2) by auto
  next
    case (Some d)
    from dir_service.walk_found [OF ds s assms(4) _ assms(8) [OF Some] assms(5), of ?d False ?d] assms(7) Some
    show ?thesis unfolding flookup_whole [OF assms(4-6)] assms(2) by (auto simp: Let_def)
  qed
qed

section \<open>Properties of paths\<close>

text \<open>Path names are resolved component by component: on the memory file server, looking up a
  path, absolute or relative, follows the directories that its components name and reports what the last
  of them holds under the last name; if a directory on the way is missing it fails and reports no
  directory. Files and directories are unchanged.\<close>
theorem flookup_resolves:
  assumes "ue_file G srv = ram_rpc junk" "ue_dir G (ge_servers (ue_env G) ! GPID_DIR) = dir_proc (ue_file G)"
    and "ramfiles_ok s" "components_ok cs base" "base \<noteq> []" "[] \<notin> set cs"
    and "walk (ram_dirs srv s) (start_dir (ue_env G) k) cs = Some r"
    and "\<And>d. r = Some d \<Longrightarrow> ram_dirs srv s d = Some (m d)"
  shows "\<exists>s'. ramfile_contents s' = ramfile_contents s \<and>
    flookup G (whole_path k cs base) False s = Some (case r of
        None \<Rightarrow> (False, None, None)
      | Some d \<Rightarrow> (m d base \<noteq> None, Some d, m d base), s')"
  using flookup_ram [OF assms(1-7), where m = m] assms(8) by blast

lemma free_inode:
  assumes "ramfiles_ok s" "ramfile_contents s i = None" "0 < unat i" "unat i < MAX_FILES"
  shows "first_free s < MAX_FILES"
proof (rule ccontr)
  note len = ramfiles_okD(1) [OF assms(1)]
  assume "\<not> first_free s < MAX_FILES"
  then have full: "free_ino 1 (map f_stat (tl s)) = 1 + length (map f_stat (tl s))"
    using free_ino_bounds [of 1 "map f_stat (tl s)"] len by (simp add: first_free_def MAX_FILES_def)
  have all: "\<forall>st \<in> set sts. st_alloc st" if "free_ino j sts = j + length sts" for j sts
    using that
  proof (induction sts arbitrary: j)
    case (Cons st sts)
    then show ?case using Cons.IH [of "j + 1"] by (cases "st_alloc st") auto
  qed simp
  have "\<forall>f \<in> set (tl s). st_alloc (f_stat f)" using all [OF full] by simp
  moreover have "s ! unat i \<in> set (tl s)"
    using assms(3,4) len by (cases s; cases "unat i") (auto simp: MAX_FILES_def)
  ultimately show False using assms(2,4) by (simp add: ramfile_contents_def MAX_FILES_def)
qed


section \<open>Properties of streams\<close>

text \<open>C40: A loop that calls \<open>fgets\<close> until it returns a null pointer ends and reads the whole rest of the
  file: on every file server that keeps the contract, the strings it returns are the lines of the rest,
  each with its newline, cut where they do not fit into the buffer; nothing is lost or read twice, the
  stream is at its end afterwards and no file has changed.\<close>
theorem fgets_reads_lines:
  assumes "file_store (ue_file G (fid_server (sm_fid fp))) ok contents" "ok s"
    and "contents s (fid_ino (sm_fid fp)) = Some xs" "length xs < 4294967296"
    and "readable fp" "unat (sm_pos fp) \<le> length xs" "1 < n"
  shows "\<exists>ls fp' s'. read_lines G n fp s = Some (ls, fp', s') \<and> feof fp' \<noteq> 0 \<and> contents s' = contents s \<and>
    concat ls = drop (unat (sm_pos fp)) xs \<and>
    (\<forall>l \<in> set ls. l \<noteq> [] \<and> int (length l) < n \<and> 10 \<notin> set (butlast l)) \<and>
    (\<forall>l \<in> set (butlast ls). last l = 10 \<or> int (length l) = n - 1)"
proof -
  from read_lines_ok [OF assms(1-4) _ assms(6,7)] assms(5) obtain s' fp' ls where
    r: "contents s' = contents s" "read_lines G n fp s = Some (ls, fp', s')" "feof fp' \<noteq> 0"
      "lines_of (nat (n - 1)) (drop (unat (sm_pos fp)) xs) ls" by blast
  have "int (length l) < n" if "length l \<le> nat (n - 1)" for l :: "u8 list" using that assms(7) by linarith
  moreover have "int (length l) = n - 1" if "length l = nat (n - 1)" for l :: "u8 list" using that assms(7) by simp
  ultimately show ?thesis using r by (intro exI [of _ ls] exI [of _ fp'] exI [of _ s']) (auto simp: lines_of_def)
qed

lemma readable_write: "readable fp \<Longrightarrow> \<not> sm_flags fp AND F_ERROR \<noteq> 0"
  by (auto simp: readable_def bit_eq_iff bit_simps)

lemma readable_rewind: "readable fp \<Longrightarrow> readable (fp'\<lparr>sm_flags := sm_flags fp AND NOT F_EOF\<rparr>)"
  by (auto simp: readable_def bit_eq_iff bit_simps)

text \<open>What is written to a stream is read back: on the memory file server, \<open>fwrite\<close> of up to a page of bytes,
  at a position within the file, writes them all; after \<open>fseek\<close> to where it began, \<open>fread\<close> of as many bytes
  returns the same bytes and leaves the stream where \<open>fwrite\<close> had left it.\<close>
theorem fwrite_fread:
  assumes "ue_file G (fid_server (sm_fid fp)) = ram_rpc junk" "ramfiles_ok s"
    and "ramfile_contents s (fid_ino (sm_fid fp)) = Some xs" "length xs + 4096 < 4294967296"
    and "readable fp" "unat (sm_pos fp) \<le> length xs" "data \<noteq> []" "length data \<le> 4096"
  shows "\<exists>fp1 s1 fp2 fp3 s3. fwrite G data 1 (of_nat (length data)) fp s = Some (of_nat (length data), fp1, s1) \<and>
    fseek G fp1 (sm_pos fp) SEEK_SET s1 = Some (0, fp2, s1) \<and>
    fread G 1 (of_nat (length data)) fp2 s1 = Some ((of_nat (length data), data), fp3, s3) \<and> sm_pos fp3 = sm_pos fp1 \<and>
    ramfile_contents s3 = (ramfile_contents s)(fid_ino (sm_fid fp) \<mapsto> range_write (unat (sm_pos fp)) data xs)"
proof -
  let ?ino = "fid_ino (sm_fid fp)" and ?n = "of_nat (length data) :: u64"
  have store: "file_store (ue_file G (fid_server (sm_fid fp))) ramfiles_ok ramfile_contents"
    unfolding assms(1) by (rule ramfile.file_store_axioms)
  have len: "length xs < 4294967296" using assms(4) by simp
  from ramfile_write_returns [OF assms(2,3) len assms(6,8), of junk] assms(1) obtain r s1 where
    w: "file_write (ue_file G (fid_server (sm_fid fp))) ?ino (sm_pos fp) data s = Some (r, s1)" by auto
  from file_store.write_law [OF store assms(2,3) len assms(6,8) w] have
    s1: "r" "ramfiles_ok s1" "ramfile_contents s1 = (ramfile_contents s)(?ino \<mapsto> range_write (unat (sm_pos fp)) data xs)" by auto
  have n: "unat (ucast ?n :: u32) = length data" "ucast (ucast ?n :: u32) = ?n"
    using assms(8) by (simp_all add: word_unat_eq_iff unsigned_ucast_eq unsigned_of_nat take_bit_nat_eq_self)
  define fp1 where "fp1 = fp\<lparr>sm_pos := sm_pos fp + ?n\<rparr>"
  have fw: "fwrite G data 1 ?n fp s = Some (?n, fp1, s1)"
    unfolding fwrite_def Let_def mult_1 n if_not_P [OF readable_write [OF assms(5)]] using w s1(1) by (simp add: fp1_def)
  define fp2 where "fp2 = fp1\<lparr>sm_pos := sm_pos fp, sm_flags := sm_flags fp1 AND NOT F_EOF\<rparr>"
  have sk: "fseek G fp1 (sm_pos fp) SEEK_SET s1 = Some (0, fp2, s1)" by (simp add: fseek_def fp2_def)
  have fp2: "sm_fid fp2 = sm_fid fp" "sm_pos fp2 = sm_pos fp" by (simp_all add: fp2_def fp1_def)
  have rd: "readable fp2" using readable_rewind [OF assms(5)] by (simp add: fp2_def fp1_def)
  have c1: "ramfile_contents s1 (fid_ino (sm_fid fp2)) = Some (range_write (unat (sm_pos fp)) data xs)" by (simp add: s1(3) fp2)
  have len1: "length (range_write (unat (sm_pos fp)) data xs) < 4294967296"
    using assms(4,6,8) by (simp add: length_range_write)
  have store1: "file_store (ue_file G (fid_server (sm_fid fp2))) ramfiles_ok ramfile_contents" using store by (simp add: fp2)
  have "0 < length data" using assms(7) by simp
  from fread_ok [OF store1 s1(2) c1 len1 rd this assms(8)] obtain s3 where s3: "ramfile_contents s3 = ramfile_contents s1" "fread G 1 ?n fp2 s1 =
      Some ((?n, data), fp2\<lparr>sm_pos := sm_pos fp + ?n\<rparr>, s3)"
    using assms(6,7) by (auto simp: Let_def fp2 range_read_write)
  from fw sk s3 s1(3) show ?thesis
    by (intro exI [of _ fp1] exI [of _ s1] exI [of _ fp2] exI [of _ "fp2\<lparr>sm_pos := sm_pos fp + ?n\<rparr>"] exI [of _ s3]) (simp add: fp1_def)
qed

text \<open>Opening for appending fails: with a mode that starts with \<open>a\<close>, \<open>fopen\<close> never returns a stream, whether the
  file exists or not.\<close>
theorem fopen_append_fails:
  assumes "char_at mode 0 = of_char CHR ''a''" "fopen G path mode s = Some (r, s')"
  shows "r = None"
  using assms by (auto simp: fopen_def fopen_mode_def split: Option.bind_splits prod.splits)

text \<open>\<open>fwrite\<close> returns the number of bytes it has written, not the number of items.\<close>
theorem fwrite_returns_bytes:
  assumes "fwrite G ptr sz nitems fp s = Some (r, fp', s')"
  shows "r = 0 \<or> r = ucast (ucast (sz * nitems) :: u32)"
  using assms by (auto simp: fwrite_def Let_def split: Option.bind_splits prod.splits if_splits)

section \<open>An example\<close>

text \<open>A system with the memory file server as server 5 and the directory server as server 6; its root directory is
  the file 0 of the memory file server.\<close>

definition example_env :: "ramfiles user_env" where
  "example_env = (let f = \<lparr>fid_server = 5, fid_ino = 0\<rparr>; rpc = (\<lambda>_. ram_rpc (\<lambda>_. 0)) in
     \<lparr>ue_file = rpc, ue_dir = (\<lambda>_. dir_proc rpc),
      ue_env = \<lparr>ge_self = 9, ge_servers = [0, 1, 2, 5, 6], ge_argc = 0, ge_argv = 0, ge_envp = 0, ge_root = f, ge_cwd = f,
        ge_home = f, ge_stdin = f, ge_stdout = f, ge_stderr = f, ge_stdnull = f\<rparr>, ue_mem = (\<lambda>_. 0)\<rparr>)"

definition example_files :: "u8 list \<Rightarrow> ramfiles" where
  "example_files xs = ramfile_init[0 := \<lparr>f_stat = zero_stat\<lparr>st_alloc := True, st_size := of_nat (length xs)\<rparr>, f_contents = xs\<rparr>]"

lemma example_file [simp]: "ue_file example_env srv = ram_rpc (\<lambda>_. 0)"
  by (simp add: example_env_def Let_def)

lemma example_dir [simp]: "ue_dir example_env srv = dir_proc (ue_file example_env)"
  by (simp add: example_env_def Let_def)

lemma example_files_ok: "length xs < 4294967296 \<Longrightarrow> ramfiles_ok (example_files xs)"
  unfolding example_files_def by (rule ramfiles_ok_update [OF ramfile_init_ok]) (simp add: small_u64)

lemma example_contents: "ramfile_contents (example_files xs) 0 = Some xs" "0 < unat i \<Longrightarrow> ramfile_contents (example_files xs) i = None"
  by (auto simp: example_files_def ramfile_contents_def ramfile_init_def MAX_FILES_def zero_stat_def nth_list_update)

lemma example_dirs: "fid_server d = 5 \<Longrightarrow> fid_ino d = 0 \<Longrightarrow> ram_dirs 5 (example_files []) d = Some (\<lambda>n. None)"
  by (auto simp: ram_dirs_def example_contents dir_ok_def)

lemma example_start: "start_dir (ue_env example_env) k = \<lparr>fid_server = 5, fid_ino = 0\<rparr>"
  by (simp add: start_dir_def example_env_def Let_def)

theorem flookup_resolves_witness:
  "\<exists>s'. flookup example_env (whole_path 1 [] [97]) False (example_files []) =
     Some ((False, Some \<lparr>fid_server = 5, fid_ino = 0\<rparr>, None), s')"
  using flookup_resolves [of example_env 5 "\<lambda>_. 0" "example_files []" "[]" "[97]" 1 "Some \<lparr>fid_server = 5, fid_ino = 0\<rparr>" "\<lambda>_ _. None"]
  by (auto simp: example_files_ok example_start example_dirs components_ok_def)


theorem fgets_reads_lines_witness:
  "\<exists>ls fp' s'. read_lines example_env 3 (falloc \<lparr>fid_server = 5, fid_ino = 0\<rparr> F_READ) (example_files [104, 105, 33, 10, 98]) =
     Some (ls, fp', s') \<and> concat ls = [104, 105, 33, 10, 98]"
proof -
  have f: "readable (falloc \<lparr>fid_server = 5, fid_ino = 0\<rparr> F_READ)"
    by (simp add: readable_def falloc_def F_READ_def F_EOF_def F_ERROR_def)
  have store: "file_store (ue_file example_env (fid_server (sm_fid (falloc \<lparr>fid_server = 5, fid_ino = 0\<rparr> F_READ)))) ramfiles_ok ramfile_contents"
    unfolding example_file by (rule ramfile.file_store_axioms)
  show ?thesis
    using fgets_reads_lines [OF store example_files_ok [of "[104, 105, 33, 10, 98]"], of "[104, 105, 33, 10, 98]" 3] f
    by (auto simp: falloc_def example_contents)
qed

theorem fwrite_fread_witness:
  "\<exists>fp1 s1. fwrite example_env [1, 2, 3] 1 (of_nat (length [1, 2, 3 :: u8])) (falloc \<lparr>fid_server = 5, fid_ino = 0\<rparr> F_WRITE) (example_files []) = Some (3, fp1, s1)"
proof -
  have "readable (falloc \<lparr>fid_server = 5, fid_ino = 0\<rparr> F_WRITE)"
    by (simp add: readable_def falloc_def F_WRITE_def F_EOF_def F_ERROR_def)
  then show ?thesis
    using fwrite_fread [of example_env "falloc \<lparr>fid_server = 5, fid_ino = 0\<rparr> F_WRITE" "\<lambda>_. 0" "example_files []" "[]" "[1, 2, 3]"]
    by (auto simp: example_files_ok example_contents falloc_def)
qed

end
