(* ===== verification/SpawnArgs.thy ===== *)
theory SpawnArgs
  imports CString Tlb
begin

text \<open>
  The argument block of a new process (\<open>spawn_load_args\<close> of \<open>egos/shared/spawn.c\<close>): the caller builds it
  in memory of its own, for the address it will have at the top of the stack of the new process. A
  \<open>struct grass_env\<close> has 128 bytes: \<open>self\<close> at 0, \<open>argc\<close> at 48, \<open>argv\<close> at 56, \<open>envp\<close> at 64, and from 72 on
  the directories and files. Pointers have 8 bytes.
\<close>

section \<open>Pointers in memory\<close>

definition mem64 :: "mem \<Rightarrow> nat \<Rightarrow> u64" where
  "mem64 m a = bytes_word (mem_bytes m a 8)"

definition put64 :: "mem \<Rightarrow> nat \<Rightarrow> u64 \<Rightarrow> mem" where
  "put64 m a w = put_bytes m a (le64 w)"

definition ptr_at :: "mem \<Rightarrow> nat \<Rightarrow> nat \<Rightarrow> nat" where
  "ptr_at m argv i = unat (mem64 m (argv + 8 * i))"

lemma le64_bytes: "bytes_word (le64 w) = w"
  by (simp add: le64_def bytes_word_bytes)

lemma mem64_cong: "(\<And>i. i < 8 \<Longrightarrow> m (a + i) = m' (b + i)) \<Longrightarrow> mem64 m a = mem64 m' b"
  by (simp add: mem64_def mem_bytes_cong [of 8 m a m' b])

lemma ptr_at_cong: "(\<And>j. j < 8 \<Longrightarrow> m' (argv + 8 * i + j) = m (argv + 8 * i + j)) \<Longrightarrow> ptr_at m' argv i = ptr_at m argv i"
  by (simp add: ptr_at_def mem64_cong [of m' "argv + 8 * i" m "argv + 8 * i"])

section \<open>The program\<close>

definition GRASS_ENV_SIZE :: nat where "GRASS_ENV_SIZE = 128"
definition ALIGNMENT :: u32 where "ALIGNMENT = 16"

text \<open>\<open>&GRASS_ENV[1]\<close>, the end of the argument block of a process.\<close>

definition ENV_END :: u64 where
  "ENV_END = VIRT_TOP - 8"

fun args_size :: "mem \<Rightarrow> nat \<Rightarrow> nat list \<Rightarrow> u32 \<Rightarrow> u32 option" where
  "args_size m argv [] sz = Some sz"
| "args_size m argv (i # is) sz = do {
     len \<leftarrow> strlen m (ptr_at m argv i);
     args_size m argv is (sz + of_nat len + 1) }"

fun fill_args :: "nat \<Rightarrow> nat list \<Rightarrow> nat \<Rightarrow> nat \<Rightarrow> u64 \<Rightarrow> mem \<Rightarrow> (nat \<times> mem) option" where
  "fill_args argv [] v1 s1 s2 m = Some (v1, m)"
| "fill_args argv (i # is) v1 s1 s2 m = do {
     len \<leftarrow> strlen m (ptr_at m argv i);
     let len = len + 1;
     (_, m) \<leftarrow> strcpy m s1 (ptr_at m argv i);
     let m = put64 m v1 s2;
     fill_args argv is (v1 + 8) (s1 + len) (s2 + of_nat len) m }"

text \<open>
  The arguments are the addresses of the environment and of the argument vector of the caller, and
  the block that \<open>malloc(total)\<close> returns. The result is \<open>*p_size\<close>.
\<close>

definition spawn_load_args :: "nat \<Rightarrow> nat \<Rightarrow> nat \<Rightarrow> nat \<Rightarrow> mem \<Rightarrow> (u32 \<times> mem) option" where
  "spawn_load_args ge_init argc argv argb m = do {
     let sz = of_nat ((argc + 1) * 8 + GRASS_ENV_SIZE);
     sz \<leftarrow> args_size m argv [0..<argc] sz;
     let rem = sz mod ALIGNMENT;
     let sz = (if rem > 0 then sz + (ALIGNMENT - rem) else sz);
     let v2 = ENV_END - ucast sz;
     let s1 = argb + 8 * (argc + 1);
     let s2 = v2 + of_nat (8 * (argc + 1));
     let ge = argb + unat sz - GRASS_ENV_SIZE;
     let m = put_bytes m ge (mem_bytes m ge_init GRASS_ENV_SIZE);
     let m = put32 m (ge + 48) (of_nat argc);
     let m = put64 m (ge + 56) v2;
     let m = put64 m (ge + 64) 0;
     (v1, m) \<leftarrow> fill_args argv [0..<argc] argb s1 s2 m;
     Some (sz, put64 m v1 0) }"

section \<open>The contents of the block\<close>

text \<open>The strings with their terminators, the pointers to them, and the offset of each string.\<close>

definition strs :: "u8 list list \<Rightarrow> u8 list" where
  "strs args = concat (map (\<lambda>a. a @ [0]) args)"

fun ptrs :: "u64 \<Rightarrow> u8 list list \<Rightarrow> u8 list" where
  "ptrs s [] = []"
| "ptrs s (a # as) = le64 s @ ptrs (s + of_nat (length a + 1)) as"

lemma strs_simps [simp]: "strs [] = []" "strs (a # as) = a @ 0 # strs as"
  by (simp_all add: strs_def)

lemma length_ptrs [simp]: "length (ptrs s args) = 8 * length args"
  by (induction s args rule: ptrs.induct) simp_all

lemma put_bytes_append: "put_bytes m a (xs @ ys) = put_bytes (put_bytes m a xs) (a + length xs) ys"
  by (auto simp: put_bytes_def fun_eq_iff nth_append)

lemma put_bytes_swap: "a + length xs \<le> b \<Longrightarrow> put_bytes (put_bytes m b ys) a xs = put_bytes (put_bytes m a xs) b ys"
  by (auto simp: put_bytes_def fun_eq_iff)

text \<open>The arguments of the caller, none of which lies in the range of memory that is written.\<close>

definition args_in :: "mem \<Rightarrow> nat \<Rightarrow> nat \<Rightarrow> nat \<Rightarrow> nat list \<Rightarrow> u8 list list \<Rightarrow> bool" where
  "args_in m argv lo hi is args \<longleftrightarrow> list_all2 (\<lambda>i a. cstr m (ptr_at m argv i) a \<and>
     (ptr_at m argv i + length a < lo \<or> hi \<le> ptr_at m argv i) \<and> (argv + 8 * i + 8 \<le> lo \<or> hi \<le> argv + 8 * i)) is args"

lemma args_in_cong:
  assumes "args_in m argv lo hi is args" "\<And>x. x < lo \<or> hi \<le> x \<Longrightarrow> m' x = m x"
  shows "args_in m' argv lo hi is args"
  unfolding args_in_def
proof (rule list_all2_mono [OF assms(1) [unfolded args_in_def]])
  fix i a
  assume a: "cstr m (ptr_at m argv i) a \<and> (ptr_at m argv i + length a < lo \<or> hi \<le> ptr_at m argv i) \<and>
    (argv + 8 * i + 8 \<le> lo \<or> hi \<le> argv + 8 * i)"
  then have p: "ptr_at m' argv i = ptr_at m argv i" by (intro ptr_at_cong assms(2)) auto
  have "cstr m' (ptr_at m argv i) a" by (rule cstr_cong [of m]) (use a assms(2) in auto)
  with a show "cstr m' (ptr_at m' argv i) a \<and> (ptr_at m' argv i + length a < lo \<or> hi \<le> ptr_at m' argv i) \<and>
    (argv + 8 * i + 8 \<le> lo \<or> hi \<le> argv + 8 * i)" by (simp add: p)
qed

lemma args_size: "args_in m argv lo hi is args \<Longrightarrow> args_size m argv is t = Some (t + of_nat (length (strs args)))"
proof (induction "is" arbitrary: args t)
  case (Cons i "is")
  then obtain a as where as: "args = a # as" by (auto simp: args_in_def list_all2_Cons1)
  with Cons.prems have c: "cstr m (ptr_at m argv i) a" and r: "args_in m argv lo hi is as" by (simp_all add: args_in_def)
  show ?case using Cons.IH [OF r] strlen [OF c] as by (simp add: ac_simps)
qed (simp add: args_in_def)

lemma fill_args:
  assumes "args_in m argv lo hi is args" "lo \<le> v1" "v1 + 8 * length args \<le> s1" "s1 + length (strs args) \<le> hi"
  shows "fill_args argv is v1 s1 s2 m = Some (v1 + 8 * length args, put_bytes (put_bytes m s1 (strs args)) v1 (ptrs s2 args))"
  using assms
proof (induction "is" arbitrary: args v1 s1 s2 m)
  case (Cons i "is")
  then obtain a as where as: "args = a # as" by (auto simp: args_in_def list_all2_Cons1)
  with Cons.prems(1) have c: "cstr m (ptr_at m argv i) a" and r: "args_in m argv lo hi is as"
    and d: "ptr_at m argv i + length a < lo \<or> hi \<le> ptr_at m argv i" by (simp_all add: args_in_def)
  have b: "v1 + 8 + 8 * length as \<le> s1" "s1 + (length a + 1) + length (strs as) \<le> hi" using Cons.prems(3,4) as by simp_all
  have cp: "strcpy m s1 (ptr_at m argv i) = Some (s1, put_bytes m s1 (a @ [0]))"
    using strcpy_loop [OF c, of s1] d Cons.prems(2) b by (auto simp: strcpy_def)
  let ?m = "put_bytes (put_bytes m s1 (a @ [0])) v1 (le64 s2)"
  have "args_in ?m argv lo hi is as"
    by (rule args_in_cong [OF r]) (use Cons.prems(2) b in \<open>auto simp: put_bytes_out\<close>)
  from Cons.IH [OF this, of "v1 + 8" "s1 + (length a + 1)" "s2 + of_nat (length a + 1)"] b Cons.prems(2)
  have "fill_args argv is (v1 + 8) (s1 + (length a + 1)) (s2 + of_nat (length a + 1)) ?m =
    Some (v1 + 8 + 8 * length as, put_bytes (put_bytes ?m (s1 + (length a + 1)) (strs as)) (v1 + 8) (ptrs (s2 + of_nat (length a + 1)) as))"
    by simp
  moreover have "put_bytes (put_bytes ?m (s1 + (length a + 1)) (strs as)) (v1 + 8) (ptrs (s2 + of_nat (length a + 1)) as) =
    put_bytes (put_bytes m s1 (strs args)) v1 (ptrs s2 args)"
  proof -
    have "put_bytes ?m (s1 + (length a + 1)) (strs as) =
      put_bytes (put_bytes (put_bytes m s1 (a @ [0])) (s1 + (length a + 1)) (strs as)) v1 (le64 s2)"
      by (rule put_bytes_swap [symmetric]) (use b in simp)
    also have "\<dots> = put_bytes (put_bytes m s1 (strs args)) v1 (le64 s2)"
      using put_bytes_append [of m s1 "a @ [0]" "strs as"] as by simp
    finally show ?thesis using put_bytes_append [of "put_bytes m s1 (strs args)" v1 "le64 s2"] as by simp
  qed
  ultimately show ?case using strlen [OF c] cp as by (simp add: put64_def ac_simps)
qed (simp add: args_in_def)

section \<open>The block at its address\<close>

text \<open>What a program finds in its environment at the given address.\<close>

definition args_at :: "mem \<Rightarrow> nat \<Rightarrow> u8 list list \<Rightarrow> bool" where
  "args_at u ge args \<longleftrightarrow> mem32 u (ge + 48) = of_nat (length args) \<and> (let argv = unat (mem64 u (ge + 56)) in
     (\<forall>i<length args. cstr u (ptr_at u argv i) (args ! i)) \<and> mem64 u (argv + 8 * length args) = 0)"

lemma strs_split: "i < length args \<Longrightarrow> strs args = strs (take i args) @ (args ! i @ [0]) @ strs (drop (Suc i) args)"
proof -
  assume "i < length args"
  from arg_cong [OF id_take_nth_drop [OF this], of strs] show ?thesis by (simp add: strs_def)
qed

lemma strs_at:
  assumes "mem_bytes m s (length (strs args)) = strs args" "i < length args" "0 \<notin> set (args ! i)"
  shows "cstr m (s + length (strs (take i args))) (args ! i)"
proof -
  note sp = strs_split [OF assms(2)]
  have "mem_bytes m (s + length (strs (take i args))) (length (args ! i @ [0])) = args ! i @ [0]"
    by (rule mem_bytes_cut [of m s "length (strs args)" _ _ "strs (drop (Suc i) args)"]) (use assms(1) sp in simp)
  then show ?thesis using assms(3) by (simp add: cstr_def mem_bytes_snoc)
qed

lemma ptrs_split: "ptrs s (xs @ ys) = ptrs s xs @ ptrs (s + of_nat (length (strs xs))) ys"
  by (induction s xs rule: ptrs.induct) (simp_all add: ac_simps)

lemma ptrs_at:
  assumes "mem_bytes m v (8 * length args) = ptrs s args" "i < length args"
  shows "mem64 m (v + 8 * i) = s + of_nat (length (strs (take i args)))"
proof -
  let ?w = "s + of_nat (length (strs (take i args))) :: u64"
  have "ptrs s args = ptrs s (take i args) @ le64 ?w @ ptrs (?w + of_nat (length (args ! i) + 1)) (drop (Suc i) args)"
    using ptrs_split [of s "take i args" "args ! i # drop (Suc i) args"] id_take_nth_drop [OF assms(2)] by simp
  from mem_bytes_cut [OF trans [OF assms(1) this]] assms(2) show ?thesis by (simp add: mem64_def le64_bytes)
qed

lemma strs_take_le: "i < length args \<Longrightarrow> length (strs (take i args)) + length (args ! i) < length (strs args)"
  using arg_cong [OF strs_split, of i args length] by simp

lemma env_end: "unat ENV_END = 0x100FFFF8"
  by (simp add: ENV_END_def VIRT_TOP_def VIRT_BASE_def)

text \<open>The size of the block: pointers, strings and environment, rounded up.\<close>

definition block_size :: "u8 list list \<Rightarrow> nat" where
  "block_size args = (8 * (length args + 1) + GRASS_ENV_SIZE + length (strs args) + 15) div 16 * 16"

lemma block_size_bounds:
  "8 * (length args + 1) + GRASS_ENV_SIZE + length (strs args) \<le> block_size args"
  "block_size args < 8 * (length args + 1) + GRASS_ENV_SIZE + length (strs args) + 16"
  "block_size args mod 16 = 0"
  unfolding block_size_def by (simp_all add: div_mult_mod_eq [symmetric] minus_mod_eq_div_mult [symmetric])

lemma round_arith: "n = q * 16 + r \<Longrightarrow> r < 16 \<Longrightarrow> n + (16 - r) = (q + 1) * (16 :: nat)"
  by simp

lemma round_up:
  assumes "n + 16 < 4294967296"
  shows "(let r = of_nat n mod ALIGNMENT in if r > 0 then of_nat n + (ALIGNMENT - r) else of_nat n) =
    (of_nat ((n + 15) div 16 * 16) :: u32)"
proof -
  have m: "of_nat n mod ALIGNMENT = (of_nat (n mod 16) :: u32)"
    using assms by (simp add: ALIGNMENT_def word_arith_nat_defs(7) unat32_of_nat)
  have d: "n = n div 16 * 16 + n mod 16" by simp
  show ?thesis
  proof (cases "n mod 16 = 0")
    case True
    then have "(n + 15) div 16 * 16 = n" by presburger
    with True m show ?thesis by simp
  next
    case False
    have b: "n mod 16 < 16" by simp
    then have u: "unat (of_nat (n mod 16) :: u32) = n mod 16" by (intro unat32_of_nat) simp
    have "(of_nat (n mod 16) :: u32) \<noteq> 0"
    proof
      assume z: "(of_nat (n mod 16) :: u32) = 0"
      show False using u False unfolding z by simp
    qed
    then have g: "(of_nat (n mod 16) :: u32) > 0" by (simp only: word_gt_0 not_False_eq_True)
    have "(n mod 16 + 15) div 16 = 1" using False b by simp
    moreover have "(n + 15) div 16 = n div 16 + (n mod 16 + 15) div 16" using div_mult_self3 [of 16 "n div 16" "n mod 16 + 15"] d by simp
    ultimately have q: "(n + 15) div 16 = n div 16 + 1" by (simp only:)
    have e: "n + (16 - n mod 16) = (n + 15) div 16 * 16" unfolding q by (rule round_arith [OF d b])
    have "of_nat n + (16 - of_nat (n mod 16)) = (of_nat (n + (16 - n mod 16)) :: u32)" using b by (simp add: of_nat_diff)
    then show ?thesis unfolding Let_def m e using g by (simp only: ALIGNMENT_def if_True)
  qed
qed


section \<open>Building the block\<close>

lemma load_args_run:
  assumes a: "args_in m argv argb (argb + block_size args) [0..<length args] args"
    and b: "block_size args \<le> 0x10000000"
    and g: "ge_init + GRASS_ENV_SIZE \<le> argb \<or> argb + block_size args \<le> ge_init"
  shows "\<exists>m'. spawn_load_args ge_init (length args) argv argb m = Some (of_nat (block_size args), m') \<and>
    (let T = block_size args; n = length args; ge = argb + T - 128; v2 = ENV_END - of_nat T in
      (\<forall>x. x < argb \<or> argb + T \<le> x \<longrightarrow> m' x = m x) \<and>
      mem_bytes m' argb (8 * n) = ptrs (v2 + of_nat (8 * (n + 1))) args \<and> mem64 m' (argb + 8 * n) = 0 \<and>
      mem_bytes m' (argb + 8 * (n + 1)) (length (strs args)) = strs args \<and>
      mem32 m' (ge + 48) = of_nat n \<and> mem64 m' (ge + 56) = v2 \<and> mem64 m' (ge + 64) = 0 \<and>
      mem_bytes m' ge 48 = mem_bytes m ge_init 48 \<and> mem_bytes m' (ge + 72) 56 = mem_bytes m (ge_init + 72) 56)"
proof -
  let ?T = "block_size args" and ?n = "length args" and ?v1 = "argb + 8 * length args"
  define ge where "ge = argb + ?T - 128"
  let ?s1 = "argb + 8 * (length args + 1)"
  let ?v2 = "ENV_END - of_nat ?T :: u64"
  let ?s2 = "?v2 + of_nat (8 * (?n + 1))"
  note bounds = block_size_bounds [of args]
  have ge: "?s1 + length (strs args) \<le> ge" "ge + 128 = argb + ?T" using bounds(1) by (simp_all add: GRASS_ENV_SIZE_def ge_def)
  let ?m1 = "put_bytes m ge (mem_bytes m ge_init 128)"
  let ?m2 = "put32 ?m1 (ge + 48) (of_nat ?n)"
  let ?m3 = "put64 ?m2 (ge + 56) ?v2"
  let ?m4 = "put64 ?m3 (ge + 64) 0"
  let ?m5 = "put_bytes (put_bytes ?m4 ?s1 (strs args)) argb (ptrs ?s2 args)"
  let ?m6 = "put64 ?m5 ?v1 0"
  have out4: "?m4 x = m x" if "x < ge \<or> ge + 128 \<le> x" for x
    using that by (auto simp: put64_def put32_def put_bytes_out)
  have size: "args_size m argv [0..<?n] (of_nat ((?n + 1) * 8 + GRASS_ENV_SIZE)) =
      Some (of_nat (8 * (?n + 1) + GRASS_ENV_SIZE + length (strs args)))"
    using args_size [OF a, of "of_nat ((?n + 1) * 8 + GRASS_ENV_SIZE)"] by (simp only: of_nat_add [symmetric] mult.commute [of _ 8])
  have "args_in ?m4 argv argb (argb + ?T) [0..<?n] args" by (rule args_in_cong [OF a]) (use ge out4 in auto)
  from fill_args [OF this, of argb ?s1 ?s2] ge
  have fill: "fill_args argv [0..<?n] argb ?s1 ?s2 ?m4 = Some (?v1, ?m5)" by simp
  have u: "unat (of_nat ?T :: u32) = ?T" "ucast (of_nat ?T :: u32) = (of_nat ?T :: u64)"
    using b by (simp_all add: unat32_of_nat unsigned_of_nat take_bit_nat_eq_self)
  have "spawn_load_args ge_init ?n argv argb m = Some (of_nat ?T, ?m6)"
  proof -
    let ?N = "8 * (?n + 1) + GRASS_ENV_SIZE + length (strs args)"
    have "?N + 16 < 4294967296" using bounds(1) b by simp
    from round_up [OF this] have r: "(if of_nat ?N mod ALIGNMENT > 0 then of_nat ?N + (ALIGNMENT - of_nat ?N mod ALIGNMENT) else of_nat ?N) =
      (of_nat ?T :: u32)" by (simp only: Let_def block_size_def)
    have "argb + ?T - GRASS_ENV_SIZE = ge" "mem_bytes m ge_init GRASS_ENV_SIZE = mem_bytes m ge_init 128"
      by (simp_all add: GRASS_ENV_SIZE_def ge_def)
    then show ?thesis
      unfolding spawn_load_args_def Let_def size bind.bind_lunit r u by (simp only: fill bind.bind_lunit prod.case)
  qed
  moreover have "?m6 x = m x" if "x < argb \<or> argb + ?T \<le> x" for x
    using that ge out4 [of x] by (auto simp: put64_def put_bytes_out)
  moreover have "mem_bytes ?m6 argb (8 * ?n) = ptrs ?s2 args" "mem64 ?m6 ?v1 = 0"
    "mem_bytes ?m6 ?s1 (length (strs args)) = strs args"
    by (simp_all add: put64_def mem64_def le64_bytes mem_put_bytes_out)
  moreover have env: "mem_bytes ?m6 (ge + i) j = mem_bytes ?m4 (ge + i) j" for i j
    using ge by (intro mem_bytes_cong) (simp add: put64_def put_bytes_out)
  have "mem32 ?m4 (ge + 48) = of_nat ?n" "mem64 ?m4 (ge + 56) = ?v2" "mem64 ?m4 (ge + 64) = 0"
    by (simp_all add: put64_def put32_def mem32_def mem64_def mem_put_bytes_out le64_bytes le32_word_bytes bytes_word_bytes)
  then have "mem32 ?m6 (ge + 48) = of_nat ?n" "mem64 ?m6 (ge + 56) = ?v2" "mem64 ?m6 (ge + 64) = 0"
    unfolding mem32_def mem64_def env by (simp_all only:)
  moreover have "mem_bytes ?m6 (ge + i) j = mem_bytes m (ge_init + i) j" if "i + j \<le> 48 \<or> 72 \<le> i \<and> i + j \<le> 128" for i j
    unfolding env using that by (intro mem_bytes_cong) (auto simp: put64_def put32_def put_bytes_out put_bytes_in add.assoc)
  from this [of 0 48] this [of 72 56] have "mem_bytes ?m6 ge 48 = mem_bytes m ge_init 48"
    "mem_bytes ?m6 (ge + 72) 56 = mem_bytes m (ge_init + 72) 56" by (simp_all only: add_0_right) simp_all
  ultimately show ?thesis unfolding Let_def ge_def [symmetric] by blast
qed

section \<open>The block in the new process\<close>

lemma cstr_shift: "cstr m s bs \<Longrightarrow> (\<And>i. i \<le> length bs \<Longrightarrow> m' (t + i) = m (s + i)) \<Longrightarrow> cstr m' t bs"
  by (auto simp: cstr_def intro: trans [OF mem_bytes_cong])

lemma stack_address:
  assumes "block_size args \<le> 0x10000000" "k \<le> block_size args"
  shows "unat (ENV_END - of_nat (block_size args) + of_nat k) = unat ENV_END - block_size args + k"
proof -
  have "ENV_END = of_nat 0x100FFFF8" by (simp add: ENV_END_def VIRT_TOP_def VIRT_BASE_def)
  then have "ENV_END - of_nat (block_size args) + of_nat k = of_nat (0x100FFFF8 - block_size args + k)"
    using assms(1) by (simp add: of_nat_diff)
  moreover have "0x100FFFF8 - block_size args + k < 2 ^ LENGTH(64)" using assms by simp
  ultimately show ?thesis unfolding env_end by (simp only: unsigned_of_nat take_bit_nat_eq_self of_nat_id)
qed

lemma args_at_copied:
  assumes b: "block_size args \<le> 0x10000000" and z: "\<forall>a\<in>set args. 0 \<notin> set a"
    and p: "mem_bytes m argb (8 * length args) = ptrs (ENV_END - of_nat (block_size args) + of_nat (8 * (length args + 1))) args"
      "mem64 m (argb + 8 * length args) = 0"
    and s: "mem_bytes m (argb + 8 * (length args + 1)) (length (strs args)) = strs args"
    and e: "mem32 m (argb + block_size args - 128 + 48) = of_nat (length args)"
      "mem64 m (argb + block_size args - 128 + 56) = ENV_END - of_nat (block_size args)"
    and c: "\<And>i. i < block_size args \<Longrightarrow> i < block_size args - 128 \<or> block_size args - 124 \<le> i \<Longrightarrow>
      u (unat ENV_END - block_size args + i) = m (argb + i)"
  shows "args_at u (unat ENV_END - 128) args"
proof -
  let ?T = "block_size args" and ?n = "length args"
  let ?sp = "unat ENV_END - ?T"
  have T: "8 * (?n + 1) + 128 + length (strs args) \<le> ?T" using block_size_bounds(1) by (simp add: GRASS_ENV_SIZE_def)
  define B where "B = ?T - 128"
  have TB: "?T = B + 128" using T by (simp add: B_def)
  have ge: "unat ENV_END - 128 = ?sp + B" "argb + ?T - 128 = argb + B" using b TB env_end by simp_all
  note e' = e [unfolded ge add.assoc]
  have c': "u (?sp + i + j) = m (argb + i + j)" if "i + j < B \<or> B + 4 \<le> i + j \<and> i + j < ?T" for i j
    using c [of "i + j"] that TB by (auto simp: add.assoc)
  have w: "mem64 u (?sp + i) = mem64 m (argb + i)" if "i + 8 \<le> B \<or> B + 4 \<le> i \<and> i + 8 \<le> ?T" for i
    using that by (intro mem64_cong c') auto
  have w4: "mem32 u (?sp + i) = mem32 m (argb + i)" if "i + 4 \<le> B \<or> B + 4 \<le> i \<and> i + 4 \<le> ?T" for i
    unfolding mem32_def using that by (intro arg_cong [of _ _ bytes_word] mem_bytes_cong c') auto
  have "mem32 u (?sp + (B + 48)) = of_nat ?n" by (rule trans [OF w4 e'(1)]) (simp add: TB)
  then have argc: "mem32 u (unat ENV_END - 128 + 48) = of_nat ?n" unfolding ge add.assoc .
  have "mem64 u (?sp + (B + 56)) = ENV_END - of_nat ?T" by (rule trans [OF w e'(2)]) (simp add: TB)
  then have argv: "unat (mem64 u (unat ENV_END - 128 + 56)) = ?sp" unfolding ge add.assoc using stack_address [OF b le0] by simp
  have "cstr u (ptr_at u ?sp i) (args ! i)" if i: "i < ?n" for i
  proof -
    let ?o = "8 * (?n + 1) + length (strs (take i args))"
    note l = strs_take_le [OF i]
    have o: "?o + length (args ! i) < B" "?o \<le> ?T" "8 * i + 8 \<le> B" using l T TB i by simp_all
    have "mem64 u (?sp + 8 * i) = mem64 m (argb + 8 * i)" by (rule w) (use o in simp)
    also have "\<dots> = ENV_END - of_nat ?T + of_nat ?o" using ptrs_at [OF p(1) i] by (simp only: of_nat_add add.assoc)
    finally have "ptr_at u ?sp i = ?sp + ?o" unfolding ptr_at_def using stack_address [OF b o(2)] by (simp only:)
    moreover have "cstr m (argb + ?o) (args ! i)" using strs_at [OF s i] z i by (simp add: add.assoc)
    then have "cstr u (?sp + ?o) (args ! i)" by (rule cstr_shift) (rule c', use o in simp)
    ultimately show ?thesis by (simp only:)
  qed
  moreover have "mem64 u (?sp + 8 * ?n) = mem64 m (argb + 8 * ?n)" by (rule w) (use T TB in simp)
  ultimately show ?thesis unfolding args_at_def Let_def argv using argc p(2) by simp
qed

end
