(* ===== verification/Spawn.thy ===== *)
theory Spawn
  imports KernelProps Stdio SpawnArgs Paging
begin

text \<open>
  The spawn server (\<open>egos/grass/spawnsvr.c\<close>) and its clients (\<open>egos/shared/spawn.c\<close>,
  \<open>egos/lib/exec.c\<close>). A \<open>struct spawn_request\<close> has 24 bytes: the type at 0; for an exec the server of
  the executable at 4, its inode at 8, the size of the arguments at 12, \<open>interruptable\<close> at 16 and the
  user at 20; for a kill the process at 4 and the status at 8; for a getuid the process at 4. A reply
  has 8 bytes: the status and a process or user. The buffer for requests belongs to the server and is
  the argument of the process it starts, so it is part of the state.
\<close>

section \<open>Messages\<close>

definition SPAWN_EXEC :: u32 where "SPAWN_EXEC = 1"
definition SPAWN_KILL :: u32 where "SPAWN_KILL = 2"
definition SPAWN_GETUID :: u32 where "SPAWN_GETUID = 3"
definition SPAWN_OK :: u32 where "SPAWN_OK = 0"
definition SPAWN_ERROR :: u32 where "SPAWN_ERROR = 1"

definition GPID_SPAWN :: nat where "GPID_SPAWN = 5"

definition spawn_request_size :: nat where "spawn_request_size = 24"

definition spawn_reply :: "u32 \<Rightarrow> u32 \<Rightarrow> u8 list" where
  "spawn_reply status u = le32 status @ le32 u"

definition exec_request :: "fid \<Rightarrow> u8 list \<Rightarrow> bool \<Rightarrow> u32 \<Rightarrow> u8 list" where
  "exec_request executable argb interruptable uid =
     le32 SPAWN_EXEC @ le32 (fid_server executable) @ le32 (fid_ino executable) @ le32 (of_nat (length argb)) @
     le32 (if interruptable then 1 else 0) @ le32 uid @ argb"

definition kill_request :: "u32 \<Rightarrow> int \<Rightarrow> u8 list" where
  "kill_request pid status = le32 SPAWN_KILL @ le32 pid @ le32 (word_of_int status) @ replicate 12 0"

definition getuid_request :: "u32 \<Rightarrow> u8 list" where
  "getuid_request pid = le32 SPAWN_GETUID @ le32 pid @ replicate 16 0"

section \<open>Clients\<close>

text \<open>The calls of \<open>sys_rpc\<close> go to the process they name. The result of \<open>spawn_exec\<close> is \<open>*ppid\<close>.\<close>

definition spawn_exec :: "'s rpc \<Rightarrow> fid \<Rightarrow> u8 list \<Rightarrow> bool \<Rightarrow> u32 \<Rightarrow> 's \<Rightarrow> (u32 option \<times> 's) option" where
  "spawn_exec rpc executable argb interruptable uid s = do {
     ((n, reply), s) \<leftarrow> rpc (exec_request executable argb interruptable uid) 8 s;
     Some (if n < 8 then None else if get32 reply 0 \<noteq> SPAWN_OK then None else Some (get32 reply 4), s) }"

definition spawn_kill :: "'s rpc \<Rightarrow> u32 \<Rightarrow> int \<Rightarrow> 's \<Rightarrow> (bool \<times> 's) option" where
  "spawn_kill rpc pid status s = do {
     ((n, reply), s) \<leftarrow> rpc (kill_request pid status) 8 s;
     Some (if n < 8 then False else get32 reply 0 = SPAWN_OK, s) }"

definition spawn_getuid :: "'s rpc \<Rightarrow> u32 \<Rightarrow> 's \<Rightarrow> (u32 option \<times> 's) option" where
  "spawn_getuid rpc pid s = do {
     ((n, reply), s) \<leftarrow> rpc (getuid_request pid) 8 s;
     Some (if n < 8 then None else if get32 reply 0 = SPAWN_OK then Some (get32 reply 4) else None, s) }"

definition spawn_fexec :: "'s user_env \<Rightarrow> (u32 \<Rightarrow> 's rpc) \<Rightarrow> u8 list \<Rightarrow> u8 list \<Rightarrow> bool \<Rightarrow> u32 \<Rightarrow> 's \<Rightarrow> (u32 option \<times> 's) option" where
  "spawn_fexec G rpc exec argb interruptable uid s = do {
     ((ok, _, f), s) \<leftarrow> flookup G exec False s;
     if \<not> ok then do { (_, s) \<leftarrow> printf G (ascii ''Can'' @ [39] @ ascii ''t find '' @ [39] @ ascii ''%s'' @ [39, 10]) [Arg_str exec] s; Some (None, s) }
     else do { f \<leftarrow> f; spawn_exec (rpc (ge_servers (ue_env G) ! GPID_SPAWN)) f argb interruptable uid s } }"

text \<open>The memory of the caller has its environment at \<open>GRASS_ENV\<close>; \<open>argb\<close> is what \<open>malloc\<close> returns.\<close>

definition spawn_vexec :: "'s user_env \<Rightarrow> (u32 \<Rightarrow> 's rpc) \<Rightarrow> u8 list \<Rightarrow> nat \<Rightarrow> nat \<Rightarrow> nat \<Rightarrow> bool \<Rightarrow> u32 \<Rightarrow> mem \<times> 's \<Rightarrow> (u32 option \<times> mem \<times> 's) option" where
  "spawn_vexec G rpc exec argc argv argb interruptable uid ms = (let (m, s) = ms in do {
     (n, m) \<leftarrow> spawn_load_args (unat ENV_END - GRASS_ENV_SIZE) argc argv argb m;
     (r, s) \<leftarrow> spawn_fexec G rpc exec (mem_bytes m argb (unat n)) interruptable uid s;
     Some (r, m, s) })"

section \<open>The server\<close>

definition spawn_respond :: "u32 \<Rightarrow> u32 \<Rightarrow> u32 \<Rightarrow> kernel \<Rightarrow> kernel option" where
  "spawn_respond src status pid k = do { (_, k) \<leftarrow> sys_send src MSG_REPLY (spawn_reply status pid) k; Some k }"

text \<open>
  How the handling of a request ends: answered; a process has been created and runs, and the server
  will answer with its id when it is scheduled again; or the server gives up the processor after a
  kill and will answer then. The last two are completed by \<open>spawn_resume\<close>.
\<close>

datatype spawn_turn = Answered | Started u32 | Killed u32

definition spawn_do_exec :: "ptr \<Rightarrow> ptr \<Rightarrow> u64 \<Rightarrow> u8 list \<Rightarrow> u32 \<Rightarrow> nat \<Rightarrow> kernel \<Rightarrow> (spawn_turn \<times> kernel) option" where
  "spawn_do_exec user_proc req now buf src n k = (let server = k_current k in
      if get32 buf 12 \<noteq> of_nat n then do { k \<leftarrow> spawn_respond src SPAWN_ERROR 0 k; Some (Answered, k) }
      else do {
        (pid, k) \<leftarrow> proc_create_uid src ''user'' user_proc req (get32 buf 20) now k;
        if k_current k \<noteq> server then Some (Started pid, k)
        else do { k \<leftarrow> spawn_respond src (if pid > 0 then SPAWN_OK else SPAWN_ERROR) pid k; Some (Answered, k) } })"

definition spawn_do_kill :: "u8 list \<Rightarrow> u32 \<Rightarrow> kernel \<Rightarrow> (spawn_turn \<times> kernel) option" where
  "spawn_do_kill buf src k = do {
     (y, k) \<leftarrow> proc_kill src (get32 buf 4) (sint (get32 buf 8)) k;
     if y then Some (Killed (get32 buf 4), k)
     else do { k \<leftarrow> spawn_respond src SPAWN_OK (get32 buf 4) k; Some (Answered, k) } }"

text \<open>The reply to an unknown process has an uninitialised word.\<close>

definition spawn_do_getuid :: "u32 \<Rightarrow> u8 list \<Rightarrow> u32 \<Rightarrow> kernel \<Rightarrow> (spawn_turn \<times> kernel) option" where
  "spawn_do_getuid junk buf src k = do {
     k \<leftarrow> (case proc_find (get32 buf 4) k of
            None \<Rightarrow> spawn_respond src SPAWN_ERROR junk k
          | Some p \<Rightarrow> spawn_respond src SPAWN_OK (p_uid (pr k p)) k);
     Some (Answered, k) }"

text \<open>The buffer after \<open>sys_recv\<close>, which is given the size of a pointer and a page.\<close>

definition spawn_receive :: "u8 list \<Rightarrow> u8 list \<Rightarrow> u8 list" where
  "spawn_receive msg buf = (let msg = take (8 + PAGESIZE) msg in msg @ drop (length msg) buf)"

text \<open>The switch on the type of a request, and one turn of the loop of \<open>spawn_proc\<close> for a message that is
  not an error.\<close>

definition spawn_dispatch :: "ptr \<Rightarrow> ptr \<Rightarrow> u32 \<Rightarrow> u64 \<Rightarrow> u8 list \<Rightarrow> u32 \<Rightarrow> nat \<Rightarrow> kernel \<Rightarrow> (spawn_turn \<times> kernel) option" where
  "spawn_dispatch user_proc req junk now buf src n k =
     (if get32 buf 0 = SPAWN_EXEC then spawn_do_exec user_proc req now buf src n k
      else if get32 buf 0 = SPAWN_KILL then spawn_do_kill buf src k
      else if get32 buf 0 = SPAWN_GETUID then spawn_do_getuid junk buf src k
      else None)"

definition spawn_proc :: "ptr \<Rightarrow> ptr \<Rightarrow> u32 \<Rightarrow> u64 \<Rightarrow> u8 list \<Rightarrow> u32 \<Rightarrow> u8 list \<times> kernel \<Rightarrow> (spawn_turn \<times> u8 list \<times> kernel) option" where
  "spawn_proc user_proc req junk now msg src bk = (let (buf, k) = bk;
     buf = spawn_receive msg buf; req_size = length (take (8 + PAGESIZE) msg) in do {
       assert (req_size \<ge> spawn_request_size);
       (turn, k) \<leftarrow> spawn_dispatch user_proc req junk now buf src (req_size - spawn_request_size) k;
       Some (turn, buf, k) })"

definition spawn_resume :: "u32 \<Rightarrow> spawn_turn \<Rightarrow> kernel \<Rightarrow> kernel option" where
  "spawn_resume src turn k = (case turn of
     Answered \<Rightarrow> Some k
   | Started pid \<Rightarrow> spawn_respond src (if pid > 0 then SPAWN_OK else SPAWN_ERROR) pid k
   | Killed pid \<Rightarrow> spawn_respond src SPAWN_OK pid k)"

text \<open>The process of the server; the pointers are \<open>spawn_proc\<close> and its null argument.\<close>

definition spawn_init :: "ptr \<Rightarrow> u64 \<Rightarrow> kernel \<Rightarrow> (u32 \<times> kernel) option" where
  "spawn_init start now k = proc_create 1 ''spawn'' start 0 now k"

section \<open>The start of a user process\<close>

text \<open>
  \<open>user_proc\<close> up to its \<open>file_read\<close>: the result is the executable. Then, with what \<open>file_read\<close>
  returns and the buffer as it is by then, up to the main loop: the header, the stack pointer and the
  bytes copied to it. A block that is smaller than the environment makes the code write before it.
\<close>

definition exec_hdr_size :: nat where "exec_hdr_size = 72"

definition user_proc_open :: "u8 list \<Rightarrow> kernel \<Rightarrow> fid \<times> kernel" where
  "user_proc_open buf k = (\<lparr>fid_server = get32 buf 4, fid_ino = get32 buf 8\<rparr>,
     upd_proc (k_current k) (\<lambda>p. p\<lparr>p_interruptable := (get32 buf 16 \<noteq> 0)\<rparr>) k)"

record user_image =
  ui_header :: exec_header
  ui_sp :: u64
  ui_args :: "u8 list"

definition user_proc_load :: "u8 list option \<Rightarrow> u32 \<Rightarrow> u8 list \<Rightarrow> (user_image \<times> u8 list) option" where
  "user_proc_load r self buf = do {
     hdr \<leftarrow> r;
     assert (length hdr = exec_hdr_size);
     let ge = spawn_request_size + unat (get32 buf 12) - GRASS_ENV_SIZE;
     assert (GRASS_ENV_SIZE \<le> spawn_request_size + unat (get32 buf 12) \<and> ge + GRASS_ENV_SIZE \<le> length buf);
     let buf = take ge buf @ le32 self @ drop (ge + 4) buf;
     let n = unat (get32 buf 12);
     assert (spawn_request_size + n \<le> length buf);
     Some (\<lparr>ui_header = \<lparr>eh_base = get32 hdr 0, eh_offset = get32 hdr 4, eh_size = get32 hdr 8\<rparr>,
            ui_sp = ENV_END - ucast (get32 buf 12), ui_args = take n (drop spawn_request_size buf)\<rparr>, buf) }"

section \<open>The kernel stays consistent\<close>

lemma spawn_respond_inv:
  assumes "kernel_ok k"
  shows "\<exists>r k'. spawn_respond src status pid k = Some k' \<and> kernel_ok k' \<and> evolves k k' \<and>
    delivered (p_pid (pr k (k_current k))) src MSG_REPLY (spawn_reply status pid) k r k'"
proof -
  from proc_send_inv [of "{k_current k}" k "p_pid (pr k (k_current k))" src MSG_REPLY "spawn_reply status pid"] current_inv [OF assms]
  obtain r k' where k': "proc_send (p_pid (pr k (k_current k))) src MSG_REPLY (spawn_reply status pid) k = Some (r, k')"
    "kernel_inv {k_current k} k'" "evolves k k'"
    "delivered (p_pid (pr k (k_current k))) src MSG_REPLY (spawn_reply status pid) k r k'" by blast
  have "kernel_ok k'" using kernel_all_evolves [OF k'(2,3) kernel_okD [OF assms]] evolvesD(1) [OF k'(3)]
    by (simp add: kernel_ok_def)
  with k' show ?thesis by (auto simp: spawn_respond_def sys_send_def)
qed

lemma spawn_do_kill_inv:
  assumes "kernel_ok k"
  shows "\<exists>turn k'. spawn_do_kill buf src k = Some (turn, k') \<and> kernel_ok k'"
proof -
  from proc_kill_inv [OF assms, of src "get32 buf 4" "sint (get32 buf 8)"] obtain y k1 where
    k1: "proc_kill src (get32 buf 4) (sint (get32 buf 8)) k = Some (y, k1)" "kernel_ok k1" by blast
  from spawn_respond_inv [OF k1(2), of src SPAWN_OK "get32 buf 4"] k1 show ?thesis
    by (cases y) (auto simp: spawn_do_kill_def)
qed

lemma spawn_do_getuid_inv:
  assumes "kernel_ok k"
  shows "\<exists>r k'. spawn_do_getuid junk buf src k = Some (Answered, k') \<and> kernel_ok k' \<and>
    delivered (p_pid (pr k (k_current k))) src MSG_REPLY (case proc_find (get32 buf 4) k of
      None \<Rightarrow> spawn_reply SPAWN_ERROR junk | Some p \<Rightarrow> spawn_reply SPAWN_OK (p_uid (pr k p))) k r k'"
proof (cases "proc_find (get32 buf 4) k")
  case None
  with spawn_respond_inv [OF assms, of src SPAWN_ERROR junk] show ?thesis by (auto simp: spawn_do_getuid_def)
next
  case (Some p)
  with spawn_respond_inv [OF assms, of src SPAWN_OK "p_uid (pr k p)"] show ?thesis by (auto simp: spawn_do_getuid_def)
qed

text \<open>A request for a process that cannot be created, and one that is.\<close>

definition no_process :: "u32 \<Rightarrow> kernel \<Rightarrow> bool" where
  "no_process src k \<longleftrightarrow> k_shutting_down k \<or> proc_find src k = None \<or> k_free k = []"

definition started :: "u32 \<Rightarrow> u8 list \<Rightarrow> kernel \<Rightarrow> kernel \<Rightarrow> bool" where
  "started src buf k k' \<longleftrightarrow> k_current k' \<noteq> k_current k \<and> runnable k' (k_current k') \<and>
     p_pid (pr k' (k_current k')) = k_pid_gen k \<and> p_owner (pr k' (k_current k')) = src \<and>
     p_uid (pr k' (k_current k')) = (let u = p_uid (pr k (the (proc_find src k))) in if u \<noteq> 0 then u else get32 buf 20) \<and>
     (\<forall>j. j \<noteq> k_current k' \<longrightarrow> pr k' j = pr k j)"

lemma spawn_do_exec_inv:
  assumes "kernel_ok k" "runnable k (k_current k)" "fresh_pid k"
  shows "\<exists>turn k'. spawn_do_exec user_proc req now buf src n k = Some (turn, k') \<and> kernel_ok k' \<and>
    (if get32 buf 12 = of_nat n \<and> \<not> no_process src k then turn = Started (k_pid_gen k) \<and> started src buf k k'
     else turn = Answered \<and> (\<exists>r. delivered (p_pid (pr k (k_current k))) src MSG_REPLY (spawn_reply SPAWN_ERROR 0) k r k'))"
proof (cases "get32 buf 12 = of_nat n")
  case False
  with spawn_respond_inv [OF assms(1), of src SPAWN_ERROR 0] show ?thesis by (auto simp: spawn_do_exec_def)
next
  case size: True
  from proc_create_inv [OF assms, of src "''user''" user_proc req "get32 buf 20" now] obtain pid k1 where
    c: "proc_create_uid src ''user'' user_proc req (get32 buf 20) now k = Some (pid, k1)" "kernel_ok k1" and
    r: "if no_process src k then pid = 0 \<and> k1 = k
     else pid = k_pid_gen k \<and> k_current k1 = hd (k_free k) \<and> runnable k1 (k_current k1) \<and>
       p_pid (pr k1 (k_current k1)) = pid \<and> p_owner (pr k1 (k_current k1)) = src \<and>
       p_uid (pr k1 (k_current k1)) = (let u = p_uid (pr k (the (proc_find src k))) in if u \<noteq> 0 then u else get32 buf 20) \<and>
       (\<forall>j. j \<noteq> k_current k1 \<longrightarrow> pr k1 j = pr k j)" unfolding no_process_def by (metis (no_types, lifting))
  show ?thesis
  proof (cases "no_process src k")
    case True
    with r c size spawn_respond_inv [OF assms(1), of src SPAWN_ERROR 0] show ?thesis by (auto simp: spawn_do_exec_def)
  next
    case False
    have "queues_ok {k_current k} k" "st k (k_current k) \<noteq> PROC_FREE" using kernel_invD(3,4) conjunct1 [OF current_inv [OF assms(1)]] by blast+
    then have "hd (k_free k) \<noteq> k_current k"
      using False list.set_sel(1) [of "k_free k"] by (auto simp: no_process_def queues_ok_def)
    with r c size False show ?thesis by (auto simp: spawn_do_exec_def started_def)
  qed
qed

end
