(* ===== verification/SpawnProps.thy ===== *)
theory SpawnProps
  imports Spawn
begin

text \<open>
  The properties of the spawn server: it stops on no well-formed request, a process it starts has the
  user of its creator, and the arguments reach the new process unless another request comes in between.
\<close>

section \<open>The buffer\<close>

text \<open>The types of a request the server knows.\<close>

definition spawn_wf :: "u8 list \<Rightarrow> bool" where
  "spawn_wf msg \<longleftrightarrow> spawn_request_size \<le> length msg \<and> get32 msg 0 \<in> {SPAWN_EXEC, SPAWN_KILL, SPAWN_GETUID}"

lemma spawn_receive_length: "length buf = spawn_request_size + PAGESIZE \<Longrightarrow> length (spawn_receive msg buf) = length buf"
  by (simp add: spawn_receive_def Let_def spawn_request_size_def PAGESIZE_def)

lemma spawn_receive_field:
  assumes "i + 4 \<le> length msg" "i + 4 \<le> 8 + PAGESIZE"
  shows "get32 (spawn_receive msg buf) i = get32 msg i"
  using assms by (simp add: spawn_receive_def Let_def get32_def drop_take min_def)

lemma spawn_size_small: "spawn_request_size + i \<le> 8 + PAGESIZE \<longleftrightarrow> i \<le> 4080"
  by (simp add: spawn_request_size_def PAGESIZE_def)

lemma get32_word: "get32 (le32 w @ ys) 0 = w"
  using get32_at [of 0 "[]" w ys] by simp

lemma get32_skip: "i = 4 + j \<Longrightarrow> get32 (le32 w @ ys) i = get32 ys j"
  by (simp add: get32_def drop_append)

lemma exec_request_fields:
  "get32 (exec_request f argb b uid) 0 = SPAWN_EXEC" "get32 (exec_request f argb b uid) 4 = fid_server f"
  "get32 (exec_request f argb b uid) 8 = fid_ino f" "get32 (exec_request f argb b uid) 12 = of_nat (length argb)"
  "get32 (exec_request f argb b uid) 16 = (if b then 1 else 0)" "get32 (exec_request f argb b uid) 20 = uid"
  "length (exec_request f argb b uid) = spawn_request_size + length argb" "drop spawn_request_size (exec_request f argb b uid) = argb"
  by (simp_all add: exec_request_def spawn_request_size_def get32_word get32_skip drop_append)

lemma kill_request_fields:
  "get32 (kill_request pid status) 0 = SPAWN_KILL" "get32 (kill_request pid status) 4 = pid"
  "get32 (kill_request pid status) 8 = word_of_int status" "get32 (kill_request pid status) 12 = 0"
  "length (kill_request pid status) = spawn_request_size"
  by (simp_all add: kill_request_def spawn_request_size_def get32_word get32_skip) (simp add: get32_def numeral_eq_Suc)

lemma getuid_request_fields:
  "get32 (getuid_request pid) 0 = SPAWN_GETUID" "get32 (getuid_request pid) 4 = pid" "length (getuid_request pid) = spawn_request_size"
  by (simp_all add: getuid_request_def spawn_request_size_def get32_word get32_skip)

lemma wf_requests: "spawn_wf (exec_request f argb b uid)" "spawn_wf (kill_request pid status)" "spawn_wf (getuid_request pid)"
  by (simp_all add: spawn_wf_def exec_request_fields kill_request_fields getuid_request_fields)

lemma exec_received:
  assumes "length argb \<le> 4080"
  shows "spawn_receive (exec_request f argb b uid) buf = exec_request f argb b uid @ drop (spawn_request_size + length argb) buf"
  using assms by (simp add: spawn_receive_def Let_def exec_request_fields(7) spawn_request_size_def PAGESIZE_def)

lemma get32_append: "i + 4 \<le> length xs \<Longrightarrow> get32 (xs @ ys) i = get32 xs i"
  by (simp add: get32_def)

lemma user_proc_load_exec:
  assumes "GRASS_ENV_SIZE \<le> length argb" "length argb \<le> 4080" "length buf = spawn_request_size + PAGESIZE" "length hdr = exec_hdr_size"
  shows "\<exists>img buf'. user_proc_load (Some hdr) self (spawn_receive (exec_request f argb b uid) buf) = Some (img, buf') \<and>
    ui_sp img = ENV_END - of_nat (length argb) \<and>
    ui_args img = take (length argb - GRASS_ENV_SIZE) argb @ le32 self @ drop (length argb - GRASS_ENV_SIZE + 4) argb"
proof -
  let ?n = "length argb" and ?q = "exec_request f argb b uid"
  let ?b = "?q @ drop (spawn_request_size + ?n) buf" and ?ge = "spawn_request_size + length argb - GRASS_ENV_SIZE"
  let ?b' = "take ?ge ?b @ le32 self @ drop (?ge + 4) ?b"
  have n: "unat (of_nat ?n :: u32) = ?n" "ucast (of_nat ?n :: u32) = (of_nat ?n :: u64)"
    using assms(2) by (simp_all add: unat32_of_nat unsigned_of_nat take_bit_nat_eq_self)
  have 1: "get32 ?b 12 = of_nat ?n" using assms(1) by (simp add: get32_append exec_request_fields spawn_request_size_def)
  have ge: "spawn_request_size \<le> ?ge" "?ge + GRASS_ENV_SIZE = spawn_request_size + ?n" using assms(1) by simp_all
  have "get32 ?b' 12 = get32 (take ?ge ?b) 12"
    by (rule get32_append) (use ge in \<open>simp add: exec_request_fields spawn_request_size_def\<close>)
  also have "\<dots> = get32 ?b 12" by (rule get32_take) (use ge in \<open>simp add: spawn_request_size_def\<close>)
  finally have 2: "get32 ?b' 12 = of_nat ?n" using 1 by simp
  have 3: "take ?n (drop spawn_request_size ?b') = take (?n - GRASS_ENV_SIZE) argb @ le32 self @ drop (?n - GRASS_ENV_SIZE + 4) argb"
  proof -
    have "?q = take spawn_request_size ?q @ argb" using append_take_drop_id [of spawn_request_size ?q] exec_request_fields(8) by metis
    moreover have "length (take spawn_request_size ?q) = spawn_request_size" by (simp add: exec_request_fields)
    ultimately obtain H where "?q = H @ argb" "length H = spawn_request_size" by blast
    then show ?thesis using assms(1) by (simp add: GRASS_ENV_SIZE_def spawn_request_size_def)
  qed
  have "length ?b \<le> length ?b'" "length ?b = length buf" using assms ge
    by (simp_all add: exec_request_fields spawn_request_size_def PAGESIZE_def GRASS_ENV_SIZE_def)
  then have a: "assert (length hdr = exec_hdr_size) = Some ()" "assert (GRASS_ENV_SIZE \<le> spawn_request_size + ?n \<and> ?ge + GRASS_ENV_SIZE \<le> length ?b) = Some ()"
    "assert (spawn_request_size + ?n \<le> length ?b') = Some ()"
    using assms ge by (simp_all add: PAGESIZE_def)
  show ?thesis unfolding user_proc_load_def exec_received [OF assms(2)] Let_def bind.bind_lunit 1 n(1) a
    unfolding 2 n 3 bind.bind_lunit a by simp
qed


section \<open>Properties of the server\<close>





text \<open>A kernel with a process of the user 7 beside the one of the superuser.\<close>

lemma user_kernel:
  "\<exists>k. kernel_ok k \<and> proc_find 2 k = Some 1 \<and> proc_find 1 k = Some 0 \<and> st k 0 \<noteq> PROC_ZOMBIE \<and> p_uid (pr k 1) = 7 \<and> p_uid (pr k 0) = 0"
proof -
  from proc_create_inv [OF init_ok init_runnable init_fresh, of 1 "''init''" 0 0 7 5] init_find
  obtain k where k: "kernel_ok k" "k_current k = 1" "runnable k 1" "p_pid (pr k 1) = 2" "p_uid (pr k 1) = 7"
    "\<forall>j. j \<noteq> 1 \<longrightarrow> pr k j = pr init_kernel j"
    by (auto simp: upt_conv_Cons init_pr new_process_def)
  have "pr k 0 = new_process 1 ''main'' 0 1" using k(6) by (simp add: init_pr)
  moreover note proc_find_Some [OF conjunct1 [OF current_inv [OF k(1)]]]
  ultimately show ?thesis using k by (intro exI [of _ k]) (auto simp: new_process_def)
qed

text \<open>A kill of a process of another user does nothing to it, but the spawn server still answers that
  it succeeded.\<close>
theorem spawn_kill_denied:
  assumes "kernel_ok k" "length buf = spawn_request_size + PAGESIZE"
    and "proc_find src k = Some z" "proc_find pid k = Some i" "pid \<noteq> 0" "st k i \<noteq> PROC_ZOMBIE"
    and "p_uid (pr k z) \<noteq> 0" "p_uid (pr k z) \<noteq> p_uid (pr k i)"
  shows "\<exists>buf' r k'. spawn_proc user_proc req junk now (kill_request pid status) src (buf, k) = Some (Answered, buf', k') \<and>
    kernel_ok k' \<and> delivered (p_pid (pr k (k_current k))) src MSG_REPLY (spawn_reply SPAWN_OK pid) k r k'"
proof -
  let ?q = "kill_request pid status"
  let ?b = "spawn_receive ?q buf"
  have b: "get32 ?b 0 = SPAWN_KILL" "get32 ?b 4 = pid"
    by (simp_all add: spawn_receive_field kill_request_fields spawn_request_size_def PAGESIZE_def)
  have "proc_kill src pid (sint (get32 ?b 8)) k = Some (False, k)"
    using assms(3-8) by (simp add: proc_kill_def proc_zap_def)
  with spawn_respond_inv [OF assms(1), of src SPAWN_OK pid] b show ?thesis
    by (auto simp: spawn_proc_def spawn_dispatch_def spawn_do_kill_def kill_request_fields Let_def SPAWN_KILL_def SPAWN_EXEC_def
        spawn_request_size_def PAGESIZE_def)
qed

theorem spawn_kill_denied_witness:
  "\<exists>k buf' k'. spawn_proc 0 0 0 9 (kill_request 1 (- 2)) 2 (replicate (spawn_request_size + PAGESIZE) 0, k) = Some (Answered, buf', k') \<and>
    kernel_ok k \<and> kernel_ok k'"
proof -
  from user_kernel obtain k where k: "kernel_ok k" "proc_find 2 k = Some 1" "proc_find 1 k = Some 0" "st k 0 \<noteq> PROC_ZOMBIE"
    "p_uid (pr k 1) = 7" "p_uid (pr k 0) = 0" by blast
  from spawn_kill_denied [OF k(1) _ k(2,3) _ k(4), of "replicate (spawn_request_size + PAGESIZE) 0" 0 0 0 9 "- 2"] k show ?thesis
    by simp blast
qed

section \<open>The arguments of a new process\<close>

lemma mem_bytes_eqD: "mem_bytes m a n = mem_bytes m' b n \<Longrightarrow> i < n \<Longrightarrow> m (a + i) = m' (b + i)"
  using nth_mem_bytes by metis

text \<open>What loading leaves at the stack pointer, byte by byte.\<close>

lemma loaded_bytes:
  assumes "length A = T" "128 \<le> T" "i < T"
  shows "put_bytes u sp (take (T - 128) A @ le32 self @ drop (T - 128 + 4) A) (sp + i) =
    (if T - 128 \<le> i \<and> i < T - 124 then le32 self ! (i - (T - 128)) else A ! i)"
proof -
  have "length (take (T - 128) A @ le32 self @ drop (T - 128 + 4) A) = T" using assms by simp
  with assms(3) show ?thesis by (subst put_bytes_in) (use assms in \<open>auto simp: nth_append\<close>)
qed

lemma env_loaded:
  assumes "\<And>i. i < 128 \<Longrightarrow> u (ge + i) = (if i < 4 then le32 self ! i else m' (a + i))"
    and "mem_bytes m' a 48 = mem_bytes m ge_init 48" "mem_bytes m' (a + 72) 56 = mem_bytes m (ge_init + 72) 56"
  shows "mem32 u ge = self" "mem_bytes u (ge + 4) 44 = mem_bytes m (ge_init + 4) 44" "mem_bytes u (ge + 72) 56 = mem_bytes m (ge_init + 72) 56"
proof -
  have "mem_bytes u ge 4 = le32 self" by (rule nth_equalityI) (use assms(1) in simp_all)
  then show "mem32 u ge = self" by (simp add: mem32_def le32_word_bytes bytes_word_bytes)
  have "u (ge + i) = m (ge_init + i)" if "4 \<le> i" "i < 48 \<or> 72 \<le> i \<and> i < 128" for i
    using that assms(1) [of i] mem_bytes_eqD [OF assms(2), of i] mem_bytes_eqD [OF assms(3), of "i - 72"]
    by (auto simp: add.assoc)
  then show "mem_bytes u (ge + 4) 44 = mem_bytes m (ge_init + 4) 44" "mem_bytes u (ge + 72) 56 = mem_bytes m (ge_init + 72) 56"
    by (intro mem_bytes_cong; simp add: add.assoc)+
qed

text \<open>C36: The arguments of a program arrive: the block that \<open>spawn_load_args\<close> builds for any vector of strings
  that fits into a request, sent in an exec request and loaded by the new process, leaves in the
  memory of that process an environment with the number of the arguments, a null-terminated vector
  of pointers to exactly these strings, its own process id, and the servers, directories and
  files of the creator.\<close>
theorem spawn_args_arrive:
  assumes "args_in m argv argb (argb + block_size args) [0..<length args] args" "block_size args \<le> 4080"
    and "ge_init + GRASS_ENV_SIZE \<le> argb \<or> argb + block_size args \<le> ge_init"
    and "length buf = spawn_request_size + PAGESIZE" "length hdr = exec_hdr_size"
  shows "\<exists>m' img buf'. spawn_load_args ge_init (length args) argv argb m = Some (of_nat (block_size args), m') \<and>
    user_proc_load (Some hdr) self (spawn_receive (exec_request f (mem_bytes m' argb (block_size args)) i uid) buf) = Some (img, buf') \<and>
    (\<forall>u. let u' = put_bytes u (unat (ui_sp img)) (ui_args img); ge = unat ENV_END - GRASS_ENV_SIZE in
       args_at u' ge args \<and> mem32 u' ge = self \<and> mem_bytes u' (ge + 4) 44 = mem_bytes m (ge_init + 4) 44 \<and>
       mem_bytes u' (ge + 72) 56 = mem_bytes m (ge_init + 72) 56)"
proof -
  let ?T = "block_size args" and ?n = "length args"
  have T: "128 \<le> ?T" "?T \<le> 4080" using assms(2) block_size_bounds(1) [of args] by (simp_all add: GRASS_ENV_SIZE_def)
  have b: "?T \<le> 0x10000000" using T by simp
  from load_args_run [OF assms(1) b assms(3)] obtain m' where m': "spawn_load_args ge_init ?n argv argb m = Some (of_nat ?T, m')"
    and p: "mem_bytes m' argb (8 * ?n) = ptrs (ENV_END - of_nat ?T + of_nat (8 * (?n + 1))) args" "mem64 m' (argb + 8 * ?n) = 0"
      "mem_bytes m' (argb + 8 * (?n + 1)) (length (strs args)) = strs args"
      "mem32 m' (argb + ?T - 128 + 48) = of_nat ?n" "mem64 m' (argb + ?T - 128 + 56) = ENV_END - of_nat ?T"
    and e: "mem_bytes m' (argb + ?T - 128) 48 = mem_bytes m ge_init 48" "mem_bytes m' (argb + ?T - 128 + 72) 56 = mem_bytes m (ge_init + 72) 56"
    unfolding Let_def by blast
  let ?A = "mem_bytes m' argb ?T"
  have A: "GRASS_ENV_SIZE \<le> length ?A" "length ?A \<le> 4080" using T by (simp_all add: GRASS_ENV_SIZE_def)
  from user_proc_load_exec [OF A assms(4,5), of self f i uid] obtain img buf' where
    l: "user_proc_load (Some hdr) self (spawn_receive (exec_request f ?A i uid) buf) = Some (img, buf')"
    and img: "ui_sp img = ENV_END - of_nat ?T" "ui_args img = take (?T - 128) ?A @ le32 self @ drop (?T - 128 + 4) ?A"
    by (auto simp: GRASS_ENV_SIZE_def)
  have sp: "unat (ui_sp img) = unat ENV_END - ?T" using stack_address [OF b le0] img(1) by simp
  have z: "\<forall>a\<in>set args. 0 \<notin> set a" using assms(1) by (auto simp: args_in_def list_all2_conv_all_nth in_set_conv_nth cstr_def)
  have "args_at u' ge args \<and> mem32 u' ge = self \<and> mem_bytes u' (ge + 4) 44 = mem_bytes m (ge_init + 4) 44 \<and>
      mem_bytes u' (ge + 72) 56 = mem_bytes m (ge_init + 72) 56"
    if "u' = put_bytes u (unat (ui_sp img)) (ui_args img)" "ge = unat ENV_END - 128" for u u' ge
  proof -
    have v: "u' (unat ENV_END - ?T + i) = (if ?T - 128 \<le> i \<and> i < ?T - 124 then le32 self ! (i - (?T - 128)) else m' (argb + i))"
      if "i < ?T" for i
      using that T loaded_bytes [of ?A ?T i u "unat ENV_END - ?T" self] \<open>u' = _\<close> sp img(2) by simp
    have "args_at u' ge args" unfolding \<open>ge = _\<close> by (rule args_at_copied [OF b z p(1,2,3,4,5)]) (use v T in auto)
    define B where "B = ?T - 128"
    have B: "?T = B + 128" "argb + ?T - 128 = argb + B" "ge = unat ENV_END - ?T + B" using T env_end that(2) by (simp_all add: B_def)
    have "u' (ge + i) = (if i < 4 then le32 self ! i else m' (argb + B + i))" if "i < 128" for i
      using v [of "B + i"] that B by (simp add: add.assoc)
    from env_loaded [OF this e [unfolded B(2)]] show ?thesis using \<open>args_at u' ge args\<close> by simp
  qed
  with m' l show ?thesis by (auto simp: Let_def GRASS_ENV_SIZE_def)
qed

definition one_argument :: mem where
  "one_argument = put_bytes (put_bytes (\<lambda>_. 0) 1000 (le64 2000)) 2000 [97, 98, 0]"

theorem spawn_args_arrive_witness:
  "\<exists>m' img buf'. spawn_load_args 8192 1 1000 4096 one_argument = Some (160, m') \<and>
    user_proc_load (Some (replicate exec_hdr_size 0)) 9 (spawn_receive (exec_request zero_fid (mem_bytes m' 4096 160) True 0)
      (replicate (spawn_request_size + PAGESIZE) 0)) = Some (img, buf') \<and>
    args_at (put_bytes (\<lambda>_. 0) (unat (ui_sp img)) (ui_args img)) (unat ENV_END - GRASS_ENV_SIZE) [[97, 98]]"
proof -
  let ?hi = "4096 + block_size [[97, 98]]"
  have n: "block_size [[97, 98]] = 160" by (simp add: block_size_def GRASS_ENV_SIZE_def)
  have "mem64 one_argument 1000 = 2000" by (simp add: one_argument_def mem64_def mem_put_bytes_out le64_bytes)
  then have "ptr_at one_argument 1000 0 = 2000" by (simp add: ptr_at_def)
  then have "args_in one_argument 1000 4096 ?hi [0..<length [[97, 98 :: u8]]] [[97, 98]]"
    by (simp add: args_in_def n) (simp add: one_argument_def put_bytes_def)
  from spawn_args_arrive [OF this, of 8192 "replicate (spawn_request_size + PAGESIZE) 0" "replicate exec_hdr_size 0" 9 zero_fid True 0]
  show ?thesis by (simp add: n GRASS_ENV_SIZE_def Let_def) blast
qed

lemma user_proc_load_small: "get32 buf 12 = 0 \<Longrightarrow> user_proc_load r self buf = None"
  by (cases r) (simp_all add: user_proc_load_def assert_def spawn_request_size_def GRASS_ENV_SIZE_def)

text \<open>C29: The new process reads its arguments from the buffer of the spawn server only after it has waited for
  its executable. If the server has received another request in the meantime, the process gets the
  arguments of that one: those of another program, or after a kill no block at all, and then its
  process id is written before the buffer.\<close>
theorem spawn_args_race:
  assumes "GRASS_ENV_SIZE \<le> length argb" "length argb \<le> 4080" "length buf = spawn_request_size + PAGESIZE" "length hdr = exec_hdr_size"
    and "length argb' \<le> 4080"
  shows "fst (user_proc_open (spawn_receive (exec_request f' argb' i' uid') buf) k) = f' \<and>
    (\<exists>img buf'. user_proc_load (Some hdr) self (spawn_receive (exec_request f argb i uid) (spawn_receive (exec_request f' argb' i' uid') buf)) =
       Some (img, buf') \<and>
       ui_args img = take (length argb - GRASS_ENV_SIZE) argb @ le32 self @ drop (length argb - GRASS_ENV_SIZE + 4) argb) \<and>
    user_proc_load (Some hdr) self (spawn_receive (kill_request pid status) (spawn_receive (exec_request f' argb' i' uid') buf)) = None"
proof -
  let ?b = "spawn_receive (exec_request f' argb' i' uid') buf"
  have l: "length ?b = spawn_request_size + PAGESIZE" using spawn_receive_length [OF assms(3)] assms(3) by simp
  have "get32 ?b 4 = fid_server f'" "get32 ?b 8 = fid_ino f'"
    by (simp_all add: spawn_receive_field exec_request_fields spawn_request_size_def PAGESIZE_def)
  moreover have "get32 (spawn_receive (kill_request pid status) ?b) 12 = 0"
    by (simp add: spawn_receive_field kill_request_fields spawn_request_size_def PAGESIZE_def)
  ultimately show ?thesis using user_proc_load_exec [OF assms(1,2) l assms(4), of self f i uid]
      user_proc_load_small [of "spawn_receive (kill_request pid status) ?b" "Some hdr" self]
    by (simp add: user_proc_open_def) blast
qed

theorem spawn_args_race_witness:
  "\<exists>img buf'. user_proc_load (Some (replicate exec_hdr_size 0)) 9 (spawn_receive (exec_request zero_fid (replicate 128 1) True 0)
       (spawn_receive (exec_request zero_fid (replicate 200 2) True 0) (replicate (spawn_request_size + PAGESIZE) 0))) = Some (img, buf') \<and>
     ui_args img = le32 9 @ replicate 124 1"
  using spawn_args_race [of "replicate 128 1" "replicate (spawn_request_size + PAGESIZE) 0" "replicate exec_hdr_size 0" "replicate 200 2"
      zero_fid True 0 undefined 9 zero_fid True 0 0 0] by (simp add: GRASS_ENV_SIZE_def)

end
