(* ===== verification/UserSys.thy ===== *)
theory UserSys
  imports KernelProps Paging MemChan
begin

text \<open>
  The system calls of user processes (the second half of \<open>egos/grass/procsys.c\<close>): copying between the
  address space of the current process and the kernel, and the handlers that unmarshal a
  \<open>struct syscall\<close>. It has 40 bytes: the result at 0, the type at 4, and the arguments from 8 on. The
  state is the one of the page fault handler (theory \<open>Paging\<close>), which is an argument, applied to the
  executable and the paging device of the process.

  A handler that waits for a message is cut there. A process that gives an address outside of its address
  space is terminated by the page fault handler, which does not come back.
\<close>

section \<open>Copying\<close>

type_synonym 'd pager = "u64 \<Rightarrow> 'd vm \<Rightarrow> (fault \<times> 'd vm) option"

definition page_of :: "u64 \<Rightarrow> u32" where
  "page_of virt = ucast (virt div of_nat PAGESIZE)"

definition offset_of :: "u64 \<Rightarrow> nat" where
  "offset_of virt = unat (virt mod of_nat PAGESIZE)"

text \<open>The first half of the body of the loop of \<open>copy_user\<close>: whether the process goes on. The accesses
  themselves are those of the machine; one outside of the address space stops the kernel.\<close>

definition touch :: "'d pager \<Rightarrow> u64 \<Rightarrow> 'd vm \<Rightarrow> (bool \<times> 'd vm) option" where
  "touch pf virt v =
     (if tlb_get_entry (page_of virt) (vm_mach v) < 0 then do { (r, v) \<leftarrow> pf virt v; Some (r = Fault_mapped, v) }
      else Some (True, v))"

definition in_space :: "u64 \<Rightarrow> bool" where
  "in_space virt \<longleftrightarrow> VIRT_BASE \<le> virt \<and> virt < VIRT_TOP"

definition load_byte :: "u64 \<Rightarrow> machine \<Rightarrow> u8 option" where
  "load_byte virt m = (if in_space virt then user_load (page_of virt) (offset_of virt) m else None)"

definition store_byte :: "u64 \<Rightarrow> u8 \<Rightarrow> machine \<Rightarrow> machine option" where
  "store_byte virt b m = (if in_space virt then user_store (page_of virt) (offset_of virt) b m else None)"

text \<open>\<open>copy_user\<close> in its two directions; \<open>None\<close> or \<open>False\<close> inside the result is a terminated process.\<close>

fun copy_from_user :: "'d pager \<Rightarrow> u64 \<Rightarrow> nat \<Rightarrow> 'd vm \<Rightarrow> (u8 list option \<times> 'd vm) option" where
  "copy_from_user pf src 0 v = Some (Some [], v)"
| "copy_from_user pf src (Suc n) v = do {
     (ok, v) \<leftarrow> touch pf src v;
     if \<not> ok then Some (None, v)
     else do {
       b \<leftarrow> load_byte src (vm_mach v);
       (r, v) \<leftarrow> copy_from_user pf (src + 1) n v;
       Some (map_option (Cons b) r, v) } }"

fun copy_to_user :: "'d pager \<Rightarrow> u64 \<Rightarrow> u8 list \<Rightarrow> 'd vm \<Rightarrow> (bool \<times> 'd vm) option" where
  "copy_to_user pf dst [] v = Some (True, v)"
| "copy_to_user pf dst (b # bs) v = do {
     (ok, v) \<leftarrow> touch pf dst v;
     if \<not> ok then Some (False, v)
     else do {
       m \<leftarrow> store_byte dst b (vm_mach v);
       copy_to_user pf (dst + 1) bs (v\<lparr>vm_mach := m\<rparr>) } }"

section \<open>Handlers\<close>

definition syscall_size :: nat where "syscall_size = 40"

definition SYS_EXIT :: u32 where "SYS_EXIT = 1"
definition SYS_PRINT :: u32 where "SYS_PRINT = 2"
definition SYS_RECV :: u32 where "SYS_RECV = 3"
definition SYS_SEND :: u32 where "SYS_SEND = 4"
definition SYS_RPC :: u32 where "SYS_RPC = 5"
definition SYS_GETTIME :: u32 where "SYS_GETTIME = 6"

definition put_field :: "nat \<Rightarrow> u8 list \<Rightarrow> u8 list \<Rightarrow> u8 list" where
  "put_field i x sc = take i sc @ x @ drop (i + length x) sc"

definition set_result :: "int \<Rightarrow> u8 list \<Rightarrow> u8 list" where
  "set_result r = put_field 0 (le32 (word_of_int r))"

definition msg_type_of :: "u32 \<Rightarrow> msg_type option" where
  "msg_type_of w = (if w = 0 then Some MSG_REQUEST else if w = 1 then Some MSG_REPLY else if w = 2 then Some MSG_EVENT else None)"

text \<open>
  How far a system call gets: back with the given \<open>struct syscall\<close>, after printing some bytes; waiting for
  a message, or with one there already (the flag says whether it yields); the process has ended.
\<close>

datatype sys_turn = Sys_back "u8 list" "u8 list" | Sys_recv bool "u8 list" | Sys_rpc bool "u8 list" | Sys_ended

definition ps_exit :: "u8 list \<Rightarrow> 'd vm \<Rightarrow> (sys_turn \<times> 'd vm) option" where
  "ps_exit sc v = do { k \<leftarrow> sys_exit (sint (get32 sc 8)) (vm_kernel v); Some (Sys_ended, v\<lparr>vm_kernel := k\<rparr>) }"

text \<open>The format \<open>%.*s\<close> stops at a null byte.\<close>

definition ps_print :: "'d pager \<Rightarrow> u8 list \<Rightarrow> 'd vm \<Rightarrow> (sys_turn \<times> 'd vm) option" where
  "ps_print pf sc v = do {
     (r, v) \<leftarrow> copy_from_user pf (get64 sc 8) (unat (get32 sc 16)) v;
     Some (case r of None \<Rightarrow> Sys_ended | Some bs \<Rightarrow> Sys_back (set_result 0 sc) (takeWhile (\<lambda>b. b \<noteq> 0) bs), v) }"

definition ps_recv :: "u64 \<Rightarrow> u8 list \<Rightarrow> 'd vm \<Rightarrow> (sys_turn \<times> 'd vm) option" where
  "ps_recv now sc v = (case msg_type_of (get32 sc 8) of
     None \<Rightarrow> Some (Sys_back (set_result (- 1) sc) [], v)
   | Some mtype \<Rightarrow> do {
       (r, k) \<leftarrow> sys_recv_wait mtype (get32 sc 12) now (vm_kernel v);
       Some (case r of None \<Rightarrow> Sys_back (set_result (- 1) sc) [] | Some y \<Rightarrow> Sys_recv y sc, v\<lparr>vm_kernel := k\<rparr>) })"

text \<open>The rest of \<open>ps_recv\<close>; the message type is one that \<open>sys_recv\<close> takes.\<close>

definition ps_recv_rest :: "'d pager \<Rightarrow> u8 list \<Rightarrow> 'd vm \<Rightarrow> (sys_turn \<times> 'd vm) option" where
  "ps_recv_rest pf sc v = do {
     mtype \<leftarrow> msg_type_of (get32 sc 8);
     ((n, r), k) \<leftarrow> sys_recv_take mtype (unat (get32 sc 16)) (vm_kernel v);
     let v = v\<lparr>vm_kernel := k\<rparr>;
     let sc = (case r of None \<Rightarrow> sc | Some (_, src) \<Rightarrow> put_field 32 (le32 src) sc);
     let sc = set_result n sc;
     (ok, v) \<leftarrow> (case r of None \<Rightarrow> Some (True, v)
                  | Some (bs, _) \<Rightarrow> if n > 0 then copy_to_user pf (get64 sc 24) bs v else Some (True, v));
     Some (if ok then Sys_back sc [] else Sys_ended, v) }"

definition ps_send :: "'d pager \<Rightarrow> u8 list \<Rightarrow> 'd vm \<Rightarrow> (sys_turn \<times> 'd vm) option" where
  "ps_send pf sc v = do {
     (r, v) \<leftarrow> copy_from_user pf (get64 sc 24) (unat (get32 sc 16)) v;
     (case r of
        None \<Rightarrow> Some (Sys_ended, v)
      | Some bs \<Rightarrow> (case msg_type_of (get32 sc 12) of
            None \<Rightarrow> Some (Sys_back (set_result (- 1) sc) [], v)
          | Some mtype \<Rightarrow> do {
              (n, k) \<leftarrow> sys_send (get32 sc 8) mtype bs (vm_kernel v);
              Some (Sys_back (set_result n sc) [], v\<lparr>vm_kernel := k\<rparr>) })) }"

definition ps_rpc :: "'d pager \<Rightarrow> u64 \<Rightarrow> u8 list \<Rightarrow> 'd vm \<Rightarrow> (sys_turn \<times> 'd vm) option" where
  "ps_rpc pf now sc v = do {
     (r, v) \<leftarrow> copy_from_user pf (get64 sc 16) (unat (get32 sc 12)) v;
     (case r of
        None \<Rightarrow> Some (Sys_ended, v)
      | Some bs \<Rightarrow> do {
          (r, k) \<leftarrow> sys_rpc_send (get32 sc 8) bs now (vm_kernel v);
          Some (case r of None \<Rightarrow> Sys_back (set_result (- 1) sc) [] | Some y \<Rightarrow> Sys_rpc y sc, v\<lparr>vm_kernel := k\<rparr>) }) }"

definition ps_rpc_rest :: "'d pager \<Rightarrow> u8 list \<Rightarrow> 'd vm \<Rightarrow> (sys_turn \<times> 'd vm) option" where
  "ps_rpc_rest pf sc v = do {
     ((n, r), k) \<leftarrow> sys_rpc_reply (get32 sc 8) (unat (get32 sc 24)) (vm_kernel v);
     let v = v\<lparr>vm_kernel := k\<rparr>;
     let sc = set_result n sc;
     (ok, v) \<leftarrow> (case r of None \<Rightarrow> Some (True, v)
                  | Some bs \<Rightarrow> if n > 0 then copy_to_user pf (get64 sc 32) bs v else Some (True, v));
     Some (if ok then Sys_back sc [] else Sys_ended, v) }"

definition ps_gettime :: "u64 \<Rightarrow> u8 list \<Rightarrow> u8 list" where
  "ps_gettime now sc = set_result 0 (put_field 8 (le64 now) sc)"

text \<open>The copy of the \<open>struct syscall\<close> back to the process at the end of \<open>proc_syscall\<close>.\<close>

definition syscall_back :: "'d pager \<Rightarrow> u64 \<Rightarrow> sys_turn \<times> 'd vm \<Rightarrow> (sys_turn \<times> 'd vm) option" where
  "syscall_back pf arg tv = (case tv of
     (Sys_back sc out, v) \<Rightarrow> do {
        (ok, v) \<leftarrow> copy_to_user pf arg sc v;
        Some (if ok then Sys_back sc out else Sys_ended, v) }
   | _ \<Rightarrow> Some tv)"

definition proc_syscall :: "'d pager \<Rightarrow> u64 \<Rightarrow> u64 \<Rightarrow> 'd vm \<Rightarrow> (sys_turn \<times> 'd vm) option" where
  "proc_syscall pf now arg v = do {
     (r, v) \<leftarrow> copy_from_user pf arg syscall_size v;
     (case r of
        None \<Rightarrow> Some (Sys_ended, v)
      | Some sc \<Rightarrow> do {
          tv \<leftarrow> (if get32 sc 4 = SYS_EXIT then ps_exit sc v
             else if get32 sc 4 = SYS_PRINT then ps_print pf sc v
             else if get32 sc 4 = SYS_RECV then ps_recv now sc v
             else if get32 sc 4 = SYS_SEND then ps_send pf sc v
             else if get32 sc 4 = SYS_RPC then ps_rpc pf now sc v
             else if get32 sc 4 = SYS_GETTIME then Some (Sys_back (ps_gettime now sc) [], v)
             else None);
          syscall_back pf arg tv }) }"

text \<open>The rest of \<open>proc_syscall\<close> after a wait.\<close>

definition proc_syscall_rest :: "'d pager \<Rightarrow> u64 \<Rightarrow> sys_turn \<Rightarrow> 'd vm \<Rightarrow> (sys_turn \<times> 'd vm) option" where
  "proc_syscall_rest pf arg turn v = do {
     tv \<leftarrow> (case turn of Sys_recv _ sc \<Rightarrow> ps_recv_rest pf sc v | Sys_rpc _ sc \<Rightarrow> ps_rpc_rest pf sc v | _ \<Rightarrow> Some (turn, v));
     syscall_back pf arg tv }"

section \<open>Mapped memory\<close>

text \<open>An address whose page is mapped, and the byte the process sees there.\<close>

definition user_ok :: "machine \<Rightarrow> u64 \<Rightarrow> bool" where
  "user_ok m a \<longleftrightarrow> in_space a \<and> tlb_get_entry (page_of a) m \<ge> 0 \<and> vprot m (page_of a) AND PROT_READ \<noteq> 0 \<and>
     vprot m (page_of a) AND PROT_WRITE \<noteq> 0 \<and> length (vmem m (page_of a)) = PAGESIZE"

definition user_byte :: "machine \<Rightarrow> u64 \<Rightarrow> u8" where
  "user_byte m a = vmem m (page_of a) ! offset_of a"

definition user_bytes :: "machine \<Rightarrow> u64 \<Rightarrow> nat \<Rightarrow> u8 list" where
  "user_bytes m a n = map (\<lambda>i. user_byte m (a + of_nat i)) [0..<n]"

definition user_range :: "machine \<Rightarrow> u64 \<Rightarrow> nat \<Rightarrow> bool" where
  "user_range m a n \<longleftrightarrow> (\<forall>i<n. user_ok m (a + of_nat i))"

lemma in_space_unat: "in_space a \<longleftrightarrow> 0x10000000 \<le> unat a \<and> unat a < 0x10100000"
  by (simp add: in_space_def VIRT_TOP_def VIRT_BASE_def word_le_nat_alt word_less_nat_alt)

lemma unat_pagesize: "unat (of_nat PAGESIZE :: u64) = PAGESIZE"
  by (simp add: PAGESIZE_def)

lemma unat_page_of: "in_space a \<Longrightarrow> unat (page_of a) = unat a div PAGESIZE"
proof -
  assume a: "in_space a"
  have "unat (a div of_nat PAGESIZE) = unat a div PAGESIZE" by (simp only: unat_div_distrib unat_pagesize)
  moreover have "unat a div PAGESIZE < 2 ^ LENGTH(32)"
    by (rule le_less_trans [OF div_le_dividend]) (use a in \<open>simp add: in_space_unat\<close>)
  ultimately show ?thesis by (simp only: page_of_def unsigned_ucast_eq take_bit_nat_eq_self)
qed

lemma offset_of_unat: "offset_of a = unat a mod PAGESIZE"
  by (simp only: offset_of_def unat_mod_distrib unat_pagesize)

lemma offset_less: "offset_of a < PAGESIZE"
  by (simp add: offset_of_unat PAGESIZE_def)

lemma in_space_page: "in_space a \<Longrightarrow> vpage (page_of a)"
  by (auto simp: vpage_def unat_page_of in_space_unat PAGESIZE_def)

lemma page_offset_inj:
  assumes "in_space a" "in_space b" "page_of a = page_of b" "offset_of a = offset_of b"
  shows "a = b"
proof -
  have "unat a div PAGESIZE = unat b div PAGESIZE" using arg_cong [OF assms(3), of unat] assms(1,2) by (simp only: unat_page_of)
  moreover have "unat a mod PAGESIZE = unat b mod PAGESIZE" using assms(4) by (simp only: offset_of_unat)
  ultimately have "unat a = unat b" by (metis div_mult_mod_eq)
  then show ?thesis by (simp only: word_unat_eq_iff)
qed

lemma touch_mapped: "user_ok (vm_mach v) a \<Longrightarrow> touch pf a v = Some (True, v)"
  by (simp add: touch_def user_ok_def)

lemma load_mapped: "user_ok m a \<Longrightarrow> load_byte a m = Some (user_byte m a)"
  by (simp add: load_byte_def user_ok_def user_load_def user_byte_def in_space_page)

lemma store_mapped:
  assumes "user_ok m a"
  shows "\<exists>m'. store_byte a b m = Some m' \<and> (\<forall>x. user_ok m' x = user_ok m x) \<and>
    (\<forall>x. in_space x \<longrightarrow> user_byte m' x = (if x = a then b else user_byte m x))"
proof -
  let ?m = "m\<lparr>vmem := (vmem m)(page_of a := (vmem m (page_of a))[offset_of a := b])\<rparr>"
  have "store_byte a b m = Some ?m" using assms by (simp add: store_byte_def user_ok_def user_store_def in_space_page)
  moreover have "user_ok ?m x = user_ok m x" for x by (simp add: user_ok_def tlb_get_entry_def)
  moreover have "user_byte ?m x = (if x = a then b else user_byte m x)" if "in_space x" for x
    using page_offset_inj [OF that, of a] assms offset_less [of a] by (auto simp: user_byte_def user_ok_def nth_list_update_if)
  ultimately show ?thesis by blast
qed

lemma user_bytes_Suc: "user_bytes m a (Suc n) = user_byte m a # user_bytes m (a + 1) n"
  by (rule nth_equalityI) (auto simp: user_bytes_def nth_Cons ac_simps simp del: upt_Suc split: nat.split)

lemma user_range_Suc: "user_range m a (Suc n) \<longleftrightarrow> user_ok m a \<and> user_range m (a + 1) n"
  unfolding user_range_def by (auto simp: All_less_Suc2 ac_simps)

lemma copy_from_mapped: "user_range (vm_mach v) a n \<Longrightarrow> copy_from_user pf a n v = Some (Some (user_bytes (vm_mach v) a n), v)"
  by (induction n arbitrary: a) (simp_all add: user_range_Suc touch_mapped load_mapped user_bytes_Suc, simp add: user_bytes_def)

lemma copy_to_mapped:
  assumes "user_range (vm_mach v) a (length bs)" "length bs < 2 ^ 32"
  shows "\<exists>m'. copy_to_user pf a bs v = Some (True, v\<lparr>vm_mach := m'\<rparr>) \<and> (\<forall>x. user_ok m' x = user_ok (vm_mach v) x) \<and>
    user_bytes m' a (length bs) = bs \<and>
    (\<forall>x. in_space x \<and> (\<forall>i<length bs. x \<noteq> a + of_nat i) \<longrightarrow> user_byte m' x = user_byte (vm_mach v) x)"
  using assms
proof (induction bs arbitrary: a v)
  case Nil
  then show ?case by (intro exI [of _ "vm_mach v"]) (simp add: user_bytes_def)
next
  case (Cons b bs)
  then have a: "user_ok (vm_mach v) a" "user_range (vm_mach v) (a + 1) (length bs)" by (simp_all add: user_range_Suc)
  from store_mapped [OF a(1), of b] obtain m1 where m1: "store_byte a b (vm_mach v) = Some m1"
    "\<forall>x. user_ok m1 x = user_ok (vm_mach v) x" "\<forall>x. in_space x \<longrightarrow> user_byte m1 x = (if x = a then b else user_byte (vm_mach v) x)"
    by blast
  have "user_range (vm_mach (v\<lparr>vm_mach := m1\<rparr>)) (a + 1) (length bs)" using a(2) m1(2) by (simp add: user_range_def)
  from Cons.IH [OF this] Cons.prems(2) obtain m' where m': "copy_to_user pf (a + 1) bs (v\<lparr>vm_mach := m1\<rparr>) = Some (True, v\<lparr>vm_mach := m'\<rparr>)"
    "\<forall>x. user_ok m' x = user_ok m1 x" "user_bytes m' (a + 1) (length bs) = bs"
    "\<forall>x. in_space x \<and> (\<forall>i<length bs. x \<noteq> a + 1 + of_nat i) \<longrightarrow> user_byte m' x = user_byte m1 x"
    by auto
  have ne: "a \<noteq> a + 1 + of_nat i" if "i < length bs" for i
  proof
    assume "a = a + 1 + of_nat i"
    then have "(of_nat (Suc i) :: u64) = 0" by (simp add: add.assoc)
    moreover have "unat (of_nat (Suc i) :: u64) = Suc i" 
      using that Cons.prems(2) by (simp only: unsigned_of_nat) (simp add: take_bit_nat_eq_self)
    ultimately show False by simp
  qed
  have in_a: "in_space a" using a(1) by (simp add: user_ok_def)
  have "user_byte m' a = b" using m'(4) m1(3) ne in_a by metis
  moreover have "user_byte m' x = user_byte (vm_mach v) x" if "in_space x" "\<forall>i<length (b # bs). x \<noteq> a + of_nat i" for x
  proof -
    have "x \<noteq> a" "\<forall>i<length bs. x \<noteq> a + 1 + of_nat i" using that(2) by (simp_all add: All_less_Suc2 ac_simps)
    with m'(4) m1(3) that(1) show ?thesis by simp
  qed
  ultimately show ?case using a(1) m1 m' by (intro exI [of _ m']) (simp add: touch_mapped user_bytes_Suc)
qed

section \<open>One page\<close>

lemma unat_word64: "n < 2 ^ LENGTH(64) \<Longrightarrow> unat (of_nat n :: u64) = n"
  by (simp only: unsigned_of_nat take_bit_nat_eq_self of_nat_id)

lemma page_div_mod: "r < PAGESIZE \<Longrightarrow> (PAGESIZE * q + r) div PAGESIZE = q" "r < PAGESIZE \<Longrightarrow> (PAGESIZE * q + r) mod PAGESIZE = r"
  by simp_all

lemma same_page:
  assumes "in_space a" "offset_of a + i < PAGESIZE"
  shows "in_space (a + of_nat i)" "page_of (a + of_nat i) = page_of a" "offset_of (a + of_nat i) = offset_of a + i"
proof -
  let ?q = "unat a div PAGESIZE" and ?r = "unat a mod PAGESIZE"
  have a: "unat a = PAGESIZE * ?q + ?r" by simp
  have r: "?r + i < PAGESIZE" using assms(2) by (simp add: offset_of_unat)
  have q: "0x10000 \<le> ?q" "?q < 0x10100"
    using assms(1) a by (auto simp: in_space_unat PAGESIZE_def)
  have "i < 4096" "unat a < 0x10100000" using r assms(1) by (simp_all add: in_space_unat PAGESIZE_def)
  then have "unat a + i < 2 ^ LENGTH(64)" by simp
  then have u: "unat (a + of_nat i) = unat a + i"
    using unat_word64 [of "unat a + i"] by (simp only: of_nat_add of_nat_unat ucast_id)
  have "(PAGESIZE * ?q + ?r + i) div PAGESIZE = ?q" "(PAGESIZE * ?q + ?r + i) mod PAGESIZE = ?r + i"
    using r page_div_mod [of "?r + i" ?q] by (simp_all only: add.assoc)
  then have d: "unat (a + of_nat i) div PAGESIZE = ?q" "unat (a + of_nat i) mod PAGESIZE = ?r + i"
    unfolding u using a by (simp_all only: mult_div_mod_eq)
  show s: "in_space (a + of_nat i)"
    unfolding in_space_unat u using a q r unfolding PAGESIZE_def by linarith
  show "page_of (a + of_nat i) = page_of a"
    using unat_page_of [OF s] unat_page_of [OF assms(1)] d(1) by (simp only: word_unat_eq_iff)
  show "offset_of (a + of_nat i) = offset_of a + i" by (simp only: offset_of_unat d)
qed

lemma user_page:
  assumes "user_ok m a" "offset_of a + n \<le> PAGESIZE"
  shows "user_range m a n" "user_bytes m a n = take n (drop (offset_of a) (vmem m (page_of a)))"
proof -
  have a: "in_space a" "length (vmem m (page_of a)) = PAGESIZE" using assms(1) by (simp_all add: user_ok_def)
  note s = same_page [OF a(1)]
  show "user_range m a n" using assms s by (simp add: user_range_def user_ok_def)
  show "user_bytes m a n = take n (drop (offset_of a) (vmem m (page_of a)))"
    by (rule nth_equalityI) (use assms(2) a(2) s in \<open>simp_all add: user_bytes_def user_byte_def\<close>)
qed

end
