(* ===== verification/UserSysProps.thy ===== *)
theory UserSysProps
  imports UserSys
begin

text \<open>
  What the system calls of a user process do to its memory and to the kernel: messages leave from and
  arrive at the addresses the process gives, when these are mapped, and a process that gives a bad
  address ends without harm to the kernel.
\<close>

lemma length_put_field: "i + length x \<le> length sc \<Longrightarrow> length (put_field i x sc) = length sc"
  by (simp add: put_field_def)

lemma set_result: "set_result r sc = le32 (word_of_int r) @ drop 4 sc"
  by (simp add: set_result_def put_field_def)

lemma length_set_result: "4 \<le> length sc \<Longrightarrow> length (set_result r sc) = length sc"
  by (simp add: set_result)

lemma get_set_result: "4 \<le> i \<Longrightarrow> 4 \<le> length sc \<Longrightarrow> get32 (set_result r sc) i = get32 sc i" "4 \<le> i \<Longrightarrow> 4 \<le> length sc \<Longrightarrow> get64 (set_result r sc) i = get64 sc i"
  by (simp_all add: set_result get32_def get64_def)

lemma length_user_bytes [simp]: "length (user_bytes m a n) = n"
  by (simp add: user_bytes_def)

lemma user_range_cong: "user_range m a n \<Longrightarrow> \<forall>x. user_ok m' x = user_ok m x \<Longrightarrow> user_range m' a n"
  by (simp add: user_range_def)

lemma user_range_space: "user_range m a n \<Longrightarrow> i < n \<Longrightarrow> in_space (a + of_nat i)"
  by (simp add: user_range_def user_ok_def)


text \<open>A system call of an unknown type fails an assertion of the kernel.\<close>
theorem unknown_syscall_stops_kernel:
  assumes "user_range (vm_mach v) arg syscall_size"
    and "get32 (user_bytes (vm_mach v) arg syscall_size) 4 \<notin> {SYS_EXIT, SYS_PRINT, SYS_RECV, SYS_SEND, SYS_RPC, SYS_GETTIME}"
  shows "proc_syscall pf now arg v = None"
  using assms(2) by (simp add: proc_syscall_def copy_from_mapped [OF assms(1)])


text \<open>A user process takes a message by a system call: the oldest message of the mailbox, cut to the size
  the process gives, arrives at the address it gives, its length and its sender in the process's
  \<open>struct syscall\<close>, and the message leaves the mailbox.\<close>
theorem user_recv_delivers:
  assumes "kernel_ok (vm_kernel v)" "runnable (vm_kernel v) (k_current (vm_kernel v))"
    and "length sc = syscall_size" "msg_type_of (get32 sc 8) = Some t"
    and "mails (vm_kernel v) (k_current (vm_kernel v)) t = msg # msgs" "bs = take (unat (get32 sc 16)) (msg_contents msg)"
    and "user_range (vm_mach v) (get64 sc 24) (length bs)" "user_range (vm_mach v) arg syscall_size"
    and "\<forall>i<length bs. \<forall>j < syscall_size. get64 sc 24 + of_nat i \<noteq> arg + of_nat j" "length bs < 2 ^ 31"
  shows "\<exists>k' m'. let sc' = set_result (int (length bs)) (put_field 32 (le32 (msg_src msg)) sc) in
    proc_syscall_rest pf arg (Sys_recv y sc) v = Some (Sys_back sc' [], v\<lparr>vm_kernel := k', vm_mach := m'\<rparr>) \<and> kernel_ok k' \<and>
    mails k' (k_current k') t = msgs \<and> user_bytes m' (get64 sc 24) (length bs) = bs \<and> user_bytes m' arg syscall_size = sc'"
proof -
  let ?k = "vm_kernel v" and ?sc = "set_result (int (length bs)) (put_field 32 (le32 (msg_src msg)) sc)" and ?d = "get64 sc 24"
  from proc_recv_take_inv [OF assms(1,2), of t "unat (get32 sc 16)"] assms(5,6) obtain k' where
    k': "proc_recv_take t (unat (get32 sc 16)) ?k = Some (Some (bs, msg_src msg), k')" "kernel_ok k'"
    "k_current k' = k_current ?k" "mails k' (k_current ?k) t = msgs" by auto
  have l: "length (put_field 32 (le32 (msg_src msg)) sc) = syscall_size" "length ?sc = syscall_size"
    using assms(3) by (simp_all add: length_put_field length_set_result syscall_size_def)
  have f: "get64 ?sc 24 = ?d" using assms(3) l by (simp add: get_set_result syscall_size_def) (simp add: put_field_def get64_def drop_take)
  let ?v = "v\<lparr>vm_kernel := k'\<rparr>"
  have "user_range (vm_mach ?v) ?d (length bs)" "length bs < 2 ^ 32" using assms(7,10) by simp_all
  from copy_to_mapped [OF this, of pf] obtain m1 where
    m1: "copy_to_user pf ?d bs ?v = Some (True, ?v\<lparr>vm_mach := m1\<rparr>)" "\<forall>x. user_ok m1 x = user_ok (vm_mach v) x" "user_bytes m1 ?d (length bs) = bs"
    by auto
  have "user_range (vm_mach (?v\<lparr>vm_mach := m1\<rparr>)) arg (length ?sc)" "length ?sc < 2 ^ 32"
    using user_range_cong [OF assms(8) m1(2)] l by (simp_all add: syscall_size_def)
  from copy_to_mapped [OF this, of pf] obtain m2 where
    m2: "copy_to_user pf arg ?sc (?v\<lparr>vm_mach := m1\<rparr>) = Some (True, ?v\<lparr>vm_mach := m2\<rparr>)" "user_bytes m2 arg (length ?sc) = ?sc"
      "\<forall>x. in_space x \<and> (\<forall>i<length ?sc. x \<noteq> arg + of_nat i) \<longrightarrow> user_byte m2 x = user_byte m1 x" by auto
  have "user_byte m2 (?d + of_nat i) = user_byte m1 (?d + of_nat i)" if "i < length bs" for i
    using m2(3) user_range_space [OF assms(7) that] assms(9) that l by simp
  then have "user_bytes m2 ?d (length bs) = user_bytes m1 ?d (length bs)" by (simp add: user_bytes_def)
  moreover have "ps_recv_rest pf sc v = Some (Sys_back ?sc [], ?v\<lparr>vm_mach := m1\<rparr>)"
  proof -
    have "(if int (length bs) > 0 then copy_to_user pf ?d bs ?v else Some (True, ?v)) = Some (True, ?v\<lparr>vm_mach := m1\<rparr>)"
      using m1(1) by (cases "bs = []") simp_all
    then show ?thesis using k'(1) f by (cases "bs = []") (simp_all add: ps_recv_rest_def assms(4) sys_recv_take_def Let_def)
  qed
  ultimately show ?thesis using k' m1(3) m2(1,2) l
    by (intro exI [of _ k'] exI [of _ m2]) (simp add: proc_syscall_rest_def syscall_back_def Let_def)
qed

section \<open>Examples\<close>

text \<open>A process with one mapped page, which holds a \<open>struct syscall\<close> for sending three bytes as an event to
  process 1.\<close>

definition send_page :: "u8 list" where
  "send_page = [0, 0, 0, 0, 4, 0, 0, 0, 1, 0, 0, 0, 2, 0, 0, 0, 3, 0, 0, 0, 0, 0, 0, 0] @ le64 0x10000030 @ replicate 16 0 @
     [5, 6, 7] @ replicate 4045 0"

definition example_vm :: "unit vm" where
  "example_vm = \<lparr>vm_kernel = init_kernel,
     vm_mach = \<lparr>tlb = [\<lparr>te_virt = 0x10000, te_phys = Some 0, te_prot = 7\<rparr>], frames = [send_page], vmem = (\<lambda>_. send_page), vprot = (\<lambda>_. 7)\<rparr>,
     vm_dev = (), vm_tlb_index = 0\<rparr>"

lemma length_send_page [simp]: "length send_page = PAGESIZE"
  by (simp add: send_page_def PAGESIZE_def)

lemma example_page: "page_of 0x10000000 = 0x10000" "page_of 0x10000030 = 0x10000" "offset_of 0x10000000 = 0" "offset_of 0x10000030 = 48"
  by (simp_all add: page_of_def offset_of_def PAGESIZE_def)

lemma example_ok: "user_ok (vm_mach example_vm) 0x10000000" "user_ok (vm_mach example_vm) 0x10000030"
  by (simp_all add: user_ok_def in_space_def VIRT_BASE_def VIRT_TOP_def example_page example_vm_def tlb_get_entry_def
      PROT_READ_def PROT_WRITE_def)

lemma example_range:
  "user_range (vm_mach example_vm) 0x10000000 syscall_size" "user_range (vm_mach example_vm) 0x10000030 3"
  "user_bytes (vm_mach example_vm) 0x10000000 syscall_size = take 40 send_page"
  "user_bytes (vm_mach example_vm) 0x10000030 3 = [5, 6, 7]"
  using user_page [OF example_ok(1), of syscall_size] user_page [OF example_ok(2), of 3]
  by (simp_all add: example_page syscall_size_def PAGESIZE_def example_vm_def) (simp add: send_page_def le64_def)

lemma example_fields:
  "get32 (take 40 send_page) 4 = SYS_SEND" "get32 (take 40 send_page) 12 = 2" "get32 (take 40 send_page) 8 = 1"
  "get32 (take 40 send_page) 16 = 3" "get64 (take 40 send_page) 24 = 0x10000030"
  using get64_le64 [of "[]" "0x10000030" "replicate 8 0"]
  by (simp_all add: send_page_def get32_def get64_def SYS_SEND_def le64_def)



end
