(* ===== verification/Spec2Isabelle.thy ===== *)
theory Spec2Isabelle
  imports PartDisk StatDisk CheckDisk ClockDisk CacheDisk RaidDisk TreeDiskChk FatDiskInv P0Queue KernelProps
    FileStack DiskSvr PagingDev PagingInv RamFileSvr ThreadTests ThreadProps TtySvr
    MallocProps MemChanProps StdioProps SpawnProps UserSysProps
begin

text \<open>
  A model of the os4411 teaching kernel (\<open>src/egos\<close>: \<open>earth\<close>, the simulated machine; \<open>grass\<close>, the
  kernel and its servers; \<open>lib\<close>, \<open>apps\<close> and \<open>shared\<close>, the user side) and of the course's queue (\<open>src/p0\<close>).

  \<^bold>\<open>Parts and how they interact.\<close> A disk device answers requests by interrupts and is owned by the disk server. The
  physical block server is a client of the disk server and cuts the disk into a paging partition and a
  file partition. The virtual block server is a client of the physical one: on the file partition it
  stacks the write-through CLOCK cache and the tree file system, whose inodes it serves as disks. The block
  file server is its client and keeps file metadata in inode 0. The directory server keeps directories in
  the files of any file server. Next to these are the file server in memory and the terminal server. All
  servers are processes: the kernel schedules them, carries their messages, and pages their memory to the
  paging partition through the TLB. User programs link the allocator, the string functions, formatted
  output and the thread package.

  \<^bold>\<open>Conventions.\<close> C integers are words of their width, arithmetic wraps as in C. A function that may stop the
  program (an assertion, a panic, \<open>exit\<close>) or not return gives an option, \<open>None\<close> being that it does not
  return to its caller; error codes are ordinary results. State that C keeps behind pointers is a record
  handed through (theory \<open>Prelude\<close> has the notation and shared lemmas). Where the code depends on aliasing (queues,
  heap, strings) there is an explicit heap or a byte memory (\<open>CMemory\<close>). \<open>malloc\<close> in the kernel succeeds unless
  a theory says otherwise. Calls between processes (\<open>sys_rpc\<close>) are arguments of the clients; \<open>rpc_to\<close> and
  \<open>file_rpc_to\<close> connect them to a server's loop body.

  \<^bold>\<open>Block stores\<close> (\<open>grass/block\<close>). \<open>BlockStore\<close>: the method table of \<open>block_store.h\<close> and its contract as the locales
  \<open>block_store\<close> and \<open>resizable_store\<close>: an image (list of blocks), reads and writes inside it, errors outside.
  Every layer is a group \<open>x_nblocks\<close>, \<open>x_setsize\<close>, \<open>x_read\<close>, \<open>x_write\<close>, \<open>x_init\<close> and a
  \<open>sublocale\<close> showing that the layer keeps the contract if the one below does, interpreted on concrete stacks:
  \<open>RamDisk\<close>, \<open>PartDisk\<close>, \<open>StatDisk\<close> (also \<open>debugdisk.c\<close>), \<open>CheckDisk\<close>, \<open>ClockDisk\<close>, \<open>CacheDisk\<close>, \<open>RaidDisk\<close> (RAID 0 and 1,
  with broken stores). \<open>TreeDisk\<close> has the tree file system; \<open>TreeDiskInv\<close> its invariant (no block is used twice or lost),
  \<open>TreeDiskFiles\<close>, \<open>TreeDiskOps\<close> and \<open>TreeDiskCreate\<close> the effect of each operation on a reference disk, and \<open>TreeDiskStore\<close>
  carries these to any block store; \<open>InodeStore\<close> is the contract towards clients. \<open>FatDisk\<close> and \<open>FatDiskInv\<close>: the FAT file system.

  \<^bold>\<open>Servers.\<close> \<open>Bytes\<close>: layout of messages. \<open>BlockSvr\<close>: \<open>blocksvr.c\<close>, its client \<open>shared/block.c\<close> and the remote store \<open>protdisk.c\<close>, which keeps
  the contract of the store behind the server. \<open>DiskSvr\<close>: \<open>disksvr.c\<close> and \<open>earth/devdisk.c\<close> with the event queue of \<open>earth/intr.c\<close>;
  every request is answered once. \<open>PhysSvr\<close>, \<open>VirtSvr\<close>: the two block servers that \<open>main.c\<close> starts.
  \<open>FileSvr\<close>: requests, replies and clients of file servers (\<open>shared/file.c\<close>) and their contract, the locale \<open>file_store\<close>. \<open>RamFileSvr\<close>,
  \<open>BlkFileSvr\<close> with \<open>BlkFileInv\<close>: the two file servers, which keep it. \<open>FileStack\<close>: the whole storage stack, from a blank disk. \<open>DirSvr\<close>, \<open>DirInv\<close>,
  \<open>DirStack\<close>: directories as maps from names to files, over any file server and over the one in memory.
  \<open>TtySvr\<close>: the terminal, as runs of keys and requests.

  \<^bold>\<open>Kernel.\<close> \<open>Queue\<close>: \<open>shared/queue.c\<close> on a heap, refining lists (locale \<open>fifo_queue\<close>); \<open>P0Queue\<close>: the same contract for \<open>p0/queue.c\<close>. \<open>Process\<close>:
  \<open>process.c\<close> and \<open>procsys.c\<close> (creation, multilevel scheduling, messages, system calls of kernel
  processes, termination, killing); the C context switch is the return of an operation with another current process. \<open>ProcessInv\<close>,
  \<open>ProcessPages\<close>, \<open>ProcessRun\<close>, \<open>ProcessProps\<close>, \<open>KernelProps\<close>: the invariant \<open>kernel_ok\<close>, that every operation keeps it and
  stops on no assertion, and the functional properties. \<open>Tlb\<close>: \<open>earth/tlb.c\<close>, \<open>prot.c\<close>, \<open>mem.c\<close>. \<open>Paging\<close>, \<open>PagingInv\<close>, \<open>PagingDev\<close>: frames, the clock
  algorithm, page faults, and paging over a block server.

  \<^bold>\<open>User side.\<close> \<open>CString\<close>: \<open>lib/string.c\<close>. \<open>Malloc\<close>, \<open>MallocInv\<close>, \<open>MallocProps\<close>: \<open>lib/malloc.c\<close>, the headers as a list of disjoint blocks. \<open>MemChan\<close>,
  \<open>MemChanProps\<close>: \<open>lib/memchan.c\<close> and \<open>print.c\<close>. \<open>Threads\<close>, \<open>ThreadsInv\<close>, \<open>ThreadProps\<close>, \<open>ThreadTests\<close>: \<open>apps/mt.c\<close>, threads, semaphores and the three test programs.

  \<^bold>\<open>Bounds and fuel.\<close> The clock hand of \<open>frame_alloc_start\<close> makes at most \<open>2 * PHYS_FRAMES\<close> steps: the first turn clears the use bits, the
  second meets a frame that is not pinned. Loops that may not end are \<open>partial_function\<close>s, and a theorem that uses one shows
  that it returns, or (\<open>treedisk_setsize_diverges\<close>) that it does not. The tests of \<open>mt.c\<close> are
  run for 280, 200 and 55 switches, after which every thread has exited. Sizes in bounds of theorems (files below
  \<open>2 ^ 32\<close> bytes, allocations and texts that fit the address space) are what the C types can hold.

  \<^bold>\<open>Not modelled.\<close> What only calls the host or the processor: \<open>earth/intr.c\<close> (but for its event queue), \<open>clock.c\<close>, \<open>log.c\<close>, \<open>devtty.c\<close>,
  \<open>devudp.c\<close>, \<open>myalloc.c\<close>, \<open>filedisk.c\<close>, context switching, and the loading of host files
  (\<open>ramfile_load\<close>, \<open>blkfile_load\<close>). The start of \<open>main.c\<close>, apart from the servers it connects; the
  marshalling of user system calls (\<open>procsys.c\<close>, \<open>lib/syscall.c\<close>); \<open>spawnsvr.c\<close> and \<open>shared/spawn.c\<close>; the buffered files of \<open>lib/stdio.c\<close>,
  \<open>stdlib.c\<close> and \<open>ctype.c\<close>; the other applications. \<open>sha256.c\<close> and the generated CMake files are not the project's own code; \<open>ema.c\<close> is floating
  point; \<open>tools\<close> and the tests run outside the system; \<open>treedisk_chk.c\<close> is a debugging aid.
\<close>

end
